(* ===== verification/Prelude.thy ===== *)
theory Prelude
  imports Main "HOL-Library.AList" "HOL-Library.Char_ord" "HOL-Library.List_Lexorder"
begin

text \<open>
  Shared vocabulary of the development.

  \<^item> Fallible Rust code (\<open>Result<T, E>\<close>) is a sum \<open>'e + 'a\<close> with \<open>Inl\<close> for the error;
    \<open>sum_bind\<close> is the question-mark operator and \<open>sum_map_list\<close> a loop that stops at the
    first error.
  \<^item> A \<open>HashMap\<close> whose size or membership matters is an association list with distinct keys
    (\<open>AList.update\<close>, \<open>AList.delete\<close>, \<open>map_of\<close>), so that operations stay executable.
  \<^item> A \<open>BTreeMap\<close> is an association list sorted by key; \<open>bt_insert\<close> is its \<open>insert\<close>.
  \<^item> Rust's \<open>String\<close> order is the lexicographic order of the bytes, which is the order the
    library theories \<open>Char_ord\<close> and \<open>List_Lexorder\<close> put on \<open>string\<close>.
  \<^item> Clocks are natural numbers of nanoseconds; reading the clock is a parameter \<open>now\<close>.
\<close>

named_theorems model_simps \<open>unfolding rules for the operations of the model\<close>

section \<open>Results\<close>

type_synonym ('e, 'a) result = "'e + 'a"

definition sum_bind :: "'e + 'a \<Rightarrow> ('a \<Rightarrow> 'e + 'b) \<Rightarrow> 'e + 'b" where
  "sum_bind r f = (case r of Inl e \<Rightarrow> Inl e | Inr a \<Rightarrow> f a)"

lemma sum_bind_simps [simp]:
  "sum_bind (Inl e) f = Inl e"
  "sum_bind (Inr a) f = f a"
  by (simp_all add: sum_bind_def)

lemma sum_bind_InrE [elim!]:
  assumes "sum_bind r f = Inr b"
  obtains a where "r = Inr a" and "f a = Inr b"
  using assms by (cases r) auto

lemma sum_bind_Inl_iff:
  "sum_bind r f = Inl e \<longleftrightarrow> r = Inl e \<or> (\<exists>a. r = Inr a \<and> f a = Inl e)"
  by (cases r) auto

definition map_err :: "('e \<Rightarrow> 'f) \<Rightarrow> 'e + 'a \<Rightarrow> 'f + 'a" where
  "map_err g r = (case r of Inl e \<Rightarrow> Inl (g e) | Inr a \<Rightarrow> Inr a)"

lemma map_err_simps [simp]:
  "map_err g (Inl e) = Inl (g e)"
  "map_err g (Inr a) = Inr a"
  "map_err g r = Inr a \<longleftrightarrow> r = Inr a"
  by (cases r, simp_all add: map_err_def)+

fun sum_map_list :: "('a \<Rightarrow> 'e + 'b) \<Rightarrow> 'a list \<Rightarrow> 'e + 'b list" where
  "sum_map_list f [] = Inr []"
| "sum_map_list f (x # xs) =
     sum_bind (f x) (\<lambda>y. sum_bind (sum_map_list f xs) (\<lambda>ys. Inr (y # ys)))"

lemma sum_map_list_Inr:
  "sum_map_list f xs = Inr ys \<Longrightarrow> list_all2 (\<lambda>x y. f x = Inr y) xs ys"
  by (induction xs arbitrary: ys) auto

definition is_ok :: "'e + 'a \<Rightarrow> bool" where
  "is_ok r = (case r of Inl _ \<Rightarrow> False | Inr _ \<Rightarrow> True)"

lemma is_ok_simps [simp]: "is_ok (Inr a)" "\<not> is_ok (Inl e)"
  by (simp_all add: is_ok_def)

section \<open>Options\<close>

definition is_some_and :: "'a option \<Rightarrow> ('a \<Rightarrow> bool) \<Rightarrow> bool" where
  "is_some_and x p = (case x of None \<Rightarrow> False | Some a \<Rightarrow> p a)"

definition is_none_or :: "'a option \<Rightarrow> ('a \<Rightarrow> bool) \<Rightarrow> bool" where
  "is_none_or x p = (case x of None \<Rightarrow> True | Some a \<Rightarrow> p a)"

definition unwrap_or :: "'a option \<Rightarrow> 'a \<Rightarrow> 'a" where
  "unwrap_or x d = (case x of None \<Rightarrow> d | Some a \<Rightarrow> a)"

lemma option_simps [simp]:
  "is_some_and None p = False" "is_some_and (Some a) p = p a"
  "is_none_or None p = True" "is_none_or (Some a) p = p a"
  "unwrap_or None d = d" "unwrap_or (Some a) d = a"
  by (simp_all add: is_some_and_def is_none_or_def unwrap_or_def)

section \<open>Association lists\<close>

abbreviation keys :: "('k \<times> 'v) list \<Rightarrow> 'k set" where
  "keys xs \<equiv> fst ` set xs"

abbreviation distinct_keys :: "('k \<times> 'v) list \<Rightarrow> bool" where
  "distinct_keys xs \<equiv> distinct (map fst xs)"

lemma map_of_None_keys: "map_of xs k = None \<longleftrightarrow> k \<notin> keys xs"
  by (simp add: map_of_eq_None_iff)

lemma keys_update: "keys (AList.update k v xs) = insert k (keys xs)"
  by (simp add: dom_update flip: dom_map_of_conv_image_fst) (simp add: update_conv')

lemma keys_delete: "keys (AList.delete k xs) = keys xs - {k}"
  by (auto simp: AList.delete_eq)

lemma map_of_update_eq [simp]: "map_of (AList.update k v xs) = (map_of xs)(k \<mapsto> v)"
  by (rule update_conv')

lemma map_of_delete_eq [simp]: "map_of (AList.delete k xs) = (map_of xs)(k := None)"
  by (rule delete_conv')

lemma length_keys: "distinct_keys xs \<Longrightarrow> length xs = card (keys xs)"
  by (metis distinct_card length_map list.set_map)

lemma length_update:
  "length (AList.update k v xs) = (if k \<in> keys xs then length xs else Suc (length xs))"
  by (induction xs) auto

lemma length_delete: "length (AList.delete k xs) \<le> length xs"
  by (simp add: AList.delete_eq)

section \<open>Ordered maps\<close>

definition bt_insert :: "'k::linorder \<Rightarrow> 'v \<Rightarrow> ('k \<times> 'v) list \<Rightarrow> ('k \<times> 'v) list" where
  "bt_insert k v xs = insort_key fst (k, v) (AList.delete k xs)"

abbreviation bt_ok :: "('k::linorder \<times> 'v) list \<Rightarrow> bool" where
  "bt_ok xs \<equiv> sorted (map fst xs) \<and> distinct_keys xs"

lemma set_bt_insert: "set (bt_insert k v xs) = insert (k, v) {p \<in> set xs. fst p \<noteq> k}"
  by (auto simp: bt_insert_def set_insort_key AList.delete_eq)

lemma keys_bt_insert: "keys (bt_insert k v xs) = insert k (keys xs)"
  by (auto simp: set_bt_insert)

lemma sorted_delete: "sorted (map fst xs) \<Longrightarrow> sorted (map fst (AList.delete k xs))"
  by (simp add: AList.delete_eq sorted_filter)

lemma bt_ok_delete: "bt_ok xs \<Longrightarrow> bt_ok (AList.delete k xs)"
  by (simp add: sorted_delete distinct_delete)

lemma distinct_insort_fst:
  "distinct_keys xs \<Longrightarrow> k \<notin> keys xs \<Longrightarrow> distinct_keys (insort_key fst (k, v) xs)"
  by (induction xs) (auto simp: set_insort_key)

lemma bt_ok_insert: "bt_ok xs \<Longrightarrow> bt_ok (bt_insert k v xs)"
  unfolding bt_insert_def
  by (intro conjI distinct_insort_fst)
    (simp_all add: sorted_insort_key sorted_delete keys_delete distinct_delete)

lemma map_of_bt_insert:
  assumes "bt_ok xs"
  shows "map_of (bt_insert k v xs) = (map_of xs)(k \<mapsto> v)"
proof
  fix j
  have d: "distinct_keys (bt_insert k v xs)" "distinct_keys xs"
    using bt_ok_insert [OF assms] assms by auto
  show "map_of (bt_insert k v xs) j = ((map_of xs)(k \<mapsto> v)) j"
  proof (cases "j = k")
    case True
    then show ?thesis
      using map_of_is_SomeI [OF d(1), of k v] by (simp add: set_bt_insert)
  next
    case False
    have "map_of (bt_insert k v xs) j = Some w \<longleftrightarrow> map_of xs j = Some w" for w
      using d False by (auto simp: map_of_eq_Some_iff set_bt_insert)
    then show ?thesis
      using False by (metis fun_upd_other not_None_eq)
  qed
qed

section \<open>Strings\<close>

text \<open>\<open>to_string\<close> of an unsigned and of a signed integer, and \<open>str::replacen(pat, to, 1)\<close>.\<close>

definition digit_char :: "nat \<Rightarrow> char" where
  "digit_char d = char_of (48 + d)"

fun nat_to_string :: "nat \<Rightarrow> string" where
  "nat_to_string n =
     (if n < 10 then [digit_char n] else nat_to_string (n div 10) @ [digit_char (n mod 10)])"

declare nat_to_string.simps [simp del]

definition int_to_string :: "int \<Rightarrow> string" where
  "int_to_string i = (if i < 0 then CHR ''-'' # nat_to_string (nat (- i)) else nat_to_string (nat i))"

fun replace_first :: "string \<Rightarrow> string \<Rightarrow> string \<Rightarrow> string" where
  "replace_first pat to [] = (if pat = [] then to else [])"
| "replace_first pat to (c # s) =
     (if take (length pat) (c # s) = pat then to @ drop (length pat) (c # s)
      else c # replace_first pat to s)"

definition starts_with :: "string \<Rightarrow> string \<Rightarrow> bool" where
  "starts_with s p \<longleftrightarrow> take (length p) s = p"

definition is_ascii_alphanumeric :: "char \<Rightarrow> bool" where
  "is_ascii_alphanumeric c \<longleftrightarrow> (CHR ''a'' \<le> c \<and> c \<le> CHR ''z'') \<or>
     (CHR ''A'' \<le> c \<and> c \<le> CHR ''Z'') \<or> (CHR ''0'' \<le> c \<and> c \<le> CHR ''9'')"

end
