(* ===== verification/Status.thy ===== *)
theory Status
  imports Prelude
begin

text \<open>
  Readiness and etcd synchronisation status (\<open>src/core/status.rs\<close>).

  The record \<open>status\<close> is \<open>RuntimeStatusInner\<close>; every method of \<open>StatusStore\<close> is one function
  on it, run under the store's mutex, so a history of the store is a list of timed operations
  (\<open>status_run\<close>). Instants and durations are nanoseconds; \<open>now\<close> is the clock read by the call.
  Revisions are \<open>i64\<close> values that are only stored and compared, modelled as \<open>int\<close>.
\<close>

section \<open>State\<close>

datatype config_source = Yaml | Etcd

datatype config_error_kind = EtcdUnavailable | CandidateInvalid

fun config_source_as_str :: "config_source \<Rightarrow> string" where
  "config_source_as_str Yaml = ''yaml''"
| "config_source_as_str Etcd = ''etcd''"

record status =
  initialized :: bool
  config_source :: "config_source option"
  st_revision :: "int option"
  st_published_revision :: "int option"
  last_success :: "nat option"
  error_kind :: "config_error_kind option"
  last_error :: "string option"
  connected :: bool
  disconnected_since :: "nat option"
  awaiting_publish_after_reconnect :: bool
  config_stale_after :: nat
  fail_readiness_when_stale :: bool

definition secs :: "nat \<Rightarrow> nat" where
  "secs n = n * 1000000000"

definition status_default :: status where
  "status_default = \<lparr> initialized = False, config_source = None, st_revision = None,
     st_published_revision = None, last_success = None, error_kind = None, last_error = None,
     connected = False, disconnected_since = None, awaiting_publish_after_reconnect = False,
     config_stale_after = secs 300, fail_readiness_when_stale = True \<rparr>"

section \<open>Operations\<close>

definition configure_policy :: "nat \<Rightarrow> bool \<Rightarrow> status \<Rightarrow> status" where
  "configure_policy config_stale_after_secs fail s =
     s\<lparr>config_stale_after := secs config_stale_after_secs, fail_readiness_when_stale := fail\<rparr>"

definition mark_ready :: "nat \<Rightarrow> config_source \<Rightarrow> status \<Rightarrow> status" where
  "mark_ready now source s =
     (let s = s\<lparr>initialized := True, config_source := Some source, last_success := Some now,
                error_kind := None, last_error := None\<rparr>
      in if source = Yaml then s\<lparr>connected := True\<rparr> else s)"

definition mark_etcd_connected :: "nat \<Rightarrow> bool \<Rightarrow> status \<Rightarrow> status" where
  "mark_etcd_connected now c s =
     (let s = (if c then s\<lparr>disconnected_since := None\<rparr>
               else if connected s \<or> disconnected_since s = None
                 then s\<lparr>disconnected_since := Some now\<rparr>
               else s)
      in s\<lparr>connected := c\<rparr>)"

definition begin_etcd_sync :: "status \<Rightarrow> status" where
  "begin_etcd_sync s = s\<lparr>config_source := Some Etcd\<rparr>"

definition set_revision :: "int option \<Rightarrow> status \<Rightarrow> status" where
  "set_revision r s = s\<lparr>st_revision := r\<rparr>"

definition set_published_revision :: "nat \<Rightarrow> int \<Rightarrow> status \<Rightarrow> status" where
  "set_published_revision now r s =
     (let s = s\<lparr>st_published_revision := Some r\<rparr>
      in if config_source s = Some Etcd
         then s\<lparr>initialized := True, last_success := Some now, error_kind := None,
                last_error := None, awaiting_publish_after_reconnect := False\<rparr>
         else s)"

definition record_sync_success :: "nat \<Rightarrow> int \<Rightarrow> status \<Rightarrow> status" where
  "record_sync_success now r s =
     (let s = s\<lparr>st_revision := Some r, last_success := Some now\<rparr>;
          s = (if error_kind s = Some EtcdUnavailable
               then s\<lparr>error_kind := None, last_error := None\<rparr> else s);
          s = (if config_source s = None then s\<lparr>config_source := Some Etcd\<rparr> else s);
          s = (if \<not> connected s \<and> initialized s
               then s\<lparr>awaiting_publish_after_reconnect := True\<rparr> else s)
      in s\<lparr>connected := True, disconnected_since := None\<rparr>)"

definition record_sync_error :: "nat \<Rightarrow> string \<Rightarrow> status \<Rightarrow> status" where
  "record_sync_error now e s =
     (let s = s\<lparr>error_kind := Some EtcdUnavailable, last_error := Some e\<rparr>;
          s = (if connected s \<or> disconnected_since s = None
               then s\<lparr>disconnected_since := Some now\<rparr> else s)
      in s\<lparr>connected := False\<rparr>)"

definition record_preparation_error :: "string \<Rightarrow> status \<Rightarrow> status" where
  "record_preparation_error e s =
     s\<lparr>error_kind := Some CandidateInvalid, last_error := Some e\<rparr>"

section \<open>Readiness\<close>

text \<open>\<open>Instant::elapsed\<close> saturates at zero, as subtraction on \<open>nat\<close> does.\<close>

definition is_stale :: "nat \<Rightarrow> status \<Rightarrow> bool" where
  "is_stale now s =
     (if config_source s \<noteq> Some Etcd then False
      else if connected s then False
      else is_some_and (disconnected_since s) (\<lambda>t. now - t > config_stale_after s))"

definition compute_ready :: "nat \<Rightarrow> status \<Rightarrow> bool" where
  "compute_ready now s =
     (if \<not> initialized s \<or> awaiting_publish_after_reconnect s then False
      else if fail_readiness_when_stale s \<and> is_stale now s then False
      else True)"

definition readiness :: "nat \<Rightarrow> status \<Rightarrow> bool \<times> string option" where
  "readiness now s =
     (let ready = compute_ready now s;
          reason = (if ready then None
                    else if \<not> initialized s then Some ''not_initialized''
                    else if is_stale now s then Some ''config_stale''
                    else if awaiting_publish_after_reconnect s
                      then Some ''awaiting_publish_after_reconnect''
                    else Some ''config_invalid'')
      in (ready, reason))"

record status_view =
  v_initialized :: bool
  v_ready :: bool
  v_config_source :: "string option"
  v_observed_revision :: "int option"
  v_published_revision :: "int option"
  v_revision :: "int option"
  v_connected :: bool
  v_degraded :: bool
  v_degraded_reason :: "string option"
  v_last_success_age_secs :: "nat option"
  v_error_kind :: "config_error_kind option"
  v_last_error :: "string option"

definition status_view_of :: "nat \<Rightarrow> status \<Rightarrow> status_view" where
  "status_view_of now s =
     (let stale = is_stale now s;
          ready = compute_ready now s;
          awaiting = awaiting_publish_after_reconnect s;
          degraded = (initialized s \<and>
            (\<not> connected s \<or> stale \<or> error_kind s \<noteq> None \<or> awaiting));
          degraded_reason =
            (if \<not> initialized s then None
             else if \<not> connected s then Some ''etcd disconnected''
             else if stale then Some ''configuration sync is stale''
             else if error_kind s = Some CandidateInvalid
               then Some ''latest configuration candidate is invalid''
             else if awaiting then Some ''awaiting publish after reconnect''
             else None)
      in \<lparr> v_initialized = initialized s, v_ready = ready,
           v_config_source = map_option config_source_as_str (config_source s),
           v_observed_revision = st_revision s,
           v_published_revision = st_published_revision s,
           v_revision = st_revision s, v_connected = connected s,
           v_degraded = degraded, v_degraded_reason = degraded_reason,
           v_last_success_age_secs =
             map_option (\<lambda>t. (now - t) div secs 1) (last_success s),
           v_error_kind = error_kind s, v_last_error = last_error s \<rparr>)"

definition published_revision :: "status \<Rightarrow> int" where
  "published_revision s = unwrap_or (st_published_revision s) 0"

section \<open>Histories\<close>

datatype status_op =
    ConfigurePolicy nat bool
  | MarkReady config_source
  | MarkEtcdConnected bool
  | BeginEtcdSync
  | SetRevision "int option"
  | SetPublishedRevision int
  | RecordSyncSuccess int
  | RecordSyncError string
  | RecordPreparationError string

fun status_step :: "nat \<Rightarrow> status_op \<Rightarrow> status \<Rightarrow> status" where
  "status_step now (ConfigurePolicy n b) s = configure_policy n b s"
| "status_step now (MarkReady src) s = mark_ready now src s"
| "status_step now (MarkEtcdConnected c) s = mark_etcd_connected now c s"
| "status_step now BeginEtcdSync s = begin_etcd_sync s"
| "status_step now (SetRevision r) s = set_revision r s"
| "status_step now (SetPublishedRevision r) s = set_published_revision now r s"
| "status_step now (RecordSyncSuccess r) s = record_sync_success now r s"
| "status_step now (RecordSyncError e) s = record_sync_error now e s"
| "status_step now (RecordPreparationError e) s = record_preparation_error e s"

fun status_run :: "(nat \<times> status_op) list \<Rightarrow> status \<Rightarrow> status" where
  "status_run [] s = s"
| "status_run ((now, x) # xs) s = status_run xs (status_step now x s)"

fun is_publish :: "status_op \<Rightarrow> bool" where
  "is_publish (SetPublishedRevision _) = True"
| "is_publish _ = False"

lemmas status_ops = configure_policy_def mark_ready_def mark_etcd_connected_def
  begin_etcd_sync_def set_revision_def set_published_revision_def record_sync_success_def
  record_sync_error_def record_preparation_error_def Let_def

lemmas readiness_defs = compute_ready_def is_stale_def readiness_def Let_def

section \<open>Lemmas\<close>

text \<open>What every operation keeps: the fields agree with one another.\<close>

definition status_inv :: "status \<Rightarrow> bool" where
  "status_inv s \<longleftrightarrow>
     (awaiting_publish_after_reconnect s \<longrightarrow> initialized s) \<and>
     (initialized s \<longrightarrow> config_source s \<noteq> None) \<and>
     (error_kind s = None \<longleftrightarrow> last_error s = None)"

lemma status_inv_default: "status_inv status_default"
  by (simp add: status_inv_def status_default_def)

lemma status_inv_step: "status_inv s \<Longrightarrow> status_inv (status_step now x s)"
  by (cases x) (auto simp: status_inv_def status_ops)

lemma awaiting_step:
  "awaiting_publish_after_reconnect s \<Longrightarrow> \<not> is_publish x \<Longrightarrow>
   awaiting_publish_after_reconnect (status_step now x s)"
  by (cases x) (auto simp: status_ops)

lemma awaiting_run:
  "awaiting_publish_after_reconnect s \<Longrightarrow> \<forall>p \<in> set ops. \<not> is_publish (snd p) \<Longrightarrow>
   awaiting_publish_after_reconnect (status_run ops s)"
  by (induction ops s rule: status_run.induct) (auto simp: awaiting_step)

lemma status_inv_run: "status_inv s \<Longrightarrow> status_inv (status_run ops s)"
  by (induction ops s rule: status_run.induct) (auto simp: status_inv_step)

lemma reconnect_sets_awaiting:
  "initialized s \<Longrightarrow> \<not> connected s \<Longrightarrow>
   awaiting_publish_after_reconnect (record_sync_success now r s)"
  by (simp add: status_ops)

text \<open>Failure reports: the operations the synchroniser runs while etcd is unreachable.\<close>

fun is_failure :: "status_op \<Rightarrow> bool" where
  "is_failure (RecordSyncError _) = True"
| "is_failure (RecordPreparationError _) = True"
| "is_failure (MarkEtcdConnected c) = (\<not> c)"
| "is_failure _ = False"

lemma failure_keeps_clock:
  "\<not> connected s \<Longrightarrow> disconnected_since s = Some t \<Longrightarrow> is_failure x \<Longrightarrow>
   \<not> connected (status_step now x s) \<and> disconnected_since (status_step now x s) = Some t"
  by (cases x) (auto simp: status_ops)

lemma failure_frame:
  "is_failure x \<Longrightarrow>
   initialized (status_step now x s) = initialized s \<and>
   config_source (status_step now x s) = config_source s \<and>
   awaiting_publish_after_reconnect (status_step now x s) =
     awaiting_publish_after_reconnect s \<and>
   config_stale_after (status_step now x s) = config_stale_after s \<and>
   fail_readiness_when_stale (status_step now x s) = fail_readiness_when_stale s"
  by (cases x) (auto simp: status_ops)

lemma failures_run:
  assumes "\<not> connected s" and "disconnected_since s = Some t"
    and "\<forall>p \<in> set ops. is_failure (snd p)"
  shows "compute_ready now (status_run ops s) = compute_ready now s"
  using assms
proof (induction ops s rule: status_run.induct)
  case (2 n x xs s)
  have f: "is_failure x" using "2.prems" by simp
  note k = failure_keeps_clock [OF "2.prems"(1,2) f, of n]
  have "compute_ready now (status_run xs (status_step n x s)) =
      compute_ready now (status_step n x s)"
    using "2.IH" k "2.prems"(3) by simp
  also have "\<dots> = compute_ready now s"
    using failure_frame [OF f, of n s] k "2.prems"(1,2)
    by (auto simp: compute_ready_def is_stale_def)
  finally show ?case by simp
qed simp

section \<open>Properties\<close>

text \<open>C36: once the store reconnects after a disconnection, no sequence of list, watch, error,
  policy or readiness calls restores readiness before a configuration snapshot is published.\<close>

theorem readiness_waits_for_publish:
  assumes "initialized s" and "\<not> connected s"
    and "\<forall>p \<in> set ops. \<not> is_publish (snd p)"
  shows "\<not> compute_ready later (status_run ops (record_sync_success now r s))"
  using awaiting_run [OF reconnect_sets_awaiting [OF assms(1,2)] assms(3)]
  by (simp add: compute_ready_def)

theorem readiness_waits_for_publish_witness:
  "\<not> compute_ready 9 (status_run [(3, MarkEtcdConnected True), (4, RecordSyncSuccess 12)]
     (record_sync_success 2 11
       (mark_etcd_connected 1 False (mark_ready 0 Etcd status_default))))"
  by (rule readiness_waits_for_publish)
    (simp_all add: status_ops status_default_def)

text \<open>the readiness verdict and its public reason come from one state: the reason is absent
  exactly when the service is ready, and otherwise names the first of the three conditions that
  closes readiness, so the catch-all reason of the last branch is never reported.\<close>

theorem readiness_reason_exact:
  "readiness now s =
     (compute_ready now s,
      if compute_ready now s then None
      else if \<not> initialized s then Some ''not_initialized''
      else if is_stale now s then Some ''config_stale''
      else Some ''awaiting_publish_after_reconnect'')"
  by (simp add: readiness_def compute_ready_def Let_def)

text \<open>Last known good. When an etcd-backed, ready store loses its connection, any further
  sequence of transport and preparation failures keeps it ready exactly until the time since the
  first failure exceeds the staleness threshold (or for ever when stale readiness is tolerated);
  retries never restart the staleness clock.\<close>

theorem failures_expire_after_threshold:
  assumes "compute_ready t0 s" and "connected s" and "config_source s = Some Etcd"
    and "\<forall>p \<in> set ops. is_failure (snd p)"
  shows "compute_ready now (status_run ops (record_sync_error t0 e s)) \<longleftrightarrow>
    \<not> (fail_readiness_when_stale s \<and> now - t0 > config_stale_after s)"
proof -
  let ?s = "record_sync_error t0 e s"
  have "\<not> connected ?s" "disconnected_since ?s = Some t0"
    using assms(2) by (simp_all add: status_ops)
  from failures_run [OF this assms(4)]
  have "compute_ready now (status_run ops ?s) = compute_ready now ?s" .
  then show ?thesis
    using assms(1-3) by (auto simp: compute_ready_def is_stale_def status_ops split: if_splits)
qed

theorem failures_expire_after_threshold_witness:
  "compute_ready (secs 200) (status_run [(secs 100, RecordSyncError ''refused'')]
     (record_sync_error 5 ''reset'' (mark_etcd_connected 1 True (mark_ready 0 Etcd status_default))))"
  by (subst failures_expire_after_threshold)
    (simp_all add: status_ops status_default_def compute_ready_def is_stale_def secs_def)

text \<open>the invariant of the status record holds in every history from the default state: a
  store that waits for a publication is initialised, an initialised store knows its configuration
  source, and an error kind is present exactly when an error message is.\<close>

theorem status_history_inv: "status_inv (status_run ops status_default)"
  by (rule status_inv_run [OF status_inv_default])

end
