(* ===== verification/Plugin_Core.thy ===== *)
theory Plugin_Core
  imports Prelude "HOL-Library.Word" "HOL-Library.Multiset"
begin

text \<open>
  The plugin contract and the compiled plugin pipeline
  (\<open>src/core/plugin/mod.rs\<close>, \<open>src/core/plugin/pipeline.rs\<close>).

  A plugin is the record of its hooks over one state type \<open>'s\<close> that stands for the request's
  session and \<open>ProxyContext\<close>; a hook returns the state it leaves behind and its result, whose
  error side is Pingora's error type \<open>'e\<close>. Async hooks are awaited one after the other, so
  sequential composition of state transformers is their semantics. Chunk bodies, upstream
  requests and peers that some hooks also receive are part of \<open>'s\<close>.
\<close>

unbundle bit_operations_syntax

section \<open>Rejections and verdicts\<close>

type_synonym status_code = nat

record rejection =
  rj_status :: status_code
  rj_body :: "string option"
  rj_content_type :: "string option"
  rj_headers :: "(string \<times> string) list"
  rj_close_connection :: bool

datatype filter_verdict = Continue | Reject rejection

definition rejection_new :: "status_code \<Rightarrow> rejection" where
  "rejection_new status = \<lparr> rj_status = status, rj_body = None, rj_content_type = None,
     rj_headers = [], rj_close_connection = False \<rparr>"

definition with_body :: "string \<Rightarrow> rejection \<Rightarrow> rejection" where
  "with_body b r = r\<lparr>rj_body := Some b\<rparr>"

definition with_content_type :: "string \<Rightarrow> rejection \<Rightarrow> rejection" where
  "with_content_type c r = r\<lparr>rj_content_type := Some c\<rparr>"

definition with_header :: "string \<Rightarrow> string \<Rightarrow> rejection \<Rightarrow> rejection" where
  "with_header n v r = r\<lparr>rj_headers := rj_headers r @ [(n, v)]\<rparr>"

definition with_headers :: "(string \<times> string) list \<Rightarrow> rejection \<Rightarrow> rejection" where
  "with_headers hs r = r\<lparr>rj_headers := rj_headers r @ hs\<rparr>"

definition with_close_connection :: "rejection \<Rightarrow> rejection" where
  "with_close_connection r = r\<lparr>rj_close_connection := True\<rparr>"

lemmas rejection_defs = rejection_new_def with_body_def with_content_type_def with_header_def
  with_headers_def with_close_connection_def

record exit_transform_rule =
  et_codes :: "nat list"
  et_status_code :: "nat option"
  et_body :: "string option"
  et_headers :: "(string \<times> string) list"

type_synonym exit_transform = "exit_transform_rule list"

definition et_matching :: "exit_transform \<Rightarrow> nat \<Rightarrow> exit_transform_rule option" where
  "et_matching rules status = find (\<lambda>rule. status \<in> set (et_codes rule)) rules"

section \<open>Phases\<close>

type_synonym phases = "8 word"

definition EARLY_REQUEST :: phases where "EARLY_REQUEST = push_bit 0 1"
definition REQUEST :: phases where "REQUEST = push_bit 1 1"
definition UPSTREAM_REQUEST :: phases where "UPSTREAM_REQUEST = push_bit 2 1"
definition REQUEST_BODY :: phases where "REQUEST_BODY = push_bit 3 1"
definition RESPONSE :: phases where "RESPONSE = push_bit 4 1"
definition RESPONSE_BODY :: phases where "RESPONSE_BODY = push_bit 5 1"
definition LOGGING :: phases where "LOGGING = push_bit 6 1"
definition UPSTREAM_PEER :: phases where "UPSTREAM_PEER = push_bit 7 1"

lemmas phase_defs = EARLY_REQUEST_def REQUEST_def UPSTREAM_REQUEST_def REQUEST_BODY_def
  RESPONSE_def RESPONSE_BODY_def LOGGING_def UPSTREAM_PEER_def

definition phases_all :: phases where
  "phases_all = EARLY_REQUEST OR REQUEST OR UPSTREAM_REQUEST OR REQUEST_BODY OR RESPONSE
     OR RESPONSE_BODY OR LOGGING OR UPSTREAM_PEER"

definition phases_contains :: "phases \<Rightarrow> phases \<Rightarrow> bool" where
  "phases_contains self other \<longleftrightarrow> self AND other = other"

definition phases_union :: "phases \<Rightarrow> phases \<Rightarrow> phases" where
  "phases_union self other = self OR other"

definition phases_is_empty :: "phases \<Rightarrow> bool" where
  "phases_is_empty self \<longleftrightarrow> self = 0"

section \<open>Plugins\<close>

text \<open>The unit-result hooks share one shape; \<open>logging\<close> cannot fail.\<close>

record ('s, 'e) plugin =
  pl_name :: string
  pl_priority :: int
  pl_exit_transform :: "exit_transform option"
  pl_request_filter :: "'s \<Rightarrow> 's \<times> ('e + filter_verdict)"
  pl_early_request_filter :: "'s \<Rightarrow> 's \<times> ('e + unit)"
  pl_upstream_request_filter :: "'s \<Rightarrow> 's \<times> ('e + unit)"
  pl_response_filter :: "'s \<Rightarrow> 's \<times> ('e + unit)"
  pl_request_body_filter :: "'s \<Rightarrow> 's \<times> ('e + unit)"
  pl_response_body_filter :: "'s \<Rightarrow> 's \<times> ('e + unit)"
  pl_upstream_peer_filter :: "'s \<Rightarrow> 's \<times> ('e + unit)"
  pl_logging :: "'s \<Rightarrow> 's"

record ('s, 'e) plugin_entry =
  pe_plugin :: "('s, 'e) plugin"
  pe_phases :: phases

definition pe_name :: "('s, 'e) plugin_entry \<Rightarrow> string" where
  "pe_name e = pl_name (pe_plugin e)"

definition pe_priority :: "('s, 'e) plugin_entry \<Rightarrow> int" where
  "pe_priority e = pl_priority (pe_plugin e)"

text \<open>\<open>slice::sort_by\<close> is stable; the library's \<open>insort_key\<close> sort is, too. Comparing the pairs
  (negated priority, name) lexicographically is the closure's \<open>cmp().then_with(cmp)\<close>.\<close>

definition plugin_before :: "('s, 'e) plugin_entry \<Rightarrow> ('s, 'e) plugin_entry \<Rightarrow> bool" where
  "plugin_before a b \<longleftrightarrow> pe_priority a > pe_priority b \<or>
     (pe_priority a = pe_priority b \<and> pe_name a \<le> pe_name b)"

fun insert_entry ::
  "('s, 'e) plugin_entry \<Rightarrow> ('s, 'e) plugin_entry list \<Rightarrow> ('s, 'e) plugin_entry list" where
  "insert_entry x [] = [x]"
| "insert_entry x (y # ys) = (if plugin_before x y then x # y # ys else y # insert_entry x ys)"

fun sort_plugins_by_priority_desc ::
  "('s, 'e) plugin_entry list \<Rightarrow> ('s, 'e) plugin_entry list" where
  "sort_plugins_by_priority_desc [] = []"
| "sort_plugins_by_priority_desc (x # xs) =
     insert_entry x (sort_plugins_by_priority_desc xs)"

section \<open>The executor of one layer\<close>

record ('s, 'e) executor =
  ex_plugins :: "('s, 'e) plugin_entry list"
  ex_early_request :: "('s, 'e) plugin list"
  ex_request :: "('s, 'e) plugin list"
  ex_upstream_request :: "('s, 'e) plugin list"
  ex_request_body :: "('s, 'e) plugin list"
  ex_response :: "('s, 'e) plugin list"
  ex_response_body :: "('s, 'e) plugin list"
  ex_logging :: "('s, 'e) plugin list"
  ex_upstream_peer :: "('s, 'e) plugin list"

definition in_phase :: "phases \<Rightarrow> ('s, 'e) plugin_entry list \<Rightarrow> ('s, 'e) plugin list" where
  "in_phase ph es = map pe_plugin (filter (\<lambda>e. phases_contains (pe_phases e) ph) es)"

definition from_sorted :: "('s, 'e) plugin_entry list \<Rightarrow> ('s, 'e) executor" where
  "from_sorted plugins =
     \<lparr> ex_plugins = plugins,
       ex_early_request = in_phase EARLY_REQUEST plugins,
       ex_request = in_phase REQUEST plugins,
       ex_upstream_request = in_phase UPSTREAM_REQUEST plugins,
       ex_request_body = in_phase REQUEST_BODY plugins,
       ex_response = in_phase RESPONSE plugins,
       ex_response_body = in_phase RESPONSE_BODY plugins,
       ex_logging = in_phase LOGGING plugins,
       ex_upstream_peer = in_phase UPSTREAM_PEER plugins \<rparr>"

definition executor_new :: "('s, 'e) plugin_entry list \<Rightarrow> ('s, 'e) executor" where
  "executor_new plugins = from_sorted (sort_plugins_by_priority_desc plugins)"

definition executor_default :: "('s, 'e) executor" where
  "executor_default = from_sorted []"

definition has_plugin :: "('s, 'e) executor \<Rightarrow> string \<Rightarrow> bool" where
  "has_plugin ex name \<longleftrightarrow> (\<exists>entry \<in> set (ex_plugins ex). pe_name entry = name)"

definition has_plugin_in_phase :: "('s, 'e) executor \<Rightarrow> string \<Rightarrow> phases \<Rightarrow> bool" where
  "has_plugin_in_phase ex name phase =
     (let partition =
        (if phase = EARLY_REQUEST then Some (ex_early_request ex)
         else if phase = REQUEST then Some (ex_request ex)
         else if phase = UPSTREAM_REQUEST then Some (ex_upstream_request ex)
         else if phase = REQUEST_BODY then Some (ex_request_body ex)
         else if phase = RESPONSE then Some (ex_response ex)
         else if phase = RESPONSE_BODY then Some (ex_response_body ex)
         else if phase = LOGGING then Some (ex_logging ex)
         else if phase = UPSTREAM_PEER then Some (ex_upstream_peer ex)
         else None)
      in is_some_and partition (\<lambda>ps. \<exists>p \<in> set ps. pl_name p = name))"

fun find_map :: "('a \<Rightarrow> 'b option) \<Rightarrow> 'a list \<Rightarrow> 'b option" where
  "find_map f [] = None"
| "find_map f (x # xs) = (case f x of None \<Rightarrow> find_map f xs | Some y \<Rightarrow> Some y)"

definition executor_exit_transform :: "('s, 'e) executor \<Rightarrow> exit_transform option" where
  "executor_exit_transform ex = find_map (\<lambda>e. pl_exit_transform (pe_plugin e)) (ex_plugins ex)"

text \<open>The two loops of the executor: the request loop stops at the first verdict other than
  \<open>Continue\<close>, the others at the first error.\<close>

fun run_request :: "('s, 'e) plugin list \<Rightarrow> 's \<Rightarrow> 's \<times> ('e + filter_verdict)" where
  "run_request [] s = (s, Inr Continue)"
| "run_request (p # ps) s =
     (case pl_request_filter p s of
        (s', Inl e) \<Rightarrow> (s', Inl e)
      | (s', Inr Continue) \<Rightarrow> run_request ps s'
      | (s', Inr verdict) \<Rightarrow> (s', Inr verdict))"

fun run_hooks :: "(('s, 'e) plugin \<Rightarrow> 's \<Rightarrow> 's \<times> ('e + unit)) \<Rightarrow>
    ('s, 'e) plugin list \<Rightarrow> 's \<Rightarrow> 's \<times> ('e + unit)" where
  "run_hooks hook [] s = (s, Inr ())"
| "run_hooks hook (p # ps) s =
     (case hook p s of
        (s', Inl e) \<Rightarrow> (s', Inl e)
      | (s', Inr _) \<Rightarrow> run_hooks hook ps s')"

definition ex_request_filter :: "('s, 'e) executor \<Rightarrow> 's \<Rightarrow> 's \<times> ('e + filter_verdict)" where
  "ex_request_filter ex s = run_request (ex_request ex) s"

definition ex_early_request_filter :: "('s, 'e) executor \<Rightarrow> 's \<Rightarrow> 's \<times> ('e + unit)" where
  "ex_early_request_filter ex s = run_hooks pl_early_request_filter (ex_early_request ex) s"

definition ex_upstream_request_filter :: "('s, 'e) executor \<Rightarrow> 's \<Rightarrow> 's \<times> ('e + unit)" where
  "ex_upstream_request_filter ex s =
     run_hooks pl_upstream_request_filter (ex_upstream_request ex) s"

definition ex_response_filter :: "('s, 'e) executor \<Rightarrow> 's \<Rightarrow> 's \<times> ('e + unit)" where
  "ex_response_filter ex s = run_hooks pl_response_filter (ex_response ex) s"

definition ex_request_body_filter :: "('s, 'e) executor \<Rightarrow> 's \<Rightarrow> 's \<times> ('e + unit)" where
  "ex_request_body_filter ex s = run_hooks pl_request_body_filter (ex_request_body ex) s"

definition ex_response_body_filter :: "('s, 'e) executor \<Rightarrow> 's \<Rightarrow> 's \<times> ('e + unit)" where
  "ex_response_body_filter ex s =
     (if ex_response_body ex \<noteq> []
      then run_hooks pl_response_body_filter (ex_response_body ex) s else (s, Inr ()))"

definition ex_upstream_peer_filter :: "('s, 'e) executor \<Rightarrow> 's \<Rightarrow> 's \<times> ('e + unit)" where
  "ex_upstream_peer_filter ex s = run_hooks pl_upstream_peer_filter (ex_upstream_peer ex) s"

definition ex_logging_hook :: "('s, 'e) executor \<Rightarrow> 's \<Rightarrow> 's" where
  "ex_logging_hook ex s = fold pl_logging (ex_logging ex) s"

section \<open>The two-layer pipeline\<close>

record ('s, 'e) pipeline =
  pp_global :: "('s, 'e) executor"
  pp_route :: "('s, 'e) executor"

definition pp_has_plugin :: "('s, 'e) pipeline \<Rightarrow> string \<Rightarrow> bool" where
  "pp_has_plugin pp name \<longleftrightarrow> has_plugin (pp_global pp) name \<or> has_plugin (pp_route pp) name"

definition pp_exit_transform :: "('s, 'e) pipeline \<Rightarrow> exit_transform option" where
  "pp_exit_transform pp =
     (case executor_exit_transform (pp_route pp) of
        Some t \<Rightarrow> Some t
      | None \<Rightarrow> executor_exit_transform (pp_global pp))"

text \<open>\<open>seq_hooks\<close> is the \<open>?\<close>-sequence of one hook on the global and then the route layer.\<close>

definition seq_hooks :: "(('s, 'e) executor \<Rightarrow> 's \<Rightarrow> 's \<times> ('e + unit)) \<Rightarrow>
    ('s, 'e) pipeline \<Rightarrow> 's \<Rightarrow> 's \<times> ('e + unit)" where
  "seq_hooks hook pp s =
     (case hook (pp_global pp) s of
        (s', Inl e) \<Rightarrow> (s', Inl e)
      | (s', Inr _) \<Rightarrow> hook (pp_route pp) s')"

definition pp_early_request_filter :: "('s, 'e) pipeline \<Rightarrow> 's \<Rightarrow> 's \<times> ('e + unit)" where
  "pp_early_request_filter = seq_hooks ex_early_request_filter"

definition pp_upstream_request_filter :: "('s, 'e) pipeline \<Rightarrow> 's \<Rightarrow> 's \<times> ('e + unit)" where
  "pp_upstream_request_filter = seq_hooks ex_upstream_request_filter"

definition pp_response_filter :: "('s, 'e) pipeline \<Rightarrow> 's \<Rightarrow> 's \<times> ('e + unit)" where
  "pp_response_filter = seq_hooks ex_response_filter"

definition pp_response_body_filter :: "('s, 'e) pipeline \<Rightarrow> 's \<Rightarrow> 's \<times> ('e + unit)" where
  "pp_response_body_filter = seq_hooks ex_response_body_filter"

definition pp_upstream_peer_filter :: "('s, 'e) pipeline \<Rightarrow> 's \<Rightarrow> 's \<times> ('e + unit)" where
  "pp_upstream_peer_filter = seq_hooks ex_upstream_peer_filter"

definition pp_request_body_filter :: "('s, 'e) pipeline \<Rightarrow> 's \<Rightarrow> 's \<times> ('e + unit)" where
  "pp_request_body_filter = seq_hooks ex_request_body_filter"

definition pp_logging_hook :: "('s, 'e) pipeline \<Rightarrow> 's \<Rightarrow> 's" where
  "pp_logging_hook pp s = ex_logging_hook (pp_route pp) (ex_logging_hook (pp_global pp) s)"

text \<open>\<open>send\<close> is \<open>utils::response::send_rejection\<close> with the context's pipeline: it writes one
  response to the session and may fail.\<close>

definition pp_request_filter ::
  "(rejection \<Rightarrow> 's \<Rightarrow> 's \<times> ('e + unit)) \<Rightarrow> ('s, 'e) pipeline \<Rightarrow> 's \<Rightarrow> 's \<times> ('e + bool)" where
  "pp_request_filter send pp s =
     (let (s, r) = (case ex_request_filter (pp_global pp) s of
                      (s', Inr Continue) \<Rightarrow> ex_request_filter (pp_route pp) s'
                    | (s', r) \<Rightarrow> (s', r))
      in case r of
           Inl e \<Rightarrow> (s, Inl e)
         | Inr Continue \<Rightarrow> (s, Inr False)
         | Inr (Reject rejection) \<Rightarrow>
             (case send rejection s of
                (s', Inl e) \<Rightarrow> (s', Inl e)
              | (s', Inr _) \<Rightarrow> (s', Inr True)))"

section \<open>Lemmas\<close>

lemma mset_insert_entry: "mset (insert_entry x xs) = add_mset x (mset xs)"
  by (induction xs) auto

lemma mset_sort_plugins: "mset (sort_plugins_by_priority_desc xs) = mset xs"
  by (induction xs) (simp_all add: mset_insert_entry)

lemma set_sort_plugins: "set (sort_plugins_by_priority_desc xs) = set xs"
  by (metis mset_sort_plugins set_mset_mset)

lemma plugin_before_total: "\<not> plugin_before x y \<Longrightarrow> plugin_before y x"
  by (auto simp: plugin_before_def)

lemma plugin_before_trans: "plugin_before x y \<Longrightarrow> plugin_before y z \<Longrightarrow> plugin_before x z"
  by (auto simp: plugin_before_def)

lemma set_insert_entry: "set (insert_entry x xs) = insert x (set xs)"
  by (induction xs) auto

lemma sorted_insert_entry:
  "sorted_wrt plugin_before xs \<Longrightarrow> sorted_wrt plugin_before (insert_entry x xs)"
  by (induction xs)
    (auto simp: set_insert_entry dest: plugin_before_trans plugin_before_total)

lemma sorted_sort_plugins: "sorted_wrt plugin_before (sort_plugins_by_priority_desc xs)"
  by (induction xs) (simp_all add: sorted_insert_entry)

lemma sorted_before_unique:
  assumes "sorted_wrt plugin_before xs" and "sorted_wrt plugin_before ys"
    and "mset xs = mset ys" and "inj_on pe_name (set xs)"
  shows "xs = ys"
  using assms
proof (induction xs arbitrary: ys)
  case (Cons x xs)
  then obtain y ys' where ys: "ys = y # ys'" by (cases ys) auto
  have "x \<in> set ys" "y \<in> set (x # xs)"
    using Cons.prems(3) ys by (metis list.set_intros(1) set_mset_mset)+
  then have "x = y \<or> (plugin_before x y \<and> plugin_before y x)"
    using Cons.prems(1,2) ys by auto
  then have "x = y"
    using Cons.prems(4) \<open>y \<in> set (x # xs)\<close>
    by (auto simp: plugin_before_def inj_on_def)
  moreover have "xs = ys'"
    using Cons.IH [of ys'] Cons.prems ys \<open>x = y\<close> by (auto simp: inj_on_def)
  ultimately show ?case using ys by simp
qed simp

lemma phases_distinct:
  "distinct [EARLY_REQUEST, REQUEST, UPSTREAM_REQUEST, REQUEST_BODY, RESPONSE, RESPONSE_BODY,
     LOGGING, UPSTREAM_PEER]"
  by (simp add: phase_defs)

lemma run_request_append:
  "run_request (ps @ qs) s =
     (case run_request ps s of
        (s', Inr Continue) \<Rightarrow> run_request qs s'
      | r \<Rightarrow> r)"
  by (induction ps s rule: run_request.induct)
    (auto split: prod.splits sum.splits filter_verdict.splits)

lemma run_hooks_append:
  "run_hooks h (ps @ qs) s =
     (case run_hooks h ps s of
        (s', Inl e) \<Rightarrow> (s', Inl e)
      | (s', Inr _) \<Rightarrow> run_hooks h qs s')"
  by (induction h ps s rule: run_hooks.induct) (auto split: prod.splits sum.splits)

end
