(* ===== verification/Limiting.thy ===== *)
theory Limiting
  imports Plugin_Core Complex_Main
begin

text \<open>
  The machinery shared by the local limiters and the circuit breaker
  (\<open>src/plugins/limiter_shards.rs\<close>, \<open>src/plugins/limiting.rs\<close>): the recency index
  \<open>TouchOrder\<close>, one bounded shard with its budgeted sweep and overflow slot, the sharded map,
  and the constructors of a limiter rejection.

  \<open>to_ok n\<close> and \<open>shard_ok n\<close> are the representation invariants; \<open>n\<close> is the number of further
  touches for which the 64-bit touch counter does not wrap around.

  The locale \<open>shard_client\<close> is the interface between the machinery and a limiter: the limiter
  supplies the overflow key, the eviction predicate and the transition of one slot, and promises
  that the transition keeps the slot well formed; the machinery promises everything else.
\<close>

type_synonym u64 = "64 word"
type_synonym u32 = "32 word"
type_synonym u16 = "16 word"

text \<open>Instants are nanoseconds; \<open>as_secs_f64\<close> is a rational number of seconds.\<close>

definition as_secs :: "nat \<Rightarrow> rat" where
  "as_secs ns = of_nat ns / 1000000000"

lemma as_secs_nonneg: "0 \<le> as_secs n"
  by (simp add: as_secs_def)

lemma as_secs_mono: "m \<le> n \<Longrightarrow> as_secs m \<le> as_secs n"
  by (simp add: as_secs_def divide_right_mono)

lemma as_secs_diff: "m \<le> n \<Longrightarrow> as_secs (n - m) = as_secs n - as_secs m"
  by (simp add: as_secs_def of_nat_diff diff_divide_distrib)

section \<open>Recency order\<close>

definition MAX_KEYS :: nat where "MAX_KEYS = 4096"
definition LIMIT_SHARDS :: nat where "LIMIT_SHARDS = 16"
definition PER_SHARD_MAX :: nat where "PER_SHARD_MAX = MAX_KEYS div LIMIT_SHARDS"
definition PER_SHARD_REGULAR_MAX :: nat where "PER_SHARD_REGULAR_MAX = PER_SHARD_MAX - 1"
definition CLEANUP_BUDGET :: nat where "CLEANUP_BUDGET = 8"

lemmas limiter_consts = MAX_KEYS_def LIMIT_SHARDS_def PER_SHARD_MAX_def
  PER_SHARD_REGULAR_MAX_def CLEANUP_BUDGET_def

text \<open>\<open>hash\<close> is the finished 64-bit value of the standard library's keyed hasher.\<close>

definition shard_idx :: "(string \<Rightarrow> u64) \<Rightarrow> string \<Rightarrow> nat" where
  "shard_idx hash key = unat (hash key) mod LIMIT_SHARDS"

record touch_order =
  oldest :: "(u64 \<times> string) list"
  touches :: "(string \<times> u64) list"
  next_touch :: u64

definition touch_order_default :: touch_order where
  "touch_order_default = \<lparr> oldest = [], touches = [], next_touch = 0 \<rparr>"

definition touch :: "string \<Rightarrow> touch_order \<Rightarrow> touch_order" where
  "touch key q =
     (let q = (case map_of (touches q) key of
                 None \<Rightarrow> q
               | Some previous_touch \<Rightarrow>
                   q\<lparr>touches := AList.delete key (touches q),
                     oldest := AList.delete previous_touch (oldest q)\<rparr>);
          n = next_touch q + 1;
          n = (if n = 0 then 1 else n)
      in q\<lparr>next_touch := n, oldest := bt_insert n key (oldest q),
           touches := AList.update key n (touches q)\<rparr>)"

definition pop_oldest :: "touch_order \<Rightarrow> ((u64 \<times> string) \<times> touch_order) option" where
  "pop_oldest q =
     (case oldest q of
        [] \<Rightarrow> None
      | (t, key) # rest \<Rightarrow>
          Some ((t, key), q\<lparr>oldest := rest, touches := AList.delete key (touches q)\<rparr>))"

definition restore :: "u64 \<Rightarrow> string \<Rightarrow> touch_order \<Rightarrow> touch_order" where
  "restore t key q =
     q\<lparr>oldest := bt_insert t key (oldest q), touches := AList.update key t (touches q)\<rparr>"

definition to_ok :: "nat \<Rightarrow> touch_order \<Rightarrow> bool" where
  "to_ok n q \<longleftrightarrow> bt_ok (oldest q) \<and> distinct_keys (touches q) \<and>
     (\<forall>t k. map_of (touches q) k = Some t \<longleftrightarrow> map_of (oldest q) t = Some k) \<and>
     (\<forall>t \<in> keys (oldest q). t \<le> next_touch q) \<and>
     unat (next_touch q) + n < 2 ^ 64"

lemma to_ok_default: "n < 2 ^ 64 \<Longrightarrow> to_ok n touch_order_default"
  by (simp add: to_ok_def touch_order_default_def)

lemma to_ok_mono: "to_ok n q \<Longrightarrow> m \<le> n \<Longrightarrow> to_ok m q"
  by (auto simp: to_ok_def)

lemma word_Suc_bound:
  assumes "unat (w :: u64) + Suc n < 2 ^ 64"
  shows "w + 1 \<noteq> 0" and "w < w + 1" and "unat (w + 1) + n < 2 ^ 64"
proof -
  have u: "unat (w + 1) = unat w + 1"
    using assms by (simp add: unat_word_ariths)
  then show "w + 1 \<noteq> 0" by (metis add_is_0 unat_0 zero_neq_one)
  from u show "w < w + 1" by (simp add: word_less_nat_alt)
  from u assms show "unat (w + 1) + n < 2 ^ 64" by simp
qed

text \<open>Removing a key from both indexes keeps them inverse to one another.\<close>

lemma index_remove:
  assumes inv: "\<And>t k. map_of ts k = Some t \<longleftrightarrow> map_of od t = Some k"
    and "map_of ts key = Some p"
  shows "map_of (AList.delete key ts) k = Some t \<longleftrightarrow> map_of (AList.delete p od) t = Some k"
  using assms(2) inv by (auto; metis option.inject)

lemma index_insert:
  assumes inv: "\<And>t k. map_of ts k = Some t \<longleftrightarrow> map_of od t = Some k"
    and "key \<notin> keys ts" and "p \<notin> keys od" and "bt_ok od"
  shows "map_of (AList.update key p ts) k = Some t \<longleftrightarrow> map_of (bt_insert p key od) t = Some k"
proof -
  have n: "map_of ts key = None" "map_of od p = None"
    using assms by (simp_all add: map_of_None_keys)
  have "map_of ts k = Some t \<Longrightarrow> t \<noteq> p" for k t
    using inv n(2) by (metis option.distinct(1))
  moreover have "map_of od t = Some k \<Longrightarrow> k \<noteq> key" for k t
    using inv n(1) by (metis option.distinct(1))
  ultimately show ?thesis
    using inv by (auto simp: map_of_bt_insert [OF assms(4)])
qed

definition forget :: "string \<Rightarrow> touch_order \<Rightarrow> touch_order" where
  "forget key q = (case map_of (touches q) key of
      None \<Rightarrow> q
    | Some p \<Rightarrow> q\<lparr>touches := AList.delete key (touches q),
                  oldest := AList.delete p (oldest q)\<rparr>)"

lemma forget_ok:
  assumes "to_ok n q"
  shows "to_ok n (forget key q)" and "keys (touches (forget key q)) = keys (touches q) - {key}"
    and "next_touch (forget key q) = next_touch q"
proof -
  show "to_ok n (forget key q)"
  proof (cases "map_of (touches q) key")
    case None
    then show ?thesis using assms by (simp add: forget_def)
  next
    case (Some p)
    have i: "\<And>t k. map_of (touches q) k = Some t \<longleftrightarrow> map_of (oldest q) t = Some k"
      using assms by (simp add: to_ok_def)
    show ?thesis
      using assms index_remove [OF i Some] bt_ok_delete [of "oldest q" p]
      by (auto simp: forget_def to_ok_def Some distinct_delete keys_delete)
  qed
  show "keys (touches (forget key q)) = keys (touches q) - {key}"
    by (cases "map_of (touches q) key")
      (auto simp: forget_def keys_delete map_of_None_keys simp flip: map_of_None_keys)
  show "next_touch (forget key q) = next_touch q"
    by (simp add: forget_def split: option.split)
qed

lemma restore_ok:
  assumes "to_ok n q" and "key \<notin> keys (touches q)" and "t \<notin> keys (oldest q)"
    and "t \<le> next_touch q"
  shows "to_ok n (restore t key q)"
    and "keys (touches (restore t key q)) = insert key (keys (touches q))"
proof -
  have i: "\<And>t k. map_of (touches q) k = Some t \<longleftrightarrow> map_of (oldest q) t = Some k"
    and b: "bt_ok (oldest q)"
    using assms(1) by (simp_all add: to_ok_def)
  show "to_ok n (restore t key q)"
    using assms(1,4) index_insert [OF i assms(2,3) b] bt_ok_insert [OF b, of t key]
    by (auto simp: restore_def to_ok_def distinct_update keys_bt_insert)
  show "keys (touches (restore t key q)) = insert key (keys (touches q))"
    by (simp add: restore_def keys_update)
qed

lemma touch_eq:
  assumes "to_ok (Suc n) q"
  shows "touch key q =
    restore (next_touch q + 1) key (forget key q\<lparr>next_touch := next_touch q + 1\<rparr>)"
proof -
  have "next_touch q + 1 \<noteq> 0"
    using assms word_Suc_bound(1) [of "next_touch q" n] by (simp add: to_ok_def)
  then show ?thesis
    by (simp add: touch_def restore_def forget_def Let_def split: option.split)
qed

lemma touch_ok:
  assumes "to_ok (Suc n) q"
  shows "to_ok n (touch key q)" and "keys (touches (touch key q)) = insert key (keys (touches q))"
proof -
  let ?q = "forget key q\<lparr>next_touch := next_touch q + 1\<rparr>"
  note w = word_Suc_bound [of "next_touch q" n]
  have "unat (next_touch q) + Suc n < 2 ^ 64"
    using assms by (simp add: to_ok_def)
  note w = w [OF this]
  note f = forget_ok [OF assms, of key]
  have le: "\<And>t. t \<in> keys (oldest (forget key q)) \<Longrightarrow> t \<le> next_touch q"
    using f(1,3) by (auto simp: to_ok_def)
  have lt: "t < next_touch q + 1" if "t \<in> keys (oldest (forget key q))" for t
    using le [OF that] w(2) by (rule order.strict_trans1)
  have ok: "to_ok n ?q"
    using f(1) w(3) lt by (auto simp: to_ok_def intro: less_imp_le)
  have "key \<notin> keys (touches ?q)" "next_touch q + 1 \<le> next_touch ?q"
    using f(2) by auto
  moreover have "next_touch q + 1 \<notin> keys (oldest ?q)"
    using lt [of "next_touch q + 1"] by auto
  ultimately have "key \<notin> keys (touches ?q)" "next_touch q + 1 \<notin> keys (oldest ?q)"
    "next_touch q + 1 \<le> next_touch ?q" by simp_all
  note r = restore_ok [OF ok this]
  show "to_ok n (touch key q)"
    using r(1) by (simp add: touch_eq [OF assms])
  show "keys (touches (touch key q)) = insert key (keys (touches q))"
    using r(2) f(2) by (auto simp: touch_eq [OF assms])
qed

lemma pop_oldest_ok:
  assumes "to_ok n q" and "pop_oldest q = Some ((t, key), q')"
  shows "to_ok n q'" and "key \<in> keys (touches q)"
    and "keys (touches q') = keys (touches q) - {key}"
    and "t \<notin> keys (oldest q')" and "t \<le> next_touch q'"
    and "restore t key q' = q \<or> oldest (restore t key q') = oldest q"
proof -
  from assms(2) obtain rest where od: "oldest q = (t, key) # rest"
    and q': "q' = q\<lparr>oldest := rest, touches := AList.delete key (touches q)\<rparr>"
    by (auto simp: pop_oldest_def split: list.splits prod.splits)
  have i: "\<And>t k. map_of (touches q) k = Some t \<longleftrightarrow> map_of (oldest q) t = Some k"
    and b: "bt_ok (oldest q)"
    using assms(1) by (simp_all add: to_ok_def)
  have k: "map_of (touches q) key = Some t"
    using i od by simp
  then show kin: "key \<in> keys (touches q)"
    by (metis map_of_None_keys option.distinct(1))
  have "q' = forget key q"
    using k od b by (auto simp: forget_def q' delete_notin_dom)
  with forget_ok [OF assms(1), of key]
  show "to_ok n q'" and "keys (touches q') = keys (touches q) - {key}" by simp_all
  show tn: "t \<notin> keys (oldest q')"
    using b od by (simp add: q')
  show "t \<le> next_touch q'"
    using assms(1) od by (simp add: to_ok_def q')
  have "insort_key fst (t, key) rest = (t, key) # rest"
    using b od by (cases rest) auto
  then show "restore t key q' = q \<or> oldest (restore t key q') = oldest q"
    using tn by (simp add: restore_def bt_insert_def q' od)
qed

section \<open>Shards\<close>

datatype sweep_miss = Restore | PushBack

record 'v shard =
  entries :: "(string \<times> 'v) list"
  touch_order :: touch_order

definition shard_default :: "'v shard" where
  "shard_default = \<lparr> entries = [], touch_order = touch_order_default \<rparr>"

definition shard_len :: "'v shard \<Rightarrow> nat" where
  "shard_len sh = length (entries sh)"

definition shard_get :: "'v shard \<Rightarrow> string \<Rightarrow> 'v option" where
  "shard_get sh key = map_of (entries sh) key"

definition contains_key :: "'v shard \<Rightarrow> string \<Rightarrow> bool" where
  "contains_key sh key \<longleftrightarrow> shard_get sh key \<noteq> None"

definition shard_touch :: "string \<Rightarrow> 'v shard \<Rightarrow> 'v shard" where
  "shard_touch key sh = sh\<lparr>touch_order := touch key (touch_order sh)\<rparr>"

definition shard_insert :: "string \<Rightarrow> 'v \<Rightarrow> 'v shard \<Rightarrow> 'v shard" where
  "shard_insert key v sh = sh\<lparr>entries := AList.update key v (entries sh)\<rparr>"

definition shard_remove :: "string \<Rightarrow> 'v shard \<Rightarrow> 'v shard" where
  "shard_remove key sh = sh\<lparr>entries := AList.delete key (entries sh)\<rparr>"

definition evict_oldest :: "'v shard \<Rightarrow> 'v shard" where
  "evict_oldest sh =
     (case pop_oldest (touch_order sh) of
        None \<Rightarrow> sh
      | Some ((_, key), q) \<Rightarrow> shard_remove key (sh\<lparr>touch_order := q\<rparr>))"

fun sweep_loop :: "nat \<Rightarrow> ('v \<Rightarrow> bool) \<Rightarrow> sweep_miss \<Rightarrow> 'v shard \<Rightarrow> 'v shard" where
  "sweep_loop 0 evict on_miss sh = sh"
| "sweep_loop (Suc budget) evict on_miss sh =
     (case pop_oldest (touch_order sh) of
        None \<Rightarrow> sh
      | Some ((t, key), q) \<Rightarrow>
          let sh = sh\<lparr>touch_order := q\<rparr> in
          sweep_loop budget evict on_miss
            (if is_none_or (shard_get sh key) evict then shard_remove key sh
             else (case on_miss of
                     Restore \<Rightarrow> sh\<lparr>touch_order := restore t key q\<rparr>
                   | PushBack \<Rightarrow> shard_touch key sh)))"

definition sweep :: "('v \<Rightarrow> bool) \<Rightarrow> sweep_miss \<Rightarrow> 'v shard \<Rightarrow> 'v shard" where
  "sweep evict on_miss sh = sweep_loop CLEANUP_BUDGET evict on_miss sh"

text \<open>
  \<open>admit\<close> returns the storage key of the slot and the shard in which the slot has been touched;
  the Rust returns the map entry of that slot, so \<open>shard_get\<close> on the result is its
  \<open>Occupied\<close>/\<open>Vacant\<close> case and \<open>shard_insert\<close> the write through it.
\<close>

definition admit ::
  "string \<Rightarrow> string \<Rightarrow> ('v shard \<Rightarrow> 'v shard) \<Rightarrow> 'v shard \<Rightarrow> string \<times> 'v shard" where
  "admit key overflow_key swp sh =
     (let new_key = (\<not> contains_key sh key);
          sh = (if new_key \<and> shard_len sh \<ge> PER_SHARD_REGULAR_MAX then swp sh else sh);
          storage_key = (if \<not> new_key \<or> shard_len sh < PER_SHARD_REGULAR_MAX
                         then key else overflow_key)
      in (storage_key, shard_touch storage_key sh))"

definition shard_ok :: "nat \<Rightarrow> 'v shard \<Rightarrow> bool" where
  "shard_ok n sh \<longleftrightarrow> to_ok n (touch_order sh) \<and> distinct_keys (entries sh) \<and>
     keys (entries sh) = keys (touches (touch_order sh))"

definition shard_bounded :: "string \<Rightarrow> 'v shard \<Rightarrow> bool" where
  "shard_bounded ov sh \<longleftrightarrow> shard_len sh \<le> PER_SHARD_REGULAR_MAX \<or>
     (shard_len sh = PER_SHARD_MAX \<and> contains_key sh ov)"

lemma shard_ok_mono: "shard_ok n sh \<Longrightarrow> m \<le> n \<Longrightarrow> shard_ok m sh"
  by (auto simp: shard_ok_def intro: to_ok_mono)

lemma shard_ok_default: "n < 2 ^ 64 \<Longrightarrow> shard_ok n shard_default"
  by (simp add: shard_ok_def shard_default_def to_ok_default)
    (simp add: touch_order_default_def)

lemma contains_key_iff: "contains_key sh key \<longleftrightarrow> key \<in> keys (entries sh)"
  by (metis contains_key_def map_of_None_keys shard_get_def)

lemma shard_get_simps [simp]:
  "shard_get (shard_insert k v sh) j = (if j = k then Some v else shard_get sh j)"
  "shard_get (shard_remove k sh) j = (if j = k then None else shard_get sh j)"
  "shard_get (shard_touch k sh) j = shard_get sh j"
  "shard_get (sh\<lparr>touch_order := q\<rparr>) j = shard_get sh j"
  by (simp_all add: shard_get_def shard_insert_def shard_remove_def shard_touch_def)

lemma shard_len_simps [simp]:
  "shard_len (shard_touch k sh) = shard_len sh"
  "shard_len (sh\<lparr>touch_order := q\<rparr>) = shard_len sh"
  by (simp_all add: shard_len_def shard_touch_def)

lemma shard_len_insert:
  "shard_len (shard_insert k v sh) = (if contains_key sh k then shard_len sh else Suc (shard_len sh))"
  by (simp add: shard_len_def shard_insert_def length_update contains_key_iff)

lemma shard_len_remove: "shard_len (shard_remove k sh) \<le> shard_len sh"
  by (simp add: shard_len_def shard_remove_def length_delete)

lemma shard_pop_remove:
  assumes "shard_ok n sh" and "pop_oldest (touch_order sh) = Some ((t, key), q)"
  shows "shard_ok n (shard_remove key (sh\<lparr>touch_order := q\<rparr>))"
  using assms pop_oldest_ok [of n "touch_order sh" t key q]
  by (auto simp: shard_ok_def shard_remove_def keys_delete distinct_delete)

lemma shard_pop_restore:
  assumes "shard_ok n sh" and "pop_oldest (touch_order sh) = Some ((t, key), q)"
  shows "shard_ok n (sh\<lparr>touch_order := restore t key q\<rparr>)"
proof -
  have ok: "to_ok n (touch_order sh)" using assms(1) by (simp add: shard_ok_def)
  note p = pop_oldest_ok [OF ok assms(2)]
  from p(3) have "key \<notin> keys (touches q)" by simp
  note r = restore_ok [OF p(1) this p(4,5)]
  have "keys (touches (restore t key q)) = keys (touches (touch_order sh))"
    using r(2) p(2,3) by auto
  then show ?thesis using r(1) assms(1) by (simp add: shard_ok_def)
qed

lemma shard_pop_touch:
  assumes "shard_ok (Suc n) sh" and "pop_oldest (touch_order sh) = Some ((t, key), q)"
  shows "shard_ok n (shard_touch key (sh\<lparr>touch_order := q\<rparr>))"
proof -
  have ok: "to_ok (Suc n) (touch_order sh)" using assms(1) by (simp add: shard_ok_def)
  note p = pop_oldest_ok [OF ok assms(2)]
  note t = touch_ok [OF p(1), of key]
  have "keys (touches (touch key q)) = keys (touches (touch_order sh))"
    using t(2) p(2,3) by auto
  then show ?thesis using t(1) assms(1) by (simp add: shard_ok_def shard_touch_def)
qed

lemma sweep_loop_ok: "shard_ok (b + n) sh \<Longrightarrow> shard_ok n (sweep_loop b ev m sh)"
proof (induction b ev m sh rule: sweep_loop.induct)
  case (2 b ev m sh)
  show ?case
  proof (cases "pop_oldest (touch_order sh)")
    case None
    then show ?thesis using "2.prems" by (auto intro: shard_ok_mono)
  next
    case (Some a)
    obtain t key q where a: "a = ((t, key), q)" by (metis surj_pair)
    let ?sh = "sh\<lparr>touch_order := q\<rparr>"
    have pop: "pop_oldest (touch_order sh) = Some ((t, key), q)" using Some a by simp
    have ok: "shard_ok (Suc (b + n)) sh" using "2.prems" by simp
    have "shard_ok (b + n) (if is_none_or (shard_get ?sh key) ev then shard_remove key ?sh
       else (case m of Restore \<Rightarrow> ?sh\<lparr>touch_order := restore t key q\<rparr>
             | PushBack \<Rightarrow> shard_touch key ?sh))"
      using shard_pop_remove [OF ok pop] shard_pop_restore [OF ok pop] shard_pop_touch [OF ok pop]
      by (auto split: sweep_miss.split intro: shard_ok_mono)
    from "2.IH" [OF Some a [symmetric] refl refl this] show ?thesis
      using Some a by (simp add: Let_def)
  qed
qed (simp)

text \<open>A sweep only removes entries that meet the eviction predicate, and adds none.\<close>

lemma sweep_loop_get:
  "(shard_get (sweep_loop b ev m sh) k = shard_get sh k) \<or>
   (shard_get (sweep_loop b ev m sh) k = None \<and> (\<exists>v. shard_get sh k = Some v \<and> ev v))"
proof (induction b ev m sh rule: sweep_loop.induct)
  case (2 b ev m sh)
  show ?case
  proof (cases "pop_oldest (touch_order sh)")
    case None
    then show ?thesis by simp
  next
    case (Some a)
    obtain t key q where a: "a = ((t, key), q)" by (metis surj_pair)
    note IH = "2.IH" [OF Some a [symmetric] refl refl]
    show ?thesis
      using IH Some a
      by (cases m; cases "shard_get sh key") (auto split: if_splits)
  qed
qed (simp)

lemma sweep_loop_len: "shard_len (sweep_loop b ev m sh) \<le> shard_len sh"
proof (induction b ev m sh rule: sweep_loop.induct)
  case (2 b ev m sh)
  show ?case
  proof (cases "pop_oldest (touch_order sh)")
    case None
    then show ?thesis by simp
  next
    case (Some a)
    obtain t key q where a: "a = ((t, key), q)" by (metis surj_pair)
    note IH = "2.IH" [OF Some a [symmetric] refl refl]
    show ?thesis
      using IH Some a shard_len_remove [of key "sh\<lparr>touch_order := q\<rparr>"]
      by (cases m; cases "shard_get sh key") (auto split: if_splits)
  qed
qed (simp)

lemma sweep_ok: "shard_ok (n + CLEANUP_BUDGET) sh \<Longrightarrow> shard_ok n (sweep ev m sh)"
  by (simp add: sweep_def sweep_loop_ok add.commute)

lemma sweep_get_other:
  "shard_get sh k = Some v \<Longrightarrow> \<not> ev v \<Longrightarrow> shard_get (sweep ev m sh) k = Some v"
  using sweep_loop_get [of CLEANUP_BUDGET ev m sh k] by (auto simp: sweep_def)

lemma sweep_get_Some: "shard_get (sweep ev m sh) k = Some v \<Longrightarrow> shard_get sh k = Some v"
  using sweep_loop_get [of CLEANUP_BUDGET ev m sh k] by (auto simp: sweep_def)

lemma sweep_len: "shard_len (sweep ev m sh) \<le> shard_len sh"
  by (simp add: sweep_def sweep_loop_len)


lemma length_delete_less: "k \<in> keys xs \<Longrightarrow> length (AList.delete k xs) < length xs"
  by (induction xs) (auto simp: le_imp_less_Suc length_delete)

lemma sweep_loop_strict:
  "shard_len (sweep_loop b ev m sh) < shard_len sh \<or>
   (\<forall>k. shard_get (sweep_loop b ev m sh) k = shard_get sh k)"
proof (induction b ev m sh rule: sweep_loop.induct)
  case (2 b ev m sh)
  show ?case
  proof (cases "pop_oldest (touch_order sh)")
    case None
    then show ?thesis by simp
  next
    case (Some a)
    obtain t key q where a: "a = ((t, key), q)" by (metis surj_pair)
    let ?sh = "sh\<lparr>touch_order := q\<rparr>"
    note IH = "2.IH" [OF Some a [symmetric] refl refl]
    have le: "shard_len (sweep_loop b ev m (shard_remove key ?sh)) \<le> shard_len (shard_remove key ?sh)"
      by (rule sweep_loop_len)
    have lt: "contains_key sh key \<Longrightarrow> shard_len (shard_remove key ?sh) < shard_len sh"
      by (simp add: shard_len_def shard_remove_def contains_key_iff length_delete_less)
    show ?thesis
    proof (cases "shard_get sh key")
      case None
      then have "shard_remove key ?sh = ?sh"
        by (simp add: shard_remove_def shard_get_def map_of_None_keys)
      then show ?thesis
        using IH Some a None by simp
    next
      case (Some v)
      then show ?thesis
        using IH \<open>pop_oldest _ = _\<close> a le lt
        by (cases m) (auto simp: contains_key_def Let_def split: if_splits)
    qed
  qed
qed (simp)

lemma sweep_unchanged:
  "shard_len (sweep ev m sh) = shard_len sh \<Longrightarrow> shard_get (sweep ev m sh) k = shard_get sh k"
  using sweep_loop_strict [of CLEANUP_BUDGET ev m sh] by (auto simp: sweep_def)

lemma shard_touch_ok:
  "shard_ok (Suc n) sh \<Longrightarrow> shard_ok n (shard_insert k v (shard_touch k sh))"
  using touch_ok [of n "touch_order sh" k]
  by (auto simp: shard_ok_def shard_insert_def shard_touch_def keys_update distinct_update)

definition admit_room :: nat where "admit_room = Suc CLEANUP_BUDGET"

text \<open>The write of a slot: \<open>admit\<close>, then the limiter's transition of the slot.\<close>

definition slot_op :: "string \<Rightarrow> ('v \<Rightarrow> bool) \<Rightarrow> sweep_miss \<Rightarrow> ('v option \<Rightarrow> 'v \<times> 'r) \<Rightarrow>
    string \<Rightarrow> 'v shard \<Rightarrow> 'r \<times> 'v shard" where
  "slot_op ov ev m step key sh =
     (let (sk, sh) = admit key ov (sweep ev m) sh;
          (v, r) = step (shard_get sh sk)
      in (r, shard_insert sk v sh))"

text \<open>\<open>slot_key\<close> is the storage key that \<open>slot_op\<close> uses.\<close>

definition slot_key :: "string \<Rightarrow> ('v \<Rightarrow> bool) \<Rightarrow> sweep_miss \<Rightarrow> string \<Rightarrow> 'v shard \<Rightarrow> string" where
  "slot_key ov ev m key sh = fst (admit key ov (sweep ev m) sh)"

lemma slot_key_cases: "slot_key ov ev m key sh = key \<or> slot_key ov ev m key sh = ov"
  by (simp add: slot_key_def admit_def Let_def)

lemma slot_key_existing: "contains_key sh key \<Longrightarrow> slot_key ov ev m key sh = key"
  by (simp add: slot_key_def admit_def Let_def)

lemma admit_ok:
  assumes "shard_ok (n + admit_room) sh" and "admit key ov (sweep ev m) sh = (sk, sh')"
  shows "shard_ok n (shard_insert sk v sh')"
proof -
  let ?s = "if \<not> contains_key sh key \<and> shard_len sh \<ge> PER_SHARD_REGULAR_MAX
    then sweep ev m sh else sh"
  have "shard_ok (Suc n) ?s"
    using assms(1) sweep_ok [of "Suc n" sh ev m]
    by (auto simp: admit_room_def intro: shard_ok_mono)
  moreover have "sh' = shard_touch sk ?s"
    using assms(2) by (auto simp: admit_def Let_def)
  ultimately show ?thesis by (simp add: shard_touch_ok)
qed

lemma admit_bounded:
  assumes "shard_bounded ov sh" and "admit key ov (sweep ev m) sh = (sk, sh')"
  shows "shard_bounded ov (shard_insert sk v sh')"
proof -
  have len: "shard_len (sweep ev m sh) \<le> shard_len sh" by (rule sweep_len)
  have max: "PER_SHARD_MAX = Suc PER_SHARD_REGULAR_MAX" by (simp add: limiter_consts)
  show ?thesis
  proof (cases "contains_key sh key")
    case True
    then have "sk = key" "sh' = shard_touch key sh"
      using assms(2) by (auto simp: admit_def Let_def)
    then show ?thesis
      using assms(1) True by (auto simp: shard_bounded_def shard_len_insert contains_key_def)
  next
    case False
    let ?s = "if shard_len sh \<ge> PER_SHARD_REGULAR_MAX then sweep ev m sh else sh"
    have sk: "sk = (if shard_len ?s < PER_SHARD_REGULAR_MAX then key else ov)"
      and sh': "sh' = shard_touch sk ?s"
      using assms(2) False by (auto simp: admit_def Let_def split: if_splits)
    have l: "shard_len ?s \<le> PER_SHARD_MAX"
      using len assms(1) max by (auto simp: shard_bounded_def)
    show ?thesis
    proof (cases "shard_len ?s < PER_SHARD_REGULAR_MAX")
      case True
      then show ?thesis
        using sk sh' by (auto simp: shard_bounded_def shard_len_insert)
    next
      case False
      then have "sk = ov" using sk by simp
      moreover have "shard_len ?s = PER_SHARD_MAX \<Longrightarrow> contains_key ?s ov"
        using l len assms(1) max sweep_unchanged [of ev m sh]
        by (auto simp: shard_bounded_def contains_key_def split: if_splits)
      ultimately show ?thesis
        using sk sh' le_antisym [OF l] False max
        by (cases "shard_len ?s = PER_SHARD_MAX")
          (force simp: shard_bounded_def shard_len_insert contains_key_def)+
    qed
  qed
qed

lemma slot_op_get:
  "shard_get (snd (slot_op ov ev m step key sh)) (slot_key ov ev m key sh) =
     Some (fst (step (shard_get (snd (admit key ov (sweep ev m) sh)) (slot_key ov ev m key sh))))"
  by (simp add: slot_op_def slot_key_def split: prod.splits)

lemma admit_get:
  "shard_get (snd (admit key ov (sweep ev m) sh)) k = shard_get sh k \<or>
   (shard_get (snd (admit key ov (sweep ev m) sh)) k = None \<and>
     (\<exists>v. shard_get sh k = Some v \<and> ev v))"
  using sweep_loop_get [of CLEANUP_BUDGET ev m sh k] by (simp add: admit_def Let_def sweep_def)

lemma admit_existing:
  "contains_key sh key \<Longrightarrow> admit key ov (sweep ev m) sh = (key, shard_touch key sh)"
  by (simp add: admit_def Let_def)

lemma slot_op_existing:
  assumes "shard_get sh key = Some v"
  shows "slot_op ov ev m step key sh =
    (snd (step (Some v)), shard_insert key (fst (step (Some v))) (shard_touch key sh))"
  using assms admit_existing [of sh key ov ev m]
  by (simp add: slot_op_def contains_key_def split: prod.splits)

text \<open>While all keys in play fit a shard, nothing is swept and every key has its own slot.\<close>

lemma slot_op_private:
  assumes "distinct_keys (entries sh)" and "keys (entries sh) \<subseteq> S" and "finite S" and "card S \<le> PER_SHARD_REGULAR_MAX"
    and "key \<in> S"
  shows "slot_op ov ev m step key sh =
    (snd (step (shard_get sh key)), shard_insert key (fst (step (shard_get sh key))) (shard_touch key sh))"
proof (cases "contains_key sh key")
  case True
  then show ?thesis by (auto simp: contains_key_def slot_op_existing)
next
  case False
  then have "keys (entries sh) \<subset> S" using assms(2,5) by (auto simp: contains_key_iff)
  then have "card (keys (entries sh)) < card S" by (rule psubset_card_mono [OF assms(3)])
  moreover have "card (keys (entries sh)) = shard_len sh"
    using distinct_card [OF assms(1)] by (simp add: shard_len_def)
  ultimately have "shard_len sh < PER_SHARD_REGULAR_MAX" using assms(4) by simp
  then show ?thesis by (simp add: slot_op_def admit_def Let_def split: prod.splits)
qed

section \<open>The sharded map\<close>

type_synonym 'v shard_map = "nat \<Rightarrow> 'v shard"

definition shard_map_new :: "'v shard_map" where
  "shard_map_new = (\<lambda>_. shard_default)"

text \<open>\<open>with_shard\<close> is \<open>BoundedShardMap::lock\<close> and an operation under the guard.\<close>

definition with_shard :: "(string \<Rightarrow> u64) \<Rightarrow> string \<Rightarrow> ('v shard \<Rightarrow> 'r \<times> 'v shard) \<Rightarrow>
    'v shard_map \<Rightarrow> 'r \<times> 'v shard_map" where
  "with_shard hash key f m =
     (let i = shard_idx hash key; (r, sh) = f (m i) in (r, m(i := sh)))"

definition tracked_keys :: "'v shard_map \<Rightarrow> nat" where
  "tracked_keys m = (\<Sum>i < LIMIT_SHARDS. shard_len (m i))"

lemma shard_idx_less: "shard_idx hash key < LIMIT_SHARDS"
  by (simp add: shard_idx_def limiter_consts)

lemma shard_bounded_le: "shard_bounded ov sh \<Longrightarrow> shard_len sh \<le> PER_SHARD_MAX"
  by (auto simp: shard_bounded_def limiter_consts)

lemma shard_bounded_default: "shard_bounded ov shard_default"
  by (simp add: shard_bounded_def shard_len_def shard_default_def)

lemma tracked_keys_le:
  assumes "\<And>i. shard_bounded ov (m i)"
  shows "tracked_keys m \<le> MAX_KEYS"
proof -
  have "tracked_keys m \<le> of_nat (card {..<LIMIT_SHARDS}) * PER_SHARD_MAX"
    unfolding tracked_keys_def
    by (rule sum_bounded_above) (rule shard_bounded_le [OF assms])
  then show ?thesis by (simp add: limiter_consts)
qed

section \<open>The interface of a limiter\<close>

locale shard_client =
  fixes ov :: string
    and ev :: "'x \<Rightarrow> 'v \<Rightarrow> bool"
    and miss :: sweep_miss
    and step :: "'x \<Rightarrow> 'v option \<Rightarrow> 'v \<times> 'r"
    and vinv :: "'v \<Rightarrow> bool"
  assumes step_vinv: "is_none_or old vinv \<Longrightarrow> vinv (fst (step x old))"
begin

lemma client_ok:
  "shard_ok (n + admit_room) sh \<Longrightarrow> shard_ok n (snd (slot_op ov (ev x) miss (step x) key sh))"
  using admit_ok [of n sh key ov "ev x" miss]
  by (auto simp: slot_op_def split: prod.splits)

lemma client_bounded:
  "shard_bounded ov sh \<Longrightarrow> shard_bounded ov (snd (slot_op ov (ev x) miss (step x) key sh))"
  using admit_bounded [of ov sh key "ev x" miss]
  by (auto simp: slot_op_def split: prod.splits)

lemma client_keeps_live:
  assumes "shard_get sh k = Some v" and "\<not> ev x v" and "k \<noteq> slot_key ov (ev x) miss key sh"
  shows "shard_get (snd (slot_op ov (ev x) miss (step x) key sh)) k = Some v"
  using assms admit_get [of key ov "ev x" miss sh k]
  by (auto simp: slot_op_def slot_key_def split: prod.splits)

lemma client_vinv:
  assumes "\<And>k v. shard_get sh k = Some v \<Longrightarrow> vinv v"
    and "shard_get (snd (slot_op ov (ev x) miss (step x) key sh)) k = Some w"
  shows "vinv w"
proof -
  obtain sk sh' where a: "admit key ov (sweep (ev x) miss) sh = (sk, sh')" by fastforce
  have g: "vinv v" if "shard_get sh' j = Some v" for j v
    using that assms(1) [of j v] admit_get [of key ov "ev x" miss sh j] a by auto
  have "is_none_or (shard_get sh' sk) vinv"
    using g by (cases "shard_get sh' sk") auto
  from step_vinv [OF this, of x] have "vinv (fst (step x (shard_get sh' sk)))" .
  then show ?thesis
    using assms(2) g a by (auto simp: slot_op_def split: prod.splits if_splits)
qed

text \<open>The operation as one transition of one slot of a shard that holds no new entry.\<close>

lemma client_slot:
  obtains sh' slot where "slot = shard_get sh' (slot_key ov (ev x) miss key sh)"
    and "\<And>k v. shard_get sh' k = Some v \<Longrightarrow> shard_get sh k = Some v"
    and "slot_op ov (ev x) miss (step x) key sh =
      (snd (step x slot), shard_insert (slot_key ov (ev x) miss key sh) (fst (step x slot)) sh')"
proof -
  obtain sk sh' where a: "admit key ov (sweep (ev x) miss) sh = (sk, sh')" by fastforce
  show ?thesis
  proof (rule that [of _ sh'])
    show "\<And>k v. shard_get sh' k = Some v \<Longrightarrow> shard_get sh k = Some v"
      using admit_get [of key ov "ev x" miss sh] a by (metis option.distinct(1) snd_conv)
    show "slot_op ov (ev x) miss (step x) key sh =
      (snd (step x (shard_get sh' sk)), shard_insert (slot_key ov (ev x) miss key sh)
         (fst (step x (shard_get sh' sk))) sh')"
      using a by (simp add: slot_op_def slot_key_def split: prod.splits)
  qed (simp add: slot_key_def a)
qed

end

section \<open>Policies, keys and rejections\<close>

datatype policy = Local | Redis | RedisCluster
datatype count_policy = CLocal | CRedis | CRedisCluster | CRedisSentinel
datatype key_type = Var | VarCombination
datatype count_key_type = KVar | KVarCombination | KConstant | KHead | KCookie

text \<open>Validation errors carry the message of the source.\<close>

definition policy_ensure_local :: "policy \<Rightarrow> string \<Rightarrow> string + unit" where
  "policy_ensure_local p plugin =
     (if p = Local then Inr ()
      else Inl (plugin @ '' policy 'redis'/'redis-cluster' requires a distributed backend; only 'local' is supported''))"

definition count_policy_ensure_local :: "count_policy \<Rightarrow> string \<Rightarrow> string + unit" where
  "count_policy_ensure_local p plugin =
     (if p = CLocal then Inr ()
      else Inl (plugin @ '' policy 'redis'/'redis-cluster'/'redis-sentinel' requires a distributed backend; only 'local' is supported''))"

definition default_rejected_code :: u16 where
  "default_rejected_code = 503"

text \<open>The ASCII part of \<open>char::is_whitespace\<close>, which \<open>str::trim\<close> strips.\<close>

definition is_whitespace :: "char \<Rightarrow> bool" where
  "is_whitespace c \<longleftrightarrow> c = CHR '' '' \<or> (CHR 0x09 \<le> c \<and> c \<le> CHR 0x0D)"

definition trim_start :: "string \<Rightarrow> string" where
  "trim_start = dropWhile is_whitespace"

definition trim :: "string \<Rightarrow> string" where
  "trim s = rev (trim_start (rev (trim_start s)))"

definition validate_key :: "string \<Rightarrow> string + unit" where
  "validate_key key = (if trim key = [] then Inl ''key cannot be empty'' else Inr ())"

definition validate_rejected_msg :: "string \<Rightarrow> string + unit" where
  "validate_rejected_msg v =
     (if v = [] then Inl ''rejected_msg must have at least 1 character'' else Inr ())"

record reject_policy =
  rp_code :: u16
  rp_msg :: "string option"

text \<open>\<open>from_u16\<close> is the \<open>http\<close> crate's \<open>StatusCode::from_u16\<close>.\<close>

definition reject_policy_status ::
  "(u16 \<Rightarrow> status_code option) \<Rightarrow> reject_policy \<Rightarrow> status_code" where
  "reject_policy_status from_u16 p = unwrap_or (from_u16 (rp_code p)) 503"

definition limiter_rejection ::
  "status_code \<Rightarrow> string option \<Rightarrow> (string \<times> string) list \<Rightarrow> rejection" where
  "limiter_rejection status body extra_headers =
     (let value = with_headers extra_headers (rejection_new status)
      in case body of
           None \<Rightarrow> value
         | Some b \<Rightarrow> with_content_type ''text/plain'' (with_body b value))"

definition reject_policy_rejection ::
  "(u16 \<Rightarrow> status_code option) \<Rightarrow> reject_policy \<Rightarrow> rejection" where
  "reject_policy_rejection from_u16 p =
     limiter_rejection (reject_policy_status from_u16 p) (rp_msg p) []"

text \<open>Rule keys. \<open>render\<close> is \<open>render_apisix_request_template\<close> on the request's session.\<close>

definition resolve_rule_key :: "(string \<Rightarrow> string) \<Rightarrow> string \<Rightarrow> string option" where
  "resolve_rule_key render rule_key =
     (if CHR ''$'' \<notin> set rule_key then None else Some (render rule_key))"

fun select_rules_from :: "(string \<Rightarrow> string) \<Rightarrow> ('r \<Rightarrow> string) \<Rightarrow> (nat \<Rightarrow> 'r \<Rightarrow> string \<Rightarrow> 's) \<Rightarrow>
    nat \<Rightarrow> 'r list \<Rightarrow> 's list" where
  "select_rules_from render rule_key selection i [] = []"
| "select_rules_from render rule_key selection i (rule # rules) =
     (case resolve_rule_key render (rule_key rule) of
        Some key \<Rightarrow> [selection i rule key]
      | None \<Rightarrow> []) @ select_rules_from render rule_key selection (Suc i) rules"

definition select_rules :: "(string \<Rightarrow> string) \<Rightarrow> 'r list \<Rightarrow> ('r \<Rightarrow> string) \<Rightarrow>
    (nat \<Rightarrow> 'r \<Rightarrow> string \<Rightarrow> 's) \<Rightarrow> 's list option" where
  "select_rules render rules rule_key selection =
     (let selected = select_rules_from render rule_key selection 0 rules
      in if selected = [] then None else Some selected)"

lemma select_rules_None:
  "select_rules render rules rk sel = None \<longleftrightarrow> (\<forall>r \<in> set rules. CHR ''$'' \<notin> set (rk r))"
proof -
  have "select_rules_from render rk sel i rules = [] \<longleftrightarrow>
      (\<forall>r \<in> set rules. CHR ''$'' \<notin> set (rk r))" for i
    by (induction rules arbitrary: i) (auto simp: resolve_rule_key_def)
  then show ?thesis by (simp add: select_rules_def Let_def)
qed

end
