(* ===== verification/Limit_Req.thy ===== *)
theory Limit_Req
  imports Limiting
begin

text \<open>
  The leaky-bucket limiter (\<open>src/plugins/limit_req.rs\<close>).

  \<open>f64\<close> quantities are rational numbers: rounding, infinities and NaN are not modelled (the
  configuration validators exclude non-finite rates and bursts). The key a request is limited under is the result of
  \<open>apisix_key\<close> on its session, a parameter \<open>akey\<close> of the hook.
\<close>

section \<open>Configuration\<close>

record lr_config =
  lr_rate :: rat
  lr_burst :: rat
  lr_key_type :: key_type
  lr_key :: string
  lr_rejected_code :: u16
  lr_rejected_msg :: "string option"
  lr_nodelay :: bool
  lr_policy :: policy

definition validate_rate :: "rat \<Rightarrow> string + unit" where
  "validate_rate v = (if v \<le> 0 then Inl ''rate must be > 0'' else Inr ())"

definition validate_burst :: "rat \<Rightarrow> string + unit" where
  "validate_burst v = (if v < 0 then Inl ''burst must be >= 0'' else Inr ())"

text \<open>The derived validator checks every field (the order only affects the message); the
  conversion then checks the policy.\<close>

definition lr_config_check :: "lr_config \<Rightarrow> string + unit" where
  "lr_config_check c =
     sum_bind (validate_rate (lr_rate c)) (\<lambda>_.
     sum_bind (validate_burst (lr_burst c)) (\<lambda>_.
     sum_bind (validate_key (lr_key c)) (\<lambda>_.
     sum_bind (if 200 \<le> lr_rejected_code c \<and> lr_rejected_code c \<le> 599 then Inr ()
               else Inl ''rejected_code'') (\<lambda>_.
     sum_bind (case lr_rejected_msg c of None \<Rightarrow> Inr () | Some m \<Rightarrow> validate_rejected_msg m)
       (\<lambda>_. policy_ensure_local (lr_policy c) ''limit-req'')))))"

section \<open>The bucket\<close>

record bucket =
  bk_excess :: rat
  bk_last :: nat

definition leaky_bucket_step :: "rat \<Rightarrow> rat \<Rightarrow> rat \<Rightarrow> rat \<Rightarrow> bool \<Rightarrow> unit + rat \<times> rat" where
  "leaky_bucket_step old_excess elapsed_secs rate burst nodelay =
     (let excess = max (old_excess - elapsed_secs * rate + 1) 0
      in if excess > burst then Inl () else Inr (excess / rate, excess))"

definition bucket_incoming ::
  "bucket \<Rightarrow> nat \<Rightarrow> rat \<Rightarrow> rat \<Rightarrow> bool \<Rightarrow> (unit + rat) \<times> bucket" where
  "bucket_incoming b now rate burst nodelay =
     (let elapsed = as_secs (now - bk_last b)
      in case leaky_bucket_step (bk_excess b) elapsed rate burst nodelay of
           Inr (delay, new_excess) \<Rightarrow> (Inr delay, b\<lparr>bk_last := now, bk_excess := new_excess\<rparr>)
         | Inl _ \<Rightarrow> (Inl (), b))"

definition drained :: "nat \<Rightarrow> rat \<Rightarrow> bucket \<Rightarrow> bool" where
  "drained now rate b \<longleftrightarrow> as_secs (now - bk_last b) * rate \<ge> bk_excess b"

section \<open>The request hook\<close>

text \<open>One transition of a bucket slot: the result is the delay, or \<open>None\<close> for a rejection.\<close>

definition lr_step :: "lr_config \<times> nat \<Rightarrow> bucket option \<Rightarrow> bucket \<times> rat option" where
  "lr_step x slot =
     (let (c, now) = x
      in case slot of
           None \<Rightarrow> (\<lparr>bk_excess = 0, bk_last = now\<rparr>, Some 0)
         | Some b \<Rightarrow>
             (case bucket_incoming b now (lr_rate c) (lr_burst c) (lr_nodelay c) of
                (Inr delay, b') \<Rightarrow> (b', Some delay)
              | (Inl _, b') \<Rightarrow> (b', None)))"

definition lr_evict :: "lr_config \<times> nat \<Rightarrow> bucket \<Rightarrow> bool" where
  "lr_evict x b = (let (c, now) = x in drained now (lr_rate c) b)"

definition LIMIT_REQ_OVERFLOW :: string where
  "LIMIT_REQ_OVERFLOW = ''__pingsix_limit_req_overflow__''"

text \<open>The result is the time the request sleeps and its verdict.\<close>

definition lr_request_filter ::
  "(u16 \<Rightarrow> status_code option) \<Rightarrow> (string \<Rightarrow> u64) \<Rightarrow> (string \<Rightarrow> bool \<Rightarrow> string) \<Rightarrow>
   lr_config \<Rightarrow> nat \<Rightarrow> bucket shard_map \<Rightarrow> (rat \<times> filter_verdict) \<times> bucket shard_map" where
  "lr_request_filter from_u16 hash akey c now m =
     (let key = akey (lr_key c) (lr_key_type c = VarCombination);
          (outcome, m) = with_shard hash key
            (slot_op LIMIT_REQ_OVERFLOW (lr_evict (c, now)) Restore (lr_step (c, now)) key) m
      in case outcome of
           None \<Rightarrow>
             ((0, Reject (reject_policy_rejection from_u16
                            \<lparr>rp_code = lr_rejected_code c, rp_msg = lr_rejected_msg c\<rparr>)), m)
         | Some delay \<Rightarrow>
             ((if delay > 0 \<and> \<not> lr_nodelay c then delay else 0, Continue), m))"

section \<open>Lemmas\<close>

definition bucket_ok :: "rat \<Rightarrow> bucket \<Rightarrow> bool" where
  "bucket_ok burst b \<longleftrightarrow> 0 \<le> bk_excess b \<and> bk_excess b \<le> burst"

text \<open>The excess the bucket would hold after accepting a request at \<open>now\<close>.\<close>

definition next_excess :: "bucket \<Rightarrow> nat \<Rightarrow> rat \<Rightarrow> rat" where
  "next_excess b now rate = max (bk_excess b - as_secs (now - bk_last b) * rate + 1) 0"

lemma next_excess_nonneg: "0 \<le> next_excess b now rate"
  by (simp add: next_excess_def)

lemma next_excess_ge:
  "bk_excess b - as_secs (now - bk_last b) * rate + 1 \<le> next_excess b now rate"
  unfolding next_excess_def by (rule max.cobounded1)

lemma bucket_incoming_eq:
  "bucket_incoming b now rate burst nd =
     (if burst < next_excess b now rate then (Inl (), b)
      else (Inr (next_excess b now rate / rate),
            \<lparr>bk_excess = next_excess b now rate, bk_last = now\<rparr>))"
  by (simp add: bucket_incoming_def leaky_bucket_step_def next_excess_def Let_def)

lemma bucket_incoming_cases:
  obtains (reject) "burst < next_excess b now rate" "bucket_incoming b now rate burst nd = (Inl (), b)"
  | (accept) "next_excess b now rate \<le> burst"
      "bucket_incoming b now rate burst nd =
        (Inr (next_excess b now rate / rate), \<lparr>bk_excess = next_excess b now rate, bk_last = now\<rparr>)"
  by (metis bucket_incoming_eq linorder_not_less)

lemma bucket_incoming_ok:
  assumes "bucket_ok burst b"
  shows "bucket_ok burst (snd (bucket_incoming b now rate burst nd))"
  using assms
  by (cases rule: bucket_incoming_cases [of burst b now rate nd])
    (simp_all add: bucket_ok_def next_excess_nonneg)

lemma lr_step_ok:
  assumes "is_none_or slot (bucket_ok (lr_burst c))" and "0 \<le> lr_burst c"
  shows "bucket_ok (lr_burst c) (fst (lr_step (c, now) slot))"
proof (cases slot)
  case None
  then show ?thesis using assms(2) by (simp add: lr_step_def bucket_ok_def)
next
  case (Some b)
  have "fst (lr_step (c, now) slot) =
      snd (bucket_incoming b now (lr_rate c) (lr_burst c) (lr_nodelay c))"
    by (simp add: lr_step_def Some split: prod.split sum.split)
  then show ?thesis
    using bucket_incoming_ok [of "lr_burst c" b] assms(1) Some by simp
qed

interpretation lreq: shard_client LIMIT_REQ_OVERFLOW
  "\<lambda>now. lr_evict (c, now)" Restore "\<lambda>now. lr_step (c, now)"
  "\<lambda>b. 0 \<le> lr_burst c \<longrightarrow> bucket_ok (lr_burst c) b" for c
proof unfold_locales
  fix old now
  assume "is_none_or old (\<lambda>b. 0 \<le> lr_burst c \<longrightarrow> bucket_ok (lr_burst c) b)"
  then show "0 \<le> lr_burst c \<longrightarrow> bucket_ok (lr_burst c) (fst (lr_step (c, now) old))"
    using lr_step_ok [of old c now] by (cases old) simp_all
qed

section \<open>Runs of the hook\<close>

text \<open>Requests are given by the key resolution of their session and their instant.\<close>

type_synonym lr_request = "(string \<Rightarrow> bool \<Rightarrow> string) \<times> nat"

abbreviation lr_request_key :: "lr_config \<Rightarrow> (string \<Rightarrow> bool \<Rightarrow> string) \<Rightarrow> string" where
  "lr_request_key c akey \<equiv> akey (lr_key c) (lr_key_type c = VarCombination)"

abbreviation lr_slot_key :: "lr_config \<Rightarrow> nat \<Rightarrow> string \<Rightarrow> bucket shard \<Rightarrow> string" where
  "lr_slot_key c now key sh \<equiv> slot_key LIMIT_REQ_OVERFLOW (lr_evict (c, now)) Restore key sh"

abbreviation lr_admitted :: "lr_config \<Rightarrow> nat \<Rightarrow> string \<Rightarrow> bucket shard \<Rightarrow> bucket shard" where
  "lr_admitted c now key sh \<equiv> snd (admit key LIMIT_REQ_OVERFLOW (sweep (lr_evict (c, now)) Restore) sh)"

definition lr_run :: "(u16 \<Rightarrow> status_code option) \<Rightarrow> (string \<Rightarrow> u64) \<Rightarrow> lr_config \<Rightarrow> lr_request list \<Rightarrow>
    bucket shard_map \<Rightarrow> bucket shard_map" where
  "lr_run from_u16 hash c reqs m =
     fold (\<lambda>(akey, now) m. snd (lr_request_filter from_u16 hash akey c now m)) reqs m"

text \<open>Of a run from \<open>m\<close>: the requests accepted out of the bucket at storage key \<open>a\<close> of shard \<open>i\<close>, and how
  often a sweep dropped that bucket.\<close>

fun accepted_from :: "(u16 \<Rightarrow> status_code option) \<Rightarrow> (string \<Rightarrow> u64) \<Rightarrow> lr_config \<Rightarrow> nat \<Rightarrow> string \<Rightarrow> lr_request list \<Rightarrow>
    bucket shard_map \<Rightarrow> nat" where
  "accepted_from from_u16 hash c i a [] m = 0"
| "accepted_from from_u16 hash c i a ((akey, now) # reqs) m =
     (let ((_, verdict), m') = lr_request_filter from_u16 hash akey c now m
      in (if shard_idx hash (lr_request_key c akey) = i \<and> lr_slot_key c now (lr_request_key c akey) (m i) = a \<and> verdict = Continue
          then 1 else 0) + accepted_from from_u16 hash c i a reqs m')"

fun swept_from :: "(u16 \<Rightarrow> status_code option) \<Rightarrow> (string \<Rightarrow> u64) \<Rightarrow> lr_config \<Rightarrow> nat \<Rightarrow> string \<Rightarrow> lr_request list \<Rightarrow>
    bucket shard_map \<Rightarrow> nat" where
  "swept_from from_u16 hash c i a [] m = 0"
| "swept_from from_u16 hash c i a ((akey, now) # reqs) m =
     (if shard_idx hash (lr_request_key c akey) = i \<and> shard_get (m i) a \<noteq> None \<and>
         shard_get (lr_admitted c now (lr_request_key c akey) (m i)) a = None
      then 1 else 0) + swept_from from_u16 hash c i a reqs (snd (lr_request_filter from_u16 hash akey c now m))"

text \<open>The level of a slot at an instant: the drained excess, and -1 where the next request starts a bucket
  anew or finds one that has run empty.\<close>

definition slot_level :: "lr_config \<Rightarrow> nat \<Rightarrow> bucket option \<Rightarrow> rat" where
  "slot_level c now slot =
     (case slot of None \<Rightarrow> -1 | Some b \<Rightarrow> max (bk_excess b - as_secs (now - bk_last b) * lr_rate c) (-1))"

definition slot_ok :: "lr_config \<Rightarrow> nat \<Rightarrow> bucket option \<Rightarrow> bool" where
  "slot_ok c now slot \<longleftrightarrow> is_none_or slot (\<lambda>b. bucket_ok (lr_burst c) b \<and> bk_last b \<le> now)"

lemma slot_level_bounds:
  assumes "slot_ok c now slot" and "0 \<le> lr_burst c" and "0 < lr_rate c"
  shows "-1 \<le> slot_level c now slot" and "slot_level c now slot \<le> lr_burst c"
proof -
  show "-1 \<le> slot_level c now slot" by (cases slot) (simp_all add: slot_level_def)
  show "slot_level c now slot \<le> lr_burst c"
  proof (cases slot)
    case (Some b)
    have "0 \<le> as_secs (now - bk_last b) * lr_rate c" using as_secs_nonneg assms(3) by simp
    moreover have "bk_excess b \<le> lr_burst c" using assms(1) Some by (simp add: slot_ok_def bucket_ok_def)
    ultimately show ?thesis using assms(2) by (simp add: slot_level_def Some)
  qed (use assms(2) in \<open>simp add: slot_level_def\<close>)
qed

lemma slot_level_later:
  assumes "slot_ok c now slot" and "now \<le> t" and "0 < lr_rate c"
  shows "slot_level c now slot \<le> slot_level c t slot + lr_rate c * (as_secs t - as_secs now)"
proof -
  have step: "0 \<le> lr_rate c * (as_secs t - as_secs now)" using as_secs_mono [OF assms(2)] assms(3) by simp
  show ?thesis
  proof (cases slot)
    case (Some b)
    then have last: "bk_last b \<le> now" using assms(1) by (simp add: slot_ok_def)
    then have "bk_last b \<le> t" using assms(2) by simp
    then have "bk_excess b - as_secs (now - bk_last b) * lr_rate c =
        bk_excess b - as_secs (t - bk_last b) * lr_rate c + lr_rate c * (as_secs t - as_secs now)"
      using last by (simp add: as_secs_diff algebra_simps)
    then show ?thesis using step by (simp add: slot_level_def Some max_def)
  qed (use step in \<open>simp add: slot_level_def\<close>)
qed

lemma slot_ok_later: "slot_ok c now slot \<Longrightarrow> now \<le> t \<Longrightarrow> slot_ok c t slot"
  by (cases slot) (auto simp: slot_ok_def)

lemma lr_step_level:
  assumes "slot_ok c t slot" and "0 \<le> lr_burst c"
  shows "(if snd (lr_step (c, t) slot) \<noteq> None then 1 else 0) + slot_level c t slot \<le> slot_level c t (Some (fst (lr_step (c, t) slot)))
    \<and> slot_ok c t (Some (fst (lr_step (c, t) slot)))"
proof (cases slot)
  case None
  then show ?thesis using assms(2) by (simp add: lr_step_def slot_level_def slot_ok_def bucket_ok_def as_secs_def)
next
  case (Some b)
  show ?thesis
  proof (cases rule: bucket_incoming_cases [of "lr_burst c" b t "lr_rate c" "lr_nodelay c"])
    case reject
    then show ?thesis using assms(1) by (simp add: lr_step_def Some)
  next
    case accept
    have "next_excess b t (lr_rate c) = max (bk_excess b - as_secs (t - bk_last b) * lr_rate c) (-1) + 1"
      by (simp add: next_excess_def max_def)
    then show ?thesis using accept next_excess_nonneg [of b t "lr_rate c"]
      by (simp add: lr_step_def Some slot_level_def slot_ok_def bucket_ok_def as_secs_def)
  qed
qed

text \<open>One request: what it accepts out of a slot raises the level of the slot, but for a sweep.\<close>

lemma lr_request_level:
  assumes ok: "\<And>i a. slot_ok c t (shard_get (m i) a)" and burst: "0 \<le> lr_burst c"
    and run: "lr_request_filter from_u16 hash akey c t m = ((delay, verdict), m')"
  shows "(if shard_idx hash (lr_request_key c akey) = i \<and> lr_slot_key c t (lr_request_key c akey) (m i) = a \<and> verdict = Continue
      then 1 else 0) + slot_level c t (shard_get (m i) a) \<le> slot_level c t (shard_get (m' i) a) +
      (if shard_idx hash (lr_request_key c akey) = i \<and> shard_get (m i) a \<noteq> None \<and>
         shard_get (lr_admitted c t (lr_request_key c akey) (m i)) a = None then 1 else 0)
    \<and> slot_ok c t (shard_get (m' i) a)"
proof (cases "shard_idx hash (lr_request_key c akey) = i")
  case False
  then have "m' i = m i" using run by (auto simp: lr_request_filter_def with_shard_def Let_def split: prod.splits option.splits)
  then show ?thesis using ok False by simp
next
  case True
  let ?key = "lr_request_key c akey"
  let ?sk = "lr_slot_key c t ?key (m i)" and ?sh = "lr_admitted c t ?key (m i)"
  let ?step = "lr_step (c, t) (shard_get ?sh ?sk)"
  have "slot_op LIMIT_REQ_OVERFLOW (lr_evict (c, t)) Restore (lr_step (c, t)) ?key (m i) =
      (snd ?step, shard_insert ?sk (fst ?step) ?sh)"
    by (simp add: slot_op_def slot_key_def split: prod.splits)
  then have m': "m' i = shard_insert ?sk (fst ?step) ?sh" and verdict: "verdict = Continue \<longleftrightarrow> snd ?step \<noteq> None"
    using run True by (auto simp: lr_request_filter_def with_shard_def reject_policy_rejection_def Let_def split: prod.splits option.splits)
  have kept: "shard_get ?sh k = shard_get (m i) k \<or>
      shard_get ?sh k = None \<and> (\<exists>b. shard_get (m i) k = Some b \<and> lr_evict (c, t) b)" for k
    by (rule admit_get)
  have ok': "slot_ok c t (shard_get ?sh k)" for k using kept [of k] ok [of i k] by (auto simp: slot_ok_def)
  have dropped: "slot_level c t (shard_get (m i) a) \<le> slot_level c t (shard_get ?sh a) +
      (if shard_get (m i) a \<noteq> None \<and> shard_get ?sh a = None then 1 else 0)"
  proof (cases "shard_get ?sh a = shard_get (m i) a")
    case False
    then obtain b where b: "shard_get ?sh a = None" "shard_get (m i) a = Some b" "lr_evict (c, t) b" using kept [of a] by blast
    then have "bk_excess b - as_secs (t - bk_last b) * lr_rate c \<le> 0" by (simp add: lr_evict_def drained_def)
    then show ?thesis using b by (simp add: slot_level_def)
  qed simp
  show ?thesis
  proof (cases "?sk = a")
    case False
    then show ?thesis using m' dropped ok' by (simp add: True)
  next
    case sk: True
    note step = lr_step_level [OF ok' burst, of a]
    have step': "(if verdict = Continue then 1 else 0) + slot_level c t (shard_get ?sh a) \<le> slot_level c t (shard_get (m' i) a) \<and>
        slot_ok c t (shard_get (m' i) a)"
      using step m' verdict sk by simp
    show ?thesis
    proof
      show "slot_ok c t (shard_get (m' i) a)" using step' by (rule conjunct2)
      show "(if shard_idx hash ?key = i \<and> ?sk = a \<and> verdict = Continue then 1 else 0) + slot_level c t (shard_get (m i) a)
          \<le> slot_level c t (shard_get (m' i) a) +
            (if shard_idx hash ?key = i \<and> shard_get (m i) a \<noteq> None \<and> shard_get ?sh a = None then 1 else 0)"
        using conjunct1 [OF step'] dropped sk True by (simp only: simp_thms)
    qed
  qed
qed

lemma levels_add:
  fixes x y n sw l0 l1 l2 l u v :: rat
  assumes "x + l1 \<le> l2 + y" and "n + l2 \<le> l + u + sw" and "l0 \<le> l1 + v"
  shows "x + n + l0 \<le> l + (u + v) + (y + sw)"
  using assms by linarith

lemma lr_run_level:
  assumes "\<And>i a. slot_ok c now (shard_get (m i) a)" and "sorted (now # map snd reqs)" and "0 \<le> lr_burst c" and "0 < lr_rate c"
  shows "of_nat (accepted_from from_u16 hash c i a reqs m) + slot_level c now (shard_get (m i) a) \<le>
      slot_level c (last (now # map snd reqs)) (shard_get (lr_run from_u16 hash c reqs m i) a) +
      lr_rate c * (as_secs (last (now # map snd reqs)) - as_secs now) + of_nat (swept_from from_u16 hash c i a reqs m)
    \<and> (\<forall>i a. slot_ok c (last (now # map snd reqs)) (shard_get (lr_run from_u16 hash c reqs m i) a))"
  using assms(1,2)
proof (induction reqs arbitrary: now m)
  case Nil
  then show ?case by (simp add: lr_run_def)
next
  case (Cons r reqs)
  obtain akey t where r: "r = (akey, t)" by (cases r)
  obtain delay verdict m' where run: "lr_request_filter from_u16 hash akey c t m = ((delay, verdict), m')" by (metis surj_pair)
  have t: "now \<le> t" "sorted (t # map snd reqs)" using Cons.prems(2) by (simp_all add: r)
  have ok: "slot_ok c t (shard_get (m i) a)" for i a by (rule slot_ok_later [OF Cons.prems(1) t(1)])
  note step = lr_request_level [OF ok assms(3) run]
  have ok': "slot_ok c t (shard_get (m' i) a)" for i a using step by blast
  note IH = Cons.IH [OF ok' t(2)]
  have later: "slot_level c now (shard_get (m i) a) \<le> slot_level c t (shard_get (m i) a) + lr_rate c * (as_secs t - as_secs now)"
    by (rule slot_level_later [OF Cons.prems(1) t(1) assms(4)])
  define l where "l = last (t # map snd reqs)"
  have last: "last (now # map snd (r # reqs)) = l" and tail: "lr_run from_u16 hash c (r # reqs) m = lr_run from_u16 hash c reqs m'"
    by (simp_all add: r l_def lr_run_def run)
  let ?in = "shard_idx hash (lr_request_key c akey) = i"
  let ?acc = "?in \<and> lr_slot_key c t (lr_request_key c akey) (m i) = a \<and> verdict = Continue"
  let ?swp = "?in \<and> shard_get (m i) a \<noteq> None \<and> shard_get (lr_admitted c t (lr_request_key c akey) (m i)) a = None"
  have counts: "(of_nat (accepted_from from_u16 hash c i a (r # reqs) m) :: rat) =
      (if ?acc then 1 else 0) + of_nat (accepted_from from_u16 hash c i a reqs m')"
    "(of_nat (swept_from from_u16 hash c i a (r # reqs) m) :: rat) = (if ?swp then 1 else 0) + of_nat (swept_from from_u16 hash c i a reqs m')"
    by (simp_all add: r run)
  have one: "(if ?acc then 1 else 0) + slot_level c t (shard_get (m i) a) \<le> slot_level c t (shard_get (m' i) a) + (if ?swp then 1 else 0 :: rat)"
    by (rule conjunct1 [OF step])
  have rest: "of_nat (accepted_from from_u16 hash c i a reqs m') + slot_level c t (shard_get (m' i) a) \<le>
      slot_level c l (shard_get (lr_run from_u16 hash c reqs m' i) a) + lr_rate c * (as_secs l - as_secs t) +
      of_nat (swept_from from_u16 hash c i a reqs m')"
    unfolding l_def by (rule conjunct1 [OF IH])
  have "lr_rate c * (as_secs l - as_secs now) = lr_rate c * (as_secs l - as_secs t) + lr_rate c * (as_secs t - as_secs now)"
    by (simp add: algebra_simps)
  then have "of_nat (accepted_from from_u16 hash c i a (r # reqs) m) + slot_level c now (shard_get (m i) a) \<le>
      slot_level c l (shard_get (lr_run from_u16 hash c reqs m' i) a) + lr_rate c * (as_secs l - as_secs now) +
      of_nat (swept_from from_u16 hash c i a (r # reqs) m)"
    unfolding counts by (simp only: levels_add [OF one rest later])
  then show ?case unfolding last tail using conjunct2 [OF IH] by (simp add: l_def)
qed

section \<open>Properties\<close>

text \<open>C31: Rate conformance of the hook. Start from an empty limiter, let any requests of any keys pass, in
  the order of their instants, and then look at a span of time: the number of requests accepted out of one
  bucket - a key's own, or the overflow bucket of a shard - is at most the burst, plus one, plus the rate
  times the length of the span, plus one for each time a sweep dropped that bucket in the span. However long
  the bucket was idle before, and whatever was rejected, it never grants more.\<close>

theorem leaky_bucket_conforms:
  assumes "lr_config_check c = Inr ()" and "sorted (map snd (earlier @ reqs))" and "\<forall>r \<in> set reqs. start \<le> snd r \<and> snd r \<le> finish"
    and "m = lr_run from_u16 hash c earlier shard_map_new"
  shows "of_nat (accepted_from from_u16 hash c i a reqs m) \<le>
    lr_burst c + 1 + lr_rate c * as_secs (finish - start) + of_nat (swept_from from_u16 hash c i a reqs m)"
proof (cases reqs)
  case Nil
  have "0 \<le> lr_burst c" "0 < lr_rate c"
    using assms(1) by (auto simp: lr_config_check_def validate_rate_def validate_burst_def not_le not_less split: if_splits)
  then show ?thesis using Nil as_secs_nonneg [of "finish - start"] by simp
next
  case (Cons r rest)
  have c: "0 \<le> lr_burst c" "0 < lr_rate c"
    using assms(1) by (auto simp: lr_config_check_def validate_rate_def validate_burst_def not_le not_less split: if_splits)
  let ?t = "snd r" and ?e = "last (snd r # map snd reqs)"
  have fresh: "slot_ok c 0 (shard_get (shard_map_new i) a)" for i a
    by (simp add: slot_ok_def shard_map_new_def shard_get_def shard_default_def)
  have sorted: "sorted (0 # map snd earlier)" "sorted (?t # map snd reqs)" "last (0 # map snd earlier) \<le> ?t"
    using assms(2) Cons last_in_set [of "map snd earlier"] by (cases "earlier = []"; auto simp: sorted_append)+
  have "slot_ok c (last (0 # map snd earlier)) (shard_get (m i) a)" for i a
    unfolding assms(4) using lr_run_level [where m = shard_map_new, OF fresh sorted(1) c] by blast
  then have ok: "slot_ok c ?t (shard_get (m i) a)" for i a using slot_ok_later sorted(3) by blast
  note level = lr_run_level [where m = m, OF ok sorted(2) c, of from_u16 hash i a]
  have "?e \<in> set (map snd reqs)" using Cons by (metis last.simps last_in_set list.distinct(1) list.map_disc_iff)
  then have e: "start \<le> ?t" "?t \<le> finish" "?e \<le> finish" using assms(3) Cons by auto
  have "as_secs ?e \<le> as_secs finish" "as_secs start \<le> as_secs ?t" using e as_secs_mono by blast+
  then have "as_secs ?e - as_secs ?t \<le> as_secs (finish - start)" using e by (simp add: as_secs_diff)
  then have "lr_rate c * (as_secs ?e - as_secs ?t) \<le> lr_rate c * as_secs (finish - start)" using c(2) by simp
  moreover have "-1 \<le> slot_level c ?t (shard_get (m i) a)" by (rule slot_level_bounds(1) [OF ok c])
  moreover have "slot_ok c ?e (shard_get (lr_run from_u16 hash c reqs m i) a)" using conjunct2 [OF level] by blast
  then have "slot_level c ?e (shard_get (lr_run from_u16 hash c reqs m i) a) \<le> lr_burst c" by (rule slot_level_bounds(2) [OF _ c])
  ultimately show ?thesis using conjunct1 [OF level] by linarith
qed

definition paced_config :: lr_config where
  "paced_config = \<lparr>lr_rate = 1, lr_burst = 1, lr_key_type = Var, lr_key = ''remote_addr'',
    lr_rejected_code = 503, lr_rejected_msg = None, lr_nodelay = True, lr_policy = Local\<rparr>"

text \<open>One client: a request, and after an idle minute four at once: two are accepted.\<close>

lemma lr_existing:
  assumes "shard_get (m (shard_idx hash (lr_request_key c akey))) (lr_request_key c akey) = Some b"
    and "i = shard_idx hash (lr_request_key c akey)" and "a = lr_request_key c akey"
    and "m' = snd (lr_request_filter from_u16 hash akey c t m)"
  shows "accepted_from from_u16 hash c i a ((akey, t) # reqs) m =
      (if lr_burst c < next_excess b t (lr_rate c) then 0 else 1) + accepted_from from_u16 hash c i a reqs m' \<and>
    swept_from from_u16 hash c i a ((akey, t) # reqs) m = swept_from from_u16 hash c i a reqs m' \<and>
    shard_get (m' i) a = Some (if lr_burst c < next_excess b t (lr_rate c) then b
      else \<lparr>bk_excess = next_excess b t (lr_rate c), bk_last = t\<rparr>)"
proof -
  have slot: "slot_op LIMIT_REQ_OVERFLOW (lr_evict (c, t)) Restore (lr_step (c, t)) a (m i) =
      (snd (lr_step (c, t) (Some b)), shard_insert a (fst (lr_step (c, t) (Some b))) (shard_touch a (m i)))"
    by (rule slot_op_existing) (use assms in simp)
  have step: "lr_step (c, t) (Some b) = (if lr_burst c < next_excess b t (lr_rate c) then (b, None)
      else (\<lparr>bk_excess = next_excess b t (lr_rate c), bk_last = t\<rparr>, Some (next_excess b t (lr_rate c) / lr_rate c)))"
    by (simp add: lr_step_def bucket_incoming_eq)
  have here: "contains_key (m i) a" using assms by (simp add: contains_key_def)
  let ?i = "shard_idx hash (lr_request_key c akey)"
  have slot': "slot_op LIMIT_REQ_OVERFLOW (lr_evict (c, t)) Restore (lr_step (c, t)) (lr_request_key c akey) (m ?i) =
      (snd (lr_step (c, t) (Some b)), shard_insert a (fst (lr_step (c, t) (Some b))) (shard_touch a (m i)))"
    using slot assms(2,3) by simp
  have "snd (fst (lr_request_filter from_u16 hash akey c t m)) = Continue \<longleftrightarrow> \<not> lr_burst c < next_excess b t (lr_rate c)"
    by (simp add: lr_request_filter_def with_shard_def Let_def slot' step reject_policy_rejection_def)
  moreover have "m' i = shard_insert a (fst (lr_step (c, t) (Some b))) (shard_touch a (m i))"
    by (simp add: lr_request_filter_def with_shard_def Let_def slot' assms(2,4) split: option.split)
  ultimately show ?thesis
    using assms here step by (simp add: slot_key_existing admit_existing split_beta Let_def)
qed

theorem leaky_bucket_conforms_witness:
  "let client = \<lambda>_ _. ''192.0.2.1''; minute = 60000000000;
       m = lr_run (\<lambda>code. Some (unat code)) (\<lambda>_. 0) paced_config [(client, 0)] shard_map_new;
       n = accepted_from (\<lambda>code. Some (unat code)) (\<lambda>_. 0) paced_config 0 ''192.0.2.1'' (replicate 4 (client, minute)) m
   in (of_nat n :: rat) \<le> 2 \<and> n = 2"
proof -
  let ?client = "\<lambda>_ _. ''192.0.2.1''" and ?u16 = "\<lambda>code :: u16. Some (unat code)" and ?hash = "\<lambda>_ :: string. 0 :: u64"
  let ?m = "lr_run ?u16 ?hash paced_config [(?client, 0)] shard_map_new" and ?k = "''192.0.2.1''" and ?t = "60000000000 :: nat"
  let ?acc = "accepted_from ?u16 ?hash paced_config 0 ?k" and ?swp = "swept_from ?u16 ?hash paced_config 0 ?k"
  have config: "lr_config_check paced_config = Inr ()" by code_simp
  have idx: "0 = shard_idx ?hash ?k" by (simp add: shard_idx_def)
  have c: "lr_burst paced_config = 1" "lr_rate paced_config = 1" by (simp_all add: paced_config_def)
  have start: "shard_get (?m 0) ?k = Some \<lparr>bk_excess = 0, bk_last = 0\<rparr>"
    by (simp add: lr_run_def lr_request_filter_def with_shard_def slot_op_def admit_def shard_map_new_def shard_idx_def
        contains_key_def shard_len_def shard_default_def limiter_consts lr_step_def shard_get_def shard_touch_def
        shard_insert_def Let_def)
  let ?next = "\<lambda>m. snd (lr_request_filter ?u16 ?hash ?client paced_config ?t m)"
  have one: "?acc ((?client, ?t) # reqs) w = (if 1 < next_excess b ?t 1 then 0 else 1) + ?acc reqs (?next w) \<and>
      ?swp ((?client, ?t) # reqs) w = ?swp reqs (?next w) \<and>
      shard_get (?next w 0) ?k = Some (if 1 < next_excess b ?t 1 then b else \<lparr>bk_excess = next_excess b ?t 1, bk_last = ?t\<rparr>)"
    if "shard_get (w 0) ?k = Some b" for w b reqs
    using lr_existing [of w ?hash ?client paced_config b 0 ?k "?next w" ?u16 ?t reqs] that unfolding c by (simp add: shard_idx_def)
  have excess: "next_excess \<lparr>bk_excess = 0, bk_last = 0\<rparr> ?t 1 = 0" "next_excess \<lparr>bk_excess = 0, bk_last = ?t\<rparr> ?t 1 = 1"
    "next_excess \<lparr>bk_excess = 1, bk_last = ?t\<rparr> ?t 1 = 2"
    by (simp_all add: next_excess_def as_secs_def)
  have cond: "(1 < (0 :: rat)) = False" "(1 < (1 :: rat)) = False" "(1 < (2 :: rat)) = True" by simp_all
  note first = one [of ?m, OF start, unfolded excess cond if_True if_False]
  note second = one [of "?next ?m", OF conjunct2 [OF conjunct2 [OF first]], unfolded excess cond if_True if_False]
  note third = one [of "?next (?next ?m)", OF conjunct2 [OF conjunct2 [OF second]], unfolded excess cond if_True if_False]
  note fourth = one [of "?next (?next (?next ?m))", OF conjunct2 [OF conjunct2 [OF third]], unfolded excess cond if_True if_False]
  have four: "replicate 4 r = [r, r, r, r]" for r :: lr_request by (simp add: numeral_eq_Suc)
  have result: "?acc (replicate 4 (?client, ?t)) ?m = 2" "?swp (replicate 4 (?client, ?t)) ?m = 0"
    unfolding four by (simp_all only: first second third fourth accepted_from.simps(1) swept_from.simps(1) one_add_one add_0)
  have "of_nat (?acc (replicate 4 (?client, ?t)) ?m) \<le> lr_burst paced_config + 1 + lr_rate paced_config * as_secs (?t - ?t) +
      of_nat (?swp (replicate 4 (?client, ?t)) ?m)"
    by (rule leaky_bucket_conforms [OF config, where earlier = "[(?client, 0)]"]) (simp_all add: four)
  then show ?thesis using result unfolding Let_def by (simp add: c as_secs_def)
qed

text \<open>the decision of the bucket on one request is exactly the leaky-bucket rule: it rejects,
  leaving the bucket as it was, when the drained excess plus this request exceeds the burst, and
  otherwise records the request and delays it by the excess divided by the rate; \<open>nodelay\<close> never
  changes the state.\<close>

theorem bucket_incoming_exact:
  "bucket_incoming b now rate burst nd =
     (let e = max (bk_excess b - as_secs (now - bk_last b) * rate + 1) 0
      in if burst < e then (Inl (), b)
         else (Inr (e / rate), \<lparr>bk_excess = e, bk_last = now\<rparr>))"
  by (simp add: bucket_incoming_eq next_excess_def Let_def)

text \<open>the sweep's drain test does not make eviction harmless: with a zero burst (the
  default) every well-formed bucket passes the test at every instant, although the bucket would
  still reject every request of the next \<open>1 / rate\<close> seconds; after the sweep the same key starts
  with a fresh bucket and is admitted at once.\<close>

theorem zero_burst_bucket_evictable_while_limiting:
  assumes "bucket_ok 0 b" and "0 < lr_rate c" and "lr_burst c = 0"
    and "as_secs (now - bk_last b) * lr_rate c < 1"
  shows "lr_evict (c, now) b \<and> snd (lr_step (c, now) (Some b)) = None \<and>
    snd (lr_step (c, now) None) = Some 0"
proof -
  have e: "bk_excess b = 0" using assms(1) by (simp add: bucket_ok_def)
  have "0 < next_excess b now (lr_rate c)"
    using e assms(4) next_excess_ge [of b now "lr_rate c"] by simp
  then have "snd (lr_step (c, now) (Some b)) = None"
    using assms(3) by (simp add: lr_step_def bucket_incoming_eq)
  moreover have "lr_evict (c, now) b"
    using e assms(2) as_secs_nonneg by (simp add: lr_evict_def drained_def)
  ultimately show ?thesis by (simp add: lr_step_def)
qed

definition example_lr_config :: lr_config where
  "example_lr_config = \<lparr>lr_rate = 1, lr_burst = 0, lr_key_type = Var, lr_key = ''remote_addr'',
    lr_rejected_code = 503, lr_rejected_msg = None, lr_nodelay = False, lr_policy = Local\<rparr>"

theorem zero_burst_bucket_evictable_while_limiting_witness:
  "lr_config_check example_lr_config = Inr () \<and>
    lr_evict (example_lr_config, 1) \<lparr>bk_excess = 0, bk_last = 0\<rparr> \<and>
    snd (lr_step (example_lr_config, 1) (Some \<lparr>bk_excess = 0, bk_last = 0\<rparr>)) = None \<and>
    snd (lr_step (example_lr_config, 1) None) = Some 0"
  using zero_burst_bucket_evictable_while_limiting
    [of "\<lparr>bk_excess = 0, bk_last = 0\<rparr>" example_lr_config 1]
  by (simp add: example_lr_config_def bucket_ok_def as_secs_def lr_config_check_def
      validate_rate_def validate_burst_def validate_key_def trim_def trim_start_def
      is_whitespace_def policy_ensure_local_def)

end
