(* ===== verification/Limit_Conn.thy ===== *)
theory Limit_Conn
  imports Limiting
begin

text \<open>
  The concurrency limiter (\<open>src/plugins/limit_conn.rs\<close>).

  A counter (\<open>Arc<ConnState>\<close>) is an address into a store of \<open>conn_state\<close>s, because the shard
  and the guards of several requests share it. One plugin instance is a \<open>world\<close>: the sharded map
  from keys to addresses, the store, and the requests in flight with the guards each holds.
  The hook \<open>request_filter\<close> is cut at the points where another request can run: the lookup under
  the shard lock, the atomic increment, the decision, and the end of the sleep. \<open>conn_exec\<close>
  performs one such action of one request; an interleaving is a list of actions.

  \<open>AtomicUsize\<close> counters are natural numbers: \<open>conn_counts_exact\<close> shows that a counter is exactly
  the number of slots taken on it, so a decrement never happens at zero and an overflow would need
  \<open>2 ^ 64\<close> requests in flight. Delays are rational seconds, as in the other limiter.
\<close>

section \<open>Configuration\<close>

record conn_rule =
  cr_conn :: u32
  cr_burst :: u32
  cr_key :: string

record lc_config =
  lc_conn :: "u32 option"
  lc_burst :: u32
  lc_default_conn_delay :: rat
  lc_only_use_default_delay :: bool
  lc_key_type :: key_type
  lc_key :: "string option"
  lc_rules :: "conn_rule list"
  lc_rejected_code :: u16
  lc_rejected_msg :: "string option"
  lc_allow_degradation :: bool
  lc_policy :: policy

definition validate_conn_delay :: "rat \<Rightarrow> string + unit" where
  "validate_conn_delay v = (if v \<le> 0 then Inl ''default_conn_delay must be > 0'' else Inr ())"

definition validate_optional_conn :: "u32 \<Rightarrow> string + unit" where
  "validate_optional_conn v = (if v < 1 then Inl ''conn must be > 0'' else Inr ())"

definition conn_rule_validate :: "conn_rule \<Rightarrow> string + unit" where
  "conn_rule_validate r =
     sum_bind (if cr_conn r < 1 then Inl ''conn'' else Inr ()) (\<lambda>_. validate_key (cr_key r))"

fun validate_conn_rules :: "conn_rule list \<Rightarrow> string + unit" where
  "validate_conn_rules [] = Inr ()"
| "validate_conn_rules (r # rs) =
     (case conn_rule_validate r of
        Inl _ \<Rightarrow> Inl ''invalid rules entry''
      | Inr _ \<Rightarrow> validate_conn_rules rs)"

definition validate_limit_conn_shape :: "lc_config \<Rightarrow> string + unit" where
  "validate_limit_conn_shape c =
     (let main_configured = (lc_conn c \<noteq> None \<or> lc_key c \<noteq> None);
          rules_configured = (lc_rules c \<noteq> [])
      in if main_configured \<and> rules_configured
         then Inl ''configure either conn/burst/key or rules, not both''
         else if \<not> main_configured \<and> \<not> rules_configured
         then Inl ''either conn, burst and key or rules must be configured''
         else if main_configured \<and> (lc_conn c = None \<or> lc_key c = None)
         then Inl ''conn and key must be configured together''
         else Inr ())"

definition lc_config_check :: "lc_config \<Rightarrow> string + unit" where
  "lc_config_check c =
     sum_bind (case lc_conn c of None \<Rightarrow> Inr () | Some n \<Rightarrow> validate_optional_conn n) (\<lambda>_.
     sum_bind (validate_conn_delay (lc_default_conn_delay c)) (\<lambda>_.
     sum_bind (case lc_key c of None \<Rightarrow> Inr () | Some k \<Rightarrow> validate_key k) (\<lambda>_.
     sum_bind (validate_conn_rules (lc_rules c)) (\<lambda>_.
     sum_bind (if 200 \<le> lc_rejected_code c \<and> lc_rejected_code c \<le> 599 then Inr ()
               else Inl ''rejected_code'') (\<lambda>_.
     sum_bind (case lc_rejected_msg c of None \<Rightarrow> Inr () | Some m \<Rightarrow> validate_rejected_msg m) (\<lambda>_.
     sum_bind (validate_limit_conn_shape c)
       (\<lambda>_. policy_ensure_local (lc_policy c) ''limit-conn'')))))))"

section \<open>The decision\<close>

datatype decision = Pass | Delay rat | DReject

record limit_selection =
  ls_key :: string
  ls_conn :: u32
  ls_burst :: u32

definition decide :: "nat \<Rightarrow> u32 \<Rightarrow> u32 \<Rightarrow> rat \<Rightarrow> decision" where
  "decide n conn burst unit_delay =
     (let conn = unat conn
      in if n > conn + unat burst then DReject
         else if n > conn then Delay (unit_delay * of_nat ((n - 1) div conn))
         else Pass)"

text \<open>\<open>render\<close> and \<open>akey\<close> are the request template renderer and \<open>apisix_key\<close> on the session.\<close>

definition select_limits ::
  "(string \<Rightarrow> string) \<Rightarrow> (string \<Rightarrow> bool \<Rightarrow> string) \<Rightarrow> lc_config \<Rightarrow> limit_selection list option" where
  "select_limits render akey c =
     (if lc_rules c \<noteq> []
      then select_rules render (lc_rules c) cr_key
             (\<lambda>_ rule key. \<lparr>ls_key = key, ls_conn = cr_conn rule, ls_burst = cr_burst rule\<rparr>)
      else case (lc_conn c, lc_key c) of
             (Some conn, Some key) \<Rightarrow>
               Some [\<lparr>ls_key = akey key (lc_key_type c = VarCombination),
                      ls_conn = conn, ls_burst = lc_burst c\<rparr>]
           | _ \<Rightarrow> None)"

section \<open>Counters and guards\<close>

record conn_state =
  cs_count :: nat
  cs_unit_delay :: rat

record conn_guard =
  cg_state :: nat
  cg_started :: nat
  cg_slept_delay :: rat
  cg_released :: bool

text \<open>Where a request is inside the hook; \<open>Sleeping\<close> holds its new guard locally.\<close>

datatype conn_phase =
    Looking
  | Found nat
  | Counted nat nat
  | Sleeping conn_guard
  | Admitted
  | Finished filter_verdict

record conn_request =
  cq_todo :: "limit_selection list"
  cq_guards :: "conn_guard list"
  cq_phase :: conn_phase

record world =
  counters :: "nat shard_map"
  store :: "conn_state list"
  reqs :: "conn_request list"

definition guard_new :: "nat \<Rightarrow> nat \<Rightarrow> conn_guard" where
  "guard_new now a = \<lparr>cg_state = a, cg_started = now, cg_slept_delay = 0, cg_released = False\<rparr>"

definition fetch_add :: "nat \<Rightarrow> conn_state list \<Rightarrow> conn_state list" where
  "fetch_add a st = st[a := (st ! a)\<lparr>cs_count := cs_count (st ! a) + 1\<rparr>]"

definition fetch_sub :: "nat \<Rightarrow> conn_state list \<Rightarrow> conn_state list" where
  "fetch_sub a st = st[a := (st ! a)\<lparr>cs_count := cs_count (st ! a) - 1\<rparr>]"

text \<open>\<open>release\<close> at the instant \<open>now\<close>; a released guard does nothing.\<close>

definition release :: "bool \<Rightarrow> nat \<Rightarrow> conn_guard \<Rightarrow> conn_state list \<Rightarrow> conn_guard \<times> conn_state list" where
  "release update_delay now g st =
     (if cg_released g then (g, st)
      else
        let g = g\<lparr>cg_released := True\<rparr>;
            a = cg_state g;
            st = fetch_sub a st;
            latency = max (as_secs (now - cg_started g) - cg_slept_delay g) 0;
            st = (if update_delay
                  then st[a := (st ! a)\<lparr>cs_unit_delay := (latency + cs_unit_delay (st ! a)) / 2\<rparr>]
                  else st)
        in (g, st))"

text \<open>\<open>leave\<close> releases the guard and then drops it, which calls \<open>release\<close> a second time.\<close>

definition leave :: "bool \<Rightarrow> nat \<Rightarrow> conn_guard \<Rightarrow> conn_state list \<Rightarrow> conn_state list" where
  "leave update_delay now g st =
     (let (g, st) = release update_delay now g st in snd (release False 0 g st))"

definition drop_guard :: "conn_guard \<Rightarrow> conn_state list \<Rightarrow> conn_state list" where
  "drop_guard g st = snd (release False 0 g st)"

definition LIMIT_CONN_OVERFLOW :: string where
  "LIMIT_CONN_OVERFLOW = ''__pingsix_limit_conn_overflow__''"

definition lc_evict :: "conn_state list \<Rightarrow> nat \<Rightarrow> bool" where
  "lc_evict st a \<longleftrightarrow> cs_count (st ! a) = 0"

text \<open>The slot transition: \<open>or_insert_with\<close> and \<open>clone\<close>. A new state gets the next address.\<close>

definition lc_slot :: "conn_state list \<Rightarrow> nat option \<Rightarrow> nat \<times> nat" where
  "lc_slot st slot = (case slot of Some a \<Rightarrow> (a, a) | None \<Rightarrow> (length st, length st))"

definition get_or_insert_counter ::
  "(string \<Rightarrow> u64) \<Rightarrow> lc_config \<Rightarrow> string \<Rightarrow> world \<Rightarrow> nat \<times> world" where
  "get_or_insert_counter hash c key w =
     (let (a, m) = with_shard hash key
            (slot_op LIMIT_CONN_OVERFLOW (lc_evict (store w)) PushBack (lc_slot (store w)) key)
            (counters w);
          st = (if a = length (store w)
                then store w @ [\<lparr>cs_count = 0, cs_unit_delay = lc_default_conn_delay c\<rparr>]
                else store w)
      in (a, w\<lparr>counters := m, store := st\<rparr>))"

section \<open>The hooks, one atomic action at a time\<close>

datatype conn_event =
    Arrive "limit_selection list option"
  | Lookup nat
  | Count nat
  | Decide nat nat
  | Wake nat
  | Logging nat nat
  | Cancel nat

definition set_req :: "nat \<Rightarrow> conn_request \<Rightarrow> world \<Rightarrow> world" where
  "set_req i q w = w\<lparr>reqs := (reqs w)[i := q]\<rparr>"

definition conn_arrive :: "lc_config \<Rightarrow> limit_selection list option \<Rightarrow> conn_request" where
  "conn_arrive c limits =
     (case limits of
        None \<Rightarrow> \<lparr>cq_todo = [], cq_guards = [],
          cq_phase = Finished (if lc_allow_degradation c then Continue
            else Reject (limiter_rejection 500 (Some ''failed to get limit conn rules'') []))\<rparr>
      | Some ls \<Rightarrow> \<lparr>cq_todo = ls, cq_guards = [],
          cq_phase = (if ls = [] then Admitted else Looking)\<rparr>)"

text \<open>Push the guard of the current limit and go on with the next one, or store the guards in the
  request context and continue.\<close>

definition push_guard :: "conn_guard \<Rightarrow> conn_request \<Rightarrow> conn_request" where
  "push_guard g q =
     (let rest = tl (cq_todo q)
      in \<lparr>cq_todo = rest, cq_guards = cq_guards q @ [g],
          cq_phase = (if rest = [] then Admitted else Looking)\<rparr>)"

definition conn_lookup :: "(string \<Rightarrow> u64) \<Rightarrow> lc_config \<Rightarrow> nat \<Rightarrow> world \<Rightarrow> world" where
  "conn_lookup hash c i w =
     (let q = reqs w ! i
      in if cq_phase q = Looking
         then let (a, w) = get_or_insert_counter hash c (ls_key (hd (cq_todo q))) w
              in set_req i (q\<lparr>cq_phase := Found a\<rparr>) w
         else w)"

definition conn_count :: "nat \<Rightarrow> world \<Rightarrow> world" where
  "conn_count i w =
     (let q = reqs w ! i
      in case cq_phase q of
           Found a \<Rightarrow>
             set_req i (q\<lparr>cq_phase := Counted a (cs_count (store w ! a) + 1)\<rparr>)
               (w\<lparr>store := fetch_add a (store w)\<rparr>)
         | _ \<Rightarrow> w)"

definition conn_decide :: "(u16 \<Rightarrow> status_code option) \<Rightarrow> lc_config \<Rightarrow> nat \<Rightarrow> nat \<Rightarrow> world \<Rightarrow> world" where
  "conn_decide from_u16 c i now w =
     (let q = reqs w ! i
      in case cq_phase q of
           Counted a n \<Rightarrow>
             let limit = hd (cq_todo q);
                 unit_delay = cs_unit_delay (store w ! a)
             in (case decide n (ls_conn limit) (ls_burst limit) unit_delay of
                   Pass \<Rightarrow> set_req i (push_guard (guard_new now a) q) w
                 | Delay secs \<Rightarrow>
                     set_req i (q\<lparr>cq_phase := Sleeping ((guard_new now a)\<lparr>cg_slept_delay := secs\<rparr>)\<rparr>) w
                 | DReject \<Rightarrow>
                     set_req i (q\<lparr>cq_guards := [],
                       cq_phase := Finished (Reject (reject_policy_rejection from_u16
                         \<lparr>rp_code = lc_rejected_code c, rp_msg = lc_rejected_msg c\<rparr>))\<rparr>)
                       (w\<lparr>store := fold drop_guard (cq_guards q) (fetch_sub a (store w))\<rparr>))
         | _ \<Rightarrow> w)"

definition conn_wake :: "nat \<Rightarrow> world \<Rightarrow> world" where
  "conn_wake i w =
     (let q = reqs w ! i
      in case cq_phase q of
           Sleeping g \<Rightarrow> set_req i (push_guard g q) w
         | _ \<Rightarrow> w)"

definition conn_logging :: "lc_config \<Rightarrow> nat \<Rightarrow> nat \<Rightarrow> world \<Rightarrow> world" where
  "conn_logging c i now w =
     (let q = reqs w ! i
      in if cq_phase q = Admitted
         then set_req i (q\<lparr>cq_guards := [], cq_phase := Finished Continue\<rparr>)
                (w\<lparr>store := fold (leave (\<not> lc_only_use_default_delay c) now)
                            (cq_guards q) (store w)\<rparr>)
         else w)"

text \<open>Cancellation drops the request's future or its context: possible at the await of the sleep
  and once the hook has returned.\<close>

definition conn_cancel :: "nat \<Rightarrow> world \<Rightarrow> world" where
  "conn_cancel i w =
     (let q = reqs w ! i;
          drop = (\<lambda>gs. set_req i (q\<lparr>cq_guards := [], cq_phase := Finished Continue\<rparr>)
                         (w\<lparr>store := fold drop_guard gs (store w)\<rparr>))
      in case cq_phase q of
           Sleeping g \<Rightarrow> drop (cq_guards q @ [g])
         | Admitted \<Rightarrow> drop (cq_guards q)
         | _ \<Rightarrow> w)"

definition conn_exec ::
  "(u16 \<Rightarrow> status_code option) \<Rightarrow> (string \<Rightarrow> u64) \<Rightarrow> lc_config \<Rightarrow> conn_event \<Rightarrow> world \<Rightarrow> world" where
  "conn_exec from_u16 hash c ev w =
     (let on = (\<lambda>i act. if i < length (reqs w) then act i w else w)
      in case ev of
           Arrive limits \<Rightarrow> w\<lparr>reqs := reqs w @ [conn_arrive c limits]\<rparr>
         | Lookup i \<Rightarrow> on i (conn_lookup hash c)
         | Count i \<Rightarrow> on i conn_count
         | Decide i now \<Rightarrow> on i (\<lambda>i. conn_decide from_u16 c i now)
         | Wake i \<Rightarrow> on i conn_wake
         | Logging i now \<Rightarrow> on i (\<lambda>i. conn_logging c i now)
         | Cancel i \<Rightarrow> on i conn_cancel)"

definition conn_run ::
  "(u16 \<Rightarrow> status_code option) \<Rightarrow> (string \<Rightarrow> u64) \<Rightarrow> lc_config \<Rightarrow> conn_event list \<Rightarrow> world" where
  "conn_run from_u16 hash c evs =
     fold (conn_exec from_u16 hash c) evs
       \<lparr>counters = (\<lambda>_. shard_default), store = [], reqs = []\<rparr>"

section \<open>Invariants\<close>

text \<open>Slots taken on the counter \<open>a\<close>: guards not yet released, and increments not yet decided.\<close>

definition guard_claim :: "nat \<Rightarrow> conn_guard \<Rightarrow> nat" where
  "guard_claim a g = (if \<not> cg_released g \<and> cg_state g = a then 1 else 0)"

definition held :: "nat \<Rightarrow> conn_request \<Rightarrow> nat" where
  "held a q = sum_list (map (guard_claim a) (cq_guards q)) +
     (case cq_phase q of Sleeping g \<Rightarrow> guard_claim a g | _ \<Rightarrow> 0)"

definition undecided :: "(nat \<Rightarrow> bool) \<Rightarrow> nat \<Rightarrow> conn_request \<Rightarrow> nat" where
  "undecided p a q = (case cq_phase q of Counted b n \<Rightarrow> (if b = a \<and> p n then 1 else 0) | _ \<Rightarrow> 0)"

definition claims :: "(nat \<Rightarrow> bool) \<Rightarrow> nat \<Rightarrow> world \<Rightarrow> nat" where
  "claims p a w = (\<Sum>q \<leftarrow> reqs w. held a q + undecided p a q)"

definition in_flight :: "nat \<Rightarrow> world \<Rightarrow> nat" where
  "in_flight a w = (\<Sum>q \<leftarrow> reqs w. held a q)"

fun phase_valid :: "nat \<Rightarrow> conn_phase \<Rightarrow> bool" where
  "phase_valid m (Found a) = (a < m)"
| "phase_valid m (Counted a _) = (a < m)"
| "phase_valid m (Sleeping g) = (cg_state g < m)"
| "phase_valid m _ = True"

definition req_valid :: "nat \<Rightarrow> conn_request \<Rightarrow> bool" where
  "req_valid m q \<longleftrightarrow> (\<forall>g \<in> set (cq_guards q). cg_state g < m) \<and> phase_valid m (cq_phase q)"

definition world_valid :: "world \<Rightarrow> bool" where
  "world_valid w \<longleftrightarrow> (\<forall>q \<in> set (reqs w). req_valid (length (store w)) q) \<and>
     (\<forall>i k a. shard_get (counters w i) k = Some a \<longrightarrow> a < length (store w))"

definition counts_exact :: "world \<Rightarrow> bool" where
  "counts_exact w \<longleftrightarrow> (\<forall>a < length (store w). cs_count (store w ! a) = claims (\<lambda>_. True) a w)"

lemma sum_list_upd:
  fixes f :: "'a \<Rightarrow> nat"
  assumes "i < length xs"
  shows "sum_list (map f (xs[i := y])) + f (xs ! i) = sum_list (map f xs) + f y"
  using assms by (induction xs arbitrary: i) (auto simp: nth_Cons split: nat.splits)

lemma claims_set_req:
  assumes "i < length (reqs w)"
  shows "claims p a (set_req i q w) + (held a (reqs w ! i) + undecided p a (reqs w ! i)) =
    claims p a w + (held a q + undecided p a q)"
  using sum_list_upd [OF assms, of "\<lambda>q. held a q + undecided p a q" q]
  by (simp add: claims_def set_req_def)

lemma claims_store [simp]:
  "claims p a (w\<lparr>store := st\<rparr>) = claims p a w" "claims p a (w\<lparr>counters := m\<rparr>) = claims p a w"
  by (simp_all add: claims_def)

lemma set_req_simps [simp]:
  "store (set_req i q w) = store w" "counters (set_req i q w) = counters w"
  "reqs (set_req i q w) = (reqs w)[i := q]"
  by (simp_all add: set_req_def)

lemma fetch_simps [simp]:
  "length (fetch_add a st) = length st" "length (fetch_sub a st) = length st"
  "b < length st \<Longrightarrow> cs_count (fetch_add a st ! b) = cs_count (st ! b) + (if b = a then 1 else 0)"
  "b < length st \<Longrightarrow> cs_count (fetch_sub a st ! b) = cs_count (st ! b) - (if b = a then 1 else 0)"
  by (auto simp: fetch_add_def fetch_sub_def nth_list_update)

text \<open>Releasing a guard, by \<open>leave\<close> or by dropping it, gives back exactly its claim.\<close>

definition releases :: "(conn_guard \<Rightarrow> conn_state list \<Rightarrow> conn_state list) \<Rightarrow> bool" where
  "releases f \<longleftrightarrow> (\<forall>g st a. length (f g st) = length st \<and>
     (a < length st \<longrightarrow> cs_count (f g st ! a) = cs_count (st ! a) - guard_claim a g))"

lemma releases_drop: "releases drop_guard"
  by (auto simp: releases_def drop_guard_def release_def Let_def guard_claim_def)

lemma release_released: "cg_released (fst (release u now g st))"
  by (simp add: release_def Let_def)

lemma release_again: "cg_released g \<Longrightarrow> release u now g st = (g, st)"
  by (simp add: release_def)

lemma releases_leave: "releases (leave u now)"
proof -
  have "leave u now g st = snd (release u now g st)" for g st
    using release_released [of u now g st] release_again [of "fst (release u now g st)"]
    by (simp add: leave_def split_beta)
  then show ?thesis
    by (auto simp: releases_def release_def Let_def guard_claim_def nth_list_update)
qed

lemma releases_fold:
  assumes "releases f"
  shows "length (fold f gs st) = length st \<and> (a < length st \<longrightarrow>
    cs_count (fold f gs st ! a) = cs_count (st ! a) - sum_list (map (guard_claim a) gs))"
  using assms
  by (induction gs arbitrary: st) (auto simp: releases_def)

lemma req_in: "i < length (reqs w) \<Longrightarrow> reqs w ! i \<in> set (reqs w)"
  by simp

lemma own_claims_le:
  assumes "i < length (reqs w)"
  shows "held a (reqs w ! i) + undecided p a (reqs w ! i) \<le> claims p a w"
proof -
  have "held a (reqs w ! i) + undecided p a (reqs w ! i)
      \<in> set (map (\<lambda>q. held a q + undecided p a q) (reqs w))"
    using assms by simp
  then show ?thesis unfolding claims_def by (rule member_le_sum_list) simp
qed

definition todo_ok :: "conn_request \<Rightarrow> bool" where
  "todo_ok q \<longleftrightarrow> (cq_todo q = [] \<longrightarrow> cq_phase q = Admitted \<or> (\<exists>v. cq_phase q = Finished v)) \<and>
     ((\<exists>v. cq_phase q = Finished v) \<longrightarrow> cq_guards q = [])"

definition world_ok :: "world \<Rightarrow> bool" where
  "world_ok w \<longleftrightarrow> world_valid w \<and> counts_exact w \<and> (\<forall>q \<in> set (reqs w). todo_ok q)"

text \<open>One action rewrites one request and moves the counters by the change of its claims.\<close>

lemma world_ok_step:
  assumes "world_ok w" and i: "i < length (reqs w)" and len: "length st = length (store w)"
    and "req_valid (length (store w)) q" and "todo_ok q"
    and cnt: "\<And>a. a < length st \<Longrightarrow>
      cs_count (st ! a) + (held a (reqs w ! i) + undecided (\<lambda>_. True) a (reqs w ! i)) =
      cs_count (store w ! a) + (held a q + undecided (\<lambda>_. True) a q)"
  shows "world_ok (set_req i q (w\<lparr>store := st\<rparr>))"
proof -
  have "set ((reqs w)[i := q]) \<subseteq> insert q (set (reqs w))"
    by (rule set_update_subset_insert)
  moreover have "cs_count (st ! a) = claims (\<lambda>_. True) a (set_req i q (w\<lparr>store := st\<rparr>))"
    if "a < length st" for a
    using assms(1) cnt [OF that] that len claims_set_req [of i "w\<lparr>store := st\<rparr>" "\<lambda>_. True" a q] i
    by (simp add: world_ok_def counts_exact_def)
  ultimately show ?thesis
    using assms(1,4,5) len by (auto simp: world_ok_def world_valid_def counts_exact_def)
qed

lemma world_ok_phase:
  assumes "world_ok w" and "i < length (reqs w)"
    and "req_valid (length (store w)) q" and "todo_ok q"
    and "\<And>a. held a q + undecided (\<lambda>_. True) a q =
      held a (reqs w ! i) + undecided (\<lambda>_. True) a (reqs w ! i)"
  shows "world_ok (set_req i q w)"
  using world_ok_step [OF assms(1,2) refl assms(3,4)] assms(5) by simp

lemma world_ok_release:
  assumes "world_ok w" and i: "i < length (reqs w)" and "releases f"
    and gs: "\<And>a. sum_list (map (guard_claim a) gs) =
      held a (reqs w ! i) + undecided (\<lambda>_. True) a (reqs w ! i)"
  shows "world_ok (set_req i \<lparr>cq_todo = t, cq_guards = [], cq_phase = Finished v\<rparr>
    (w\<lparr>store := fold f gs (store w)\<rparr>))"
proof (rule world_ok_step [OF assms(1) i])
  note r = releases_fold [OF assms(3), of gs "store w"]
  show "length (fold f gs (store w)) = length (store w)" using r by simp
  fix a assume "a < length (fold f gs (store w))"
  then have "a < length (store w)" using r by simp
  moreover from this have "sum_list (map (guard_claim a) gs) \<le> cs_count (store w ! a)"
    using own_claims_le [OF i, of a "\<lambda>_. True"] assms(1) gs [of a]
    by (simp add: world_ok_def counts_exact_def)
  ultimately show "cs_count (fold f gs (store w) ! a) +
      (held a (reqs w ! i) + undecided (\<lambda>_. True) a (reqs w ! i)) = cs_count (store w ! a) +
      (held a \<lparr>cq_todo = t, cq_guards = [], cq_phase = Finished v\<rparr> +
       undecided (\<lambda>_. True) a \<lparr>cq_todo = t, cq_guards = [], cq_phase = Finished v\<rparr>)"
    using r gs [of a] by (simp add: held_def undecided_def)
qed (auto simp: req_valid_def todo_ok_def)

interpretation lconn: shard_client LIMIT_CONN_OVERFLOW lc_evict PushBack lc_slot "\<lambda>_. True"
  by unfold_locales simp

lemma get_or_insert_cases:
  assumes "world_valid w" and "get_or_insert_counter hash c key w = (a, w')"
  shows "reqs w' = reqs w"
    and "(a < length (store w) \<and> store w' = store w) \<or>
      (a = length (store w) \<and>
       store w' = store w @ [\<lparr>cs_count = 0, cs_unit_delay = lc_default_conn_delay c\<rparr>])"
    and "world_valid w'"
proof -
  let ?i = "shard_idx hash key" and ?st = "store w"
  obtain r sh where op: "slot_op LIMIT_CONN_OVERFLOW (lc_evict ?st) PushBack (lc_slot ?st) key
      (counters w ?i) = (r, sh)" by fastforce
  have w': "a = r" "counters w' = (counters w)(?i := sh)" "reqs w' = reqs w"
    "store w' = (if a = length ?st
      then ?st @ [\<lparr>cs_count = 0, cs_unit_delay = lc_default_conn_delay c\<rparr>] else ?st)"
    using assms(2) op by (auto simp: get_or_insert_counter_def with_shard_def Let_def)
  obtain sh' slot where slot: "slot = shard_get sh' (slot_key LIMIT_CONN_OVERFLOW (lc_evict ?st)
      PushBack key (counters w ?i))"
    and sub: "\<And>k v. shard_get sh' k = Some v \<Longrightarrow> shard_get (counters w ?i) k = Some v"
    and eq0: "slot_op LIMIT_CONN_OVERFLOW (lc_evict ?st) PushBack (lc_slot ?st) key
      (counters w ?i) = (snd (lc_slot ?st slot), shard_insert (slot_key LIMIT_CONN_OVERFLOW
      (lc_evict ?st) PushBack key (counters w ?i)) (fst (lc_slot ?st slot)) sh')"
    by (rule lconn.client_slot [where x = ?st and key = key and sh = "counters w ?i"])
      (rule that; assumption)
  have eq: "r = snd (lc_slot ?st slot)"
    "sh = shard_insert (slot_key LIMIT_CONN_OVERFLOW (lc_evict ?st) PushBack key (counters w ?i))
      (fst (lc_slot ?st slot)) sh'"
    using eq0 op by simp_all
  have old: "v < length ?st" if "shard_get sh' k = Some v" for k v
    using sub [OF that] assms(1) by (auto simp: world_valid_def)
  have la: "lc_slot ?st slot = (a, a)"
    using eq(1) w'(1) by (cases slot) (simp_all add: lc_slot_def)
  have a: "a < length ?st \<or> a = length ?st"
  proof (cases slot)
    case (Some b)
    then show ?thesis using la old slot by (auto simp: lc_slot_def)
  qed (use la in \<open>simp add: lc_slot_def\<close>)
  then show "(a < length (store w) \<and> store w' = store w) \<or>
      (a = length (store w) \<and>
       store w' = store w @ [\<lparr>cs_count = 0, cs_unit_delay = lc_default_conn_delay c\<rparr>])"
    using w' by auto
  have new: "v < length (store w')" if "shard_get sh k = Some v" for k v
  proof -
    have "v = a \<or> v < length ?st"
      using that old unfolding eq(2) la by (auto split: if_splits)
    then show ?thesis using a w'(4) by auto
  qed
  have mono: "length ?st \<le> length (store w')" using w'(4) by simp
  have rv: "req_valid (length (store w')) q" if "q \<in> set (reqs w)" for q
    using that assms(1) mono
    by (cases "cq_phase q") (fastforce simp: world_valid_def req_valid_def)+
  show "world_valid w'"
    using rv new w'(2,3) assms(1) less_le_trans [OF _ mono]
    by (simp add: world_valid_def)
qed (use assms in \<open>auto simp: get_or_insert_counter_def Let_def split: prod.splits\<close>)

lemma world_ok_lookup:
  assumes "world_ok w" and "get_or_insert_counter hash c key w = (a, w')"
  shows "world_ok w' \<and> a < length (store w') \<and> reqs w' = reqs w"
proof -
  have v: "world_valid w" using assms(1) by (simp add: world_ok_def)
  note g = get_or_insert_cases [OF v assms(2)]
  have cl: "claims p b w' = claims p b w" for p b using g(1) by (simp add: claims_def)
  have new: "claims (\<lambda>_. True) (length (store w)) w = 0"
  proof -
    have "held (length (store w)) q + undecided (\<lambda>_. True) (length (store w)) q = 0"
      if "q \<in> set (reqs w)" for q
    proof -
      have "req_valid (length (store w)) q" using that v by (simp add: world_valid_def)
      then show ?thesis
        by (cases "cq_phase q") (force simp: held_def undecided_def req_valid_def guard_claim_def)+
    qed
    then show ?thesis unfolding claims_def by (simp add: sum_list_eq_0_iff)
  qed
  have "counts_exact w'"
    using g(2) assms(1) new cl
    by (auto simp: world_ok_def counts_exact_def nth_append less_Suc_eq)
  then show ?thesis
    using g assms(1) by (auto simp: world_ok_def)
qed

lemmas conn_req_simps = held_def undecided_def req_valid_def todo_ok_def guard_claim_def guard_new_def

lemma world_ok_req:
  "world_ok w \<Longrightarrow> i < length (reqs w) \<Longrightarrow>
   req_valid (length (store w)) (reqs w ! i) \<and> todo_ok (reqs w ! i)"
  by (simp add: world_ok_def world_valid_def)

lemma world_ok_arrive: "world_ok w \<Longrightarrow> world_ok (w\<lparr>reqs := reqs w @ [conn_arrive c limits]\<rparr>)"
proof -
  let ?q = "conn_arrive c limits"
  have "held a ?q + undecided p a ?q = 0" "req_valid m ?q" "todo_ok ?q" for a p m
    by (auto simp: conn_arrive_def conn_req_simps split: option.splits)
  then show "world_ok w \<Longrightarrow> world_ok (w\<lparr>reqs := reqs w @ [?q]\<rparr>)"
    by (simp add: world_ok_def world_valid_def counts_exact_def claims_def)
qed

lemma world_ok_conn_lookup:
  assumes "world_ok w" and i: "i < length (reqs w)"
  shows "world_ok (conn_lookup hash c i w)"
proof (cases "cq_phase (reqs w ! i) = Looking")
  case True
  let ?q = "reqs w ! i"
  obtain a w' where g: "get_or_insert_counter hash c (ls_key (hd (cq_todo ?q))) w = (a, w')"
    by fastforce
  have ok: "world_ok w'" "a < length (store w')" "reqs w' = reqs w"
    using world_ok_lookup [OF assms(1) g] by simp_all
  have q: "req_valid (length (store w')) ?q" "todo_ok ?q"
    using world_ok_req [of w' i] ok i by simp_all
  have "world_ok (set_req i (?q\<lparr>cq_phase := Found a\<rparr>) w')"
    by (rule world_ok_phase) (use ok i q True in \<open>simp_all add: conn_req_simps\<close>)
  then show ?thesis using g True by (simp add: conn_lookup_def Let_def)
qed (simp add: conn_lookup_def assms)

lemma world_ok_conn_count:
  assumes "world_ok w" and i: "i < length (reqs w)"
  shows "world_ok (conn_count i w)"
proof (cases "cq_phase (reqs w ! i)")
  case (Found a)
  let ?q = "reqs w ! i"
  note q = world_ok_req [OF assms]
  have "world_ok (set_req i (?q\<lparr>cq_phase := Counted a (cs_count (store w ! a) + 1)\<rparr>)
      (w\<lparr>store := fetch_add a (store w)\<rparr>))"
    by (rule world_ok_step) (use assms q Found in \<open>simp_all add: conn_req_simps\<close>)
  then show ?thesis using Found by (simp add: conn_count_def Let_def)
qed (simp_all add: conn_count_def Let_def assms)

lemma fetch_sub_drop: "fetch_sub a st = drop_guard (guard_new now a) st"
  by (simp add: drop_guard_def release_def guard_new_def Let_def)

lemma world_ok_conn_decide:
  assumes "world_ok w" and i: "i < length (reqs w)"
  shows "world_ok (conn_decide from_u16 c i now w)"
proof (cases "cq_phase (reqs w ! i)")
  case (Counted a n)
  let ?q = "reqs w ! i"
  let ?d = "decide n (ls_conn (hd (cq_todo ?q))) (ls_burst (hd (cq_todo ?q)))
    (cs_unit_delay (store w ! a))"
  note q = world_ok_req [OF assms]
  have "world_ok (set_req i (push_guard (guard_new now a) ?q) w)"
    by (rule world_ok_phase)
      (use assms q Counted in \<open>auto simp: push_guard_def Let_def conn_req_simps\<close>)
  moreover have "world_ok (set_req i (?q\<lparr>cq_phase :=
      Sleeping ((guard_new now a)\<lparr>cg_slept_delay := secs\<rparr>)\<rparr>) w)" for secs
    by (rule world_ok_phase) (use assms q Counted in \<open>simp_all add: conn_req_simps\<close>)
  moreover have "world_ok (set_req i (?q\<lparr>cq_guards := [], cq_phase := Finished v\<rparr>)
      (w\<lparr>store := fold drop_guard (cq_guards ?q) (fetch_sub a (store w))\<rparr>))" for v
    using world_ok_release [OF assms releases_drop, of "guard_new now a # cq_guards ?q"] Counted
    by (cases ?q) (simp add: conn_req_simps fetch_sub_drop [of _ _ now])
  ultimately show ?thesis
    using Counted by (cases ?d) (simp_all add: conn_decide_def Let_def)
qed (simp_all add: conn_decide_def Let_def assms)

lemma world_ok_conn_wake:
  assumes "world_ok w" and i: "i < length (reqs w)"
  shows "world_ok (conn_wake i w)"
proof (cases "cq_phase (reqs w ! i)")
  case (Sleeping g)
  note q = world_ok_req [OF assms]
  have "world_ok (set_req i (push_guard g (reqs w ! i)) w)"
    by (rule world_ok_phase)
      (use assms q Sleeping in \<open>auto simp: push_guard_def Let_def conn_req_simps\<close>)
  then show ?thesis using Sleeping by (simp add: conn_wake_def Let_def)
qed (simp_all add: conn_wake_def Let_def assms)

lemma world_ok_conn_logging:
  assumes "world_ok w" and i: "i < length (reqs w)"
  shows "world_ok (conn_logging c i now w)"
proof (cases "cq_phase (reqs w ! i) = Admitted")
  case True
  then show ?thesis
    using world_ok_release [OF assms releases_leave, of "cq_guards (reqs w ! i)"]
    by (cases "reqs w ! i") (simp add: conn_logging_def Let_def conn_req_simps)
qed (simp add: conn_logging_def Let_def assms)

lemma world_ok_conn_cancel:
  assumes "world_ok w" and i: "i < length (reqs w)"
  shows "world_ok (conn_cancel i w)"
proof -
  let ?q = "reqs w ! i"
  note r = world_ok_release [OF assms releases_drop]
  show ?thesis
    using r [of "cq_guards ?q"] r [of "cq_guards ?q @ [g]" for g] assms
    by (cases ?q; cases "cq_phase ?q") (simp_all add: conn_cancel_def Let_def conn_req_simps)
qed

lemma world_ok_exec: "world_ok w \<Longrightarrow> world_ok (conn_exec from_u16 hash c ev w)"
  by (cases ev)
    (simp_all add: conn_exec_def world_ok_arrive world_ok_conn_lookup world_ok_conn_count
      world_ok_conn_decide world_ok_conn_wake world_ok_conn_logging world_ok_conn_cancel)

lemma world_ok_run: "world_ok (conn_run from_u16 hash c evs)"
proof -
  have "world_ok w \<Longrightarrow> world_ok (fold (conn_exec from_u16 hash c) evs w)" for w
    by (induction evs arbitrary: w) (simp_all add: world_ok_exec)
  moreover have "world_ok \<lparr>counters = (\<lambda>_. shard_default), store = [], reqs = []\<rparr>"
    by (simp add: world_ok_def world_valid_def counts_exact_def shard_get_def shard_default_def)
  ultimately show ?thesis by (simp add: conn_run_def)
qed

section \<open>The concurrency bound\<close>

definition limits_le :: "nat \<Rightarrow> limit_selection list \<Rightarrow> bool" where
  "limits_le L ls \<longleftrightarrow> (\<forall>l \<in> set ls. unat (ls_conn l) + unat (ls_burst l) \<le> L)"

fun event_le :: "nat \<Rightarrow> conn_event \<Rightarrow> bool" where
  "event_le L (Arrive (Some ls)) = limits_le L ls"
| "event_le L _ = True"

text \<open>Undecided increments whose observed count is within the bound are counted as taken.\<close>

definition world_le :: "nat \<Rightarrow> world \<Rightarrow> bool" where
  "world_le L w \<longleftrightarrow> (\<forall>a. claims (\<lambda>n. n \<le> L) a w \<le> L) \<and>
     (\<forall>q \<in> set (reqs w). limits_le L (cq_todo q))"

lemma claims_mono: "claims p a w \<le> claims (\<lambda>_. True) a w"
  unfolding claims_def
  by (rule sum_list_mono) (simp add: undecided_def split: conn_phase.split)

lemma world_le_step:
  assumes "world_le L w" and i: "i < length (reqs w)" and "limits_le L (cq_todo q)"
    and "\<And>a. held a q + undecided (\<lambda>n. n \<le> L) a q
      \<le> held a (reqs w ! i) + undecided (\<lambda>n. n \<le> L) a (reqs w ! i)"
  shows "world_le L (set_req i q (w\<lparr>store := st\<rparr>))"
proof -
  have "set ((reqs w)[i := q]) \<subseteq> insert q (set (reqs w))"
    by (rule set_update_subset_insert)
  moreover have "claims (\<lambda>n. n \<le> L) a (set_req i q (w\<lparr>store := st\<rparr>)) \<le> L" for a
  proof -
    have "claims (\<lambda>n. n \<le> L) a (set_req i q (w\<lparr>store := st\<rparr>)) \<le> claims (\<lambda>n. n \<le> L) a w"
      using claims_set_req [of i "w\<lparr>store := st\<rparr>" "\<lambda>n. n \<le> L" a q] assms(4) [of a] i by simp
    then show ?thesis using assms(1) by (auto simp: world_le_def intro: le_trans)
  qed
  ultimately show ?thesis using assms(1,3) by (auto simp: world_le_def)
qed

lemma world_le_phase:
  assumes "world_le L w" and "i < length (reqs w)" and "limits_le L (cq_todo q)"
    and "\<And>a. held a q + undecided (\<lambda>n. n \<le> L) a q
      \<le> held a (reqs w ! i) + undecided (\<lambda>n. n \<le> L) a (reqs w ! i)"
  shows "world_le L (set_req i q w)"
  using world_le_step [OF assms, of "store w"] by simp

lemma world_le_req: "world_le L w \<Longrightarrow> i < length (reqs w) \<Longrightarrow> limits_le L (cq_todo (reqs w ! i))"
  by (simp add: world_le_def)

lemma limits_le_tl: "limits_le L ls \<Longrightarrow> limits_le L (tl ls)"
  by (cases ls) (simp_all add: limits_le_def)

lemma world_le_conn_lookup:
  assumes "world_ok w" and "world_le L w" and i: "i < length (reqs w)"
  shows "world_le L (conn_lookup hash c i w)"
proof (cases "cq_phase (reqs w ! i) = Looking")
  case True
  let ?q = "reqs w ! i"
  obtain a w' where g: "get_or_insert_counter hash c (ls_key (hd (cq_todo ?q))) w = (a, w')"
    by fastforce
  have r: "reqs w' = reqs w"
    using world_ok_lookup [OF assms(1) g] by simp
  then have "world_le L w'" using assms(2) by (simp add: world_le_def claims_def)
  then have "world_le L (set_req i (?q\<lparr>cq_phase := Found a\<rparr>) w')"
    by (rule world_le_phase)
      (use r i world_le_req [OF assms(2) i] in \<open>simp_all add: conn_req_simps True\<close>)
  then show ?thesis using g True by (simp add: conn_lookup_def Let_def)
qed (simp add: conn_lookup_def assms)

lemma world_le_conn_count:
  assumes "world_ok w" and "world_le L w" and i: "i < length (reqs w)"
  shows "world_le L (conn_count i w)"
proof (cases "cq_phase (reqs w ! i)")
  case (Found a)
  let ?q = "reqs w ! i" and ?p = "\<lambda>n. n \<le> L"
  let ?q' = "?q\<lparr>cq_phase := Counted a (cs_count (store w ! a) + 1)\<rparr>"
  let ?w' = "set_req i ?q' (w\<lparr>store := fetch_add a (store w)\<rparr>)"
  have "a < length (store w)"
    using world_ok_req [OF assms(1) i] Found by (simp add: req_valid_def)
  then have n: "cs_count (store w ! a) = claims (\<lambda>_. True) a w"
    using assms(1) by (simp add: world_ok_def counts_exact_def)
  have "claims ?p b ?w' \<le> L" for b
  proof -
    have "claims ?p b ?w' = claims ?p b w + undecided ?p b ?q'"
      using claims_set_req [of i "w\<lparr>store := fetch_add a (store w)\<rparr>" ?p b ?q'] i Found
      by (simp add: conn_req_simps)
    moreover have "claims ?p b w \<le> L" using assms(2) by (simp add: world_le_def)
    ultimately show ?thesis
      using n claims_mono [of ?p a w] by (auto simp: undecided_def)
  qed
  moreover have "set (reqs ?w') \<subseteq> insert ?q' (set (reqs w))"
    by (simp add: set_update_subset_insert)
  ultimately have "world_le L ?w'"
    using assms(2) world_le_req [OF assms(2) i] by (auto simp: world_le_def)
  then show ?thesis using Found by (simp add: conn_count_def Let_def)
qed (simp_all add: conn_count_def Let_def assms)

lemma decide_le:
  "decide n conn burst d \<noteq> DReject \<longleftrightarrow> n \<le> unat conn + unat burst"
  by (auto simp: decide_def Let_def)

lemma world_le_conn_decide:
  assumes "world_ok w" and "world_le L w" and i: "i < length (reqs w)"
  shows "world_le L (conn_decide from_u16 c i now w)"
proof (cases "cq_phase (reqs w ! i)")
  case (Counted a n)
  let ?q = "reqs w ! i"
  let ?d = "decide n (ls_conn (hd (cq_todo ?q))) (ls_burst (hd (cq_todo ?q)))
    (cs_unit_delay (store w ! a))"
  note le = world_le_req [OF assms(2) i]
  have "cq_todo ?q \<noteq> []"
    using world_ok_req [OF assms(1) i] Counted by (auto simp: todo_ok_def)
  then have "unat (ls_conn (hd (cq_todo ?q))) + unat (ls_burst (hd (cq_todo ?q))) \<le> L"
    using le by (cases "cq_todo ?q") (simp_all add: limits_le_def)
  then have n: "?d \<noteq> DReject \<Longrightarrow> n \<le> L"
    using decide_le [of n] by force
  have "world_le L (set_req i (push_guard (guard_new now a) ?q) w)" if "?d \<noteq> DReject"
    by (rule world_le_phase)
      (use assms le n [OF that] limits_le_tl Counted in
        \<open>auto simp: push_guard_def Let_def conn_req_simps\<close>)
  moreover have "world_le L (set_req i (?q\<lparr>cq_phase :=
      Sleeping ((guard_new now a)\<lparr>cg_slept_delay := secs\<rparr>)\<rparr>) w)" if "?d \<noteq> DReject" for secs
    by (rule world_le_phase)
      (use assms le n [OF that] Counted in \<open>auto simp: conn_req_simps\<close>)
  moreover have "world_le L (set_req i (?q\<lparr>cq_guards := [], cq_phase := Finished v\<rparr>)
      (w\<lparr>store := st\<rparr>))" for v st
    by (rule world_le_step) (use assms le in \<open>auto simp: conn_req_simps\<close>)
  ultimately show ?thesis
    using Counted by (cases ?d) (simp_all add: conn_decide_def Let_def)
qed (simp_all add: conn_decide_def Let_def assms)

lemma world_le_conn_wake:
  assumes "world_le L w" and i: "i < length (reqs w)"
  shows "world_le L (conn_wake i w)"
proof (cases "cq_phase (reqs w ! i)")
  case (Sleeping g)
  have "world_le L (set_req i (push_guard g (reqs w ! i)) w)"
    by (rule world_le_phase)
      (use assms world_le_req [OF assms] limits_le_tl Sleeping in
        \<open>auto simp: push_guard_def Let_def conn_req_simps\<close>)
  then show ?thesis using Sleeping by (simp add: conn_wake_def Let_def)
qed (simp_all add: conn_wake_def Let_def assms)

lemma world_le_finish:
  assumes "world_le L w" and i: "i < length (reqs w)"
  shows "world_le L (set_req i ((reqs w ! i)\<lparr>cq_guards := [], cq_phase := Finished v\<rparr>)
    (w\<lparr>store := st\<rparr>))"
  by (rule world_le_step) (use assms world_le_req [OF assms] in \<open>auto simp: conn_req_simps\<close>)

lemma world_le_exec:
  assumes "world_ok w" and "world_le L w" and "event_le L ev"
  shows "world_le L (conn_exec from_u16 hash c ev w)"
proof (cases ev)
  case (Arrive limits)
  then have "limits_le L (cq_todo (conn_arrive c limits))"
    "claims p a (w\<lparr>reqs := reqs w @ [conn_arrive c limits]\<rparr>) = claims p a w" for p a
    using assms(3)
    by (auto simp: conn_arrive_def conn_req_simps claims_def limits_le_def split: option.splits)
  then show ?thesis using Arrive assms(2) by (simp add: conn_exec_def world_le_def)
qed (use assms in \<open>simp_all add: conn_exec_def world_le_conn_lookup world_le_conn_count
    world_le_conn_decide world_le_conn_wake conn_logging_def conn_cancel_def world_le_finish Let_def
    split: conn_phase.split\<close>)

lemma world_le_run:
  assumes "\<forall>ev \<in> set evs. event_le L ev"
  shows "world_le L (conn_run from_u16 hash c evs)"
proof -
  have "world_ok w \<Longrightarrow> world_le L w \<Longrightarrow> world_le L (fold (conn_exec from_u16 hash c) evs w)" for w
    using assms by (induction evs arbitrary: w) (simp_all add: world_ok_exec world_le_exec)
  moreover have "world_ok \<lparr>counters = (\<lambda>_. shard_default), store = [], reqs = []\<rparr>"
    using world_ok_run [of from_u16 hash c "[]"] by (simp add: conn_run_def)
  ultimately show ?thesis by (simp add: conn_run_def world_le_def claims_def)
qed

section \<open>Active counters stay\<close>

lemma slot_keeps_active:
  assumes "shard_get sh k = Some a" and "cs_count (st ! a) \<noteq> 0"
  shows "shard_get (snd (slot_op LIMIT_CONN_OVERFLOW (lc_evict st) PushBack (lc_slot st) key sh)) k
    = Some a"
proof (cases "k = slot_key LIMIT_CONN_OVERFLOW (lc_evict st) PushBack key sh")
  case False
  then show ?thesis
    using lconn.client_keeps_live [of sh k a st key] assms by (simp add: lc_evict_def)
next
  case True
  obtain sk sh' where ad: "admit key LIMIT_CONN_OVERFLOW (sweep (lc_evict st) PushBack) sh = (sk, sh')"
    by fastforce
  then have "shard_get sh' k = Some a"
    using admit_get [of key LIMIT_CONN_OVERFLOW "lc_evict st" PushBack sh k] assms
    by (auto simp: lc_evict_def)
  then show ?thesis
    using ad True by (simp add: slot_op_def slot_key_def lc_slot_def)
qed

lemma lookup_keeps_active:
  assumes "shard_get (counters w i) k = Some a" and "cs_count (store w ! a) \<noteq> 0"
  shows "shard_get (counters (snd (get_or_insert_counter hash c key w)) i) k = Some a"
  using assms slot_keeps_active [OF _ assms(2), of "counters w i" k key]
  by (cases "i = shard_idx hash key") (simp_all add: get_or_insert_counter_def with_shard_def Let_def split_beta)

lemma exec_keeps_active:
  assumes "shard_get (counters w i) k = Some a" and "cs_count (store w ! a) \<noteq> 0"
  shows "shard_get (counters (conn_exec from_u16 hash c ev w) i) k = Some a"
  using assms lookup_keeps_active [OF assms]
  by (simp add: conn_exec_def conn_lookup_def conn_count_def conn_decide_def conn_wake_def
      conn_logging_def conn_cancel_def Let_def split_beta
      split: conn_event.split conn_phase.split decision.split)

lemma lookup_active:
  assumes "shard_get (counters w (shard_idx hash key)) key = Some a"
    and "a < length (store w)"
  shows "get_or_insert_counter hash c key w =
    (a, w\<lparr>counters := (counters w)(shard_idx hash key := shard_insert key a
       (shard_touch key (counters w (shard_idx hash key))))\<rparr>)"
  using assms
  by (simp add: get_or_insert_counter_def with_shard_def slot_op_existing lc_slot_def Let_def)

section \<open>Properties\<close>

text \<open>C27: the concurrency bound of a counter under every interleaving. Let \<open>L\<close> be at least every limit
  \<open>conn + burst\<close> that occurs in the run. Whatever requests arrive and however their lookups, increments,
  decisions, sleeps, completions and cancellations interleave, at most \<open>L\<close> requests hold a slot of one
  counter - the counter at one address of the store - at the same time. It is not a bound for a key: after a
  sweep has dropped the idle entry of a key, requests that still hold the old counter and new ones with a
  fresh counter are bounded separately.\<close>

theorem conn_admission_bound:
  assumes "\<forall>ev \<in> set evs. event_le L ev"
  shows "in_flight a (conn_run from_u16 hash c evs) \<le> L"
proof -
  have "in_flight a w \<le> claims p a w" for p w
    unfolding in_flight_def claims_def by (rule sum_list_mono) simp
  then show ?thesis
    using world_le_run [OF assms, of from_u16 hash c] unfolding world_le_def by (meson le_trans)
qed

definition example_lc_config :: lc_config where
  "example_lc_config = \<lparr>lc_conn = Some 1, lc_burst = 0, lc_default_conn_delay = 1,
    lc_only_use_default_delay = False, lc_key_type = Var, lc_key = Some ''k'', lc_rules = [],
    lc_rejected_code = 503, lc_rejected_msg = None, lc_allow_degradation = False,
    lc_policy = Local\<rparr>"

text \<open>Two requests of one key: the one that increments first is admitted, the other rejected.\<close>

definition example_events :: "conn_event list" where
  "example_events =
     (let ls = select_limits id (\<lambda>k _. k) example_lc_config
      in [Arrive ls, Arrive ls, Lookup 0, Lookup 1, Count 1, Count 0, Decide 0 5, Decide 1 6])"

theorem conn_admission_bound_witness:
  "in_flight 0 (conn_run (\<lambda>c. Some (unat c)) (\<lambda>_. 0) example_lc_config example_events) \<le> 1 \<and>
   in_flight 0 (conn_run (\<lambda>c. Some (unat c)) (\<lambda>_. 0) example_lc_config example_events) = 1"
proof
  show "in_flight 0 (conn_run (\<lambda>c. Some (unat c)) (\<lambda>_. 0) example_lc_config example_events) \<le> 1"
    by (rule conn_admission_bound)
      (simp add: example_events_def example_lc_config_def select_limits_def limits_le_def Let_def)
  show "in_flight 0 (conn_run (\<lambda>c. Some (unat c)) (\<lambda>_. 0) example_lc_config example_events) = 1"
    by code_simp
qed

text \<open>A counter is exact in every interleaving: it equals the number of slots taken on it
  (guards held by requests in flight, plus increments whose decision is pending), so a guard gives
  its slot back exactly once and a decrement never happens at zero.\<close>

theorem conn_counts_exact:
  "let w = conn_run from_u16 hash c evs
   in map cs_count (store w) = map (\<lambda>a. claims (\<lambda>_. True) a w) [0..<length (store w)]"
proof -
  have "counts_exact (conn_run from_u16 hash c evs)"
    using world_ok_run [of from_u16 hash c evs] by (simp add: world_ok_def)
  then show ?thesis
    unfolding Let_def counts_exact_def by (intro nth_equalityI) simp_all
qed

text \<open>C35: no slot leaks: once every request has finished, by completing, being rejected or being
  cancelled, every counter is zero.\<close>

theorem conn_no_leak:
  assumes "\<forall>q \<in> set (reqs (conn_run from_u16 hash c evs)). \<exists>v. cq_phase q = Finished v"
  shows "\<forall>s \<in> set (store (conn_run from_u16 hash c evs)). cs_count s = 0"
proof -
  let ?w = "conn_run from_u16 hash c evs"
  have ok: "world_ok ?w" by (rule world_ok_run)
  have "held a q + undecided (\<lambda>_. True) a q = 0" if "q \<in> set (reqs ?w)" for a q
    using that ok assms by (force simp: world_ok_def todo_ok_def held_def undecided_def)
  then have "claims (\<lambda>_. True) a ?w = 0" for a
    unfolding claims_def by (simp add: sum_list_eq_0_iff)
  then show ?thesis
    using ok by (auto simp: world_ok_def counts_exact_def in_set_conv_nth)
qed

theorem conn_no_leak_witness:
  "list_all (\<lambda>s. cs_count s = 0) (store (conn_run (\<lambda>c. Some (unat c)) (\<lambda>_. 0) example_lc_config
      (example_events @ [Logging 1 9])))"
  unfolding list_all_iff
proof (rule conn_no_leak)
  have "list_all (\<lambda>q. case cq_phase q of Finished v \<Rightarrow> True | _ \<Rightarrow> False)
      (reqs (conn_run (\<lambda>c. Some (unat c)) (\<lambda>_. 0) example_lc_config (example_events @ [Logging 1 9])))"
    by code_simp
  then have h: "\<forall>q \<in> set (reqs (conn_run (\<lambda>c. Some (unat c)) (\<lambda>_. 0) example_lc_config
      (example_events @ [Logging 1 9]))). case cq_phase q of Finished v \<Rightarrow> True | _ \<Rightarrow> False"
    by (simp only: list_all_iff)
  have "(case ph of Finished v \<Rightarrow> True | _ \<Rightarrow> False) \<Longrightarrow> \<exists>v. ph = Finished v" for ph
    by (cases ph) simp_all
  with h show "\<forall>q \<in> set (reqs (conn_run (\<lambda>c. Some (unat c)) (\<lambda>_. 0) example_lc_config
      (example_events @ [Logging 1 9]))). \<exists>v. cq_phase q = Finished v"
    by blast
qed

text \<open>A key with requests in flight keeps its counter: in every reachable world, no action of
  any request (in particular no sweep of a full shard) evicts or replaces a counter on which a slot
  is taken, and the next lookup of the key returns that counter.\<close>

theorem conn_active_counter_kept:
  assumes "w = conn_run from_u16 hash c evs"
    and "shard_get (counters w (shard_idx hash key)) key = Some a"
    and "0 < claims (\<lambda>_. True) a w"
  shows "shard_get (counters (conn_exec from_u16 hash c ev w) (shard_idx hash key)) key = Some a \<and>
    fst (get_or_insert_counter hash c key w) = a"
proof -
  have ok: "world_ok w" unfolding assms(1) by (rule world_ok_run)
  then have a: "a < length (store w)"
    using assms(2) by (auto simp: world_ok_def world_valid_def)
  then have "cs_count (store w ! a) \<noteq> 0"
    using ok assms(3) by (simp add: world_ok_def counts_exact_def)
  then show ?thesis
    using exec_keeps_active [OF assms(2)] lookup_active [OF assms(2) a] by simp
qed

theorem conn_active_counter_kept_witness:
  "fst (get_or_insert_counter (\<lambda>_. 0) example_lc_config ''k''
     (conn_run (\<lambda>c. Some (unat c)) (\<lambda>_. 0) example_lc_config example_events)) = 0"
proof -
  let ?w = "conn_run (\<lambda>c. Some (unat c)) (\<lambda>_. 0) example_lc_config example_events"
  have "shard_get (counters ?w (shard_idx (\<lambda>_. 0) ''k'')) ''k'' = Some 0"
    by code_simp
  moreover have "0 < claims (\<lambda>_. True) 0 ?w" by code_simp
  ultimately show ?thesis
    using conn_active_counter_kept [OF refl] by blast
qed

end
