(* ===== verification/Limit_Count.thy ===== *)
theory Limit_Count
  imports Limiting
begin

text \<open>
  The request counter (\<open>src/plugins/limit_count.rs\<close>): configuration checks, the sliding window
  with its bounded history, the shared counters of a group, the hook and the quota headers.

  Pingora's \<open>Rate\<close> estimator is a type parameter \<open>'r\<close> with its constructor \<open>rate_new\<close> and
  \<open>rate_observe\<close>; counts are integers (\<open>isize\<close>, never near its bounds: the sliding window holds at
  most 4096 events). The clock reads of one call of the hook are one instant \<open>now\<close>. The Prometheus counters are not modelled.
\<close>

section \<open>Configuration\<close>

definition MAX_SLIDING_ENTRIES_PER_KEY :: nat where "MAX_SLIDING_ENTRIES_PER_KEY = 4096"
definition MAX_WINDOW_SECS :: u32 where "MAX_WINDOW_SECS = 86400"

datatype window_type = Fixed | Sliding
datatype key_missing_policy = KAllow | KDeny | KDefault
datatype scope = SLocal | SCluster

record count_rule =
  cnr_count :: u32
  cnr_time_window :: u32
  cnr_key :: string
  cnr_header_prefix :: "string option"

record ln_config =
  ln_key_type :: count_key_type
  ln_key :: string
  ln_time_window :: "u32 option"
  ln_count :: "u32 option"
  ln_window_type :: window_type
  ln_rejected_code :: u16
  ln_rejected_msg :: "string option"
  ln_header_prefix :: "string option"
  ln_show_header :: bool
  ln_key_missing_policy :: key_missing_policy
  ln_scope :: scope
  ln_rules :: "count_rule list"
  ln_group :: "string option"
  ln_policy :: count_policy
  ln_allow_degradation :: bool

definition validate_optional_count :: "u32 \<Rightarrow> string + unit" where
  "validate_optional_count v = (if v < 1 then Inl ''count must be > 0'' else Inr ())"

definition validate_optional_time_window :: "u32 \<Rightarrow> string + unit" where
  "validate_optional_time_window v =
     (if \<not> (1 \<le> v \<and> v \<le> 86400)
      then Inl ''time_window must be between 1 and 86400 seconds'' else Inr ())"

definition validate_header_prefix :: "string \<Rightarrow> string + unit" where
  "validate_header_prefix v =
     (if v = [] \<or> \<not> list_all (\<lambda>c. is_ascii_alphanumeric c \<or> c = CHR ''_'' \<or> c = CHR ''-'') v
      then Inl ''header_prefix must be non-empty and contain only [A-Za-z0-9_-]'' else Inr ())"

definition count_rule_validate :: "count_rule \<Rightarrow> string + unit" where
  "count_rule_validate r =
     sum_bind (if cnr_count r < 1 then Inl ''count'' else Inr ()) (\<lambda>_.
     sum_bind (validate_optional_time_window (cnr_time_window r)) (\<lambda>_.
     sum_bind (validate_key (cnr_key r)) (\<lambda>_.
     (case cnr_header_prefix r of None \<Rightarrow> Inr () | Some p \<Rightarrow> validate_header_prefix p))))"

fun validate_count_rules :: "count_rule list \<Rightarrow> string + unit" where
  "validate_count_rules [] = Inr ()"
| "validate_count_rules (r # rs) =
     (case count_rule_validate r of
        Inl _ \<Rightarrow> Inl ''invalid rules entry''
      | Inr _ \<Rightarrow> validate_count_rules rs)"

definition validate_limit_count_shape :: "ln_config \<Rightarrow> string + unit" where
  "validate_limit_count_shape c =
     (let main_configured = (ln_count c \<noteq> None \<or> ln_time_window c \<noteq> None);
          rules_configured = (ln_rules c \<noteq> [])
      in if main_configured \<and> rules_configured
         then Inl ''configure either count/time_window or rules, not both''
         else if \<not> main_configured \<and> \<not> rules_configured
         then Inl ''either count and time_window or rules must be configured''
         else if main_configured \<and> (ln_count c = None \<or> ln_time_window c = None)
         then Inl ''count and time_window must be configured together''
         else Inr ())"

definition ln_derived_checks :: "ln_config \<Rightarrow> string + unit" where
  "ln_derived_checks c =
     sum_bind (validate_key (ln_key c)) (\<lambda>_.
     sum_bind (case ln_time_window c of None \<Rightarrow> Inr () | Some w \<Rightarrow> validate_optional_time_window w) (\<lambda>_.
     sum_bind (case ln_count c of None \<Rightarrow> Inr () | Some n \<Rightarrow> validate_optional_count n) (\<lambda>_.
     sum_bind (if 200 \<le> ln_rejected_code c \<and> ln_rejected_code c \<le> 599 then Inr ()
               else Inl ''rejected_code'') (\<lambda>_.
     sum_bind (case ln_rejected_msg c of None \<Rightarrow> Inr () | Some m \<Rightarrow> validate_rejected_msg m) (\<lambda>_.
     sum_bind (case ln_header_prefix c of None \<Rightarrow> Inr () | Some p \<Rightarrow> validate_header_prefix p) (\<lambda>_.
     sum_bind (validate_count_rules (ln_rules c)) (\<lambda>_.
     validate_limit_count_shape c)))))))"

fun duplicate_key :: "string list \<Rightarrow> string list \<Rightarrow> string option" where
  "duplicate_key seen [] = None"
| "duplicate_key seen (k # ks) = (if k \<in> set seen then Some k else duplicate_key (k # seen) ks)"

definition configured_counts :: "ln_config \<Rightarrow> u32 list" where
  "configured_counts c =
     (case ln_count c of None \<Rightarrow> [] | Some n \<Rightarrow> [n]) @ map cnr_count (ln_rules c)"

definition ln_config_check :: "ln_config \<Rightarrow> string + unit" where
  "ln_config_check c =
     sum_bind (ln_derived_checks c) (\<lambda>_.
     sum_bind (count_policy_ensure_local (ln_policy c) ''limit-count'') (\<lambda>_.
     if ln_scope c = SCluster
     then Inl ''limit-count scope 'cluster' requires a distributed backend''
     else if ln_window_type c = Sliding \<and>
       list_ex (\<lambda>n. n \<ge> of_nat MAX_SLIDING_ENTRIES_PER_KEY) (configured_counts c)
     then Inl ''limit-count sliding window count must be below 4096 (bounded per-key history)''
     else if ln_group c \<noteq> None \<and> ln_rules c \<noteq> []
     then Inl ''limit-count group and rules cannot be configured together''
     else case duplicate_key [] (map cnr_key (ln_rules c)) of
            Some k \<Rightarrow> Inl (''limit-count rules contain duplicate key '' @ k)
          | None \<Rightarrow> Inr ()))"

section \<open>The sliding window\<close>

record sliding_window =
  sw_events :: "nat list"

definition secs :: "u32 \<Rightarrow> nat" where
  "secs w = unat w * 1000000000"

text \<open>The natural-number difference is \<open>checked_duration_since(..).unwrap_or_default()\<close>.\<close>

definition prune :: "nat \<Rightarrow> u32 \<Rightarrow> sliding_window \<Rightarrow> sliding_window" where
  "prune now time_window sw =
     sw\<lparr>sw_events := dropWhile (\<lambda>event. now - event \<ge> secs time_window) (sw_events sw)\<rparr>"

definition observe_window :: "nat \<Rightarrow> u32 \<Rightarrow> sliding_window \<Rightarrow> nat \<times> sliding_window" where
  "observe_window now time_window sw =
     (let sw = prune now time_window sw;
          events = (if length (sw_events sw) \<ge> MAX_SLIDING_ENTRIES_PER_KEY
                    then tl (sw_events sw) else sw_events sw);
          events = events @ [now]
      in (length events, sw\<lparr>sw_events := events\<rparr>))"

definition sliding_stale :: "sliding_window \<Rightarrow> nat \<Rightarrow> bool" where
  "sliding_stale sw now =
     (if sw_events sw = [] then True
      else now \<ge> last (sw_events sw) \<and> now - last (sw_events sw) \<ge> secs MAX_WINDOW_SECS)"

definition LIMIT_COUNT_OVERFLOW :: string where
  "LIMIT_COUNT_OVERFLOW = ''__pingsix_limit_count_overflow__''"

definition sw_step :: "nat \<times> u32 \<Rightarrow> sliding_window option \<Rightarrow> sliding_window \<times> int" where
  "sw_step x slot =
     (let (now, time_window) = x;
          (n, sw) = observe_window now time_window (unwrap_or slot \<lparr>sw_events = []\<rparr>)
      in (sw, int n))"

text \<open>\<open>sliding_window_for\<close> and the \<open>observe\<close> on the window it returns.\<close>

definition sliding_observe ::
  "(string \<Rightarrow> u64) \<Rightarrow> nat \<Rightarrow> u32 \<Rightarrow> string \<Rightarrow> sliding_window shard_map
   \<Rightarrow> int \<times> sliding_window shard_map" where
  "sliding_observe hash now time_window key m =
     with_shard hash key
       (slot_op LIMIT_COUNT_OVERFLOW (\<lambda>sw. sliding_stale sw now) Restore (sw_step (now, time_window)) key) m"

section \<open>Counters\<close>

text \<open>The counters of one plugin instance, or of one group (\<open>GroupState\<close>).\<close>

record 'r count_state =
  ct_fixed :: "(u32 \<times> 'r) list"
  ct_sliding :: "sliding_window shard_map"

definition count_state_new :: "'r count_state" where
  "count_state_new = \<lparr>ct_fixed = [], ct_sliding = shard_map_new\<rparr>"

fun or_insert_rate :: "(u32 \<Rightarrow> 'r) \<Rightarrow> u32 \<Rightarrow> (u32 \<times> 'r) list \<Rightarrow> (u32 \<times> 'r) list" where
  "or_insert_rate rate_new w rates =
     (case map_of rates w of None \<Rightarrow> AList.update w (rate_new w) rates | Some _ \<Rightarrow> rates)"

definition build_fixed_rates :: "(u32 \<Rightarrow> 'r) \<Rightarrow> ln_config \<Rightarrow> (u32 \<times> 'r) list" where
  "build_fixed_rates rate_new c =
     fold (or_insert_rate rate_new) (map cnr_time_window (ln_rules c))
       (case ln_time_window c of None \<Rightarrow> [] | Some w \<Rightarrow> or_insert_rate rate_new w [])"

definition group_observe ::
  "(u32 \<Rightarrow> 'r) \<Rightarrow> ('r \<Rightarrow> string \<Rightarrow> int \<times> 'r) \<Rightarrow> (string \<Rightarrow> u64) \<Rightarrow> nat \<Rightarrow> window_type \<Rightarrow> u32 \<Rightarrow> string \<Rightarrow>
   'r count_state \<Rightarrow> int \<times> 'r count_state" where
  "group_observe rate_new rate_observe hash now wt time_window key st =
     (case wt of
        Fixed \<Rightarrow>
          let rate = (case map_of (ct_fixed st) time_window of
                        Some rate \<Rightarrow> rate | None \<Rightarrow> rate_new time_window);
              (n, rate) = rate_observe rate key
          in (n, st\<lparr>ct_fixed := AList.update time_window rate (ct_fixed st)\<rparr>)
      | Sliding \<Rightarrow>
          let (n, m) = sliding_observe hash now time_window key (ct_sliding st)
          in (n, st\<lparr>ct_sliding := m\<rparr>))"

text \<open>The process-wide registry: a group name with the address of its state; \<open>alive\<close> tells
  whether a strong reference to an address remains (\<open>Weak::upgrade\<close>).\<close>

definition group_state ::
  "(nat \<Rightarrow> bool) \<Rightarrow> string \<Rightarrow> (string \<times> nat) list \<times> 'r count_state list
   \<Rightarrow> nat \<times> (string \<times> nat) list \<times> 'r count_state list" where
  "group_state alive gname rs =
     (let (registry, states) = rs;
          registry = (if length registry \<ge> 128 then filter (\<lambda>(_, a). alive a) registry else registry);
          found = (case map_of registry gname of Some a \<Rightarrow> if alive a then Some a else None | None \<Rightarrow> None)
      in case found of
           Some a \<Rightarrow> (a, registry, states)
         | None \<Rightarrow> (length states, AList.update gname (length states) registry,
                    states @ [count_state_new]))"

section \<open>The hook\<close>

record count_selection =
  sel_count :: u32
  sel_time_window :: u32
  sel_header_prefix :: string
  sel_from_rule :: bool

record limit_outcome =
  lo_limited :: bool
  lo_current_count :: int
  lo_remaining :: int

record rate_limit_quota =
  rq_limit :: u32
  rq_remaining :: int
  rq_reset :: u32
  rq_current_count :: int
  rq_header_prefix :: string

definition group_name :: "ln_config \<Rightarrow> string option" where
  "group_name c = (case ln_group c of Some g \<Rightarrow> if g = [] then None else Some g | None \<Rightarrow> None)"

definition storage_key :: "ln_config \<Rightarrow> bool \<Rightarrow> string \<Rightarrow> string" where
  "storage_key c has_group_state key =
     (if has_group_state then key
      else case group_name c of Some gname \<Rightarrow> gname @ ''|'' @ key | None \<Rightarrow> key)"

text \<open>\<open>None\<close> is the panic of the \<open>expect\<close> on an unregistered window.\<close>

definition check_rate_limit ::
  "(u32 \<Rightarrow> 'r) \<Rightarrow> ('r \<Rightarrow> string \<Rightarrow> int \<times> 'r) \<Rightarrow> (string \<Rightarrow> u64) \<Rightarrow> ln_config \<Rightarrow> bool \<Rightarrow> nat \<Rightarrow>
   count_selection \<Rightarrow> string \<Rightarrow> 'r count_state \<Rightarrow> (limit_outcome \<times> 'r count_state) option" where
  "check_rate_limit rate_new rate_observe hash c has_group_state now sel key st =
     (let namespaced = storage_key c has_group_state key;
          observed =
            (if has_group_state
             then Some (group_observe rate_new rate_observe hash now (ln_window_type c)
                    (sel_time_window sel) namespaced st)
             else case ln_window_type c of
                    Fixed \<Rightarrow>
                      (case map_of (ct_fixed st) (sel_time_window sel) of
                         None \<Rightarrow> None
                       | Some rate \<Rightarrow>
                           let (n, rate) = rate_observe rate namespaced
                           in Some (n, st\<lparr>ct_fixed := AList.update (sel_time_window sel) rate
                                              (ct_fixed st)\<rparr>))
                  | Sliding \<Rightarrow>
                      let (n, m) = sliding_observe hash now (sel_time_window sel) namespaced
                                     (ct_sliding st)
                      in Some (n, st\<lparr>ct_sliding := m\<rparr>))
      in case observed of
           None \<Rightarrow> None
         | Some (current_count, st) \<Rightarrow>
             let remaining = uint (sel_count sel) - current_count
             in Some (\<lparr>lo_limited = current_count > uint (sel_count sel),
                       lo_current_count = current_count,
                       lo_remaining = max remaining 0\<rparr>, st))"

definition main_selection :: "ln_config \<Rightarrow> count_selection option" where
  "main_selection c =
     (case (ln_count c, ln_time_window c) of
        (Some n, Some w) \<Rightarrow> Some \<lparr>sel_count = n, sel_time_window = w,
          sel_header_prefix = unwrap_or (ln_header_prefix c) [], sel_from_rule = False\<rparr>
      | _ \<Rightarrow> None)"

text \<open>What the hook reads of the session: the template renderer, \<open>apisix_key\<close>, and
  \<open>request_selector_key\<close> for a header and for a cookie.\<close>

record session_view =
  sv_render :: "string \<Rightarrow> string"
  sv_apisix_key :: "string \<Rightarrow> bool \<Rightarrow> string"
  sv_head_key :: "string \<Rightarrow> string"
  sv_cookie_key :: "string \<Rightarrow> string"

definition resolve_main_key :: "session_view \<Rightarrow> ln_config \<Rightarrow> string" where
  "resolve_main_key s c =
     (case ln_key_type c of
        KVar \<Rightarrow> sv_apisix_key s (ln_key c) False
      | KVarCombination \<Rightarrow> sv_apisix_key s (ln_key c) True
      | KConstant \<Rightarrow> ln_key c
      | KHead \<Rightarrow> sv_head_key s (ln_key c)
      | KCookie \<Rightarrow> sv_cookie_key s (ln_key c))"

definition count_select_limits ::
  "session_view \<Rightarrow> ln_config \<Rightarrow> (string \<times> count_selection) list option" where
  "count_select_limits s c =
     (if ln_rules c \<noteq> []
      then select_rules (sv_render s) (ln_rules c) cnr_key
             (\<lambda>index rule key. (key, \<lparr>sel_count = cnr_count rule,
                sel_time_window = cnr_time_window rule,
                sel_header_prefix = unwrap_or (cnr_header_prefix rule) (nat_to_string (index + 1)),
                sel_from_rule = True\<rparr>))
      else case main_selection c of
             None \<Rightarrow> None
           | Some selection \<Rightarrow> Some [(resolve_main_key s c, selection)])"

datatype header_path = Success | Rejection

definition rate_limit_header_name :: "string \<Rightarrow> string \<Rightarrow> string" where
  "rate_limit_header_name prefix base =
     (if prefix = [] then base
      else replace_first ''RateLimit-'' (prefix @ ''-RateLimit-'') base)"

definition build_rate_limit_headers ::
  "u32 \<Rightarrow> int \<Rightarrow> u32 \<Rightarrow> int \<Rightarrow> bool \<Rightarrow> string \<Rightarrow> header_path \<Rightarrow> (string \<times> string) list" where
  "build_rate_limit_headers n remaining time_window current_count show prefix path =
     (if \<not> show then []
      else
        [(rate_limit_header_name prefix ''X-RateLimit-Limit'', nat_to_string (unat n)),
         (rate_limit_header_name prefix ''X-RateLimit-Remaining'', int_to_string remaining),
         (rate_limit_header_name prefix ''X-RateLimit-Reset'', nat_to_string (unat time_window)),
         (''X-RateLimit-Scope'', ''local'')] @
        (if path = Rejection
         then [(rate_limit_header_name prefix ''X-RateLimit-Used'', int_to_string current_count),
               (''Retry-After'', nat_to_string (unat time_window))]
         else []))"

definition handle_rate_limit ::
  "(u16 \<Rightarrow> status_code option) \<Rightarrow> ln_config \<Rightarrow> count_selection \<Rightarrow> int \<Rightarrow> filter_verdict" where
  "handle_rate_limit from_u16 c sel current_count =
     (let headers = build_rate_limit_headers (sel_count sel)
            (max (uint (sel_count sel) - current_count) 0) (sel_time_window sel) current_count
            (ln_show_header c) (sel_header_prefix sel) Rejection
      in Reject (with_close_connection (limiter_rejection
           (reject_policy_status from_u16 \<lparr>rp_code = ln_rejected_code c, rp_msg = ln_rejected_msg c\<rparr>)
           (ln_rejected_msg c) headers)))"

definition quota_of :: "count_selection \<Rightarrow> limit_outcome \<Rightarrow> rate_limit_quota" where
  "quota_of sel outcome = \<lparr>rq_limit = sel_count sel, rq_remaining = lo_remaining outcome,
     rq_reset = sel_time_window sel, rq_current_count = lo_current_count outcome,
     rq_header_prefix = sel_header_prefix sel\<rparr>"

text \<open>A hook's result: the verdict, the quotas it stores in the request context (if any) and the
  counters it leaves. \<open>chk\<close> is \<open>check_rate_limit\<close> with the instance's parameters applied.\<close>

type_synonym 'st chk = "count_selection \<Rightarrow> string \<Rightarrow> 'st \<Rightarrow> (limit_outcome \<times> 'st) option"

definition handle_missing_key ::
  "(u16 \<Rightarrow> status_code option) \<Rightarrow> 'st chk \<Rightarrow> ln_config \<Rightarrow> 'st \<Rightarrow>
   (filter_verdict \<times> rate_limit_quota list option \<times> 'st) option" where
  "handle_missing_key from_u16 chk c st =
     (case ln_key_missing_policy c of
        KAllow \<Rightarrow> Some (Continue, None, st)
      | KDeny \<Rightarrow> Some (Reject (limiter_rejection 400
          (Some ''Missing required key for rate limiting'') []), None, st)
      | KDefault \<Rightarrow>
          (case main_selection c of
             None \<Rightarrow> Some (Continue, None, st)
           | Some sel \<Rightarrow>
               (case chk sel ''_default_rate_limit_key'' st of
                  None \<Rightarrow> None
                | Some (outcome, st) \<Rightarrow>
                    if lo_limited outcome
                    then Some (handle_rate_limit from_u16 c sel (lo_current_count outcome), None, st)
                    else Some (Continue,
                      if ln_show_header c then Some [quota_of sel outcome] else None, st))))"

fun enforce_limits ::
  "(u16 \<Rightarrow> status_code option) \<Rightarrow> 'st chk \<Rightarrow> ln_config \<Rightarrow> rate_limit_quota list \<Rightarrow>
   (string \<times> count_selection) list \<Rightarrow> 'st \<Rightarrow>
   (filter_verdict \<times> rate_limit_quota list option \<times> 'st) option" where
  "enforce_limits from_u16 chk c quotas [] st =
     Some (Continue, if ln_show_header c then Some quotas else None, st)"
| "enforce_limits from_u16 chk c quotas ((key, sel) # limits) st =
     (if key = [] \<and> \<not> sel_from_rule sel then handle_missing_key from_u16 chk c st
      else case chk sel key st of
             None \<Rightarrow> None
           | Some (outcome, st) \<Rightarrow>
               if lo_limited outcome
               then Some (handle_rate_limit from_u16 c sel (lo_current_count outcome), None, st)
               else enforce_limits from_u16 chk c
                      (if ln_show_header c then quotas @ [quota_of sel outcome] else quotas) limits st)"

definition count_request_filter ::
  "(u16 \<Rightarrow> status_code option) \<Rightarrow> (u32 \<Rightarrow> 'r) \<Rightarrow> ('r \<Rightarrow> string \<Rightarrow> int \<times> 'r) \<Rightarrow> (string \<Rightarrow> u64) \<Rightarrow>
   session_view \<Rightarrow> ln_config \<Rightarrow> bool \<Rightarrow> nat \<Rightarrow> 'r count_state \<Rightarrow>
   (filter_verdict \<times> rate_limit_quota list option \<times> 'r count_state) option" where
  "count_request_filter from_u16 rate_new rate_observe hash s c has_group_state now st =
     (case count_select_limits s c of
        None \<Rightarrow>
          if ln_allow_degradation c then Some (Continue, None, st)
          else Some (Reject (limiter_rejection 500 (Some ''failed to get rate limit rules'') []), None, st)
      | Some limits \<Rightarrow>
          enforce_limits from_u16
            (check_rate_limit rate_new rate_observe hash c has_group_state now) c [] limits st)"

definition count_response_headers ::
  "ln_config \<Rightarrow> rate_limit_quota list option \<Rightarrow> (string \<times> string) list" where
  "count_response_headers c quotas =
     (if ln_show_header c
      then case quotas of
             None \<Rightarrow> []
           | Some qs \<Rightarrow> concat (map (\<lambda>q. build_rate_limit_headers (rq_limit q) (rq_remaining q)
               (rq_reset q) (rq_current_count q) True (rq_header_prefix q) Success) qs)
      else [])"

section \<open>The window holds exactly the recent requests\<close>

text \<open>The newest \<open>n\<close> elements of a history.\<close>

definition newest :: "nat \<Rightarrow> 'a list \<Rightarrow> 'a list" where
  "newest n xs = drop (length xs - n) xs"

lemma length_newest: "length (newest n xs) = min n (length xs)"
  by (simp add: newest_def)

lemma newest_snoc: "newest (Suc n) (xs @ [x]) = newest n xs @ [x]"
  by (simp add: newest_def)

lemma tl_newest: "length xs \<ge> Suc n \<Longrightarrow> tl (newest (Suc n) xs) = newest n xs"
  by (simp add: newest_def drop_Suc [symmetric] Suc_diff_le tl_drop [symmetric])
    (metis Suc_diff_le diff_Suc_Suc drop_Suc tl_drop)

lemma dropWhile_filter_sorted:
  assumes "sorted xs" and "\<And>x y. x \<le> y \<Longrightarrow> P y \<Longrightarrow> P x"
  shows "dropWhile P xs = filter (\<lambda>x. \<not> P x) xs"
  using assms(1)
proof (induction xs)
  case (Cons x xs)
  have "\<not> P x \<Longrightarrow> \<forall>y \<in> set xs. \<not> P y"
    using Cons.prems assms(2) by auto
  then show ?case using Cons by (simp add: filter_id_conv)
qed simp

lemma filter_sorted_suffix:
  assumes "sorted xs" and "\<And>x y. x \<le> y \<Longrightarrow> P y \<Longrightarrow> P x"
  shows "filter (\<lambda>x. \<not> P x) xs = drop (length (takeWhile P xs)) xs"
  using dropWhile_filter_sorted [OF assms] by (simp add: dropWhile_eq_drop)

lemma filter_newest:
  assumes "sorted xs" and "\<And>x y. x \<le> y \<Longrightarrow> P y \<Longrightarrow> P x"
  shows "filter (\<lambda>x. \<not> P x) (newest n xs) = newest n (filter (\<lambda>x. \<not> P x) xs)"
proof -
  let ?d = "length xs - n"
  have "filter (\<lambda>x. \<not> P x) xs = filter (\<lambda>x. \<not> P x) (take ?d xs) @ filter (\<lambda>x. \<not> P x) (drop ?d xs)"
    by (metis append_take_drop_id filter_append)
  moreover have "filter (\<lambda>x. \<not> P x) (take ?d xs) = [] \<or> filter (\<lambda>x. \<not> P x) (drop ?d xs) = drop ?d xs"
  proof (cases "filter (\<lambda>x. \<not> P x) (take ?d xs) = []")
    case False
    then obtain x where x: "x \<in> set (take ?d xs)" "\<not> P x" by (auto simp: filter_empty_conv)
    have "sorted (take ?d xs @ drop ?d xs)" using assms(1) by simp
    then have "\<forall>y \<in> set (drop ?d xs). x \<le> y"
      using x(1) by (simp only: sorted_append) blast
    then show ?thesis using x(2) assms(2) by (auto simp: filter_id_conv)
  qed simp
  moreover have n: "length (filter (\<lambda>x. \<not> P x) (drop ?d xs)) \<le> n"
    by (rule le_trans [OF length_filter_le]) simp
  ultimately show ?thesis
  proof (cases "filter (\<lambda>x. \<not> P x) (take ?d xs) = []")
    case True
    then show ?thesis
      using n \<open>filter (\<lambda>x. \<not> P x) xs = _\<close> by (simp add: newest_def)
  next
    case False
    then have "take ?d xs \<noteq> []" by auto
    then have "length (drop ?d xs) = n" by auto
    then show ?thesis
      using False \<open>filter (\<lambda>x. \<not> P x) xs = _\<close> \<open>_ \<or> filter (\<lambda>x. \<not> P x) (drop ?d xs) = drop ?d xs\<close>
      by (simp add: newest_def)
  qed
qed

text \<open>A history of requests on one window, in arrival order.\<close>

definition window_run :: "u32 \<Rightarrow> nat list \<Rightarrow> sliding_window" where
  "window_run w ts = fold (\<lambda>t sw. snd (observe_window t w sw)) ts \<lparr>sw_events = []\<rparr>"

definition recent :: "u32 \<Rightarrow> nat \<Rightarrow> nat list \<Rightarrow> nat list" where
  "recent w now ts = filter (\<lambda>t. now - t < secs w) ts"

lemma recent_recent:
  "u \<le> now \<Longrightarrow> recent w now (recent w u ts) = recent w now ts"
  by (auto simp: recent_def intro!: filter_cong)

lemma observe_events:
  assumes "sorted ts" and "sw_events sw = newest MAX_SLIDING_ENTRIES_PER_KEY ts"
    and "0 < secs w"
  shows "sw_events (snd (observe_window now w sw)) =
    newest MAX_SLIDING_ENTRIES_PER_KEY (recent w now ts @ [now])"
proof -
  let ?P = "\<lambda>t. secs w \<le> now - t"
  have mono: "x \<le> y \<Longrightarrow> ?P y \<Longrightarrow> ?P x" for x y :: nat by simp
  have s: "sorted (newest MAX_SLIDING_ENTRIES_PER_KEY ts)"
    using assms(1) by (simp add: newest_def sorted_wrt_drop)
  have p: "sw_events (prune now w sw) = newest 4096 (recent w now ts)"
    using dropWhile_filter_sorted [OF s mono] filter_newest [OF assms(1) mono,
        where n = MAX_SLIDING_ENTRIES_PER_KEY]
    by (simp add: prune_def assms(2) recent_def MAX_SLIDING_ENTRIES_PER_KEY_def not_le)
  have e: "newest 4096 (recent w now ts @ [now]) = newest 4095 (recent w now ts) @ [now]"
    using newest_snoc [of 4095] by simp
  show ?thesis
  proof (cases "4096 \<le> length (recent w now ts)")
    case True
    then show ?thesis
      using p e tl_newest [of 4095 "recent w now ts"]
      by (simp add: observe_window_def Let_def MAX_SLIDING_ENTRIES_PER_KEY_def length_newest)
  next
    case False
    then show ?thesis
      using p e by (simp add: observe_window_def Let_def MAX_SLIDING_ENTRIES_PER_KEY_def newest_def)
  qed
qed

lemma window_run_events:
  assumes "sorted ts" and "0 < secs w" and "ts \<noteq> []"
  shows "sw_events (window_run w ts) = newest MAX_SLIDING_ENTRIES_PER_KEY (recent w (last ts) ts)"
  using assms(1,3)
proof (induction ts rule: rev_induct)
  case (snoc t ts)
  have st: "sorted ts" and le: "\<forall>u \<in> set ts. u \<le> t"
    using snoc.prems by (auto simp: sorted_append)
  have ev: "sw_events (window_run w ts) = newest MAX_SLIDING_ENTRIES_PER_KEY (recent w (last ts) ts)"
    using snoc.IH st by (cases "ts = []") (simp_all add: window_run_def recent_def newest_def)
  have "sorted (recent w (last ts) ts)"
    using st by (simp add: recent_def sorted_filter [where f = id, simplified])
  from observe_events [OF this ev assms(2), of t]
  have "sw_events (window_run w (ts @ [t])) =
      newest MAX_SLIDING_ENTRIES_PER_KEY (recent w t (recent w (last ts) ts) @ [t])"
    by (simp add: window_run_def)
  moreover have "recent w t (recent w (last ts) ts) = recent w t ts"
  proof (cases "ts = []")
    case False
    then show ?thesis using le by (intro recent_recent) simp
  qed (simp add: recent_def)
  moreover have "recent w t (ts @ [t]) = recent w t ts @ [t]"
    using assms(2) by (simp add: recent_def)
  ultimately show ?case by simp
qed simp

interpretation lcount: shard_client LIMIT_COUNT_OVERFLOW
  "\<lambda>x sw. sliding_stale sw (fst x)" Restore sw_step
  "\<lambda>sw. length (sw_events sw) \<le> MAX_SLIDING_ENTRIES_PER_KEY"
proof unfold_locales
  fix old :: "sliding_window option" and x :: "nat \<times> u32"
  assume "is_none_or old (\<lambda>sw. length (sw_events sw) \<le> MAX_SLIDING_ENTRIES_PER_KEY)"
  then have "length (sw_events (unwrap_or old \<lparr>sw_events = []\<rparr>)) \<le> MAX_SLIDING_ENTRIES_PER_KEY"
    by (cases old) simp_all
  then have p: "length (sw_events (prune (fst x) (snd x) (unwrap_or old \<lparr>sw_events = []\<rparr>)))
      \<le> MAX_SLIDING_ENTRIES_PER_KEY"
    using length_dropWhile_le [of _ "sw_events (unwrap_or old \<lparr>sw_events = []\<rparr>)"]
    by (auto simp: prune_def intro: le_trans)
  show "length (sw_events (fst (sw_step x old))) \<le> MAX_SLIDING_ENTRIES_PER_KEY"
    using p by (simp add: sw_step_def observe_window_def Let_def split_beta
        MAX_SLIDING_ENTRIES_PER_KEY_def)
qed

section \<open>Registered windows\<close>

lemma or_insert_rate_keys:
  "keys (or_insert_rate rate_new w rates) = insert w (keys rates)"
  by (auto simp: keys_update split: option.split) (metis map_of_None_keys option.distinct(1))+

lemma fold_or_insert_keys:
  "keys (fold (or_insert_rate rate_new) ws rates) = keys rates \<union> set ws"
  by (induction ws arbitrary: rates) (auto simp: or_insert_rate_keys simp del: or_insert_rate.simps)

lemma build_fixed_rates_keys:
  "keys (build_fixed_rates rate_new c) =
    set (map cnr_time_window (ln_rules c)) \<union> (case ln_time_window c of None \<Rightarrow> {} | Some w \<Rightarrow> {w})"
  by (auto simp: build_fixed_rates_def fold_or_insert_keys or_insert_rate_keys
      simp del: or_insert_rate.simps split: option.split)

lemma select_rules_from_windows:
  assumes "(k, sel) \<in> set (select_rules_from render cnr_key (\<lambda>index rule key. (key,
      \<lparr>sel_count = cnr_count rule, sel_time_window = cnr_time_window rule,
       sel_header_prefix = f index rule, sel_from_rule = True\<rparr>)) i rules)"
  shows "sel_time_window sel \<in> cnr_time_window ` set rules"
  using assms by (induction rules arbitrary: i) (auto split: option.splits)

lemma selected_window_registered:
  assumes "count_select_limits s c = Some limits" and "(key, sel) \<in> set limits"
  shows "sel_time_window sel \<in> keys (build_fixed_rates rate_new c)"
  using assms select_rules_from_windows [of key sel]
  unfolding build_fixed_rates_keys
  by (fastforce simp: count_select_limits_def select_rules_def Let_def main_selection_def
      split: if_splits option.splits)

lemma main_window_registered:
  "main_selection c = Some sel \<Longrightarrow> sel_time_window sel \<in> keys (build_fixed_rates rate_new c)"
  by (auto simp: main_selection_def build_fixed_rates_keys split: option.splits)

text \<open>Once registered, a window stays registered, and the check does not panic.\<close>

lemma check_rate_limit_total:
  assumes "sel_time_window sel \<in> keys (ct_fixed st)"
  shows "\<exists>outcome st'. check_rate_limit rate_new rate_observe hash c g now sel key st =
    Some (outcome, st') \<and> keys (ct_fixed st) \<subseteq> keys (ct_fixed st')"
proof -
  obtain r where r: "map_of (ct_fixed st) (sel_time_window sel) = Some r"
    using assms by (metis map_of_None_keys not_None_eq)
  show ?thesis
    using r by (cases g; cases "ln_window_type c")
      (simp_all add: check_rate_limit_def group_observe_def keys_update Let_def
        split_beta subset_insertI)
qed

lemma validate_count_rules_all:
  "validate_count_rules rules = Inr () \<Longrightarrow> r \<in> set rules \<Longrightarrow> count_rule_validate r = Inr ()"
  by (induction rules) (auto split: sum.splits)

lemma ln_config_check_derived:
  assumes "ln_config_check c = Inr ()"
  shows "ln_derived_checks c = Inr ()"
    and "ln_window_type c = Sliding \<Longrightarrow> n \<in> set (configured_counts c) \<Longrightarrow> unat n < 4096"
  using assms
  by (auto simp: ln_config_check_def list_ex_iff MAX_SLIDING_ENTRIES_PER_KEY_def word_le_nat_alt
      not_le split: if_splits)

lemma ln_derived_windows:
  assumes "ln_derived_checks c = Inr ()"
  shows "ln_time_window c = Some w \<Longrightarrow> 1 \<le> w"
    and "r \<in> set (ln_rules c) \<Longrightarrow> 1 \<le> cnr_time_window r"
proof -
  show "ln_time_window c = Some w \<Longrightarrow> 1 \<le> w"
    using assms by (auto simp: ln_derived_checks_def validate_optional_time_window_def split: if_splits)
  assume "r \<in> set (ln_rules c)"
  then have "count_rule_validate r = Inr ()"
    using assms validate_count_rules_all by (auto simp: ln_derived_checks_def)
  then show "1 \<le> cnr_time_window r"
    by (auto simp: count_rule_validate_def validate_optional_time_window_def split: if_splits)
qed

lemma select_rules_from_counts:
  assumes "(k, sel) \<in> set (select_rules_from render cnr_key (\<lambda>index rule key. (key,
      \<lparr>sel_count = cnr_count rule, sel_time_window = cnr_time_window rule,
       sel_header_prefix = f index rule, sel_from_rule = True\<rparr>)) i rules)"
  shows "\<exists>r \<in> set rules. sel_count sel = cnr_count r \<and> sel_time_window sel = cnr_time_window r"
  using assms by (induction rules arbitrary: i) (auto split: option.splits)

lemma selected_valid:
  assumes "ln_config_check c = Inr ()" and "count_select_limits s c = Some limits"
    and "(key, sel) \<in> set limits"
  shows "sel_count sel \<in> set (configured_counts c) \<and> 0 < secs (sel_time_window sel)"
proof -
  note d = ln_derived_windows [OF ln_config_check_derived(1) [OF assms(1)]]
  have pos: "1 \<le> w \<Longrightarrow> 0 < secs w" for w
    by (simp add: secs_def word_le_nat_alt)
  show ?thesis
  proof (cases "ln_rules c = []")
    case True
    then have "main_selection c = Some sel"
      using assms(2,3) by (auto simp: count_select_limits_def split: option.splits)
    then show ?thesis
      using d(1) pos True by (auto simp: main_selection_def configured_counts_def split: option.splits)
  next
    case False
    then obtain r where "r \<in> set (ln_rules c)" "sel_count sel = cnr_count r"
      "sel_time_window sel = cnr_time_window r"
      using assms(2,3) select_rules_from_counts [of key sel]
      by (fastforce simp: count_select_limits_def select_rules_def Let_def split: if_splits)
    then show ?thesis using d(2) pos by (auto simp: configured_counts_def)
  qed
qed

section \<open>Properties\<close>

text \<open>Requests are given by what the hook reads of their session and their instant; \<open>count_run\<close> passes them
  through the hook, one after the other.\<close>

fun count_run :: "(u16 \<Rightarrow> status_code option) \<Rightarrow> (u32 \<Rightarrow> 'r) \<Rightarrow> ('r \<Rightarrow> string \<Rightarrow> int \<times> 'r) \<Rightarrow> (string \<Rightarrow> u64) \<Rightarrow>
    ln_config \<Rightarrow> bool \<Rightarrow> (session_view \<times> nat) list \<Rightarrow> 'r count_state \<Rightarrow> 'r count_state option" where
  "count_run from_u16 rate_new rate_observe hash c g [] st = Some st"
| "count_run from_u16 rate_new rate_observe hash c g ((s, now) # reqs) st =
     (case count_request_filter from_u16 rate_new rate_observe hash s c g now st of
        None \<Rightarrow> None
      | Some (_, _, st) \<Rightarrow> count_run from_u16 rate_new rate_observe hash c g reqs st)"

text \<open>The key a request is counted under, if it is.\<close>

definition charged_key :: "ln_config \<Rightarrow> session_view \<Rightarrow> string option" where
  "charged_key c s =
     (if resolve_main_key s c \<noteq> [] then Some (resolve_main_key s c)
      else if ln_key_missing_policy c = KDefault then Some ''_default_rate_limit_key'' else None)"

definition charged_keys :: "ln_config \<Rightarrow> (session_view \<times> nat) list \<Rightarrow> string set" where
  "charged_keys c reqs = {k. Some k \<in> (\<lambda>r. charged_key c (fst r)) ` set reqs}"

definition arrivals :: "ln_config \<Rightarrow> string option \<Rightarrow> (session_view \<times> nat) list \<Rightarrow> nat list" where
  "arrivals c k reqs = map snd (filter (\<lambda>r. charged_key c (fst r) = k) reqs)"

text \<open>The requests of the same key less than \<open>w\<close> seconds before \<open>t\<close>.\<close>

definition recent_of :: "ln_config \<Rightarrow> u32 \<Rightarrow> session_view \<Rightarrow> nat \<Rightarrow> (session_view \<times> nat) list \<Rightarrow> nat" where
  "recent_of c w s t reqs = length (filter (\<lambda>(s', t'). charged_key c s' = charged_key c s \<and> t - t' < secs w) reqs)"

lemma recent_of_arrivals: "recent_of c w s t reqs = length (recent w t (arrivals c (charged_key c s) reqs))"
  by (induction reqs) (auto simp: recent_of_def recent_def arrivals_def)

lemma window_run_length:
  assumes "sorted (ts @ [t])" and "0 < secs w"
  shows "fst (observe_window t w (window_run w ts)) = min MAX_SLIDING_ENTRIES_PER_KEY (Suc (length (recent w t ts)))"
proof -
  have "window_run w (ts @ [t]) = snd (observe_window t w (window_run w ts))"
    by (simp add: window_run_def)
  then have "sw_events (snd (observe_window t w (window_run w ts))) =
      newest MAX_SLIDING_ENTRIES_PER_KEY (recent w t (ts @ [t]))"
    using window_run_events [OF assms] by simp
  moreover have "fst (observe_window t w sw) = length (sw_events (snd (observe_window t w sw)))" for sw
    by (simp add: observe_window_def Let_def)
  moreover have "length (recent w t (ts @ [t])) = Suc (length (recent w t ts))"
    using assms(2) by (simp add: recent_def)
  ultimately show ?thesis by (simp add: length_newest)
qed

text \<open>A configuration with one sliding limit, and the store of an instance that counted \<open>reqs\<close>: every key
  has the window of its own requests.\<close>

definition sliding_limit :: "ln_config \<Rightarrow> u32 \<Rightarrow> u32 \<Rightarrow> bool" where
  "sliding_limit c n w \<longleftrightarrow> ln_config_check c = Inr () \<and> ln_window_type c = Sliding \<and> ln_rules c = [] \<and>
     ln_count c = Some n \<and> ln_time_window c = Some w"

definition counted :: "(string \<Rightarrow> u64) \<Rightarrow> ln_config \<Rightarrow> bool \<Rightarrow> u32 \<Rightarrow> (session_view \<times> nat) list \<Rightarrow> sliding_window shard_map \<Rightarrow> bool" where
  "counted hash c g w reqs m \<longleftrightarrow>
     (\<forall>i. distinct_keys (entries (m i)) \<and> keys (entries (m i)) \<subseteq> storage_key c g ` charged_keys c reqs) \<and>
     (\<forall>k. shard_get (m (shard_idx hash (storage_key c g k))) (storage_key c g k) =
        (if k \<in> charged_keys c reqs then Some (window_run w (arrivals c (Some k) reqs)) else None))"

lemma storage_key_inj: "storage_key c g k = storage_key c g k' \<longleftrightarrow> k = k'"
  by (simp add: storage_key_def split: option.split)

lemma charged_keys_snoc: "charged_keys c (reqs @ [(s, t)]) =
    (case charged_key c s of Some k \<Rightarrow> insert k (charged_keys c reqs) | None \<Rightarrow> charged_keys c reqs)"
  by (auto simp: charged_keys_def split: option.splits)

lemma finite_charged_keys: "finite (charged_keys c reqs)"
proof -
  have "charged_keys c reqs \<subseteq> (\<lambda>r. the (charged_key c (fst r))) ` set reqs"
    unfolding charged_keys_def by (auto simp: image_iff) (metis fst_conv option.sel)
  then show ?thesis by (rule finite_subset) simp
qed

lemma arrivals_snoc: "arrivals c k (reqs @ [(s, t)]) = arrivals c k reqs @ (if charged_key c s = k then [t] else [])"
  by (simp add: arrivals_def)

lemma no_arrivals: "k \<notin> charged_keys c reqs \<Longrightarrow> arrivals c (Some k) reqs = []"
  by (force simp: arrivals_def charged_keys_def filter_empty_conv)

lemma sliding_observe_exact:
  assumes m: "counted hash c g w reqs m" and k: "charged_key c s = Some k"
    and few: "card (charged_keys c (reqs @ [(s, t)])) \<le> PER_SHARD_REGULAR_MAX"
  shows "\<exists>m'. sliding_observe hash t w (storage_key c g k) m =
      (int (fst (observe_window t w (window_run w (arrivals c (Some k) reqs)))), m') \<and> counted hash c g w (reqs @ [(s, t)]) m'"
proof -
  let ?k = "storage_key c g k" and ?K = "charged_keys c (reqs @ [(s, t)])" and ?i = "shard_idx hash (storage_key c g k)"
  let ?sw = "window_run w (arrivals c (Some k) reqs)"
  have K: "?K = insert k (charged_keys c reqs)" using k by (simp add: charged_keys_snoc)
  have inv: "distinct_keys (entries (m i))" "keys (entries (m i)) \<subseteq> storage_key c g ` charged_keys c reqs" for i
    using m by (auto simp: counted_def)
  have get: "shard_get (m (shard_idx hash (storage_key c g j))) (storage_key c g j) =
      (if j \<in> charged_keys c reqs then Some (window_run w (arrivals c (Some j) reqs)) else None)" for j
    using m unfolding counted_def by blast
  have "card (storage_key c g ` ?K) \<le> PER_SHARD_REGULAR_MAX"
    using card_image_le [OF finite_charged_keys] few by (rule le_trans)
  then have slot: "slot_op ov ev miss step ?k (m ?i) = (snd (step (shard_get (m ?i) ?k)),
      shard_insert ?k (fst (step (shard_get (m ?i) ?k))) (shard_touch ?k (m ?i)))" for ov ev miss and step :: "sliding_window option \<Rightarrow> sliding_window \<times> int"
    using inv [of ?i] finite_charged_keys [of c "reqs @ [(s, t)]"] unfolding K
    by (intro slot_op_private [where S = "storage_key c g ` insert k (charged_keys c reqs)"]) auto
  have "unwrap_or (shard_get (m ?i) ?k) \<lparr>sw_events = []\<rparr> = ?sw"
    using no_arrivals [of k c reqs] by (simp add: get window_run_def)
  then have step: "sw_step (t, w) (shard_get (m ?i) ?k) = (window_run w (arrivals c (Some k) (reqs @ [(s, t)])),
      int (fst (observe_window t w ?sw)))"
    by (simp add: sw_step_def arrivals_snoc k window_run_def split: prod.split)
  let ?m' = "m(?i := shard_insert ?k (window_run w (arrivals c (Some k) (reqs @ [(s, t)]))) (shard_touch ?k (m ?i)))"
  have run: "sliding_observe hash t w ?k m = (int (fst (observe_window t w ?sw)), ?m')"
    by (simp add: sliding_observe_def with_shard_def slot step Let_def)
  have "counted hash c g w (reqs @ [(s, t)]) ?m'"
    unfolding counted_def K
  proof (intro conjI allI)
    fix i
    show "distinct_keys (entries (?m' i))"
      using inv(1) [of i] inv(1) [of ?i] by (auto simp: shard_insert_def shard_touch_def intro!: distinct_update)
    show "keys (entries (?m' i)) \<subseteq> storage_key c g ` insert k (charged_keys c reqs)"
      using inv(2) by (auto simp: shard_insert_def shard_touch_def keys_update)
    fix j
    show "shard_get (?m' (shard_idx hash (storage_key c g j))) (storage_key c g j) =
        (if j \<in> insert k (charged_keys c reqs) then Some (window_run w (arrivals c (Some j) (reqs @ [(s, t)]))) else None)"
      using get [of j] by (cases "j = k") (auto simp: storage_key_inj arrivals_snoc k)
  qed
  then show ?thesis using run by blast
qed

lemma check_sliding:
  assumes "ln_window_type c = Sliding" and "sliding_observe hash t (sel_time_window sel) (storage_key c g key) (ct_sliding st) = (n, m')"
  shows "check_rate_limit rate_new rate_observe hash c g t sel key st =
    Some (\<lparr>lo_limited = n > uint (sel_count sel), lo_current_count = n, lo_remaining = max (uint (sel_count sel) - n) 0\<rparr>,
      st\<lparr>ct_sliding := m'\<rparr>)"
  using assms by (cases g) (simp_all add: check_rate_limit_def group_observe_def Let_def)

abbreviation the_selection :: "ln_config \<Rightarrow> u32 \<Rightarrow> u32 \<Rightarrow> count_selection" where
  "the_selection c n w \<equiv> \<lparr>sel_count = n, sel_time_window = w, sel_header_prefix = unwrap_or (ln_header_prefix c) [],
     sel_from_rule = False\<rparr>"

lemma sliding_limitD:
  assumes "sliding_limit c n w"
  shows "main_selection c = Some (the_selection c n w)" and "0 < secs w" and "unat n < 4096" and "0 < unat n"
proof -
  show main: "main_selection c = Some (the_selection c n w)" using assms by (simp add: sliding_limit_def main_selection_def)
  have c: "ln_config_check c = Inr ()" "ln_window_type c = Sliding" "ln_rules c = []" "ln_count c = Some n" "ln_time_window c = Some w"
    using assms by (auto simp: sliding_limit_def)
  note d = ln_config_check_derived [OF c(1)]
  show "0 < secs w" using ln_derived_windows(1) [OF d(1) c(5)] by (simp add: secs_def word_le_nat_alt)
  show "unat n < 4096" by (rule d(2) [OF c(2)]) (simp add: configured_counts_def c(4))
  show "0 < unat n" using d(1) c(4)
    by (auto simp: ln_derived_checks_def validate_optional_count_def word_less_nat_alt split: if_splits)
qed

text \<open>What the hook answers when \<open>r\<close> requests of the key are in the window, by the configuration alone.\<close>

definition sliding_answer :: "(u16 \<Rightarrow> status_code option) \<Rightarrow> ln_config \<Rightarrow> u32 \<Rightarrow> u32 \<Rightarrow> session_view \<Rightarrow> nat \<Rightarrow>
    filter_verdict \<times> rate_limit_quota list option" where
  "sliding_answer from_u16 c n w s r =
     (if charged_key c s = None
      then (if ln_key_missing_policy c = KAllow then Continue
            else Reject (limiter_rejection 400 (Some ''Missing required key for rate limiting'') []), None)
      else if r < unat n
      then (Continue,
        if ln_show_header c
        then Some [\<lparr>rq_limit = n, rq_remaining = int (unat n) - int r - 1, rq_reset = w, rq_current_count = int r + 1,
                    rq_header_prefix = unwrap_or (ln_header_prefix c) []\<rparr>]
        else None)
      else (handle_rate_limit from_u16 c (the_selection c n w) (int (min MAX_SLIDING_ENTRIES_PER_KEY (Suc r))), None))"

lemma kept_over: "N < 4096 \<Longrightarrow> int N < int (min 4096 (Suc r)) \<longleftrightarrow> \<not> r < N"
  by (cases "Suc r \<le> 4096") (auto simp: min_def)

lemma kept_under: "N < 4096 \<Longrightarrow> r < N \<Longrightarrow>
    int (min 4096 (Suc r)) = int r + 1 \<and> max (int N - int (min 4096 (Suc r))) 0 = int N - int r - 1"
  by (simp add: min_def max_def)

lemma sliding_request:
  assumes c: "sliding_limit c n w" and st: "counted hash c g w reqs (ct_sliding st)" and sorted: "sorted (map snd (reqs @ [(s, t)]))"
    and few: "card (charged_keys c (reqs @ [(s, t)])) \<le> PER_SHARD_REGULAR_MAX"
  shows "\<exists>st'. count_request_filter from_u16 rate_new rate_observe hash s c g t st =
      Some (fst (sliding_answer from_u16 c n w s (recent_of c w s t reqs)), snd (sliding_answer from_u16 c n w s (recent_of c w s t reqs)), st') \<and>
    counted hash c g w (reqs @ [(s, t)]) (ct_sliding st')"
proof -
  let ?sel = "the_selection c n w" and ?chk = "check_rate_limit rate_new rate_observe hash c g t"
  let ?answer = "sliding_answer from_u16 c n w s (recent_of c w s t reqs)"
  note d = sliding_limitD [OF c]
  have conf: "ln_window_type c = Sliding" "ln_rules c = []" using c by (simp_all add: sliding_limit_def)
  have filt: "count_request_filter from_u16 rate_new rate_observe hash s c g t st =
      enforce_limits from_u16 ?chk c [] [(resolve_main_key s c, ?sel)] st"
    by (simp add: count_request_filter_def count_select_limits_def conf d(1))
  show ?thesis
  proof (cases "charged_key c s")
    case None
    then have "resolve_main_key s c = []" "ln_key_missing_policy c \<noteq> KDefault" by (auto simp: charged_key_def split: if_splits)
    then have "count_request_filter from_u16 rate_new rate_observe hash s c g t st = Some (fst ?answer, snd ?answer, st)"
      using None by (cases "ln_key_missing_policy c") (simp_all add: filt handle_missing_key_def sliding_answer_def)
    moreover have "counted hash c g w (reqs @ [(s, t)]) (ct_sliding st)"
      using st None by (simp add: counted_def charged_keys_snoc arrivals_snoc)
    ultimately show ?thesis by blast
  next
    case (Some k)
    let ?r = "recent_of c w s t reqs"
    obtain m' where m': "sliding_observe hash t w (storage_key c g k) (ct_sliding st) =
        (int (fst (observe_window t w (window_run w (arrivals c (Some k) reqs)))), m')" "counted hash c g w (reqs @ [(s, t)]) m'"
      using sliding_observe_exact [OF st Some few] by blast
    have "sorted (arrivals c (Some k) reqs @ [t])"
      using sorted by (auto simp: arrivals_def sorted_append sorted_map sorted_wrt_filter)
    then have len: "fst (observe_window t w (window_run w (arrivals c (Some k) reqs))) = min MAX_SLIDING_ENTRIES_PER_KEY (Suc ?r)"
      using window_run_length [OF _ d(2)] by (simp add: recent_of_arrivals Some)
    let ?n = "int (min MAX_SLIDING_ENTRIES_PER_KEY (Suc ?r))"
    have chk: "?chk ?sel k st = Some (\<lparr>lo_limited = ?n > uint n, lo_current_count = ?n, lo_remaining = max (uint n - ?n) 0\<rparr>,
        st\<lparr>ct_sliding := m'\<rparr>)"
      using check_sliding [OF conf(1), of hash t ?sel g k st] m'(1) len by simp
    have u: "uint n = int (unat n)" by simp
    have over: "?n > uint n \<longleftrightarrow> \<not> ?r < unat n" unfolding u MAX_SLIDING_ENTRIES_PER_KEY_def by (rule kept_over [OF d(3)])
    have under: "?r < unat n \<Longrightarrow> ?n = int ?r + 1 \<and> max (uint n - ?n) 0 = int (unat n) - int ?r - 1"
      unfolding u MAX_SLIDING_ENTRIES_PER_KEY_def by (rule kept_under [OF d(3)])
    have "count_request_filter from_u16 rate_new rate_observe hash s c g t st = Some (fst ?answer, snd ?answer, st\<lparr>ct_sliding := m'\<rparr>)"
    proof (cases "resolve_main_key s c = []")
      case True
      then have "ln_key_missing_policy c = KDefault" "k = ''_default_rate_limit_key''" using Some by (auto simp: charged_key_def split: if_splits)
      then show ?thesis using True Some chk over under
        by (cases "?r < unat n") (simp_all add: filt handle_missing_key_def sliding_answer_def d(1) quota_of_def)
    next
      case False
      then have "k = resolve_main_key s c" using Some by (simp add: charged_key_def)
      then show ?thesis using False Some chk over under
        by (cases "?r < unat n") (simp_all add: filt sliding_answer_def quota_of_def)
    qed
    then show ?thesis using m'(2) by auto
  qed
qed

lemma count_run_snoc:
  "count_run from_u16 rate_new rate_observe hash c g (reqs @ [(s, t)]) st =
     (case count_run from_u16 rate_new rate_observe hash c g reqs st of
        None \<Rightarrow> None
      | Some st \<Rightarrow> (case count_request_filter from_u16 rate_new rate_observe hash s c g t st of
          None \<Rightarrow> None | Some (_, _, st) \<Rightarrow> Some st))"
  by (induction reqs arbitrary: st) (auto split: option.splits)

lemma sliding_run:
  assumes c: "sliding_limit c n w" and "ct_sliding st\<^sub>0 = shard_map_new" and "sorted (map snd reqs)"
    and "card (charged_keys c reqs) \<le> PER_SHARD_REGULAR_MAX"
  shows "\<exists>st. count_run from_u16 rate_new rate_observe hash c g reqs st\<^sub>0 = Some st \<and> counted hash c g w reqs (ct_sliding st)"
  using assms(3,4)
proof (induction reqs rule: rev_induct)
  case Nil
  show ?case using assms(2)
    by (simp add: counted_def charged_keys_def shard_map_new_def shard_default_def shard_get_def)
next
  case (snoc r reqs)
  obtain s t where r: "r = (s, t)" by (cases r)
  have "charged_keys c reqs \<subseteq> charged_keys c (reqs @ [r])" by (auto simp: charged_keys_def)
  then have "card (charged_keys c reqs) \<le> PER_SHARD_REGULAR_MAX"
    using card_mono [OF finite_charged_keys] snoc.prems(2) le_trans by blast
  then obtain st where st: "count_run from_u16 rate_new rate_observe hash c g reqs st\<^sub>0 = Some st" "counted hash c g w reqs (ct_sliding st)"
    using snoc.IH snoc.prems(1) by (auto simp: sorted_append)
  from sliding_request [OF c st(2) snoc.prems [unfolded r], of from_u16 rate_new rate_observe] st(1) show ?case
    unfolding r count_run_snoc by auto
qed

text \<open>C32: With a sliding window the hook decides exactly. Take an accepted configuration with one sliding
  limit of \<open>n\<close> requests in \<open>w\<close> seconds, and any requests in the order of their instants, on an instance or
  group that starts empty, with at most 255 distinct keys among them - so that no shard has to sweep or share
  its overflow slot. The hook answers every one of them, never panics, and lets the next request pass if
  and only if fewer than \<open>n\<close> earlier requests of the same key, refused ones included, arrived less than \<open>w\<close>
  seconds before it, although the history of a key keeps at most 4096 events. A passing request gets the
  remaining quota, a refused one the configured rejection; a request without a key is let through,
  refused with 400 or counted under the default key, as the configuration says.\<close>

theorem sliding_decision_exact:
  assumes "sliding_limit c n w" and "ct_sliding st\<^sub>0 = shard_map_new" and "sorted (map snd (reqs @ [(s, t)]))"
    and "card (charged_keys c (reqs @ [(s, t)])) \<le> PER_SHARD_REGULAR_MAX"
  shows "\<exists>st st'. count_run from_u16 rate_new rate_observe hash c g reqs st\<^sub>0 = Some st \<and>
    count_request_filter from_u16 rate_new rate_observe hash s c g t st =
      (let (verdict, quotas) = sliding_answer from_u16 c n w s (recent_of c w s t reqs) in Some (verdict, quotas, st'))"
proof -
  have "charged_keys c reqs \<subseteq> charged_keys c (reqs @ [(s, t)])" by (auto simp: charged_keys_def)
  then have "card (charged_keys c reqs) \<le> PER_SHARD_REGULAR_MAX"
    using card_mono [OF finite_charged_keys] assms(4) le_trans by blast
  moreover have "sorted (map snd reqs)" using assms(3) by (simp add: sorted_append)
  ultimately obtain st where st: "count_run from_u16 rate_new rate_observe hash c g reqs st\<^sub>0 = Some st"
      "counted hash c g w reqs (ct_sliding st)"
    using sliding_run [OF assms(1,2)] by blast
  from sliding_request [OF assms(1) st(2) assms(3,4)] st(1) show ?thesis
    unfolding Let_def split_beta by blast
qed

definition example_ln_config :: ln_config where
  "example_ln_config = \<lparr>ln_key_type = KConstant, ln_key = ''k'', ln_time_window = Some 1,
    ln_count = Some 2, ln_window_type = Sliding, ln_rejected_code = 503, ln_rejected_msg = None,
    ln_header_prefix = None, ln_show_header = True, ln_key_missing_policy = KAllow,
    ln_scope = SLocal, ln_rules = [], ln_group = None, ln_policy = CLocal,
    ln_allow_degradation = False\<rparr>"

definition example_session :: session_view where
  "example_session = \<lparr>sv_render = id, sv_apisix_key = (\<lambda>k _. k), sv_head_key = id,
    sv_cookie_key = id\<rparr>"

lemma example_ln_config_ok: "ln_config_check example_ln_config = Inr ()"
  by code_simp

text \<open>Three requests of one client within the second before a fourth: it is refused, and one of another client
  passes.\<close>

definition client_config :: ln_config where
  "client_config = example_ln_config\<lparr>ln_key_type := KVar, ln_key := ''remote_addr''\<rparr>"

definition client_view :: "string \<Rightarrow> session_view" where
  "client_view addr = example_session\<lparr>sv_apisix_key := (\<lambda>_ _. addr)\<rparr>"

definition client_requests :: "(session_view \<times> nat) list" where
  "client_requests = [(client_view ''a'', 0), (client_view ''a'', 1), (client_view ''b'', 2), (client_view ''a'', 3)]"

theorem sliding_decision_exact_witness:
  "let hook = (\<lambda>s st. count_request_filter (\<lambda>code. Some (unat code)) (\<lambda>_. 0 :: int) (\<lambda>r _. (r + 1, r + 1)) (\<lambda>_. 0) s client_config
         False 999999999 st);
       run = count_run (\<lambda>code. Some (unat code)) (\<lambda>_. 0 :: int) (\<lambda>r _. (r + 1, r + 1)) (\<lambda>_. 0) client_config False client_requests
         count_state_new
   in run \<noteq> None \<and> map_option fst (hook (client_view ''a'') (the run)) \<noteq> Some Continue \<and>
      map_option fst (hook (client_view ''b'') (the run)) = Some Continue"
proof -
  have key: "charged_key client_config (client_view a) = Some a" if "a \<noteq> []" for a
    using that by (simp add: charged_key_def resolve_main_key_def client_config_def client_view_def)
  have limit: "sliding_limit client_config 2 1" unfolding sliding_limit_def by (intro conjI) code_simp+
  have sorted: "sorted (map snd (client_requests @ [(client_view a, 999999999)]))" for a
    by (simp add: client_requests_def)
  have keys: "charged_keys client_config (client_requests @ [(client_view a, 999999999)]) = insert a {''a'', ''b''}" if "a \<noteq> []" for a
    using that by (auto simp: charged_keys_def client_requests_def key)
  have few: "card (charged_keys client_config (client_requests @ [(client_view a, 999999999)])) \<le> PER_SHARD_REGULAR_MAX" if "a \<noteq> []" for a
    unfolding keys [OF that] by (simp add: card_insert_if limiter_consts)
  have new: "ct_sliding (count_state_new :: int count_state) = shard_map_new" by (simp add: count_state_new_def)
  have recent: "recent_of client_config 1 (client_view ''a'') 999999999 client_requests = 3"
    "recent_of client_config 1 (client_view ''b'') 999999999 client_requests = 1"
    by (simp_all add: recent_of_def client_requests_def key secs_def)
  have answer: "fst (sliding_answer from_u16 client_config 2 1 (client_view ''a'') 3) \<noteq> Continue"
    "fst (sliding_answer from_u16 client_config 2 1 (client_view ''b'') 1) = Continue" for from_u16
    by (simp_all add: sliding_answer_def key handle_rate_limit_def Let_def)
  let ?u16 = "\<lambda>code :: u16. Some (unat code)" and ?new = "\<lambda>_ :: u32. 0 :: int" and ?obs = "\<lambda>(r :: int) (_ :: string). (r + 1, r + 1)"
    and ?hash = "\<lambda>_ :: string. 0 :: u64"
  have hook: "\<exists>st st'. count_run ?u16 ?new ?obs ?hash client_config False client_requests count_state_new = Some st \<and>
      count_request_filter ?u16 ?new ?obs ?hash (client_view a) client_config False 999999999 st =
        (let (verdict, quotas) = sliding_answer ?u16 client_config 2 1 (client_view a)
           (recent_of client_config 1 (client_view a) 999999999 client_requests) in Some (verdict, quotas, st'))" if "a \<noteq> []" for a
    by (rule sliding_decision_exact [OF limit new sorted few [OF that]])
  show ?thesis using hook [of "''a''"] hook [of "''b''"] answer [of ?u16] unfolding Let_def recent split_beta by auto
qed

text \<open>The hook never panics: when every configured window is registered, as the factory leaves
  it, \<open>request_filter\<close> returns a verdict on every request, and the windows stay registered.\<close>

theorem count_filter_returns:
  assumes "keys (build_fixed_rates rate_new c) \<subseteq> keys (ct_fixed st)"
  shows "\<exists>verdict quotas st'.
    count_request_filter from_u16 rate_new rate_observe hash s c g now st = Some (verdict, quotas, st') \<and>
    keys (build_fixed_rates rate_new c) \<subseteq> keys (ct_fixed st')"
proof -
  let ?chk = "check_rate_limit rate_new rate_observe hash c g now"
  let ?ok = "\<lambda>st. keys (build_fixed_rates rate_new c) \<subseteq> keys (ct_fixed st)"
  have missing: "\<exists>v q st'. handle_missing_key from_u16 ?chk c st = Some (v, q, st') \<and> ?ok st'"
    if "?ok st" for st
  proof (cases "main_selection c")
    case None
    then show ?thesis using that by (cases "ln_key_missing_policy c") (simp_all add: handle_missing_key_def)
  next
    case (Some sel)
    have "sel_time_window sel \<in> keys (ct_fixed st)"
      using main_window_registered [OF Some, of rate_new] that by blast
    then obtain outcome st1 where "?chk sel ''_default_rate_limit_key'' st = Some (outcome, st1)"
      and "keys (ct_fixed st) \<subseteq> keys (ct_fixed st1)"
      using check_rate_limit_total by blast
    then show ?thesis
      using that Some subset_trans by (cases "ln_key_missing_policy c") (simp_all add: handle_missing_key_def)
  qed
  have "\<exists>v q st'. enforce_limits from_u16 ?chk c qs limits st = Some (v, q, st') \<and> ?ok st'"
    if "?ok st" and "\<forall>(k, sel) \<in> set limits. sel_time_window sel \<in> keys (build_fixed_rates rate_new c)"
    for limits qs st
    using that
  proof (induction limits arbitrary: qs st)
    case (Cons l limits)
    obtain k sel where l: "l = (k, sel)" by fastforce
    have "sel_time_window sel \<in> keys (ct_fixed st)" using Cons.prems l by auto
    then obtain outcome st1 where chk: "?chk sel k st = Some (outcome, st1)" and
      "keys (ct_fixed st) \<subseteq> keys (ct_fixed st1)"
      using check_rate_limit_total by blast
    then have "?ok st1" using Cons.prems(1) by blast
    then show ?case
      using Cons.IH [of st1] Cons.prems chk missing [OF Cons.prems(1)] l by simp
  qed simp
  moreover have "\<forall>(k, sel) \<in> set limits. sel_time_window sel \<in> keys (build_fixed_rates rate_new c)"
    if "count_select_limits s c = Some limits" for limits
    using selected_window_registered [OF that] by blast
  ultimately show ?thesis
    using assms by (cases "count_select_limits s c") (simp_all add: count_request_filter_def)
qed

theorem count_filter_returns_witness:
  "\<exists>verdict quotas st'.
    count_request_filter (\<lambda>code. Some (unat code)) (\<lambda>_. 0) (\<lambda>r _. (r + 1, r + 1)) (\<lambda>_. 0) example_session
      example_ln_config False 5
      \<lparr>ct_fixed = build_fixed_rates (\<lambda>_. 0) example_ln_config, ct_sliding = shard_map_new\<rparr> =
      Some (verdict, quotas, st') \<and>
    keys (build_fixed_rates (\<lambda>_. 0 :: int) example_ln_config) \<subseteq> keys (ct_fixed st')"
  by (rule count_filter_returns) simp

text \<open>memory is bounded whatever keys clients send: after any sequence of requests the instance
  tracks at most 4096 keys, and every window holds at most 4096 events.\<close>

theorem sliding_memory_bounded:
  "let m = fold (\<lambda>(now, w, key) m. snd (sliding_observe hash now w key m)) requests shard_map_new
   in tracked_keys m \<le> MAX_KEYS \<and>
      (\<forall>i k. case shard_get (m i) k of
         None \<Rightarrow> True | Some sw \<Rightarrow> length (sw_events sw) \<le> MAX_SLIDING_ENTRIES_PER_KEY)"
proof -
  let ?ok = "\<lambda>m. (\<forall>i. shard_bounded LIMIT_COUNT_OVERFLOW (m i)) \<and>
    (\<forall>i k sw. shard_get (m i) k = Some sw \<longrightarrow> length (sw_events sw) \<le> MAX_SLIDING_ENTRIES_PER_KEY)"
  have step: "?ok (snd (sliding_observe hash now w key m))" if ok: "?ok m" for now w key m
  proof -
    let ?i = "shard_idx hash key"
    have "shard_bounded LIMIT_COUNT_OVERFLOW (snd (slot_op LIMIT_COUNT_OVERFLOW
        (\<lambda>sw. sliding_stale sw now) Restore (sw_step (now, w)) key (m ?i)))"
      using lcount.client_bounded [of "m ?i" "(now, w)" key] ok by simp
    moreover have "length (sw_events sw) \<le> MAX_SLIDING_ENTRIES_PER_KEY"
      if "shard_get (snd (slot_op LIMIT_COUNT_OVERFLOW
        (\<lambda>sw. sliding_stale sw now) Restore (sw_step (now, w)) key (m ?i))) k = Some sw" for k sw
      using lcount.client_vinv [of "m ?i" "(now, w)" key k sw] that ok by (metis fst_conv)
    ultimately show ?thesis
      using ok by (auto simp: sliding_observe_def with_shard_def Let_def split_beta)
  qed
  have "?ok m \<Longrightarrow> ?ok (fold (\<lambda>(now, w, key) m. snd (sliding_observe hash now w key m)) requests m)" for m
  proof (induction requests arbitrary: m)
    case (Cons r rs)
    obtain now w key where "r = (now, w, key)" by (metis surj_pair)
    then show ?case using Cons.IH [OF step [OF Cons.prems, of now w key]] by simp
  qed simp
  moreover have "?ok shard_map_new"
    using shard_bounded_default by (simp add: shard_map_new_def shard_get_def shard_default_def)
  ultimately have "?ok (fold (\<lambda>(now, w, key) m. snd (sliding_observe hash now w key m)) requests
      shard_map_new)" by blast
  moreover from this have "tracked_keys (fold (\<lambda>(now, w, key) m. snd (sliding_observe hash now w key m))
      requests shard_map_new) \<le> MAX_KEYS"
    using tracked_keys_le [where ov = LIMIT_COUNT_OVERFLOW] by blast
  ultimately show ?thesis unfolding Let_def by (simp split: option.split)
qed

end
