(* ===== verification/Words.thy ===== *)
theory Words
  imports Prelude "HOL-Library.Word"
begin

text \<open>
  Bit sets kept in 64-bit words, as the program keeps them: a mask \<open>1u64 << n\<close> tested with
  \<open>&\<close> and set with \<open>|=\<close>, and lists of words indexed by \<open>n / 64\<close> and \<open>n % 64\<close>.
\<close>

unbundle bit_operations_syntax

lemma bit_push_one: "bit (push_bit n 1 :: 64 word) m \<longleftrightarrow> m = n \<and> n < 64"
  by (auto simp add: bit_push_bit_iff bit_1_iff simp del: push_bit_of_1)

lemma and_push_bit_one: "(w :: 64 word) AND push_bit n 1 \<noteq> 0 \<longleftrightarrow> bit w n"
proof
  assume "w AND push_bit n 1 \<noteq> 0"
  then obtain m where "bit (w AND push_bit n 1) m"
    by (auto simp: bit_eq_iff)
  then show "bit w n" by (simp only: bit_and_iff bit_push_one) blast
next
  assume b: "bit w n"
  then have "n < 64" using bit_imp_le_length by force
  with b have "bit (w AND push_bit n 1) n" by (simp only: bit_and_iff bit_push_one)
  then show "w AND push_bit n 1 \<noteq> 0" by auto
qed

definition bits_test :: "64 word list \<Rightarrow> nat \<Rightarrow> bool" where
  "bits_test ws n \<longleftrightarrow> (ws ! (n div 64)) AND push_bit (n mod 64) 1 \<noteq> 0"

definition bits_set :: "nat \<Rightarrow> 64 word list \<Rightarrow> 64 word list" where
  "bits_set n ws = ws[n div 64 := (ws ! (n div 64)) OR push_bit (n mod 64) 1]"

lemma length_bits_set [simp]: "length (bits_set n ws) = length ws"
  by (simp add: bits_set_def)

lemma bits_test_set:
  assumes "n div 64 < length ws"
  shows "bits_test (bits_set n ws) m \<longleftrightarrow> m = n \<or> bits_test ws m"
proof (cases "m div 64 = n div 64")
  case True
  then have "m mod 64 = n mod 64 \<longleftrightarrow> m = n" by (metis div_mult_mod_eq)
  then show ?thesis
    using True assms
    unfolding bits_test_def bits_set_def and_push_bit_one
    by (auto simp: bit_or_iff bit_push_one simp del: push_bit_of_1)
next
  case False
  then show ?thesis by (auto simp: bits_test_def bits_set_def)
qed

lemma bits_test_zero: "n div 64 < k \<Longrightarrow> \<not> bits_test (replicate k 0) n"
  by (simp add: bits_test_def)

lemma div_ceil_less: "n < len \<Longrightarrow> n div 64 < (len + 63) div 64" for n len :: nat
  by linarith

end
