(* ===== verification/Api_Breaker.thy ===== *)
theory Api_Breaker
  imports Limiting Words
begin

text \<open>
  The circuit breaker (\<open>src/plugins/api_breaker.rs\<close>): the status-code bitset, the exponential
  window, the bounded least-recently-used table of breaker states and the two hooks.
  Header-name syntax (\<open>http::HeaderName\<close>) and the template renderer are parameters.
\<close>

section \<open>Status-code sets\<close>

type_synonym status_code_set = "u64 list"

definition set_status :: "u16 \<Rightarrow> status_code_set \<Rightarrow> status_code_set" where
  "set_status status bits =
     (let idx = unat status
      in if idx < 640
         then bits[idx div 64 := (bits ! (idx div 64)) OR push_bit (idx mod 64) 1]
         else bits)"

definition from_statuses :: "u16 list \<Rightarrow> status_code_set" where
  "from_statuses statuses = fold set_status statuses (replicate 10 0)"

definition status_contains :: "status_code_set \<Rightarrow> u16 \<Rightarrow> bool" where
  "status_contains bits status \<longleftrightarrow>
     (let idx = unat status
      in idx < 640 \<and> (bits ! (idx div 64)) AND push_bit (idx mod 64) 1 \<noteq> 0)"

lemma status_contains_bit:
  "status_contains bits s \<longleftrightarrow> unat s < 640 \<and> bit (bits ! (unat s div 64)) (unat s mod 64)"
  by (simp only: status_contains_def Let_def and_push_bit_one)

lemma status_contains_set:
  assumes "length bits = 10"
  shows "length (set_status s bits) = 10"
    and "status_contains (set_status s bits) t \<longleftrightarrow> (s = t \<and> unat t < 640) \<or> status_contains bits t"
proof -
  show "length (set_status s bits) = 10" using assms by (simp add: set_status_def Let_def)
  show "status_contains (set_status s bits) t \<longleftrightarrow> (s = t \<and> unat t < 640) \<or> status_contains bits t"
  proof (cases "unat s < 640")
    case False
    then show ?thesis by (auto simp: set_status_def Let_def)
  next
    case True
    then have d: "unat s div 64 < 10" by simp
    have "bit (set_status s bits ! (unat t div 64)) (unat t mod 64) \<longleftrightarrow>
        bit (bits ! (unat t div 64)) (unat t mod 64) \<or>
        (unat s div 64 = unat t div 64 \<and> unat t mod 64 = unat s mod 64)"
      using True d assms
      by (simp add: set_status_def Let_def nth_list_update bit_or_iff bit_push_one del: push_bit_of_1)
    moreover have "unat s div 64 = unat t div 64 \<and> unat t mod 64 = unat s mod 64 \<longleftrightarrow> s = t"
      by (metis div_mult_mod_eq unsigned_word_eqI)
    ultimately show ?thesis by (auto simp: status_contains_bit)
  qed
qed

text \<open>the compiled bitset answers membership exactly, and never claims a status it does not
  hold.\<close>

theorem status_set_exact:
  "status_contains (from_statuses statuses) s \<longleftrightarrow> s \<in> set statuses \<and> unat s < 640"
proof -
  have "length bits = 10 \<Longrightarrow> length (fold set_status statuses bits) = 10 \<and>
      (status_contains (fold set_status statuses bits) s \<longleftrightarrow>
        (s \<in> set statuses \<and> unat s < 640) \<or> status_contains bits s)" for bits
    by (induction statuses arbitrary: bits) (auto simp: status_contains_set)
  from this [of "replicate 10 0"] show ?thesis
    by (auto simp: from_statuses_def status_contains_bit)
qed

section \<open>Configuration\<close>

record break_header =
  bh_key :: string
  bh_value :: string

record breaker_config =
  bc_response_code :: u16
  bc_response_body :: "string option"
  bc_response_headers :: "break_header list"
  bc_max_breaker_sec :: u64
  bc_unhealthy_statuses :: "u16 list"
  bc_failures :: u32
  bc_healthy_statuses :: "u16 list"
  bc_successes :: u32

definition validate_header_key :: "(string \<Rightarrow> bool) \<Rightarrow> string \<Rightarrow> string + unit" where
  "validate_header_key is_header_name key =
     (if trim key = [] \<or> \<not> is_header_name key then Inl ''invalid header key'' else Inr ())"

fun validate_break_headers :: "(string \<Rightarrow> bool) \<Rightarrow> break_header list \<Rightarrow> string + unit" where
  "validate_break_headers is_header_name [] = Inr ()"
| "validate_break_headers is_header_name (h # hs) =
     sum_bind (validate_header_key is_header_name (bh_key h)) (\<lambda>_.
     sum_bind (if bh_value h = [] then Inl ''value'' else Inr ()) (\<lambda>_.
     validate_break_headers is_header_name hs))"

definition breaker_config_check :: "(string \<Rightarrow> bool) \<Rightarrow> breaker_config \<Rightarrow> string + unit" where
  "breaker_config_check is_header_name c =
     sum_bind (if 200 \<le> bc_response_code c \<and> bc_response_code c \<le> 599 then Inr ()
               else Inl ''break_response_code'') (\<lambda>_.
     sum_bind (validate_break_headers is_header_name (bc_response_headers c)) (\<lambda>_.
     sum_bind (if 3 \<le> bc_max_breaker_sec c then Inr () else Inl ''max_breaker_sec'') (\<lambda>_.
     if bc_unhealthy_statuses c = [] \<or> bc_healthy_statuses c = [] \<or>
        \<not> distinct (bc_unhealthy_statuses c) \<or> \<not> distinct (bc_healthy_statuses c)
     then Inl ''api-breaker http_statuses must be non-empty and unique''
     else if list_ex (\<lambda>s. \<not> (500 \<le> s \<and> s \<le> 599)) (bc_unhealthy_statuses c)
     then Inl ''api-breaker unhealthy.http_statuses must be in [500, 599]''
     else if list_ex (\<lambda>s. \<not> (200 \<le> s \<and> s \<le> 499)) (bc_healthy_statuses c)
     then Inl ''api-breaker healthy.http_statuses must be in [200, 499]''
     else if bc_failures c < 1 then Inl ''api-breaker unhealthy.failures must be >= 1''
     else if bc_successes c < 1 then Inl ''api-breaker healthy.successes must be >= 1''
     else Inr ())))"

section \<open>Breaker states\<close>

definition MAX_EXPONENT :: u32 where "MAX_EXPONENT = 30"
definition MAX_BREAKER_KEYS :: nat where "MAX_BREAKER_KEYS = 1024"

record breaker_state =
  bs_unhealthy_count :: u32
  bs_healthy_count :: u32
  bs_lasttime :: "nat option"

definition breaker_state_default :: breaker_state where
  "breaker_state_default = \<lparr>bs_unhealthy_count = 0, bs_healthy_count = 0, bs_lasttime = None\<rparr>"

text \<open>\<open>1u64.checked_shl(n)\<close> is \<open>None\<close> for \<open>n \<ge> 64\<close>.\<close>

definition breaker_secs :: "u32 \<Rightarrow> u32 \<Rightarrow> u64 \<Rightarrow> u64" where
  "breaker_secs unhealthy_count failures max_breaker_sec =
     (let failure_times = min (max (unhealthy_count div max failures 1) 1) MAX_EXPONENT;
          exp = (if unat failure_times < 64 then push_bit (unat failure_times) 1 else - 1)
      in min exp max_breaker_sec)"

text \<open>\<open>BreakerStates::entry\<close>: the shard after it, in which the state of \<open>key\<close> is present.\<close>

definition breaker_entry :: "string \<Rightarrow> breaker_state shard \<Rightarrow> breaker_state \<times> breaker_state shard" where
  "breaker_entry key sh =
     (let sh = (if \<not> contains_key sh key \<and> shard_len sh \<ge> MAX_BREAKER_KEYS
                then evict_oldest sh else sh);
          sh = shard_touch key sh;
          st = unwrap_or (shard_get sh key) breaker_state_default
      in (st, shard_insert key st sh))"

definition state_key :: "string option \<Rightarrow> string" where
  "state_key route_id =
     (case route_id of
        Some rid \<Rightarrow> if rid \<noteq> [] then rid else ''__global__''
      | None \<Rightarrow> ''__global__'')"

definition state_open :: "breaker_config \<Rightarrow> nat \<Rightarrow> breaker_state \<Rightarrow> bool" where
  "state_open c now st =
     (case bs_lasttime st of
        Some lasttime \<Rightarrow>
          lasttime + unat (breaker_secs (bs_unhealthy_count st) (bc_failures c)
                             (bc_max_breaker_sec c)) * 1000000000 \<ge> now
      | None \<Rightarrow> False)"

definition breaker_is_open ::
  "breaker_config \<Rightarrow> string \<Rightarrow> nat \<Rightarrow> breaker_state shard \<Rightarrow> bool \<times> breaker_state shard" where
  "breaker_is_open c key now sh =
     (let (st, sh) = breaker_entry key sh in (state_open c now st, sh))"

definition breaker_reject ::
  "(u16 \<Rightarrow> status_code option) \<Rightarrow> (string \<Rightarrow> string) \<Rightarrow> breaker_config \<Rightarrow> rejection" where
  "breaker_reject from_u16 render c =
     limiter_rejection (unwrap_or (from_u16 (bc_response_code c)) 503) (bc_response_body c)
       (map (\<lambda>h. (bh_key h, render (bh_value h))) (bc_response_headers c))"

definition breaker_request_filter ::
  "(u16 \<Rightarrow> status_code option) \<Rightarrow> (string \<Rightarrow> string) \<Rightarrow> breaker_config \<Rightarrow> string option \<Rightarrow> nat \<Rightarrow>
   breaker_state shard \<Rightarrow> filter_verdict \<times> breaker_state shard" where
  "breaker_request_filter from_u16 render c route_id now sh =
     (let (opened, sh) = breaker_is_open c (state_key route_id) now sh
      in (if opened then Reject (breaker_reject from_u16 render c) else Continue, sh))"

definition breaker_observe ::
  "breaker_config \<Rightarrow> u16 \<Rightarrow> nat \<Rightarrow> breaker_state \<Rightarrow> breaker_state" where
  "breaker_observe c status now st =
     (let is_unhealthy = status_contains (from_statuses (bc_unhealthy_statuses c)) status;
          is_healthy = status_contains (from_statuses (bc_healthy_statuses c)) status
      in if is_unhealthy
      then let st = st\<lparr>bs_healthy_count := 0, bs_unhealthy_count := bs_unhealthy_count st + 1\<rparr>
           in if bs_unhealthy_count st mod max (bc_failures c) 1 = 0
              then st\<lparr>bs_lasttime := Some now\<rparr> else st
      else if is_healthy \<and> bs_lasttime st \<noteq> None
      then let st = st\<lparr>bs_healthy_count := bs_healthy_count st + 1\<rparr>
           in if bs_healthy_count st \<ge> max (bc_successes c) 1
              then st\<lparr>bs_lasttime := None, bs_unhealthy_count := 0, bs_healthy_count := 0\<rparr> else st
      else st)"

definition breaker_response_filter ::
  "breaker_config \<Rightarrow> string option \<Rightarrow> u16 \<Rightarrow> nat \<Rightarrow> breaker_state shard \<Rightarrow> breaker_state shard" where
  "breaker_response_filter c route_id status now sh =
     (let (st, sh) = breaker_entry (state_key route_id) sh
      in shard_insert (state_key route_id) (breaker_observe c status now st) sh)"

section \<open>The bounded table\<close>

lemma shard_ok_oldest:
  assumes "shard_ok n sh" and "0 < shard_len sh"
  shows "oldest (touch_order sh) \<noteq> []"
proof
  assume e: "oldest (touch_order sh) = []"
  obtain k where "k \<in> keys (entries sh)"
    using assms(2) by (cases "entries sh") (auto simp: shard_len_def)
  then have "k \<in> keys (touches (touch_order sh))"
    using assms(1) by (simp add: shard_ok_def)
  then obtain t where "map_of (touches (touch_order sh)) k = Some t"
    by (metis map_of_None_keys not_None_eq)
  then show False using assms(1) e by (simp add: shard_ok_def to_ok_def)
qed

lemma evict_oldest_ok:
  assumes "shard_ok n sh" and "0 < shard_len sh"
  shows "shard_ok n (evict_oldest sh) \<and> shard_len (evict_oldest sh) < shard_len sh"
proof -
  obtain t key rest where od: "oldest (touch_order sh) = (t, key) # rest"
    using shard_ok_oldest [OF assms] by (metis list.exhaust surj_pair)
  then obtain q where pop: "pop_oldest (touch_order sh) = Some ((t, key), q)"
    by (simp add: pop_oldest_def)
  have ok: "to_ok n (touch_order sh)" using assms(1) by (simp add: shard_ok_def)
  have "key \<in> keys (entries sh)"
    using pop_oldest_ok(2) [OF ok pop] assms(1) by (simp add: shard_ok_def)
  then show ?thesis
    using shard_pop_remove [OF assms(1) pop] pop
    by (simp add: evict_oldest_def shard_len_def shard_remove_def length_delete_less)
qed

lemma breaker_entry_ok:
  assumes "shard_ok (Suc n) sh" and "shard_len sh \<le> MAX_BREAKER_KEYS"
  shows "shard_ok n (snd (breaker_entry key sh))"
    and "shard_len (snd (breaker_entry key sh)) \<le> MAX_BREAKER_KEYS"
    and "contains_key (snd (breaker_entry key sh)) key"
proof -
  let ?s = "if \<not> contains_key sh key \<and> shard_len sh \<ge> MAX_BREAKER_KEYS then evict_oldest sh else sh"
  have "0 < MAX_BREAKER_KEYS" by (simp add: MAX_BREAKER_KEYS_def)
  then have s: "shard_ok (Suc n) ?s"
    "shard_len ?s < MAX_BREAKER_KEYS \<or> (contains_key ?s key \<and> shard_len ?s \<le> MAX_BREAKER_KEYS)"
    using evict_oldest_ok [OF assms(1)] assms by auto
  have e: "snd (breaker_entry key sh) = shard_insert key
      (unwrap_or (shard_get (shard_touch key ?s) key) breaker_state_default) (shard_touch key ?s)"
    by (simp add: breaker_entry_def Let_def)
  show "shard_ok n (snd (breaker_entry key sh))"
    unfolding e by (rule shard_touch_ok [OF s(1)])
  show "shard_len (snd (breaker_entry key sh)) \<le> MAX_BREAKER_KEYS"
    unfolding e using s(2) by (auto simp: shard_len_insert contains_key_def)
  show "contains_key (snd (breaker_entry key sh)) key"
    unfolding e by (simp add: contains_key_def)
qed

lemma shard_insert_existing:
  assumes "shard_ok n sh" and "contains_key sh key"
  shows "shard_ok n (shard_insert key v sh)" and "shard_len (shard_insert key v sh) = shard_len sh"
  using assms
  by (auto simp: shard_ok_def shard_insert_def contains_key_iff keys_update distinct_update
      shard_len_def length_update)

text \<open>A hook call on the table: a request or a response.\<close>

datatype breaker_call = On_request "string option" nat | On_response "string option" u16 nat

fun breaker_call_exec :: "breaker_config \<Rightarrow> breaker_call \<Rightarrow> breaker_state shard \<Rightarrow> breaker_state shard" where
  "breaker_call_exec c (On_request rid now) sh = snd (breaker_is_open c (state_key rid) now sh)"
| "breaker_call_exec c (On_response rid status now) sh = breaker_response_filter c rid status now sh"

lemma breaker_call_ok:
  assumes "shard_ok (Suc n) sh" and "shard_len sh \<le> MAX_BREAKER_KEYS"
  shows "shard_ok n (breaker_call_exec c call sh) \<and>
    shard_len (breaker_call_exec c call sh) \<le> MAX_BREAKER_KEYS"
proof (cases call)
  case (On_request rid now)
  then show ?thesis
    using breaker_entry_ok [OF assms, of "state_key rid"] by (simp add: breaker_is_open_def split_beta)
next
  case (On_response rid status now)
  then show ?thesis
    using breaker_entry_ok [OF assms, of "state_key rid"]
      shard_insert_existing [of n "snd (breaker_entry (state_key rid) sh)" "state_key rid"]
    by (simp add: breaker_response_filter_def Let_def split_beta)
qed

text \<open>Whatever routes and statuses the plugin sees, its table never holds more than 1024 states
  and its recency index stays consistent with it.\<close>

theorem breaker_table_bounded:
  assumes "length calls < 2 ^ 64"
  shows "shard_len (fold (breaker_call_exec c) calls shard_default) \<le> MAX_BREAKER_KEYS \<and>
    shard_ok 0 (fold (breaker_call_exec c) calls shard_default)"
proof -
  have "shard_ok (length calls) sh \<Longrightarrow> shard_len sh \<le> MAX_BREAKER_KEYS \<Longrightarrow>
      shard_len (fold (breaker_call_exec c) calls sh) \<le> MAX_BREAKER_KEYS \<and>
      shard_ok 0 (fold (breaker_call_exec c) calls sh)" for sh
    using breaker_call_ok by (induction calls arbitrary: sh) auto
  moreover have "shard_len shard_default \<le> MAX_BREAKER_KEYS"
    by (simp add: shard_len_def shard_default_def)
  ultimately show ?thesis
    using shard_ok_default [OF assms] by blast
qed

definition example_breaker :: breaker_config where
  "example_breaker = \<lparr>bc_response_code = 503, bc_response_body = None, bc_response_headers = [],
    bc_max_breaker_sec = 300, bc_unhealthy_statuses = [500], bc_failures = 2,
    bc_healthy_statuses = [200], bc_successes = 1\<rparr>"

theorem breaker_table_bounded_witness:
  "shard_len (fold (breaker_call_exec example_breaker)
     [On_response (Some ''r1'') 500 1, On_request None 2] shard_default) \<le> MAX_BREAKER_KEYS \<and>
   shard_ok 0 (fold (breaker_call_exec example_breaker)
     [On_response (Some ''r1'') 500 1, On_request None 2] shard_default)"
  by (rule breaker_table_bounded) simp

section \<open>The breaker's window\<close>

lemma unat_push_bit_one:
  assumes "n < 64"
  shows "unat (push_bit n (1 :: u64)) = 2 ^ n"
proof (rule of_nat_inverse)
  show "word_of_nat (2 ^ n) = push_bit n (1 :: u64)"
    by (simp only: push_bit_of_1 of_nat_power of_nat_numeral)
  show "(2 :: nat) ^ n < 2 ^ LENGTH(64)"
    using assms by (intro power_strict_increasing) simp_all
qed

text \<open>the breaker window is \<open>2 ^ k\<close> seconds, \<open>k\<close> the number of failure batches clamped to
  \<open>1..30\<close>, capped by the configured maximum; the shift never overflows.\<close>

theorem breaker_secs_exact:
  "unat (breaker_secs n failures max_sec) =
    min (2 ^ (min (max (unat n div max (unat failures) 1) 1) 30)) (unat max_sec)"
proof -
  let ?k = "min (max (n div max failures 1) 1) MAX_EXPONENT"
  have mm: "unat (max a b) = max (unat a) (unat b)" "unat (min a b) = min (unat a) (unat b)"
    for a b :: "'a::len word"
    by (simp_all add: max_def min_def word_le_nat_alt)
  have k: "unat ?k = min (max (unat n div max (unat failures) 1) 1) 30"
    by (simp add: mm unat_div MAX_EXPONENT_def)
  then have le: "unat ?k \<le> 30" by simp
  then have "unat (push_bit (unat ?k) 1 :: u64) = 2 ^ unat ?k"
    by (intro unat_push_bit_one) simp
  then show ?thesis
    using le unfolding breaker_secs_def Let_def mm k [symmetric] by simp
qed

section \<open>The breaker's automaton\<close>

text \<open>The abstract breaker counts the failures since the last recovery and the healthy responses of
  the current recovery; every \<open>F\<close>-th failure trips it anew, and \<open>S\<close> healthy responses while it is tripped
  reset it. While tripped it blocks for a time that doubles with every \<open>F\<close> failures, up to a maximum.\<close>

record circuit =
  ci_failures :: nat
  ci_recovered :: nat
  ci_tripped :: "nat option"

definition circuit_step :: "breaker_config \<Rightarrow> u16 \<times> nat \<Rightarrow> circuit \<Rightarrow> circuit" where
  "circuit_step c response x =
     (let (status, now) = response; F = unat (bc_failures c); S = unat (bc_successes c)
      in if status \<in> set (bc_unhealthy_statuses c)
         then \<lparr>ci_failures = ci_failures x + 1, ci_recovered = 0,
               ci_tripped = (if F dvd ci_failures x + 1 then Some now else ci_tripped x)\<rparr>
         else if status \<in> set (bc_healthy_statuses c) \<and> ci_tripped x \<noteq> None
         then if S \<le> ci_recovered x + 1 then \<lparr>ci_failures = 0, ci_recovered = 0, ci_tripped = None\<rparr>
              else x\<lparr>ci_recovered := ci_recovered x + 1\<rparr>
         else x)"

definition circuit_new :: circuit where
  "circuit_new = \<lparr>ci_failures = 0, ci_recovered = 0, ci_tripped = None\<rparr>"

definition circuit_blocks :: "breaker_config \<Rightarrow> nat \<Rightarrow> circuit \<Rightarrow> bool" where
  "circuit_blocks c now x \<longleftrightarrow>
     (case ci_tripped x of
        None \<Rightarrow> False
      | Some t \<Rightarrow> now \<le> t + min (2 ^ min (max (ci_failures x div unat (bc_failures c)) 1) 30)
          (unat (bc_max_breaker_sec c)) * 1000000000)"

definition circuit_of :: "breaker_state \<Rightarrow> circuit" where
  "circuit_of st = \<lparr>ci_failures = unat (bs_unhealthy_count st), ci_recovered = unat (bs_healthy_count st), ci_tripped = bs_lasttime st\<rparr>"

definition breaker_inv :: "breaker_config \<Rightarrow> nat \<Rightarrow> breaker_state \<Rightarrow> bool" where
  "breaker_inv c n st \<longleftrightarrow> (bs_lasttime st \<noteq> None \<longleftrightarrow> unat (bc_failures c) \<le> unat (bs_unhealthy_count st)) \<and>
     unat (bs_healthy_count st) < unat (bc_successes c) \<and> unat (bs_unhealthy_count st) + n < 2 ^ 32"

lemma breaker_checked:
  assumes "breaker_config_check is_header_name c = Inr ()"
  shows "1 \<le> bc_failures c" and "1 \<le> bc_successes c"
    and "status_contains (from_statuses (bc_unhealthy_statuses c)) s \<longleftrightarrow> s \<in> set (bc_unhealthy_statuses c)"
    and "status_contains (from_statuses (bc_healthy_statuses c)) s \<longleftrightarrow> s \<in> set (bc_healthy_statuses c)"
proof -
  have range: "\<forall>s \<in> set (bc_unhealthy_statuses c). s \<le> 599" "\<forall>s \<in> set (bc_healthy_statuses c). s \<le> 499"
      and "\<not> bc_failures c < 1" "\<not> bc_successes c < 1"
    using assms by (auto simp: breaker_config_check_def list_ex_iff split: if_splits)
  then show "1 \<le> bc_failures c" "1 \<le> bc_successes c" by (simp_all only: not_less)
  have "s \<in> set (bc_unhealthy_statuses c) \<Longrightarrow> unat s < 640" "s \<in> set (bc_healthy_statuses c) \<Longrightarrow> unat s < 640"
    using range by (fastforce simp: word_le_nat_alt)+
  then show "status_contains (from_statuses (bc_unhealthy_statuses c)) s \<longleftrightarrow> s \<in> set (bc_unhealthy_statuses c)"
    "status_contains (from_statuses (bc_healthy_statuses c)) s \<longleftrightarrow> s \<in> set (bc_healthy_statuses c)"
    unfolding status_set_exact by blast+
qed

lemma breaker_observe_refines:
  assumes inv: "breaker_inv c (Suc n) st" and c: "breaker_config_check is_header_name c = Inr ()"
  shows "breaker_inv c n (breaker_observe c status now st) \<and>
    circuit_of (breaker_observe c status now st) = circuit_step c (status, now) (circuit_of st)"
proof -
  let ?F = "unat (bc_failures c)" and ?U = "unat (bs_unhealthy_count st)"
    and ?H = "unat (bs_healthy_count st)" and ?S = "unat (bc_successes c)"
  note checked = breaker_checked [OF c]
  have mx: "max (bc_failures c) 1 = bc_failures c" "max (bc_successes c) 1 = bc_successes c"
    using checked(1,2) by (simp_all add: max_absorb1)
  have F: "0 < ?F" using checked(1) by (simp add: word_le_nat_alt)
  have S: "0 < ?S" using checked(2) by (simp add: word_le_nat_alt)
  have u1: "unat (bs_unhealthy_count st + 1) = ?U + 1"
    using inv by (simp add: breaker_inv_def unat_word_ariths)
  have "?S < 2 ^ 32" using unsigned_less [where w = "bc_successes c"] by simp
  then have h1: "unat (bs_healthy_count st + 1) = ?H + 1"
    using inv by (simp add: breaker_inv_def unat_word_ariths)
  have md: "(bs_unhealthy_count st + 1) mod bc_failures c = 0 \<longleftrightarrow> ?F dvd ?U + 1"
  proof -
    have "unat ((bs_unhealthy_count st + 1) mod bc_failures c) = (?U + 1) mod ?F"
      by (simp only: unat_mod u1)
    then show ?thesis by (metis unsigned_eq_0_iff mod_eq_0_iff_dvd)
  qed
  have trip: "?F \<le> ?U + 1" if "?F dvd ?U + 1" using that by (rule dvd_imp_le) simp
  have first: "?F dvd ?U + 1" if "?F \<le> ?U + 1" "\<not> ?F \<le> ?U"
  proof -
    have "?U + 1 = ?F" using that by simp
    then show ?thesis by simp
  qed
  have hs: "bc_successes c \<le> bs_healthy_count st + 1 \<longleftrightarrow> ?S \<le> ?H + 1"
    by (simp only: word_le_nat_alt h1)
  have small: "?U + Suc n < 2 ^ 32" and tripped: "bs_lasttime st \<noteq> None \<longleftrightarrow> ?F \<le> ?U" and low: "?H < ?S"
    using inv by (simp_all add: breaker_inv_def)
  show ?thesis
  proof (cases "status \<in> set (bc_unhealthy_statuses c)")
    case True
    then have obs: "breaker_observe c status now st = st\<lparr>bs_healthy_count := 0, bs_unhealthy_count := bs_unhealthy_count st + 1,
        bs_lasttime := (if ?F dvd ?U + 1 then Some now else bs_lasttime st)\<rparr>"
      by (cases "?F dvd ?U + 1") (simp_all add: breaker_observe_def checked(3) mx md Let_def)
    show ?thesis
      using small tripped S trip first True F unfolding obs
      by (auto simp: breaker_inv_def circuit_of_def circuit_step_def u1 Let_def)
  next
    case False
    show ?thesis
    proof (cases "status \<in> set (bc_healthy_statuses c) \<and> bs_lasttime st \<noteq> None")
      case True
      then have obs: "breaker_observe c status now st = (if ?S \<le> ?H + 1
          then \<lparr>bs_unhealthy_count = 0, bs_healthy_count = 0, bs_lasttime = None\<rparr>
          else st\<lparr>bs_healthy_count := bs_healthy_count st + 1\<rparr>)"
        using False by (cases "?S \<le> ?H + 1") (simp_all add: breaker_observe_def checked(3,4) mx hs Let_def)
      show ?thesis
        using small tripped low S F True False unfolding obs
        by (auto simp: breaker_inv_def circuit_of_def circuit_step_def h1 Let_def)
    next
      case healthy: False
      then have "breaker_observe c status now st = st" using False by (auto simp: breaker_observe_def checked(3,4) Let_def)
      then show ?thesis using healthy False small tripped low
        by (auto simp: breaker_inv_def circuit_of_def circuit_step_def Let_def)
    qed
  qed
qed

text \<open>The responses that count for a route, and the routes of a run.\<close>

fun call_key :: "breaker_call \<Rightarrow> string" where
  "call_key (On_request rid now) = state_key rid"
| "call_key (On_response rid status now) = state_key rid"

fun responses_of :: "string \<Rightarrow> breaker_call list \<Rightarrow> (u16 \<times> nat) list" where
  "responses_of key [] = []"
| "responses_of key (On_request rid now # calls) = responses_of key calls"
| "responses_of key (On_response rid status now # calls) =
     (if state_key rid = key then [(status, now)] else []) @ responses_of key calls"

lemma responses_append: "responses_of key (xs @ ys) = responses_of key xs @ responses_of key ys"
  by (induction key xs rule: responses_of.induct) auto

abbreviation circuit_after :: "breaker_config \<Rightarrow> string \<Rightarrow> breaker_call list \<Rightarrow> circuit" where
  "circuit_after c key calls \<equiv> fold (circuit_step c) (responses_of key calls) circuit_new"

definition table_refines :: "breaker_config \<Rightarrow> nat \<Rightarrow> breaker_call list \<Rightarrow> breaker_state shard \<Rightarrow> bool" where
  "table_refines c n calls sh \<longleftrightarrow> distinct_keys (entries sh) \<and> keys (entries sh) \<subseteq> call_key ` set calls \<and>
     (\<forall>k. let st = unwrap_or (shard_get sh k) breaker_state_default
          in breaker_inv c n st \<and> circuit_of st = circuit_after c k calls)"

text \<open>Without eviction the entry of a key is its state, kept as it was.\<close>

lemma breaker_entry_private:
  assumes "distinct_keys (entries sh)" and "keys (entries sh) \<subseteq> K" and "key \<in> K" and "finite K" and "card K \<le> MAX_BREAKER_KEYS"
  shows "breaker_entry key sh = (unwrap_or (shard_get sh key) breaker_state_default,
    shard_insert key (unwrap_or (shard_get sh key) breaker_state_default) (shard_touch key sh))"
proof -
  have "contains_key sh key \<or> shard_len sh < MAX_BREAKER_KEYS"
  proof (cases "contains_key sh key")
    case False
    then have "keys (entries sh) \<subset> K" using assms(2,3) by (auto simp: contains_key_iff)
    then have "card (keys (entries sh)) < card K" by (rule psubset_card_mono [OF assms(4)])
    moreover have "card (keys (entries sh)) = shard_len sh"
      using distinct_card [OF assms(1)] by (simp add: shard_len_def)
    ultimately show ?thesis using assms(5) by simp
  qed simp
  then show ?thesis by (auto simp: breaker_entry_def Let_def)
qed

lemma table_step:
  assumes t: "table_refines c (Suc n) calls sh" and c: "breaker_config_check is_header_name c = Inr ()"
    and few: "card (call_key ` set (calls @ [call])) \<le> MAX_BREAKER_KEYS"
  shows "table_refines c n (calls @ [call]) (breaker_call_exec c call sh)"
proof -
  let ?key = "call_key call" and ?K = "call_key ` set (calls @ [call])"
  let ?st = "unwrap_or (shard_get sh ?key) breaker_state_default"
  have inv: "distinct_keys (entries sh)" "keys (entries sh) \<subseteq> call_key ` set calls"
    using t by (auto simp: table_refines_def)
  have st: "breaker_inv c (Suc n) (unwrap_or (shard_get sh k) breaker_state_default)"
    "circuit_of (unwrap_or (shard_get sh k) breaker_state_default) = circuit_after c k calls" for k
    using t unfolding table_refines_def Let_def by blast+
  have less: "breaker_inv c n st" if "breaker_inv c (Suc n) st" for st using that by (simp add: breaker_inv_def)
  have entry: "breaker_entry ?key sh = (?st, shard_insert ?key ?st (shard_touch ?key sh))"
    by (rule breaker_entry_private [OF inv(1), of ?K]) (use inv(2) few in auto)
  define new where "new = (case call of On_request _ _ \<Rightarrow> ?st | On_response _ status now \<Rightarrow> breaker_observe c status now ?st)"
  have exec: "\<exists>q. breaker_call_exec c call sh = \<lparr>entries = AList.update ?key new (entries sh), touch_order = q\<rparr>"
    using entry by (cases sh; cases call)
      (auto simp: new_def breaker_is_open_def breaker_response_filter_def shard_insert_def shard_touch_def Let_def)
  then obtain q where q: "breaker_call_exec c call sh = \<lparr>entries = AList.update ?key new (entries sh), touch_order = q\<rparr>" by blast
  have get: "shard_get (breaker_call_exec c call sh) k = (if k = ?key then Some new else shard_get sh k)" for k
    by (simp add: q shard_get_def)
  have new: "breaker_inv c n new \<and> circuit_of new = circuit_after c ?key (calls @ [call])"
  proof (cases call)
    case (On_request rid now)
    then show ?thesis using st [of ?key] less by (simp add: new_def responses_append)
  next
    case (On_response rid status now)
    then show ?thesis using breaker_observe_refines [OF st(1) [of ?key] c, of status now] st(2) [of ?key]
      by (simp add: new_def responses_append)
  qed
  have other: "circuit_after c k (calls @ [call]) = circuit_after c k calls" if "k \<noteq> ?key" for k
    using that by (cases call) (auto simp: responses_append)
  show ?thesis unfolding table_refines_def Let_def
  proof (intro conjI allI)
    show "distinct_keys (entries (breaker_call_exec c call sh))" using inv(1) by (simp add: q distinct_update)
    show "keys (entries (breaker_call_exec c call sh)) \<subseteq> call_key ` set (calls @ [call])"
      using inv(2) by (auto simp: q keys_update)
    fix k
    show "breaker_inv c n (unwrap_or (shard_get (breaker_call_exec c call sh) k) breaker_state_default)"
      using new st(1) less by (cases "k = ?key") (auto simp: get)
    show "circuit_of (unwrap_or (shard_get (breaker_call_exec c call sh) k) breaker_state_default) = circuit_after c k (calls @ [call])"
      using new st(2) other by (cases "k = ?key") (auto simp: get)
  qed
qed

lemma table_run:
  assumes c: "breaker_config_check is_header_name c = Inr ()"
    and "card (call_key ` set calls) \<le> MAX_BREAKER_KEYS" and "length calls + n < 2 ^ 32"
  shows "table_refines c n calls (fold (breaker_call_exec c) calls shard_default)"
  using assms(2,3)
proof (induction calls arbitrary: n rule: rev_induct)
  case Nil
  have "0 < unat (bc_failures c)" "0 < unat (bc_successes c)" using breaker_checked(1,2) [OF c] by (simp_all add: word_le_nat_alt)
  then show ?case using Nil.prems
    by (simp add: table_refines_def shard_default_def shard_get_def breaker_inv_def breaker_state_default_def circuit_of_def circuit_new_def)
next
  case (snoc call calls)
  have "card (call_key ` set calls) \<le> card (call_key ` set (calls @ [call]))" by (rule card_mono) auto
  then have "table_refines c (Suc n) calls (fold (breaker_call_exec c) calls shard_default)"
    using snoc.IH [of "Suc n"] snoc.prems by simp
  from table_step [OF this c snoc.prems(1)] show ?case by simp
qed

text \<open>C37: The breaker is an automaton per route. Under an accepted configuration, after any requests and
  responses of at most 1024 distinct routes (so that none is evicted) and fewer than \<open>2 ^ 32\<close> calls, the hook
  rejects a request of a route, with the configured response, exactly when the automaton blocks that has
  seen the responses of this route: responses with an unhealthy status count, each
  \<open>failures\<close>-th one since the last recovery trips it anew, \<open>successes\<close> responses with a healthy status while
  it is tripped, uninterrupted by an unhealthy one, reset it, and it blocks for 2, 4, 8 ... seconds after it
  tripped, one doubling per \<open>failures\<close> failures, up to the configured maximum. It is tripped exactly when
  the failures since the last recovery reached \<open>failures\<close>.\<close>

theorem breaker_refines_automaton:
  assumes "breaker_config_check is_header_name c = Inr ()" and "length calls < 2 ^ 32"
    and "card (insert (state_key rid) (call_key ` set calls)) \<le> MAX_BREAKER_KEYS"
    and "sh = fold (breaker_call_exec c) calls shard_default"
    and "circuit = circuit_after c (state_key rid) calls"
  shows "fst (breaker_request_filter from_u16 render c rid now sh) =
      (if circuit_blocks c now circuit then Reject (breaker_reject from_u16 render c) else Continue) \<and>
    (ci_tripped circuit \<noteq> None \<longleftrightarrow> unat (bc_failures c) \<le> ci_failures circuit)"
proof -
  let ?st = "unwrap_or (shard_get sh (state_key rid)) breaker_state_default"
  have "card (call_key ` set calls) \<le> card (insert (state_key rid) (call_key ` set calls))" by (rule card_mono) auto
  then have "table_refines c 0 calls sh" unfolding assms(4) using assms(2,3) by (intro table_run [OF assms(1)]) simp_all
  then have t: "distinct_keys (entries sh)" "keys (entries sh) \<subseteq> call_key ` set calls"
      "breaker_inv c 0 ?st" "circuit_of ?st = circuit"
    unfolding table_refines_def Let_def assms(5) by blast+
  have "breaker_entry (state_key rid) sh = (?st, shard_insert (state_key rid) ?st (shard_touch (state_key rid) sh))"
    by (rule breaker_entry_private [OF t(1), of "insert (state_key rid) (call_key ` set calls)"]) (use t(2) assms(3) in auto)
  then have verdict: "fst (breaker_request_filter from_u16 render c rid now sh) =
      (if state_open c now ?st then Reject (breaker_reject from_u16 render c) else Continue)"
    by (simp add: breaker_request_filter_def breaker_is_open_def)
  have "max (unat (bc_failures c)) 1 = unat (bc_failures c)" using breaker_checked(1) [OF assms(1)] by (simp add: word_le_nat_alt)
  then have "state_open c now ?st \<longleftrightarrow> circuit_blocks c now circuit"
    unfolding t(4) [symmetric] by (simp add: state_open_def circuit_blocks_def circuit_of_def breaker_secs_exact split: option.split)
  moreover have "ci_tripped circuit \<noteq> None \<longleftrightarrow> unat (bc_failures c) \<le> ci_failures circuit"
    using t(3) unfolding t(4) [symmetric] by (simp add: breaker_inv_def circuit_of_def)
  ultimately show ?thesis using verdict by simp
qed

text \<open>Two failures of route \<open>r1\<close> block it for two seconds; another route is served.\<close>

theorem breaker_refines_automaton_witness:
  "let calls = [On_request (Some ''r1'') 0, On_response (Some ''r1'') 500 1, On_response (Some ''r2'') 500 2, On_response (Some ''r1'') 500 3];
       sh = fold (breaker_call_exec example_breaker) calls shard_default;
       verdict = (\<lambda>rid now. fst (breaker_request_filter (\<lambda>code. Some (unat code)) id example_breaker rid now sh))
   in verdict (Some ''r1'') 2000000003 = Reject (breaker_reject (\<lambda>code. Some (unat code)) id example_breaker) \<and>
      verdict (Some ''r1'') 2000000004 = Continue \<and> verdict (Some ''r2'') 4 = Continue"
proof -
  let ?calls = "[On_request (Some ''r1'') 0, On_response (Some ''r1'') 500 1, On_response (Some ''r2'') 500 2, On_response (Some ''r1'') 500 3]"
  have check: "breaker_config_check (\<lambda>_. True) example_breaker = Inr ()" by code_simp
  have key: "state_key (Some ''r1'') = ''r1''" "state_key (Some ''r2'') = ''r2''" by (simp_all add: state_key_def)
  have len: "length ?calls < 2 ^ 32" by simp
  have few: "card (insert (state_key rid) (call_key ` set ?calls)) \<le> MAX_BREAKER_KEYS" for rid
    by (simp add: key card_insert_if MAX_BREAKER_KEYS_def)
  have circuit: "circuit_after example_breaker ''r1'' ?calls = \<lparr>ci_failures = 2, ci_recovered = 0, ci_tripped = Some 3\<rparr>"
    "circuit_after example_breaker ''r2'' ?calls = \<lparr>ci_failures = 1, ci_recovered = 0, ci_tripped = None\<rparr>"
    by (simp_all add: key circuit_step_def circuit_new_def example_breaker_def)
  have blocks: "circuit_blocks example_breaker 2000000003 \<lparr>ci_failures = 2, ci_recovered = 0, ci_tripped = Some 3\<rparr>"
    "\<not> circuit_blocks example_breaker 2000000004 \<lparr>ci_failures = 2, ci_recovered = 0, ci_tripped = Some 3\<rparr>"
    "\<not> circuit_blocks example_breaker 4 \<lparr>ci_failures = 1, ci_recovered = 0, ci_tripped = None\<rparr>"
    by (simp_all add: circuit_blocks_def example_breaker_def)
  note hook = breaker_refines_automaton [OF check len few refl refl, THEN conjunct1]
  show ?thesis unfolding Let_def hook key circuit using blocks by simp
qed

end
