(* ===== verification/Config_Model.thy ===== *)
theory Config_Model
  imports Prelude "HOL-Library.Word"
begin

text \<open>
  The configuration resources (\<open>src/config/resources.rs\<close>, \<open>src/config/node.rs\<close>), the JSON values
  they are stored as, and the error type of the proxy (\<open>src/core/error.rs\<close>).

  A validator returns the code of the first error. Field-level checks that the \<open>validator\<close> derive
  generates are written out; their order only decides which code is reported. Strings are byte
  lists; regular expressions and address parsers are recognisers over them (case folding of
  non-ASCII letters and non-ASCII digits are not modelled).
\<close>

section \<open>Errors\<close>

text \<open>Third-party errors inside a variant are the text they display.\<close>

datatype proxy_error =
    PE_Configuration string
  | PE_Network string
  | PE_DnsResolution string
  | PE_HealthCheck string
  | PE_RouteMatching string
  | PE_UpstreamSelection string
  | PE_Ssl string
  | PE_Plugin string
  | PE_Internal string
  | PE_Pingora string
  | PE_Validation string
  | PE_ValidationStructured string
  | PE_Serialization string
  | PE_Etcd string
  | PE_CasConflict string
  | PE_Auth string
  | PE_RateLimit string
  | PE_WithCause string string

fun proxy_error_display :: "proxy_error \<Rightarrow> string" where
  "proxy_error_display (PE_Configuration m) = ''Configuration error: '' @ m"
| "proxy_error_display (PE_Network m) = ''Network error: '' @ m"
| "proxy_error_display (PE_DnsResolution m) = ''DNS resolution failed: '' @ m"
| "proxy_error_display (PE_HealthCheck m) = ''Health check failed: '' @ m"
| "proxy_error_display (PE_RouteMatching m) = ''Route matching failed: '' @ m"
| "proxy_error_display (PE_UpstreamSelection m) = ''Upstream selection failed: '' @ m"
| "proxy_error_display (PE_Ssl m) = ''SSL/TLS error: '' @ m"
| "proxy_error_display (PE_Plugin m) = ''Plugin execution error: '' @ m"
| "proxy_error_display (PE_Internal m) = ''Internal error: '' @ m"
| "proxy_error_display (PE_Pingora m) = ''Pingora error: '' @ m"
| "proxy_error_display (PE_Validation m) = ''Validation error: '' @ m"
| "proxy_error_display (PE_ValidationStructured m) = ''Validation error: '' @ m"
| "proxy_error_display (PE_Serialization m) = ''Serialization error: '' @ m"
| "proxy_error_display (PE_Etcd m) = ''Etcd error: '' @ m"
| "proxy_error_display (PE_CasConflict m) = ''CAS conflict: '' @ m"
| "proxy_error_display (PE_Auth m) = ''Authentication error: '' @ m"
| "proxy_error_display (PE_RateLimit m) = ''Rate limit error: '' @ m"
| "proxy_error_display (PE_WithCause message cause) = message @ '': '' @ cause"

datatype pingora_type =
  InternalError | ConnectNoRoute | ConnectError | TLSHandshakeFailure | HTTPStatus nat

fun pingora_error_type :: "proxy_error \<Rightarrow> pingora_type" where
  "pingora_error_type (PE_DnsResolution _) = ConnectNoRoute"
| "pingora_error_type (PE_Ssl _) = TLSHandshakeFailure"
| "pingora_error_type (PE_Auth _) = HTTPStatus 401"
| "pingora_error_type (PE_RateLimit _) = HTTPStatus 429"
| "pingora_error_type _ = InternalError"

definition serialization_error :: "string \<Rightarrow> string \<Rightarrow> proxy_error" where
  "serialization_error message cause = PE_WithCause (''Serialization error: '' @ message) cause"

section \<open>JSON values\<close>

text \<open>Numbers are their canonical rendering; objects keep the order of their entries.\<close>

datatype json =
    JNull
  | JBool bool
  | JNumber string
  | JString string
  | JArray "json list"
  | JObject "(string \<times> json) list"

fun json_get :: "string \<Rightarrow> json \<Rightarrow> json option" where
  "json_get k (JObject fields) = map_of fields k"
| "json_get k _ = None"

fun json_as_str :: "json \<Rightarrow> string option" where
  "json_as_str (JString s) = Some s"
| "json_as_str _ = None"

section \<open>Addresses\<close>

definition is_digit :: "char \<Rightarrow> bool" where
  "is_digit c \<longleftrightarrow> CHR ''0'' \<le> c \<and> c \<le> CHR ''9''"

definition digit_val :: "char \<Rightarrow> nat" where
  "digit_val c = of_char c - 48"

definition hex_val :: "char \<Rightarrow> nat option" where
  "hex_val c =
     (if is_digit c then Some (digit_val c)
      else if CHR ''a'' \<le> c \<and> c \<le> CHR ''f'' then Some (of_char c - 87)
      else if CHR ''A'' \<le> c \<and> c \<le> CHR ''F'' then Some (of_char c - 55)
      else None)"

text \<open>\<open>str::parse\<close> of an unsigned decimal number (a leading plus sign is accepted).\<close>

fun parse_digits :: "nat \<Rightarrow> string \<Rightarrow> nat option" where
  "parse_digits acc [] = Some acc"
| "parse_digits acc (c # cs) = (if is_digit c then parse_digits (acc * 10 + digit_val c) cs else None)"

definition parse_u16 :: "string \<Rightarrow> 16 word option" where
  "parse_u16 s =
     (let ds = (case s of c # cs \<Rightarrow> if c = CHR ''+'' then cs else s | [] \<Rightarrow> s)
      in if ds = [] then None
         else case parse_digits 0 ds of
                Some n \<Rightarrow> if n < 65536 then Some (of_nat n) else None
              | None \<Rightarrow> None)"

fun split_on :: "char \<Rightarrow> string \<Rightarrow> string list" where
  "split_on sep [] = [[]]"
| "split_on sep (c # cs) =
     (if c = sep then [] # split_on sep cs
      else case split_on sep cs of
             [] \<Rightarrow> [[c]]
           | p # ps \<Rightarrow> (c # p) # ps)"

text \<open>The standard library's address parsers: an octet has one to three digits, no leading zero and
  fits eight bits; an IPv6 group has one to four hexadecimal digits.\<close>

definition ipv4_octet :: "string \<Rightarrow> bool" where
  "ipv4_octet s \<longleftrightarrow> s \<noteq> [] \<and> length s \<le> 3 \<and> list_all is_digit s \<and>
     (length s = 1 \<or> hd s \<noteq> CHR ''0'') \<and>
     (case parse_digits 0 s of Some n \<Rightarrow> n < 256 | None \<Rightarrow> False)"

definition is_ipv4 :: "string \<Rightarrow> bool" where
  "is_ipv4 s \<longleftrightarrow> length (split_on CHR ''.'' s) = 4 \<and> list_all ipv4_octet (split_on CHR ''.'' s)"

definition ipv6_group :: "string \<Rightarrow> bool" where
  "ipv6_group s \<longleftrightarrow> s \<noteq> [] \<and> length s \<le> 4 \<and> list_all (\<lambda>c. hex_val c \<noteq> None) s"

text \<open>The number of 16-bit groups of a colon-separated run, whose last part may be dotted.\<close>

fun ipv6_groups :: "string list \<Rightarrow> nat option" where
  "ipv6_groups [] = Some 0"
| "ipv6_groups [g] = (if ipv6_group g then Some 1 else if is_ipv4 g then Some 2 else None)"
| "ipv6_groups (g # gs) =
     (if ipv6_group g then map_option Suc (ipv6_groups gs) else None)"

fun find_double_colon :: "string \<Rightarrow> string \<Rightarrow> (string \<times> string) option" where
  "find_double_colon before (c # d # cs) =
     (if c = CHR '':'' \<and> d = CHR '':'' then Some (rev before, cs)
      else find_double_colon (c # before) (d # cs))"
| "find_double_colon before _ = None"

definition run_groups :: "string \<Rightarrow> nat option" where
  "run_groups s = (if s = [] then Some 0 else ipv6_groups (split_on CHR '':'' s))"

text \<open>With a double colon, the run before it has plain groups only, and the two runs together have
  at most seven groups.\<close>

definition is_ipv6 :: "string \<Rightarrow> bool" where
  "is_ipv6 s =
     (case find_double_colon [] s of
        None \<Rightarrow> run_groups s = Some 8
      | Some (before, after) \<Rightarrow>
          (if before = [] then True else list_all ipv6_group (split_on CHR '':'' before)) \<and>
          (case (run_groups before, run_groups after) of
             (Some a, Some b) \<Rightarrow> a + b \<le> 7
           | _ \<Rightarrow> False))"

section \<open>Nodes\<close>

definition is_ipv4_shaped :: "string \<Rightarrow> bool" where
  "is_ipv4_shaped s \<longleftrightarrow> length (split_on CHR ''.'' s) = 4 \<and>
     list_all (\<lambda>p. p \<noteq> [] \<and> list_all is_digit p) (split_on CHR ''.'' s)"

definition fqdn_label :: "string \<Rightarrow> bool" where
  "fqdn_label s \<longleftrightarrow> s \<noteq> [] \<and> list_all (\<lambda>c. is_ascii_alphanumeric c \<or> c = CHR ''-'') s \<and>
     hd s \<noteq> CHR ''-'' \<and> last s \<noteq> CHR ''-''"

definition host_fqdn_match :: "string \<Rightarrow> bool" where
  "host_fqdn_match s \<longleftrightarrow> list_all fqdn_label (split_on CHR ''.'' s)"

definition validate_node_host :: "string \<Rightarrow> string + unit" where
  "validate_node_host host =
     (if host = [] then Inl ''invalid_host''
      else if hd host = CHR ''['' \<and> \<not> (last host = CHR '']'' \<and> length host > 2)
      then Inl ''invalid_host''
      else
        let bare = (if hd host = CHR ''['' then butlast (tl host) else host)
        in if is_ipv4 bare \<or> is_ipv6 bare then Inr ()
           else if is_ipv4_shaped bare then Inl ''invalid_host''
           else if host_fqdn_match host then Inr ()
           else Inl ''invalid_host'')"

definition strip_ipv6_brackets :: "string \<Rightarrow> string" where
  "strip_ipv6_brackets host =
     (if host \<noteq> [] \<and> hd host = CHR ''['' \<and> last host = CHR '']'' \<and> length host > 2
      then butlast (tl host) else host)"

text \<open>\<open>HOST_PORT_REGEX\<close>: the bracketed alternative with the shortest host first, then the other;
  the result is the host and the digits of the port, if any.\<close>

definition port_suffix :: "string \<Rightarrow> string option option" where
  "port_suffix s =
     (case s of
        [] \<Rightarrow> Some None
      | c # cs \<Rightarrow> if c = CHR '':'' \<and> cs \<noteq> [] \<and> list_all is_digit cs then Some (Some cs) else None)"

fun bracket_host :: "string \<Rightarrow> string \<Rightarrow> (string \<times> string option) option" where
  "bracket_host acc [] = None"
| "bracket_host acc (c # cs) =
     (if c = CHR '']'' \<and> acc \<noteq> [] \<and> port_suffix cs \<noteq> None
      then Some (rev acc, the (port_suffix cs))
      else bracket_host (c # acc) cs)"

definition plain_host :: "string \<Rightarrow> (string \<times> string option) option" where
  "plain_host s =
     (let host = takeWhile (\<lambda>c. c \<noteq> CHR '':'') s; rest = dropWhile (\<lambda>c. c \<noteq> CHR '':'') s
      in if host = [] then None
         else case port_suffix rest of None \<Rightarrow> None | Some p \<Rightarrow> Some (host, p))"

definition host_port_captures :: "string \<Rightarrow> (string \<times> string option) option" where
  "host_port_captures s =
     (case (case s of c # cs \<Rightarrow> if c = CHR ''['' then bracket_host [] cs else None | [] \<Rightarrow> None) of
        Some r \<Rightarrow> Some r
      | None \<Rightarrow> plain_host s)"

definition split_host_port :: "string \<Rightarrow> string + string \<times> 16 word option" where
  "split_host_port addr =
     (case host_port_captures addr of
        None \<Rightarrow> Inl ''invalid_address_format''
      | Some (host, p) \<Rightarrow>
          sum_bind (validate_node_host host) (\<lambda>_.
          case p of
            Some digits \<Rightarrow>
              (case parse_u16 digits of
                 None \<Rightarrow> Inl ''invalid_port''
               | Some port \<Rightarrow> if port = 0 then Inl ''invalid_port'' else Inr (host, Some port))
          | None \<Rightarrow> Inr (host, None)))"

datatype scheme_kind = HTTP | HTTPS | GRPC | GRPCS

record node =
  nd_host :: string
  nd_port :: "16 word option"
  nd_weight :: "32 word"
  nd_priority :: int

definition node_is_enabled :: "node \<Rightarrow> bool" where
  "node_is_enabled n \<longleftrightarrow> nd_weight n > 0"

definition bare_host :: "node \<Rightarrow> string" where
  "bare_host n = strip_ipv6_brackets (nd_host n)"

definition write_addr :: "string \<Rightarrow> 16 word option \<Rightarrow> string" where
  "write_addr host port =
     (if CHR '':'' \<in> set host then ''['' @ host @ '']'' else host) @
     (case port of Some p \<Rightarrow> CHR '':'' # nat_to_string (unat p) | None \<Rightarrow> [])"

definition addr_key :: "node \<Rightarrow> string" where
  "addr_key n = write_addr (bare_host n) (nd_port n)"

definition effective_port :: "scheme_kind \<Rightarrow> node \<Rightarrow> 16 word" where
  "effective_port scheme n =
     unwrap_or (nd_port n)
       (case scheme of HTTPS \<Rightarrow> 443 | GRPCS \<Rightarrow> 443 | HTTP \<Rightarrow> 80 | GRPC \<Rightarrow> 80)"

definition effective_addr_key :: "scheme_kind \<Rightarrow> node \<Rightarrow> string" where
  "effective_addr_key scheme n = write_addr (bare_host n) (Some (effective_port scheme n))"

definition matches_addr :: "node \<Rightarrow> string \<Rightarrow> bool" where
  "matches_addr n addr =
     (case split_host_port addr of
        Inr (host, port) \<Rightarrow> bare_host n = host \<and> nd_port n = port
      | Inl _ \<Rightarrow> False)"

definition node_from_str :: "string \<Rightarrow> string + node" where
  "node_from_str addr =
     sum_bind (split_host_port addr) (\<lambda>(host, port).
     Inr \<lparr>nd_host = host, nd_port = port, nd_weight = 1, nd_priority = 0\<rparr>)"

definition validate_nodes :: "node list \<Rightarrow> string + unit" where
  "validate_nodes ns =
     (if ns = [] then Inl ''nodes_empty''
      else if \<not> list_ex node_is_enabled ns then Inl ''nodes_all_disabled''
      else if list_ex (\<lambda>n. \<not> is_ok (validate_node_host (nd_host n))) ns then Inl ''invalid_host''
      else Inr ())"

section \<open>Resources\<close>

type_synonym plugin_map = "(string \<times> json) list"

record timeout_conf =
  to_connect :: "64 word"
  to_send :: "64 word"
  to_read :: "64 word"

record upstream_tls =
  ut_client_cert :: string
  ut_client_key :: string

record passive_healthy =
  ph_http_statuses :: "32 word list"
  ph_successes :: "32 word"

record passive_unhealthy =
  pu_http_statuses :: "32 word list"
  pu_tcp_failures :: "32 word"
  pu_timeouts :: "32 word"
  pu_http_failures :: "32 word"

record passive_check =
  pc_healthy :: passive_healthy
  pc_unhealthy :: passive_unhealthy

datatype active_check_type = CheckTCP | CheckHTTP | CheckHTTPS

record active_health =
  ah_interval :: "32 word"
  ah_http_statuses :: "32 word list"
  ah_successes :: "32 word"

record active_unhealthy =
  au_http_failures :: "32 word"
  au_tcp_failures :: "32 word"

record active_check =
  ac_type :: active_check_type
  ac_timeout :: "32 word"
  ac_http_path :: string
  ac_host :: "string option"
  ac_port :: "32 word option"
  ac_https_verify_certificate :: bool
  ac_req_headers :: "string list"
  ac_healthy :: "active_health option"
  ac_unhealthy :: "active_unhealthy option"

record health_check =
  hc_active :: "active_check option"
  hc_passive :: "passive_check option"

datatype selection_type = RoundRobin | Random | Fnv | Ketama
datatype upstream_hash_on = VARS | HEAD | COOKIE
datatype upstream_pass_host = PASS | REWRITE | NODE

record upstream =
  up_id :: string
  up_retries :: "32 word option"
  up_retry_timeout :: "64 word option"
  up_timeout :: "timeout_conf option"
  up_nodes :: "node list"
  up_type :: selection_type
  up_checks :: "health_check option"
  up_hash_on :: upstream_hash_on
  up_key :: string
  up_scheme :: scheme_kind
  up_pass_host :: upstream_pass_host
  up_upstream_host :: "string option"
  up_tls :: "upstream_tls option"
  up_keepalive_idle_ms :: "64 word option"

record route =
  rt_id :: string
  rt_name :: "string option"
  rt_uri :: "string option"
  rt_uris :: "string list"
  rt_methods :: "string list"
  rt_host :: "string option"
  rt_hosts :: "string list"
  rt_priority :: "32 word"
  rt_plugins :: plugin_map
  rt_upstream :: "upstream option"
  rt_upstream_id :: "string option"
  rt_service_id :: "string option"
  rt_timeout :: "timeout_conf option"
  rt_enable_websocket :: bool

record service =
  svc_id :: string
  svc_name :: "string option"
  svc_plugins :: plugin_map
  svc_upstream :: "upstream option"
  svc_upstream_id :: "string option"
  svc_hosts :: "string list"

record global_rule =
  gr_id :: string
  gr_plugins :: plugin_map

record ssl =
  ssl_id :: string
  ssl_cert :: string
  ssl_key :: string
  ssl_snis :: "string list"

section \<open>Validators\<close>

definition check :: "bool \<Rightarrow> string \<Rightarrow> string + unit" where
  "check b code = (if b then Inr () else Inl code)"

lemma check_Inr [simp]: "check b code = Inr u \<longleftrightarrow> b"
  by (simp add: check_def)

definition opt_check :: "('a \<Rightarrow> string + unit) \<Rightarrow> 'a option \<Rightarrow> string + unit" where
  "opt_check f x = (case x of None \<Rightarrow> Inr () | Some a \<Rightarrow> f a)"

lemma opt_check_simps [simp]: "opt_check f None = Inr ()" "opt_check f (Some a) = f a"
  by (simp_all add: opt_check_def)

fun all_checks :: "(string + unit) list \<Rightarrow> string + unit" where
  "all_checks [] = Inr ()"
| "all_checks (c # cs) = sum_bind c (\<lambda>_. all_checks cs)"

lemma all_checks_Inr [simp]: "all_checks cs = Inr u \<longleftrightarrow> (\<forall>c \<in> set cs. c = Inr ())"
  by (induction cs) (auto simp: sum_bind_def split: sum.splits)

declare all_checks.simps [simp del]

definition validate_timeout :: "timeout_conf \<Rightarrow> string + unit" where
  "validate_timeout t = all_checks
     [check (1 \<le> to_connect t \<and> to_connect t \<le> 86400) ''connect'',
      check (1 \<le> to_send t \<and> to_send t \<le> 86400) ''send'',
      check (1 \<le> to_read t \<and> to_read t \<le> 86400) ''read'']"

definition validate_upstream_tls :: "upstream_tls \<Rightarrow> string + unit" where
  "validate_upstream_tls t = all_checks
     [check (ut_client_cert t \<noteq> []) ''client_cert'', check (ut_client_key t \<noteq> []) ''client_key'']"

definition validate_passive_statuses :: "32 word list \<Rightarrow> string + unit" where
  "validate_passive_statuses statuses =
     (if statuses = [] \<or> list_ex (\<lambda>s. \<not> (200 \<le> s \<and> s \<le> 599)) statuses \<or> \<not> distinct statuses
      then Inl ''invalid_passive_http_statuses'' else Inr ())"

definition validate_passive_check :: "passive_check \<Rightarrow> string + unit" where
  "validate_passive_check p =
     sum_bind (validate_passive_statuses (ph_http_statuses (pc_healthy p))) (\<lambda>_.
     sum_bind (validate_passive_statuses (pu_http_statuses (pc_unhealthy p))) (\<lambda>_.
     if ph_successes (pc_healthy p) > 254 \<or> pu_tcp_failures (pc_unhealthy p) > 254 \<or>
        pu_timeouts (pc_unhealthy p) > 254 \<or> pu_http_failures (pc_unhealthy p) > 254
     then Inl ''invalid_passive_threshold'' else Inr ()))"

definition validate_active_health :: "active_health \<Rightarrow> string + unit" where
  "validate_active_health h = all_checks
     [check (1 \<le> ah_interval h) ''interval'', check (1 \<le> ah_successes h) ''successes'']"

definition validate_active_unhealthy :: "active_unhealthy \<Rightarrow> string + unit" where
  "validate_active_unhealthy u = all_checks
     [check (1 \<le> au_http_failures u) ''http_failures'',
      check (1 \<le> au_tcp_failures u) ''tcp_failures'']"

definition validate_active_check :: "active_check \<Rightarrow> string + unit" where
  "validate_active_check a = all_checks
     [check (1 \<le> ac_timeout a) ''timeout'',
      opt_check (\<lambda>p. check (1 \<le> p \<and> p \<le> 65535) ''port'') (ac_port a),
      opt_check validate_active_health (ac_healthy a),
      opt_check validate_active_unhealthy (ac_unhealthy a)]"

definition validate_health_check :: "health_check \<Rightarrow> string + unit" where
  "validate_health_check h = all_checks
     [opt_check validate_active_check (hc_active h),
      opt_check validate_passive_check (hc_passive h),
      check (hc_active h \<noteq> None \<or> hc_passive h \<noteq> None) ''health_check_requires_active_or_passive'']"

fun unique_addresses :: "scheme_kind \<Rightarrow> string list \<Rightarrow> node list \<Rightarrow> string + unit" where
  "unique_addresses scheme seen [] = Inr ()"
| "unique_addresses scheme seen (n # ns) =
     (let addr = effective_addr_key scheme n
      in if addr \<in> set seen then Inl ''nodes_duplicate_address''
         else unique_addresses scheme (addr # seen) ns)"

definition validate_scheme_dependent_fields :: "upstream \<Rightarrow> string + unit" where
  "validate_scheme_dependent_fields u =
     (if up_pass_host u = REWRITE \<and> up_upstream_host u = None
      then Inl ''upstream_host_required_for_rewrite''
      else unique_addresses (up_scheme u) [] (filter node_is_enabled (up_nodes u)))"

definition validate_upstream :: "upstream \<Rightarrow> string + unit" where
  "validate_upstream u = all_checks
     [opt_check validate_timeout (up_timeout u),
      validate_nodes (up_nodes u),
      opt_check validate_health_check (up_checks u),
      opt_check validate_upstream_tls (up_tls u),
      validate_scheme_dependent_fields u]"

definition route_schema :: "route \<Rightarrow> string + unit" where
  "route_schema r =
     (if rt_uri r = None \<and> rt_uris r = [] then Inl ''uri_or_uris_required''
      else if rt_uri r \<noteq> None \<and> rt_uris r \<noteq> [] then Inl ''uri_and_uris_mutually_exclusive''
      else if rt_host r \<noteq> None \<and> rt_hosts r \<noteq> [] then Inl ''host_and_hosts_mutually_exclusive''
      else if rt_upstream_id r = None \<and> rt_service_id r = None \<and> rt_upstream r = None
      then Inl ''upstream_or_service_required''
      else if rt_upstream r \<noteq> None \<and> rt_upstream_id r \<noteq> None
      then Inl ''upstream_and_upstream_id_mutually_exclusive''
      else Inr ())"

definition validate_route :: "route \<Rightarrow> string + unit" where
  "validate_route r = all_checks
     [opt_check validate_upstream (rt_upstream r), opt_check validate_timeout (rt_timeout r),
      route_schema r]"

definition get_hosts :: "route \<Rightarrow> string list" where
  "get_hosts r = (case rt_host r of Some h \<Rightarrow> [h] | None \<Rightarrow> rt_hosts r)"

definition get_uris :: "route \<Rightarrow> string list" where
  "get_uris r = (case rt_uri r of Some u \<Rightarrow> [u] | None \<Rightarrow> rt_uris r)"

text \<open>The inline upstream of a service carries no \<open>validate(nested)\<close> attribute.\<close>

definition validate_service :: "service \<Rightarrow> string + unit" where
  "validate_service s =
     (if svc_upstream_id s = None \<and> svc_upstream s = None then Inl ''upstream_required''
      else if svc_upstream s \<noteq> None \<and> svc_upstream_id s \<noteq> None
      then Inl ''upstream_and_upstream_id_mutually_exclusive''
      else Inr ())"

definition validate_global_rule :: "global_rule \<Rightarrow> string + unit" where
  "validate_global_rule g = Inr ()"

definition validate_ssl :: "ssl \<Rightarrow> string + unit" where
  "validate_ssl s = check (ssl_snis s \<noteq> []) ''snis''"

section \<open>Properties\<close>

lemma unique_addresses_distinct:
  "unique_addresses scheme seen ns = Inr () \<longleftrightarrow>
    distinct (map (effective_addr_key scheme) ns) \<and>
    set (map (effective_addr_key scheme) ns) \<inter> set seen = {}"
  by (induction scheme seen ns rule: unique_addresses.induct) (auto simp: Let_def)

text \<open>A validated upstream can be represented at runtime: it has an enabled node, every host is
  well formed, and no two enabled nodes dial the same effective address (the scheme's default port
  included), whatever the order of the nodes.\<close>

theorem validate_upstream_nodes:
  assumes "validate_upstream u = Inr ()"
  shows "(\<exists>n \<in> set (up_nodes u). node_is_enabled n) \<and>
    list_all (\<lambda>n. is_ok (validate_node_host (nd_host n))) (up_nodes u) \<and>
    distinct (map (effective_addr_key (up_scheme u)) (filter node_is_enabled (up_nodes u)))"
  using assms
  by (auto simp: validate_upstream_def validate_nodes_def validate_scheme_dependent_fields_def
      unique_addresses_distinct list_ex_iff list_all_iff split: if_splits)

definition example_upstream :: upstream where
  "example_upstream = \<lparr>up_id = ''u1'', up_retries = None, up_retry_timeout = None, up_timeout = None,
    up_nodes = [\<lparr>nd_host = ''a.b'', nd_port = None, nd_weight = 1, nd_priority = 0\<rparr>,
                \<lparr>nd_host = ''a.b'', nd_port = Some 80, nd_weight = 0, nd_priority = 0\<rparr>],
    up_type = RoundRobin, up_checks = None, up_hash_on = VARS, up_key = ''uri'', up_scheme = HTTP,
    up_pass_host = PASS, up_upstream_host = None, up_tls = None, up_keepalive_idle_ms = None\<rparr>"

theorem validate_upstream_nodes_witness:
  "(\<exists>n \<in> set (up_nodes example_upstream). node_is_enabled n) \<and>
    list_all (\<lambda>n. is_ok (validate_node_host (nd_host n))) (up_nodes example_upstream) \<and>
    distinct (map (effective_addr_key HTTP) (filter node_is_enabled (up_nodes example_upstream)))"
proof -
  have "validate_upstream example_upstream = Inr ()" by code_simp
  moreover have "up_scheme example_upstream = HTTP" by (simp add: example_upstream_def)
  ultimately show ?thesis using validate_upstream_nodes [of example_upstream] by simp
qed

text \<open>the validator of a service does not reach its inline upstream: an inline upstream with no
  nodes at all, which the validators of routes and named upstreams reject, is accepted.\<close>

theorem service_accepts_invalid_inline_upstream:
  "validate_service \<lparr>svc_id = i, svc_name = n, svc_plugins = ps,
      svc_upstream = Some (example_upstream\<lparr>up_nodes := []\<rparr>), svc_upstream_id = None,
      svc_hosts = hs\<rparr> = Inr () \<and>
   validate_upstream (example_upstream\<lparr>up_nodes := []\<rparr>) \<noteq> Inr ()"
  by (simp add: validate_service_def validate_upstream_def validate_nodes_def)

end
