(* ===== verification/Graph_Store.thy ===== *)
theory Graph_Store
  imports Config_Model
begin

text \<open>
  The storage vocabulary of the configuration graph and the store seam
  (\<open>src/proxy/graph_mutation/store.rs\<close>): resource kinds and keys, stored graphs with their
  generation guard, guarded compare-and-swap, and the in-memory store.

  The locale \<open>graph_store\<close> is the trait \<open>GraphStore\<close> as its clients see it: a snapshot and a
  compare-and-swap whose guard moves strictly forward. Inside it: a guard value identifies one
  graph, no update is lost, and clients that validate the graph they plan against keep every stored
  graph valid. It is interpreted on \<open>InMemoryGraphStore\<close>.

  Revisions (\<open>i64\<close>) are integers; bytes are strings.
\<close>

section \<open>Kinds and keys\<close>

datatype resource_kind = KUpstream | KService | KGlobalRule | KRoute | KSsl

fun rk_as_str :: "resource_kind \<Rightarrow> string" where
  "rk_as_str KUpstream = ''upstreams''"
| "rk_as_str KService = ''services''"
| "rk_as_str KGlobalRule = ''global_rules''"
| "rk_as_str KRoute = ''routes''"
| "rk_as_str KSsl = ''ssls''"

datatype store_error =
    Unavailable proxy_error
  | InvalidResponse string
  | UnsupportedProtocol
  | Conflict

datatype secret_operation = OpEncrypt | OpDecrypt | OpRedact | OpRestore

record resource_key =
  rk_kind :: resource_kind
  rk_id :: string

datatype graph_error =
    InvalidKey string string
  | InvalidResource resource_key proxy_error
  | InvalidCandidate proxy_error
  | ReferentialConflict proxy_error
  | NotFound resource_key
  | CasConflict
  | StaleRevision int int
  | Secret resource_key secret_operation proxy_error
  | WorkerStopped
  | Store store_error

definition rk_parse :: "string \<Rightarrow> graph_error + resource_kind" where
  "rk_parse v =
     (if v = ''upstreams'' then Inr KUpstream
      else if v = ''services'' then Inr KService
      else if v = ''global_rules'' then Inr KGlobalRule
      else if v = ''routes'' then Inr KRoute
      else if v = ''ssls'' then Inr KSsl
      else Inl (InvalidKey v ''unknown resource kind''))"

definition quoted :: "string \<Rightarrow> string" where
  "quoted s = CHR 0x27 # s @ [CHR 0x27]"

definition resource_key_new :: "resource_kind \<Rightarrow> string \<Rightarrow> graph_error + resource_key" where
  "resource_key_new kind i =
     (if i = [] \<or> CHR ''/'' \<in> set i
      then Inl (InvalidKey (rk_as_str kind @ ''/'' @ i)
                  (''resource id must be non-empty and must not contain '' @ quoted ''/''))
      else Inr \<lparr>rk_kind = kind, rk_id = i\<rparr>)"

definition logical_path :: "resource_key \<Rightarrow> string" where
  "logical_path key = rk_as_str (rk_kind key) @ ''/'' @ rk_id key"

definition secret_operation_debug :: "secret_operation \<Rightarrow> string" where
  "secret_operation_debug x = (case x of OpEncrypt \<Rightarrow> ''Encrypt'' | OpDecrypt \<Rightarrow> ''Decrypt''
     | OpRedact \<Rightarrow> ''Redact'' | OpRestore \<Rightarrow> ''Restore'')"

text \<open>\<open>debug\<close> is the derived \<open>Debug\<close> of a store error.\<close>

fun graph_error_display :: "(store_error \<Rightarrow> string) \<Rightarrow> graph_error \<Rightarrow> string" where
  "graph_error_display debug (InvalidKey key reason) = ''invalid key '' @ quoted key @ '': '' @ reason"
| "graph_error_display debug (InvalidResource key src) =
     ''invalid resource '' @ quoted (logical_path key) @ '': '' @ proxy_error_display src"
| "graph_error_display debug (InvalidCandidate src) =
     ''invalid candidate graph: '' @ proxy_error_display src"
| "graph_error_display debug (ReferentialConflict src) =
     ''candidate graph has conflicting references: '' @ proxy_error_display src"
| "graph_error_display debug (NotFound key) = ''resource '' @ quoted (logical_path key) @ '' not found''"
| "graph_error_display debug CasConflict = ''configuration graph changed concurrently''"
| "graph_error_display debug (StaleRevision incoming published) =
     ''rejecting stale watch revision '' @ int_to_string incoming @ '' < published revision '' @
     int_to_string published"
| "graph_error_display debug (Secret key operation src) =
     ''secret '' @ secret_operation_debug operation @ '' failed for '' @ quoted (logical_path key) @ '': '' @
     proxy_error_display src"
| "graph_error_display debug WorkerStopped = ''control-plane preparation worker stopped''"
| "graph_error_display debug (Store err) = ''configuration store error: '' @ debug err"

section \<open>Stored graphs\<close>

record stored_resource =
  sr_value :: string
  sr_create_revision :: int
  sr_mod_revision :: int

record stored_graph =
  sg_resources :: "(resource_key \<times> stored_resource) list"
  sg_guard :: "int option"
  sg_revision :: int

definition stored_graph_default :: stored_graph where
  "stored_graph_default = \<lparr>sg_resources = [], sg_guard = None, sg_revision = 0\<rparr>"

datatype stored_change = ChPut resource_key stored_resource | ChDelete resource_key

record watch_batch =
  wb_revision :: int
  wb_changes :: "stored_change list"

datatype stored_mutation = MPut resource_key string | MDelete resource_key

record graph_commit =
  gc_mutation :: stored_mutation
  gc_expected_target :: "int option"
  gc_expected_guard :: "int option"

fun mutation_key :: "stored_mutation \<Rightarrow> resource_key" where
  "mutation_key (MPut k _) = k"
| "mutation_key (MDelete k) = k"

text \<open>What a reader of values sees of a graph, and the effect of a mutation on it.\<close>

definition graph_values :: "stored_graph \<Rightarrow> resource_key \<Rightarrow> string option" where
  "graph_values g k = map_option sr_value (map_of (sg_resources g) k)"

fun mutate_values :: "stored_mutation \<Rightarrow> (resource_key \<Rightarrow> string option) \<Rightarrow> resource_key \<Rightarrow> string option" where
  "mutate_values (MPut k v) m = m(k \<mapsto> v)"
| "mutate_values (MDelete k) m = m(k := None)"

section \<open>The in-memory store\<close>

record in_memory_state =
  im_graph :: stored_graph
  im_next_revision :: int

definition in_memory_new :: in_memory_state where
  "in_memory_new = \<lparr>im_graph = stored_graph_default, im_next_revision = 1\<rparr>"

definition im_get_exact :: "resource_key \<Rightarrow> in_memory_state \<Rightarrow> stored_resource option" where
  "im_get_exact key s = map_of (sg_resources (im_graph s)) key"

definition im_list_kind :: "resource_kind \<Rightarrow> in_memory_state \<Rightarrow> (resource_key \<times> stored_resource) list" where
  "im_list_kind kind s = filter (\<lambda>(key, _). rk_kind key = kind) (sg_resources (im_graph s))"

definition im_snapshot :: "in_memory_state \<Rightarrow> stored_graph" where
  "im_snapshot s = im_graph s"

definition target_ok :: "graph_commit \<Rightarrow> stored_graph \<Rightarrow> bool" where
  "target_ok c g =
     (let cur = map_of (sg_resources g) (mutation_key (gc_mutation c))
      in case gc_expected_target c of
           None \<Rightarrow> cur = None
         | Some expected \<Rightarrow> map_option sr_mod_revision cur = Some expected)"

definition guard_ok :: "graph_commit \<Rightarrow> stored_graph \<Rightarrow> bool" where
  "guard_ok c g = (sg_guard g = gc_expected_guard c)"

definition apply_mutation :: "stored_mutation \<Rightarrow> int \<Rightarrow> (resource_key \<times> stored_resource) list \<Rightarrow>
    (resource_key \<times> stored_resource) list" where
  "apply_mutation m revision resources =
     (case m of
        MPut key v \<Rightarrow>
          let create = (case map_of resources key of Some r \<Rightarrow> sr_create_revision r | None \<Rightarrow> revision)
          in AList.update key \<lparr>sr_value = v, sr_create_revision = create,
               sr_mod_revision = revision\<rparr> resources
      | MDelete key \<Rightarrow> AList.delete key resources)"

definition im_compare_and_swap ::
  "graph_commit \<Rightarrow> in_memory_state \<Rightarrow> (store_error + int) \<times> in_memory_state" where
  "im_compare_and_swap c s =
     (let g = im_graph s
      in if \<not> target_ok c g \<or> \<not> guard_ok c g then (Inl Conflict, s)
         else
           let revision = im_next_revision s
           in (Inr revision,
               s\<lparr>im_next_revision := revision + 1,
                 im_graph := \<lparr>sg_resources = apply_mutation (gc_mutation c) revision (sg_resources g),
                   sg_guard = Some revision, sg_revision = revision\<rparr>\<rparr>))"

section \<open>The store as its clients see it\<close>

locale graph_store =
  fixes snap :: "'s \<Rightarrow> stored_graph"
    and cas :: "graph_commit \<Rightarrow> 's \<Rightarrow> (store_error + int) \<times> 's"
    and inv :: "'s \<Rightarrow> bool"
  assumes cas_inv: "inv s \<Longrightarrow> inv (snd (cas c s))"
    and cas_error: "fst (cas c s) = Inl e \<Longrightarrow> snd (cas c s) = s"
    and cas_checks: "fst (cas c s) = Inr r \<Longrightarrow> target_ok c (snap s) \<and> guard_ok c (snap s)"
    and cas_effect: "fst (cas c s) = Inr r \<Longrightarrow>
      graph_values (snap (snd (cas c s))) = mutate_values (gc_mutation c) (graph_values (snap s)) \<and>
      sg_guard (snap (snd (cas c s))) = Some r"
    and cas_fresh: "inv s \<Longrightarrow> fst (cas c s) = Inr r \<Longrightarrow> sg_guard (snap s) = Some g \<Longrightarrow> g < r"
begin

text \<open>A run of commits by any number of clients.\<close>

fun run :: "graph_commit list \<Rightarrow> 's \<Rightarrow> 's" where
  "run [] s = s"
| "run (c # cs) s = run cs (snd (cas c s))"

lemma run_inv: "inv s \<Longrightarrow> inv (run cs s)"
  by (induction cs arbitrary: s) (simp_all add: cas_inv)

lemma guard_le:
  assumes "inv s" and "sg_guard (snap s) = Some g"
  shows "\<exists>h. sg_guard (snap (run cs s)) = Some h \<and> g \<le> h \<and> (h = g \<longrightarrow> run cs s = s)"
  using assms
proof (induction cs arbitrary: s g)
  case (Cons c cs)
  show ?case
  proof (cases "fst (cas c s)")
    case (Inl e)
    then have "snd (cas c s) = s" by (rule cas_error)
    then show ?thesis using Cons by simp
  next
    case (Inr r)
    obtain h where "sg_guard (snap (run cs (snd (cas c s)))) = Some h" "r \<le> h"
      using Cons.IH [OF cas_inv [OF Cons.prems(1)]] cas_effect [OF Inr] by blast
    then show ?thesis
      using cas_fresh [OF Cons.prems(1) Inr Cons.prems(2)] by simp
  qed
qed simp

text \<open>The guard identifies the graph: when it is what it was, nothing was committed in between.\<close>

lemma guard_identifies:
  assumes "inv s" and "sg_guard (snap (run cs s)) = sg_guard (snap s)"
  shows "run cs s = s"
proof (cases "sg_guard (snap s)")
  case None
  have "sg_guard (snap (run cs s)) = None \<Longrightarrow> run cs s = s" if "inv s" for s
    using that
  proof (induction cs arbitrary: s)
    case (Cons c cs)
    show ?case
    proof (cases "fst (cas c s)")
      case (Inl e)
      then have "snd (cas c s) = s" by (rule cas_error)
      then show ?thesis using Cons by simp
    next
      case (Inr r)
      then have "sg_guard (snap (snd (cas c s))) = Some r" by (simp add: cas_effect)
      from guard_le [OF cas_inv [OF Cons.prems(2)] this, of cs] Cons.prems(1)
      show ?thesis by auto
    qed
  qed simp
  then show ?thesis using assms None by simp
next
  case (Some g)
  then show ?thesis using guard_le [OF assms(1) Some, of cs] assms(2) by auto
qed

text \<open>No lost update: a commit planned against a snapshot succeeds only on that very graph.\<close>

lemma no_lost_update:
  assumes "inv s" and "gc_expected_guard c = sg_guard (snap s)" and "fst (cas c (run cs s)) = Inr r"
  shows "run cs s = s"
    and "graph_values (snap (snd (cas c (run cs s)))) = mutate_values (gc_mutation c) (graph_values (snap s))"
proof -
  show same: "run cs s = s"
    using cas_checks [OF assms(3)] assms(1,2) guard_identifies by (simp add: guard_ok_def)
  show "graph_values (snap (snd (cas c (run cs s)))) = mutate_values (gc_mutation c) (graph_values (snap s))"
    using cas_effect [OF assms(3)] same by simp
qed

end

text \<open>Clients that plan their commits on a snapshot, and only commits whose outcome is good on the
  graph they saw. Their commits succeed on that graph or not at all, so what they leave behind is
  good, however the commits of all clients interleave.\<close>

locale graph_clients = graph_store snap cas inv
  for snap :: "'s \<Rightarrow> stored_graph"
    and cas :: "graph_commit \<Rightarrow> 's \<Rightarrow> (store_error + int) \<times> 's"
    and inv :: "'s \<Rightarrow> bool" +
  fixes planned :: "stored_graph \<Rightarrow> graph_commit \<Rightarrow> bool"
    and good :: "(resource_key \<Rightarrow> string option) \<Rightarrow> bool"
  assumes planned_guard: "planned g c \<Longrightarrow> gc_expected_guard c = sg_guard g"
    and planned_good: "inv s \<Longrightarrow> planned (snap s) c \<Longrightarrow>
      good (mutate_values (gc_mutation c) (graph_values (snap s)))"
begin

lemma commit_good:
  assumes "inv s" and "planned (snap s) c" and "fst (cas c (run cs s)) = Inr r"
  shows "good (graph_values (snap (snd (cas c (run cs s)))))"
  using no_lost_update(2) [OF assms(1) planned_guard [OF assms(2)] assms(3)]
    planned_good [OF assms(1,2)] by simp

end

lemma graph_values_update:
  "graph_values \<lparr>sg_resources = apply_mutation m r (sg_resources g), sg_guard = x, sg_revision = y\<rparr> =
    mutate_values m (graph_values g)"
  by (rule ext, cases m) (simp_all add: graph_values_def apply_mutation_def Let_def)

definition im_inv :: "in_memory_state \<Rightarrow> bool" where
  "im_inv s \<longleftrightarrow> distinct_keys (sg_resources (im_graph s)) \<and>
     (\<forall>g. sg_guard (im_graph s) = Some g \<longrightarrow> g < im_next_revision s) \<and>
     (\<forall>k r. map_of (sg_resources (im_graph s)) k = Some r \<longrightarrow>
        sr_create_revision r \<le> sr_mod_revision r \<and> sr_mod_revision r < im_next_revision s)"

lemma im_cas_Inr:
  assumes "fst (im_compare_and_swap c s) = Inr r"
  shows "r = im_next_revision s" and "target_ok c (im_graph s)" and "guard_ok c (im_graph s)"
    and "snd (im_compare_and_swap c s) = s\<lparr>im_next_revision := r + 1,
      im_graph := \<lparr>sg_resources = apply_mutation (gc_mutation c) r (sg_resources (im_graph s)),
        sg_guard = Some r, sg_revision = r\<rparr>\<rparr>"
  using assms by (auto simp: im_compare_and_swap_def Let_def split: if_splits)

lemma im_cas_inv: "im_inv s \<Longrightarrow> im_inv (snd (im_compare_and_swap c s))"
proof (cases "fst (im_compare_and_swap c s)")
  case (Inl e)
  then show "im_inv s \<Longrightarrow> ?thesis"
    by (auto simp: im_compare_and_swap_def Let_def split: if_splits)
next
  case (Inr r)
  assume i: "im_inv s"
  note e = im_cas_Inr [OF Inr]
  have "sr_create_revision x \<le> sr_mod_revision x \<and> sr_mod_revision x < r + 1"
    if "map_of (apply_mutation (gc_mutation c) r (sg_resources (im_graph s))) k = Some x" for k x
    using that i e(1)
    by (cases "gc_mutation c")
      (fastforce simp: apply_mutation_def im_inv_def Let_def split: if_splits option.splits)+
  moreover have "distinct_keys (apply_mutation (gc_mutation c) r (sg_resources (im_graph s)))"
    using i by (cases "gc_mutation c")
      (simp_all add: apply_mutation_def im_inv_def distinct_update distinct_delete Let_def)
  ultimately show ?thesis using e by (auto simp: im_inv_def)
qed

interpretation im: graph_store im_snapshot im_compare_and_swap im_inv
proof unfold_locales
  fix s c e r g
  show "im_inv s \<Longrightarrow> im_inv (snd (im_compare_and_swap c s))" by (rule im_cas_inv)
  show "fst (im_compare_and_swap c s) = Inl e \<Longrightarrow> snd (im_compare_and_swap c s) = s"
    by (auto simp: im_compare_and_swap_def Let_def split: if_splits)
  show "fst (im_compare_and_swap c s) = Inr r \<Longrightarrow>
      target_ok c (im_snapshot s) \<and> guard_ok c (im_snapshot s)"
    using im_cas_Inr(2,3) by (simp add: im_snapshot_def)
  show "fst (im_compare_and_swap c s) = Inr r \<Longrightarrow>
      graph_values (im_snapshot (snd (im_compare_and_swap c s))) =
        mutate_values (gc_mutation c) (graph_values (im_snapshot s)) \<and>
      sg_guard (im_snapshot (snd (im_compare_and_swap c s))) = Some r"
    using im_cas_Inr(4) [of c s r] by (simp add: im_snapshot_def graph_values_update)
  show "im_inv s \<Longrightarrow> fst (im_compare_and_swap c s) = Inr r \<Longrightarrow>
      sg_guard (im_snapshot s) = Some g \<Longrightarrow> g < r"
    using im_cas_Inr(1) by (simp add: im_inv_def im_snapshot_def)
qed

end
