(* ===== verification/Secrets.thy ===== *)
theory Secrets
  imports Graph_Store
begin

text \<open>
  Field encryption and redaction: the keyring (\<open>src/utils/encryption.rs\<close>), the walk over the
  \<open>#[encrypt]\<close> fields of the resources and plugins (\<open>src/config/resources.rs\<close>,
  \<open>src/config/mod.rs\<close>, the configuration structs of the plugins), and the Admin API's redaction and
  restoration (\<open>src/proxy/graph_mutation/secrets.rs\<close>).

  The cipher is a parameter: \<open>seal key nonce plaintext\<close> and \<open>unseal key nonce ciphertext\<close> are
  AES-256-GCM, \<open>b64\<close> and \<open>unb64\<close> are base64, \<open>nonce_for\<close> the nonce drawn for a value. Their laws are
  the hypotheses \<open>cipher_ok\<close>: base64 round-trips, a sealed value opens under its key and nonce and
  under no other key of the keyring, and is at least as long as its tag.

  Not modelled, in \<open>Keyring::decrypt\<close>: the error for an opened value that is not UTF-8 (what
  \<open>encrypt\<close> seals is a \<open>String\<close>), and the panic of the slice in the message for an unknown envelope
  version, when byte 24 of the value lies inside a character.
\<close>

section \<open>The keyring\<close>

record 'k cipher =
  seal :: "'k \<Rightarrow> string \<Rightarrow> string \<Rightarrow> string option"
  unseal :: "'k \<Rightarrow> string \<Rightarrow> string \<Rightarrow> string option"
  b64 :: "string \<Rightarrow> string"
  unb64 :: "string \<Rightarrow> string option"
  nonce_for :: "string \<Rightarrow> string"

definition CIPHERTEXT_PREFIX :: string where "CIPHERTEXT_PREFIX = ''$pingsix-enc:''"
definition ENVELOPE_V1_PREFIX :: string where "ENVELOPE_V1_PREFIX = ''$pingsix-enc:v1$''"
definition REDACTED :: string where "REDACTED = ''***''"

definition is_ciphertext :: "string \<Rightarrow> bool" where
  "is_ciphertext v \<longleftrightarrow> starts_with v CIPHERTEXT_PREFIX"

text \<open>\<open>Keyring::encrypt\<close> uses the first key; \<open>from_secrets\<close> rejects an empty keyring.\<close>

definition keyring_encrypt :: "'k cipher \<Rightarrow> 'k list \<Rightarrow> string \<Rightarrow> proxy_error + string" where
  "keyring_encrypt ci ks plaintext =
     (if is_ciphertext plaintext then Inr plaintext
      else case seal ci (hd ks) (nonce_for ci plaintext) plaintext of
             None \<Rightarrow> Inl (PE_Internal ''Failed to encrypt value'')
           | Some ct \<Rightarrow> Inr (ENVELOPE_V1_PREFIX @ b64 ci (nonce_for ci plaintext @ ct)))"

fun try_keys :: "'k cipher \<Rightarrow> string \<Rightarrow> string \<Rightarrow> 'k list \<Rightarrow> string option" where
  "try_keys ci nonce ct [] = None"
| "try_keys ci nonce ct (k # ks) =
     (case unseal ci k nonce ct of Some p \<Rightarrow> Some p | None \<Rightarrow> try_keys ci nonce ct ks)"

definition keyring_decrypt :: "'k cipher \<Rightarrow> 'k list \<Rightarrow> string \<Rightarrow> proxy_error + string" where
  "keyring_decrypt ci ks v =
     (if \<not> is_ciphertext v then Inr v
      else if \<not> starts_with v ENVELOPE_V1_PREFIX
      then Inl (PE_Configuration ''Unsupported encryption envelope version'')
      else case unb64 ci (drop (length ENVELOPE_V1_PREFIX) v) of
             None \<Rightarrow> Inl (PE_Configuration ''Invalid encrypted value encoding'')
           | Some packed \<Rightarrow>
               if length packed < 12 + 16
               then Inl (PE_Configuration ''Invalid encrypted value: payload too short'')
               else case try_keys ci (take 12 packed) (drop 12 packed) ks of
                      Some p \<Rightarrow> Inr p
                    | None \<Rightarrow> Inl (PE_Configuration
                        ''Failed to decrypt value with any configured keyring key''))"

text \<open>\<open>KeyringService\<close>: \<open>None\<close> when encryption is disabled.\<close>

definition service_encrypt :: "'k cipher \<Rightarrow> 'k list option \<Rightarrow> string \<Rightarrow> proxy_error + string" where
  "service_encrypt ci kr plaintext =
     (case kr of Some ks \<Rightarrow> keyring_encrypt ci ks plaintext | None \<Rightarrow> Inr plaintext)"

definition service_decrypt :: "'k cipher \<Rightarrow> 'k list option \<Rightarrow> string \<Rightarrow> proxy_error + string" where
  "service_decrypt ci kr v =
     (case kr of
        Some ks \<Rightarrow> keyring_decrypt ci ks v
      | None \<Rightarrow> if is_ciphertext v
          then Inl (PE_Configuration ''Encrypted value found but data_encryption is disabled'')
          else Inr v)"

datatype secret_op = Encrypt | Decrypt | Redact

definition apply_secret_op ::
  "'k cipher \<Rightarrow> 'k list option \<Rightarrow> secret_op \<Rightarrow> string \<Rightarrow> proxy_error + string" where
  "apply_secret_op ci kr x v =
     (case x of
        Encrypt \<Rightarrow> service_encrypt ci kr v
      | Decrypt \<Rightarrow> service_decrypt ci kr v
      | Redact \<Rightarrow> Inr REDACTED)"

section \<open>The walk\<close>

text \<open>The secret fields of a struct. \<open>Leaf\<close> is a string or an array of strings, \<open>EachString\<close> every
  string entry of an object. The walk is generic in the operation \<open>f\<close> on one string.\<close>

datatype secret_schema = Leaf | EachString | Fields "(string \<times> secret_schema) list"

definition transform_string :: "(string \<Rightarrow> 'e + string) \<Rightarrow> json \<Rightarrow> 'e + json" where
  "transform_string f v =
     (case v of JString s \<Rightarrow> sum_bind (f s) (\<lambda>t. Inr (JString t)) | _ \<Rightarrow> Inr v)"

definition transform_leaf :: "(string \<Rightarrow> 'e + string) \<Rightarrow> json \<Rightarrow> 'e + json" where
  "transform_leaf f v =
     (case v of
        JArray items \<Rightarrow> sum_bind (sum_map_list (transform_string f) items) (\<lambda>ys. Inr (JArray ys))
      | _ \<Rightarrow> transform_string f v)"

definition transform_entries :: "(string \<times> json \<Rightarrow> 'e + json) \<Rightarrow> json \<Rightarrow> 'e + json" where
  "transform_entries f v =
     (case v of
        JObject entries \<Rightarrow>
          sum_bind (sum_map_list (\<lambda>(n, x). sum_bind (f (n, x)) (\<lambda>y. Inr (n, y))) entries)
            (\<lambda>ys. Inr (JObject ys))
      | _ \<Rightarrow> Inr v)"

fun transform_secrets :: "(string \<Rightarrow> 'e + string) \<Rightarrow> secret_schema \<Rightarrow> json \<Rightarrow> 'e + json"
  and transform_fields :: "(string \<Rightarrow> 'e + string) \<Rightarrow> (string \<times> secret_schema) list \<Rightarrow>
    (string \<times> json) list \<Rightarrow> 'e + (string \<times> json) list" where
  "transform_secrets f Leaf v = transform_leaf f v"
| "transform_secrets f EachString v = transform_entries (\<lambda>(n, x). transform_string f x) v"
| "transform_secrets f (Fields fs) v =
     (case v of
        JObject obj \<Rightarrow> sum_bind (transform_fields f fs obj) (\<lambda>obj. Inr (JObject obj))
      | _ \<Rightarrow> Inr v)"
| "transform_fields f [] obj = Inr obj"
| "transform_fields f ((n, sch) # fs) obj =
     (case map_of obj n of
        None \<Rightarrow> transform_fields f fs obj
      | Some x \<Rightarrow> sum_bind (transform_secrets f sch x)
          (\<lambda>y. transform_fields f fs (AList.update n y obj)))"

text \<open>The secret fields that the structs declare, and those of the plugins by name.\<close>

definition upstream_schema :: secret_schema where
  "upstream_schema = Fields [(''tls'', Fields [(''client_key'', Leaf)])]"

definition ssl_schema :: secret_schema where
  "ssl_schema = Fields [(''key'', Leaf)]"

definition plugin_schemas :: "(string \<times> secret_schema) list" where
  "plugin_schemas =
     [(''basic-auth'', Fields [(''password'', Leaf)]),
      (''key-auth'', Fields [(''key'', Leaf), (''keys'', Leaf)]),
      (''csrf'', Fields [(''key'', Leaf)]),
      (''jwt-auth'', Fields [(''secret'', Leaf)]),
      (''ai-proxy'', Fields [(''auth'', Fields [(''header'', EachString), (''query'', EachString)])])]"

definition transform_plugins :: "(string \<Rightarrow> 'e + string) \<Rightarrow> json \<Rightarrow> 'e + json" where
  "transform_plugins f v =
     transform_entries (\<lambda>(n, cfg).
       case map_of plugin_schemas n of
         Some sch \<Rightarrow> transform_secrets f sch cfg
       | None \<Rightarrow> Inr cfg) v"

text \<open>One field of an object, when it is present.\<close>

definition on_field :: "string \<Rightarrow> (json \<Rightarrow> 'e + json) \<Rightarrow> json \<Rightarrow> 'e + json" where
  "on_field n f v =
     (case v of
        JObject obj \<Rightarrow>
          (case map_of obj n of
             None \<Rightarrow> Inr v
           | Some x \<Rightarrow> sum_bind (f x) (\<lambda>y. Inr (JObject (AList.update n y obj))))
      | _ \<Rightarrow> Inr v)"

definition transform_resource_with ::
  "(string \<Rightarrow> 'e + string) \<Rightarrow> resource_kind \<Rightarrow> json \<Rightarrow> 'e + json" where
  "transform_resource_with f kind v =
     (case kind of
        KSsl \<Rightarrow> transform_secrets f ssl_schema v
      | KUpstream \<Rightarrow> transform_secrets f upstream_schema v
      | KGlobalRule \<Rightarrow> on_field ''plugins'' (transform_plugins f) v
      | _ \<Rightarrow> sum_bind (on_field ''plugins'' (transform_plugins f) v)
              (on_field ''upstream'' (transform_secrets f upstream_schema)))"

definition transform_resource_secrets ::
  "'k cipher \<Rightarrow> 'k list option \<Rightarrow> resource_kind \<Rightarrow> secret_op \<Rightarrow> json \<Rightarrow> proxy_error + json" where
  "transform_resource_secrets ci kr kind x v = transform_resource_with (apply_secret_op ci kr x) kind v"

section \<open>Redaction and restoration\<close>

definition redact :: "resource_kind \<Rightarrow> json \<Rightarrow> json" where
  "redact kind v =
     (case transform_resource_with (\<lambda>_. Inr REDACTED :: unit + string) kind v of
        Inr r \<Rightarrow> r | Inl _ \<Rightarrow> v)"

fun contains_redaction_sentinel :: "json \<Rightarrow> bool" where
  "contains_redaction_sentinel (JString s) = (s = REDACTED)"
| "contains_redaction_sentinel (JArray items) = list_ex contains_redaction_sentinel items"
| "contains_redaction_sentinel (JObject entries) =
     list_ex (\<lambda>(_, v). contains_redaction_sentinel v) entries"
| "contains_redaction_sentinel _ = False"

text \<open>\<open>restore_walk incoming plaintext secret_map\<close>.\<close>

fun restore_walk :: "json \<Rightarrow> json \<Rightarrow> json \<Rightarrow> json"
  and restore_entries :: "(string \<times> json) list \<Rightarrow> (string \<times> json) list \<Rightarrow> (string \<times> json) list \<Rightarrow>
    (string \<times> json) list"
  and restore_items :: "nat \<Rightarrow> json list \<Rightarrow> json list \<Rightarrow> json list \<Rightarrow> json list" where
  "restore_walk inc pt (JString s) =
     (if s = REDACTED \<and> inc = JString REDACTED then pt else inc)"
| "restore_walk inc pt (JObject m) =
     (case (inc, pt) of
        (JObject i, JObject p) \<Rightarrow> JObject (restore_entries i p m)
      | _ \<Rightarrow> inc)"
| "restore_walk inc pt (JArray items) =
     (case (inc, pt) of
        (JArray i, JArray p) \<Rightarrow> JArray (restore_items 0 i p items)
      | _ \<Rightarrow> inc)"
| "restore_walk inc pt _ = inc"
| "restore_entries i p [] = i"
| "restore_entries i p ((k, sub) # m) =
     (case (map_of i k, map_of p k) of
        (Some iv, Some pv) \<Rightarrow> restore_entries (AList.update k (restore_walk iv pv sub) i) p m
      | _ \<Rightarrow> restore_entries i p m)"
| "restore_items n i p [] = i"
| "restore_items n i p (sub # items) =
     (if n < length i \<and> n < length p
      then restore_items (Suc n) (i[n := restore_walk (i ! n) (p ! n) sub]) p items
      else restore_items (Suc n) i p items)"

definition restore_redacted_secrets :: "resource_kind \<Rightarrow> json \<Rightarrow> json \<Rightarrow> json" where
  "restore_redacted_secrets kind incoming existing_plaintext =
     restore_walk incoming existing_plaintext (redact kind existing_plaintext)"

definition encrypt_for_storage ::
  "'k cipher \<Rightarrow> 'k list option \<Rightarrow> (json \<Rightarrow> string + string) \<Rightarrow> resource_kind \<Rightarrow> json \<Rightarrow> proxy_error + string" where
  "encrypt_for_storage ci kr to_vec kind v =
     sum_bind (if kr \<noteq> None then transform_resource_secrets ci kr kind Encrypt v else Inr v) (\<lambda>v.
     map_err (serialization_error ''Failed to serialize resource for storage'') (to_vec v))"

definition decrypt_for_read ::
  "'k cipher \<Rightarrow> 'k list option \<Rightarrow> resource_kind \<Rightarrow> json \<Rightarrow> proxy_error + json" where
  "decrypt_for_read ci kr kind v =
     (if kr \<noteq> None then transform_resource_secrets ci kr kind Decrypt v else Inr v)"

section \<open>The walk, field by field\<close>

lemma sum_map_list_iff:
  "sum_map_list f xs = Inr ys \<longleftrightarrow> list_all2 (\<lambda>x y. f x = Inr y) xs ys"
proof (induction xs arbitrary: ys)
  case (Cons x xs)
  show ?case
  proof
    assume "sum_map_list f (x # xs) = Inr ys"
    then show "list_all2 (\<lambda>x y. f x = Inr y) (x # xs) ys" by (rule sum_map_list_Inr)
  next
    assume "list_all2 (\<lambda>x y. f x = Inr y) (x # xs) ys"
    then obtain z zs where "ys = z # zs" "f x = Inr z" "list_all2 (\<lambda>x y. f x = Inr y) xs zs"
      by (auto simp: list_all2_Cons1)
    then show "sum_map_list f (x # xs) = Inr ys" using Cons.IH [of zs] by simp
  qed
qed auto

lemma sum_bind_Inr_iff: "sum_bind r f = Inr b \<longleftrightarrow> (\<exists>a. r = Inr a \<and> f a = Inr b)"
  by (cases r) auto

text \<open>Two lists of entries with the same keys, in the same order, related value by value.\<close>

definition entries_rel :: "(string \<Rightarrow> json \<Rightarrow> json \<Rightarrow> bool) \<Rightarrow> (string \<times> json) list \<Rightarrow>
    (string \<times> json) list \<Rightarrow> bool" where
  "entries_rel R = list_all2 (\<lambda>(k, x) (k', y). k' = k \<and> R k x y)"

lemma entries_rel_keys: "entries_rel R xs ys \<Longrightarrow> map fst ys = map fst xs"
  unfolding entries_rel_def by (induction rule: list_all2_induct) auto

lemma entries_rel_comp:
  assumes "entries_rel R xs ys" and "\<And>k x y w. (k, x) \<in> set xs \<Longrightarrow> R k x y \<Longrightarrow> S k y w \<longleftrightarrow> S k x w"
  shows "entries_rel S ys ws \<longleftrightarrow> entries_rel S xs ws"
  using assms unfolding entries_rel_def
proof (induction arbitrary: ws rule: list_all2_induct)
  case (Cons x xs y ys)
  obtain k a b where x: "x = (k, a)" "y = (k, b)" "R k a b" using Cons.hyps by auto
  have "S k b w \<longleftrightarrow> S k a w" for w using Cons.prems x by (metis list.set_intros(1))
  moreover have "list_all2 (\<lambda>(k, x) (k', y). k' = k \<and> S k x y) ys vs \<longleftrightarrow>
      list_all2 (\<lambda>(k, x) (k', y). k' = k \<and> S k x y) xs vs" for vs
    using Cons by (meson list.set_intros(2))
  ultimately show ?case using x by (cases ws) auto
qed simp

lemma transform_entries_Inr:
  "transform_entries f (JObject es) = Inr v \<longleftrightarrow>
    (\<exists>es'. v = JObject es' \<and> entries_rel (\<lambda>k x y. f (k, x) = Inr y) es es')"
proof -
  have "(\<lambda>a b. (case a of (n, x) \<Rightarrow> sum_bind (f (n, x)) (\<lambda>y. Inr (n, y))) = Inr b) =
      (\<lambda>(k, x) (k', y). k' = k \<and> f (k, x) = Inr y)"
    by (auto simp: fun_eq_iff sum_bind_Inr_iff)
  then show ?thesis
    by (auto simp: transform_entries_def entries_rel_def sum_map_list_iff sum_bind_Inr_iff)
qed

lemma update_split:
  assumes "k \<notin> keys xs"
  shows "AList.update k z (xs @ (k, y) # ys) = xs @ (k, z) # ys"
  using assms by (induction xs) auto

lemma map_of_split: "distinct_keys obj \<Longrightarrow> map_of obj n = Some x \<longleftrightarrow> (n, x) \<in> set obj"
  by (simp add: map_of_eq_Some_iff)

lemma entries_rel_split:
  "entries_rel R (xs @ (n, z) # ys) obj' \<longleftrightarrow>
    (\<exists>us w vs. obj' = us @ (n, w) # vs \<and> entries_rel R xs us \<and> R n z w \<and> entries_rel R ys vs)"
  (is "?l \<longleftrightarrow> ?r")
proof
  assume ?l
  then show ?r by (auto simp: entries_rel_def list_all2_append1 list_all2_Cons1)
next
  assume ?r
  then show ?l by (auto simp: entries_rel_def intro!: list_all2_appendI)
qed

definition field_rel :: "(string \<Rightarrow> 'e + string) \<Rightarrow> (string \<times> secret_schema) list \<Rightarrow> string \<Rightarrow> json \<Rightarrow>
    json \<Rightarrow> bool" where
  "field_rel f fs k x y \<longleftrightarrow>
     (case map_of fs k of Some sch \<Rightarrow> transform_secrets f sch x = Inr y | None \<Rightarrow> y = x)"

lemma transform_fields_Inr:
  assumes "distinct_keys fs" and "distinct_keys obj"
  shows "transform_fields f fs obj = Inr obj' \<longleftrightarrow> entries_rel (field_rel f fs) obj obj'"
  using assms
proof (induction fs arbitrary: obj)
  case Nil
  have "(\<lambda>(k, x) (k', y). k' = k \<and> y = x) = ((=) :: string \<times> json \<Rightarrow> _)"
    by (auto simp: fun_eq_iff)
  then have "list_all2 (\<lambda>(k, x) (k', y). k' = k \<and> y = x) obj obj' \<longleftrightarrow> obj = obj'"
    by (simp add: list.rel_eq)
  then show ?case by (auto simp: entries_rel_def field_rel_def)
next
  case (Cons a fs)
  obtain n sch where a: "a = (n, sch)" by fastforce
  have n: "n \<notin> keys fs" "map_of fs n = None" using Cons.prems(1) a by (auto simp: map_of_eq_None_iff)
  show ?case
  proof (cases "map_of obj n")
    case None
    then have "\<forall>(k, x) \<in> set obj. k \<noteq> n" by (force simp: map_of_eq_None_iff)
    then have "entries_rel (field_rel f (a # fs)) obj obj' \<longleftrightarrow> entries_rel (field_rel f fs) obj obj'"
      unfolding entries_rel_def by (intro list.rel_cong refl) (auto simp: field_rel_def a)
    then show ?thesis using Cons None a by simp
  next
    case (Some x)
    then obtain xs ys where obj: "obj = xs @ (n, x) # ys"
      by (metis map_of_SomeD split_list)
    have nk: "n \<notin> keys xs" "n \<notin> keys ys" using Cons.prems(2) obj by auto
    have other: "entries_rel (field_rel f (a # fs)) zs zs' \<longleftrightarrow> entries_rel (field_rel f fs) zs zs'"
      if "n \<notin> keys zs" for zs zs'
    proof -
      have "\<forall>(k, x) \<in> set zs. k \<noteq> n" using that by force
      then show ?thesis
        unfolding entries_rel_def by (intro list.rel_cong refl) (auto simp: field_rel_def a)
    qed
    have app: "entries_rel R (xs @ (n, z) # ys) obj' \<longleftrightarrow>
        (\<exists>us w vs. obj' = us @ (n, w) # vs \<and> entries_rel R xs us \<and> R n z w \<and> entries_rel R ys vs)"
      for R z
      by (rule entries_rel_split)
    have "transform_fields f (a # fs) obj = Inr obj' \<longleftrightarrow>
        (\<exists>y. transform_secrets f sch x = Inr y \<and>
          entries_rel (field_rel f fs) (xs @ (n, y) # ys) obj')"
      using Some Cons.IH Cons.prems nk
      by (auto simp: a obj sum_bind_Inr_iff update_split)
    also have "\<dots> \<longleftrightarrow> entries_rel (field_rel f (a # fs)) obj obj'"
      unfolding obj app other [OF nk(1)] other [OF nk(2)]
      using n(2) by (auto simp: field_rel_def a)
    finally show ?thesis .
  qed
qed

definition at_field :: "string \<Rightarrow> (json \<Rightarrow> 'e + json) \<Rightarrow> string \<Rightarrow> json \<Rightarrow> json \<Rightarrow> bool" where
  "at_field n f k x y \<longleftrightarrow> (if k = n then f x = Inr y else y = x)"

lemma on_field_Inr:
  assumes "distinct_keys obj"
  shows "on_field n f (JObject obj) = Inr v \<longleftrightarrow>
    (\<exists>obj'. v = JObject obj' \<and> entries_rel (at_field n f) obj obj')"
proof (cases "map_of obj n")
  case None
  then have nn: "\<forall>(k, x) \<in> set obj. k \<noteq> n" by (force simp: map_of_eq_None_iff)
  have "entries_rel (at_field n f) obj obj' \<longleftrightarrow> obj' = obj" for obj'
  proof -
    have "entries_rel (at_field n f) obj obj' \<longleftrightarrow>
        list_all2 (=) obj obj'"
      unfolding entries_rel_def
      using nn by (intro list.rel_cong refl) (auto simp: at_field_def)
    then show ?thesis by (auto simp: list.rel_eq)
  qed
  then show ?thesis using None by (auto simp: on_field_def)
next
  case (Some x)
  then obtain xs ys where obj: "obj = xs @ (n, x) # ys"
    by (metis map_of_SomeD split_list)
  have nk: "n \<notin> keys xs" "n \<notin> keys ys" using assms obj by auto
  have other: "entries_rel (at_field n f) zs zs' \<longleftrightarrow> zs' = zs"
    if "n \<notin> keys zs" for zs zs'
  proof -
    have nz: "\<forall>(k, x) \<in> set zs. k \<noteq> n" using that by force
    have "entries_rel (at_field n f) zs zs' \<longleftrightarrow> list_all2 (=) zs zs'"
      unfolding entries_rel_def using nz by (intro list.rel_cong refl) (auto simp: at_field_def)
    then show ?thesis by (auto simp: list.rel_eq)
  qed
  have "entries_rel (at_field n f) obj obj' \<longleftrightarrow>
      (\<exists>y. f x = Inr y \<and> obj' = xs @ (n, y) # ys)" for obj'
    unfolding obj entries_rel_split other [OF nk(1)] other [OF nk(2)]
    by (simp add: at_field_def) blast
  then show ?thesis
    using Some nk by (auto simp: on_field_def obj sum_bind_Inr_iff update_split)
qed

section \<open>Documents\<close>

text \<open>\<open>serde_json\<close> maps have distinct keys.\<close>

fun json_ok :: "json \<Rightarrow> bool" where
  "json_ok (JArray items) = list_all json_ok items"
| "json_ok (JObject entries) = (distinct_keys entries \<and> list_all (\<lambda>(_, v). json_ok v) entries)"
| "json_ok _ = True"

fun schema_ok :: "secret_schema \<Rightarrow> bool" where
  "schema_ok (Fields fs) = (distinct_keys fs \<and> list_all (\<lambda>(_, s). schema_ok s) fs)"
| "schema_ok _ = True"

lemma schemas_ok: "schema_ok upstream_schema" "schema_ok ssl_schema"
  "map_of plugin_schemas n = Some sch \<Longrightarrow> schema_ok sch"
  by (auto simp: upstream_schema_def ssl_schema_def plugin_schemas_def split: if_splits)

text \<open>A relation of two string operations lifts to the walk: after a successful walk with \<open>e\<close>, a
  walk with \<open>d\<close> ends as it does on the original document.\<close>

definition absorbs :: "(string \<Rightarrow> 'e + string) \<Rightarrow> (string \<Rightarrow> 'd + string) \<Rightarrow> bool" where
  "absorbs e d \<longleftrightarrow> (\<forall>s t u. e s = Inr t \<longrightarrow> (d t = Inr u \<longleftrightarrow> d s = Inr u))"

lemma absorbs_string:
  "absorbs e d \<Longrightarrow> transform_string e v = Inr v' \<Longrightarrow>
   transform_string d v' = Inr w \<longleftrightarrow> transform_string d v = Inr w"
  unfolding absorbs_def
  by (cases v) (auto simp: transform_string_def sum_bind_Inr_iff)

lemma absorbs_leaf:
  assumes "absorbs e d" and "transform_leaf e v = Inr v'"
  shows "transform_leaf d v' = Inr w \<longleftrightarrow> transform_leaf d v = Inr w"
proof (cases v)
  case (JArray items)
  then obtain ys where ys: "v' = JArray ys" "list_all2 (\<lambda>x y. transform_string e x = Inr y) items ys"
    using assms(2) by (auto simp: transform_leaf_def sum_bind_Inr_iff sum_map_list_iff)
  have "list_all2 (\<lambda>x y. transform_string d x = Inr y) ys zs \<longleftrightarrow>
      list_all2 (\<lambda>x y. transform_string d x = Inr y) items zs" for zs
    using ys(2) absorbs_string [OF assms(1)]
    by (induction arbitrary: zs rule: list_all2_induct) (auto simp: list_all2_Cons1)
  then show ?thesis
    using JArray ys(1) by (auto simp: transform_leaf_def sum_bind_Inr_iff sum_map_list_iff)
qed (use assms absorbs_string [of e d v v' w] in
    \<open>auto simp: transform_leaf_def transform_string_def sum_bind_Inr_iff\<close>)

lemma absorbs_entries:
  assumes "transform_entries f v = Inr v'"
    and "\<And>es k x y z. v = JObject es \<Longrightarrow> (k, x) \<in> set es \<Longrightarrow> f (k, x) = Inr y \<Longrightarrow>
      g (k, y) = Inr z \<longleftrightarrow> g (k, x) = Inr z"
  shows "transform_entries g v' = Inr w \<longleftrightarrow> transform_entries g v = Inr w"
proof (cases "\<exists>es. v = JObject es")
  case True
  then obtain es es' where v: "v = JObject es" "v' = JObject es'"
    and r: "entries_rel (\<lambda>k x y. f (k, x) = Inr y) es es'"
    using assms(1) by (auto simp: transform_entries_Inr)
  then show ?thesis
    using entries_rel_comp [OF r, of "\<lambda>k x y. g (k, x) = Inr y"] assms(2) [OF v(1)]
    by (simp add: transform_entries_Inr)
next
  case False
  then show ?thesis using assms(1) by (cases v) (auto simp: transform_entries_def)
qed

lemma absorbs_walk:
  assumes "absorbs e d" and "schema_ok sch" and "json_ok v" and "transform_secrets e sch v = Inr v'"
  shows "transform_secrets d sch v' = Inr w \<longleftrightarrow> transform_secrets d sch v = Inr w"
  using assms(2-)
proof (induction sch arbitrary: v v' w)
  case Leaf
  then show ?case using absorbs_leaf [OF assms(1)] by simp
next
  case EachString
  then show ?case
    using absorbs_entries [of "\<lambda>(n, x). transform_string e x" v v' "\<lambda>(n, x). transform_string d x"]
      absorbs_string [OF assms(1)] by simp
next
  case (Fields fs)
  show ?case
  proof (cases "\<exists>obj. v = JObject obj")
    case False
    then show ?thesis using Fields.prems by (cases v) auto
  next
    case True
    then obtain obj where v: "v = JObject obj" by blast
    then obtain obj' where v': "v' = JObject obj'" and tf: "transform_fields e fs obj = Inr obj'"
      using Fields.prems by (auto simp: sum_bind_Inr_iff)
    have dk: "distinct_keys fs" "distinct_keys obj" using Fields.prems v by auto
    have r: "entries_rel (field_rel e fs) obj obj'" by (rule iffD1 [OF transform_fields_Inr [OF dk] tf])
    then have dk': "distinct_keys obj'" using entries_rel_keys dk(2) by metis
    have "field_rel d fs k y u \<longleftrightarrow> field_rel d fs k x u"
      if "(k, x) \<in> set obj" "field_rel e fs k x y" for k x y u
    proof (cases "map_of fs k")
      case (Some sch)
      then have m: "(k, sch) \<in> set fs" by (rule map_of_SomeD)
      then have "schema_ok sch" "json_ok x"
        using Fields.prems that v by (auto simp: list_all_iff)
      then show ?thesis
        using Fields.IH [OF m, of sch x y u] that Some by (simp add: field_rel_def)
    qed (use that in \<open>simp add: field_rel_def\<close>)
    from entries_rel_comp [OF r this]
    show ?thesis
      unfolding v v'
      by (auto simp: sum_bind_Inr_iff transform_fields_Inr [OF dk(1) dk'] transform_fields_Inr [OF dk])
  qed
qed


lemma absorbs_plugins:
  assumes "absorbs e d" and "json_ok v" and "transform_plugins e v = Inr v'"
  shows "transform_plugins d v' = Inr w \<longleftrightarrow> transform_plugins d v = Inr w"
  unfolding transform_plugins_def
proof (rule absorbs_entries [OF assms(3) [unfolded transform_plugins_def]])
  fix es k x y z
  assume v: "v = JObject es" "(k, x) \<in> set es"
    and f: "(case (k, x) of (n, cfg) \<Rightarrow> case map_of plugin_schemas n of
      None \<Rightarrow> Inr cfg | Some sch \<Rightarrow> transform_secrets e sch cfg) = Inr y"
  have "json_ok x" using assms(2) v by (auto simp: list_all_iff)
  then show "(case (k, y) of (n, cfg) \<Rightarrow> case map_of plugin_schemas n of
        None \<Rightarrow> Inr cfg | Some sch \<Rightarrow> transform_secrets d sch cfg) = Inr z \<longleftrightarrow>
      (case (k, x) of (n, cfg) \<Rightarrow> case map_of plugin_schemas n of
        None \<Rightarrow> Inr cfg | Some sch \<Rightarrow> transform_secrets d sch cfg) = Inr z"
    using f absorbs_walk [OF assms(1) schemas_ok(3), of k _ x y z]
    by (cases "map_of plugin_schemas k") auto
qed

text \<open>The walk of a resource is one relation of the entries of its document.\<close>

definition resource_rel :: "(string \<Rightarrow> 'e + string) \<Rightarrow> string \<Rightarrow> json \<Rightarrow> json \<Rightarrow> bool" where
  "resource_rel f k x y \<longleftrightarrow>
     (if k = ''plugins'' then transform_plugins f x = Inr y
      else if k = ''upstream'' then transform_secrets f upstream_schema x = Inr y
      else y = x)"

lemma two_fields:
  assumes "distinct_keys obj"
  shows "sum_bind (on_field ''plugins'' (transform_plugins f) (JObject obj))
      (on_field ''upstream'' (transform_secrets f upstream_schema)) = Inr v \<longleftrightarrow>
    (\<exists>obj'. v = JObject obj' \<and> entries_rel (resource_rel f) obj obj')"
proof -
  let ?p = "at_field ''plugins'' (transform_plugins f)"
  let ?u = "at_field ''upstream'' (transform_secrets f upstream_schema)"
  have "entries_rel (resource_rel f) obj obj' \<longleftrightarrow>
      (\<exists>mid. entries_rel ?p obj mid \<and> entries_rel ?u mid obj')" for obj'
  proof
    assume "entries_rel (resource_rel f) obj obj'"
    then show "\<exists>mid. entries_rel ?p obj mid \<and> entries_rel ?u mid obj'"
      unfolding entries_rel_def
    proof (induction rule: list_all2_induct)
      case (Cons x xs y ys)
      then obtain mid where mid: "list_all2 (\<lambda>(k, x) (k', y). k' = k \<and> ?p k x y) xs mid"
        "list_all2 (\<lambda>(k, x) (k', y). k' = k \<and> ?u k x y) mid ys" by blast
      obtain k a b where xy: "x = (k, a)" "y = (k, b)" and r: "resource_rel f k a b"
        using Cons.hyps(1) by auto
      show ?case
      proof (cases "k = ''plugins''")
        case True
        then show ?thesis
          using mid r by (intro exI [of _ "(k, b) # mid"]) (simp add: xy resource_rel_def at_field_def)
      next
        case False
        then show ?thesis
          using mid r by (intro exI [of _ "(k, a) # mid"]) (simp add: xy resource_rel_def at_field_def)
      qed
    qed simp
  next
    assume "\<exists>mid. entries_rel ?p obj mid \<and> entries_rel ?u mid obj'"
    then obtain mid where m: "entries_rel ?p obj mid" "entries_rel ?u mid obj'" by blast
    show "entries_rel (resource_rel f) obj obj'"
      unfolding entries_rel_def
    proof (rule list_all2_trans [OF _ m [unfolded entries_rel_def]])
      fix a b c
      assume "(case a of (k, x) \<Rightarrow> \<lambda>(k', y). k' = k \<and> ?p k x y) b"
        and "(case b of (k, x) \<Rightarrow> \<lambda>(k', y). k' = k \<and> ?u k x y) c"
      then show "(case a of (k, x) \<Rightarrow> \<lambda>(k', y). k' = k \<and> resource_rel f k x y) c"
        by (cases a; cases b; cases c) (simp add: resource_rel_def at_field_def split: if_splits)
    qed
  qed
  moreover have "distinct_keys mid" if "entries_rel ?p obj mid" for mid
    using entries_rel_keys [OF that] assms by simp
  moreover have "sum_bind (on_field ''plugins'' (transform_plugins f) (JObject obj))
      (on_field ''upstream'' (transform_secrets f upstream_schema)) = Inr v \<longleftrightarrow>
    (\<exists>mid. entries_rel ?p obj mid \<and>
      on_field ''upstream'' (transform_secrets f upstream_schema) (JObject mid) = Inr v)"
    unfolding sum_bind_Inr_iff on_field_Inr [OF assms] by blast
  moreover have "on_field ''upstream'' (transform_secrets f upstream_schema) (JObject mid) = Inr v \<longleftrightarrow>
      (\<exists>obj'. v = JObject obj' \<and> entries_rel ?u mid obj')" if "distinct_keys mid" for mid
    by (rule on_field_Inr [OF that])
  ultimately show ?thesis by metis
qed

lemma resource_cases:
  obtains (fields) sch where "schema_ok sch" "\<And>f :: string \<Rightarrow> 'e + string. \<And>v.
      transform_resource_with f kind v = transform_secrets f sch v"
    "\<And>f :: string \<Rightarrow> 'd + string. \<And>v.
      transform_resource_with f kind v = transform_secrets f sch v"
  | (global) "kind = KGlobalRule" | (both) "kind = KRoute \<or> kind = KService"
  using schemas_ok(1,2) by (cases kind) (auto simp: transform_resource_with_def)

lemma absorbs_resource:
  fixes e :: "string \<Rightarrow> 'e + string" and d :: "string \<Rightarrow> 'd + string"
  assumes "absorbs e d" and "json_ok v" and "transform_resource_with e kind v = Inr v'"
  shows "transform_resource_with d kind v' = Inr w \<longleftrightarrow> transform_resource_with d kind v = Inr w"
proof (cases "\<exists>obj. v = JObject obj")
  case False
  then have "v' = v"
    using assms(3) by (cases kind; cases v)
      (auto simp: transform_resource_with_def on_field_def ssl_schema_def upstream_schema_def)
  then show ?thesis by simp
next
  case True
  then obtain obj where v: "v = JObject obj" by blast
  then have dk: "distinct_keys obj" and jo: "\<And>k x. (k, x) \<in> set obj \<Longrightarrow> json_ok x"
    using assms(2) by (auto simp: list_all_iff)
  show ?thesis
  proof (cases kind rule: resource_cases [where 'e = 'e and 'd = 'd])
    case (fields sch)
    then show ?thesis using absorbs_walk [OF assms(1) _ assms(2)] assms(3) by simp
  next
    case global
    obtain obj' where v': "v' = JObject obj'"
      "entries_rel (at_field ''plugins'' (transform_plugins e)) obj obj'"
      using assms(3) v global by (auto simp: transform_resource_with_def on_field_Inr [OF dk])
    have dk': "distinct_keys obj'" using dk by (simp add: entries_rel_keys [OF v'(2)])
    show ?thesis
      using entries_rel_comp [OF v'(2), of "at_field ''plugins'' (transform_plugins d)"]
        absorbs_plugins [OF assms(1)] jo
      by (simp add: global v v' transform_resource_with_def on_field_Inr [OF dk] on_field_Inr [OF dk']
          at_field_def)
  next
    case both
    obtain obj' where v': "v' = JObject obj'" "entries_rel (resource_rel e) obj obj'"
      using assms(3) v both by (auto simp: transform_resource_with_def two_fields [OF dk])
    have dk': "distinct_keys obj'" using dk by (simp add: entries_rel_keys [OF v'(2)])
    have "resource_rel d k y u \<longleftrightarrow> resource_rel d k x u"
      if "(k, x) \<in> set obj" "resource_rel e k x y" for k x y u
      using that jo absorbs_plugins [OF assms(1)] absorbs_walk [OF assms(1) schemas_ok(1)]
      by (auto simp: resource_rel_def split: if_splits)
    from entries_rel_comp [OF v'(2) this] show ?thesis
      using both
      by (auto simp: v v' transform_resource_with_def two_fields [OF dk] two_fields [OF dk'])
  qed
qed

section \<open>Encryption at rest\<close>

text \<open>What the code relies on of AES-256-GCM and base64, for the keys \<open>ks\<close>.\<close>

definition cipher_ok :: "'k cipher \<Rightarrow> 'k set \<Rightarrow> bool" where
  "cipher_ok ci ks \<longleftrightarrow>
     (\<forall>s. unb64 ci (b64 ci s) = Some s) \<and>
     (\<forall>s. length (nonce_for ci s) = 12) \<and>
     (\<forall>k\<in>ks. \<forall>s. \<exists>c. seal ci k (nonce_for ci s) s = Some c) \<and>
     (\<forall>k\<in>ks. \<forall>n s c. seal ci k n s = Some c \<longrightarrow>
        unseal ci k n c = Some s \<and> length c = length s + 16) \<and>
     (\<forall>k\<in>ks. \<forall>k'\<in>ks. \<forall>n s c. k \<noteq> k' \<longrightarrow> seal ci k n s = Some c \<longrightarrow> unseal ci k' n c = None)"

lemma starts_with_append: "starts_with (p @ s) p"
  by (simp add: starts_with_def)

lemma envelope_is_ciphertext: "is_ciphertext (ENVELOPE_V1_PREFIX @ s)"
  by (simp add: is_ciphertext_def ENVELOPE_V1_PREFIX_def CIPHERTEXT_PREFIX_def starts_with_def)

lemma try_keys_finds:
  assumes "unseal ci k n c = Some p" and "\<And>k'. k' \<in> set ks \<Longrightarrow> k' \<noteq> k \<Longrightarrow> unseal ci k' n c = None"
    and "k \<in> set ks"
  shows "try_keys ci n c ks = Some p"
  using assms(2,3)
proof (induction ks)
  case (Cons a ks)
  then show ?case using assms(1) by (cases "a = k") auto
qed simp

lemma keyring_encrypt_Inr:
  assumes "cipher_ok ci S" and "k \<in> S"
  shows "\<exists>c. keyring_encrypt ci (k # ks) s = Inr c \<and> is_ciphertext c"
proof -
  obtain c where "seal ci k (nonce_for ci s) s = Some c" using assms unfolding cipher_ok_def by metis
  then show ?thesis by (simp add: keyring_encrypt_def envelope_is_ciphertext)
qed

lemma keyring_decrypt_encrypt:
  assumes "cipher_ok ci S" and "k \<in> S" and "set ks' \<subseteq> S" and "k \<in> set ks'"
    and "keyring_encrypt ci (k # ks) s = Inr c" and "\<not> is_ciphertext s"
  shows "keyring_decrypt ci ks' c = Inr s"
proof -
  obtain ct where ct: "seal ci k (nonce_for ci s) s = Some ct"
    using assms(1,2) unfolding cipher_ok_def by metis
  have len: "length ct = length s + 16" "unseal ci k (nonce_for ci s) ct = Some s"
    using assms(1,2) ct by (auto simp: cipher_ok_def)
  have "unseal ci k' (nonce_for ci s) ct = None" if "k' \<in> set ks'" "k' \<noteq> k" for k'
  proof -
    have "k' \<in> S" using assms(3) that(1) by blast
    then show ?thesis using assms(1,2) ct that(2) unfolding cipher_ok_def by metis
  qed
  then have "try_keys ci (nonce_for ci s) ct ks' = Some s"
    using try_keys_finds [OF len(2)] assms(4) by blast
  moreover have "c = ENVELOPE_V1_PREFIX @ b64 ci (nonce_for ci s @ ct)"
    using assms(5,6) ct by (simp add: keyring_encrypt_def)
  moreover have "length (nonce_for ci s) = 12" "unb64 ci (b64 ci (nonce_for ci s @ ct)) = Some (nonce_for ci s @ ct)"
    using assms(1) by (auto simp: cipher_ok_def)
  ultimately show ?thesis
    using len(1) by (simp add: keyring_decrypt_def envelope_is_ciphertext starts_with_append)
qed

lemma absorbs_encrypt_decrypt:
  assumes "cipher_ok ci S" and "k \<in> S" and "set ks' \<subseteq> S" and "k \<in> set ks'"
  shows "absorbs (apply_secret_op ci (Some (k # ks)) Encrypt) (apply_secret_op ci (Some ks') Decrypt)"
proof -
  have "keyring_decrypt ci ks' c = Inr u \<longleftrightarrow> keyring_decrypt ci ks' s = Inr u"
    if "keyring_encrypt ci (k # ks) s = Inr c" for s c u
  proof (cases "is_ciphertext s")
    case False
    then show ?thesis
      using keyring_decrypt_encrypt [OF assms that] by (simp add: keyring_decrypt_def)
  qed (use that in \<open>simp add: keyring_encrypt_def\<close>)
  then show ?thesis
    by (simp add: absorbs_def apply_secret_op_def service_encrypt_def service_decrypt_def)
qed

text \<open>A walk whose operation never fails succeeds; one that keeps every string keeps the
  document.\<close>

lemma sum_map_list_total: "(\<And>x. x \<in> set xs \<Longrightarrow> \<exists>y. f x = Inr y) \<Longrightarrow> \<exists>ys. sum_map_list f xs = Inr ys"
proof (induction xs)
  case (Cons x xs)
  then obtain y ys where "f x = Inr y" "sum_map_list f xs = Inr ys" by (metis list.set_intros)
  then show ?case by simp
qed simp

lemma transform_entries_total:
  "(\<And>n x. \<exists>y. f (n, x) = Inr y) \<Longrightarrow> \<exists>w. transform_entries f v = Inr w"
proof -
  assume a: "\<And>n x. \<exists>y. f (n, x) = Inr y"
  show ?thesis
  proof (cases v)
    case (JObject es)
    have "\<exists>ys. sum_map_list (\<lambda>(n, x). sum_bind (f (n, x)) (\<lambda>y. Inr (n, y))) es = Inr ys"
    proof (rule sum_map_list_total)
      fix e assume "e \<in> set es"
      obtain n x where "e = (n, x)" by fastforce
      then show "\<exists>y. (case e of (n, x) \<Rightarrow> sum_bind (f (n, x)) (\<lambda>y. Inr (n, y))) = Inr y"
        using a [of n x] by auto
    qed
    then show ?thesis using JObject by (auto simp: transform_entries_def)
  qed (simp_all add: transform_entries_def)
qed

lemma transform_string_total: "(\<And>s. \<exists>t. f s = Inr t) \<Longrightarrow> \<exists>w. transform_string f v = Inr w"
  by (cases v) (fastforce simp: transform_string_def sum_bind_Inr_iff)+

lemma transform_leaf_total:
  assumes "\<And>s. \<exists>t. f s = Inr t"
  shows "\<exists>w. transform_leaf f v = Inr w"
proof (cases v)
  case (JArray items)
  have "\<exists>ys. sum_map_list (transform_string f) items = Inr ys"
    by (rule sum_map_list_total) (rule transform_string_total [OF assms])
  then show ?thesis using JArray by (auto simp: transform_leaf_def)
qed (use transform_string_total [OF assms, where v = v] in \<open>simp_all add: transform_leaf_def\<close>)

lemma transform_secrets_total:
  assumes "\<And>s. \<exists>t. f s = Inr t"
  shows "\<exists>w. transform_secrets f sch v = Inr w"
proof -
  have "\<exists>w. transform_secrets g sch' v' = Inr w" "\<exists>w. transform_fields g fs obj = Inr w"
    if "g = f" for g sch' v' fs obj
    using that
  proof (induction g sch' v' and g fs obj rule: transform_secrets_transform_fields.induct)
    case (1 g v)
    then show ?case using transform_leaf_total [OF assms] by simp
  next
    case (2 g v)
    then show ?case
      using transform_entries_total [of "\<lambda>(n, x). transform_string f x"]
        transform_string_total [OF assms] by simp
  next
    case (3 g fs v)
    then show ?case by (cases v) (fastforce simp: sum_bind_Inr_iff)+
  next
    case (5 g n sch fs obj)
    then show ?case by (cases "map_of obj n") (fastforce simp: sum_bind_Inr_iff)+
  qed simp
  then show ?thesis by blast
qed

lemma on_field_total: "(\<And>x. \<exists>y. f x = Inr y) \<Longrightarrow> \<exists>w. on_field n f v = Inr w"
proof -
  assume a: "\<And>x. \<exists>y. f x = Inr y"
  show ?thesis
  proof (cases v)
    case (JObject obj)
    show ?thesis
    proof (cases "map_of obj n")
      case (Some x)
      then show ?thesis using a [of x] JObject by (auto simp: on_field_def)
    qed (simp add: JObject on_field_def)
  qed (simp_all add: on_field_def)
qed

lemma transform_resource_total:
  assumes "\<And>s. \<exists>t. f s = Inr t"
  shows "\<exists>w. transform_resource_with f kind v = Inr w"
proof -
  have p: "\<exists>w. transform_plugins f x = Inr w" for x
    unfolding transform_plugins_def
  proof (rule transform_entries_total)
    fix n cfg
    show "\<exists>y. (case (n, cfg) of (n, cfg) \<Rightarrow> case map_of plugin_schemas n of
        Some sch \<Rightarrow> transform_secrets f sch cfg | None \<Rightarrow> Inr cfg) = Inr y"
      using transform_secrets_total [OF assms] by (cases "map_of plugin_schemas n") auto
  qed
  obtain w where "on_field ''plugins'' (transform_plugins f) v = Inr w"
    using on_field_total [of "transform_plugins f", OF p] by blast
  then show ?thesis
    using transform_secrets_total [OF assms] p
      on_field_total [of "transform_secrets f upstream_schema", OF transform_secrets_total [OF assms], of _ w]
    by (cases kind) (simp_all add: transform_resource_with_def)
qed

text \<open>A document none of whose strings carries the ciphertext prefix.\<close>

fun plain :: "json \<Rightarrow> bool" where
  "plain (JString s) = (\<not> is_ciphertext s)"
| "plain (JArray items) = list_all plain items"
| "plain (JObject entries) = list_all (\<lambda>(_, v). plain v) entries"
| "plain _ = True"

definition keeps :: "(string \<Rightarrow> 'e + string) \<Rightarrow> bool" where
  "keeps f \<longleftrightarrow> (\<forall>s. \<not> is_ciphertext s \<longrightarrow> f s = Inr s)"

lemma keeps_string: "keeps f \<Longrightarrow> plain v \<Longrightarrow> transform_string f v = Inr v"
  by (cases v) (auto simp: transform_string_def keeps_def)

lemma sum_map_list_same: "(\<And>x. x \<in> set xs \<Longrightarrow> f x = Inr x) \<Longrightarrow> sum_map_list f xs = Inr xs"
  by (induction xs) auto

lemma keeps_leaf: "keeps f \<Longrightarrow> plain v \<Longrightarrow> transform_leaf f v = Inr v"
proof (cases v)
  case (JArray items)
  assume "keeps f" "plain v"
  then have "sum_map_list (transform_string f) items = Inr items"
    using JArray by (intro sum_map_list_same keeps_string) (auto simp: list_all_iff)
  then show ?thesis using JArray by (simp add: transform_leaf_def)
qed (auto simp: transform_leaf_def keeps_string)

lemma keeps_entries:
  assumes "\<And>es n x. v = JObject es \<Longrightarrow> (n, x) \<in> set es \<Longrightarrow> f (n, x) = Inr x"
  shows "transform_entries f v = Inr v"
proof (cases v)
  case (JObject es)
  have "sum_map_list (\<lambda>(n, x). sum_bind (f (n, x)) (\<lambda>y. Inr (n, y))) es = Inr es"
    using assms [OF JObject] by (intro sum_map_list_same) auto
  then show ?thesis using JObject by (simp add: transform_entries_def)
qed (simp_all add: transform_entries_def)

lemma keeps_walk:
  assumes "keeps f"
  shows "plain v \<Longrightarrow> transform_secrets f sch v = Inr v"
    and "list_all (\<lambda>(_, x). plain x) obj \<Longrightarrow> transform_fields f fs obj = Inr obj"
proof -
  have "(plain v \<longrightarrow> transform_secrets g sch v = Inr v)"
    "(list_all (\<lambda>(_, x). plain x) obj \<longrightarrow> transform_fields g fs obj = Inr obj)"
    if "g = f" for g v sch obj fs
    using that
  proof (induction g sch v and g fs obj rule: transform_secrets_transform_fields.induct)
    case (1 g v)
    then show ?case using keeps_leaf [OF assms] by simp
  next
    case (2 g v)
    then show ?case
      by (auto simp: list_all_iff intro!: keeps_entries keeps_string [OF assms])
  next
    case (3 g fs v)
    then show ?case by (cases v) auto
  next
    case (5 g n sch fs obj)
    show ?case
    proof (cases "map_of obj n")
      case (Some x)
      have px: "plain x" if "list_all (\<lambda>(_, x). plain x) obj"
        using that map_of_SomeD [OF Some] by (auto simp: list_all_iff)
      have up: "AList.update n x obj = obj"
        using Some by (induction obj) (auto split: if_splits)
      have tail: "list_all (\<lambda>(_, x). plain x) (AList.update n y obj) \<longrightarrow>
          transform_fields g fs (AList.update n y obj) = Inr (AList.update n y obj)" for y
        using 5 Some by blast
      have "plain x \<longrightarrow> transform_secrets g sch x = Inr x" using 5 Some by blast
      then show ?thesis using px tail [of x] unfolding up by (simp add: Some up)
    qed (use 5 in simp)
  qed simp
  then show "plain v \<Longrightarrow> transform_secrets f sch v = Inr v"
    and "list_all (\<lambda>(_, x). plain x) obj \<Longrightarrow> transform_fields f fs obj = Inr obj"
    by auto
qed

lemma keeps_plugins: "keeps f \<Longrightarrow> plain v \<Longrightarrow> transform_plugins f v = Inr v"
  unfolding transform_plugins_def
  by (rule keeps_entries) (auto simp: list_all_iff keeps_walk split: option.split)

lemma keeps_on_field:
  assumes "\<And>x. plain x \<Longrightarrow> f x = Inr x" and "plain v"
  shows "on_field n f v = Inr v"
proof (cases v)
  case (JObject obj)
  show ?thesis
  proof (cases "map_of obj n")
    case (Some x)
    then have "plain x" using assms(2) JObject map_of_SomeD [OF Some] by (auto simp: list_all_iff)
    moreover have "AList.update n x obj = obj"
      using Some by (induction obj) (auto split: if_splits)
    ultimately show ?thesis using JObject Some assms(1) by (simp add: on_field_def)
  qed (simp add: JObject on_field_def)
qed (simp_all add: on_field_def)

lemma keeps_resource:
  assumes "keeps f" and "plain v"
  shows "transform_resource_with f kind v = Inr v"
  using keeps_on_field [OF keeps_plugins [OF assms(1)] assms(2)]
    keeps_on_field [OF keeps_walk(1) [OF assms(1)] assms(2)] keeps_walk(1) [OF assms]
  by (cases kind) (simp_all add: transform_resource_with_def)

lemma keeps_decrypt: "keeps (apply_secret_op ci kr Decrypt)"
  by (simp add: keeps_def apply_secret_op_def service_decrypt_def keyring_decrypt_def split: option.split)

section \<open>Redacted documents\<close>

text \<open>\<open>masked v m\<close>: \<open>m\<close> is \<open>v\<close> with some strings replaced by the sentinel.\<close>

inductive masked :: "json \<Rightarrow> json \<Rightarrow> bool" where
  masked_same: "masked v v"
| masked_string: "masked (JString s) (JString REDACTED)"
| masked_array: "list_all2 masked xs ys \<Longrightarrow> masked (JArray xs) (JArray ys)"
| masked_object: "list_all2 (\<lambda>a b. fst b = fst a \<and> masked (snd a) (snd b)) xs ys \<Longrightarrow>
    masked (JObject xs) (JObject ys)"

lemma list_masked_same: "list_all2 masked xs xs"
  by (simp add: list_all2_refl masked_same)

lemma masked_entries:
  "entries_rel (\<lambda>k x y. masked x y) xs ys \<Longrightarrow> masked (JObject xs) (JObject ys)"
  unfolding entries_rel_def
  by (rule masked_object) (auto simp: case_prod_unfold elim!: list_all2_mono)

definition redacting :: "string \<Rightarrow> unit + string" where
  "redacting s = Inr REDACTED"

lemma masked_transform_string: "transform_string redacting v = Inr w \<Longrightarrow> masked v w"
  by (cases v) (auto simp: transform_string_def redacting_def intro: masked_same masked_string)

lemma masked_leaf: "transform_leaf redacting v = Inr w \<Longrightarrow> masked v w"
proof (cases v)
  case (JArray items)
  assume "transform_leaf redacting v = Inr w"
  then obtain ys where "w = JArray ys" "list_all2 (\<lambda>x y. transform_string redacting x = Inr y) items ys"
    using JArray by (auto simp: transform_leaf_def sum_bind_Inr_iff sum_map_list_iff)
  then show ?thesis
    using JArray list_all2_mono [OF _ masked_transform_string] by (auto intro!: masked_array)
qed (auto simp: transform_leaf_def masked_transform_string)

lemma masked_transform_entries:
  assumes "transform_entries f v = Inr w"
    and "\<And>n x y. f (n, x) = Inr y \<Longrightarrow> v = JObject es \<Longrightarrow> (n, x) \<in> set es \<Longrightarrow> masked x y"
    and "v = JObject es"
  shows "masked v w"
proof -
  obtain es' where w: "w = JObject es'" "entries_rel (\<lambda>k x y. f (k, x) = Inr y) es es'"
    using assms(1,3) by (auto simp: transform_entries_Inr)
  have "entries_rel (\<lambda>k x y. masked x y) es es'"
    using w(2) unfolding entries_rel_def
    by (rule list.rel_mono_strong) (use assms(2) [OF _ assms(3)] in auto)
  then show ?thesis using masked_entries assms(3) w(1) by simp
qed

lemma entries_rel_mono:
  assumes "entries_rel R xs ys" and "\<And>k x y. (k, x) \<in> set xs \<Longrightarrow> R k x y \<Longrightarrow> S k x y"
  shows "entries_rel S xs ys"
  using assms unfolding entries_rel_def by (auto elim!: list.rel_mono_strong)

lemma masked_walk:
  "schema_ok sch \<Longrightarrow> json_ok v \<Longrightarrow> transform_secrets redacting sch v = Inr w \<Longrightarrow> masked v w"
proof (induction sch arbitrary: v w)
  case EachString
  show ?case
  proof (cases "\<exists>es. v = JObject es")
    case True
    then show ?thesis
      using EachString masked_transform_entries [of "\<lambda>(n, x). transform_string redacting x" v w]
        masked_transform_string by fastforce
  next
    case False
    then show ?thesis
      using EachString by (cases v) (auto simp: transform_entries_def intro: masked_same)
  qed
next
  case (Fields fs)
  show ?case
  proof (cases "\<exists>obj. v = JObject obj")
    case True
    then obtain obj where v: "v = JObject obj" by blast
    then obtain obj' where w: "w = JObject obj'" and tf: "transform_fields redacting fs obj = Inr obj'"
      using Fields.prems by (auto simp: sum_bind_Inr_iff)
    have dk: "distinct_keys fs" "distinct_keys obj" using Fields.prems v by auto
    have r: "entries_rel (field_rel redacting fs) obj obj'"
      by (rule iffD1 [OF transform_fields_Inr [OF dk] tf])
    have "masked x y" if "(k, x) \<in> set obj" "field_rel redacting fs k x y" for k x y
    proof (cases "map_of fs k")
      case (Some sch)
      then have m: "(k, sch) \<in> set fs" by (rule map_of_SomeD)
      then have "schema_ok sch" "json_ok x"
        using Fields.prems that v by (auto simp: list_all_iff)
      then show ?thesis
        using Fields.IH [OF m, of sch x y] that Some by (simp add: field_rel_def)
    qed (use that in \<open>simp add: field_rel_def masked_same\<close>)
    from masked_entries [OF entries_rel_mono [OF r this]] show ?thesis unfolding v w .
  next
    case False
    then show ?thesis using Fields.prems by (cases v) (auto intro: masked_same)
  qed
qed (simp add: masked_leaf)

lemma masked_plugins:
  assumes "json_ok v" and "transform_plugins redacting v = Inr w"
  shows "masked v w"
proof (cases "\<exists>es. v = JObject es")
  case True
  then obtain es where v: "v = JObject es" by blast
  show ?thesis
  proof (rule masked_transform_entries [OF assms(2) [unfolded transform_plugins_def] _ v])
    fix n x y
    assume "(case (n, x) of (n, cfg) \<Rightarrow> case map_of plugin_schemas n of
        Some sch \<Rightarrow> transform_secrets redacting sch cfg | None \<Rightarrow> Inr cfg) = Inr y" "(n, x) \<in> set es"
    then show "masked x y"
      using masked_walk [OF schemas_ok(3)] assms(1) v
      by (auto simp: list_all_iff intro: masked_same split: option.splits)
  qed
next
  case False
  then show ?thesis
    using assms(2) by (cases v) (auto simp: transform_plugins_def transform_entries_def intro: masked_same)
qed


lemma masked_on_fields:
  assumes "json_ok v" and "v = JObject obj" and "w = JObject obj'" and "entries_rel R obj obj'"
    and "\<And>k x y. json_ok x \<Longrightarrow> R k x y \<Longrightarrow> masked x y"
  shows "masked v w"
  unfolding assms(2,3)
  by (rule masked_entries [OF entries_rel_mono [OF assms(4)]])
    (use assms(1,2,5) in \<open>auto simp: list_all_iff\<close>)

lemma masked_resource:
  assumes "json_ok v" and "transform_resource_with redacting kind v = Inr w"
  shows "masked v w"
proof (cases "\<exists>obj. v = JObject obj")
  case False
  then have "w = v"
    using assms(2) by (cases kind; cases v)
      (auto simp: transform_resource_with_def on_field_def ssl_schema_def upstream_schema_def)
  then show ?thesis by (simp add: masked_same)
next
  case True
  then obtain obj where v: "v = JObject obj" by blast
  then have dk: "distinct_keys obj" using assms(1) by simp
  show ?thesis
  proof (cases kind rule: resource_cases [where 'e = unit and 'd = unit])
    case (fields sch)
    then show ?thesis using masked_walk assms by simp
  next
    case global
    obtain obj' where "w = JObject obj'"
      "entries_rel (at_field ''plugins'' (transform_plugins redacting)) obj obj'"
      using assms(2) v global by (auto simp: transform_resource_with_def on_field_Inr [OF dk])
    from masked_on_fields [OF assms(1) v this] show ?thesis
      using masked_plugins masked_same by (auto simp: at_field_def split: if_splits)
  next
    case both
    obtain obj' where "w = JObject obj'" "entries_rel (resource_rel redacting) obj obj'"
      using assms(2) v both by (auto simp: transform_resource_with_def two_fields [OF dk])
    from masked_on_fields [OF assms(1) v this] show ?thesis
      using masked_plugins masked_same masked_walk [OF schemas_ok(1)]
      by (auto simp: resource_rel_def split: if_splits)
  qed
qed

lemma redact_masked: "json_ok v \<Longrightarrow> masked v (redact kind v)"
proof -
  assume j: "json_ok v"
  have eq: "(\<lambda>_. Inr REDACTED) = redacting" by (simp add: fun_eq_iff redacting_def)
  obtain w where w: "transform_resource_with redacting kind v = Inr w"
    using transform_resource_total [of redacting] by (fastforce simp: redacting_def)
  then show ?thesis using masked_resource [OF j w] by (simp add: redact_def eq)
qed

text \<open>Restoration.\<close>

lemma restore_items_done:
  assumes "list_all2 (\<lambda>x m. restore_walk m x m = x) ps ms"
  shows "restore_items (length qs) (qs @ ms) (qs @ ps) ms = qs @ ps"
  using assms
proof (induction arbitrary: qs rule: list_all2_induct)
  case (Cons x xs m ms)
  then show ?case using Cons.IH [of "qs @ [x]"] by (simp add: nth_append)
qed simp

lemma restore_entries_done:
  assumes "list_all2 (\<lambda>a b. fst b = fst a \<and> restore_walk (snd b) (snd a) (snd b) = snd a) ps ms"
    and "distinct_keys (qs @ ps)"
  shows "restore_entries (qs @ ms) (qs @ ps) ms = qs @ ps"
  using assms
proof (induction arbitrary: qs rule: list_all2_induct)
  case (Cons a ps b ms)
  obtain k x m where ab: "a = (k, x)" "b = (k, m)" using Cons.hyps by (metis prod.collapse)
  have k: "k \<notin> keys qs" using Cons.prems ab by auto
  have "map_of (qs @ (k, y) # ys) k = Some y" for y ys
    using k by (simp add: map_add_def map_of_eq_None_iff [THEN iffD2])
  then show ?case
    using Cons.IH [of "qs @ [(k, x)]"] Cons.prems Cons.hyps ab k by (simp add: update_split)
qed simp

lemma masked_restore: "masked v m \<Longrightarrow> json_ok v \<Longrightarrow> restore_walk m v m = v"
proof -
  have same: "json_ok x \<Longrightarrow> restore_walk x x x = x" for x
  proof (induction x)
    case (JArray items)
    then have "list_all2 (\<lambda>x m. restore_walk m x m = x) items items"
      by (auto simp: list_all2_same list_all_iff)
    then show ?case using restore_items_done [of items items "[]"] by simp
  next
    case (JObject es)
    then have "list_all2 (\<lambda>a b. fst b = fst a \<and> restore_walk (snd b) (snd a) (snd b) = snd a) es es"
      by (fastforce simp: list_all2_same list_all_iff)
    then show ?case using restore_entries_done [of es es "[]"] JObject by simp
  qed simp_all
  assume "masked v m" "json_ok v"
  then show ?thesis
  proof (induction rule: masked.induct)
    case (masked_array xs ys)
    have "list_all2 (\<lambda>x m. restore_walk m x m = x) xs ys"
      using masked_array by (auto simp: list_all_iff elim!: list.rel_mono_strong)
    then show ?case using restore_items_done [of xs ys "[]"] by simp
  next
    case (masked_object xs ys)
    have "list_all2 (\<lambda>a b. fst b = fst a \<and> restore_walk (snd b) (snd a) (snd b) = snd a) xs ys"
      using masked_object by (fastforce simp: list_all_iff elim!: list.rel_mono_strong)
    then show ?case using restore_entries_done [of xs ys "[]"] masked_object by simp
  qed (simp_all add: same)
qed

lemma restore_without_sentinel:
  shows "\<not> contains_redaction_sentinel inc \<Longrightarrow> restore_walk inc pt m = inc"
  and "list_all (\<lambda>(_, x). \<not> contains_redaction_sentinel x) i \<Longrightarrow> restore_entries i p es = i"
  and "list_all (\<lambda>x. \<not> contains_redaction_sentinel x) xs \<Longrightarrow> restore_items n xs ps ms = xs"
proof (induction inc pt m and i p es and n xs ps ms rule: restore_walk_restore_entries_restore_items.induct)
  case (6 i p k sub m)
  show ?case
  proof (cases "map_of i k = None \<or> map_of p k = None")
    case False
    then obtain iv pv where s: "map_of i k = Some iv" "map_of p k = Some pv" by auto
    have "\<not> contains_redaction_sentinel iv"
      using "6.prems" map_of_SomeD [OF s(1)] by (auto simp: list_all_iff)
    moreover have "AList.update k iv i = i"
      using s(1) by (induction i) (auto split: if_splits)
    ultimately show ?thesis using 6 s by simp
  qed (use 6 in \<open>auto split: option.splits\<close>)
qed (auto simp: list_ex_iff list_all_iff split: json.splits prod.splits)

section \<open>Properties\<close>

text \<open>A keyring whose ciphertexts name their key, for the witnesses.\<close>

definition tag_cipher :: "char cipher" where
  "tag_cipher =
     \<lparr>seal = \<lambda>k n s. Some (replicate 16 k @ s),
      unseal = \<lambda>k n c. if take 16 c = replicate 16 k then Some (drop 16 c) else None,
      b64 = \<lambda>s. s, unb64 = Some, nonce_for = \<lambda>s. replicate 12 CHR ''n''\<rparr>"

lemma tag_cipher_ok: "cipher_ok tag_cipher S"
  by (auto simp: cipher_ok_def tag_cipher_def numeral_eq_Suc)

text \<open>key rotation. A value sealed under the key that was the first of the keyring is opened by
  every keyring that still holds that key, at whatever position and next to whatever other keys, and
  is refused with the configuration error by every keyring that does not.\<close>

theorem keyring_rotation:
  assumes "cipher_ok ci S" and "k \<in> S" and "set ks' \<subseteq> S" and "\<not> is_ciphertext s"
    and "keyring_encrypt ci (k # ks) s = Inr c"
  shows "keyring_decrypt ci ks' c =
    (if k \<in> set ks' then Inr s
     else Inl (PE_Configuration ''Failed to decrypt value with any configured keyring key''))"
proof (cases "k \<in> set ks'")
  case True
  then show ?thesis using keyring_decrypt_encrypt [OF assms(1-3) _ assms(5,4)] by simp
next
  case False
  obtain ct where ct: "seal ci k (nonce_for ci s) s = Some ct"
    using assms(1,2) unfolding cipher_ok_def by metis
  have "unseal ci k' (nonce_for ci s) ct = None" if "k' \<in> set ks'" for k'
  proof -
    have "k' \<in> S" "k \<noteq> k'" using assms(3) that False by auto
    then show ?thesis using assms(1,2) ct unfolding cipher_ok_def by metis
  qed
  then have "try_keys ci (nonce_for ci s) ct ks' = None" by (induction ks') auto
  moreover have "c = ENVELOPE_V1_PREFIX @ b64 ci (nonce_for ci s @ ct)"
    using assms(4,5) ct by (simp add: keyring_encrypt_def)
  moreover have "length (nonce_for ci s) = 12" "length ct = length s + 16"
    "unb64 ci (b64 ci (nonce_for ci s @ ct)) = Some (nonce_for ci s @ ct)"
    using assms(1,2) ct by (auto simp: cipher_ok_def)
  ultimately show ?thesis
    using False by (simp add: keyring_decrypt_def envelope_is_ciphertext starts_with_append)
qed

lemma keyring_rotation_witness:
  "\<exists>c. keyring_encrypt tag_cipher [CHR ''a''] ''pw'' = Inr c \<and>
     keyring_decrypt tag_cipher [CHR ''b'', CHR ''a''] c = Inr ''pw'' \<and>
     keyring_decrypt tag_cipher [CHR ''b''] c \<noteq> Inr ''pw''"
proof -
  have p: "\<not> is_ciphertext ''pw''" by (simp add: is_ciphertext_def CIPHERTEXT_PREFIX_def starts_with_def)
  obtain c where c: "keyring_encrypt tag_cipher (CHR ''a'' # []) ''pw'' = Inr c"
    using keyring_encrypt_Inr [OF tag_cipher_ok UNIV_I] by blast
  show ?thesis
    using c keyring_rotation [OF tag_cipher_ok UNIV_I subset_UNIV p c, of "[CHR ''b'', CHR ''a'']"]
      keyring_rotation [OF tag_cipher_ok UNIV_I subset_UNIV p c, of "[CHR ''b'']"] by simp
qed

lemma document_round_trip:
  assumes "cipher_ok ci S" and "k \<in> S" and "set ks' \<subseteq> S" and "k \<in> set ks'"
    and "json_ok v" and "plain v"
    and "transform_resource_secrets ci (Some (k # ks)) kind Encrypt v = Inr v'"
  shows "decrypt_for_read ci (Some ks') kind v' = Inr v"
  using absorbs_resource [OF absorbs_encrypt_decrypt [OF assms(1-4)] assms(5)
      assms(7) [unfolded transform_resource_secrets_def]]
    keeps_resource [OF keeps_decrypt assms(6)]
  by (simp add: transform_resource_secrets_def decrypt_for_read_def)

text \<open>C33: a document survives storage. Every resource document none of whose strings imitates the
  envelope is encrypted without an error, and what is stored decrypts to the very document that was
  put, under every keyring that still holds the writing key; writing an already stored document
  again leaves it as it is.\<close>

theorem stored_document_round_trip:
  assumes "cipher_ok ci S" and "k \<in> S" and "set ks' \<subseteq> S" and "k \<in> set ks'"
    and "json_ok v" and "plain v"
  shows "\<exists>v'. transform_resource_secrets ci (Some (k # ks)) kind Encrypt v = Inr v' \<and>
    decrypt_for_read ci (Some ks') kind v' = Inr v \<and>
    transform_resource_secrets ci (Some (k # ks)) kind Encrypt v' = Inr v'"
proof -
  let ?e = "apply_secret_op ci (Some (k # ks)) Encrypt"
  have tot: "\<exists>t. ?e s = Inr t" for s
    using keyring_encrypt_Inr [OF assms(1,2)] by (fastforce simp: apply_secret_op_def service_encrypt_def)
  obtain v' where v': "transform_resource_with ?e kind v = Inr v'"
    using transform_resource_total [of ?e, OF tot] by blast
  have "decrypt_for_read ci (Some ks') kind v' = Inr v"
    using document_round_trip [OF assms] v' by (simp add: transform_resource_secrets_def)
  moreover have "absorbs ?e ?e"
    unfolding absorbs_def
  proof (intro allI impI)
    fix s t u assume t: "?e s = Inr t"
    then have "is_ciphertext t"
      using keyring_encrypt_Inr [OF assms(1,2), of ks s] by (auto simp: apply_secret_op_def service_encrypt_def)
    then show "?e t = Inr u \<longleftrightarrow> ?e s = Inr u"
      using t by (simp add: apply_secret_op_def service_encrypt_def keyring_encrypt_def)
  qed
  then have "transform_resource_with ?e kind v' = Inr v'"
    using absorbs_resource [OF _ assms(5) v'] v' by blast
  ultimately show ?thesis
    using v' by (simp add: transform_resource_secrets_def)
qed

definition sample_consumer_route :: json where
  "sample_consumer_route =
     JObject [(''plugins'', JObject [(''key-auth'', JObject [(''key'', JString ''k1'')])]),
              (''uri'', JString ''/a'')]"

lemma sample_ok: "json_ok sample_consumer_route" "plain sample_consumer_route"
  by (simp_all add: sample_consumer_route_def is_ciphertext_def CIPHERTEXT_PREFIX_def starts_with_def)

lemma stored_document_round_trip_witness:
  "\<exists>v'. transform_resource_secrets tag_cipher (Some [CHR ''a'']) KRoute Encrypt sample_consumer_route
      = Inr v' \<and>
    decrypt_for_read tag_cipher (Some [CHR ''b'', CHR ''a'']) KRoute v' = Inr sample_consumer_route \<and>
    transform_resource_secrets tag_cipher (Some [CHR ''a'']) KRoute Encrypt v' = Inr v'"
  by (rule stored_document_round_trip [OF tag_cipher_ok [of UNIV] UNIV_I subset_UNIV _ sample_ok]) simp

text \<open>redaction hides the secrets. Whatever a walk puts in the place of the secret strings of a
  document, in particular their encryption, the redacted document is the same: the answer of a GET
  carries no information on a secret.\<close>

theorem redaction_independent_of_secrets:
  assumes "json_ok v" and "transform_resource_with f kind v = Inr v'"
  shows "redact kind v' = redact kind v"
proof -
  have "absorbs f (\<lambda>_. Inr REDACTED :: unit + string)" by (simp add: absorbs_def)
  note a = absorbs_resource [OF this assms]
  obtain w where "transform_resource_with (\<lambda>_. Inr REDACTED :: unit + string) kind v = Inr w"
    using transform_resource_total [of "\<lambda>_. Inr REDACTED :: unit + string"] by blast
  then show ?thesis using a [of w] by (simp add: redact_def)
qed

lemma redaction_independent_of_secrets_witness:
  "\<exists>v'. transform_resource_with (\<lambda>s. Inr (s @ s) :: unit + string) KRoute sample_consumer_route = Inr v' \<and>
     v' \<noteq> sample_consumer_route \<and> redact KRoute v' = redact KRoute sample_consumer_route"
proof -
  let ?f = "\<lambda>s. Inr (s @ s) :: unit + string"
  obtain v' where v': "transform_resource_with ?f KRoute sample_consumer_route = Inr v'"
    using transform_resource_total [of ?f] by blast
  have "v' \<noteq> sample_consumer_route"
    using v' by (auto simp: transform_resource_with_def sample_consumer_route_def on_field_def
        transform_plugins_def transform_entries_def plugin_schemas_def transform_leaf_def transform_string_def)
  then show ?thesis
    using v' redaction_independent_of_secrets [OF sample_ok(1) v'] by blast
qed

text \<open>C34: editing through the Admin API keeps the secrets. A client that puts back the redacted
  document that it was given restores the stored one exactly, also where the stored document holds
  the sentinel itself; and a document without the sentinel is stored as it was sent, whatever is
  already there.\<close>

theorem redacted_round_trip:
  assumes "json_ok stored"
  shows "restore_redacted_secrets kind (redact kind stored) stored = stored \<and>
    (\<not> contains_redaction_sentinel incoming \<longrightarrow>
      restore_redacted_secrets kind incoming stored = incoming)"
  using masked_restore [OF redact_masked [OF assms] assms] restore_without_sentinel(1)
  by (simp_all add: restore_redacted_secrets_def)

lemma redacted_round_trip_witness:
  "restore_redacted_secrets KRoute (redact KRoute sample_consumer_route) sample_consumer_route
     = sample_consumer_route \<and>
   redact KRoute sample_consumer_route \<noteq> sample_consumer_route \<and>
   restore_redacted_secrets KRoute (JString ''x'') sample_consumer_route = JString ''x''"
proof -
  have "redact KRoute sample_consumer_route \<noteq> sample_consumer_route"
    by (simp add: redact_def transform_resource_with_def sample_consumer_route_def on_field_def
        transform_plugins_def transform_entries_def plugin_schemas_def transform_leaf_def
        transform_string_def REDACTED_def)
  then show ?thesis
    using redacted_round_trip [OF sample_ok(1)] by (simp add: REDACTED_def)
qed

end
