(* ===== verification/Plugin_Registry.thy ===== *)
theory Plugin_Registry
  imports Plugin_Core Secrets
begin

text \<open>
  The closed inventory of builtin plugins and its dispatch (\<open>src/plugins/mod.rs\<close>): validation of
  plugin configurations, the upstream references and inline upstreams that they declare, secret
  transforms, and construction with the declared phases; and the identity of an upstream occurrence
  in the configuration graph (\<open>src/proxy/upstream/mod.rs\<close>).

  What the table points to in the plugins' own modules (the validators, extractors and factories) is
  the record \<open>plugin_fns\<close>, indexed by the plugin's name.
\<close>

datatype scope_owner = OwnRoute string | OwnService string | OwnGlobalRule string

datatype upstream_occurrence =
    OccNamed string
  | OccRouteInline string
  | OccServiceInline string
  | OccTrafficSplit scope_owner nat nat
  | OccAiProxy scope_owner

datatype plugin_factory = Plain | WithUpstreams

record plugin_meta =
  pm_name :: string
  pm_phases :: phases
  pm_factory :: plugin_factory
  pm_secrets :: "secret_schema option"
  pm_upstream_refs :: bool
  pm_upstream_jobs :: bool

definition meta :: "string \<Rightarrow> phases \<Rightarrow> plugin_factory \<Rightarrow> bool \<Rightarrow> bool \<Rightarrow> bool \<Rightarrow> plugin_meta" where
  "meta n ph f secrets refs jobs =
     \<lparr>pm_name = n, pm_phases = ph, pm_factory = f,
      pm_secrets = (if secrets then map_of plugin_schemas n else None),
      pm_upstream_refs = refs, pm_upstream_jobs = jobs\<rparr>"

text \<open>The columns are: name, phases, factory, secrets transform, upstream references, inline jobs.\<close>

definition plugin_meta_head :: "plugin_meta list" where
  "plugin_meta_head =
     [meta ''client-control'' (phases_union REQUEST REQUEST_BODY) Plain False False False,
      meta ''exit-transformer'' 0 Plain False False False,
      meta ''request-id'' (phases_union REQUEST RESPONSE) Plain False False False,
      meta ''fault-injection'' REQUEST Plain False False False,
      meta ''cors'' (phases_union REQUEST RESPONSE) Plain False False False,
      meta ''ip-restriction'' REQUEST Plain False False False,
      meta ''uri-blocker'' REQUEST Plain False False False,
      meta ''ai-proxy''
        (phases_union (phases_union (phases_union REQUEST UPSTREAM_REQUEST) REQUEST_BODY) UPSTREAM_PEER) WithUpstreams True False True,
      meta ''request-validation'' (phases_union REQUEST REQUEST_BODY) Plain False False False,
      meta ''csrf'' (phases_union REQUEST RESPONSE) Plain True False False,
      meta ''basic-auth'' REQUEST Plain True False False,
      meta ''jwt-auth'' (phases_union REQUEST RESPONSE) Plain True False False,
      meta ''key-auth'' REQUEST Plain True False False,
      meta ''proxy-cache'' REQUEST Plain False False False,
      meta ''proxy-rewrite'' UPSTREAM_REQUEST Plain False False False]"

definition plugin_meta_tail :: "plugin_meta list" where
  "plugin_meta_tail =
     [meta ''api-breaker'' (phases_union REQUEST RESPONSE) Plain False False False,
      meta ''proxy-mirror''
        (phases_union (phases_union REQUEST UPSTREAM_REQUEST) REQUEST_BODY) Plain False False False,
      meta ''limit-conn'' (phases_union REQUEST LOGGING) Plain False False False,
      meta ''limit-count'' (phases_union REQUEST RESPONSE) Plain False False False,
      meta ''limit-req'' REQUEST Plain False False False,
      meta ''brotli'' EARLY_REQUEST Plain False False False,
      meta ''gzip'' EARLY_REQUEST Plain False False False,
      meta ''redirect'' REQUEST Plain False False False,
      meta ''response-rewrite'' (phases_union RESPONSE RESPONSE_BODY) Plain False False False,
      meta ''grpc-web''
        (phases_union (phases_union (phases_union EARLY_REQUEST REQUEST) REQUEST_BODY) RESPONSE) Plain False False False,
      meta ''prometheus'' LOGGING Plain False False False,
      meta ''echo'' (phases_union RESPONSE RESPONSE_BODY) Plain False False False,
      meta ''file-logger''
        (phases_union (phases_union LOGGING REQUEST_BODY) RESPONSE_BODY) Plain False False False,
      meta ''traffic-split'' REQUEST WithUpstreams False True True]"

definition PLUGIN_META :: "plugin_meta list" where
  "PLUGIN_META = plugin_meta_head @ plugin_meta_tail"

definition plugin_meta_of :: "string \<Rightarrow> plugin_meta option" where
  "plugin_meta_of name = find (\<lambda>m. pm_name m = name) PLUGIN_META"

section \<open>Dispatch\<close>

record ('p, 'c) plugin_fns =
  pf_validate :: "string \<Rightarrow> json \<Rightarrow> proxy_error + unit"
  pf_refs :: "string \<Rightarrow> json \<Rightarrow> proxy_error + string list"
  pf_jobs :: "string \<Rightarrow> scope_owner \<Rightarrow> json \<Rightarrow> proxy_error + (upstream_occurrence \<times> upstream) list"
  pf_plain :: "string \<Rightarrow> json \<Rightarrow> proxy_error + 'p"
  pf_with_upstreams :: "string \<Rightarrow> json \<Rightarrow> 'c \<Rightarrow> proxy_error + 'p"

definition unknown_plugin :: "string \<Rightarrow> proxy_error" where
  "unknown_plugin name = PE_Plugin (''Unknown plugin type: '' @ name)"

definition validate_plugin_config :: "('p, 'c) plugin_fns \<Rightarrow> string \<Rightarrow> json \<Rightarrow> proxy_error + unit" where
  "validate_plugin_config F name cfg =
     (case plugin_meta_of name of
        None \<Rightarrow> Inl (unknown_plugin name)
      | Some _ \<Rightarrow> pf_validate F name cfg)"

definition plugin_upstream_refs :: "('p, 'c) plugin_fns \<Rightarrow> string \<Rightarrow> json \<Rightarrow> proxy_error + string list" where
  "plugin_upstream_refs F name cfg =
     (case plugin_meta_of name of
        None \<Rightarrow> Inr []
      | Some m \<Rightarrow> if pm_upstream_refs m then pf_refs F name cfg else Inr [])"

fun plugin_upstream_jobs :: "('p, 'c) plugin_fns \<Rightarrow> scope_owner \<Rightarrow> plugin_map \<Rightarrow>
    proxy_error + (upstream_occurrence \<times> upstream) list" where
  "plugin_upstream_jobs F owner [] = Inr []"
| "plugin_upstream_jobs F owner ((name, cfg) # plugins) =
     (case plugin_meta_of name of
        Some m \<Rightarrow>
          if pm_upstream_jobs m
          then sum_bind (pf_jobs F name owner cfg) (\<lambda>js.
               sum_bind (plugin_upstream_jobs F owner plugins) (\<lambda>rest. Inr (js @ rest)))
          else plugin_upstream_jobs F owner plugins
      | None \<Rightarrow> plugin_upstream_jobs F owner plugins)"

text \<open>Construction pairs the instance with the phases of its table entry.\<close>

definition build_plugin_with_upstreams ::
  "('p, 'c) plugin_fns \<Rightarrow> string \<Rightarrow> json \<Rightarrow> 'c \<Rightarrow> proxy_error + ('p \<times> phases)" where
  "build_plugin_with_upstreams F name cfg ctx =
     (case plugin_meta_of name of
        None \<Rightarrow> Inl (unknown_plugin name)
      | Some m \<Rightarrow>
          sum_bind (case pm_factory m of
                      Plain \<Rightarrow> pf_plain F name cfg
                    | WithUpstreams \<Rightarrow> pf_with_upstreams F name cfg ctx)
            (\<lambda>p. Inr (p, pm_phases m)))"

definition build_plugin :: "('p, 'c) plugin_fns \<Rightarrow> string \<Rightarrow> json \<Rightarrow> proxy_error + 'p" where
  "build_plugin F name cfg =
     (case plugin_meta_of name of
        None \<Rightarrow> Inl (unknown_plugin name)
      | Some m \<Rightarrow>
          (case pm_factory m of
             Plain \<Rightarrow> pf_plain F name cfg
           | WithUpstreams \<Rightarrow> Inl (PE_Plugin (''Plugin type '' @ quoted name @
               '' requires upstream build context''))))"

definition build_plugin_entry ::
  "('p, 'c) plugin_fns \<Rightarrow> string \<Rightarrow> json \<Rightarrow> proxy_error + ('p \<times> phases)" where
  "build_plugin_entry F name cfg =
     (case plugin_meta_of name of
        None \<Rightarrow> Inl (unknown_plugin name)
      | Some m \<Rightarrow> sum_bind (build_plugin F name cfg) (\<lambda>p. Inr (p, pm_phases m)))"

definition transform_plugin_secrets ::
  "(string \<Rightarrow> 'e + string) \<Rightarrow> string \<Rightarrow> json \<Rightarrow> 'e + json" where
  "transform_plugin_secrets f name config =
     (case plugin_meta_of name of
        None \<Rightarrow> Inr config
      | Some m \<Rightarrow> (case pm_secrets m of None \<Rightarrow> Inr config | Some sch \<Rightarrow> transform_secrets f sch config))"

section \<open>The inventory\<close>

lemma plugin_names_distinct: "distinct (map pm_name PLUGIN_META)"
  by (simp add: PLUGIN_META_def plugin_meta_head_def plugin_meta_tail_def meta_def)

lemma plugin_meta_name: "plugin_meta_of name = Some m \<Longrightarrow> pm_name m = name \<and> m \<in> set PLUGIN_META"
  by (auto simp: plugin_meta_of_def find_Some_iff)

text \<open>The secret transforms of the table are the schemas of the walk over \<open>plugins\<close>.\<close>

lemma plugin_secrets_of: "(case plugin_meta_of name of None \<Rightarrow> None | Some m \<Rightarrow> pm_secrets m) =
    map_of plugin_schemas name"
proof (cases "plugin_meta_of name")
  case None
  then have "\<forall>m \<in> set PLUGIN_META. pm_name m \<noteq> name"
    by (simp add: plugin_meta_of_def find_None_iff)
  then have "name \<notin> keys plugin_schemas"
    by (auto simp: PLUGIN_META_def plugin_meta_head_def plugin_meta_tail_def meta_def plugin_schemas_def)
  then have "map_of plugin_schemas name = None" by (simp only: map_of_None_keys not_False_eq_True)
  then show ?thesis using None by simp
next
  case (Some m)
  then have m: "pm_name m = name" "m \<in> set PLUGIN_META" using plugin_meta_name by auto
  have "\<forall>m \<in> set PLUGIN_META. pm_secrets m = map_of plugin_schemas (pm_name m)"
    by (simp add: PLUGIN_META_def plugin_meta_head_def plugin_meta_tail_def meta_def plugin_schemas_def)
  then show ?thesis using Some m by auto
qed

lemma transform_plugins_by_table:
  "transform_plugins f v = transform_entries (\<lambda>(n, cfg). transform_plugin_secrets f n cfg) v"
proof -
  have "(case map_of plugin_schemas n of Some sch \<Rightarrow> transform_secrets f sch cfg | None \<Rightarrow> Inr cfg) =
      transform_plugin_secrets f n cfg" for n cfg
    unfolding plugin_secrets_of [symmetric] transform_plugin_secrets_def
    by (cases "plugin_meta_of n") auto
  then show ?thesis by (simp add: transform_plugins_def)
qed

end
