(* ===== verification/Config_Graph.thy ===== *)
theory Config_Graph
  imports Plugin_Registry
begin

text \<open>
  The whole configuration graph: the id-keyed resource sets and their validation gate
  (\<open>src/proxy/control_plane/resources.rs\<close>), decoding of stored graphs, watch batches and the planning
  of guarded commits (\<open>src/proxy/graph_mutation/decode.rs\<close>), and the Admin operations of the graph
  authority on the store (\<open>src/proxy/graph_mutation/authority.rs\<close>).

  The record \<open>externals\<close> holds what is not code of this repository: serde's (de)serialisers, with
  the text of their errors, and the checks of TLS material; and the per-plugin functions of the
  registry. A validation error is rendered by its code.
\<close>

section \<open>Resource sets\<close>

record config_set =
  cs_upstreams :: "(string \<times> upstream) list"
  cs_services :: "(string \<times> service) list"
  cs_global_rules :: "(string \<times> global_rule) list"
  cs_routes :: "(string \<times> route) list"
  cs_ssls :: "(string \<times> ssl) list"

definition config_set_default :: config_set where
  "config_set_default = \<lparr>cs_upstreams = [], cs_services = [], cs_global_rules = [], cs_routes = [],
     cs_ssls = []\<rparr>"

record ('p, 'c) externals =
  ex_from_slice :: "string \<Rightarrow> string + json"
  ex_to_vec :: "json \<Rightarrow> string + string"
  ex_upstream :: "json \<Rightarrow> string + upstream"
  ex_service :: "json \<Rightarrow> string + service"
  ex_global_rule :: "json \<Rightarrow> string + global_rule"
  ex_route :: "json \<Rightarrow> string + route"
  ex_ssl :: "json \<Rightarrow> string + ssl"
  ex_tls_material :: "upstream_tls \<Rightarrow> proxy_error + unit"
  ex_ssl_material :: "ssl \<Rightarrow> proxy_error + unit"
  ex_plugins :: "('p, 'c) plugin_fns"

fun collect_by_id :: "('a \<Rightarrow> string) \<Rightarrow> ('a \<Rightarrow> string + unit) \<Rightarrow> string \<Rightarrow> string \<Rightarrow>
    (string \<times> 'a) list \<Rightarrow> 'a list \<Rightarrow> proxy_error + (string \<times> 'a) list" where
  "collect_by_id ident validate resource_name label m [] = Inr m"
| "collect_by_id ident validate resource_name label m (item # items) =
     (if ident item = []
      then Inl (PE_Configuration (label @ '' resource id must be non-empty (id_required)''))
      else case validate item of
             Inl e \<Rightarrow> Inl (PE_Configuration
               (label @ '' '' @ quoted (ident item) @ '' validation failed: '' @ e))
           | Inr _ \<Rightarrow>
               if map_of m (ident item) \<noteq> None
               then Inl (PE_Configuration
                 (''Duplicate '' @ resource_name @ '' ID found: '' @ ident item))
               else collect_by_id ident validate resource_name label
                      (AList.update (ident item) item m) items)"

definition from_yaml_sections ::
  "route list \<Rightarrow> upstream list \<Rightarrow> service list \<Rightarrow> global_rule list \<Rightarrow> ssl list \<Rightarrow> proxy_error + config_set" where
  "from_yaml_sections routes upstreams services global_rules ssls =
     sum_bind (collect_by_id up_id validate_upstream ''upstream'' ''Upstream'' [] upstreams) (\<lambda>us.
     sum_bind (collect_by_id svc_id validate_service ''service'' ''Service'' [] services) (\<lambda>ss.
     sum_bind (collect_by_id gr_id validate_global_rule ''global_rule'' ''GlobalRule'' [] global_rules) (\<lambda>gs.
     sum_bind (collect_by_id rt_id validate_route ''route'' ''Route'' [] routes) (\<lambda>rs.
     sum_bind (collect_by_id ssl_id validate_ssl ''ssl'' ''SSL'' [] ssls) (\<lambda>ls.
     Inr \<lparr>cs_upstreams = us, cs_services = ss, cs_global_rules = gs, cs_routes = rs, cs_ssls = ls\<rparr>)))))"

section \<open>The gate\<close>

fun each :: "('a \<Rightarrow> 'e + unit) \<Rightarrow> 'a list \<Rightarrow> 'e + unit" where
  "each f [] = Inr ()"
| "each f (x # xs) = sum_bind (f x) (\<lambda>_. each f xs)"

lemma each_Inr [simp]: "each f xs = Inr u \<longleftrightarrow> (\<forall>x \<in> set xs. f x = Inr ())"
  by (induction xs) (auto simp: sum_bind_Inr_iff)

definition missing_upstream :: "string \<Rightarrow> string \<Rightarrow> proxy_error" where
  "missing_upstream owner i =
     PE_Configuration (owner @ '' references missing upstream '' @ quoted i)"

definition validate_plugin_upstream_refs ::
  "('p, 'c) plugin_fns \<Rightarrow> string \<Rightarrow> plugin_map \<Rightarrow> (string \<times> upstream) list \<Rightarrow> proxy_error + unit" where
  "validate_plugin_upstream_refs F owner plugins upstreams =
     each (\<lambda>(name, v).
       sum_bind (validate_plugin_config F name v) (\<lambda>_.
       sum_bind (plugin_upstream_refs F name v) (\<lambda>ids.
       each (\<lambda>i. if map_of upstreams i = None
                 then Inl (missing_upstream (owner @ '' plugin '' @ quoted name) i) else Inr ()) ids)))
     plugins"

definition validated :: "string \<Rightarrow> string \<Rightarrow> string + unit \<Rightarrow> proxy_error + unit" where
  "validated label i r =
     map_err (\<lambda>e. PE_Configuration (label @ '' '' @ quoted i @ '' validation failed: '' @ e)) r"

definition check_upstream_id ::
  "(string \<times> upstream) list \<Rightarrow> string \<Rightarrow> upstream option \<Rightarrow> string option \<Rightarrow> proxy_error + unit" where
  "check_upstream_id upstreams owner inline i =
     (case (inline, i) of
        (None, Some i) \<Rightarrow>
          if map_of upstreams i = None then Inl (missing_upstream owner i) else Inr ()
      | _ \<Rightarrow> Inr ())"

definition check_route_refs :: "('p, 'c) plugin_fns \<Rightarrow> config_set \<Rightarrow> route \<Rightarrow> proxy_error + unit" where
  "check_route_refs F cfg r =
     (let owner = ''Route '' @ quoted (rt_id r)
      in sum_bind (case rt_service_id r of
                     Some i \<Rightarrow>
                       if map_of (cs_services cfg) i = None
                       then Inl (PE_Configuration (owner @ '' references missing service '' @ quoted i))
                       else Inr ()
                   | None \<Rightarrow> Inr ()) (\<lambda>_.
         sum_bind (check_upstream_id (cs_upstreams cfg) owner (rt_upstream r) (rt_upstream_id r)) (\<lambda>_.
         validate_plugin_upstream_refs F owner (rt_plugins r) (cs_upstreams cfg))))"

definition check_service_refs :: "('p, 'c) plugin_fns \<Rightarrow> config_set \<Rightarrow> service \<Rightarrow> proxy_error + unit" where
  "check_service_refs F cfg s =
     (let owner = ''Service '' @ quoted (svc_id s)
      in sum_bind (check_upstream_id (cs_upstreams cfg) owner (svc_upstream s) (svc_upstream_id s)) (\<lambda>_.
         validate_plugin_upstream_refs F owner (svc_plugins s) (cs_upstreams cfg)))"

definition check_rule_refs :: "('p, 'c) plugin_fns \<Rightarrow> config_set \<Rightarrow> global_rule \<Rightarrow> proxy_error + unit" where
  "check_rule_refs F cfg g =
     validate_plugin_upstream_refs F (''GlobalRule '' @ quoted (gr_id g)) (gr_plugins g) (cs_upstreams cfg)"

definition validate_config_set :: "('p, 'c) plugin_fns \<Rightarrow> config_set \<Rightarrow> proxy_error + unit" where
  "validate_config_set F cfg =
     sum_bind (each (\<lambda>u. validated ''Upstream'' (up_id u) (validate_upstream u))
       (map snd (cs_upstreams cfg))) (\<lambda>_.
     sum_bind (each (\<lambda>s. validated ''Service'' (svc_id s) (validate_service s))
       (map snd (cs_services cfg))) (\<lambda>_.
     sum_bind (each (\<lambda>g. validated ''GlobalRule'' (gr_id g) (validate_global_rule g))
       (map snd (cs_global_rules cfg))) (\<lambda>_.
     sum_bind (each (\<lambda>r. validated ''Route'' (rt_id r) (validate_route r))
       (map snd (cs_routes cfg))) (\<lambda>_.
     sum_bind (each (\<lambda>l. validated ''SSL'' (ssl_id l) (validate_ssl l))
       (map snd (cs_ssls cfg))) (\<lambda>_.
     sum_bind (each (check_route_refs F cfg) (map snd (cs_routes cfg))) (\<lambda>_.
     sum_bind (each (check_service_refs F cfg) (map snd (cs_services cfg))) (\<lambda>_.
     each (check_rule_refs F cfg) (map snd (cs_global_rules cfg)))))))))"

definition validate_runtime_form :: "('p, 'c) plugin_fns \<Rightarrow> config_set \<Rightarrow> proxy_error + unit" where
  "validate_runtime_form F cfg = validate_config_set F cfg"

definition validate_stored_form :: "('p, 'c) plugin_fns \<Rightarrow> config_set \<Rightarrow> proxy_error + unit" where
  "validate_stored_form F cfg = validate_config_set F cfg"

text \<open>The named upstreams a scope depends on.\<close>

fun plugin_upstream_deps :: "('p, 'c) plugin_fns \<Rightarrow> plugin_map \<Rightarrow> proxy_error + string set" where
  "plugin_upstream_deps F [] = Inr {}"
| "plugin_upstream_deps F ((name, cfg) # plugins) =
     sum_bind (plugin_upstream_refs F name cfg) (\<lambda>ids.
     sum_bind (plugin_upstream_deps F plugins) (\<lambda>deps. Inr (set ids \<union> deps)))"

definition scope_upstream_deps :: "('p, 'c) plugin_fns \<Rightarrow> service \<Rightarrow> proxy_error + string set" where
  "scope_upstream_deps F s =
     sum_bind (plugin_upstream_deps F (svc_plugins s)) (\<lambda>deps.
     Inr (case svc_upstream_id s of Some i \<Rightarrow> insert i deps | None \<Rightarrow> deps))"

definition scope_upstream_deps_rule :: "('p, 'c) plugin_fns \<Rightarrow> route \<Rightarrow> proxy_error + string set" where
  "scope_upstream_deps_rule F r =
     sum_bind (plugin_upstream_deps F (rt_plugins r)) (\<lambda>deps.
     Inr (case rt_upstream_id r of Some i \<Rightarrow> insert i deps | None \<Rightarrow> deps))"

section \<open>Decoding stored graphs\<close>

datatype secret_mode = PreserveStored | DecryptForRuntime

definition resource_from_stored ::
  "('p, 'c) externals \<Rightarrow> 'k cipher \<Rightarrow> 'k list option \<Rightarrow> (json \<Rightarrow> string + 'a) \<Rightarrow> resource_kind \<Rightarrow> bool \<Rightarrow>
   string \<Rightarrow> proxy_error + 'a" where
  "resource_from_stored E ci kr from_value kind decrypt v =
     sum_bind (map_err (serialization_error ''Failed to parse resource JSON'') (ex_from_slice E v)) (\<lambda>j.
     sum_bind (if decrypt then transform_resource_secrets ci kr kind Decrypt j else Inr j) (\<lambda>j.
     map_err (serialization_error ''Failed to deserialize resource'') (from_value j)))"

definition insert_resource ::
  "('p, 'c) externals \<Rightarrow> 'k cipher \<Rightarrow> 'k list option \<Rightarrow> bool \<Rightarrow> config_set \<Rightarrow> resource_key \<Rightarrow> string \<Rightarrow>
   proxy_error + config_set" where
  "insert_resource E ci kr decrypt cfg key v =
     (case rk_kind key of
        KUpstream \<Rightarrow>
          sum_bind (resource_from_stored E ci kr (ex_upstream E) KUpstream decrypt v) (\<lambda>r.
          Inr (cfg\<lparr>cs_upstreams := AList.update (rk_id key) (r\<lparr>up_id := rk_id key\<rparr>) (cs_upstreams cfg)\<rparr>))
      | KService \<Rightarrow>
          sum_bind (resource_from_stored E ci kr (ex_service E) KService decrypt v) (\<lambda>r.
          Inr (cfg\<lparr>cs_services := AList.update (rk_id key) (r\<lparr>svc_id := rk_id key\<rparr>) (cs_services cfg)\<rparr>))
      | KGlobalRule \<Rightarrow>
          sum_bind (resource_from_stored E ci kr (ex_global_rule E) KGlobalRule decrypt v) (\<lambda>r.
          Inr (cfg\<lparr>cs_global_rules := AList.update (rk_id key) (r\<lparr>gr_id := rk_id key\<rparr>) (cs_global_rules cfg)\<rparr>))
      | KRoute \<Rightarrow>
          sum_bind (resource_from_stored E ci kr (ex_route E) KRoute decrypt v) (\<lambda>r.
          Inr (cfg\<lparr>cs_routes := AList.update (rk_id key) (r\<lparr>rt_id := rk_id key\<rparr>) (cs_routes cfg)\<rparr>))
      | KSsl \<Rightarrow>
          sum_bind (resource_from_stored E ci kr (ex_ssl E) KSsl decrypt v) (\<lambda>r.
          Inr (cfg\<lparr>cs_ssls := AList.update (rk_id key) (r\<lparr>ssl_id := rk_id key\<rparr>) (cs_ssls cfg)\<rparr>)))"

fun decode_resources ::
  "('p, 'c) externals \<Rightarrow> 'k cipher \<Rightarrow> 'k list option \<Rightarrow> bool \<Rightarrow> config_set \<Rightarrow>
   (resource_key \<times> stored_resource) list \<Rightarrow> proxy_error + config_set" where
  "decode_resources E ci kr decrypt cfg [] = Inr cfg"
| "decode_resources E ci kr decrypt cfg ((key, r) # rs) =
     sum_bind (insert_resource E ci kr decrypt cfg key (sr_value r)) (\<lambda>cfg.
     decode_resources E ci kr decrypt cfg rs)"

definition decode_graph ::
  "('p, 'c) externals \<Rightarrow> 'k cipher \<Rightarrow> 'k list option \<Rightarrow> stored_graph \<Rightarrow> secret_mode \<Rightarrow> proxy_error + config_set" where
  "decode_graph E ci kr graph mode =
     decode_resources E ci kr (mode = DecryptForRuntime) config_set_default (sg_resources graph)"

fun apply_change :: "stored_change \<Rightarrow> (resource_key \<times> stored_resource) list \<Rightarrow>
    (resource_key \<times> stored_resource) list" where
  "apply_change (ChPut key r) rs = AList.update key r rs"
| "apply_change (ChDelete key) rs = AList.delete key rs"

definition apply_watch_batch :: "stored_graph \<Rightarrow> watch_batch \<Rightarrow> stored_graph" where
  "apply_watch_batch base batch =
     (if wb_changes batch = [] then base
      else base\<lparr>sg_revision := wb_revision batch,
                sg_resources := fold apply_change (wb_changes batch) (sg_resources base)\<rparr>)"

section \<open>Planning guarded commits\<close>

definition plan_put_mutation ::
  "('p, 'c) externals \<Rightarrow> 'k cipher \<Rightarrow> 'k list option \<Rightarrow> stored_graph \<Rightarrow> resource_key \<Rightarrow> string \<Rightarrow>
   graph_error + graph_commit" where
  "plan_put_mutation E ci kr snapshot key stored_value =
     (let candidate = snapshot\<lparr>sg_resources := AList.update key
            \<lparr>sr_value = stored_value, sr_create_revision = 0, sr_mod_revision = 0\<rparr>
            (sg_resources snapshot)\<rparr>
      in sum_bind (map_err InvalidCandidate (decode_graph E ci kr candidate PreserveStored)) (\<lambda>cfg.
         sum_bind (map_err InvalidCandidate (validate_stored_form (ex_plugins E) cfg)) (\<lambda>_.
         Inr \<lparr>gc_mutation = MPut key stored_value,
              gc_expected_target = map_option sr_mod_revision (map_of (sg_resources snapshot) key),
              gc_expected_guard = sg_guard snapshot\<rparr>)))"

definition plan_delete_mutation ::
  "('p, 'c) externals \<Rightarrow> 'k cipher \<Rightarrow> 'k list option \<Rightarrow> stored_graph \<Rightarrow> resource_key \<Rightarrow>
   graph_error + graph_commit" where
  "plan_delete_mutation E ci kr snapshot key =
     (case map_of (sg_resources snapshot) key of
        None \<Rightarrow> Inl (NotFound key)
      | Some existing \<Rightarrow>
          let candidate = snapshot\<lparr>sg_resources := AList.delete key (sg_resources snapshot)\<rparr>
          in sum_bind (map_err ReferentialConflict (decode_graph E ci kr candidate PreserveStored)) (\<lambda>cfg.
             sum_bind (map_err ReferentialConflict (validate_stored_form (ex_plugins E) cfg)) (\<lambda>_.
             Inr \<lparr>gc_mutation = MDelete key, gc_expected_target = Some (sr_mod_revision existing),
                  gc_expected_guard = sg_guard snapshot\<rparr>)))"

section \<open>The Admin operations on the store\<close>

definition map_store_error :: "store_error \<Rightarrow> graph_error" where
  "map_store_error err = (case err of Conflict \<Rightarrow> CasConflict | _ \<Rightarrow> Store err)"

definition parse_stored_resource ::
  "('p, 'c) externals \<Rightarrow> resource_key \<Rightarrow> string \<Rightarrow> graph_error + json" where
  "parse_stored_resource E key v =
     map_err (\<lambda>e. InvalidResource key (serialization_error ''Failed to parse stored resource'' e))
       (ex_from_slice E v)"

definition validate_plugins :: "('p, 'c) plugin_fns \<Rightarrow> plugin_map \<Rightarrow> proxy_error + unit" where
  "validate_plugins F plugins =
     each (\<lambda>(name, v).
       map_err (\<lambda>e. PE_Plugin (''Failed to validate plugin '' @ quoted name @ '': '' @ proxy_error_display e))
         (validate_plugin_config F name v)) plugins"

definition validate_upstream_tls_material :: "('p, 'c) externals \<Rightarrow> upstream \<Rightarrow> proxy_error + unit" where
  "validate_upstream_tls_material E u =
     (case up_tls u of Some t \<Rightarrow> ex_tls_material E t | None \<Rightarrow> Inr ())"

definition typed :: "('a \<Rightarrow> string + unit) \<Rightarrow> string + 'a \<Rightarrow> proxy_error + 'a" where
  "typed validate r =
     sum_bind (map_err (serialization_error ''Failed to deserialize resource JSON'') r) (\<lambda>a.
     sum_bind (map_err PE_ValidationStructured (validate a)) (\<lambda>_. Inr a))"

definition validate_resource_json ::
  "('p, 'c) externals \<Rightarrow> resource_kind \<Rightarrow> json \<Rightarrow> proxy_error + unit" where
  "validate_resource_json E kind v =
     (case kind of
        KUpstream \<Rightarrow>
          sum_bind (typed validate_upstream (ex_upstream E v)) (\<lambda>u.
          validate_upstream_tls_material E u)
      | KService \<Rightarrow>
          sum_bind (typed validate_service (ex_service E v)) (\<lambda>s.
          sum_bind (validate_plugins (ex_plugins E) (svc_plugins s)) (\<lambda>_.
          case svc_upstream s of Some u \<Rightarrow> validate_upstream_tls_material E u | None \<Rightarrow> Inr ()))
      | KGlobalRule \<Rightarrow>
          sum_bind (typed validate_global_rule (ex_global_rule E v)) (\<lambda>g.
          validate_plugins (ex_plugins E) (gr_plugins g))
      | KRoute \<Rightarrow>
          sum_bind (typed validate_route (ex_route E v)) (\<lambda>r.
          sum_bind (validate_plugins (ex_plugins E) (rt_plugins r)) (\<lambda>_.
          case rt_upstream r of Some u \<Rightarrow> validate_upstream_tls_material E u | None \<Rightarrow> Inr ()))
      | KSsl \<Rightarrow>
          sum_bind (typed validate_ssl (ex_ssl E v)) (\<lambda>l. ex_ssl_material E l))"

text \<open>\<open>value["id"] = id\<close>: \<open>serde_json\<close> turns null into an object and panics (\<open>None\<close>) on every other
  value that is not an object.\<close>

definition index_set_id :: "string \<Rightarrow> json \<Rightarrow> json option" where
  "index_set_id i v =
     (case v of
        JObject obj \<Rightarrow> Some (JObject (AList.update ''id'' (JString i) obj))
      | JNull \<Rightarrow> Some (JObject [(''id'', JString i)])
      | _ \<Rightarrow> None)"

definition normalize_id :: "string \<Rightarrow> json \<Rightarrow> json option" where
  "normalize_id i v =
     (if (case json_get ''id'' v of Some x \<Rightarrow> json_as_str x | None \<Rightarrow> None) = Some i then Some v
      else index_set_id i v)"

definition restore_secrets ::
  "('p, 'c) externals \<Rightarrow> 'k cipher \<Rightarrow> 'k list option \<Rightarrow> stored_graph \<Rightarrow> resource_key \<Rightarrow> json \<Rightarrow>
   graph_error + json" where
  "restore_secrets E ci kr snapshot key v =
     (if contains_redaction_sentinel v
      then case map_of (sg_resources snapshot) key of
             None \<Rightarrow> Inr v
           | Some stored \<Rightarrow>
               sum_bind (parse_stored_resource E key (sr_value stored)) (\<lambda>existing.
               sum_bind (map_err (Secret key OpRestore) (decrypt_for_read ci kr (rk_kind key) existing)) (\<lambda>existing.
               Inr (restore_redacted_secrets (rk_kind key) v existing)))
      else Inr v)"

text \<open>A PUT up to its commit; \<open>None\<close> is the panic of \<open>index_set_id\<close>.\<close>

definition prepare_put ::
  "('p, 'c) externals \<Rightarrow> 'k cipher \<Rightarrow> 'k list option \<Rightarrow> stored_graph \<Rightarrow> resource_key \<Rightarrow> json \<Rightarrow>
   (graph_error + graph_commit) option" where
  "prepare_put E ci kr snapshot key v =
     map_option (\<lambda>v.
       sum_bind (restore_secrets E ci kr snapshot key v) (\<lambda>v.
       sum_bind (map_err (InvalidResource key) (validate_resource_json E (rk_kind key) v)) (\<lambda>_.
       sum_bind (map_err (Secret key OpEncrypt)
                   (encrypt_for_storage ci kr (ex_to_vec E) (rk_kind key) v)) (\<lambda>stored.
       plan_put_mutation E ci kr snapshot key stored))))
     (normalize_id (rk_id key) v)"

definition commit_with ::
  "graph_error + graph_commit \<Rightarrow> in_memory_state \<Rightarrow> (graph_error + int) \<times> in_memory_state" where
  "commit_with plan s =
     (case plan of
        Inl e \<Rightarrow> (Inl e, s)
      | Inr c \<Rightarrow> (let (r, s') = im_compare_and_swap c s in (map_err map_store_error r, s')))"


definition graph_delete ::
  "('p, 'c) externals \<Rightarrow> 'k cipher \<Rightarrow> 'k list option \<Rightarrow> resource_key \<Rightarrow> in_memory_state \<Rightarrow>
   (graph_error + int) \<times> in_memory_state" where
  "graph_delete E ci kr key s = commit_with (plan_delete_mutation E ci kr (im_snapshot s) key) s"

record resource_view =
  rv_key :: resource_key
  rv_value :: json
  rv_create_revision :: int
  rv_mod_revision :: int

definition view_of ::
  "('p, 'c) externals \<Rightarrow> 'k cipher \<Rightarrow> 'k list option \<Rightarrow> resource_key \<Rightarrow> stored_resource \<Rightarrow>
   graph_error + resource_view" where
  "view_of E ci kr key r =
     sum_bind (parse_stored_resource E key (sr_value r)) (\<lambda>j.
     sum_bind (map_err (Secret key OpDecrypt) (decrypt_for_read ci kr (rk_kind key) j)) (\<lambda>j.
     Inr \<lparr>rv_key = key, rv_value = redact (rk_kind key) j,
          rv_create_revision = sr_create_revision r, rv_mod_revision = sr_mod_revision r\<rparr>))"


definition graph_list ::
  "('p, 'c) externals \<Rightarrow> 'k cipher \<Rightarrow> 'k list option \<Rightarrow> resource_kind \<Rightarrow> in_memory_state \<Rightarrow>
   graph_error + resource_view list" where
  "graph_list E ci kr kind s =
     sum_bind (sum_map_list (\<lambda>(key, r). view_of E ci kr key r) (im_list_kind kind s)) (\<lambda>views.
     Inr (sort_key (\<lambda>v. rk_id (rv_key v)) views))"

section \<open>What the gate admits\<close>

text \<open>The declarative reading of the gate, over the values stored under each key: every document
  decodes and validates, and every resource it refers to is stored.\<close>

abbreviation rkey :: "resource_kind \<Rightarrow> string \<Rightarrow> resource_key" where
  "rkey kind i \<equiv> \<lparr>rk_kind = kind, rk_id = i\<rparr>"

definition plugins_admitted ::
  "('p, 'c) plugin_fns \<Rightarrow> (resource_key \<Rightarrow> string option) \<Rightarrow> plugin_map \<Rightarrow> bool" where
  "plugins_admitted F m plugins \<longleftrightarrow>
     (\<forall>(name, cfg) \<in> set plugins. validate_plugin_config F name cfg = Inr () \<and>
        (\<exists>ids. plugin_upstream_refs F name cfg = Inr ids \<and>
           (\<forall>i \<in> set ids. m (rkey KUpstream i) \<noteq> None)))"

definition upstream_exists :: "(resource_key \<Rightarrow> string option) \<Rightarrow> upstream option \<Rightarrow> string option \<Rightarrow> bool" where
  "upstream_exists m inline i \<longleftrightarrow>
     (inline = None \<longrightarrow> (\<forall>j. i = Some j \<longrightarrow> m (rkey KUpstream j) \<noteq> None))"

definition graph_admitted ::
  "('p, 'c) externals \<Rightarrow> 'k cipher \<Rightarrow> 'k list option \<Rightarrow> secret_mode \<Rightarrow> (resource_key \<Rightarrow> string option) \<Rightarrow> bool" where
  "graph_admitted E ci kr mode m \<longleftrightarrow>
     (let F = ex_plugins E; D = (mode = DecryptForRuntime)
      in (\<forall>i v. m (rkey KUpstream i) = Some v \<longrightarrow>
            (\<exists>u. resource_from_stored E ci kr (ex_upstream E) KUpstream D v = Inr u \<and>
               validate_upstream u = Inr ())) \<and>
         (\<forall>i v. m (rkey KService i) = Some v \<longrightarrow>
            (\<exists>s. resource_from_stored E ci kr (ex_service E) KService D v = Inr s \<and>
               validate_service s = Inr () \<and>
               upstream_exists m (svc_upstream s) (svc_upstream_id s) \<and>
               plugins_admitted F m (svc_plugins s))) \<and>
         (\<forall>i v. m (rkey KGlobalRule i) = Some v \<longrightarrow>
            (\<exists>g. resource_from_stored E ci kr (ex_global_rule E) KGlobalRule D v = Inr g \<and>
               validate_global_rule g = Inr () \<and> plugins_admitted F m (gr_plugins g))) \<and>
         (\<forall>i v. m (rkey KRoute i) = Some v \<longrightarrow>
            (\<exists>r. resource_from_stored E ci kr (ex_route E) KRoute D v = Inr r \<and>
               validate_route r = Inr () \<and>
               (\<forall>j. rt_service_id r = Some j \<longrightarrow> m (rkey KService j) \<noteq> None) \<and>
               upstream_exists m (rt_upstream r) (rt_upstream_id r) \<and>
               plugins_admitted F m (rt_plugins r))) \<and>
         (\<forall>i v. m (rkey KSsl i) = Some v \<longrightarrow>
            (\<exists>l. resource_from_stored E ci kr (ex_ssl E) KSsl D v = Inr l \<and> validate_ssl l = Inr ())))"

text \<open>The effect of decoding on one of the five maps.\<close>

definition decoded_map :: "(string \<Rightarrow> proxy_error + 'a) \<Rightarrow> (string \<Rightarrow> 'a \<Rightarrow> 'a) \<Rightarrow> resource_kind \<Rightarrow>
    (resource_key \<times> stored_resource) list \<Rightarrow> (string \<Rightarrow> 'a option) \<Rightarrow> (string \<Rightarrow> 'a option) \<Rightarrow> bool" where
  "decoded_map dec sid kind rs m m' \<longleftrightarrow>
     (\<forall>i. case map_of rs (rkey kind i) of
            None \<Rightarrow> m' i = m i
          | Some r \<Rightarrow> \<exists>a. dec (sr_value r) = Inr a \<and> m' i = Some (sid i a))"

lemma decoded_map_other:
  "rk_kind key \<noteq> kind \<Longrightarrow> decoded_map dec sid kind rs m m' \<Longrightarrow> decoded_map dec sid kind ((key, r) # rs) m m'"
  by (auto simp: decoded_map_def)

lemma decoded_map_same:
  assumes "rk_kind key = kind" and "dec (sr_value r) = Inr a" and "key \<notin> keys rs"
    and "decoded_map dec sid kind rs (m(rk_id key \<mapsto> sid (rk_id key) a)) m'"
  shows "decoded_map dec sid kind ((key, r) # rs) m m'"
  unfolding decoded_map_def
proof
  fix i
  show "case map_of ((key, r) # rs) (rkey kind i) of None \<Rightarrow> m' i = m i
      | Some r \<Rightarrow> \<exists>a. dec (sr_value r) = Inr a \<and> m' i = Some (sid i a)"
  proof (cases "i = rk_id key")
    case True
    then have k: "rkey kind i = key" using assms(1) by simp
    have "map_of rs key = None" using assms(3) by (simp only: map_of_None_keys not_False_eq_True)
    then have "m' i = Some (sid i a)"
      using assms(4) [unfolded decoded_map_def, THEN spec, of i] True k by simp
    then show ?thesis using k assms(2) by simp
  next
    case False
    then have "key \<noteq> rkey kind i" by auto
    then show ?thesis using assms(4) [unfolded decoded_map_def, THEN spec, of i] False
      by (simp split: option.splits)
  qed
qed

lemma decoded_map_Nil: "decoded_map dec sid kind [] m m"
  by (simp add: decoded_map_def)

definition cs_distinct :: "config_set \<Rightarrow> bool" where
  "cs_distinct cfg \<longleftrightarrow> distinct_keys (cs_upstreams cfg) \<and> distinct_keys (cs_services cfg) \<and>
     distinct_keys (cs_global_rules cfg) \<and> distinct_keys (cs_routes cfg) \<and> distinct_keys (cs_ssls cfg)"

lemma decode_resources_maps:
  assumes "decode_resources E ci kr D cfg rs = Inr cfg'" and "distinct_keys rs"
  shows "decoded_map (resource_from_stored E ci kr (ex_upstream E) KUpstream D) (\<lambda>i a. a\<lparr>up_id := i\<rparr>)
      KUpstream rs (map_of (cs_upstreams cfg)) (map_of (cs_upstreams cfg')) \<and>
    decoded_map (resource_from_stored E ci kr (ex_service E) KService D) (\<lambda>i a. a\<lparr>svc_id := i\<rparr>)
      KService rs (map_of (cs_services cfg)) (map_of (cs_services cfg')) \<and>
    decoded_map (resource_from_stored E ci kr (ex_global_rule E) KGlobalRule D) (\<lambda>i a. a\<lparr>gr_id := i\<rparr>)
      KGlobalRule rs (map_of (cs_global_rules cfg)) (map_of (cs_global_rules cfg')) \<and>
    decoded_map (resource_from_stored E ci kr (ex_route E) KRoute D) (\<lambda>i a. a\<lparr>rt_id := i\<rparr>)
      KRoute rs (map_of (cs_routes cfg)) (map_of (cs_routes cfg')) \<and>
    decoded_map (resource_from_stored E ci kr (ex_ssl E) KSsl D) (\<lambda>i a. a\<lparr>ssl_id := i\<rparr>)
      KSsl rs (map_of (cs_ssls cfg)) (map_of (cs_ssls cfg')) \<and>
    (cs_distinct cfg \<longrightarrow> cs_distinct cfg')"
  using assms
proof (induction rs arbitrary: cfg)
  case (Cons a rs)
  obtain key r where a: "a = (key, r)" by fastforce
  obtain c1 where c1: "insert_resource E ci kr D cfg key (sr_value r) = Inr c1"
    and rest: "decode_resources E ci kr D c1 rs = Inr cfg'" using Cons.prems a by auto
  have d: "key \<notin> keys rs" "distinct_keys rs" using Cons.prems a by auto
  note IH = Cons.IH [OF rest d(2)]
  show ?case
  proof (cases "rk_kind key")
    case KUpstream
    then obtain u where u: "resource_from_stored E ci kr (ex_upstream E) KUpstream D (sr_value r) = Inr u"
      "c1 = cfg\<lparr>cs_upstreams := AList.update (rk_id key) (u\<lparr>up_id := rk_id key\<rparr>) (cs_upstreams cfg)\<rparr>"
      using c1 by (auto simp: insert_resource_def)
    show ?thesis
      using IH KUpstream
      by (auto simp: a u(2) decoded_map_other cs_distinct_def distinct_update fun_upd_def
          intro!: decoded_map_same [where dec = "resource_from_stored E ci kr (ex_upstream E) KUpstream D"
            and sid = "\<lambda>i a. a\<lparr>up_id := i\<rparr>", OF KUpstream u(1) d(1)])
  next
    case KService
    then obtain u where u: "resource_from_stored E ci kr (ex_service E) KService D (sr_value r) = Inr u"
      "c1 = cfg\<lparr>cs_services := AList.update (rk_id key) (u\<lparr>svc_id := rk_id key\<rparr>) (cs_services cfg)\<rparr>"
      using c1 by (auto simp: insert_resource_def)
    show ?thesis
      using IH KService
      by (auto simp: a u(2) decoded_map_other cs_distinct_def distinct_update fun_upd_def
          intro!: decoded_map_same [where dec = "resource_from_stored E ci kr (ex_service E) KService D"
            and sid = "\<lambda>i a. a\<lparr>svc_id := i\<rparr>", OF KService u(1) d(1)])
  next
    case KGlobalRule
    then obtain u where u: "resource_from_stored E ci kr (ex_global_rule E) KGlobalRule D (sr_value r) = Inr u"
      "c1 = cfg\<lparr>cs_global_rules := AList.update (rk_id key) (u\<lparr>gr_id := rk_id key\<rparr>) (cs_global_rules cfg)\<rparr>"
      using c1 by (auto simp: insert_resource_def)
    show ?thesis
      using IH KGlobalRule
      by (auto simp: a u(2) decoded_map_other cs_distinct_def distinct_update fun_upd_def
          intro!: decoded_map_same [where dec = "resource_from_stored E ci kr (ex_global_rule E) KGlobalRule D"
            and sid = "\<lambda>i a. a\<lparr>gr_id := i\<rparr>", OF KGlobalRule u(1) d(1)])
  next
    case KRoute
    then obtain u where u: "resource_from_stored E ci kr (ex_route E) KRoute D (sr_value r) = Inr u"
      "c1 = cfg\<lparr>cs_routes := AList.update (rk_id key) (u\<lparr>rt_id := rk_id key\<rparr>) (cs_routes cfg)\<rparr>"
      using c1 by (auto simp: insert_resource_def)
    show ?thesis
      using IH KRoute
      by (auto simp: a u(2) decoded_map_other cs_distinct_def distinct_update fun_upd_def
          intro!: decoded_map_same [where dec = "resource_from_stored E ci kr (ex_route E) KRoute D"
            and sid = "\<lambda>i a. a\<lparr>rt_id := i\<rparr>", OF KRoute u(1) d(1)])
  next
    case KSsl
    then obtain u where u: "resource_from_stored E ci kr (ex_ssl E) KSsl D (sr_value r) = Inr u"
      "c1 = cfg\<lparr>cs_ssls := AList.update (rk_id key) (u\<lparr>ssl_id := rk_id key\<rparr>) (cs_ssls cfg)\<rparr>"
      using c1 by (auto simp: insert_resource_def)
    show ?thesis
      using IH KSsl
      by (auto simp: a u(2) decoded_map_other cs_distinct_def distinct_update fun_upd_def
          intro!: decoded_map_same [where dec = "resource_from_stored E ci kr (ex_ssl E) KSsl D"
            and sid = "\<lambda>i a. a\<lparr>ssl_id := i\<rparr>", OF KSsl u(1) d(1)])
  qed
qed (simp add: decoded_map_Nil)

definition document_decodes ::
  "('p, 'c) externals \<Rightarrow> 'k cipher \<Rightarrow> 'k list option \<Rightarrow> bool \<Rightarrow> resource_kind \<Rightarrow> string \<Rightarrow> bool" where
  "document_decodes E ci kr D kind v \<longleftrightarrow>
     (case kind of
        KUpstream \<Rightarrow> is_ok (resource_from_stored E ci kr (ex_upstream E) KUpstream D v)
      | KService \<Rightarrow> is_ok (resource_from_stored E ci kr (ex_service E) KService D v)
      | KGlobalRule \<Rightarrow> is_ok (resource_from_stored E ci kr (ex_global_rule E) KGlobalRule D v)
      | KRoute \<Rightarrow> is_ok (resource_from_stored E ci kr (ex_route E) KRoute D v)
      | KSsl \<Rightarrow> is_ok (resource_from_stored E ci kr (ex_ssl E) KSsl D v))"

lemma is_ok_iff: "is_ok r \<longleftrightarrow> (\<exists>a. r = Inr a)"
  by (cases r) auto

lemma insert_resource_ok:
  "(\<exists>cfg'. insert_resource E ci kr D cfg key v = Inr cfg') \<longleftrightarrow> document_decodes E ci kr D (rk_kind key) v"
  by (cases "rk_kind key") (auto simp: insert_resource_def document_decodes_def is_ok_iff sum_bind_Inr_iff)

lemma decode_resources_ok:
  "(\<exists>cfg'. decode_resources E ci kr D cfg rs = Inr cfg') \<longleftrightarrow>
    (\<forall>(key, r) \<in> set rs. document_decodes E ci kr D (rk_kind key) (sr_value r))"
proof (induction rs arbitrary: cfg)
  case (Cons a rs)
  obtain key r where a: "a = (key, r)" by fastforce
  have "(\<exists>cfg'. decode_resources E ci kr D cfg (a # rs) = Inr cfg') \<longleftrightarrow>
      (\<exists>c1. insert_resource E ci kr D cfg key (sr_value r) = Inr c1 \<and>
        (\<exists>cfg'. decode_resources E ci kr D c1 rs = Inr cfg'))"
    by (auto simp: a sum_bind_Inr_iff)
  also have "\<dots> \<longleftrightarrow> (\<exists>c1. insert_resource E ci kr D cfg key (sr_value r) = Inr c1) \<and>
      (\<forall>(key, r) \<in> set rs. document_decodes E ci kr D (rk_kind key) (sr_value r))"
    unfolding Cons.IH by blast
  finally show ?case unfolding insert_resource_ok by (simp add: a)
qed simp

lemma decoded_map_iff:
  assumes "decoded_map dec sid kind rs Map.empty m'" and "m = (\<lambda>k. map_option sr_value (map_of rs k))"
  shows "m' i = Some x \<longleftrightarrow> (\<exists>v a. m (rkey kind i) = Some v \<and> dec v = Inr a \<and> x = sid i a)"
    and "m' i = None \<longleftrightarrow> m (rkey kind i) = None"
  using assms(1) [unfolded decoded_map_def, THEN spec, of i] assms(2)
  by (auto split: option.splits)

lemma in_values: "distinct_keys al \<Longrightarrow> x \<in> set (map snd al) \<longleftrightarrow> (\<exists>i. map_of al i = Some x)"
  by (force simp: map_of_eq_Some_iff)

lemma validators_ignore_id [simp]:
  "validate_upstream (u\<lparr>up_id := i\<rparr>) = validate_upstream u"
  "validate_service (s\<lparr>svc_id := i\<rparr>) = validate_service s"
  "validate_global_rule (g\<lparr>gr_id := i\<rparr>) = validate_global_rule g"
  "validate_route (r\<lparr>rt_id := i\<rparr>) = validate_route r"
  "validate_ssl (l\<lparr>ssl_id := i\<rparr>) = validate_ssl l"
  by (simp_all add: validate_upstream_def validate_scheme_dependent_fields_def validate_service_def
      validate_global_rule_def validate_route_def route_schema_def validate_ssl_def)

lemma validated_Inr [simp]: "validated label i r = Inr u \<longleftrightarrow> r = Inr ()"
  by (simp add: validated_def)

lemma plugin_refs_Inr:
  assumes "\<And>i. map_of upstreams i = None \<longleftrightarrow> m (rkey KUpstream i) = None"
  shows "validate_plugin_upstream_refs F owner plugins upstreams = Inr u \<longleftrightarrow> plugins_admitted F m plugins"
  by (simp add: validate_plugin_upstream_refs_def plugins_admitted_def assms case_prod_unfold
      sum_bind_Inr_iff)

lemma check_upstream_id_Inr:
  assumes "\<And>i. map_of upstreams i = None \<longleftrightarrow> m (rkey KUpstream i) = None"
  shows "check_upstream_id upstreams owner inline j = Inr u \<longleftrightarrow> upstream_exists m inline j"
  by (auto simp: check_upstream_id_def upstream_exists_def assms split: option.splits)

lemma all_decoded:
  assumes "decoded_map dec sid kind rs Map.empty m'" and "m = (\<lambda>k. map_option sr_value (map_of rs k))"
    and "\<And>i a. P (sid i a) \<longleftrightarrow> Q a"
  shows "(\<forall>i x. m' i = Some x \<longrightarrow> P x) \<longleftrightarrow>
    (\<forall>i v. m (rkey kind i) = Some v \<longrightarrow> (\<exists>a. dec v = Inr a \<and> Q a))"
proof -
  note iff = decoded_map_iff [OF assms(1,2)]
  have "\<exists>a. dec v = Inr a" if "m (rkey kind i) = Some v" for i v
    using iff(2) [of i] iff(1) [of i] that by (cases "m' i") auto
  then show ?thesis unfolding iff(1) using assms(3) by (metis sum.inject(2) option.inject)
qed

lemma each_values:
  "distinct_keys al \<Longrightarrow> each f (map snd al) = Inr () \<longleftrightarrow> (\<forall>i x. map_of al i = Some x \<longrightarrow> f x = Inr ())"
  unfolding each_Inr using in_values [of al] by blast

lemma then_Inr: "sum_bind r (\<lambda>_ :: unit. s) = Inr u \<longleftrightarrow> r = Inr () \<and> s = Inr u"
  by (cases r) auto

lemma gate_decoded:
  assumes dec: "decode_graph E ci kr g mode = Inr cfg" and d: "distinct_keys (sg_resources g)"
  shows "validate_config_set (ex_plugins E) cfg = Inr () \<longleftrightarrow> graph_admitted E ci kr mode (graph_values g)"
proof -
  let ?m = "graph_values g" and ?D = "mode = DecryptForRuntime"
  have m: "?m = (\<lambda>k. map_option sr_value (map_of (sg_resources g) k))"
    by (simp add: fun_eq_iff graph_values_def)
  note maps = decode_resources_maps [OF dec [unfolded decode_graph_def] d,
    unfolded config_set_default_def config_set.simps map_of.simps(1)]
  have dl: "distinct_keys (cs_upstreams cfg)" "distinct_keys (cs_services cfg)"
    "distinct_keys (cs_global_rules cfg)" "distinct_keys (cs_routes cfg)" "distinct_keys (cs_ssls cfg)"
    using maps by (simp_all add: cs_distinct_def)
  note mu = conjunct1 [OF maps] and r1 = conjunct2 [OF maps]
  note ms = conjunct1 [OF r1] and r2 = conjunct2 [OF r1]
  note mg = conjunct1 [OF r2] and r3 = conjunct2 [OF r2]
  note mr = conjunct1 [OF r3] and r4 = conjunct2 [OF r3]
  note ml = conjunct1 [OF r4]
  note none = decoded_map_iff(2) [OF mu m] decoded_map_iff(2) [OF ms m]
  have split: "(\<forall>i x. f i = Some x \<longrightarrow> P x \<and> Q x) \<longleftrightarrow>
      (\<forall>i x. f i = Some x \<longrightarrow> P x) \<and> (\<forall>i x. f i = Some x \<longrightarrow> Q x)"
    for f :: "string \<Rightarrow> 'z option" and P Q by blast
  have "validate_config_set (ex_plugins E) cfg = Inr () \<longleftrightarrow>
      (\<forall>i x. map_of (cs_upstreams cfg) i = Some x \<longrightarrow> validate_upstream x = Inr ()) \<and>
      (\<forall>i x. map_of (cs_services cfg) i = Some x \<longrightarrow>
        validate_service x = Inr () \<and> check_service_refs (ex_plugins E) cfg x = Inr ()) \<and>
      (\<forall>i x. map_of (cs_global_rules cfg) i = Some x \<longrightarrow>
        validate_global_rule x = Inr () \<and> check_rule_refs (ex_plugins E) cfg x = Inr ()) \<and>
      (\<forall>i x. map_of (cs_routes cfg) i = Some x \<longrightarrow>
        validate_route x = Inr () \<and> check_route_refs (ex_plugins E) cfg x = Inr ()) \<and>
      (\<forall>i x. map_of (cs_ssls cfg) i = Some x \<longrightarrow> validate_ssl x = Inr ())"
    unfolding validate_config_set_def then_Inr each_values [OF dl(1)] each_values [OF dl(2)]
      each_values [OF dl(3)] each_values [OF dl(4)] each_values [OF dl(5)] validated_Inr split
    by (simp only: conj_ac)
  also have "\<dots> \<longleftrightarrow> graph_admitted E ci kr mode ?m"
    unfolding graph_admitted_def Let_def
  proof (intro conj_cong)
    show "(\<forall>i x. map_of (cs_upstreams cfg) i = Some x \<longrightarrow> validate_upstream x = Inr ()) \<longleftrightarrow>
      (\<forall>i v. ?m (rkey KUpstream i) = Some v \<longrightarrow>
        (\<exists>u. resource_from_stored E ci kr (ex_upstream E) KUpstream ?D v = Inr u \<and> validate_upstream u = Inr ()))"
      by (rule all_decoded [OF mu m]) simp
    show "(\<forall>i x. map_of (cs_services cfg) i = Some x \<longrightarrow>
        validate_service x = Inr () \<and> check_service_refs (ex_plugins E) cfg x = Inr ()) \<longleftrightarrow>
      (\<forall>i v. ?m (rkey KService i) = Some v \<longrightarrow>
        (\<exists>s. resource_from_stored E ci kr (ex_service E) KService ?D v = Inr s \<and>
          validate_service s = Inr () \<and> upstream_exists ?m (svc_upstream s) (svc_upstream_id s) \<and>
          plugins_admitted (ex_plugins E) ?m (svc_plugins s)))"
      by (rule all_decoded [OF ms m])
        (simp add: check_service_refs_def Let_def sum_bind_Inr_iff check_upstream_id_Inr [OF none(1)]
          plugin_refs_Inr [OF none(1)])
    show "(\<forall>i x. map_of (cs_global_rules cfg) i = Some x \<longrightarrow>
        validate_global_rule x = Inr () \<and> check_rule_refs (ex_plugins E) cfg x = Inr ()) \<longleftrightarrow>
      (\<forall>i v. ?m (rkey KGlobalRule i) = Some v \<longrightarrow>
        (\<exists>g. resource_from_stored E ci kr (ex_global_rule E) KGlobalRule ?D v = Inr g \<and>
          validate_global_rule g = Inr () \<and> plugins_admitted (ex_plugins E) ?m (gr_plugins g)))"
      by (rule all_decoded [OF mg m]) (simp add: check_rule_refs_def plugin_refs_Inr [OF none(1)])
    show "(\<forall>i x. map_of (cs_routes cfg) i = Some x \<longrightarrow>
        validate_route x = Inr () \<and> check_route_refs (ex_plugins E) cfg x = Inr ()) \<longleftrightarrow>
      (\<forall>i v. ?m (rkey KRoute i) = Some v \<longrightarrow>
        (\<exists>r. resource_from_stored E ci kr (ex_route E) KRoute ?D v = Inr r \<and>
          validate_route r = Inr () \<and>
          (\<forall>j. rt_service_id r = Some j \<longrightarrow> ?m (rkey KService j) \<noteq> None) \<and>
          upstream_exists ?m (rt_upstream r) (rt_upstream_id r) \<and>
          plugins_admitted (ex_plugins E) ?m (rt_plugins r)))"
      by (rule all_decoded [OF mr m])
        (auto simp: check_route_refs_def Let_def sum_bind_Inr_iff check_upstream_id_Inr [OF none(1)]
          plugin_refs_Inr [OF none(1)] none(2) split: option.splits)
    show "(\<forall>i x. map_of (cs_ssls cfg) i = Some x \<longrightarrow> validate_ssl x = Inr ()) \<longleftrightarrow>
      (\<forall>i v. ?m (rkey KSsl i) = Some v \<longrightarrow>
        (\<exists>l. resource_from_stored E ci kr (ex_ssl E) KSsl ?D v = Inr l \<and> validate_ssl l = Inr ()))"
      by (rule all_decoded [OF ml m]) simp
  qed
  finally show ?thesis .
qed

lemma admitted_decodes:
  assumes "graph_admitted E ci kr mode (graph_values g)" and "distinct_keys (sg_resources g)"
  shows "\<exists>cfg. decode_graph E ci kr g mode = Inr cfg"
  unfolding decode_graph_def decode_resources_ok
proof clarify
  fix key r assume kr: "(key, r) \<in> set (sg_resources g)"
  obtain kind i where key: "key = rkey kind i" by (cases key) auto
  have "graph_values g (rkey kind i) = Some (sr_value r)"
    using kr assms(2) by (simp add: graph_values_def key)
  then show "document_decodes E ci kr (mode = DecryptForRuntime) (rk_kind key) (sr_value r)"
    using assms(1) unfolding graph_admitted_def Let_def document_decodes_def is_ok_iff key
    by (cases kind) fastforce+
qed

lemma gate_exact:
  assumes "distinct_keys (sg_resources g)"
  shows "(\<exists>cfg. decode_graph E ci kr g mode = Inr cfg \<and> validate_config_set (ex_plugins E) cfg = Inr ()) \<longleftrightarrow>
    graph_admitted E ci kr mode (graph_values g)"
  using gate_decoded [OF _ assms] admitted_decodes [OF _ assms] by blast

section \<open>Planned commits\<close>

definition planned :: "('p, 'c) externals \<Rightarrow> 'k cipher \<Rightarrow> 'k list option \<Rightarrow> stored_graph \<Rightarrow> graph_commit \<Rightarrow> bool" where
  "planned E ci kr g c \<longleftrightarrow>
     (\<exists>key v. prepare_put E ci kr g key v = Some (Inr c)) \<or>
     (\<exists>key. plan_delete_mutation E ci kr g key = Inr c)"

lemma plan_put_Inr:
  assumes "plan_put_mutation E ci kr g key stored = Inr c" and "distinct_keys (sg_resources g)"
  shows "gc_mutation c = MPut key stored" and "gc_expected_guard c = sg_guard g"
    and "graph_admitted E ci kr PreserveStored (mutate_values (gc_mutation c) (graph_values g))"
proof -
  let ?r = "\<lparr>sr_value = stored, sr_create_revision = 0, sr_mod_revision = 0\<rparr>"
  let ?cand = "g\<lparr>sg_resources := AList.update key ?r (sg_resources g)\<rparr>"
  from assms(1) obtain cfg where cfg: "decode_graph E ci kr ?cand PreserveStored = Inr cfg"
      "validate_config_set (ex_plugins E) cfg = Inr ()"
    and c: "gc_mutation c = MPut key stored" "gc_expected_guard c = sg_guard g"
    by (auto simp: plan_put_mutation_def Let_def validate_stored_form_def)
  show "gc_mutation c = MPut key stored" "gc_expected_guard c = sg_guard g" by (fact c)+
  have "graph_values ?cand = mutate_values (gc_mutation c) (graph_values g)"
    by (simp add: fun_eq_iff graph_values_def c)
  moreover have "distinct_keys (sg_resources ?cand)" using assms(2) by (simp add: distinct_update)
  ultimately show "graph_admitted E ci kr PreserveStored (mutate_values (gc_mutation c) (graph_values g))"
    using gate_exact [of ?cand E ci kr PreserveStored] cfg by auto
qed

lemma plan_delete_Inr:
  assumes "plan_delete_mutation E ci kr g key = Inr c" and "distinct_keys (sg_resources g)"
  shows "gc_mutation c = MDelete key" and "gc_expected_guard c = sg_guard g"
    and "graph_admitted E ci kr PreserveStored (mutate_values (gc_mutation c) (graph_values g))"
proof -
  let ?cand = "g\<lparr>sg_resources := AList.delete key (sg_resources g)\<rparr>"
  from assms(1) obtain cfg where cfg: "decode_graph E ci kr ?cand PreserveStored = Inr cfg"
      "validate_config_set (ex_plugins E) cfg = Inr ()"
    and c: "gc_mutation c = MDelete key" "gc_expected_guard c = sg_guard g"
    by (auto simp: plan_delete_mutation_def Let_def validate_stored_form_def split: option.splits)
  show "gc_mutation c = MDelete key" "gc_expected_guard c = sg_guard g" by (fact c)+
  have "graph_values ?cand = mutate_values (gc_mutation c) (graph_values g)"
    by (simp add: fun_eq_iff graph_values_def c)
  moreover have "distinct_keys (sg_resources ?cand)" using assms(2) by (simp add: distinct_delete)
  ultimately show "graph_admitted E ci kr PreserveStored (mutate_values (gc_mutation c) (graph_values g))"
    using gate_exact [of ?cand E ci kr PreserveStored] cfg by auto
qed

lemma prepare_put_plan:
  assumes "prepare_put E ci kr g key v = Some (Inr c)"
  shows "\<exists>stored. plan_put_mutation E ci kr g key stored = Inr c"
  using assms by (auto simp: prepare_put_def)

lemma plan_expected_guard:
  "plan_put_mutation E ci kr g key stored = Inr c \<Longrightarrow> gc_expected_guard c = sg_guard g"
  "plan_delete_mutation E ci kr g key = Inr c \<Longrightarrow> gc_expected_guard c = sg_guard g"
  by (auto simp: plan_put_mutation_def plan_delete_mutation_def Let_def split: option.splits)

interpretation admin: graph_clients im_snapshot im_compare_and_swap im_inv
  "planned E ci kr" "graph_admitted E ci kr PreserveStored"
  for E :: "('p, 'c) externals" and ci :: "'k cipher" and kr :: "'k list option"
proof unfold_locales
  fix g c
  show "planned E ci kr g c \<Longrightarrow> gc_expected_guard c = sg_guard g"
    unfolding planned_def using prepare_put_plan plan_expected_guard by blast
next
  fix s c
  assume "im_inv s"
  then have d: "distinct_keys (sg_resources (im_snapshot s))" by (simp add: im_inv_def im_snapshot_def)
  show "planned E ci kr (im_snapshot s) c \<Longrightarrow>
      graph_admitted E ci kr PreserveStored (mutate_values (gc_mutation c) (graph_values (im_snapshot s)))"
    unfolding planned_def using prepare_put_plan plan_put_Inr(3) [OF _ d] plan_delete_Inr(3) [OF _ d] by blast
qed

text \<open>Any number of Admin requests in flight: each observes the store and plans its commit, and
  sends it later, while others commit in between.\<close>

inductive admin_step ::
  "('p, 'c) externals \<Rightarrow> 'k cipher \<Rightarrow> 'k list option \<Rightarrow>
   in_memory_state \<times> (nat \<Rightarrow> graph_commit option) \<Rightarrow> in_memory_state \<times> (nat \<Rightarrow> graph_commit option) \<Rightarrow> bool"
  for E ci kr where
  observe: "planned E ci kr (im_snapshot s) c \<Longrightarrow> admin_step E ci kr (s, p) (s, p(client \<mapsto> c))"
| commit: "p client = Some c \<Longrightarrow> im_compare_and_swap c s = (res, s') \<Longrightarrow>
    admin_step E ci kr (s, p) (s', p(client := None))"

definition admin_reachable ::
  "('p, 'c) externals \<Rightarrow> 'k cipher \<Rightarrow> 'k list option \<Rightarrow> in_memory_state \<Rightarrow> (nat \<Rightarrow> graph_commit option) \<Rightarrow> bool" where
  "admin_reachable E ci kr s p \<longleftrightarrow> (admin_step E ci kr)\<^sup>*\<^sup>* (in_memory_new, \<lambda>_. None) (s, p)"

definition admin_inv ::
  "('p, 'c) externals \<Rightarrow> 'k cipher \<Rightarrow> 'k list option \<Rightarrow> in_memory_state \<Rightarrow> (nat \<Rightarrow> graph_commit option) \<Rightarrow> bool" where
  "admin_inv E ci kr s p \<longleftrightarrow>
     im_inv s \<and> graph_admitted E ci kr PreserveStored (graph_values (im_snapshot s)) \<and>
     (\<forall>client c. p client = Some c \<longrightarrow>
        (\<exists>s0 cs. im_inv s0 \<and> planned E ci kr (im_snapshot s0) c \<and> s = im.run cs s0))"

lemma run_append: "im.run (cs @ ds) s = im.run ds (im.run cs s)"
  by (induction cs arbitrary: s) simp_all

lemma admin_inv_new: "admin_inv E ci kr in_memory_new (\<lambda>_. None)"
  by (simp add: admin_inv_def in_memory_new_def im_inv_def stored_graph_default_def im_snapshot_def
      graph_admitted_def graph_values_def)

lemma admin_inv_step:
  assumes "admin_step E ci kr (s, p) (s', p')" and "admin_inv E ci kr s p"
  shows "admin_inv E ci kr s' p'"
  using assms(1)
proof (cases rule: admin_step.cases)
  case (observe c client)
  have "\<exists>s0 cs. im_inv s0 \<and> planned E ci kr (im_snapshot s0) c \<and> s = im.run cs s0"
    using assms(2) observe by (intro exI [of _ s] exI [of _ "[]"]) (simp add: admin_inv_def)
  then show ?thesis using assms(2) observe by (auto simp: admin_inv_def)
next
  case (commit client c res)
  obtain s0 cs where s0: "im_inv s0" "planned E ci kr (im_snapshot s0) c" "s = im.run cs s0"
    using assms(2) commit unfolding admin_inv_def by blast
  have s': "s' = snd (im_compare_and_swap c s)" and res: "fst (im_compare_and_swap c s) = res"
    using commit(3) by simp_all
  have "graph_admitted E ci kr PreserveStored (graph_values (im_snapshot s'))"
  proof (cases res)
    case (Inl e)
    then have "s' = s" unfolding s' using im.cas_error [of c s e] res by simp
    then show ?thesis using assms(2) by (simp add: admin_inv_def)
  next
    case (Inr r)
    have "fst (im_compare_and_swap c (im.run cs s0)) = Inr r" using res Inr s0(3) by simp
    from admin.commit_good [OF s0(1,2) this] show ?thesis unfolding s' s0(3) .
  qed
  moreover have "im_inv s'" unfolding s' using assms(2) im.cas_inv by (simp add: admin_inv_def)
  moreover have "\<exists>t0 ds. im_inv t0 \<and> planned E ci kr (im_snapshot t0) d \<and> s' = im.run ds t0"
    if pd: "p cl = Some d" for cl d
  proof -
    obtain t0 ds where t: "im_inv t0" "planned E ci kr (im_snapshot t0) d" "s = im.run ds t0"
      using assms(2) pd unfolding admin_inv_def by blast
    have "s' = im.run (ds @ [c]) t0" unfolding s' t(3) by (simp add: run_append)
    then show ?thesis using t by blast
  qed
  ultimately show ?thesis unfolding admin_inv_def commit(1) by (auto split: if_splits)
qed

lemma admin_reachable_inv: "admin_reachable E ci kr s p \<Longrightarrow> admin_inv E ci kr s p"
proof -
  have "case_prod (admin_inv E ci kr) x" if "(admin_step E ci kr)\<^sup>*\<^sup>* (in_memory_new, \<lambda>_. None) x" for x
    using that
  proof (induction rule: rtranclp_induct)
    case base
    then show ?case by (simp add: admin_inv_new)
  next
    case (step y z)
    then show ?case by (cases y; cases z) (auto intro: admin_inv_step)
  qed
  then show "admin_reachable E ci kr s p \<Longrightarrow> admin_inv E ci kr s p"
    by (auto simp: admin_reachable_def)
qed

section \<open>Properties\<close>

text \<open>Deserialisers that accept every document, for the witnesses: one upstream, and one route that
  refers to the upstream \<open>u1\<close>.\<close>

definition sample_route :: route where
  "sample_route = \<lparr>rt_id = ''r1'', rt_name = None, rt_uri = Some ''/'', rt_uris = [], rt_methods = [],
     rt_host = None, rt_hosts = [], rt_priority = 0, rt_plugins = [], rt_upstream = None,
     rt_upstream_id = Some ''u1'', rt_service_id = None, rt_timeout = None, rt_enable_websocket = False\<rparr>"

definition sample_plugins :: "(unit, unit) plugin_fns" where
  "sample_plugins = \<lparr>pf_validate = \<lambda>_ _. Inr (), pf_refs = \<lambda>_ _. Inr [], pf_jobs = \<lambda>_ _ _. Inr [],
     pf_plain = \<lambda>_ _. Inr (), pf_with_upstreams = \<lambda>_ _ _. Inr ()\<rparr>"

fun sample_parse :: "string \<Rightarrow> string + json" where
  "sample_parse s = (if s = ''doc'' then Inr (JObject [(''id'', JString ''u1'')]) else Inl ''syntax'')"

definition sample_externals :: "(unit, unit) externals" where
  "sample_externals = \<lparr>ex_from_slice = sample_parse,
     ex_to_vec = \<lambda>_. Inr ''doc'', ex_upstream = \<lambda>_. Inr example_upstream, ex_service = \<lambda>_. Inl ''none'',
     ex_global_rule = \<lambda>_. Inl ''none'', ex_route = \<lambda>_. Inr sample_route, ex_ssl = \<lambda>_. Inl ''none'',
     ex_tls_material = \<lambda>_. Inr (), ex_ssl_material = \<lambda>_. Inr (), ex_plugins = sample_plugins\<rparr>"

definition sample_stored :: "stored_resource" where
  "sample_stored = \<lparr>sr_value = ''doc'', sr_create_revision = 1, sr_mod_revision = 1\<rparr>"

definition linked_graph :: stored_graph where
  "linked_graph = \<lparr>sg_resources = [(\<lparr>rk_kind = KRoute, rk_id = ''r1''\<rparr>, sample_stored),
     (\<lparr>rk_kind = KUpstream, rk_id = ''u1''\<rparr>, sample_stored)], sg_guard = Some 1, sg_revision = 1\<rparr>"

definition dangling_graph :: stored_graph where
  "dangling_graph = \<lparr>sg_resources = [(\<lparr>rk_kind = KRoute, rk_id = ''r1''\<rparr>, sample_stored)],
     sg_guard = Some 1, sg_revision = 1\<rparr>"

text \<open>C28: the gate is exact and depends on nothing but the stored values. A graph passes decoding and
  whole-graph validation if and only if every stored document decodes and validates, every plugin
  configuration is valid, and every service and upstream that a route, a service, a global rule or a
  plugin refers to is stored: the order of the resources and of the maps plays no role.\<close>

theorem graph_gate_exact:
  assumes "distinct_keys (sg_resources g)"
  shows "is_ok (sum_bind (decode_graph E ci kr g mode) (validate_stored_form (ex_plugins E))) \<longleftrightarrow>
    graph_admitted E ci kr mode (graph_values g)"
  using gate_exact [OF assms, of E ci kr mode]
  by (simp add: is_ok_iff sum_bind_Inr_iff validate_stored_form_def)

lemma graph_gate_exact_witness:
  "graph_admitted sample_externals tag_cipher None PreserveStored (graph_values linked_graph) \<and>
   \<not> graph_admitted sample_externals tag_cipher None PreserveStored (graph_values dangling_graph)"
proof -
  have "is_ok (sum_bind (decode_graph sample_externals tag_cipher None linked_graph PreserveStored)
      (validate_stored_form (ex_plugins sample_externals)))" by code_simp
  moreover have "\<not> is_ok (sum_bind (decode_graph sample_externals tag_cipher None dangling_graph PreserveStored)
      (validate_stored_form (ex_plugins sample_externals)))" by code_simp
  ultimately show ?thesis
    using graph_gate_exact [of linked_graph sample_externals tag_cipher None PreserveStored]
      graph_gate_exact [of dangling_graph sample_externals tag_cipher None PreserveStored]
    by (simp add: linked_graph_def dangling_graph_def)
qed

text \<open>C2: the stored graph is always valid. However the PUTs and DELETEs of any number of Admin
  clients interleave, each planned on the graph its client observed and committed later, every graph
  that the store ever holds passes the gate.\<close>

theorem admin_graph_always_valid:
  assumes "admin_reachable E ci kr s p"
  shows "graph_admitted E ci kr PreserveStored (graph_values (im_snapshot s))"
  using admin_reachable_inv [OF assms] by (simp add: admin_inv_def)

definition first_put :: graph_commit where
  "first_put = \<lparr>gc_mutation = MPut \<lparr>rk_kind = KUpstream, rk_id = ''u1''\<rparr> ''doc'',
     gc_expected_target = None, gc_expected_guard = None\<rparr>"

lemma first_put_planned: "planned sample_externals tag_cipher None (im_snapshot in_memory_new) first_put"
proof -
  have "prepare_put sample_externals tag_cipher None (im_snapshot in_memory_new)
      \<lparr>rk_kind = KUpstream, rk_id = ''u1''\<rparr> JNull = Some (Inr first_put)" by code_simp
  then show ?thesis unfolding planned_def by blast
qed

definition after_first_put :: in_memory_state where
  "after_first_put = snd (im_compare_and_swap first_put in_memory_new)"

lemma first_put_reachable:
  "admin_reachable sample_externals tag_cipher None after_first_put ((\<lambda>_. None)(0 := None))"
proof -
  have "admin_step sample_externals tag_cipher None (in_memory_new, \<lambda>_. None)
      (in_memory_new, (\<lambda>_. None)(0 \<mapsto> first_put))" by (rule observe [OF first_put_planned])
  moreover have "admin_step sample_externals tag_cipher None (in_memory_new, (\<lambda>_. None)(0 \<mapsto> first_put))
      (after_first_put, ((\<lambda>_. None)(0 \<mapsto> first_put))(0 := None))"
    by (rule commit [of _ _ _ _ "fst (im_compare_and_swap first_put in_memory_new)"])
      (simp_all add: after_first_put_def)
  ultimately show ?thesis
    unfolding admin_reachable_def by (simp add: converse_rtranclp_into_rtranclp)
qed

lemma admin_graph_always_valid_witness:
  "graph_admitted sample_externals tag_cipher None PreserveStored (graph_values (im_snapshot after_first_put)) \<and>
   graph_values (im_snapshot after_first_put) \<lparr>rk_kind = KUpstream, rk_id = ''u1''\<rparr> = Some ''doc''"
proof -
  have "graph_values (im_snapshot after_first_put) \<lparr>rk_kind = KUpstream, rk_id = ''u1''\<rparr> = Some ''doc''"
    by code_simp
  then show ?thesis using admin_graph_always_valid [OF first_put_reachable] by simp
qed

text \<open>C1: Admin writes are serialisable and no update is lost. In every interleaving, a commit that
  the store accepts was planned on exactly the graph it is applied to, and it changes that graph by
  its own mutation alone.\<close>

theorem admin_writes_serialisable:
  assumes "admin_reachable E ci kr s p" and "p client = Some c"
    and "im_compare_and_swap c s = (Inr r, s')"
  shows "planned E ci kr (im_snapshot s) c \<and>
    graph_values (im_snapshot s') = mutate_values (gc_mutation c) (graph_values (im_snapshot s))"
proof -
  obtain s0 cs where s0: "im_inv s0" "planned E ci kr (im_snapshot s0) c" "s = im.run cs s0"
    using admin_reachable_inv [OF assms(1)] assms(2) unfolding admin_inv_def by blast
  have r: "fst (im_compare_and_swap c (im.run cs s0)) = Inr r" using assms(3) s0(3) by simp
  have "im.run cs s0 = s0"
    by (rule im.no_lost_update(1) [OF s0(1) admin.planned_guard [OF s0(2)] r])
  then show ?thesis
    using s0 im.cas_effect [of c s r] assms(3) by simp
qed

lemma admin_writes_serialisable_witness:
  "planned sample_externals tag_cipher None (im_snapshot in_memory_new) first_put \<and>
   graph_values (im_snapshot after_first_put) =
     mutate_values (gc_mutation first_put) (graph_values (im_snapshot in_memory_new))"
proof (rule admin_writes_serialisable)
  show "admin_reachable sample_externals tag_cipher None in_memory_new ((\<lambda>_. None)(0 \<mapsto> first_put))"
    unfolding admin_reachable_def by (rule r_into_rtranclp) (rule observe [OF first_put_planned])
  show "((\<lambda>_. None)(0 \<mapsto> first_put)) (0 :: nat) = Some first_put" by simp
  show "im_compare_and_swap first_put in_memory_new = (Inr 1, after_first_put)"
    unfolding after_first_put_def by code_simp
qed




















text \<open>a PUT of a JSON document that is neither an object nor null, such as \<open>[]\<close>, does not return
  an error: the handler panics while it normalises the identifier, before any validation; and it
  panics on no other document.\<close>

theorem put_panics_exactly:
  "prepare_put E ci kr snapshot key v = None \<longleftrightarrow> v \<noteq> JNull \<and> (\<forall>obj. v \<noteq> JObject obj)"
  by (cases v) (auto simp: prepare_put_def normalize_id_def index_set_id_def)

fun change_key :: "stored_change \<Rightarrow> resource_key" where
  "change_key (ChPut k _) = k"
| "change_key (ChDelete k) = k"

fun change_result :: "stored_change \<Rightarrow> stored_resource option" where
  "change_result (ChPut _ r) = Some r"
| "change_result (ChDelete _) = None"

lemma fold_changes:
  "map_of (fold apply_change cs rs) k =
    (case filter (\<lambda>c. change_key c = k) cs of
       [] \<Rightarrow> map_of rs k
     | ds \<Rightarrow> change_result (last ds))"
proof (induction cs rule: rev_induct)
  case (snoc c cs)
  then show ?case by (cases c) (auto split: list.splits)
qed simp

text \<open>Within a watch batch the last change of a key wins and no other key is touched, whatever
  the order of the other changes.\<close>

theorem watch_last_change_wins:
  "map_of (sg_resources (apply_watch_batch base batch)) k =
    (case filter (\<lambda>c. change_key c = k) (wb_changes batch) of
       [] \<Rightarrow> map_of (sg_resources base) k
     | ds \<Rightarrow> change_result (last ds))"
  using fold_changes [of "wb_changes batch" "sg_resources base" k]
  by (simp add: apply_watch_batch_def)

lemma collect_by_id_acc:
  "collect_by_id ident validate name label m items = Inr m' \<longleftrightarrow>
    (\<forall>x \<in> set items. ident x \<noteq> [] \<and> validate x = Inr ()) \<and> distinct (map ident items) \<and>
    (\<forall>x \<in> set items. map_of m (ident x) = None) \<and>
    m' = fold (\<lambda>x. AList.update (ident x) x) items m"
proof (induction items arbitrary: m)
  case (Cons x xs)
  show ?case by (auto simp: Cons.IH image_iff split: sum.splits)
qed auto

lemma map_of_fold_update:
  "distinct (map ident items) \<Longrightarrow>
   map_of (fold (\<lambda>x. AList.update (ident x) x) items m) i =
     (case find (\<lambda>x. ident x = i) items of Some x \<Rightarrow> Some x | None \<Rightarrow> map_of m i)"
proof (induction items arbitrary: m)
  case (Cons x xs)
  have "find (\<lambda>y. ident y = i) xs = None" if "ident x = i"
    using Cons.prems that by (auto simp: find_None_iff image_iff)
  then show ?case using Cons by (auto split: option.splits)
qed simp

text \<open>the static resource sections are collected without loss: a section is accepted if and only
  if every entry has a non-empty identifier and validates and no identifier occurs twice, and the map
  holds exactly the entries of the section under their identifiers.\<close>

theorem yaml_section_exact:
  "(\<exists>m. collect_by_id ident validate name label [] items = Inr m \<and>
      (\<forall>i. map_of m i = find (\<lambda>x. ident x = i) items)) \<longleftrightarrow>
    list_all (\<lambda>x. ident x \<noteq> [] \<and> validate x = Inr ()) items \<and> distinct (map ident items)"
  unfolding collect_by_id_acc
  by (auto simp: map_of_fold_update list_all_iff split: option.splits)

end
