(* ===== verification/Publication.thy ===== *)
theory Publication
  imports Config_Graph Status
begin

text \<open>
  Ingestion and publication of the configuration graph (\<open>src/proxy/graph_mutation/state.rs\<close> and the
  ingestion half of \<open>authority.rs\<close>): the publication registry, submissions, the single preparation
  worker with its generation fence, and shutdown.

  The world is the shared state \<open>Inner\<close> together with the worker's program position. An event is one
  critical section or one await point: ingestion (decode, validate, lifecycle check) and the rest of
  \<open>submit\<close> are two events that hold \<open>write_lock\<close> together; the worker's preparation and compilation
  end by events that carry the outcome of DNS and of the blocking task; publication is one event
  under \<open>write_lock\<close>; the two halves of \<open>shutdown\<close> take no lock and may fall between any other two.
  A cancellation token is named by the generation it was created for. Compilation is a parameter
  \<open>C\<close> of the typed resource set, the runtime loaded before preparation and the prepared upstream
  material \<open>'q\<close>; its failure stands for a compile error and for a panic of the blocking task.

  \<open>RuntimeStore::publish\<close> always returns \<open>Ok\<close>, so the publication event has no branch for its error.

  Not modelled: the bounded wait for the worker task at shutdown, the race inside
  \<open>ensure_worker_started\<close> between its two locks, and what the worker may see between the locks that
  \<open>submit\<close> takes one after another (it reads the target and the generation without \<open>write_lock\<close>):
  \<open>submit\<close> is one event.
\<close>

section \<open>The publication registry\<close>

definition PUBLICATION_REGISTRY_CAPACITY :: nat where "PUBLICATION_REGISTRY_CAPACITY = 128"

datatype publication_state = Pending | Published | Rejected | Superseded

record publication_view =
  pv_state :: publication_state
  pv_published_revision :: "int option"
  pv_error :: "string option"

record publication_record =
  pb_state :: publication_state
  pb_error :: "string option"

text \<open>\<open>records\<close> is a \<open>BTreeMap\<close>: sorted by revision.\<close>

record registry =
  pr_records :: "(int \<times> publication_record) list"
  pr_published :: "int option"

definition registry_default :: registry where
  "registry_default = \<lparr>pr_records = [], pr_published = None\<rparr>"

function trim_records :: "(int \<times> publication_record) list \<Rightarrow> (int \<times> publication_record) list" where
  "trim_records rs =
     (if length rs > PUBLICATION_REGISTRY_CAPACITY
      then case find (\<lambda>(_, r). pb_state r \<noteq> Pending) rs of
             None \<Rightarrow> rs
           | Some (revision, _) \<Rightarrow> trim_records (AList.delete revision rs)
      else rs)"
  by auto
termination
proof (relation "measure length")
  fix rs :: "(int \<times> publication_record) list" and x k r
  assume "find (\<lambda>(_, r). pb_state r \<noteq> Pending) rs = Some x" and "(k, r) = x"
  then have "(k, r) \<in> set rs"
    by (auto simp: find_Some_iff) (metis nth_mem)
  then show "(AList.delete k rs, rs) \<in> measure length"
    by (induction rs) (auto simp: length_delete le_imp_less_Suc)
qed simp

declare trim_records.simps [simp del]

definition trim_registry :: "registry \<Rightarrow> registry" where
  "trim_registry g = g\<lparr>pr_records := trim_records (pr_records g)\<rparr>"

definition reg_pending :: "int \<Rightarrow> registry \<Rightarrow> registry" where
  "reg_pending revision g =
     (if revision > 0
      then trim_registry
             (g\<lparr>pr_records :=
                (case map_of (pr_records g) revision of
                   Some _ \<Rightarrow> pr_records g
                 | None \<Rightarrow> bt_insert revision \<lparr>pb_state = Pending, pb_error = None\<rparr> (pr_records g))\<rparr>)
      else g)"

definition supersede_pending_except :: "int \<Rightarrow> registry \<Rightarrow> registry" where
  "supersede_pending_except revision g =
     g\<lparr>pr_records := map (\<lambda>(candidate, r).
         (candidate, if candidate \<noteq> revision \<and> pb_state r = Pending
                     then \<lparr>pb_state = Superseded, pb_error = None\<rparr> else r)) (pr_records g)\<rparr>"

definition reg_update :: "int \<Rightarrow> (publication_record \<Rightarrow> publication_record) \<Rightarrow> registry \<Rightarrow> registry" where
  "reg_update revision f g =
     g\<lparr>pr_records := map (\<lambda>(k, r). (k, if k = revision then f r else r)) (pr_records g)\<rparr>"

definition reg_published :: "int \<Rightarrow> registry \<Rightarrow> registry" where
  "reg_published revision g =
     trim_registry ((reg_update revision (\<lambda>_. \<lparr>pb_state = Published, pb_error = None\<rparr>)
       (reg_pending revision g))\<lparr>pr_published := Some revision\<rparr>)"

definition reg_rejected :: "int \<Rightarrow> string \<Rightarrow> registry \<Rightarrow> registry" where
  "reg_rejected revision e g =
     reg_update revision (\<lambda>r. if pb_state r = Pending
       then \<lparr>pb_state = Rejected, pb_error = Some e\<rparr> else r) g"

definition reg_view :: "int \<Rightarrow> registry \<Rightarrow> publication_view option" where
  "reg_view revision g =
     map_option (\<lambda>r. \<lparr>pv_state = pb_state r, pv_published_revision = pr_published g,
       pv_error = pb_error r\<rparr>) (map_of (pr_records g) revision)"

definition safe_preparation_error :: "bool \<Rightarrow> string" where
  "safe_preparation_error permanent =
     (if permanent then ''candidate rejected during runtime preparation''
      else ''candidate preparation temporarily unavailable'')"

section \<open>The world\<close>

record 's runtime_snapshot =
  rs_revision :: int
  rs_body :: 's

record pending_graph =
  pg_generation :: nat
  pg_revision :: int
  pg_stored :: stored_graph
  pg_logical :: config_set

datatype lifecycle = Running | Stopped

text \<open>The worker's position; the optional number is the generation it noted before the attempt.\<close>

datatype ('q, 's) worker =
    WNone
  | WReceive
  | WAttempt "nat option"
  | WPreparing "nat option" pending_graph "'s runtime_snapshot"
  | WCompiling "nat option" pending_graph "'s runtime_snapshot" 'q
  | WCompiled "nat option" pending_graph "'s runtime_snapshot"
  | WTransient "nat option"
  | WBackoff nat
  | WPermanent "nat option"
  | WWaiting nat

record ('q, 's) world =
  pw_runtime :: "'s runtime_snapshot"
  pw_committed :: "stored_graph option"
  pw_target :: "pending_graph option"
  pw_generation :: nat
  pw_active :: "nat option"
  pw_cancelled :: "nat list"
  pw_lifecycle :: lifecycle
  pw_sender :: bool
  pw_signal :: bool
  pw_submitting :: "(stored_graph \<times> config_set) option"
  pw_registry :: registry
  pw_status :: status
  pw_worker :: "('q, 's) worker"

definition world_new :: "'s \<Rightarrow> status \<Rightarrow> ('q, 's) world" where
  "world_new initial st =
     \<lparr>pw_runtime = \<lparr>rs_revision = 0, rs_body = initial\<rparr>, pw_committed = None, pw_target = None,
      pw_generation = 0, pw_active = None, pw_cancelled = [], pw_lifecycle = Running,
      pw_sender = False, pw_signal = False, pw_submitting = None, pw_registry = registry_default,
      pw_status = st, pw_worker = WNone\<rparr>"

section \<open>Ingestion\<close>

definition ensure_worker_started :: "('q, 's) world \<Rightarrow> graph_error + ('q, 's) world" where
  "ensure_worker_started w =
     (if pw_lifecycle w \<noteq> Running then Inl WorkerStopped
      else if pw_sender w then Inr w
      else Inr (w\<lparr>pw_sender := True, pw_signal := False, pw_worker := WReceive\<rparr>))"

text \<open>The common tail of \<open>replace_all\<close> and \<open>apply_watch\<close>, up to the end of
  \<open>ensure_worker_started\<close>.\<close>

definition ingest ::
  "('p, 'c) externals \<Rightarrow> 'k cipher \<Rightarrow> 'k list option \<Rightarrow> stored_graph \<Rightarrow> ('q, 's) world \<Rightarrow>
   graph_error + ('q, 's) world" where
  "ingest E ci kr stored w =
     sum_bind (map_err InvalidCandidate (decode_graph E ci kr stored DecryptForRuntime)) (\<lambda>logical.
     sum_bind (map_err InvalidCandidate (validate_runtime_form (ex_plugins E) logical)) (\<lambda>_.
     sum_bind (ensure_worker_started w) (\<lambda>w.
     Inr (w\<lparr>pw_submitting := Some (stored, logical)\<rparr>))))"

definition replace_all ::
  "('p, 'c) externals \<Rightarrow> 'k cipher \<Rightarrow> 'k list option \<Rightarrow> stored_graph \<Rightarrow> ('q, 's) world \<Rightarrow>
   graph_error + ('q, 's) world" where
  "replace_all E ci kr snapshot w = ingest E ci kr snapshot w"

definition watch_base :: "('q, 's) world \<Rightarrow> stored_graph" where
  "watch_base w =
     (case pw_target w of
        Some t \<Rightarrow> pg_stored t
      | None \<Rightarrow> (case pw_committed w of Some g \<Rightarrow> g | None \<Rightarrow> stored_graph_default))"

definition apply_watch ::
  "('p, 'c) externals \<Rightarrow> 'k cipher \<Rightarrow> 'k list option \<Rightarrow> watch_batch \<Rightarrow> ('q, 's) world \<Rightarrow>
   graph_error + ('q, 's) world" where
  "apply_watch E ci kr batch w =
     (if wb_changes batch = [] then Inr w
      else if wb_revision batch < rs_revision (pw_runtime w)
      then Inl (StaleRevision (wb_revision batch) (rs_revision (pw_runtime w)))
      else ingest E ci kr (apply_watch_batch (watch_base w) batch) w)"

text \<open>The rest of \<open>submit\<close>. Its result is an error when shutdown has dropped the sender.\<close>

definition submit :: "stored_graph \<Rightarrow> config_set \<Rightarrow> ('q, 's) world \<Rightarrow> (graph_error + unit) \<times> ('q, 's) world" where
  "submit stored logical w =
     (let generation = pw_generation w + 1;
          revision = sg_revision stored;
          w = w\<lparr>pw_generation := generation,
                pw_registry := supersede_pending_except revision (reg_pending revision (pw_registry w)),
                pw_cancelled := (case pw_active w of
                                   Some previous \<Rightarrow> previous # pw_cancelled w
                                 | None \<Rightarrow> pw_cancelled w),
                pw_active := Some generation,
                pw_target := Some \<lparr>pg_generation = generation, pg_revision = revision,
                                   pg_stored = stored, pg_logical = logical\<rparr>,
                pw_submitting := None\<rparr>
      in if pw_sender w then (Inr (), w\<lparr>pw_signal := True\<rparr>) else (Inl WorkerStopped, w))"

definition record_pending_publication :: "int \<Rightarrow> ('q, 's) world \<Rightarrow> ('q, 's) world" where
  "record_pending_publication revision w = w\<lparr>pw_registry := reg_pending revision (pw_registry w)\<rparr>"

definition shutdown_mark :: "('q, 's) world \<Rightarrow> ('q, 's) world" where
  "shutdown_mark w = w\<lparr>pw_lifecycle := Stopped\<rparr>"

definition shutdown_cancel :: "('q, 's) world \<Rightarrow> ('q, 's) world" where
  "shutdown_cancel w =
     (if pw_lifecycle w = Stopped
      then w\<lparr>pw_cancelled := (case pw_active w of Some a \<Rightarrow> a # pw_cancelled w | None \<Rightarrow> pw_cancelled w),
             pw_active := None, pw_sender := False\<rparr>
      else w)"

section \<open>The worker\<close>

definition cancelled :: "nat \<Rightarrow> ('q, 's) world \<Rightarrow> bool" where
  "cancelled g w \<longleftrightarrow> g \<in> set (pw_cancelled w)"

definition current_target :: "('q, 's) world \<Rightarrow> nat option" where
  "current_target w = map_option pg_generation (pw_target w)"

definition is_current_generation :: "nat \<Rightarrow> ('q, 's) world \<Rightarrow> bool" where
  "is_current_generation g w \<longleftrightarrow> pw_generation w = g"

text \<open>\<open>rx.recv()\<close>: a queued signal starts an attempt, a dropped sender ends the worker.\<close>

definition worker_receive :: "('q, 's) world \<Rightarrow> ('q, 's) world" where
  "worker_receive w =
     (if pw_worker w = WReceive
      then if pw_signal w then w\<lparr>pw_signal := False, pw_worker := WAttempt (current_target w)\<rparr>
           else if \<not> pw_sender w then w\<lparr>pw_worker := WNone\<rparr> else w
      else w)"

definition worker_take :: "('q, 's) world \<Rightarrow> ('q, 's) world" where
  "worker_take w =
     (case pw_worker w of
        WAttempt a \<Rightarrow>
          (case pw_target w of
             None \<Rightarrow> w\<lparr>pw_worker := WReceive\<rparr>
           | Some t \<Rightarrow> w\<lparr>pw_worker := WPreparing a t (pw_runtime w)\<rparr>)
      | _ \<Rightarrow> w)"

text \<open>\<open>tokio::select!\<close>: when the token is cancelled the preparation may end as settled.\<close>

definition worker_prepared :: "'q option \<Rightarrow> ('q, 's) world \<Rightarrow> ('q, 's) world" where
  "worker_prepared result w =
     (case pw_worker w of
        WPreparing a t previous \<Rightarrow>
          w\<lparr>pw_worker := (case result of Some q \<Rightarrow> WCompiling a t previous q | None \<Rightarrow> WTransient a)\<rparr>
      | _ \<Rightarrow> w)"

definition worker_compiled ::
  "(config_set \<Rightarrow> 's runtime_snapshot \<Rightarrow> 'q \<Rightarrow> 's option) \<Rightarrow> ('q, 's) world \<Rightarrow> ('q, 's) world" where
  "worker_compiled C w =
     (case pw_worker w of
        WCompiling a t previous q \<Rightarrow>
          w\<lparr>pw_worker := (case C (pg_logical t) previous q of
              Some s \<Rightarrow> WCompiled a t \<lparr>rs_revision = pg_revision t, rs_body = s\<rparr>
            | None \<Rightarrow> WPermanent a)\<rparr>
      | _ \<Rightarrow> w)"

definition worker_cancelled :: "('q, 's) world \<Rightarrow> ('q, 's) world" where
  "worker_cancelled w =
     (case pw_worker w of
        WPreparing a t _ \<Rightarrow> if cancelled (pg_generation t) w then w\<lparr>pw_worker := WReceive\<rparr> else w
      | WCompiling a t _ q \<Rightarrow> if cancelled (pg_generation t) w then w\<lparr>pw_worker := WReceive\<rparr> else w
      | WBackoff g \<Rightarrow> if cancelled g w then w\<lparr>pw_worker := WReceive\<rparr> else w
      | WWaiting g \<Rightarrow> if cancelled g w then w\<lparr>pw_worker := WReceive\<rparr> else w
      | _ \<Rightarrow> w)"

text \<open>The fenced publication at the end of \<open>prepare_latest\<close>; \<open>RuntimeStore::publish\<close> stores the
  snapshot and records its revision as published.\<close>

definition worker_publish :: "nat \<Rightarrow> ('q, 's) world \<Rightarrow> ('q, 's) world" where
  "worker_publish now w =
     (case pw_worker w of
        WCompiled a t snapshot \<Rightarrow>
          if pw_submitting w \<noteq> None then w
          else if cancelled (pg_generation t) w \<or> pw_generation w \<noteq> pg_generation t \<or>
                  pg_revision t < rs_revision (pw_runtime w)
          then w\<lparr>pw_worker := WReceive\<rparr>
          else w\<lparr>pw_runtime := snapshot,
                 pw_status := set_published_revision now (pg_revision t) (pw_status w),
                 pw_committed := Some (pg_stored t),
                 pw_registry := reg_published (pg_revision t) (pw_registry w),
                 pw_worker := WReceive\<rparr>
      | _ \<Rightarrow> w)"

definition reject_publication :: "nat \<Rightarrow> string \<Rightarrow> ('q, 's) world \<Rightarrow> ('q, 's) world" where
  "reject_publication generation e w =
     (case pw_target w of
        Some t \<Rightarrow>
          if pg_generation t = generation
          then w\<lparr>pw_registry := reg_rejected (pg_revision t) e (pw_registry w)\<rparr> else w
      | None \<Rightarrow> w)"

text \<open>The two error arms of the worker's loop.\<close>

definition worker_failed :: "('q, 's) world \<Rightarrow> ('q, 's) world" where
  "worker_failed w =
     (case pw_worker w of
        WTransient a \<Rightarrow>
          let w = w\<lparr>pw_status := record_preparation_error (safe_preparation_error False) (pw_status w)\<rparr>
          in (case a of
                None \<Rightarrow> w\<lparr>pw_worker := WReceive\<rparr>
              | Some g \<Rightarrow>
                  if \<not> is_current_generation g w then w\<lparr>pw_worker := WAttempt (current_target w)\<rparr>
                  else w\<lparr>pw_worker := WBackoff g\<rparr>)
      | WPermanent a \<Rightarrow>
          let w = (case a of
                     Some g \<Rightarrow> reject_publication g (safe_preparation_error True) w
                   | None \<Rightarrow> w);
              w = w\<lparr>pw_status := record_preparation_error (safe_preparation_error True) (pw_status w)\<rparr>
          in (case a of None \<Rightarrow> w\<lparr>pw_worker := WReceive\<rparr> | Some g \<Rightarrow> w\<lparr>pw_worker := WWaiting g\<rparr>)
      | _ \<Rightarrow> w)"

definition worker_wake :: "('q, 's) world \<Rightarrow> ('q, 's) world" where
  "worker_wake w =
     (case pw_worker w of WBackoff g \<Rightarrow> w\<lparr>pw_worker := WAttempt (current_target w)\<rparr> | _ \<Rightarrow> w)"

section \<open>Runs\<close>

datatype 'q pub_event =
    ReplaceAll stored_graph
  | ApplyWatch watch_batch
  | Submit
  | RecordPending int
  | ShutdownMark
  | ShutdownCancel
  | Receive
  | Take
  | Prepared "'q option"
  | Compiled
  | Cancelled
  | Publish nat
  | Failed
  | WakeUp

text \<open>Ingestion waits for \<open>write_lock\<close>; a refused ingestion leaves the world as it was.\<close>

definition ok_or :: "'w \<Rightarrow> 'e + 'w \<Rightarrow> 'w" where
  "ok_or w r = (case r of Inr w' \<Rightarrow> w' | Inl _ \<Rightarrow> w)"

fun pub_exec ::
  "('p, 'c) externals \<Rightarrow> 'k cipher \<Rightarrow> 'k list option \<Rightarrow> (config_set \<Rightarrow> 's runtime_snapshot \<Rightarrow> 'q \<Rightarrow> 's option) \<Rightarrow>
   'q pub_event \<Rightarrow> ('q, 's) world \<Rightarrow> ('q, 's) world" where
  "pub_exec E ci kr C (ReplaceAll g) w =
     (if pw_submitting w = None then ok_or w (replace_all E ci kr g w) else w)"
| "pub_exec E ci kr C (ApplyWatch b) w =
     (if pw_submitting w = None then ok_or w (apply_watch E ci kr b w) else w)"
| "pub_exec E ci kr C Submit w =
     (case pw_submitting w of Some (g, l) \<Rightarrow> snd (submit g l w) | None \<Rightarrow> w)"
| "pub_exec E ci kr C (RecordPending r) w = record_pending_publication r w"
| "pub_exec E ci kr C ShutdownMark w = shutdown_mark w"
| "pub_exec E ci kr C ShutdownCancel w = shutdown_cancel w"
| "pub_exec E ci kr C Receive w = worker_receive w"
| "pub_exec E ci kr C Take w = worker_take w"
| "pub_exec E ci kr C (Prepared q) w = worker_prepared q w"
| "pub_exec E ci kr C Compiled w = worker_compiled C w"
| "pub_exec E ci kr C Cancelled w = worker_cancelled w"
| "pub_exec E ci kr C (Publish now) w = worker_publish now w"
| "pub_exec E ci kr C Failed w = worker_failed w"
| "pub_exec E ci kr C WakeUp w = worker_wake w"

definition pub_run ::
  "('p, 'c) externals \<Rightarrow> 'k cipher \<Rightarrow> 'k list option \<Rightarrow> (config_set \<Rightarrow> 's runtime_snapshot \<Rightarrow> 'q \<Rightarrow> 's option) \<Rightarrow>
   'q pub_event list \<Rightarrow> ('q, 's) world \<Rightarrow> ('q, 's) world" where
  "pub_run E ci kr C evs w = fold (pub_exec E ci kr C) evs w"

section \<open>What is published\<close>

definition accepted_graph :: "('p, 'c) externals \<Rightarrow> 'k cipher \<Rightarrow> 'k list option \<Rightarrow> stored_graph \<Rightarrow> config_set \<Rightarrow> bool" where
  "accepted_graph E ci kr g l \<longleftrightarrow>
     decode_graph E ci kr g DecryptForRuntime = Inr l \<and> validate_runtime_form (ex_plugins E) l = Inr ()"

definition runtime_of ::
  "('p, 'c) externals \<Rightarrow> 'k cipher \<Rightarrow> 'k list option \<Rightarrow>
   (config_set \<Rightarrow> 's runtime_snapshot \<Rightarrow> 'q \<Rightarrow> 's option) \<Rightarrow> stored_graph \<Rightarrow> 's runtime_snapshot \<Rightarrow> bool" where
  "runtime_of E ci kr C g r \<longleftrightarrow>
     (\<exists>l previous q s. accepted_graph E ci kr g l \<and> C l previous q = Some s \<and>
        r = \<lparr>rs_revision = sg_revision g, rs_body = s\<rparr>)"

fun worker_target :: "('q, 's) worker \<Rightarrow> pending_graph option" where
  "worker_target (WPreparing _ t _) = Some t"
| "worker_target (WCompiling _ t _ _) = Some t"
| "worker_target (WCompiled _ t _) = Some t"
| "worker_target _ = None"

definition pending_ok ::
  "('p, 'c) externals \<Rightarrow> 'k cipher \<Rightarrow> 'k list option \<Rightarrow> ('q, 's) world \<Rightarrow> pending_graph \<Rightarrow> bool" where
  "pending_ok E ci kr w t \<longleftrightarrow>
     accepted_graph E ci kr (pg_stored t) (pg_logical t) \<and> pg_revision t = sg_revision (pg_stored t) \<and>
     0 < pg_generation t \<and> pg_generation t \<le> pw_generation w \<and>
     (pg_generation t = pw_generation w \<longrightarrow> pw_target w = Some t)"

definition pub_inv ::
  "('p, 'c) externals \<Rightarrow> 'k cipher \<Rightarrow> 'k list option \<Rightarrow>
   (config_set \<Rightarrow> 's runtime_snapshot \<Rightarrow> 'q \<Rightarrow> 's option) \<Rightarrow> 's \<Rightarrow> ('q, 's) world \<Rightarrow> bool" where
  "pub_inv E ci kr C initial w \<longleftrightarrow>
     is_none_or (pw_submitting w) (\<lambda>(g, l). accepted_graph E ci kr g l) \<and>
     (case pw_target w of
        None \<Rightarrow> pw_generation w = 0
      | Some t \<Rightarrow> pending_ok E ci kr w t \<and> pg_generation t = pw_generation w) \<and>
     is_none_or (worker_target (pw_worker w)) (pending_ok E ci kr w) \<and>
     (case pw_worker w of
        WCompiled a t s \<Rightarrow> \<exists>previous q b. C (pg_logical t) previous q = Some b \<and>
          s = \<lparr>rs_revision = pg_revision t, rs_body = b\<rparr>
      | _ \<Rightarrow> True) \<and>
     (case pw_committed w of
        None \<Rightarrow> pw_runtime w = \<lparr>rs_revision = 0, rs_body = initial\<rparr>
      | Some g \<Rightarrow> runtime_of E ci kr C g (pw_runtime w))"

lemmas worker_defs =
  worker_receive_def worker_take_def worker_prepared_def worker_compiled_def worker_cancelled_def
  worker_publish_def worker_failed_def worker_wake_def reject_publication_def

lemma pub_inv_new: "pub_inv E ci kr C initial (world_new initial st)"
  by (simp add: pub_inv_def world_new_def)

lemma ingest_Inr:
  assumes "ingest E ci kr g w = Inr w'"
  obtains l where "accepted_graph E ci kr g l" and "pw_lifecycle w = Running"
    and "w' = (if pw_sender w then w else w\<lparr>pw_sender := True, pw_signal := False, pw_worker := WReceive\<rparr>)
           \<lparr>pw_submitting := Some (g, l)\<rparr>"
  using assms that unfolding ingest_def ensure_worker_started_def accepted_graph_def
  by (auto split: if_splits)

lemma pub_inv_ingest:
  assumes "pub_inv E ci kr C initial w" and "ingest E ci kr g w = Inr w'"
  shows "pub_inv E ci kr C initial w'"
  using assms(2) by (rule ingest_Inr) (use assms(1) in \<open>auto simp: pub_inv_def pending_ok_def split: option.splits worker.splits\<close>)

lemma apply_watch_Inr:
  assumes "apply_watch E ci kr b w = Inr w'"
  shows "w' = w \<or> ingest E ci kr (apply_watch_batch (watch_base w) b) w = Inr w'"
  using assms by (auto simp: apply_watch_def split: if_splits)

lemma pub_inv_submit:
  assumes "pub_inv E ci kr C initial w" and "pw_submitting w = Some (g, l)"
  shows "pub_inv E ci kr C initial (snd (submit g l w))"
  using assms
  by (auto simp: pub_inv_def submit_def Let_def pending_ok_def is_none_or_def
      split: option.splits worker.splits)

lemma pub_inv_step:
  assumes "pub_inv E ci kr C initial w"
    and "pw_submitting w' = pw_submitting w" "pw_target w' = pw_target w"
    and "pw_generation w' = pw_generation w" "pw_committed w' = pw_committed w"
    and "pw_runtime w' = pw_runtime w"
    and "worker_target (pw_worker w') = None \<or> worker_target (pw_worker w') = worker_target (pw_worker w) \<or>
         worker_target (pw_worker w') = pw_target w"
    and "\<And>a t s. pw_worker w' = WCompiled a t s \<Longrightarrow>
      pw_worker w = WCompiled a t s \<or>
      (\<exists>previous q b. C (pg_logical t) previous q = Some b \<and> s = \<lparr>rs_revision = pg_revision t, rs_body = b\<rparr>)"
  shows "pub_inv E ci kr C initial w'"
proof -
  have ok: "pending_ok E ci kr w' = pending_ok E ci kr w"
    by (intro ext) (simp add: pending_ok_def assms)
  have "case pw_worker w' of
        WCompiled a t s \<Rightarrow> \<exists>previous q b. C (pg_logical t) previous q = Some b \<and>
          s = \<lparr>rs_revision = pg_revision t, rs_body = b\<rparr>
      | _ \<Rightarrow> True"
    using assms(1,8) by (cases "pw_worker w'") (force simp: pub_inv_def)+
  moreover have "is_none_or (worker_target (pw_worker w')) (pending_ok E ci kr w)"
    using assms(1,7) by (cases "pw_target w") (auto simp: pub_inv_def)
  ultimately show ?thesis
    using assms(1) unfolding pub_inv_def ok by (simp only: assms(2-6) conj_ac simp_thms)
qed

lemma worker_publish_cases:
  obtains "worker_publish now w = w"
  | "worker_publish now w = w\<lparr>pw_worker := WReceive\<rparr>"
  | a t r where "pw_worker w = WCompiled a t r" and "pw_submitting w = None"
      and "\<not> cancelled (pg_generation t) w" and "pg_generation t = pw_generation w"
      and "rs_revision (pw_runtime w) \<le> pg_revision t"
      and "worker_publish now w = w\<lparr>pw_runtime := r,
             pw_status := set_published_revision now (pg_revision t) (pw_status w),
             pw_committed := Some (pg_stored t),
             pw_registry := reg_published (pg_revision t) (pw_registry w), pw_worker := WReceive\<rparr>"
proof (cases "\<exists>a t r. pw_worker w = WCompiled a t r")
  case False
  have "worker_publish now w = w"
    using False unfolding worker_publish_def by (cases "pw_worker w") simp_all
  then show ?thesis by (rule that(1))
next
  case True
  then obtain a t r where WCompiled: "pw_worker w = WCompiled a t r" by blast
  have settled_eq: "worker_publish now w = w\<lparr>pw_worker := WReceive\<rparr>"
    if "pw_submitting w = None" and "cancelled (pg_generation t) w \<or>
      pw_generation w \<noteq> pg_generation t \<or> pg_revision t < rs_revision (pw_runtime w)"
    using that by (simp only: worker_publish_def WCompiled worker.case not_True_eq_False if_False if_True refl)
  have publishes_eq: "worker_publish now w = w\<lparr>pw_runtime := r,
             pw_status := set_published_revision now (pg_revision t) (pw_status w),
             pw_committed := Some (pg_stored t),
             pw_registry := reg_published (pg_revision t) (pw_registry w), pw_worker := WReceive\<rparr>"
    if "pw_submitting w = None" and "\<not> (cancelled (pg_generation t) w \<or>
      pw_generation w \<noteq> pg_generation t \<or> pg_revision t < rs_revision (pw_runtime w))"
    using that by (simp only: worker_publish_def WCompiled worker.case not_True_eq_False if_False refl)
  consider (same) "pw_submitting w \<noteq> None"
    | (settled) "pw_submitting w = None" and "cancelled (pg_generation t) w \<or>
      pw_generation w \<noteq> pg_generation t \<or> pg_revision t < rs_revision (pw_runtime w)"
    | (publishes) "pw_submitting w = None" and "\<not> (cancelled (pg_generation t) w \<or>
      pw_generation w \<noteq> pg_generation t \<or> pg_revision t < rs_revision (pw_runtime w))"
    by blast
  then show ?thesis
  proof cases
    case same
    show ?thesis by (rule that(1)) (simp add: worker_publish_def WCompiled same)
  next
    case settled
    then show ?thesis by (rule that(2) [OF settled_eq])
  next
    case publishes
    then show ?thesis by (intro that(3) [OF WCompiled]) (simp_all add: publishes_eq)
  qed
qed

lemma pub_inv_publish:
  assumes "pub_inv E ci kr C initial w"
  shows "pub_inv E ci kr C initial (worker_publish now w)"
proof (cases rule: worker_publish_cases[of now w])
  case 1
  then show ?thesis using assms by simp
next
  case 2
  show ?thesis unfolding 2 by (rule pub_inv_step[OF assms]) simp_all
next
  case (3 a t r)
  then have t: "pending_ok E ci kr w t"
    and r: "\<exists>previous q b. C (pg_logical t) previous q = Some b \<and>
      r = \<lparr>rs_revision = pg_revision t, rs_body = b\<rparr>"
    using assms by (auto simp: pub_inv_def)
  from t r have "runtime_of E ci kr C (pg_stored t) r"
    unfolding runtime_of_def pending_ok_def by metis
  moreover have "pw_target w = Some t" using t 3(4) by (simp add: pending_ok_def)
  ultimately show ?thesis
    using t 3(2,4) unfolding 3(6) pub_inv_def by (simp add: pending_ok_def)
qed

lemma pub_inv_worker:
  assumes "pub_inv E ci kr C initial w"
  shows "pub_inv E ci kr C initial (worker_receive w)" "pub_inv E ci kr C initial (worker_take w)"
    "pub_inv E ci kr C initial (worker_prepared q w)" "pub_inv E ci kr C initial (worker_cancelled w)"
    "pub_inv E ci kr C initial (worker_failed w)" "pub_inv E ci kr C initial (worker_wake w)"
  by (rule pub_inv_step[OF assms]; cases "pw_worker w";
      simp add: worker_defs Let_def split: option.splits if_splits)+

lemma pub_inv_compiled:
  assumes "pub_inv E ci kr C initial w"
  shows "pub_inv E ci kr C initial (worker_compiled C w)"
proof (cases "pw_worker w")
  case (WCompiling a t previous q)
  show ?thesis
    by (rule pub_inv_step[OF assms])
      (auto simp: worker_compiled_def WCompiling split: option.splits)
qed (use assms in \<open>simp_all add: worker_compiled_def\<close>)

lemma pub_inv_exec:
  assumes "pub_inv E ci kr C initial w"
  shows "pub_inv E ci kr C initial (pub_exec E ci kr C e w)"
proof (cases e)
  case (ReplaceAll g)
  then show ?thesis
    using assms pub_inv_ingest[OF assms] by (auto simp: replace_all_def ok_or_def split: sum.split)
next
  case (ApplyWatch b)
  then show ?thesis
    using assms pub_inv_ingest[OF assms] apply_watch_Inr[of E ci kr b w]
    by (auto simp: ok_or_def split: sum.split)
next
  case Submit
  then show ?thesis using assms pub_inv_submit[OF assms] by (auto split: option.split)
next
  case ShutdownCancel
  show ?thesis unfolding ShutdownCancel by (simp, rule pub_inv_step[OF assms]) (simp_all add: shutdown_cancel_def split: if_splits)
next
  case ShutdownMark
  show ?thesis unfolding ShutdownMark by (simp, rule pub_inv_step[OF assms]) (auto simp: shutdown_mark_def)
next
  case (RecordPending r)
  show ?thesis unfolding RecordPending
    by (simp, rule pub_inv_step[OF assms]) (auto simp: record_pending_publication_def)
qed (use pub_inv_worker[OF assms] pub_inv_compiled[OF assms] pub_inv_publish[OF assms] in simp_all)

lemma pub_inv_run:
  "pub_inv E ci kr C initial w \<Longrightarrow> pub_inv E ci kr C initial (pub_run E ci kr C evs w)"
  by (induction evs arbitrary: w) (simp_all add: pub_run_def pub_inv_exec)

text \<open>The published revision never goes back.\<close>

lemma revision_mono_exec:
  assumes "pub_inv E ci kr C initial w"
  shows "rs_revision (pw_runtime w) \<le> rs_revision (pw_runtime (pub_exec E ci kr C e w))"
proof (cases "\<exists>now. e = Publish now")
  case True
  then obtain now where e: "e = Publish now" ..
  show ?thesis
  proof (cases rule: worker_publish_cases [of now w])
    case (3 a t r)
    have "rs_revision r = pg_revision t" using assms 3(1) by (auto simp: pub_inv_def)
    then show ?thesis using 3(5,6) e by simp
  qed (simp_all add: e)
next
  case False
  have "pw_runtime (pub_exec E ci kr C e w) = pw_runtime w"
    using False
    by (cases e) (auto simp: replace_all_def ok_or_def submit_def Let_def record_pending_publication_def
        shutdown_mark_def shutdown_cancel_def worker_defs
        elim!: ingest_Inr dest!: apply_watch_Inr split: sum.split option.split worker.split)
  then show ?thesis by simp
qed

lemma revision_mono_run:
  "pub_inv E ci kr C initial w \<Longrightarrow>
   rs_revision (pw_runtime w) \<le> rs_revision (pw_runtime (pub_run E ci kr C evs w))"
proof (induction evs arbitrary: w)
  case (Cons e evs)
  then show ?case
    using revision_mono_exec [OF Cons.prems, of e] Cons.IH [OF pub_inv_exec [OF Cons.prems, of e]]
    by (simp add: pub_run_def)
qed (simp add: pub_run_def)

lemma pub_run_append: "pub_run E ci kr C (xs @ ys) w = pub_run E ci kr C ys (pub_run E ci kr C xs w)"
  by (simp add: pub_run_def)

lemma pub_run_simps:
  "pub_run E ci kr C [] w = w"
  "pub_run E ci kr C (e # es) w = pub_run E ci kr C es (pub_exec E ci kr C e w)"
  by (simp_all add: pub_run_def)

lemma exec_committed:
  assumes "pub_inv E ci kr C initial w"
    and "pw_committed (pub_exec E ci kr C e w) \<noteq> pw_committed w \<or>
         pw_runtime (pub_exec E ci kr C e w) \<noteq> pw_runtime w"
  shows "\<exists>t. pw_target w = Some t \<and> pg_generation t \<notin> set (pw_cancelled w) \<and>
    pw_committed (pub_exec E ci kr C e w) = Some (pg_stored t)"
proof (cases "\<exists>now. e = Publish now")
  case True
  then obtain now where e: "e = Publish now" ..
  show ?thesis
  proof (cases rule: worker_publish_cases [of now w])
    case (3 a t r)
    have "pw_target w = Some t" using assms(1) 3(1,4) by (auto simp: pub_inv_def pending_ok_def)
    then show ?thesis using 3(3,6) e by (simp add: cancelled_def)
  qed (use assms(2) e in simp_all)
next
  case False
  have "pw_runtime (pub_exec E ci kr C e w) = pw_runtime w \<and>
        pw_committed (pub_exec E ci kr C e w) = pw_committed w"
    using False
    by (cases e) (auto simp: replace_all_def ok_or_def submit_def Let_def record_pending_publication_def
        shutdown_mark_def shutdown_cancel_def worker_defs
        elim!: ingest_Inr dest!: apply_watch_Inr split: sum.split option.split worker.split)
  then show ?thesis using assms(2) by simp
qed

lemma publication_safe_step:
  assumes inv: "pub_inv E ci kr C initial w"
  shows "(case pw_committed w of
      None \<Rightarrow> pw_runtime w = \<lparr>rs_revision = 0, rs_body = initial\<rparr>
    | Some g \<Rightarrow> runtime_of E ci kr C g (pw_runtime w)) \<and>
   rs_revision (pw_runtime w) \<le> rs_revision (pw_runtime (pub_exec E ci kr C e w)) \<and>
   (if pw_committed (pub_exec E ci kr C e w) = pw_committed w \<and>
       pw_runtime (pub_exec E ci kr C e w) = pw_runtime w then True
    else (\<exists>t. pw_target w = Some t \<and> pg_generation t \<notin> set (pw_cancelled w) \<and>
           pw_committed (pub_exec E ci kr C e w) = Some (pg_stored t)))"
proof (intro conjI)
  show "case pw_committed w of
      None \<Rightarrow> pw_runtime w = \<lparr>rs_revision = 0, rs_body = initial\<rparr>
    | Some g \<Rightarrow> runtime_of E ci kr C g (pw_runtime w)"
    using inv unfolding pub_inv_def by blast
qed (use revision_mono_exec [OF inv, of e] exec_committed [OF inv, of e] in simp_all)

text \<open>C6: the runtime always is the empty start snapshot or the compilation of a graph that passed
  decoding and whole-graph validation, recorded as committed under its own revision; its revision
  never goes back; and what an event publishes is the latest accepted submission, not cancelled.\<close>

theorem publication_safe:
  "let w = pub_run E ci kr C evs (world_new initial st); w' = pub_exec E ci kr C e w in
   (case pw_committed w of
      None \<Rightarrow> pw_runtime w = \<lparr>rs_revision = 0, rs_body = initial\<rparr>
    | Some g \<Rightarrow> runtime_of E ci kr C g (pw_runtime w)) \<and>
   rs_revision (pw_runtime w) \<le> rs_revision (pw_runtime w') \<and>
   (if pw_committed w' = pw_committed w \<and> pw_runtime w' = pw_runtime w then True
    else (\<exists>t. pw_target w = Some t \<and> pg_generation t \<notin> set (pw_cancelled w) \<and>
           pw_committed w' = Some (pg_stored t)))"
  unfolding Let_def using publication_safe_step [OF pub_inv_run [OF pub_inv_new]] .


section \<open>Nothing is left behind\<close>

fun noted :: "('q, 's) worker \<Rightarrow> nat option option" where
  "noted (WAttempt a) = Some a"
| "noted (WPreparing a _ _) = Some a"
| "noted (WCompiling a _ _ _) = Some a"
| "noted (WCompiled a _ _) = Some a"
| "noted (WTransient a) = Some a"
| "noted (WPermanent a) = Some a"
| "noted (WBackoff g) = Some (Some g)"
| "noted (WWaiting g) = Some (Some g)"
| "noted WNone = None"
| "noted WReceive = None"

definition settled :: "('q, 's) world \<Rightarrow> bool" where
  "settled w \<longleftrightarrow>
     (case pw_target w of
        None \<Rightarrow> True
      | Some t \<Rightarrow> pw_committed w = Some (pg_stored t) \<or> pg_revision t < rs_revision (pw_runtime w))"

lemma settled_worker [simp]:
  "settled (w\<lparr>pw_worker := x\<rparr>) = settled w" "settled (w\<lparr>pw_signal := b\<rparr>) = settled w"
  "settled (w\<lparr>pw_submitting := u\<rparr>) = settled w" "settled (w\<lparr>pw_sender := b\<rparr>) = settled w"
  "settled (w\<lparr>pw_status := y\<rparr>) = settled w" "settled (w\<lparr>pw_registry := z\<rparr>) = settled w"
  by (simp_all add: settled_def cong: option.case_cong)

definition live_inv :: "('q, 's) world \<Rightarrow> bool" where
  "live_inv w \<longleftrightarrow>
     pw_active w = (if pw_generation w = 0 then None else Some (pw_generation w)) \<and>
     (\<forall>g \<in> set (pw_cancelled w). g < pw_generation w) \<and>
     (pw_signal w \<longrightarrow> pw_target w \<noteq> None) \<and>
     (\<not> pw_sender w \<longrightarrow> pw_submitting w = None \<and> pw_target w = None) \<and>
     (pw_worker w = WNone \<longleftrightarrow> \<not> pw_sender w) \<and>
     (pw_worker w = WReceive \<longrightarrow> pw_signal w \<or> settled w) \<and>
     (case noted (pw_worker w) of
        None \<Rightarrow> True
      | Some a \<Rightarrow> pw_target w \<noteq> None \<and> a \<noteq> None \<and> (pw_signal w \<or> a = Some (pw_generation w))) \<and>
     (case worker_target (pw_worker w) of
        None \<Rightarrow> True
      | Some t \<Rightarrow> pw_signal w \<or> pg_generation t = pw_generation w)"

lemma lifecycle_mono:
  "pw_lifecycle (pub_exec E ci kr C e w) = Running \<Longrightarrow> pw_lifecycle w = Running"
  by (cases e) (auto simp: replace_all_def ok_or_def submit_def Let_def record_pending_publication_def
        shutdown_mark_def shutdown_cancel_def worker_defs
        elim!: ingest_Inr dest!: apply_watch_Inr split: sum.splits option.splits worker.splits if_splits)

lemma live_inv_ingest:
  assumes "live_inv w" "ingest E ci kr g w = Inr w'" "pw_submitting w = None"
  shows "live_inv w'"
  using assms(2)
  by (rule ingest_Inr) (use assms(1,3) in \<open>auto simp: live_inv_def settled_def split: option.splits\<close>)

lemma live_inv_submit:
  assumes "live_inv w" "pub_inv E ci kr C initial w" "pw_submitting w = Some (g, l)"
  shows "live_inv (snd (submit g l w))"
  using assms
  by (cases "pw_worker w") (auto simp: live_inv_def submit_def Let_def settled_def less_Suc_eq split: if_splits)

lemma live_inv_receive:
  assumes "live_inv w" "pw_sender w" "pw_signal w \<or> settled w"
  shows "live_inv (w\<lparr>pw_worker := WReceive\<rparr>)"
  using assms by (auto simp: live_inv_def)

lemma live_inv_publish:
  assumes "live_inv w" "pub_inv E ci kr C initial w"
  shows "live_inv (worker_publish now w)"
proof (cases "pw_worker w")
  case (WCompiled a t r)
  have t: "pending_ok E ci kr w t" and snd: "pw_sender w"
    and live: "pw_signal w \<or> pg_generation t = pw_generation w"
    and small: "\<forall>g \<in> set (pw_cancelled w). g < pw_generation w"
    using assms by (auto simp: WCompiled pub_inv_def live_inv_def)
  consider (same) "pw_submitting w \<noteq> None"
    | (stale) "pw_submitting w = None" and "cancelled (pg_generation t) w \<or>
      pw_generation w \<noteq> pg_generation t \<or> pg_revision t < rs_revision (pw_runtime w)"
    | (publishes) "pw_submitting w = None" and "\<not> (cancelled (pg_generation t) w \<or>
      pw_generation w \<noteq> pg_generation t \<or> pg_revision t < rs_revision (pw_runtime w))"
    by blast
  then show ?thesis
  proof cases
    case same
    then show ?thesis using assms(1) by (simp add: worker_publish_def WCompiled)
  next
    case stale
    have eq: "worker_publish now w = w\<lparr>pw_worker := WReceive\<rparr>"
      using stale by (simp only: worker_publish_def WCompiled worker.case not_True_eq_False if_False if_True refl)
    have "pw_signal w \<or> settled w"
      using stale(2) live t small by (auto simp: cancelled_def pending_ok_def settled_def)
    then show ?thesis unfolding eq by (rule live_inv_receive [OF assms(1) snd])
  next
    case publishes
    then show ?thesis
      using assms(1) t by (simp add: worker_publish_def WCompiled live_inv_def settled_def pending_ok_def)
  qed
qed (use assms(1) in \<open>simp_all add: worker_publish_def\<close>)

lemma live_inv_worker:
  assumes "live_inv w" "pub_inv E ci kr C initial w"
  shows "live_inv (worker_receive w)" "live_inv (worker_take w)" "live_inv (worker_prepared q w)"
    "live_inv (worker_compiled C w)" "live_inv (worker_cancelled w)" "live_inv (worker_failed w)"
    "live_inv (worker_wake w)"
  using assms
  by (cases "pw_worker w"; simp add: live_inv_def worker_defs cancelled_def current_target_def
      is_current_generation_def Let_def settled_def pub_inv_def split: option.splits if_splits; fastforce)+

lemma live_inv_exec:
  assumes "pw_lifecycle w = Running \<Longrightarrow> live_inv w" and "pub_inv E ci kr C initial w"
    and "pw_lifecycle (pub_exec E ci kr C e w) = Running"
  shows "live_inv (pub_exec E ci kr C e w)"
proof -
  have live: "live_inv w" using assms(1) lifecycle_mono [OF assms(3)] by blast
  show ?thesis
  proof (cases e)
    case (ReplaceAll g)
    then show ?thesis
      using live live_inv_ingest [OF live] by (auto simp: replace_all_def ok_or_def split: sum.split)
  next
    case (ApplyWatch b)
    then show ?thesis
      using live live_inv_ingest [OF live] apply_watch_Inr [of E ci kr b w]
      by (auto simp: ok_or_def split: sum.split)
  next
    case Submit
    then show ?thesis using live live_inv_submit [OF live assms(2)] by (auto split: option.split)
  next
    case (RecordPending r)
    then show ?thesis using live by (simp add: record_pending_publication_def live_inv_def cong: option.case_cong)
  next
    case ShutdownMark
    then show ?thesis using assms(3) by (simp add: shutdown_mark_def)
  next
    case ShutdownCancel
    then show ?thesis using live lifecycle_mono [OF assms(3)] by (simp add: shutdown_cancel_def)
  qed (use live_inv_worker [OF live assms(2)] live_inv_publish [OF live assms(2)] in simp_all)
qed

lemma live_inv_run:
  assumes "pub_inv E ci kr C initial w" and "pw_lifecycle w = Running \<Longrightarrow> live_inv w"
    and "pw_lifecycle (pub_run E ci kr C evs w) = Running"
  shows "live_inv (pub_run E ci kr C evs w)"
  using assms
proof (induction evs arbitrary: w)
  case (Cons e evs)
  show ?case
    unfolding pub_run_simps
    using Cons.IH [OF pub_inv_exec [OF Cons.prems(1), of e] live_inv_exec [OF Cons.prems(2,1)]]
      Cons.prems(3) by (simp add: pub_run_simps)
qed (simp add: pub_run_simps)

lemma live_inv_new: "live_inv (world_new initial st)"
  by (simp add: live_inv_def world_new_def settled_def)

lemma live_inv_reachable:
  assumes "w = pub_run E ci kr C evs (world_new initial st)" and "pw_lifecycle w = Running"
  shows "live_inv w"
  unfolding assms(1) by (rule live_inv_run [OF pub_inv_new live_inv_new]) (use assms in simp)

text \<open>C7: no wake-up is lost. Whenever the authority runs, no signal is queued and the worker waits
  for one (or was never started), the latest accepted submission has been settled: it is the committed
  graph, or a newer revision is published. In every interleaving of ingestion, retries, cancellation
  and publication, so a submission is never stranded.\<close>

theorem no_lost_wakeup:
  assumes "w = pub_run E ci kr C evs (world_new initial st)"
    and "pw_lifecycle w = Running" and "\<not> pw_signal w"
    and "pw_worker w = WReceive \<or> pw_worker w = WNone"
  shows "settled w"
  using live_inv_reachable [OF assms(1,2)] assms(3,4) by (auto simp: live_inv_def settled_def)

section \<open>Updates are not lost\<close>

text \<open>What ingestion means, with no worker in sight: the intended graph and the submission that is
  being made. The flag says whether ingestion accepted the event.\<close>

fun intent_step :: "bool \<Rightarrow> 'q pub_event \<Rightarrow> stored_graph \<times> stored_graph option \<Rightarrow> stored_graph \<times> stored_graph option" where
  "intent_step accepted (ReplaceAll g) (i, None) = (i, if accepted then Some g else None)"
| "intent_step accepted (ApplyWatch b) (i, None) = (i, if accepted then Some (apply_watch_batch i b) else None)"
| "intent_step accepted Submit (i, Some g) = (g, None)"
| "intent_step accepted _ s = s"

definition intent_of :: "('q, 's) world \<Rightarrow> stored_graph \<times> stored_graph option" where
  "intent_of w = (watch_base w, map_option fst (pw_submitting w))"

definition ingests :: "('q, 's) world \<Rightarrow> ('q, 's) world \<Rightarrow> bool" where
  "ingests w w' \<longleftrightarrow> pw_submitting w = None \<and> pw_submitting w' \<noteq> None"

lemma watch_base_cong:
  "pw_target w' = pw_target w \<Longrightarrow> pw_committed w' = pw_committed w \<Longrightarrow> watch_base w' = watch_base w"
  by (simp add: watch_base_def cong: option.case_cong)

lemma watch_base_simps [simp]:
  "watch_base (w\<lparr>pw_worker := x\<rparr>) = watch_base w" "watch_base (w\<lparr>pw_signal := b\<rparr>) = watch_base w"
  "watch_base (w\<lparr>pw_submitting := u\<rparr>) = watch_base w" "watch_base (w\<lparr>pw_sender := b\<rparr>) = watch_base w"
  "watch_base (w\<lparr>pw_status := y\<rparr>) = watch_base w" "watch_base (w\<lparr>pw_registry := z\<rparr>) = watch_base w"
  "watch_base (w\<lparr>pw_cancelled := cs\<rparr>) = watch_base w" "watch_base (w\<lparr>pw_active := g\<rparr>) = watch_base w"
  "watch_base (w\<lparr>pw_lifecycle := l\<rparr>) = watch_base w"
  by (rule watch_base_cong; simp)+

lemma watch_base_publish:
  assumes "pub_inv E ci kr C initial w"
  shows "watch_base (worker_publish now w) = watch_base w"
proof (cases rule: worker_publish_cases [of now w])
  case (3 a t r)
  have "pw_target w = Some t" using assms 3(1,4) by (auto simp: pub_inv_def pending_ok_def)
  then show ?thesis unfolding 3(6) by (simp add: watch_base_def)
qed simp_all

lemma intent_refines:
  assumes "pub_inv E ci kr C initial w"
  shows "intent_of (pub_exec E ci kr C e w) =
    intent_step (ingests w (pub_exec E ci kr C e w)) e (intent_of w)"
proof (cases e)
  case (ReplaceAll g)
  then show ?thesis
    by (cases "pw_submitting w")
      (auto simp: intent_of_def ingests_def replace_all_def ok_or_def elim!: ingest_Inr split: sum.split)
next
  case (ApplyWatch b)
  then show ?thesis
    by (cases "pw_submitting w")
      (auto simp: intent_of_def ingests_def apply_watch_def ok_or_def elim!: ingest_Inr split: sum.split)
next
  case Submit
  then show ?thesis
    by (cases "pw_submitting w") (auto simp: intent_of_def watch_base_def submit_def Let_def)
next
  case (Publish now)
  show ?thesis
    using watch_base_publish [OF assms, of now] unfolding Publish
    by (cases rule: worker_publish_cases [of now w]) (simp_all add: intent_of_def)
qed (simp_all add: intent_of_def record_pending_publication_def shutdown_mark_def
    shutdown_cancel_def worker_defs Let_def split: worker.split option.split)

text \<open>C8: the worker, retries, cancellation and shutdown never change what the authority intends to
  serve. In every run the intended graph is the one of a machine without a worker: an accepted
  snapshot replaces it, an accepted watch batch is applied to the intended graph, whether that is
  still pending, being prepared, rejected or published. No accepted update is lost or applied to an
  older graph.\<close>

theorem no_update_lost:
  "let w = pub_run E ci kr C evs (world_new initial st); w' = pub_exec E ci kr C e w in
   intent_of w' = intent_step (ingests w w') e (intent_of w)"
  unfolding Let_def by (rule intent_refines [OF pub_inv_run [OF pub_inv_new]])

section \<open>Shutdown\<close>

definition cancel_inv :: "('q, 's) world \<Rightarrow> bool" where
  "cancel_inv w \<longleftrightarrow>
     (case pw_target w of
        None \<Rightarrow> True
      | Some t \<Rightarrow> pw_active w = Some (pg_generation t) \<or> cancelled (pg_generation t) w)"

definition stopped :: "('q, 's) world \<Rightarrow> bool" where
  "stopped w \<longleftrightarrow> pw_lifecycle w = Stopped \<and> pw_submitting w = None \<and>
     (case pw_target w of None \<Rightarrow> True | Some t \<Rightarrow> cancelled (pg_generation t) w)"

lemma cancel_inv_exec: "cancel_inv w \<Longrightarrow> cancel_inv (pub_exec E ci kr C e w)"
  by (cases e) (auto simp: cancel_inv_def cancelled_def replace_all_def ok_or_def submit_def Let_def
        record_pending_publication_def shutdown_mark_def shutdown_cancel_def worker_defs
        elim!: ingest_Inr dest!: apply_watch_Inr split: sum.splits option.splits worker.splits if_splits)

lemma cancel_inv_run: "cancel_inv w \<Longrightarrow> cancel_inv (pub_run E ci kr C evs w)"
  by (induction evs arbitrary: w) (simp_all add: pub_run_simps cancel_inv_exec)

lemma stopping_exec:
  "pw_lifecycle w = Stopped \<Longrightarrow> pw_submitting w = None \<Longrightarrow>
   pw_lifecycle (pub_exec E ci kr C e w) = Stopped \<and> pw_submitting (pub_exec E ci kr C e w) = None"
  by (cases e) (auto simp: replace_all_def ok_or_def record_pending_publication_def Let_def
        shutdown_mark_def shutdown_cancel_def worker_defs
        elim!: ingest_Inr dest!: apply_watch_Inr split: sum.splits option.splits worker.splits if_splits)

lemma stopping_run:
  "pw_lifecycle w = Stopped \<Longrightarrow> pw_submitting w = None \<Longrightarrow>
   pw_lifecycle (pub_run E ci kr C evs w) = Stopped \<and> pw_submitting (pub_run E ci kr C evs w) = None"
  by (induction evs arbitrary: w) (simp_all add: pub_run_simps stopping_exec)

lemma stopped_exec:
  assumes "stopped w" "pub_inv E ci kr C initial w"
  shows "stopped (pub_exec E ci kr C e w) \<and> pw_runtime (pub_exec E ci kr C e w) = pw_runtime w \<and>
    pw_committed (pub_exec E ci kr C e w) = pw_committed w"
proof -
  have "pw_target (pub_exec E ci kr C e w) = pw_target w \<and>
      set (pw_cancelled w) \<subseteq> set (pw_cancelled (pub_exec E ci kr C e w))"
    using assms(1)
    by (cases e) (auto simp: stopped_def replace_all_def ok_or_def record_pending_publication_def Let_def
        shutdown_mark_def shutdown_cancel_def worker_defs
        elim!: ingest_Inr dest!: apply_watch_Inr split: sum.splits option.splits worker.splits if_splits)
  then have "stopped (pub_exec E ci kr C e w)"
    using assms(1) stopping_exec [of w E ci kr C e]
    by (auto simp: stopped_def cancelled_def split: option.splits)
  moreover have "pw_runtime (pub_exec E ci kr C e w) = pw_runtime w \<and>
      pw_committed (pub_exec E ci kr C e w) = pw_committed w"
  proof -
    have "\<not> (\<exists>t. pw_target w = Some t \<and> pg_generation t \<notin> set (pw_cancelled w))"
      using assms(1) by (auto simp: stopped_def cancelled_def)
    then show ?thesis using exec_committed [OF assms(2), of e] by blast
  qed
  ultimately show ?thesis by blast
qed

lemma stopped_run:
  assumes "stopped w" "pub_inv E ci kr C initial w"
  shows "pw_runtime (pub_run E ci kr C evs w) = pw_runtime w \<and>
    pw_committed (pub_run E ci kr C evs w) = pw_committed w"
  using assms
proof (induction evs arbitrary: w)
  case (Cons e evs)
  then show ?case
    using stopped_exec [OF Cons.prems, of e] pub_inv_exec [OF Cons.prems(2), of e]
    by (simp add: pub_run_simps)
qed (simp add: pub_run_simps)

lemma stopped_after_cancel:
  assumes "cancel_inv w" "pw_lifecycle w = Stopped" "pw_submitting w = None"
  shows "stopped (shutdown_cancel w)"
  using assms by (auto simp: stopped_def cancel_inv_def shutdown_cancel_def cancelled_def split: option.splits)

text \<open>after shutdown nothing is published any more, whatever the worker was doing, provided no
  submission was between its lifecycle check and its end when shutdown began.\<close>

theorem shutdown_is_final:
  assumes "w = pub_run E ci kr C evs (world_new initial st)" and "pw_submitting w = None"
    and "w' = pub_run E ci kr C (ShutdownMark # mid @ [ShutdownCancel]) w"
  shows "pw_runtime (pub_run E ci kr C later w') = pw_runtime w' \<and>
    pw_committed (pub_run E ci kr C later w') = pw_committed w'"
proof (rule stopped_run)
  let ?m = "pub_run E ci kr C mid (shutdown_mark w)"
  have w': "w' = shutdown_cancel ?m"
    by (simp add: assms(3) pub_run_simps pub_run_append)
  have "cancel_inv w"
    unfolding assms(1) by (rule cancel_inv_run) (simp add: cancel_inv_def world_new_def)
  then have "cancel_inv ?m"
    using cancel_inv_exec [of w E ci kr C ShutdownMark] cancel_inv_run by simp
  moreover have "pw_lifecycle ?m = Stopped \<and> pw_submitting ?m = None"
    by (rule stopping_run) (simp_all add: shutdown_mark_def assms(2))
  ultimately show "stopped w'" unfolding w' by (intro stopped_after_cancel) simp_all
  show "pub_inv E ci kr C initial w'"
    unfolding assms(1,3) by (intro pub_inv_run pub_inv_new)
qed

section \<open>Progress\<close>

text \<open>Every earlier generation is cancelled, and the worker notes generations that were submitted.\<close>

definition old_inv :: "('q, 's) world \<Rightarrow> bool" where
  "old_inv w \<longleftrightarrow> (\<forall>g. 0 < g \<and> g < pw_generation w \<longrightarrow> cancelled g w) \<and>
     (case noted (pw_worker w) of Some (Some g) \<Rightarrow> 0 < g \<and> g \<le> pw_generation w | _ \<Rightarrow> True)"

lemma old_inv_submit:
  assumes "old_inv w" and "live_inv w"
  shows "old_inv (snd (submit g l w))"
  using assms by (cases "pw_worker w") (auto simp: old_inv_def live_inv_def submit_def Let_def cancelled_def less_Suc_eq
      split: option.splits if_splits)

lemma old_inv_worker:
  assumes "old_inv w" and "pub_inv E ci kr C initial w"
  shows "old_inv (worker_receive w)" "old_inv (worker_take w)" "old_inv (worker_prepared q w)"
    "old_inv (worker_compiled C w)" "old_inv (worker_cancelled w)" "old_inv (worker_publish now w)"
    "old_inv (worker_failed w)" "old_inv (worker_wake w)"
  using assms
  by (cases "pw_worker w"; cases "pw_target w"; simp add: old_inv_def worker_defs cancelled_def current_target_def pub_inv_def
      pending_ok_def Let_def split: option.splits if_splits; fastforce)+

lemma old_inv_exec:
  assumes old: "old_inv w" and live: "pw_lifecycle w = Running \<Longrightarrow> live_inv w" and inv: "pub_inv E ci kr C initial w"
    and run: "pw_lifecycle (pub_exec E ci kr C e w) = Running"
  shows "old_inv (pub_exec E ci kr C e w)"
proof -
  have running: "pw_lifecycle w = Running" by (rule lifecycle_mono [OF run])
  have ingested: "old_inv w'" if "ingest E ci kr g w = Inr w'" for g w'
    using that by (rule ingest_Inr) (use old in \<open>auto simp: old_inv_def cancelled_def split: option.splits\<close>)
  show ?thesis
  proof (cases e)
    case (ReplaceAll g)
    then show ?thesis using old ingested by (auto simp: replace_all_def ok_or_def split: sum.split)
  next
    case (ApplyWatch b)
    then show ?thesis using old ingested apply_watch_Inr [of E ci kr b w] by (auto simp: ok_or_def split: sum.split)
  next
    case Submit
    then show ?thesis using old old_inv_submit [OF old live [OF running]] by (auto split: option.split)
  next
    case (RecordPending r)
    then show ?thesis using old by (auto simp: record_pending_publication_def old_inv_def cancelled_def split: option.splits)
  next
    case ShutdownMark
    then show ?thesis using run by (simp add: shutdown_mark_def)
  next
    case ShutdownCancel
    then show ?thesis using old running by (simp add: shutdown_cancel_def)
  qed (use old_inv_worker [OF old inv] in simp_all)
qed

lemma old_inv_run:
  assumes "pub_inv E ci kr C initial w" and "pw_lifecycle w = Running \<Longrightarrow> live_inv w" and "pw_lifecycle w = Running \<Longrightarrow> old_inv w"
    and "pw_lifecycle (pub_run E ci kr C evs w) = Running"
  shows "old_inv (pub_run E ci kr C evs w)"
  using assms
proof (induction evs arbitrary: w)
  case (Cons e evs)
  show ?case unfolding pub_run_simps
  proof (rule Cons.IH)
    show "pub_inv E ci kr C initial (pub_exec E ci kr C e w)" by (rule pub_inv_exec [OF Cons.prems(1)])
    show "live_inv (pub_exec E ci kr C e w)" if "pw_lifecycle (pub_exec E ci kr C e w) = Running"
      by (rule live_inv_exec [OF Cons.prems(2,1) that])
    show "old_inv (pub_exec E ci kr C e w)" if "pw_lifecycle (pub_exec E ci kr C e w) = Running"
      by (rule old_inv_exec [OF Cons.prems(3) [OF lifecycle_mono [OF that]] Cons.prems(2,1) that])
    show "pw_lifecycle (pub_run E ci kr C evs (pub_exec E ci kr C e w)) = Running"
      using Cons.prems(4) by (simp add: pub_run_simps)
  qed
qed (simp add: pub_run_simps)

lemma old_inv_reachable:
  assumes "w = pub_run E ci kr C evs (world_new initial st)" and "pw_lifecycle w = Running"
  shows "old_inv w"
  unfolding assms(1)
  by (rule old_inv_run [OF pub_inv_new live_inv_new]) (use assms in \<open>simp_all add: old_inv_def world_new_def\<close>)

text \<open>The latest accepted submission \<open>t\<close>, still to be published: no newer one is being made, its
  compilation was not refused, and nothing newer is published.\<close>

definition due :: "('p, 'c) externals \<Rightarrow> 'k cipher \<Rightarrow> 'k list option \<Rightarrow>
   (config_set \<Rightarrow> 's runtime_snapshot \<Rightarrow> 'q \<Rightarrow> 's option) \<Rightarrow> 's \<Rightarrow> pending_graph \<Rightarrow> ('q, 's) world \<Rightarrow> bool" where
  "due E ci kr C initial t w \<longleftrightarrow> pub_inv E ci kr C initial w \<and> live_inv w \<and> old_inv w \<and>
     pw_submitting w = None \<and> pw_target w = Some t \<and>
     pw_worker w \<noteq> WWaiting (pg_generation t) \<and> pw_worker w \<noteq> WPermanent (Some (pg_generation t)) \<and>
     rs_revision (pw_runtime w) \<le> pg_revision t"

lemma due_generation: "due E ci kr C initial t w \<Longrightarrow> pw_generation w = pg_generation t \<and> 0 < pg_generation t"
  by (auto simp: due_def pub_inv_def pending_ok_def)

lemma due_publish:
  assumes "due E ci kr C initial t w"
  shows "due E ci kr C initial t (worker_publish now w) \<and> (\<forall>a t' r. pw_worker (worker_publish now w) \<noteq> WCompiled a t' r)"
proof -
  have inv: "pub_inv E ci kr C initial w" "live_inv w" "old_inv w" using assms by (auto simp: due_def)
  have kept: "pub_inv E ci kr C initial (worker_publish now w)" "live_inv (worker_publish now w)" "old_inv (worker_publish now w)"
    by (rule pub_inv_publish [OF inv(1)] live_inv_publish [OF inv(2,1)] old_inv_worker [OF inv(3,1)])+
  show ?thesis
  proof (cases rule: worker_publish_cases [of now w])
    case 1
    have "pw_worker w \<noteq> WCompiled a t' r" for a t' r
      using 1 assms by (auto simp: worker_publish_def due_def split: if_splits dest: arg_cong [of _ _ pw_worker])
    then show ?thesis using assms 1 by simp
  next
    case 2
    then show ?thesis using assms kept by (simp add: due_def)
  next
    case (3 a t' r)
    have "pw_target w = Some t'" using inv(1) 3(1,4) by (auto simp: pub_inv_def pending_ok_def)
    then have "t' = t" using assms by (simp add: due_def)
    moreover have "rs_revision r = pg_revision t'" using inv(1) 3(1) by (auto simp: pub_inv_def)
    ultimately show ?thesis using assms kept 3(6) by (simp add: due_def)
  qed
qed

text \<open>Past a failure, a cancellation, a backoff or a signal the worker is at an attempt, at the preparation
  or compilation of \<open>t\<close>, or has nothing left to do.\<close>

definition on_course :: "pending_graph \<Rightarrow> ('q, 's) world \<Rightarrow> bool" where
  "on_course t w \<longleftrightarrow> pw_submitting w = None \<and> pw_target w = Some t \<and> pw_generation w = pg_generation t \<and>
     \<not> cancelled (pg_generation t) w \<and> rs_revision (pw_runtime w) \<le> pg_revision t \<and>
     (case pw_worker w of
        WAttempt a \<Rightarrow> True
      | WPreparing a t' previous \<Rightarrow> t' = t
      | WCompiling a t' previous q \<Rightarrow> t' = t
      | WReceive \<Rightarrow> pw_committed w = Some (pg_stored t) \<and> rs_revision (pw_runtime w) = pg_revision t
      | _ \<Rightarrow> False)"

lemma due_on_course:
  assumes due: "due E ci kr C initial t w" and compiled: "\<forall>a t' r. pw_worker w \<noteq> WCompiled a t' r"
  shows "on_course t (pub_run E ci kr C [Failed, Cancelled, WakeUp, Receive] w)"
proof -
  note gen = due_generation [OF due]
  have inv: "pub_inv E ci kr C initial w" "live_inv w" "old_inv w" and w: "pw_submitting w = None" "pw_target w = Some t"
      "pw_worker w \<noteq> WWaiting (pg_generation t)" "pw_worker w \<noteq> WPermanent (Some (pg_generation t))"
      "rs_revision (pw_runtime w) \<le> pg_revision t"
    using due by (auto simp: due_def)
  have fresh: "pg_generation t \<notin> set (pw_cancelled w)" using inv(2) gen by (auto simp: live_inv_def)
  have old: "g \<in> set (pw_cancelled w)" if "0 < g" "g < pg_generation t" for g
    using inv(3) gen that by (auto simp: old_inv_def cancelled_def)
  have signal: "pw_signal w" if "noted (pw_worker w) = Some (Some g)" "g \<noteq> pg_generation t" for g
    using inv(2) gen that by (auto simp: live_inv_def)
  have noted: "0 < g \<and> g \<le> pg_generation t" if "noted (pw_worker w) = Some (Some g)" for g
    using inv(3) gen that by (auto simp: old_inv_def)
  have none: "noted (pw_worker w) \<noteq> Some None" using inv(2) by (auto simp: live_inv_def)
  have target: "(pg_generation t' = pg_generation t \<longrightarrow> t' = t) \<and> (pg_generation t' = pg_generation t \<or> pw_signal w) \<and>
      0 < pg_generation t' \<and> pg_generation t' \<le> pg_generation t" if "worker_target (pw_worker w) = Some t'" for t'
    using inv(1,2) w(2) gen that by (auto simp: pub_inv_def live_inv_def pending_ok_def)
  have revision: "rs_revision (pw_runtime w) = pg_revision t" if "pw_committed w = Some (pg_stored t)"
    using inv(1) w(2) that by (auto simp: pub_inv_def pending_ok_def runtime_of_def)
  have idle: "pw_committed w = Some (pg_stored t)" if "pw_worker w = WReceive" "\<not> pw_signal w"
    using inv(2) w(2,5) that by (auto simp: live_inv_def settled_def)
  note run = pub_run_simps worker_failed_def worker_cancelled_def worker_wake_def worker_receive_def reject_publication_def
    is_current_generation_def current_target_def cancelled_def on_course_def Let_def
  show ?thesis
  proof (cases "pw_worker w")
    case WNone
    then show ?thesis using inv(2) w(2) by (simp add: live_inv_def)
  next
    case WReceive
    moreover have "pw_sender w" using inv(2) WReceive by (auto simp: live_inv_def)
    ultimately show ?thesis using w gen fresh idle revision by (simp add: run)
  next
    case (WAttempt a)
    then show ?thesis using w gen fresh by (simp add: run)
  next
    case (WPreparing a t' previous)
    then show ?thesis using w gen fresh target old [of "pg_generation t'"] by (cases "t' = t") (auto simp: run)
  next
    case (WCompiling a t' previous q)
    then show ?thesis using w gen fresh target old [of "pg_generation t'"] by (cases "t' = t") (auto simp: run)
  next
    case (WCompiled a t' r)
    then show ?thesis using compiled by blast
  next
    case (WTransient a)
    then obtain g where "a = Some g" using none by (cases a) auto
    then show ?thesis using WTransient w gen fresh by (cases "g = pg_generation t") (simp_all add: run)
  next
    case (WBackoff g)
    then show ?thesis using w gen fresh noted [of g] signal [of g] old [of g] by (cases "g = pg_generation t") (auto simp: run)
  next
    case (WPermanent a)
    then obtain g where "a = Some g" using none by (cases a) auto
    then show ?thesis using WPermanent w gen fresh noted [of g] signal [of g] old [of g] by (auto simp: run)
  next
    case (WWaiting g)
    then show ?thesis using w gen fresh noted [of g] signal [of g] old [of g] by (auto simp: run)
  qed
qed

lemma course_publishes:
  assumes "on_course t w" and "\<forall>previous q. C (pg_logical t) previous q \<noteq> None"
    and "w' = pub_run E ci kr C [Take, Prepared (Some q), Compiled, Publish now] w"
  shows "pw_committed w' = Some (pg_stored t) \<and> rs_revision (pw_runtime w') = pg_revision t \<and> pw_worker w' = WReceive"
proof -
  have c: "\<exists>s. C (pg_logical t) previous q = Some s" for previous q using assms(2) by simp
  note run = pub_run_simps worker_take_def worker_prepared_def worker_compiled_def worker_publish_def cancelled_def
  show ?thesis
  proof (cases "pw_worker w")
    case (WAttempt a)
    moreover obtain s where "C (pg_logical t) (pw_runtime w) q = Some s" using c by blast
    ultimately show ?thesis using assms(1,3) by (simp add: on_course_def run)
  next
    case (WPreparing a t' previous)
    moreover obtain s where "C (pg_logical t) previous q = Some s" using c by blast
    ultimately show ?thesis using assms(1,3) by (simp add: on_course_def run)
  next
    case (WCompiling a t' previous q')
    moreover obtain s where "C (pg_logical t) previous q' = Some s" using c by blast
    ultimately show ?thesis using assms(1,3) by (simp add: on_course_def run)
  qed (use assms(1,3) in \<open>simp_all add: on_course_def run\<close>)
qed

text \<open>C9: From every reachable state of a running authority - whatever was submitted, failed to prepare, was
  cancelled or published before, and wherever the worker is - the latest accepted snapshot is published as
  soon as the worker runs through one round of its steps with a successful preparation: a pending
  publication, the report of an earlier failure, a cancellation or the end of a backoff, the signal, then
  taking, preparing, compiling and publishing. The snapshot compiles, its compilation was not refused before,
  no snapshot of a higher revision is published, and no newer submission arrives meanwhile.\<close>

theorem accepted_snapshot_publishes:
  assumes "w = pub_run E ci kr C evs (world_new initial st)"
    and "pw_lifecycle w = Running" and "pw_submitting w = None" and "pw_target w = Some t"
    and "pw_worker w \<noteq> WWaiting (pg_generation t)" and "pw_worker w \<noteq> WPermanent (Some (pg_generation t))"
    and "\<forall>previous q. C (pg_logical t) previous q \<noteq> None"
    and "rs_revision (pw_runtime w) \<le> pg_revision t"
    and "w' = pub_run E ci kr C [Publish now, Failed, Cancelled, WakeUp, Receive, Take, Prepared (Some q), Compiled, Publish now'] w"
  shows "pw_committed w' = Some (pg_stored t) \<and> rs_revision (pw_runtime w') = pg_revision t \<and> pw_worker w' = WReceive"
proof -
  have "pub_inv E ci kr C initial w" unfolding assms(1) by (rule pub_inv_run [OF pub_inv_new])
  then have "due E ci kr C initial t w" unfolding due_def
    using assms(3-6,8) live_inv_reachable [OF assms(1,2)] old_inv_reachable [OF assms(1,2)] by blast
  note due = due_publish [OF this, of now]
  have course: "on_course t (pub_run E ci kr C [Failed, Cancelled, WakeUp, Receive] (worker_publish now w))"
    by (rule due_on_course [OF conjunct1 [OF due] conjunct2 [OF due]])
  have "w' = pub_run E ci kr C [Take, Prepared (Some q), Compiled, Publish now']
      (pub_run E ci kr C [Failed, Cancelled, WakeUp, Receive] (worker_publish now w))"
    unfolding assms(9) by (simp add: pub_run_simps)
  then show ?thesis using course_publishes [where C = C, OF course assms(7)] by blast
qed


section \<open>The publication registry\<close>

lemma map_of_map_values: "map_of (map (\<lambda>(k, v). (k, f k v)) xs) k = map_option (f k) (map_of xs k)"
  by (induction xs) auto

lemma keys_map_values: "map fst (map (\<lambda>(k, v). (k, f k v)) xs) = map fst xs"
  by (induction xs) auto

lemma trim_records_step:
  assumes "length rs > PUBLICATION_REGISTRY_CAPACITY" and "find (\<lambda>(_, r). pb_state r \<noteq> Pending) rs = Some (k, r)"
  shows "trim_records rs = trim_records (AList.delete k rs)"
  using assms by (subst trim_records.simps) simp

text \<open>Trimming keeps every pending record and changes none.\<close>

lemma map_of_trim_records:
  assumes "distinct_keys rs"
  shows "map_of (trim_records rs) k = map_of rs k \<or>
    map_of (trim_records rs) k = None \<and> (\<exists>r. map_of rs k = Some r \<and> pb_state r \<noteq> Pending)"
  using assms
proof (induction rs rule: trim_records.induct)
  case (1 rs)
  show ?case
  proof (cases "length rs > PUBLICATION_REGISTRY_CAPACITY \<and> (find (\<lambda>(_, r). pb_state r \<noteq> Pending) rs \<noteq> None)")
    case True
    then obtain j r where f: "find (\<lambda>(_, r). pb_state r \<noteq> Pending) rs = Some (j, r)" by auto
    then have j: "(j, r) \<in> set rs" and np: "pb_state r \<noteq> Pending"
      by (auto simp: find_Some_iff) (metis nth_mem)
    have mj: "map_of rs j = Some r" using j "1.prems" by simp
    have "distinct_keys (AList.delete j rs)" using "1.prems" by (simp add: distinct_delete)
    then show ?thesis
      using "1.IH" [OF conjunct1 [OF True] f refl] trim_records_step [OF conjunct1 [OF True] f] mj np
      by (cases "k = j") (auto simp: delete_conv)
  next
    case False
    then have "trim_records rs = rs" by (subst trim_records.simps) (auto split: option.split)
    then show ?thesis by simp
  qed
qed


lemma bt_ok_trim_records: "bt_ok rs \<Longrightarrow> bt_ok (trim_records rs)"
proof (induction rs rule: trim_records.induct)
  case (1 rs)
  then show ?case
    by (auto simp: trim_records.simps [of rs] sorted_delete distinct_delete split: option.split)
qed

definition reg_ok :: "registry \<Rightarrow> bool" where
  "reg_ok g \<longleftrightarrow> bt_ok (pr_records g)"

lemma reg_ok_default: "reg_ok registry_default"
  by (simp add: reg_ok_def registry_default_def)

lemma reg_ok_pending: "reg_ok g \<Longrightarrow> reg_ok (reg_pending revision g)"
  by (auto simp: reg_ok_def reg_pending_def trim_registry_def bt_ok_trim_records bt_ok_insert
      split: option.split)

lemma reg_ok_trim: "reg_ok g \<Longrightarrow> reg_ok (trim_registry g)"
  by (simp add: reg_ok_def trim_registry_def bt_ok_trim_records)

lemma reg_ok_update: "reg_ok (reg_update revision f g) = reg_ok g"
  by (simp add: reg_ok_def reg_update_def keys_map_values
      del: map_map list.map_comp)

lemma reg_ok_supersede: "reg_ok (supersede_pending_except revision g) = reg_ok g"
  by (simp add: reg_ok_def supersede_pending_except_def keys_map_values [where f = "\<lambda>k r. if k \<noteq> revision \<and> pb_state r = Pending then \<lparr>pb_state = Superseded, pb_error = None\<rparr> else r"] del: map_map)


lemma reg_ok_published: "reg_ok g \<Longrightarrow> reg_ok (reg_published revision g)"
  unfolding reg_published_def
  by (rule reg_ok_trim) (use reg_ok_update reg_ok_pending in \<open>force simp: reg_ok_def\<close>)

text \<open>The record of a revision, and what each operation does to it.\<close>

definition reg_record :: "registry \<Rightarrow> int \<Rightarrow> publication_record option" where
  "reg_record g k = map_of (pr_records g) k"

definition trims :: "publication_record option \<Rightarrow> publication_record option \<Rightarrow> bool" where
  "trims x y \<longleftrightarrow> y = x \<or> y = None \<and> (case x of None \<Rightarrow> True | Some r \<Rightarrow> pb_state r \<noteq> Pending)"

lemma reg_record_trim: "reg_ok g \<Longrightarrow> trims (reg_record g k) (reg_record (trim_registry g) k)"
  using map_of_trim_records [of "pr_records g" k]
  by (auto simp: reg_record_def trims_def trim_registry_def reg_ok_def)

lemma reg_record_update: "reg_record (reg_update revision f g) k =
    (if k = revision then map_option f (reg_record g k) else reg_record g k)"
  using map_of_map_values [of "\<lambda>k r. if k = revision then f r else r" "pr_records g" k]
  by (simp add: reg_record_def reg_update_def option.map_ident)

lemma reg_record_supersede: "reg_record (supersede_pending_except revision g) k =
    map_option (\<lambda>r. if k \<noteq> revision \<and> pb_state r = Pending
      then \<lparr>pb_state = Superseded, pb_error = None\<rparr> else r) (reg_record g k)"
  using map_of_map_values [of "\<lambda>k r. if k \<noteq> revision \<and> pb_state r = Pending
      then \<lparr>pb_state = Superseded, pb_error = None\<rparr> else r" "pr_records g" k]
  by (simp add: reg_record_def supersede_pending_except_def)

lemma reg_record_pending:
  assumes "reg_ok g"
  shows "trims (if k = revision \<and> revision > 0 \<and> reg_record g k = None
      then Some \<lparr>pb_state = Pending, pb_error = None\<rparr> else reg_record g k)
    (reg_record (reg_pending revision g) k)"
proof (cases "revision > 0 \<and> reg_record g revision = None")
  case True
  let ?g = "g\<lparr>pr_records := bt_insert revision \<lparr>pb_state = Pending, pb_error = None\<rparr> (pr_records g)\<rparr>"
  have eq: "reg_pending revision g = trim_registry ?g"
    using True by (simp add: reg_pending_def reg_record_def)
  have "reg_ok ?g" using assms by (simp add: reg_ok_def bt_ok_insert)
  moreover have "reg_record ?g k = (if k = revision then Some \<lparr>pb_state = Pending, pb_error = None\<rparr> else reg_record g k)"
    using assms by (simp add: reg_record_def reg_ok_def map_of_bt_insert)
  ultimately show ?thesis using reg_record_trim [of ?g k] True unfolding eq by (auto split: if_splits)
next
  case False
  then show ?thesis
    using reg_record_trim [OF assms, of k]
    by (auto simp: reg_pending_def reg_record_def trims_def split: option.splits)
qed


lemma reg_record_published:
  assumes "reg_ok g"
  shows "trims (if k = revision \<and> (revision > 0 \<or> reg_record g k \<noteq> None)
      then Some \<lparr>pb_state = Published, pb_error = None\<rparr> else reg_record g k)
    (reg_record (reg_published revision g) k)
    \<or> k = revision \<and> reg_record (reg_published revision g) k = None"
proof -
  let ?u = "reg_update revision (\<lambda>_. \<lparr>pb_state = Published, pb_error = None\<rparr>) (reg_pending revision g)"
  let ?v = "?u\<lparr>pr_published := Some revision\<rparr>"
  have "reg_ok ?v" using reg_ok_update reg_ok_pending [OF assms] by (simp add: reg_ok_def)
  then have "trims (reg_record ?v k) (reg_record (reg_published revision g) k)"
    unfolding reg_published_def by (rule reg_record_trim)
  moreover have "reg_record ?v k = reg_record ?u k" by (simp add: reg_record_def)
  ultimately show ?thesis
    using reg_record_pending [OF assms, of k revision]
    by (auto simp: trims_def reg_record_update split: if_splits option.splits)
qed

lemma reg_record_rejected: "reg_record (reg_rejected revision e g) k =
    (case reg_record g k of
       Some r \<Rightarrow> Some (if k = revision \<and> pb_state r = Pending
         then \<lparr>pb_state = Rejected, pb_error = Some e\<rparr> else r)
     | None \<Rightarrow> None)"
  by (simp add: reg_rejected_def reg_record_update split: option.split)

text \<open>The state machine of a publication record.\<close>

fun publication_next :: "publication_state \<Rightarrow> publication_state list" where
  "publication_next Pending = [Pending, Published, Rejected, Superseded]"
| "publication_next Published = [Published]"
| "publication_next Rejected = [Rejected, Published]"
| "publication_next Superseded = [Superseded, Published]"

definition record_step :: "int \<Rightarrow> registry \<Rightarrow> registry \<Rightarrow> bool" where
  "record_step k g g' =
     (case (reg_record g k, reg_record g' k) of
        (Some x, Some y) \<Rightarrow> pb_state y \<in> set (publication_next (pb_state x))
      | (Some x, None) \<Rightarrow> pb_state x \<noteq> Pending \<or> pr_published g' = Some k
      | (None, Some y) \<Rightarrow> k > 0 \<and> (pb_state y = Pending \<or> pb_state y = Published \<and> pr_published g' = Some k)
      | (None, None) \<Rightarrow> True)"

lemma publication_next_refl [simp]: "s \<in> set (publication_next s)" "Published \<in> set (publication_next s)"
  by (cases s; simp)+

lemma record_step_refl: "record_step k g g"
  by (auto simp: record_step_def split: option.split)

lemma pr_published_published: "pr_published (reg_published revision g) = Some revision"
  by (simp add: reg_published_def trim_registry_def)

lemma record_step_pending:
  assumes "reg_ok g"
  shows "record_step k g (reg_pending revision g)"
  using reg_record_pending [OF assms, of k revision]
  by (auto simp: record_step_def trims_def split: option.splits if_splits)

lemma record_step_supersede:
  assumes "reg_ok g"
  shows "record_step k g (supersede_pending_except revision (reg_pending revision g))"
  using reg_record_pending [OF assms, of k revision]
  by (auto simp: record_step_def trims_def reg_record_supersede split: option.splits if_splits)

lemma record_step_published:
  assumes "reg_ok g"
  shows "record_step k g (reg_published revision g)"
  using reg_record_published [OF assms, of k revision]
  by (auto simp: record_step_def trims_def pr_published_published split: option.splits if_splits)

lemma record_step_rejected: "record_step k g (reg_rejected revision e g)"
  by (auto simp: record_step_def reg_record_rejected split: option.splits)

lemma reg_ok_exec:
  assumes "reg_ok (pw_registry w)"
  shows "reg_ok (pw_registry (pub_exec E ci kr C e w)) \<and>
    record_step k (pw_registry w) (pw_registry (pub_exec E ci kr C e w))"
proof (cases e)
  case (Publish now)
  then show ?thesis
    using assms by (cases rule: worker_publish_cases [of now w])
      (simp_all add: record_step_refl reg_ok_published record_step_published)
next
  case Submit
  then show ?thesis
    using assms by (auto simp: submit_def Let_def reg_ok_supersede reg_ok_pending record_step_supersede
        record_step_refl split: option.split)
qed (use assms in \<open>auto simp: replace_all_def ok_or_def record_pending_publication_def Let_def
      shutdown_mark_def shutdown_cancel_def worker_defs reg_rejected_def reg_ok_update reg_ok_pending
      record_step_refl record_step_pending record_step_rejected [unfolded reg_rejected_def]
      elim!: ingest_Inr dest!: apply_watch_Inr split: sum.split option.split worker.split\<close>)

lemma reg_ok_run: "reg_ok (pw_registry w) \<Longrightarrow> reg_ok (pw_registry (pub_run E ci kr C evs w))"
  by (induction evs arbitrary: w) (simp_all add: pub_run_simps reg_ok_exec)

text \<open>the state machine of publication records, in every run. A published record is never changed,
  a rejected or superseded one only becomes published, a pending one is only dropped together with
  its own publication, and a record appears for positive revisions only, as pending or published.\<close>

theorem publication_state_machine:
  "let w = pub_run E ci kr C evs (world_new initial st) in
   record_step k (pw_registry w) (pw_registry (pub_exec E ci kr C e w))"
  unfolding Let_def
  by (rule conjunct2 [OF reg_ok_exec [OF reg_ok_run]]) (simp add: world_new_def reg_ok_default)

definition sample_cycle :: "unit pub_event list" where
  "sample_cycle = [ReplaceAll linked_graph, Submit, Receive, Take, Prepared (Some ()), Compiled, Publish 7]"

abbreviation sample_pub :: "unit pub_event list \<Rightarrow> (unit, unit) world" where
  "sample_pub evs \<equiv> pub_run sample_externals tag_cipher None (\<lambda>_ _ _. Some ()) evs (world_new () status_default)"

lemma linked_graph_accepted: "\<exists>l. accepted_graph sample_externals tag_cipher None linked_graph l"
proof -
  have "is_ok (sum_bind (decode_graph sample_externals tag_cipher None linked_graph DecryptForRuntime)
      (validate_runtime_form (ex_plugins sample_externals)))" by code_simp
  then obtain u where "sum_bind (decode_graph sample_externals tag_cipher None linked_graph DecryptForRuntime)
      (validate_runtime_form (ex_plugins sample_externals)) = Inr u"
    by (auto simp: is_ok_def split: sum.splits)
  then show ?thesis by (auto simp: accepted_graph_def)
qed

lemma linked_graph_revision: "sg_revision linked_graph = 1"
  by (simp add: linked_graph_def)

lemma sample_cycle_result:
  "pw_worker (sample_pub sample_cycle) = WReceive \<and> \<not> pw_signal (sample_pub sample_cycle) \<and>
   pw_lifecycle (sample_pub sample_cycle) = Running \<and> pw_submitting (sample_pub sample_cycle) = None \<and>
   pw_committed (sample_pub sample_cycle) = Some linked_graph \<and>
   map_option pg_stored (pw_target (sample_pub sample_cycle)) = Some linked_graph"
proof -
  obtain l where "accepted_graph sample_externals tag_cipher None linked_graph l"
    using linked_graph_accepted by blast
  then show ?thesis
    by (simp add: sample_cycle_def pub_run_simps accepted_graph_def replace_all_def ingest_def
        ensure_worker_started_def world_new_def ok_or_def submit_def Let_def worker_receive_def
        worker_take_def worker_prepared_def worker_compiled_def worker_publish_def cancelled_def
        current_target_def linked_graph_revision)
qed

lemma no_lost_wakeup_witness:
  "settled (sample_pub sample_cycle) \<and> pw_target (sample_pub sample_cycle) \<noteq> None"
  using no_lost_wakeup [OF refl, of sample_externals tag_cipher None "\<lambda>_ _ _. Some ()" sample_cycle "()" status_default]
    sample_cycle_result by auto

lemma shutdown_is_final_witness:
  "pw_committed (pub_run sample_externals tag_cipher None (\<lambda>_ _ _. Some ())
     [Submit, Receive, Take, Prepared (Some ()), Compiled, Publish 9]
     (pub_run sample_externals tag_cipher None (\<lambda>_ _ _. Some ()) (ShutdownMark # [] @ [ShutdownCancel])
       (sample_pub sample_cycle))) = Some linked_graph"
proof -
  have "pw_committed (pub_run sample_externals tag_cipher None (\<lambda>_ _ _. Some ())
      (ShutdownMark # [] @ [ShutdownCancel]) (sample_pub sample_cycle)) = Some linked_graph"
    using sample_cycle_result
    by (simp add: pub_run_simps shutdown_mark_def shutdown_cancel_def)
  then show ?thesis
    using shutdown_is_final [OF refl conjunct1 [OF conjunct2 [OF conjunct2 [OF conjunct2 [OF sample_cycle_result]]]] refl]
    by metis
qed

text \<open>A second snapshot arrives while the first one is being compiled and a preparation has failed before.\<close>

definition busy_cycle :: "unit pub_event list" where
  "busy_cycle = [ReplaceAll linked_graph, Submit, Receive, Take, Prepared None, Failed, WakeUp, Take, Prepared (Some ()), Compiled,
     ReplaceAll linked_graph, Submit]"

lemma accepted_snapshot_publishes_witness:
  "pw_generation (sample_pub busy_cycle) = 2 \<and> pw_committed (sample_pub busy_cycle) = None \<and>
   pw_committed (pub_run sample_externals tag_cipher None (\<lambda>_ _ _. Some ())
     [Publish 8, Failed, Cancelled, WakeUp, Receive, Take, Prepared (Some ()), Compiled, Publish 9] (sample_pub busy_cycle)) =
     Some linked_graph"
proof -
  obtain l where l: "accepted_graph sample_externals tag_cipher None linked_graph l"
    using linked_graph_accepted by blast
  then have state: "pw_lifecycle (sample_pub busy_cycle) = Running \<and> pw_submitting (sample_pub busy_cycle) = None \<and>
      pw_target (sample_pub busy_cycle) = Some \<lparr>pg_generation = 2, pg_revision = 1, pg_stored = linked_graph, pg_logical = l\<rparr> \<and>
      (\<exists>a t r. pw_worker (sample_pub busy_cycle) = WCompiled a t r) \<and> rs_revision (pw_runtime (sample_pub busy_cycle)) = 0 \<and>
      pw_generation (sample_pub busy_cycle) = 2 \<and> pw_committed (sample_pub busy_cycle) = None"
    by (simp add: busy_cycle_def pub_run_simps accepted_graph_def replace_all_def ingest_def
        ensure_worker_started_def world_new_def ok_or_def submit_def Let_def worker_receive_def worker_failed_def worker_wake_def
        worker_take_def worker_prepared_def worker_compiled_def worker_publish_def cancelled_def is_current_generation_def
        current_target_def linked_graph_revision)
  let ?t = "\<lparr>pg_generation = 2, pg_revision = 1, pg_stored = linked_graph, pg_logical = l\<rparr>"
  have worker: "pw_worker (sample_pub busy_cycle) \<noteq> WWaiting (pg_generation ?t)"
    "pw_worker (sample_pub busy_cycle) \<noteq> WPermanent (Some (pg_generation ?t))" using state by auto
  have "\<forall>(previous :: unit runtime_snapshot) (q :: unit). Some () \<noteq> None"
    "rs_revision (pw_runtime (sample_pub busy_cycle)) \<le> pg_revision ?t" using state by simp_all
  from accepted_snapshot_publishes [OF refl conjunct1 [OF state] _ _ worker this refl, of 8 "()" 9] state show ?thesis
    by simp
qed

text \<open>A submission that passed the lifecycle check before shutdown began still replaces the target
  afterwards, with a token that shutdown never cancels; a worker that was between two attempts takes
  it and publishes it.\<close>

lemma shutdown_race:
  "\<exists>evs. pw_lifecycle (sample_pub (evs @ [ShutdownMark, ShutdownCancel])) = Stopped \<and>
     pw_committed (sample_pub (evs @ [ShutdownMark, ShutdownCancel])) = None \<and>
     pw_committed (sample_pub (evs @ [ShutdownMark, ShutdownCancel] @
       [Submit, Take, Prepared (Some ()), Compiled, Publish 9])) = Some linked_graph"
proof -
  obtain l where "accepted_graph sample_externals tag_cipher None linked_graph l"
    using linked_graph_accepted by blast
  then show ?thesis
    by (intro exI [of _ "[ReplaceAll linked_graph, Submit, Receive, ReplaceAll linked_graph]"])
      (simp add: pub_run_simps accepted_graph_def replace_all_def ingest_def shutdown_mark_def
        shutdown_cancel_def ensure_worker_started_def world_new_def ok_or_def submit_def Let_def
        worker_receive_def worker_take_def worker_prepared_def worker_compiled_def worker_publish_def
        cancelled_def current_target_def linked_graph_revision)
qed


lemma trim_sole_settled:
  assumes "distinct_keys rs" and "length rs > PUBLICATION_REGISTRY_CAPACITY"
    and "\<forall>(k, r) \<in> set rs. k \<noteq> revision \<longrightarrow> pb_state r = Pending"
    and "map_of rs revision = Some x" and "pb_state x \<noteq> Pending"
  shows "map_of (trim_records rs) revision = None"
proof -
  have "(revision, x) \<in> set rs" using assms(4) by (rule map_of_SomeD)
  then obtain j r where f: "find (\<lambda>(_, r). pb_state r \<noteq> Pending) rs = Some (j, r)"
    using assms(5) by (cases "find (\<lambda>(_, r). pb_state r \<noteq> Pending) rs") (auto simp: find_None_iff)
  then have "(j, r) \<in> set rs" and "pb_state r \<noteq> Pending"
    by (auto simp: find_Some_iff) (metis nth_mem)
  then have "j = revision" using assms(3) by auto
  then have "trim_records rs = trim_records (AList.delete revision rs)"
    using trim_records_step [OF assms(2) f] by simp
  moreover have "distinct_keys (AList.delete revision rs)" using assms(1) by (simp add: distinct_delete)
  ultimately show ?thesis using map_of_trim_records [of "AList.delete revision rs" revision] by auto
qed

lemma trim_all_pending:
  assumes "\<forall>(k, r) \<in> set rs. pb_state r = Pending"
  shows "trim_records rs = rs"
proof -
  have "find (\<lambda>(_, r). pb_state r \<noteq> Pending) rs = None" using assms by (auto simp: find_None_iff)
  then show ?thesis by (subst trim_records.simps) simp
qed

text \<open>the registry can lose the record of the very publication that is being recorded. When more
  than 128 records are retained and every other one is pending, \<open>published\<close> trims the record it has
  just marked, and the revision is reported as unknown.\<close>

theorem published_record_trimmed:
  assumes "reg_ok g" and "reg_record g revision = Some x" and "revision > 0"
    and "length (pr_records g) > PUBLICATION_REGISTRY_CAPACITY"
    and "list_all (\<lambda>(k, r). pb_state r = Pending) (pr_records g)"
  shows "reg_view revision (reg_published revision g) = None"
proof -
  let ?p = "\<lparr>pb_state = Published, pb_error = None\<rparr>"
  let ?rs = "map (\<lambda>(k, r). (k, if k = revision then ?p else r)) (pr_records g)"
  have g: "reg_pending revision g = g"
    using assms(2,5) by (simp add: reg_pending_def reg_record_def trim_registry_def list_all_iff trim_all_pending)
  have "map_of (trim_records ?rs) revision = None"
  proof (rule trim_sole_settled)
    show "distinct_keys ?rs"
      unfolding keys_map_values [of "\<lambda>k r. if k = revision then ?p else r" "pr_records g"]
      using assms(1) by (simp add: reg_ok_def)
    show "map_of ?rs revision = Some ?p"
      using assms(2) map_of_map_values [of "\<lambda>k r. if k = revision then ?p else r" "pr_records g" revision]
      by (simp add: reg_record_def)
  qed (use assms(4,5) in \<open>auto simp: list_all_iff\<close>)
  then show ?thesis by (simp add: reg_view_def reg_published_def g trim_registry_def reg_update_def)
qed

lemma published_record_trimmed_witness:
  "reg_view 129 (reg_published 129 \<lparr>pr_records = map (\<lambda>i. (int i, \<lparr>pb_state = Pending, pb_error = None\<rparr>)) [1..<130],
     pr_published = Some 0\<rparr>) = None"
proof (rule published_record_trimmed)
  let ?rs = "map (\<lambda>i. (int i, \<lparr>pb_state = Pending, pb_error = None\<rparr>)) [1..<130]"
  have fst: "map fst ?rs = map int [1..<130]" by simp
  have d: "distinct_keys ?rs" unfolding fst by (simp only: distinct_map distinct_upt) simp
  have "sorted (map fst ?rs)" unfolding fst by (simp add: sorted_iff_nth_mono del: upt_conv_Cons upt.simps)
  with d show "reg_ok \<lparr>pr_records = ?rs, pr_published = Some 0\<rparr>"
    by (simp only: reg_ok_def registry.simps)
  have "(129, \<lparr>pb_state = Pending, pb_error = None\<rparr>) \<in> set ?rs" by force
  then show "reg_record \<lparr>pr_records = ?rs, pr_published = Some 0\<rparr> 129 = Some \<lparr>pb_state = Pending, pb_error = None\<rparr>"
    unfolding reg_record_def registry.simps using map_of_is_SomeI [OF d] by metis
  show "length (pr_records \<lparr>pr_records = ?rs, pr_published = Some 0\<rparr>) > PUBLICATION_REGISTRY_CAPACITY"
    by (simp only: registry.simps length_map length_upt PUBLICATION_REGISTRY_CAPACITY_def)
  show "list_all (\<lambda>(k, r). pb_state r = Pending) (pr_records \<lparr>pr_records = ?rs, pr_published = Some 0\<rparr>)"
    by (simp only: registry.simps list_all_iff) auto
qed simp

end
