(* ===== verification/Selection.thy ===== *)
theory Selection
  imports Words "HOL-Library.Product_Lexorder" "HOL-Library.Multiset"
begin

text \<open>
  Backend selection by priority groups (\<open>src/proxy/upstream/selection.rs\<close>).

  A backend is identified by address and weight; its priority is metadata that equality and order
  ignore. A \<open>BTreeSet<Backend>\<close> is the ordered map from identities to backends. The inner algorithm
  (Pingora's round robin, random, hash and ketama selectors) is the record \<open>inner_selection\<close>: how a
  selector is built from the members of a group, the iterator it gives for a key, and the draws of
  that iterator, which may repeat members, end, or go on for ever.
\<close>

section \<open>Backends\<close>

record 'a backend =
  bk_addr :: 'a
  bk_weight :: nat
  bk_priority :: "int option"
  bk_id :: "('a \<times> nat) option"

type_synonym 'a backend_id = "'a \<times> nat"
type_synonym 'a backend_set = "('a backend_id \<times> 'a backend) list"

definition bk_key :: "'a backend \<Rightarrow> 'a backend_id" where
  "bk_key b = (bk_addr b, bk_weight b)"

definition set_backend_priority :: "int \<Rightarrow> 'a backend \<Rightarrow> 'a backend" where
  "set_backend_priority p b = b\<lparr>bk_priority := Some p\<rparr>"

definition backend_priority :: "'a backend \<Rightarrow> int" where
  "backend_priority b = unwrap_or (bk_priority b) 0"

definition set_backend_id :: "'a backend \<Rightarrow> 'a backend" where
  "set_backend_id b = b\<lparr>bk_id := Some (bk_addr b, bk_weight b)\<rparr>"

definition backend_id :: "'a backend \<Rightarrow> 'a backend_id" where
  "backend_id b = unwrap_or (bk_id b) (bk_addr b, bk_weight b)"

text \<open>\<open>BTreeSet::insert\<close> keeps the element that is already there.\<close>

definition set_insert :: "'a::linorder backend \<Rightarrow> 'a backend_set \<Rightarrow> 'a backend_set" where
  "set_insert b s = (if map_of s (bk_key b) = None then bt_insert (bk_key b) b s else s)"

definition insert_backend :: "'a::linorder backend \<Rightarrow> 'a backend_set \<Rightarrow> 'a backend_set" where
  "insert_backend b s =
     (case map_of s (bk_key b) of
        None \<Rightarrow> set_insert b s
      | Some existing \<Rightarrow>
          if backend_priority b = backend_priority existing then s
          else if backend_priority b > backend_priority existing
          then set_insert b (AList.delete (bk_key existing) s)
          else s)"

section \<open>Priority groups\<close>

record ('k, 'a, 's, 'i) inner_selection =
  is_build :: "'a backend list \<Rightarrow> 's"
  is_iter :: "'s \<Rightarrow> 'k \<Rightarrow> 'i"
  is_next :: "'i \<Rightarrow> 'a backend option \<times> 'i"

record ('a, 's) priority_group =
  pg_priority :: int
  pg_selector :: 's
  pg_backends :: "'a backend list"

text \<open>The map \<open>by_priority\<close> is keyed by \<open>Reverse(priority)\<close>, here the negated priority.\<close>

definition add_to_group :: "'a::linorder backend \<Rightarrow> (int \<times> 'a backend_set) list \<Rightarrow> (int \<times> 'a backend_set) list" where
  "add_to_group b m =
     (let k = - backend_priority b
      in bt_insert k (set_insert b (unwrap_or (map_of m k) [])) m)"

definition group_by_priority ::
  "('a backend list \<Rightarrow> 's) \<Rightarrow> 'a::linorder backend_set \<Rightarrow> ('a, 's) priority_group list" where
  "group_by_priority build s =
     map (\<lambda>(k, members). \<lparr>pg_priority = - k, pg_selector = build (map snd members),
                          pg_backends = map snd members\<rparr>)
       (fold add_to_group (map snd s) [])"

definition group_draw_budget :: "nat \<Rightarrow> nat" where
  "group_draw_budget group_len = max (group_len * 8) 64"

section \<open>The cursor\<close>

record ('a, 'i) cursor =
  cu_group :: nat
  cu_inner :: "'i option"
  cu_seen :: "64 word list"
  cu_drawn :: nat
  cu_next :: nat

datatype ('a, 'i) grouped_iter = IterEmpty | IterFlat 'i | IterGrouped "('a, 'i) cursor"

definition cursor_start :: "('a, 'i) cursor" where
  "cursor_start = \<lparr>cu_group = 0, cu_inner = None, cu_seen = [], cu_drawn = 0, cu_next = 0\<rparr>"

definition grouped_iter ::
  "('k, 'a, 's, 'i) inner_selection \<Rightarrow> ('a, 's) priority_group list \<Rightarrow> 'k \<Rightarrow> ('a, 'i) grouped_iter" where
  "grouped_iter S groups key =
     (case groups of
        [] \<Rightarrow> IterEmpty
      | [only] \<Rightarrow> IterFlat (is_iter S (pg_selector only) key)
      | _ \<Rightarrow> IterGrouped cursor_start)"

text \<open>\<open>slice::binary_search\<close> on the sorted members of a group: the index of the identity.\<close>

definition member_index :: "'a backend list \<Rightarrow> 'a backend \<Rightarrow> nat option" where
  "member_index bs b = find (\<lambda>i. bk_key (bs ! i) = bk_key b) [0..<length bs]"

definition init_group ::
  "('k, 'a, 's, 'i) inner_selection \<Rightarrow> 'k \<Rightarrow> ('a, 's) priority_group \<Rightarrow> ('a, 'i) cursor \<Rightarrow> ('a, 'i) cursor" where
  "init_group S key g c =
     (if cu_seen c = []
      then c\<lparr>cu_seen := replicate ((length (pg_backends g) + 63) div 64) 0, cu_drawn := 0, cu_next := 0,
             cu_inner := Some (is_iter S (pg_selector g) key)\<rparr>
      else c)"

definition draw_inner ::
  "('k, 'a, 's, 'i) inner_selection \<Rightarrow> ('a, 'i) cursor \<Rightarrow> 'a backend option \<times> ('a, 'i) cursor" where
  "draw_inner S c =
     (case cu_inner c of
        None \<Rightarrow> (None, c)
      | Some i \<Rightarrow> let (b, i') = is_next S i in (b, c\<lparr>cu_inner := Some i'\<rparr>))"

definition next_uncovered :: "('a, 's) priority_group \<Rightarrow> ('a, 'i) cursor \<Rightarrow> nat option" where
  "next_uncovered g c =
     find (\<lambda>i. \<not> bits_test (cu_seen c) i) [cu_next c..<length (pg_backends g)]"

definition leave_group :: "('a, 'i) cursor \<Rightarrow> ('a, 'i) cursor" where
  "leave_group c = c\<lparr>cu_group := cu_group c + 1, cu_inner := None, cu_seen := []\<rparr>"

text \<open>\<open>BackendIter::next\<close> of the grouped cursor. The loop is not bounded by its code alone: with an
  empty group it would initialise the group for ever.\<close>

partial_function (option) grouped_next ::
  "('k, 'a, 's, 'i) inner_selection \<Rightarrow> ('a, 's) priority_group list \<Rightarrow> 'k \<Rightarrow> ('a, 'i) cursor \<Rightarrow>
   ('a backend option \<times> ('a, 'i) cursor) option" where
  "grouped_next S groups key c =
     (if cu_group c \<ge> length groups then Some (None, c)
      else
        let g = groups ! cu_group c;
            bs = pg_backends g;
            c = init_group S key g c
        in if cu_drawn c < group_draw_budget (length bs)
           then (case draw_inner S c of
                   (None, c) \<Rightarrow> grouped_next S groups key (c\<lparr>cu_drawn := group_draw_budget (length bs)\<rparr>)
                 | (Some b, c) \<Rightarrow>
                     let c = c\<lparr>cu_drawn := cu_drawn c + 1\<rparr>
                     in (case member_index bs b of
                           Some index \<Rightarrow>
                             if bits_test (cu_seen c) index then grouped_next S groups key c
                             else Some (Some (bs ! index), c\<lparr>cu_seen := bits_set index (cu_seen c)\<rparr>)
                         | None \<Rightarrow> grouped_next S groups key c))
           else (case next_uncovered g c of
                   Some index \<Rightarrow>
                     Some (Some (bs ! index),
                       c\<lparr>cu_next := index + 1, cu_seen := bits_set index (cu_seen c)\<rparr>)
                 | None \<Rightarrow> grouped_next S groups key (leave_group (c\<lparr>cu_next := length bs\<rparr>))))"

definition iter_next ::
  "('k, 'a, 's, 'i) inner_selection \<Rightarrow> ('a, 's) priority_group list \<Rightarrow> 'k \<Rightarrow> ('a, 'i) grouped_iter \<Rightarrow>
   ('a backend option \<times> ('a, 'i) grouped_iter) option" where
  "iter_next S groups key it =
     (case it of
        IterEmpty \<Rightarrow> Some (None, IterEmpty)
      | IterFlat i \<Rightarrow> let (b, i') = is_next S i in Some (b, IterFlat i')
      | IterGrouped c \<Rightarrow> map_option (\<lambda>(b, c'). (b, IterGrouped c')) (grouped_next S groups key c))"

section \<open>Choosing a backend\<close>

text \<open>\<open>LoadBalancer::select_with\<close> of Pingora offers the first \<open>max_iterations\<close> candidates of the
  iterator, each once, to the closure with their readiness, and takes the first accepted one.\<close>

definition select_with :: "('a backend \<Rightarrow> bool) \<Rightarrow> 'a backend list \<Rightarrow> nat \<Rightarrow>
    ('a backend \<Rightarrow> bool \<Rightarrow> bool) \<Rightarrow> 'a backend option" where
  "select_with ready candidates max_iterations accept =
     find (\<lambda>b. accept b (ready b)) (take max_iterations candidates)"

definition select_backend :: "('a backend \<Rightarrow> bool) \<Rightarrow> 'a backend list \<Rightarrow> 'a backend list \<Rightarrow> nat \<Rightarrow> 'a backend option" where
  "select_backend ready candidates candidates' max_iterations =
     (case select_with ready candidates max_iterations (\<lambda>_ r. r) of
        Some b \<Rightarrow> Some b
      | None \<Rightarrow> select_with ready candidates' max_iterations (\<lambda>_ _. True))"

section \<open>Every backend exactly once, group by group\<close>

lemma member_index_Some:
  "member_index bs b = Some i \<Longrightarrow> i < length bs \<and> bk_key (bs ! i) = bk_key b"
  by (auto simp: member_index_def find_Some_iff)

lemma find_upt_Some:
  "find P [m..<n] = Some i \<longleftrightarrow> m \<le> i \<and> i < n \<and> P i \<and> (\<forall>j. m \<le> j \<longrightarrow> j < i \<longrightarrow> \<not> P j)"
proof (induction "n - m" arbitrary: m)
  case (Suc d)
  then have "m < n" by simp
  moreover from this have "[m..<n] = m # [Suc m..<n]" by (rule upt_conv_Cons)
  ultimately show ?case using Suc.hyps(1) [of "Suc m"] Suc.hyps(2)
    by (auto simp: le_Suc_eq Suc_le_eq) (metis le_eq_less_or_eq)+
qed auto

definition in_group :: "('a, 's) priority_group list \<Rightarrow> nat \<Rightarrow> ('a, 'i) cursor \<Rightarrow> bool" where
  "in_group groups k c \<longleftrightarrow>
     k < length groups \<and> cu_group c = k \<and> cu_seen c \<noteq> [] \<and>
     length (cu_seen c) = (length (pg_backends (groups ! k)) + 63) div 64 \<and>
     (\<forall>i < cu_next c. i < length (pg_backends (groups ! k)) \<longrightarrow> bits_test (cu_seen c) i)"

definition remaining :: "('a, 's) priority_group \<Rightarrow> ('a, 'i) cursor \<Rightarrow> nat set" where
  "remaining g c = {i. i < length (pg_backends g) \<and> \<not> bits_test (cu_seen c) i}"

lemma remaining_cong [simp]:
  "remaining g (c\<lparr>cu_inner := x\<rparr>) = remaining g c" "remaining g (c\<lparr>cu_drawn := n\<rparr>) = remaining g c"
  by (simp_all add: remaining_def)

lemma in_group_cong [simp]:
  "in_group groups k (c\<lparr>cu_inner := x\<rparr>) = in_group groups k c"
  "in_group groups k (c\<lparr>cu_drawn := n\<rparr>) = in_group groups k c"
  by (simp_all add: in_group_def)

lemma init_group_id: "in_group groups k c \<Longrightarrow> init_group S key g c = c"
  by (simp add: in_group_def init_group_def)

lemma draw_inner_cases:
  obtains x where "snd (draw_inner S c) = c\<lparr>cu_inner := x\<rparr>"
proof (cases "cu_inner c")
  case None
  then show ?thesis by (intro that [of None]) (simp add: draw_inner_def)
next
  case (Some a)
  then show ?thesis
    by (intro that [of "Some (snd (is_next S a))"]) (simp add: draw_inner_def split: prod.split)
qed

lemma grouped_next_done: "cu_group c \<ge> length groups \<Longrightarrow> grouped_next S groups key c = Some (None, c)"
  by (subst grouped_next.simps) simp

lemma mark_seen:
  assumes "in_group groups k c" and "g = groups ! k" and "i < length (pg_backends g)"
  shows "remaining g (c\<lparr>cu_seen := bits_set i (cu_seen c)\<rparr>) = remaining g c - {i}"
    and "in_group groups k (c\<lparr>cu_seen := bits_set i (cu_seen c)\<rparr>)"
proof -
  have "i div 64 < length (cu_seen c)"
    using assms by (simp add: in_group_def div_ceil_less)
  moreover have "bits_set i (cu_seen c) \<noteq> []"
    using assms(1) by (metis in_group_def length_0_conv length_bits_set)
  ultimately show "remaining g (c\<lparr>cu_seen := bits_set i (cu_seen c)\<rparr>) = remaining g c - {i}"
    and "in_group groups k (c\<lparr>cu_seen := bits_set i (cu_seen c)\<rparr>)"
    using assms by (auto simp: remaining_def in_group_def bits_test_set)
qed

text \<open>One draw inside a group: a member that was not drawn before, or the move to the next group.\<close>

lemma next_in_group:
  assumes "in_group groups k c" and "g = groups ! k"
  shows "(\<exists>i c'. i \<in> remaining g c \<and> grouped_next S groups key c = Some (Some (pg_backends g ! i), c') \<and>
           in_group groups k c' \<and> remaining g c' = remaining g c - {i}) \<or>
    (remaining g c = {} \<and>
       (\<exists>c'. cu_group c' = Suc k \<and> cu_seen c' = [] \<and> grouped_next S groups key c = grouped_next S groups key c'))"
  using assms(1)
proof (induction "group_draw_budget (length (pg_backends g)) - cu_drawn c" arbitrary: c rule: less_induct)
  case less
  let ?bs = "pg_backends g"
  let ?goal = "\<lambda>c. (\<exists>i c'. i \<in> remaining g c \<and> grouped_next S groups key c = Some (Some (pg_backends g ! i), c') \<and>
           in_group groups k c' \<and> remaining g c' = remaining g c - {i}) \<or>
    (remaining g c = {} \<and>
       (\<exists>c'. cu_group c' = Suc k \<and> cu_seen c' = [] \<and> grouped_next S groups key c = grouped_next S groups key c'))"
  have k: "cu_group c = k" "k < length groups" using less.prems by (auto simp: in_group_def)
  note unfold = grouped_next.simps [of S groups key c]
  have init: "init_group S key g c = c" using less.prems by (rule init_group_id)
  show ?case
  proof (cases "cu_drawn c < group_draw_budget (length ?bs)")
    case True
    obtain ob c1 where d: "draw_inner S c = (ob, c1)" by (cases "draw_inner S c")
    obtain x where c1: "c1 = c\<lparr>cu_inner := x\<rparr>"
      using draw_inner_cases [of S c] d by (metis snd_conv)
    have step: "?goal c" if "grouped_next S groups key c = grouped_next S groups key c2"
      and "c2 = c\<lparr>cu_inner := x, cu_drawn := n\<rparr>" and "n > cu_drawn c" for c2 n
    proof -
      have "?goal c2"
        by (rule less.hyps) (use that(2,3) True less.prems in \<open>simp_all add: diff_less_mono2\<close>)
      then show ?thesis using that(1,2) by simp
    qed
    show ?thesis
    proof (cases ob)
      case None
      have "grouped_next S groups key c =
          grouped_next S groups key (c\<lparr>cu_inner := x, cu_drawn := group_draw_budget (length ?bs)\<rparr>)"
        using k assms(2) True d None c1 init by (subst unfold) (simp add: Let_def)
      then show ?thesis by (rule step [OF _ refl]) (use True in simp)
    next
      case (Some b)
      let ?c2 = "c\<lparr>cu_inner := x, cu_drawn := cu_drawn c + 1\<rparr>"
      show ?thesis
      proof (cases "member_index ?bs b")
        case None
        have "grouped_next S groups key c = grouped_next S groups key ?c2"
          using k assms(2) True d Some c1 init None by (subst unfold) (simp add: Let_def)
        then show ?thesis by (rule step [OF _ refl]) simp
      next
        case idx: (Some i)
        then have i: "i < length ?bs" using member_index_Some by blast
        show ?thesis
        proof (cases "bits_test (cu_seen c) i")
          case seen: True
          have "grouped_next S groups key c = grouped_next S groups key ?c2"
            using k assms(2) True d Some c1 init idx seen by (subst unfold) (simp add: Let_def)
          then show ?thesis by (rule step [OF _ refl]) simp
        next
          case False
          have "grouped_next S groups key c = Some (Some (?bs ! i), ?c2\<lparr>cu_seen := bits_set i (cu_seen c)\<rparr>)"
            using k assms(2) True d Some c1 init idx False by (subst unfold) (simp add: Let_def)
          moreover have "in_group groups k ?c2" using less.prems by simp
          ultimately show ?thesis
            using mark_seen [of groups k ?c2 g i] assms(2) i False by (auto simp: remaining_def)
        qed
      qed
    qed
  next
    case False
    show ?thesis
    proof (cases "next_uncovered g c")
      case None
      then have "\<forall>i. cu_next c \<le> i \<longrightarrow> i < length ?bs \<longrightarrow> bits_test (cu_seen c) i"
        by (auto simp: next_uncovered_def find_None_iff)
      then have "remaining g c = {}"
        using less.prems assms(2) by (auto simp: remaining_def in_group_def) (meson not_le)
      moreover have "grouped_next S groups key c =
          grouped_next S groups key (leave_group (c\<lparr>cu_next := length ?bs\<rparr>))"
        using k assms(2) False init None by (subst unfold) (simp add: Let_def)
      moreover have "cu_group (leave_group (c\<lparr>cu_next := length ?bs\<rparr>)) = Suc k"
        and "cu_seen (leave_group (c\<lparr>cu_next := length ?bs\<rparr>)) = []"
        using k by (simp_all add: leave_group_def)
      ultimately show ?thesis by metis
    next
      case (Some i)
      then have i: "i < length ?bs" "\<not> bits_test (cu_seen c) i"
        and before: "\<forall>j. cu_next c \<le> j \<longrightarrow> j < i \<longrightarrow> bits_test (cu_seen c) j"
        by (auto simp: next_uncovered_def find_upt_Some)
      have "grouped_next S groups key c =
          Some (Some (?bs ! i), c\<lparr>cu_next := i + 1, cu_seen := bits_set i (cu_seen c)\<rparr>)"
        using k assms(2) False init Some by (subst unfold) (simp add: Let_def)
      moreover have "in_group groups k (c\<lparr>cu_next := i + 1, cu_seen := bits_set i (cu_seen c)\<rparr>)"
        using mark_seen(2) [OF less.prems assms(2) i(1)] less.prems assms(2) before i(1)
        by (auto simp: in_group_def bits_test_set div_ceil_less less_Suc_eq not_less)
          (metis leI order.strict_trans)
      moreover have "remaining g (c\<lparr>cu_next := i + 1, cu_seen := bits_set i (cu_seen c)\<rparr>) = remaining g c - {i}"
        using mark_seen(1) [OF less.prems assms(2) i(1)] by (simp add: remaining_def)
      ultimately show ?thesis using i by (auto simp: remaining_def)
    qed
  qed
qed


lemma grouped_next_init:
  assumes "cu_group d = cu_group c" and "cu_group c < length groups"
    and "init_group S key (groups ! cu_group c) c = init_group S key (groups ! cu_group c) d"
  shows "grouped_next S groups key c = grouped_next S groups key d"
proof -
  have "\<not> length groups \<le> cu_group c" using assms(2) by simp
  then show ?thesis
    by (simp only: grouped_next.simps [of S groups key c] grouped_next.simps [of S groups key d]
        Let_def assms(1,3) if_False)
qed

text \<open>\<open>enumerates S groups key c bs\<close>: from the cursor \<open>c\<close> the iterator draws exactly \<open>bs\<close> and
  then ends.\<close>

inductive enumerates ::
  "('k, 'a, 's, 'i) inner_selection \<Rightarrow> ('a, 's) priority_group list \<Rightarrow> 'k \<Rightarrow> ('a, 'i) cursor \<Rightarrow>
   'a backend list \<Rightarrow> bool" for S groups key where
  ends: "grouped_next S groups key c = Some (None, c') \<Longrightarrow> enumerates S groups key c []"
| draws: "grouped_next S groups key c = Some (Some b, c') \<Longrightarrow> enumerates S groups key c' bs \<Longrightarrow>
    enumerates S groups key c (b # bs)"

lemma enumerates_unique:
  "enumerates S groups key c xs \<Longrightarrow> enumerates S groups key c ys \<Longrightarrow> xs = ys"
proof (induction arbitrary: ys rule: enumerates.induct)
  case (ends c c')
  from ends(2) ends(1) show ?case by cases auto
next
  case (draws c b c' bs)
  from draws(4) draws(1) draws(3) show ?case by cases auto
qed

lemma enumerates_cong:
  assumes "grouped_next S groups key c = grouped_next S groups key d" and "enumerates S groups key d xs"
  shows "enumerates S groups key c xs"
  using assms(2,1) by cases (auto intro: enumerates.intros)

lemma enumerates_group:
  assumes "in_group groups k c" and "g = groups ! k"
    and "\<And>d. cu_group d = Suc k \<Longrightarrow> cu_seen d = [] \<Longrightarrow> enumerates S groups key d ys"
  shows "\<exists>is. distinct is \<and> set is = remaining g c \<and>
    enumerates S groups key c (map ((!) (pg_backends g)) is @ ys)"
  using assms(1)
proof (induction "card (remaining g c)" arbitrary: c rule: less_induct)
  case less
  have fin: "finite (remaining g c)" by (simp add: remaining_def)
  from next_in_group [OF less.prems assms(2), of S key]
  show ?case
  proof (elim disjE exE conjE)
    fix i c' assume i: "i \<in> remaining g c" and nx: "grouped_next S groups key c = Some (Some (pg_backends g ! i), c')"
      and c': "in_group groups k c'" "remaining g c' = remaining g c - {i}"
    have "card (remaining g c') < card (remaining g c)"
      unfolding c'(2) using i fin by (meson card_Diff1_less)
    then obtain js where js: "distinct js" "set js = remaining g c - {i}"
      "enumerates S groups key c' (map ((!) (pg_backends g)) js @ ys)"
      using less.hyps [OF _ c'(1)] c'(2) by auto
    have "distinct (i # js) \<and> set (i # js) = remaining g c \<and>
        enumerates S groups key c (map ((!) (pg_backends g)) (i # js) @ ys)"
      using js i by (auto intro: enumerates.draws [OF nx])
    then show ?thesis by blast
  next
    fix c' assume "remaining g c = {}" and c': "cu_group c' = Suc k" "cu_seen c' = []"
      "grouped_next S groups key c = grouped_next S groups key c'"
    moreover have "enumerates S groups key c ys"
      by (rule enumerates_cong [OF c'(3) assms(3) [OF c'(1,2)]])
    ultimately show ?thesis by (intro exI [of _ "[]"]) simp
  qed
qed

lemma div_ceil_pos: "0 < len \<Longrightarrow> 0 < (len + 63) div 64" for len :: nat
  by linarith

lemma enumerates_from:
  assumes "\<forall>g \<in> set groups. pg_backends g \<noteq> []" and "k \<le> length groups"
  shows "\<exists>xss. list_all2 (\<lambda>xs g. mset xs = mset (pg_backends g)) xss (drop k groups) \<and>
    (\<forall>c. cu_group c = k \<longrightarrow> cu_seen c = [] \<longrightarrow> enumerates S groups key c (concat xss))"
  using assms(2)
proof (induction "length groups - k" arbitrary: k)
  case 0
  then have "enumerates S groups key c []" if "cu_group c = k" for c
    using that by (intro enumerates.ends [of _ _ _ _ c] grouped_next_done) simp
  with 0 show ?case by (intro exI [of _ "[]"]) simp
next
  case (Suc d)
  then have k: "k < length groups" by simp
  let ?g = "groups ! k"
  let ?len = "length (pg_backends ?g)"
  obtain xss where xss: "list_all2 (\<lambda>xs g. mset xs = mset (pg_backends g)) xss (drop (Suc k) groups)"
    and rest: "\<And>c. cu_group c = Suc k \<Longrightarrow> cu_seen c = [] \<Longrightarrow> enumerates S groups key c (concat xss)"
    using Suc.hyps(1) [of "Suc k"] Suc.hyps(2) k by fastforce
  have ne: "0 < ?len" using assms(1) k by (metis length_greater_0_conv nth_mem)
  let ?c = "\<lparr>cu_group = k, cu_inner = Some (is_iter S (pg_selector ?g) key),
      cu_seen = replicate ((?len + 63) div 64) 0, cu_drawn = 0, cu_next = 0\<rparr>"
  have "in_group groups k ?c"
    using k div_ceil_pos [OF ne] by (simp add: in_group_def)
  then obtain js where js: "distinct js" "set js = remaining ?g ?c"
    "enumerates S groups key ?c (map ((!) (pg_backends ?g)) js @ concat xss)"
    using enumerates_group [OF _ refl rest] by blast
  have "remaining ?g ?c = {..<?len}"
    by (auto simp: remaining_def bits_test_zero div_ceil_less)
  then have "mset js = mset [0..<?len]"
    using js(1,2) by (metis atLeast_upt distinct_upt set_eq_iff_mset_eq_distinct)
  then have "mset (map ((!) (pg_backends ?g)) js) = mset (pg_backends ?g)"
    by (metis map_nth mset_map)
  moreover have "enumerates S groups key c (map ((!) (pg_backends ?g)) js @ concat xss)"
    if c: "cu_group c = k" "cu_seen c = []" for c
  proof (rule enumerates_cong [OF _ js(3)])
    have "init_group S key ?g c = init_group S key ?g ?c"
      using c div_ceil_pos [OF ne] by (simp add: init_group_def)
    then show "grouped_next S groups key c = grouped_next S groups key ?c"
      using c k by (intro grouped_next_init) simp_all
  qed
  ultimately show ?case
    using xss k by (intro exI [of _ "map ((!) (pg_backends ?g)) js # xss"])
      (simp add: Cons_nth_drop_Suc [symmetric])
qed


section \<open>Groups of a backend set\<close>

definition set_ok :: "'a::linorder backend_set \<Rightarrow> bool" where
  "set_ok s \<longleftrightarrow> bt_ok s \<and> (\<forall>(i, b) \<in> set s. i = bk_key b)"

definition members :: "'a backend_set \<Rightarrow> 'a backend set" where
  "members s = snd ` set s"

lemma set_ok_Nil: "set_ok []"
  by (simp add: set_ok_def)

lemma set_ok_insert: "set_ok s \<Longrightarrow> set_ok (set_insert b s)"
  by (auto simp: set_ok_def set_insert_def bt_ok_insert set_bt_insert)

lemma members_insert:
  assumes "set_ok s"
  shows "members (set_insert b s) = (if bk_key b \<in> bk_key ` members s then members s else insert b (members s))"
proof -
  have "map_of s (bk_key b) = None \<longleftrightarrow> bk_key b \<notin> bk_key ` members s"
    using assms by (force simp: map_of_None_keys set_ok_def members_def)
  moreover have "{p \<in> set s. fst p \<noteq> bk_key b} = set s" if "map_of s (bk_key b) = None"
    using that by (force simp: map_of_None_keys)
  ultimately show ?thesis by (auto simp: set_insert_def members_def set_bt_insert)
qed

lemma distinct_members:
  assumes "set_ok s"
  shows "distinct (map bk_key (map snd s))" and "distinct (map snd s)" and "inj_on bk_key (members s)"
proof -
  have "map fst s = map bk_key (map snd s)" using assms by (auto simp: set_ok_def)
  then show d: "distinct (map bk_key (map snd s))" using assms unfolding set_ok_def by metis
  then show "distinct (map snd s)" unfolding distinct_map [of bk_key] by simp
  show "inj_on bk_key (members s)" using d unfolding distinct_map members_def by simp
qed

definition groups_ok :: "(int \<times> 'a::linorder backend_set) list \<Rightarrow> bool" where
  "groups_ok m \<longleftrightarrow> bt_ok m \<and>
     (\<forall>(k, g) \<in> set m. g \<noteq> [] \<and> set_ok g \<and> (\<forall>b \<in> members g. backend_priority b = - k))"

definition grouped :: "(int \<times> 'a backend_set) list \<Rightarrow> 'a backend set" where
  "grouped m = (\<Union>(k, g) \<in> set m. members g)"

lemma set_insert_not_Nil: "set_insert b s \<noteq> []"
  by (auto simp: set_insert_def dest: arg_cong [where f = set] simp: set_bt_insert)

lemma add_to_group_ok:
  assumes "groups_ok m" and "bk_key b \<notin> bk_key ` grouped m"
  shows "groups_ok (add_to_group b m) \<and> grouped (add_to_group b m) = insert b (grouped m)"
proof -
  let ?k = "- backend_priority b"
  let ?g = "unwrap_or (map_of m ?k) []"
  have bt: "bt_ok m" using assms(1) by (simp add: groups_ok_def)
  have g: "set_ok ?g" "\<forall>c \<in> members ?g. backend_priority c = - ?k" "members ?g \<subseteq> grouped m"
  proof (atomize (full), cases "map_of m ?k")
    case None
    then show "set_ok ?g \<and> (\<forall>c \<in> members ?g. backend_priority c = - ?k) \<and> members ?g \<subseteq> grouped m"
      by (simp add: set_ok_Nil members_def)
  next
    case (Some g)
    then show "set_ok ?g \<and> (\<forall>c \<in> members ?g. backend_priority c = - ?k) \<and> members ?g \<subseteq> grouped m"
      using assms(1) by (fastforce simp: groups_ok_def grouped_def dest: map_of_SomeD)
  qed
  have mem: "members (set_insert b ?g) = insert b (members ?g)"
    using assms(2) g(3) by (subst members_insert [OF g(1)]) auto
  have set: "set (add_to_group b m) = insert (?k, set_insert b ?g) {p \<in> set m. fst p \<noteq> ?k}"
    by (simp add: add_to_group_def Let_def set_bt_insert)
  have "groups_ok (add_to_group b m)"
    unfolding groups_ok_def
  proof (intro conjI ballI)
    show "sorted (map fst (add_to_group b m))" "distinct_keys (add_to_group b m)"
      unfolding add_to_group_def Let_def using bt_ok_insert [OF bt] by blast+
    fix p assume p: "p \<in> set (add_to_group b m)"
    show "case p of (k, g) \<Rightarrow> g \<noteq> [] \<and> set_ok g \<and> (\<forall>b \<in> members g. backend_priority b = - k)"
    proof (cases "p = (?k, set_insert b ?g)")
      case True
      then show ?thesis using g(2) mem set_ok_insert [OF g(1)] by (simp add: set_insert_not_Nil)
    next
      case False
      then have "p \<in> set m" using p set by blast
      then show ?thesis using assms(1) by (simp add: groups_ok_def)
    qed
  qed
  moreover have "grouped m = members ?g \<union> (\<Union>(k, g) \<in> {p \<in> set m. fst p \<noteq> ?k}. members g)"
  proof (cases "map_of m ?k")
    case None
    then have "{p \<in> set m. fst p \<noteq> ?k} = set m" by (force simp: map_of_None_keys)
    then show ?thesis using None by (simp add: grouped_def members_def)
  next
    case (Some g)
    then have "set m = insert (?k, g) {p \<in> set m. fst p \<noteq> ?k}"
      using bt by (auto dest: map_of_SomeD eq_key_imp_eq_value)
    then show ?thesis using Some by (auto simp: grouped_def)
  qed
  ultimately show ?thesis using mem set by (auto simp: grouped_def)
qed

lemma fold_add_to_group:
  assumes "groups_ok m" and "distinct (map bk_key bs)" and "bk_key ` set bs \<inter> bk_key ` grouped m = {}"
  shows "groups_ok (fold add_to_group bs m) \<and> grouped (fold add_to_group bs m) = set bs \<union> grouped m"
  using assms
proof (induction bs arbitrary: m)
  case (Cons b bs)
  have "groups_ok (add_to_group b m)" "grouped (add_to_group b m) = insert b (grouped m)"
    using add_to_group_ok [OF Cons.prems(1)] Cons.prems(3) by auto
  then show ?case using Cons.IH [of "add_to_group b m"] Cons.prems(2,3) by auto
qed simp

lemma group_by_priority_ok:
  assumes "set_ok s"
  shows "groups_ok (fold add_to_group (map snd s) [])" and "grouped (fold add_to_group (map snd s) []) = members s"
proof -
  show "groups_ok (fold add_to_group (map snd s) [])" and "grouped (fold add_to_group (map snd s) []) = members s"
    using fold_add_to_group [of "[]", OF _ distinct_members(1) [OF assms]]
    by (auto simp: groups_ok_def grouped_def members_def)
qed


section \<open>Properties\<close>

lemma group_facts:
  assumes "groups_ok m" and "p \<in> set m"
  shows "snd p \<noteq> []" and "distinct (map snd (snd p))"
    and "b \<in> set (map snd (snd p)) \<Longrightarrow> backend_priority b = - fst p"
proof -
  have p: "snd p \<noteq> []" "set_ok (snd p)" "\<forall>b \<in> members (snd p). backend_priority b = - fst p"
    using assms unfolding groups_ok_def by (cases p; auto)+
  show "snd p \<noteq> []" by (rule p(1))
  show "distinct (map snd (snd p))" by (rule distinct_members(2) [OF p(2)])
  show "b \<in> set (map snd (snd p)) \<Longrightarrow> backend_priority b = - fst p"
    using p(3) by (auto simp: members_def)
qed

lemma groups_priority_sorted:
  assumes "groups_ok m"
  shows "sorted_wrt (\<lambda>g h. \<forall>b \<in> set (pg_backends g). \<forall>c \<in> set (pg_backends h). backend_priority c < backend_priority b)
    (map (\<lambda>(k, ms). \<lparr>pg_priority = - k, pg_selector = build (map snd ms), pg_backends = map snd ms\<rparr>) m)"
proof -
  have "sorted_wrt (<) (map fst m)" using assms by (simp add: groups_ok_def strict_sorted_iff)
  then have "sorted_wrt (\<lambda>p q. fst p < fst q) m" by (simp only: sorted_wrt_map)
  then have "sorted_wrt (\<lambda>p q. \<forall>b \<in> set (map snd (snd p)). \<forall>c \<in> set (map snd (snd q)).
      backend_priority c < backend_priority b) m"
  proof (rule sorted_wrt_mono_rel [rotated])
    fix p q assume "p \<in> set m" "q \<in> set m" "fst p < fst q"
    then show "\<forall>b \<in> set (map snd (snd p)). \<forall>c \<in> set (map snd (snd q)). backend_priority c < backend_priority b"
      using group_facts(3) [OF assms, of p] group_facts(3) [OF assms, of q] by simp
  qed
  then show ?thesis by (simp add: sorted_wrt_map case_prod_unfold)
qed

lemma concat_groups:
  assumes "list_all2 (\<lambda>xs g. mset xs = mset (pg_backends g)) xss groups"
    and "\<forall>g \<in> set groups. distinct (pg_backends g) \<and>
      (\<exists>p. \<forall>b \<in> set (pg_backends g). backend_priority b = p)"
    and "sorted_wrt (\<lambda>g h. \<forall>b \<in> set (pg_backends g). \<forall>c \<in> set (pg_backends h).
      backend_priority c < backend_priority b) groups"
  shows "distinct (concat xss) \<and> set (concat xss) = (\<Union>g \<in> set groups. set (pg_backends g)) \<and>
    sorted_wrt (\<lambda>b c. backend_priority c \<le> backend_priority b) (concat xss)"
  using assms
proof (induction xss groups rule: list_all2_induct)
  case (Cons xs xss g groups)
  have IH: "distinct (concat xss) \<and> set (concat xss) = (\<Union>g \<in> set groups. set (pg_backends g)) \<and>
      sorted_wrt (\<lambda>b c. backend_priority c \<le> backend_priority b) (concat xss)"
    using Cons.IH Cons.prems by simp
  have xs: "distinct xs" "set xs = set (pg_backends g)"
    using mset_eq_imp_distinct_iff [OF Cons.hyps(1)] mset_eq_setD [OF Cons.hyps(1)] Cons.prems(1) by simp_all
  have below: "backend_priority c < backend_priority b" if bc: "b \<in> set xs" "c \<in> set (concat xss)" for b c
  proof -
    obtain h where "h \<in> set groups" "c \<in> set (pg_backends h)" using bc(2) IH by auto
    then show ?thesis using Cons.prems(2) xs(2) bc(1) by simp
  qed
  have "backend_priority c \<le> backend_priority b" if "b \<in> set xs" "c \<in> set xs" for b c
  proof -
    obtain p where "\<forall>b \<in> set (pg_backends g). backend_priority b = p" using Cons.prems(1) by auto
    then show ?thesis using that xs(2) by simp
  qed
  then have "sorted_wrt (\<lambda>b c. backend_priority c \<le> backend_priority b) xs"
    by (auto simp: sorted_wrt_iff_nth_less)
  moreover have "set xs \<inter> set (concat xss) = {}" using below by (metis disjoint_iff less_irrefl)
  moreover have "\<forall>b \<in> set xs. \<forall>c \<in> set (concat xss). backend_priority c \<le> backend_priority b"
    using below less_imp_le by blast
  ultimately show ?case
    using IH xs by (simp add: sorted_wrt_append del: set_concat)
qed simp

lemma enumeration_exists:
  assumes "set_ok s" and "groups = group_by_priority (is_build S) s"
  shows "\<exists>bs. enumerates S groups key cursor_start bs \<and> distinct bs \<and> set bs = members s \<and>
    sorted_wrt (\<lambda>b c. backend_priority c \<le> backend_priority b) bs"
proof -
  let ?m = "fold add_to_group (map snd s) []"
  note ok = group_by_priority_ok [OF assms(1)]
  have ne: "\<forall>g \<in> set groups. pg_backends g \<noteq> []"
    using ok(1) by (auto simp: assms(2) group_by_priority_def groups_ok_def)
  obtain xss where xss: "list_all2 (\<lambda>xs g. mset xs = mset (pg_backends g)) xss groups"
    and en: "enumerates S groups key cursor_start (concat xss)"
    using enumerates_from [OF ne, of 0 S key] by (auto simp: cursor_start_def)
  have "\<forall>g \<in> set groups. distinct (pg_backends g) \<and>
      (\<exists>p. \<forall>b \<in> set (pg_backends g). backend_priority b = p)"
  proof
    fix g assume "g \<in> set groups"
    then obtain p where "p \<in> set ?m" "pg_backends g = map snd (snd p)"
      by (auto simp: assms(2) group_by_priority_def)
    then show "distinct (pg_backends g) \<and> (\<exists>p. \<forall>b \<in> set (pg_backends g). backend_priority b = p)"
      using group_facts(2,3) [OF ok(1)] by metis
  qed
  moreover have "(\<Union>g \<in> set groups. set (pg_backends g)) = members s"
    using ok(2) unfolding grouped_def members_def case_prod_unfold
    by (simp add: assms(2) group_by_priority_def case_prod_unfold)
  ultimately show ?thesis
    using en concat_groups [OF xss] groups_priority_sorted [OF ok(1), of "is_build S"]
    by (auto simp: assms(2) group_by_priority_def)
qed

text \<open>C17: failover order is total. With two priority levels or more, whatever the inner algorithm
  draws (repeated, foreign or no members, for ever or not at all), the iterator returns from every
  call, draws every backend of the set exactly once, in order of falling priority, and ends.\<close>

theorem priority_enumeration:
  assumes "set_ok s" and "groups = group_by_priority (is_build S) s"
  shows "\<exists>bs. enumerates S groups key cursor_start bs \<and> distinct bs \<and> set bs = members s \<and>
    sorted_wrt (\<lambda>b c. backend_priority c \<le> backend_priority b) bs"
  by (rule enumeration_exists [OF assms])

text \<open>the choice of a backend follows priority, then health: a ready backend is chosen whenever
  the iteration limit covers the set and one exists, no ready backend has a higher priority than the
  chosen one, and when none is ready a backend of the highest priority is chosen.\<close>

theorem selection_by_priority:
  assumes "set_ok s" and "groups = group_by_priority (is_build S) s"
    and "enumerates S groups key cursor_start cs" and "enumerates S groups key' cursor_start cs'"
    and "length s \<le> n" and "s \<noteq> []"
  shows "\<exists>b \<in> members s. select_backend ready cs cs' n = Some b \<and>
    (if \<exists>c \<in> members s. ready c
     then ready b \<and> (\<forall>c \<in> members s. ready c \<longrightarrow> backend_priority c \<le> backend_priority b)
     else (\<forall>c \<in> members s. backend_priority c \<le> backend_priority b))"
proof -
  have all: "distinct bs \<and> set bs = members s \<and> sorted_wrt (\<lambda>b c. backend_priority c \<le> backend_priority b) bs"
    if "enumerates S groups k cursor_start bs" for k bs
    using enumeration_exists [OF assms(1,2), of k] enumerates_unique [OF that] by blast
  note cs = all [OF assms(3)] and cs' = all [OF assms(4)]
  have "card (members s) = length s"
    using distinct_members(2) [OF assms(1)] by (metis distinct_card length_map list.set_map members_def)
  then have n: "take n cs = cs" "take n cs' = cs'"
    using assms(5) cs cs' by (metis distinct_card take_all)+
  show ?thesis
  proof (cases "find ready cs")
    case None
    then have none: "\<not> (\<exists>c \<in> members s. ready c)" using cs by (auto simp: find_None_iff)
    obtain b bs where "cs' = b # bs" using cs' assms(6) by (cases cs') (auto simp: members_def)
    then have "select_backend ready cs cs' n = Some b" "b \<in> members s"
      using None n cs' by (auto simp: select_backend_def select_with_def)
    moreover have "\<forall>c \<in> members s. backend_priority c \<le> backend_priority b"
      using cs' \<open>cs' = b # bs\<close> by auto
    ultimately show ?thesis using none by auto
  next
    case (Some b)
    then obtain i where i: "i < length cs" "cs ! i = b" "ready b" "\<forall>j<i. \<not> ready (cs ! j)"
      by (auto simp: find_Some_iff)
    have "backend_priority c \<le> backend_priority b" if c: "c \<in> members s" "ready c" for c
    proof -
      obtain j where j: "j < length cs" "cs ! j = c" using c(1) cs by (metis in_set_conv_nth)
      then have "i \<le> j" using i(4) c(2) by (meson not_le)
      then show ?thesis using cs i(2) j by (cases "i = j") (auto simp: sorted_wrt_iff_nth_less)
    qed
    moreover have "b \<in> members s" using i(1,2) cs nth_mem by blast
    moreover have "select_backend ready cs cs' n = Some b"
      using Some n by (simp add: select_backend_def select_with_def)
    ultimately show ?thesis using i(3) by auto
  qed
qed


definition sample_backend :: "nat \<Rightarrow> int \<Rightarrow> nat backend" where
  "sample_backend a p = \<lparr>bk_addr = a, bk_weight = 1, bk_priority = Some p, bk_id = Some (a, 1)\<rparr>"

definition sample_set :: "nat backend_set" where
  "sample_set = [((1, 1), sample_backend 1 0), ((2, 1), sample_backend 2 5), ((3, 1), sample_backend 3 5)]"

text \<open>An inner algorithm that draws a backend that is not in the set, for ever.\<close>

definition stray_selection :: "(unit, nat, unit, unit) inner_selection" where
  "stray_selection = \<lparr>is_build = \<lambda>_. (), is_iter = \<lambda>_ _. (), is_next = \<lambda>_. (Some (sample_backend 9 0), ())\<rparr>"

lemma sample_set_ok: "set_ok sample_set"
  by (simp add: set_ok_def sample_set_def sample_backend_def bk_key_def)

lemma priority_enumeration_witness:
  "\<exists>bs. enumerates stray_selection (group_by_priority (is_build stray_selection) sample_set) () cursor_start bs \<and>
     set bs = members sample_set"
  using priority_enumeration [OF sample_set_ok refl, of stray_selection "()"] by blast

lemma selection_by_priority_witness:
  "\<exists>cs. enumerates stray_selection (group_by_priority (is_build stray_selection) sample_set) () cursor_start cs \<and>
     select_backend (\<lambda>b. bk_addr b = 1) cs cs 256 = Some (sample_backend 1 0)"
proof -
  obtain cs where cs: "enumerates stray_selection (group_by_priority (is_build stray_selection) sample_set) () cursor_start cs"
    using enumeration_exists [OF sample_set_ok refl, of stray_selection "()"] by blast
  have len: "length sample_set \<le> 256" "sample_set \<noteq> []" by (simp_all add: sample_set_def)
  have mem: "members sample_set = {sample_backend 1 0, sample_backend 2 5, sample_backend 3 5}"
    by (simp add: members_def sample_set_def)
  have one: "\<exists>c \<in> members sample_set. bk_addr c = 1" by (simp add: mem sample_backend_def)
  have "\<exists>b \<in> members sample_set. select_backend (\<lambda>b. bk_addr b = 1) cs cs 256 = Some b \<and> bk_addr b = 1"
    using selection_by_priority [OF sample_set_ok refl cs cs len, of "\<lambda>b. bk_addr b = 1"]
    unfolding if_P [OF one] by blast
  then obtain b where b: "b \<in> members sample_set"
    "select_backend (\<lambda>b. bk_addr b = 1) cs cs 256 = Some b" "bk_addr b = 1" by blast
  then have "b = sample_backend 1 0" unfolding mem by (auto simp: sample_backend_def)
  then show ?thesis using cs b(2) by blast
qed

end
