(* ===== verification/Load_Balancer.thy ===== *)
theory Load_Balancer
  imports Selection Config_Model
begin

text \<open>
  The proxy's load balancer (\<open>src/proxy/upstream/load_balancer.rs\<close>, with \<open>PassiveOutcome\<close> of
  \<open>src/core/plugin/upstream.rs\<close> and the timeout defaults of \<open>src/config/defaults.rs\<close>): passive health
  counters with half-open probes, the three stages of a selection, peer timeouts, and the header
  syntax of active checks.

  Counters are 32-bit words; an instant is a number of nanoseconds. Each selection stage asks
  Pingora for a fresh candidate iterator, so the candidates of each stage are a parameter; so is
  readiness, the result of Pingora's active checks.
\<close>

section \<open>Passive health counters\<close>

datatype passive_outcome = TcpFailure | Timeout | HttpStatus "16 word"

definition PROBE_LEASE :: nat where "PROBE_LEASE = 30 * 10 ^ 9"

record passive_counters =
  pn_http_failures :: "32 word"
  pn_tcp_failures :: "32 word"
  pn_timeouts :: "32 word"
  pn_successes :: "32 word"
  pn_tripped :: bool
  pn_probe_lease :: "nat option"

definition passive_counters_default :: passive_counters where
  "passive_counters_default = \<lparr>pn_http_failures = 0, pn_tcp_failures = 0, pn_timeouts = 0,
     pn_successes = 0, pn_tripped = False, pn_probe_lease = None\<rparr>"

definition observe_node :: "passive_check \<Rightarrow> passive_outcome \<Rightarrow> passive_counters \<Rightarrow> passive_counters" where
  "observe_node config outcome node =
     (let unhealthy = pc_unhealthy config;
          node =
        (case outcome of
           TcpFailure \<Rightarrow>
             let node = node\<lparr>pn_tcp_failures := pn_tcp_failures node + 1, pn_http_failures := 0,
                             pn_timeouts := 0, pn_successes := 0\<rparr>
             in if pu_tcp_failures unhealthy > 0 \<and> pn_tcp_failures node \<ge> pu_tcp_failures unhealthy
                then node\<lparr>pn_tripped := True\<rparr> else node
         | Timeout \<Rightarrow>
             let node = node\<lparr>pn_timeouts := pn_timeouts node + 1, pn_http_failures := 0,
                             pn_tcp_failures := 0, pn_successes := 0\<rparr>
             in if pu_timeouts unhealthy > 0 \<and> pn_timeouts node \<ge> pu_timeouts unhealthy
                then node\<lparr>pn_tripped := True\<rparr> else node
         | HttpStatus status \<Rightarrow>
             if ucast status \<in> set (pu_http_statuses unhealthy)
             then let node = node\<lparr>pn_http_failures := pn_http_failures node + 1, pn_tcp_failures := 0,
                                  pn_timeouts := 0, pn_successes := 0\<rparr>
                  in if pu_http_failures unhealthy > 0 \<and> pn_http_failures node \<ge> pu_http_failures unhealthy
                     then node\<lparr>pn_tripped := True\<rparr> else node
             else if ucast status \<in> set (ph_http_statuses (pc_healthy config))
             then let node = node\<lparr>pn_http_failures := 0, pn_tcp_failures := 0, pn_timeouts := 0\<rparr>
                  in if pn_tripped node
                     then let node = node\<lparr>pn_successes := pn_successes node + 1\<rparr>
                          in if ph_successes (pc_healthy config) > 0 \<and>
                                pn_successes node \<ge> ph_successes (pc_healthy config)
                             then node\<lparr>pn_tripped := False, pn_successes := 0\<rparr> else node
                     else node
             else node)
      in node\<lparr>pn_probe_lease := None\<rparr>)"

record 'a passive_state =
  ps_config :: passive_check
  ps_counters :: "('a backend_id \<times> passive_counters) list"

definition passive_observe :: "'a backend \<Rightarrow> passive_outcome \<Rightarrow> 'a passive_state \<Rightarrow> 'a passive_state" where
  "passive_observe b outcome s =
     s\<lparr>ps_counters := AList.update (backend_id b)
         (observe_node (ps_config s) outcome
            (unwrap_or (map_of (ps_counters s) (backend_id b)) passive_counters_default))
         (ps_counters s)\<rparr>"

definition has_tripped :: "'a passive_state \<Rightarrow> bool" where
  "has_tripped s \<longleftrightarrow> (\<exists>(_, node) \<in> set (ps_counters s). pn_tripped node)"

definition take_probe :: "'a backend \<Rightarrow> nat \<Rightarrow> 'a passive_state \<Rightarrow> bool \<times> 'a passive_state" where
  "take_probe b now s =
     (case map_of (ps_counters s) (backend_id b) of
        None \<Rightarrow> (False, s)
      | Some node \<Rightarrow>
          let lease_free = is_none_or (pn_probe_lease node) (\<lambda>d. d \<le> now)
          in if pn_tripped node \<and> lease_free
             then (True, s\<lparr>ps_counters := AList.update (backend_id b)
                     (node\<lparr>pn_probe_lease := Some (now + PROBE_LEASE)\<rparr>) (ps_counters s)\<rparr>)
             else (False, s))"

section \<open>Selection in three stages\<close>

definition regular :: "'a passive_state option \<Rightarrow> 'a backend \<Rightarrow> bool" where
  "regular passive b \<longleftrightarrow>
     is_none_or passive (\<lambda>s. \<not> is_some_and (map_of (ps_counters s) (backend_id b)) pn_tripped)"

text \<open>\<open>select_with\<close> with the closure of the probe stage, which reserves the lease it takes.\<close>

fun select_probe :: "('a backend \<Rightarrow> bool) \<Rightarrow> nat \<Rightarrow> 'a backend list \<Rightarrow> 'a passive_state \<Rightarrow>
    'a backend option \<times> 'a passive_state" where
  "select_probe ready now [] s = (None, s)"
| "select_probe ready now (b # bs) s =
     (if ready b
      then (case take_probe b now s of
              (True, s) \<Rightarrow> (Some b, s)
            | (False, s) \<Rightarrow> select_probe ready now bs s)
      else select_probe ready now bs s)"

definition MAX_LB_ITERATIONS :: nat where "MAX_LB_ITERATIONS = 256"

text \<open>The candidates of the regular stage, the probe stage and the two passes of the fallback.\<close>

record 'a candidates =
  cd_regular :: "'a backend list"
  cd_probe :: "'a backend list"
  cd_ready :: "'a backend list"
  cd_any :: "'a backend list"

definition select_with_passive :: "('a backend \<Rightarrow> bool) \<Rightarrow> nat \<Rightarrow> 'a candidates \<Rightarrow> 'a passive_state option \<Rightarrow>
    'a backend option \<times> 'a passive_state option" where
  "select_with_passive ready now cands passive =
     (case select_with ready (cd_regular cands) MAX_LB_ITERATIONS (\<lambda>b r. r \<and> regular passive b) of
        Some b \<Rightarrow> (Some b, passive)
      | None \<Rightarrow>
          let fallback = select_backend ready (cd_ready cands) (cd_any cands) MAX_LB_ITERATIONS
          in case passive of
               None \<Rightarrow> (fallback, None)
             | Some s \<Rightarrow>
                 if has_tripped s
                 then (case select_probe ready now (take MAX_LB_ITERATIONS (cd_probe cands)) s of
                         (Some b, s) \<Rightarrow> (Some b, Some s)
                       | (None, s) \<Rightarrow> (fallback, Some s))
                 else (fallback, Some s))"

section \<open>The upstream object\<close>

record ('a, 'l) proxy_upstream =
  px_inner :: upstream
  px_lb :: 'l
  px_cache_fingerprint :: "64 word"
  px_passive :: "'a passive_state option"
  px_default_timeout :: "timeout_conf option"

text \<open>\<open>ProxyUpstream::build\<close>; the fresh identifier, the cache fingerprint and the balancer built from
  the prepared backends are parameters.\<close>

definition build_upstream ::
  "string \<Rightarrow> (upstream \<Rightarrow> 64 word) \<Rightarrow> (upstream \<Rightarrow> 'q \<Rightarrow> string + 'l) \<Rightarrow> timeout_conf option \<Rightarrow>
   upstream \<Rightarrow> 'q \<Rightarrow> proxy_error + ('a, 'l) proxy_upstream" where
  "build_upstream uuid fingerprint from_prepared default_timeout u prepared =
     (let u = (if up_id u = [] then u\<lparr>up_id := ''inline_'' @ uuid\<rparr> else u)
      in case from_prepared u prepared of
           Inl e \<Rightarrow> Inl (PE_Configuration (''Failed to create load balancer: '' @ e))
         | Inr lb \<Rightarrow>
             Inr \<lparr>px_inner = u, px_lb = lb, px_cache_fingerprint = fingerprint u,
                  px_passive = (case up_checks u of
                      Some c \<Rightarrow> map_option (\<lambda>config. \<lparr>ps_config = config, ps_counters = []\<rparr>) (hc_passive c)
                    | None \<Rightarrow> None),
                  px_default_timeout = default_timeout\<rparr>)"

definition observe_passive :: "'a backend \<Rightarrow> passive_outcome \<Rightarrow> ('a, 'l) proxy_upstream \<Rightarrow> ('a, 'l) proxy_upstream" where
  "observe_passive b outcome u =
     u\<lparr>px_passive := map_option (passive_observe b outcome) (px_passive u)\<rparr>"

definition BUILTIN_UPSTREAM_TIMEOUT :: timeout_conf where
  "BUILTIN_UPSTREAM_TIMEOUT = \<lparr>to_connect = 5, to_send = 30, to_read = 30\<rparr>"

definition resolve_upstream_timeout :: "timeout_conf option \<Rightarrow> timeout_conf option \<Rightarrow> timeout_conf" where
  "resolve_upstream_timeout explicit global =
     (case explicit of Some t \<Rightarrow> t | None \<Rightarrow> unwrap_or global BUILTIN_UPSTREAM_TIMEOUT)"

text \<open>The options of a peer that the program sets, in seconds and milliseconds.\<close>

record peer_options =
  po_connection_timeout :: "nat option"
  po_read_timeout :: "nat option"
  po_write_timeout :: "nat option"
  po_idle_timeout_ms :: "nat option"

definition set_timeout :: "('a, 'l) proxy_upstream \<Rightarrow> peer_options \<Rightarrow> peer_options" where
  "set_timeout u p =
     (let t = resolve_upstream_timeout (up_timeout (px_inner u)) (px_default_timeout u);
          p = p\<lparr>po_connection_timeout := Some (unat (to_connect t)),
                po_read_timeout := Some (unat (to_read t)),
                po_write_timeout := Some (unat (to_send t))\<rparr>
      in case up_keepalive_idle_ms (px_inner u) of
           Some k \<Rightarrow> p\<lparr>po_idle_timeout_ms := Some (unat k)\<rparr>
         | None \<Rightarrow> p)"

definition apply_route_timeout :: "timeout_conf option \<Rightarrow> peer_options \<Rightarrow> peer_options" where
  "apply_route_timeout route_timeout p =
     (case route_timeout of
        Some t \<Rightarrow> p\<lparr>po_connection_timeout := Some (unat (to_connect t)),
                    po_read_timeout := Some (unat (to_read t)),
                    po_write_timeout := Some (unat (to_send t))\<rparr>
      | None \<Rightarrow> p)"

section \<open>Refresh schedule\<close>

text \<open>FNV-1a over the bytes of the identifier; durations in nanoseconds.\<close>

definition fnv1a :: "8 word list \<Rightarrow> 64 word" where
  "fnv1a bytes = fold (\<lambda>byte hash. (hash XOR ucast byte) * 0x100000001b3) bytes 0xcbf29ce484222325"

definition dns_refresh_frequency :: "8 word list \<Rightarrow> nat \<Rightarrow> nat" where
  "dns_refresh_frequency upstream_id interval_secs =
     (let base = interval_secs * 10 ^ 9;
          jitter = min (base div 10) (60 * 10 ^ 9)
      in if jitter = 0 then base else base + unat (fnv1a upstream_id) mod (jitter + 1))"

section \<open>When a node trips and recovers\<close>

datatype passive_class = FailTcp | FailTimeout | FailHttp | Good | Ignored

definition classify :: "passive_check \<Rightarrow> passive_outcome \<Rightarrow> passive_class" where
  "classify config outcome =
     (case outcome of
        TcpFailure \<Rightarrow> FailTcp
      | Timeout \<Rightarrow> FailTimeout
      | HttpStatus status \<Rightarrow>
          if ucast status \<in> set (pu_http_statuses (pc_unhealthy config)) then FailHttp
          else if ucast status \<in> set (ph_http_statuses (pc_healthy config)) then Good
          else Ignored)"

fun threshold :: "passive_check \<Rightarrow> passive_class \<Rightarrow> nat" where
  "threshold config FailTcp = unat (pu_tcp_failures (pc_unhealthy config))"
| "threshold config FailTimeout = unat (pu_timeouts (pc_unhealthy config))"
| "threshold config FailHttp = unat (pu_http_failures (pc_unhealthy config))"
| "threshold config Good = unat (ph_successes (pc_healthy config))"
| "threshold config Ignored = 0"

text \<open>The length of the run of \<open>k\<close> at the end of a history, outcomes in neither status set left out.\<close>

definition trailing :: "passive_class \<Rightarrow> passive_class list \<Rightarrow> nat" where
  "trailing k cs = length (takeWhile (\<lambda>c. c = k) (rev (filter (\<lambda>c. c \<noteq> Ignored) cs)))"

lemma trailing_snoc [simp]:
  "trailing k (cs @ [Ignored]) = trailing k cs"
  "c \<noteq> Ignored \<Longrightarrow> trailing k (cs @ [c]) = (if c = k then Suc (trailing k cs) else 0)"
  by (auto simp: trailing_def)

definition passive_history :: "passive_check \<Rightarrow> passive_outcome list \<Rightarrow> passive_counters" where
  "passive_history config h = fold (observe_node config) h passive_counters_default"

definition passive_inv :: "passive_check \<Rightarrow> passive_class list \<Rightarrow> passive_counters \<Rightarrow> bool" where
  "passive_inv config cs c \<longleftrightarrow>
     pn_tcp_failures c = of_nat (trailing FailTcp cs) \<and> pn_timeouts c = of_nat (trailing FailTimeout cs) \<and>
     pn_http_failures c = of_nat (trailing FailHttp cs) \<and>
     pn_successes c = (if pn_tripped c then of_nat (trailing Good cs) else 0) \<and>
     (if pn_tripped c then threshold config Good > 0 \<longrightarrow> trailing Good cs < threshold config Good
      else \<forall>k \<in> {FailTcp, FailTimeout, FailHttp}. threshold config k > 0 \<longrightarrow> trailing k cs < threshold config k)"

definition reached :: "passive_check \<Rightarrow> passive_class \<Rightarrow> passive_class list \<Rightarrow> bool" where
  "reached config k cs \<longleftrightarrow> threshold config k > 0 \<and> threshold config k \<le> trailing k cs"

lemma word_pos: "0 < (w :: 32 word) \<longleftrightarrow> 0 < unat w"
  by (simp add: word_less_nat_alt)

lemma word_bump:
  fixes t :: "32 word"
  assumes "n < unat t"
  shows "t \<le> of_nat n + 1 \<longleftrightarrow> unat t \<le> Suc n"
proof -
  have "unat t < 2 ^ 32" by (rule order.strict_trans2 [OF unsigned_less]) simp
  then have "Suc n < 2 ^ 32" using assms by simp
  then have "unat (of_nat (Suc n) :: 32 word) = Suc n" by (simp only: unat_of_nat) simp
  then show ?thesis by (simp add: word_le_nat_alt add.commute)
qed

lemmas passive_step_simps = passive_inv_def observe_node_def classify_def reached_def Let_def

text \<open>One observation of each class; \<open>classify\<close> names the branch that is taken.\<close>

lemma passive_tcp:
  assumes "passive_inv config cs c"
  shows "passive_inv config (cs @ [FailTcp]) (observe_node config TcpFailure c) \<and>
    pn_tripped (observe_node config TcpFailure c) = (pn_tripped c \<or> reached config FailTcp (cs @ [FailTcp]))"
proof (cases "pn_tripped c \<or> threshold config FailTcp = 0")
  case True
  then show ?thesis using assms by (auto simp: passive_step_simps word_pos)
next
  case False
  then have "trailing FailTcp cs < unat (pu_tcp_failures (pc_unhealthy config))"
    using assms by (auto simp: passive_inv_def)
  from word_bump [OF this] show ?thesis
    using assms False by (simp add: passive_step_simps word_pos)
qed


lemma passive_timeout:
  assumes "passive_inv config cs c"
  shows "passive_inv config (cs @ [FailTimeout]) (observe_node config Timeout c) \<and>
    pn_tripped (observe_node config Timeout c) = (pn_tripped c \<or> reached config FailTimeout (cs @ [FailTimeout]))"
proof (cases "pn_tripped c \<or> threshold config FailTimeout = 0")
  case True
  then show ?thesis using assms by (auto simp: passive_step_simps word_pos)
next
  case False
  then have "trailing FailTimeout cs < unat (pu_timeouts (pc_unhealthy config))"
    using assms by (auto simp: passive_inv_def)
  from word_bump [OF this] show ?thesis
    using assms False by (simp add: passive_step_simps word_pos)
qed

lemma passive_http:
  assumes "passive_inv config cs c" and "ucast status \<in> set (pu_http_statuses (pc_unhealthy config))"
  shows "passive_inv config (cs @ [FailHttp]) (observe_node config (HttpStatus status) c) \<and>
    pn_tripped (observe_node config (HttpStatus status) c) =
      (pn_tripped c \<or> reached config FailHttp (cs @ [FailHttp]))"
proof (cases "pn_tripped c \<or> threshold config FailHttp = 0")
  case True
  then show ?thesis using assms by (auto simp: passive_step_simps word_pos)
next
  case False
  then have "trailing FailHttp cs < unat (pu_http_failures (pc_unhealthy config))"
    using assms by (auto simp: passive_inv_def)
  from word_bump [OF this] show ?thesis
    using assms False by (simp add: passive_step_simps word_pos)
qed

lemma passive_good:
  assumes "passive_inv config cs c" and "ucast status \<notin> set (pu_http_statuses (pc_unhealthy config))"
    and "ucast status \<in> set (ph_http_statuses (pc_healthy config))"
  shows "passive_inv config (cs @ [Good]) (observe_node config (HttpStatus status) c) \<and>
    pn_tripped (observe_node config (HttpStatus status) c) =
      (pn_tripped c \<and> \<not> reached config Good (cs @ [Good]))"
proof (cases "\<not> pn_tripped c \<or> threshold config Good = 0")
  case True
  then show ?thesis using assms by (auto simp: passive_step_simps word_pos)
next
  case False
  then have "trailing Good cs < unat (ph_successes (pc_healthy config))"
    using assms by (auto simp: passive_inv_def)
  from word_bump [OF this] show ?thesis
    using assms False by (simp add: passive_step_simps word_pos)
qed

lemma passive_ignored:
  assumes "passive_inv config cs c" and "ucast status \<notin> set (pu_http_statuses (pc_unhealthy config))"
    and "ucast status \<notin> set (ph_http_statuses (pc_healthy config))"
  shows "passive_inv config (cs @ [Ignored]) (observe_node config (HttpStatus status) c) \<and>
    pn_tripped (observe_node config (HttpStatus status) c) = pn_tripped c"
  using assms by (auto simp: passive_step_simps)

definition trips :: "passive_check \<Rightarrow> bool \<Rightarrow> passive_class \<Rightarrow> passive_class list \<Rightarrow> bool" where
  "trips config before x cs =
     (if before then \<not> (x = Good \<and> reached config Good cs)
      else x \<in> {FailTcp, FailTimeout, FailHttp} \<and> reached config x cs)"

lemma passive_step:
  assumes "passive_inv config cs c"
  shows "passive_inv config (cs @ [classify config x]) (observe_node config x c) \<and>
    pn_tripped (observe_node config x c) =
      trips config (pn_tripped c) (classify config x) (cs @ [classify config x])"
proof (cases x)
  case TcpFailure
  then show ?thesis using passive_tcp [OF assms] by (auto simp: classify_def trips_def)
next
  case Timeout
  then show ?thesis using passive_timeout [OF assms] by (auto simp: classify_def trips_def)
next
  case (HttpStatus status)
  then show ?thesis
    using passive_http [OF assms, of status] passive_good [OF assms, of status] passive_ignored [OF assms, of status]
    by (auto simp: classify_def trips_def)
qed

lemma passive_history_inv: "passive_inv config (map (classify config) h) (passive_history config h)"
proof (induction h rule: rev_induct)
  case Nil
  show ?case by (auto simp: passive_history_def passive_inv_def passive_counters_default_def trailing_def)
next
  case (snoc x h)
  then show ?case using passive_step [OF snoc, of x] by (simp add: passive_history_def)
qed

text \<open>passive checking is exact in every history. A node in service is taken out by an outcome
  precisely when that outcome completes the configured number of consecutive failures of its own kind,
  and a node that is out returns precisely when a healthy response completes the configured number of
  consecutive healthy ones; a threshold of zero never fires, statuses in neither set do not count, and
  the 32-bit counters do not wrap before a threshold.\<close>

theorem passive_checks_exact:
  "pn_tripped (passive_history config (h @ [x])) =
     trips config (pn_tripped (passive_history config h)) (classify config x)
       (map (classify config) (h @ [x]))"
  using passive_step [OF passive_history_inv, of config h x] by (simp add: passive_history_def)

section \<open>Half-open probes\<close>

datatype 'a passive_event = Observe "'a backend" passive_outcome | Probe "'a backend" nat

fun passive_run :: "'a passive_event list \<Rightarrow> 'a passive_state \<Rightarrow> 'a passive_state" where
  "passive_run [] s = s"
| "passive_run (Observe b x # es) s = passive_run es (passive_observe b x s)"
| "passive_run (Probe b now # es) s = passive_run es (snd (take_probe b now s))"

text \<open>The times at which a probe of the node \<open>i\<close> is admitted.\<close>

fun probe_times :: "'a backend_id \<Rightarrow> 'a passive_event list \<Rightarrow> 'a passive_state \<Rightarrow> nat list" where
  "probe_times i [] s = []"
| "probe_times i (Observe b x # es) s = probe_times i es (passive_observe b x s)"
| "probe_times i (Probe b now # es) s =
     (let (admitted, s') = take_probe b now s
      in if admitted \<and> backend_id b = i then now # probe_times i es s' else probe_times i es s')"

fun concerns :: "'a backend_id \<Rightarrow> 'a passive_event \<Rightarrow> bool" where
  "concerns i (Observe b x) = (backend_id b = i)"
| "concerns i (Probe b now) = False"

lemma probe_times_after:
  assumes "list_all (\<lambda>e. \<not> concerns i e) es" and "map_of (ps_counters s) i = Some node"
    and "pn_probe_lease node = Some d"
  shows "\<forall>t \<in> set (probe_times i es s). d \<le> t"
  using assms
proof (induction es arbitrary: s node d)
  case (Cons e es)
  show ?case
  proof (cases e)
    case (Observe b x)
    then show ?thesis
      using Cons.IH [of "passive_observe b x s" node d] Cons.prems by (auto simp: passive_observe_def)
  next
    case (Probe b now)
    show ?thesis
    proof (cases "fst (take_probe b now s)")
      case False
      then have "take_probe b now s = (False, s)"
        by (auto simp: take_probe_def Let_def split: option.splits if_splits)
      then show ?thesis using Cons.IH [of s node d] Cons.prems Probe by simp
    next
      case True
      then obtain m where m: "map_of (ps_counters s) (backend_id b) = Some m"
        and free: "is_none_or (pn_probe_lease m) (\<lambda>d. d \<le> now)"
        and eq: "take_probe b now s = (True, s\<lparr>ps_counters := AList.update (backend_id b)
            (m\<lparr>pn_probe_lease := Some (now + PROBE_LEASE)\<rparr>) (ps_counters s)\<rparr>)"
        by (auto simp: take_probe_def Let_def split: option.splits if_splits)
      show ?thesis
      proof (cases "backend_id b = i")
        case same: True
        then have "d \<le> now" using m free Cons.prems(2,3) by simp
        then show ?thesis
          using Cons.IH [of "snd (take_probe b now s)" "m\<lparr>pn_probe_lease := Some (now + PROBE_LEASE)\<rparr>" "now + PROBE_LEASE"]
            Cons.prems(1) Probe same eq by force
      next
        case False
        then show ?thesis
          using Cons.IH [of "snd (take_probe b now s)" node d] Cons.prems Probe eq by simp
      qed
    qed
  qed
qed simp

text \<open>C18: at most one probe per lease. Between two observations of a node, its admitted probes are at
  least the lease of thirty seconds apart, in every interleaving with selections and observations of
  other nodes, whatever the clock readings.\<close>

theorem probes_spaced:
  assumes "list_all (\<lambda>e. \<not> concerns i e) es"
  shows "sorted_wrt (\<lambda>t t'. t + PROBE_LEASE \<le> t') (probe_times i es s)"
  using assms
proof (induction es arbitrary: s)
  case (Cons e es)
  show ?case
  proof (cases e)
    case (Probe b now)
    show ?thesis
    proof (cases "fst (take_probe b now s) \<and> backend_id b = i")
      case True
      then obtain m where "map_of (ps_counters s) i = Some m"
        and eq: "take_probe b now s = (True, s\<lparr>ps_counters := AList.update i
            (m\<lparr>pn_probe_lease := Some (now + PROBE_LEASE)\<rparr>) (ps_counters s)\<rparr>)"
        by (auto simp: take_probe_def Let_def split: option.splits if_splits)
      then have "\<forall>t \<in> set (probe_times i es (snd (take_probe b now s))). now + PROBE_LEASE \<le> t"
        using Cons.prems by (intro probe_times_after) auto
      then show ?thesis using Cons True Probe eq by simp
    next
      case False
      then show ?thesis using Cons Probe by (auto split: prod.split)
    qed
  qed (use Cons in simp)
qed simp

definition sample_passive :: passive_check where
  "sample_passive = \<lparr>pc_healthy = \<lparr>ph_http_statuses = [200], ph_successes = 1\<rparr>,
     pc_unhealthy = \<lparr>pu_http_statuses = [500], pu_tcp_failures = 1, pu_timeouts = 0, pu_http_failures = 2\<rparr>\<rparr>"

definition tripped_sample :: "nat passive_state" where
  "tripped_sample = passive_observe (sample_backend 1 0) TcpFailure \<lparr>ps_config = sample_passive, ps_counters = []\<rparr>"

lemma probes_spaced_witness:
  "let es = [Probe (sample_backend 1 0) 5, Observe (sample_backend 2 5) Timeout,
        Probe (sample_backend 1 0) 6, Probe (sample_backend 1 0) (5 + PROBE_LEASE)] in
   probe_times (1, 1) es tripped_sample = [5, 5 + PROBE_LEASE] \<and>
   sorted_wrt (\<lambda>t t'. t + PROBE_LEASE \<le> t') (probe_times (1, 1) es tripped_sample)"
proof -
  let ?es = "[Probe (sample_backend 1 0) 5, Observe (sample_backend 2 5) Timeout,
        Probe (sample_backend 1 0) 6, Probe (sample_backend 1 0) (5 + PROBE_LEASE)]"
  have "list_all (\<lambda>e. \<not> concerns (1, 1) e) ?es"
    by (simp add: sample_backend_def backend_id_def)
  moreover have "probe_times (1, 1) ?es tripped_sample = [5, 5 + PROBE_LEASE]"
    by (simp add: tripped_sample_def sample_passive_def sample_backend_def backend_id_def take_probe_def
        passive_observe_def observe_node_def passive_counters_default_def PROBE_LEASE_def Let_def)
  ultimately show ?thesis
    unfolding Let_def using probes_spaced [of "(1, 1)" ?es tripped_sample] by blast
qed

section \<open>The three stages\<close>

lemma select_probe_eq:
  "select_probe ready now bs s =
     (case find (\<lambda>b. ready b \<and> fst (take_probe b now s)) bs of
        Some b \<Rightarrow> (Some b, snd (take_probe b now s))
      | None \<Rightarrow> (None, s))"
proof (induction bs)
  case (Cons b bs)
  have "snd (take_probe b now s) = s" if "\<not> fst (take_probe b now s)"
    using that by (auto simp: take_probe_def Let_def split: option.splits if_splits)
  with Cons show ?case by (auto split: prod.splits bool.splits option.splits)
qed simp

lemma take_probe_tripped:
  assumes "fst (take_probe b now s)"
  shows "has_tripped s"
  using assms by (fastforce simp: take_probe_def has_tripped_def Let_def split: option.splits if_splits dest: map_of_SomeD)

text \<open>the stages of a selection. A ready candidate that passive checking has not taken out is
  always preferred and leaves the state unchanged; only when none is offered is the first ready node
  that admits a probe chosen, with its lease reserved; only then does the choice fall back to
  priority, ignoring passive checking and, at last, readiness.\<close>

theorem selection_stages:
  fixes pv :: "'a passive_state option"
  shows "select_with_passive ready now cands pv =
     (case find (\<lambda>b. ready b \<and> regular pv b) (take MAX_LB_ITERATIONS (cd_regular cands)) of
        Some b \<Rightarrow> (Some b, pv)
      | None \<Rightarrow>
          (case (pv, find (\<lambda>b. ready b \<and> is_some_and pv (\<lambda>s. fst (take_probe b now s)))
                    (take MAX_LB_ITERATIONS (cd_probe cands))) of
             (Some s, Some b) \<Rightarrow> (Some b, Some (snd (take_probe b now s)))
           | _ \<Rightarrow> (select_backend ready (cd_ready cands) (cd_any cands) MAX_LB_ITERATIONS, pv)))"
proof (cases pv)
  case (Some s)
  have "find (\<lambda>b. ready b \<and> fst (take_probe b now s)) bs = None" if "\<not> has_tripped s" for bs
    using that take_probe_tripped by (auto simp: find_None_iff)
  then show ?thesis
    by (auto simp: select_with_passive_def select_with_def select_probe_eq Some Let_def split: option.split)
next
  case None
  have "find (\<lambda>_. False) bs = None" for bs :: "'a backend list" by (induction bs) auto
  then show ?thesis
    by (simp add: select_with_passive_def select_with_def Let_def None split: option.split)
qed

section \<open>Timeouts and refresh\<close>

text \<open>The route's timeout wins, then the upstream's, then the instance default, then the constant.\<close>

lemma timeout_precedence:
  "po_read_timeout (apply_route_timeout rt (set_timeout u p)) =
     Some (unat (to_read (case rt of Some t \<Rightarrow> t
       | None \<Rightarrow> (case up_timeout (px_inner u) of Some t \<Rightarrow> t
         | None \<Rightarrow> (case px_default_timeout u of Some t \<Rightarrow> t | None \<Rightarrow> BUILTIN_UPSTREAM_TIMEOUT)))))"
  by (auto simp: apply_route_timeout_def set_timeout_def resolve_upstream_timeout_def Let_def split: option.split)

lemma refresh_frequency_bounds:
  "interval * 10 ^ 9 \<le> dns_refresh_frequency i interval \<and>
   dns_refresh_frequency i interval \<le> interval * 10 ^ 9 + min (interval * 10 ^ 9 div 10) (60 * 10 ^ 9)"
proof -
  let ?j = "min (interval * 10 ^ 9 div 10) (60 * 10 ^ 9)"
  have "unat (fnv1a i) mod (?j + 1) < ?j + 1" by (rule mod_less_divisor) simp
  then have "unat (fnv1a i) mod (?j + 1) \<le> ?j" by linarith
  then show ?thesis by (simp only: dns_refresh_frequency_def Let_def split: if_split) linarith
qed

end
