(* ===== verification/Health_Check.thy ===== *)
theory Health_Check
  imports Prelude
begin

text \<open>
  Ownership of active health checks: the registry and its executor
  (\<open>src/proxy/upstream/health_check.rs\<close>) and the reconciliation of a published snapshot
  (\<open>RuntimeStore::publish\<close> of \<open>src/proxy/runtime.rs\<close>).

  A registration is named by its generation, drawn from a counter that is taken not to reach
  \<open>2 ^ 64\<close>. A shutdown channel is named by the generation it was created for: \<open>hr_signalled\<close> holds
  the generations whose task was told to stop. The broadcast channel is the list of updates that the
  executor has not received yet. A load balancer service is an abstract value whose equality is
  \<open>Arc::ptr_eq\<close>.
\<close>

section \<open>The registry\<close>

type_synonym registration = nat

datatype registry_update = Added string registration | Removed string registration

record 'l registered_upstream =
  ru_generation :: nat
  ru_load_balancer :: 'l

record 'l hc_registry =
  hr_upstreams :: "(string \<times> 'l registered_upstream) list"
  hr_updates :: "registry_update list"
  hr_next_generation :: nat
  hr_signalled :: "registration list"

record displaced_check =
  dc_id :: string
  dc_registration :: registration

definition hc_registry_new :: "'l hc_registry" where
  "hc_registry_new = \<lparr>hr_upstreams = [], hr_updates = [], hr_next_generation = 1, hr_signalled = []\<rparr>"

definition notify :: "registry_update \<Rightarrow> 'l hc_registry \<Rightarrow> 'l hc_registry" where
  "notify u r = r\<lparr>hr_updates := hr_updates r @ [u]\<rparr>"

definition signal :: "registration \<Rightarrow> 'l hc_registry \<Rightarrow> 'l hc_registry" where
  "signal g r = r\<lparr>hr_signalled := g # hr_signalled r\<rparr>"

definition discard :: "displaced_check \<Rightarrow> 'l hc_registry \<Rightarrow> 'l hc_registry" where
  "discard d r = notify (Removed (dc_id d) (dc_registration d)) (signal (dc_registration d) r)"

definition register_upstream :: "string \<Rightarrow> 'l \<Rightarrow> 'l hc_registry \<Rightarrow>
    registration \<times> displaced_check option \<times> 'l hc_registry" where
  "register_upstream i lb r =
     (let g = hr_next_generation r;
          displaced = map_option (\<lambda>old. \<lparr>dc_id = i, dc_registration = ru_generation old\<rparr>)
                        (map_of (hr_upstreams r) i);
          r = r\<lparr>hr_next_generation := g + 1,
                hr_upstreams := AList.update i \<lparr>ru_generation = g, ru_load_balancer = lb\<rparr> (hr_upstreams r)\<rparr>
      in (g, displaced, notify (Added i g) r))"

definition unregister_upstream :: "string \<Rightarrow> registration \<Rightarrow> 'l hc_registry \<Rightarrow> bool \<times> 'l hc_registry" where
  "unregister_upstream i g r =
     (case map_of (hr_upstreams r) i of
        Some registered \<Rightarrow>
          if ru_generation registered = g
          then (True, notify (Removed i g) (signal g (r\<lparr>hr_upstreams := AList.delete i (hr_upstreams r)\<rparr>)))
          else (False, r)
      | None \<Rightarrow> (False, r))"

definition request_shutdown_all :: "'l hc_registry \<Rightarrow> 'l hc_registry" where
  "request_shutdown_all r = fold (\<lambda>(_, e). signal (ru_generation e)) (hr_upstreams r) r"

definition get_upstream_for_start :: "string \<Rightarrow> registration \<Rightarrow> 'l hc_registry \<Rightarrow> 'l option" where
  "get_upstream_for_start i g r =
     (case map_of (hr_upstreams r) i of
        Some registered \<Rightarrow>
          if ru_generation registered = g then Some (ru_load_balancer registered) else None
      | None \<Rightarrow> None)"

definition get_all_upstreams :: "'l hc_registry \<Rightarrow> (string \<times> registration) list" where
  "get_all_upstreams r = map (\<lambda>(i, e). (i, ru_generation e)) (hr_upstreams r)"

section \<open>The executor\<close>

text \<open>The running tasks, keyed by identifier and generation; the flag is \<open>is_finished\<close>.\<close>

type_synonym running_tasks = "((string \<times> registration) \<times> bool) list"

definition start_task :: "'l hc_registry \<Rightarrow> string \<times> registration \<Rightarrow> running_tasks \<Rightarrow> running_tasks" where
  "start_task r k running =
     (if map_of running k \<noteq> None then running
      else if get_upstream_for_start (fst k) (snd k) r = None then running
      else AList.update k False running)"

definition stop_running :: "string \<times> registration \<Rightarrow> running_tasks \<Rightarrow> running_tasks" where
  "stop_running k running = AList.delete k running"

definition start_all :: "'l hc_registry \<Rightarrow> running_tasks \<Rightarrow> running_tasks" where
  "start_all r running = fold (start_task r) (get_all_upstreams r) running"

definition restart_task :: "'l hc_registry \<Rightarrow> string \<times> registration \<Rightarrow> running_tasks \<Rightarrow> running_tasks" where
  "restart_task r k running =
     (let running = AList.delete k running
      in if get_upstream_for_start (fst k) (snd k) r \<noteq> None then start_task r k running else running)"

definition restart_finished_tasks :: "'l hc_registry \<Rightarrow> running_tasks \<Rightarrow> running_tasks" where
  "restart_finished_tasks r running = fold (restart_task r) (map fst (filter snd running)) running"

definition resync_tasks :: "'l hc_registry \<Rightarrow> running_tasks \<Rightarrow> running_tasks" where
  "resync_tasks r running =
     (let current = get_all_upstreams r;
          stale_keys = filter (\<lambda>k. k \<notin> set current) (map fst running);
          running = fold stop_running stale_keys running
      in fold (\<lambda>k running. if map_of running k \<noteq> None then running else start_task r k running)
           current running)"

definition handle_update :: "'l hc_registry \<Rightarrow> registry_update \<Rightarrow> running_tasks \<Rightarrow> running_tasks" where
  "handle_update r u running =
     (case u of
        Added i g \<Rightarrow> start_task r (i, g) running
      | Removed i g \<Rightarrow> stop_running (i, g) running)"

section \<open>Reconciliation at publication\<close>

record ('f, 'l) hc_spec =
  hs_key :: string
  hs_fingerprint :: 'f
  hs_service :: 'l

record ('f, 'l) active_check_entry =
  ae_fingerprint :: 'f
  ae_registration :: registration
  ae_service :: 'l

type_synonym ('f, 'l) active_set = "(string \<times> ('f, 'l) active_check_entry) list"

text \<open>One iteration of the loop over the desired checks.\<close>

definition reconcile_spec :: "('f, 'l) active_set \<Rightarrow> ('f, 'l) hc_spec \<Rightarrow>
    ('f, 'l) active_set \<times> displaced_check list \<times> 'l hc_registry \<Rightarrow>
    ('f, 'l) active_set \<times> displaced_check list \<times> 'l hc_registry" where
  "reconcile_spec active spec st =
     (let (next_entries, displaced, r) = st;
          register =
            (let (g, d, r) = register_upstream (hs_key spec) (hs_service spec) r
             in (AList.update (hs_key spec) \<lparr>ae_fingerprint = hs_fingerprint spec, ae_registration = g,
                   ae_service = hs_service spec\<rparr> next_entries,
                 displaced @ (case d of Some d \<Rightarrow> [d] | None \<Rightarrow> []), r))
      in case map_of active (hs_key spec) of
           Some existing \<Rightarrow>
             if ae_fingerprint existing = hs_fingerprint spec \<and> ae_service existing = hs_service spec
             then (AList.update (hs_key spec) existing next_entries, displaced, r)
             else register
         | None \<Rightarrow> register)"

definition removed_checks :: "('f, 'l) active_set \<Rightarrow> ('f, 'l) active_set \<Rightarrow> (string \<times> registration) list" where
  "removed_checks active next_entries =
     map (\<lambda>(k, e). (k, ae_registration e)) (filter (\<lambda>(k, _). map_of next_entries k = None) active)"

text \<open>\<open>RuntimeStore::publish\<close>, with the checks collected from the snapshot.\<close>

definition publish_checks :: "('f, 'l) hc_spec list \<Rightarrow> ('f, 'l) active_set \<times> 'l hc_registry \<Rightarrow>
    ('f, 'l) active_set \<times> 'l hc_registry" where
  "publish_checks desired st =
     (let (active, r) = st;
          (next_entries, displaced, r) = fold (reconcile_spec active) desired ([], [], r);
          removed = removed_checks active next_entries;
          r = fold discard displaced r;
          r = fold (\<lambda>(k, g) r. snd (unregister_upstream k g r)) removed r
      in (next_entries, r))"

section \<open>The executor follows the registry\<close>

definition task_keys :: "running_tasks \<Rightarrow> (string \<times> registration) set" where
  "task_keys running = keys running"

datatype executor_phase = Not_Started | Subscribed | Executing

record 'l hc_world =
  hw_registry :: "'l hc_registry"
  hw_limbo :: "displaced_check list"
  hw_phase :: executor_phase
  hw_running :: running_tasks

definition hc_world_new :: "'l hc_world" where
  "hc_world_new = \<lparr>hw_registry = hc_registry_new, hw_limbo = [], hw_phase = Not_Started, hw_running = []\<rparr>"

text \<open>Any interleaving of the publisher's operations, the executor's start and deliveries, and tasks
  that end by themselves. A displaced check is in limbo until the publisher discards it; a receiver
  that lags behind loses the oldest updates and compares with the whole registry instead.\<close>

inductive hc_step :: "'l hc_world \<Rightarrow> 'l hc_world \<Rightarrow> bool" where
  register: "register_upstream i lb (hw_registry w) = (g, d, r) \<Longrightarrow>
    hc_step w (w\<lparr>hw_registry := r, hw_limbo := hw_limbo w @ (case d of Some d \<Rightarrow> [d] | None \<Rightarrow> [])\<rparr>)"
| discard: "d \<in> set (hw_limbo w) \<Longrightarrow>
    hc_step w (w\<lparr>hw_registry := discard d (hw_registry w), hw_limbo := remove1 d (hw_limbo w)\<rparr>)"
| unregister: "hc_step w (w\<lparr>hw_registry := snd (unregister_upstream i g (hw_registry w))\<rparr>)"
| subscribe: "hw_phase w = Not_Started \<Longrightarrow>
    hc_step w (w\<lparr>hw_registry := (hw_registry w)\<lparr>hr_updates := []\<rparr>, hw_phase := Subscribed\<rparr>)"
| start: "hw_phase w = Subscribed \<Longrightarrow>
    hc_step w (w\<lparr>hw_phase := Executing, hw_running := start_all (hw_registry w) (hw_running w)\<rparr>)"
| receive: "hw_phase w = Executing \<Longrightarrow> hr_updates (hw_registry w) = u # us \<Longrightarrow>
    hc_step w (w\<lparr>hw_registry := (hw_registry w)\<lparr>hr_updates := us\<rparr>,
      hw_running := restart_finished_tasks (hw_registry w) (handle_update (hw_registry w) u (hw_running w))\<rparr>)"
| lagged: "hw_phase w = Executing \<Longrightarrow>
    hc_step w (w\<lparr>hw_registry := (hw_registry w)\<lparr>hr_updates := drop n (hr_updates (hw_registry w))\<rparr>,
      hw_running := restart_finished_tasks (hw_registry w) (resync_tasks (hw_registry w) (hw_running w))\<rparr>)"
| tick: "hw_phase w = Executing \<Longrightarrow>
    hc_step w (w\<lparr>hw_running := restart_finished_tasks (hw_registry w) (hw_running w)\<rparr>)"
| exits: "k \<in> task_keys (hw_running w) \<Longrightarrow> hc_step w (w\<lparr>hw_running := AList.update k True (hw_running w)\<rparr>)"

text \<open>The pairs of an identifier and a generation.\<close>

definition registered :: "'l hc_registry \<Rightarrow> (string \<times> registration) set" where
  "registered r = {(i, g). get_upstream_for_start i g r \<noteq> None}"

definition pairs_below :: "nat \<Rightarrow> (string \<times> registration) set \<Rightarrow> bool" where
  "pairs_below n ps \<longleftrightarrow> (\<forall>(i, g) \<in> ps. g < n)"

definition limbo_pairs :: "displaced_check list \<Rightarrow> (string \<times> registration) set" where
  "limbo_pairs ds = (\<lambda>d. (dc_id d, dc_registration d)) ` set ds"

definition removed_pairs :: "registry_update list \<Rightarrow> (string \<times> registration) set" where
  "removed_pairs us = {(i, g). Removed i g \<in> set us}"

definition added_pairs :: "registry_update list \<Rightarrow> (string \<times> registration) set" where
  "added_pairs us = {(i, g). Added i g \<in> set us}"

definition hc_inv :: "'l hc_world \<Rightarrow> bool" where
  "hc_inv w \<longleftrightarrow>
     (let r = hw_registry w; R = registered r; T = task_keys (hw_running w);
          D = limbo_pairs (hw_limbo w); X = removed_pairs (hr_updates r); A = added_pairs (hr_updates r)
      in distinct_keys (hr_upstreams r) \<and> (hw_phase w = Executing \<longrightarrow> R \<subseteq> T \<union> A) \<and>
         (hw_phase w \<noteq> Executing \<longrightarrow> T = {}) \<and> T \<subseteq> R \<union> D \<union> X \<and>
         R \<inter> (D \<union> X) = {} \<and> pairs_below (hr_next_generation r) (R \<union> D \<union> X))"

lemma registered_iff:
  "(i, g) \<in> registered r \<longleftrightarrow> (\<exists>e. map_of (hr_upstreams r) i = Some e \<and> ru_generation e = g)"
  by (auto simp: registered_def get_upstream_for_start_def split: option.splits if_splits)

lemma registered_cong [simp]:
  "registered (r\<lparr>hr_updates := us\<rparr>) = registered r" "registered (r\<lparr>hr_signalled := ss\<rparr>) = registered r"
  "registered (notify u r) = registered r" "registered (signal g r) = registered r"
  by (auto simp: registered_iff notify_def signal_def)

lemma set_get_all:
  "distinct_keys (hr_upstreams r) \<Longrightarrow> set (get_all_upstreams r) = registered r"
  by (force simp: get_all_upstreams_def registered_iff)

lemma task_keys_simps:
  "task_keys [] = {}" "task_keys (AList.update k b running) = insert k (task_keys running)"
  "task_keys (AList.delete k running) = task_keys running - {k}"
  "map_of running k = None \<longleftrightarrow> k \<notin> task_keys running"
  by (simp_all add: task_keys_def keys_update keys_delete map_of_None_keys)

lemma keys_start_task:
  "task_keys (start_task r k running) = (if k \<in> registered r then insert k (task_keys running) else task_keys running)"
proof -
  have "get_upstream_for_start (fst k) (snd k) r = None \<longleftrightarrow> k \<notin> registered r"
    by (cases k) (simp add: registered_def)
  then show ?thesis
    by (auto simp: start_task_def task_keys_simps)
qed

lemma keys_start_tasks: "task_keys (fold (start_task r) ks running) = task_keys running \<union> (set ks \<inter> registered r)"
  by (induction ks arbitrary: running) (auto simp: keys_start_task)

lemma keys_start_missing:
  "task_keys (fold (\<lambda>k running. if map_of running k \<noteq> None then running else start_task r k running) ks running) =
   task_keys running \<union> (set ks \<inter> registered r)"
  by (induction ks arbitrary: running) (auto simp: keys_start_task task_keys_simps)

lemma keys_stop: "task_keys (fold stop_running ks running) = task_keys running - set ks"
  by (induction ks arbitrary: running) (auto simp: stop_running_def task_keys_simps)

lemma keys_resync:
  assumes "distinct_keys (hr_upstreams r)"
  shows "task_keys (resync_tasks r running) = registered r"
proof -
  have stale: "set (filter (\<lambda>k. k \<notin> registered r) (map fst running)) = task_keys running - registered r"
    by (auto simp: task_keys_def)
  show ?thesis
    unfolding resync_tasks_def Let_def set_get_all [OF assms] keys_start_missing keys_stop stale by blast
qed

lemma keys_restart_task:
  "task_keys (restart_task r k running) = (if k \<in> registered r then insert k (task_keys running) else task_keys running - {k})"
proof -
  have "get_upstream_for_start (fst k) (snd k) r \<noteq> None \<longleftrightarrow> k \<in> registered r"
    by (cases k) (simp add: registered_def)
  then show ?thesis
    unfolding restart_task_def Let_def by (cases "k \<in> registered r") (simp_all only: if_True if_False keys_start_task task_keys_simps, auto)
qed

lemma keys_restart_tasks:
  "task_keys (fold (restart_task r) ks running) \<inter> registered r = (task_keys running \<union> set ks) \<inter> registered r"
  "task_keys (fold (restart_task r) ks running) \<subseteq> task_keys running \<union> set ks"
proof -
  have "task_keys (fold (restart_task r) ks running) \<inter> registered r = (task_keys running \<union> set ks) \<inter> registered r \<and>
      task_keys (fold (restart_task r) ks running) \<subseteq> task_keys running \<union> set ks"
  proof (induction ks arbitrary: running)
    case (Cons k ks)
    show ?case
      using Cons.IH [of "restart_task r k running"] unfolding keys_restart_task list.set fold_Cons comp_apply
      by (cases "k \<in> registered r") (simp_all only: if_True if_False, blast+)
  qed simp
  then show "task_keys (fold (restart_task r) ks running) \<inter> registered r = (task_keys running \<union> set ks) \<inter> registered r"
    "task_keys (fold (restart_task r) ks running) \<subseteq> task_keys running \<union> set ks" by blast+
qed

lemma keys_restart:
  "task_keys (restart_finished_tasks r running) \<inter> registered r = task_keys running \<inter> registered r"
  "task_keys (restart_finished_tasks r running) \<subseteq> task_keys running"
proof -
  have "set (map fst (filter snd running)) \<subseteq> task_keys running" by (auto simp: task_keys_def)
  then show "task_keys (restart_finished_tasks r running) \<inter> registered r = task_keys running \<inter> registered r"
    "task_keys (restart_finished_tasks r running) \<subseteq> task_keys running"
    using keys_restart_tasks [of r "map fst (filter snd running)" running]
    unfolding restart_finished_tasks_def by blast+
qed

lemma keys_start_all:
  "distinct_keys (hr_upstreams r) \<Longrightarrow> task_keys (start_all r running) = task_keys running \<union> registered r"
  by (simp add: start_all_def keys_start_tasks set_get_all)

lemma registered_register:
  assumes "register_upstream i lb r = (g, d, r')"
  shows "registered r' = insert (i, g) {k \<in> registered r. fst k \<noteq> i}"
    and "limbo_pairs (case d of Some d \<Rightarrow> [d] | None \<Rightarrow> []) = {k \<in> registered r. fst k = i}"
    and "hr_updates r' = hr_updates r @ [Added i g]" and "g = hr_next_generation r"
    and "hr_next_generation r' = g + 1"
    and "distinct_keys (hr_upstreams r) \<Longrightarrow> distinct_keys (hr_upstreams r')"
proof -
  have g: "g = hr_next_generation r"
    and d: "d = map_option (\<lambda>old. \<lparr>dc_id = i, dc_registration = ru_generation old\<rparr>) (map_of (hr_upstreams r) i)"
    and r': "r' = notify (Added i g) (r\<lparr>hr_next_generation := g + 1,
      hr_upstreams := AList.update i \<lparr>ru_generation = g, ru_load_balancer = lb\<rparr> (hr_upstreams r)\<rparr>)"
    using assms by (auto simp: register_upstream_def Let_def)
  show "registered r' = insert (i, g) {k \<in> registered r. fst k \<noteq> i}"
    by (auto simp: r' registered_iff notify_def update_conv split: if_splits)
  show "limbo_pairs (case d of Some d \<Rightarrow> [d] | None \<Rightarrow> []) = {k \<in> registered r. fst k = i}"
    by (cases "map_of (hr_upstreams r) i") (auto simp: d limbo_pairs_def registered_iff)
  show "hr_updates r' = hr_updates r @ [Added i g]" "g = hr_next_generation r" "hr_next_generation r' = g + 1"
    "distinct_keys (hr_upstreams r) \<Longrightarrow> distinct_keys (hr_upstreams r')"
    by (auto simp: r' g notify_def distinct_update)
qed

lemma registered_unregister:
  "snd (unregister_upstream i g r) =
     (if (i, g) \<in> registered r
      then notify (Removed i g) (signal g (r\<lparr>hr_upstreams := AList.delete i (hr_upstreams r)\<rparr>)) else r)"
  by (auto simp: unregister_upstream_def registered_iff split: option.splits)

lemma registered_delete:
  "registered (r\<lparr>hr_upstreams := AList.delete i (hr_upstreams r)\<rparr>) = {k \<in> registered r. fst k \<noteq> i}"
  by (auto simp: registered_iff delete_conv split: if_splits)

lemma pairs_simps [simp]:
  "removed_pairs [] = {}" "added_pairs [] = {}"
  "removed_pairs (us @ [Added i g]) = removed_pairs us" "added_pairs (us @ [Added i g]) = insert (i, g) (added_pairs us)"
  "removed_pairs (us @ [Removed i g]) = insert (i, g) (removed_pairs us)" "added_pairs (us @ [Removed i g]) = added_pairs us"
  "removed_pairs (Added i g # us) = removed_pairs us" "added_pairs (Added i g # us) = insert (i, g) (added_pairs us)"
  "removed_pairs (Removed i g # us) = insert (i, g) (removed_pairs us)" "added_pairs (Removed i g # us) = added_pairs us"
  by (auto simp: removed_pairs_def added_pairs_def)

lemma removed_pairs_drop: "removed_pairs (drop n us) \<subseteq> removed_pairs us"
  by (auto simp: removed_pairs_def dest: in_set_dropD)

lemma limbo_pairs_simps [simp]:
  "limbo_pairs [] = {}" "limbo_pairs (ds @ es) = limbo_pairs ds \<union> limbo_pairs es"
  by (auto simp: limbo_pairs_def)

lemma limbo_pairs_remove1:
  assumes "d \<in> set ds"
  shows "limbo_pairs (remove1 d ds) \<union> {(dc_id d, dc_registration d)} = limbo_pairs ds"
proof -
  have "set (remove1 d ds) \<union> {d} = set ds"
    using assms in_set_remove1 [of _ d ds] set_remove1_subset [of d ds] by blast
  then show ?thesis unfolding limbo_pairs_def by blast
qed

lemma registry_fields [simp]:
  "hr_upstreams (notify u r) = hr_upstreams r" "hr_next_generation (notify u r) = hr_next_generation r"
  "hr_updates (notify u r) = hr_updates r @ [u]" "hr_upstreams (signal g r) = hr_upstreams r"
  "hr_next_generation (signal g r) = hr_next_generation r" "hr_updates (signal g r) = hr_updates r"
  by (simp_all add: notify_def signal_def)

lemma hc_invI:
  assumes "distinct_keys (hr_upstreams r)" and "hw_phase w = Executing \<Longrightarrow> registered r \<subseteq> task_keys (hw_running w) \<union> added_pairs (hr_updates r)"
    and "hw_phase w \<noteq> Executing \<Longrightarrow> task_keys (hw_running w) = {}"
    and "task_keys (hw_running w) \<subseteq> registered r \<union> limbo_pairs (hw_limbo w) \<union> removed_pairs (hr_updates r)"
    and "registered r \<inter> (limbo_pairs (hw_limbo w) \<union> removed_pairs (hr_updates r)) = {}"
    and "pairs_below (hr_next_generation r) (registered r \<union> limbo_pairs (hw_limbo w) \<union> removed_pairs (hr_updates r))"
    and "hw_registry w = r"
  shows "hc_inv w"
  using assms unfolding hc_inv_def Let_def by blast

lemma hc_invD:
  assumes "hc_inv w"
  defines "r \<equiv> hw_registry w"
  shows "distinct_keys (hr_upstreams r)"
    and "hw_phase w = Executing \<Longrightarrow> registered r \<subseteq> task_keys (hw_running w) \<union> added_pairs (hr_updates r)"
    and "hw_phase w \<noteq> Executing \<Longrightarrow> task_keys (hw_running w) = {}"
    and "task_keys (hw_running w) \<subseteq> registered r \<union> limbo_pairs (hw_limbo w) \<union> removed_pairs (hr_updates r)"
    and "registered r \<inter> (limbo_pairs (hw_limbo w) \<union> removed_pairs (hr_updates r)) = {}"
    and "pairs_below (hr_next_generation r) (registered r \<union> limbo_pairs (hw_limbo w) \<union> removed_pairs (hr_updates r))"
  using assms unfolding hc_inv_def Let_def by blast+

lemma pairs_below_mono: "pairs_below n ps \<Longrightarrow> qs \<subseteq> ps \<Longrightarrow> n \<le> m \<Longrightarrow> pairs_below m qs"
  by (fastforce simp: pairs_below_def)

lemma pairs_below_fresh: "pairs_below n ps \<Longrightarrow> (i, n) \<notin> ps"
  by (auto simp: pairs_below_def)

lemma hc_inv_register:
  assumes "hc_inv w" and reg: "register_upstream i lb (hw_registry w) = (g, d, r)"
  shows "hc_inv (w\<lparr>hw_registry := r, hw_limbo := hw_limbo w @ (case d of Some d \<Rightarrow> [d] | None \<Rightarrow> [])\<rparr>)"
    (is "hc_inv ?w")
proof -
  note inv = hc_invD [OF assms(1)] and r = registered_register [OF reg]
  let ?r = "hw_registry w" and ?e = "{k \<in> registered (hw_registry w). fst k = i}"
  let ?D = "limbo_pairs (hw_limbo w)" and ?X = "removed_pairs (hr_updates ?r)"
  have limbo: "limbo_pairs (hw_limbo ?w) = ?D \<union> ?e" by (simp add: r(2))
  have fresh: "(i, g) \<notin> registered ?r \<union> ?D \<union> ?X"
    unfolding r(4) by (rule pairs_below_fresh [OF inv(6)])
  show ?thesis
  proof (rule hc_invI [of r])
    show "pairs_below (hr_next_generation r) (registered r \<union> limbo_pairs (hw_limbo ?w) \<union> removed_pairs (hr_updates r))"
      using pairs_below_mono [OF inv(6) subset_refl, of "g + 1"] unfolding limbo r(1,3,5)
      by (auto simp: pairs_below_def r(4))
  qed (use inv fresh r(6) in \<open>unfold limbo r(1,3), auto\<close>)
qed

lemma hc_inv_discard:
  assumes "hc_inv w" and d: "d \<in> set (hw_limbo w)"
  shows "hc_inv (w\<lparr>hw_registry := discard d (hw_registry w), hw_limbo := remove1 d (hw_limbo w)\<rparr>)" (is "hc_inv ?w")
proof -
  note inv = hc_invD [OF assms(1)]
  let ?D' = "limbo_pairs (remove1 d (hw_limbo w))"
  have limbo: "limbo_pairs (hw_limbo w) = insert (dc_id d, dc_registration d) ?D'"
    using limbo_pairs_remove1 [OF d] by simp
  have r: "registered (discard d (hw_registry w)) = registered (hw_registry w)"
    "hr_updates (discard d (hw_registry w)) = hr_updates (hw_registry w) @ [Removed (dc_id d) (dc_registration d)]"
    "hr_next_generation (discard d (hw_registry w)) = hr_next_generation (hw_registry w)"
    "hr_upstreams (discard d (hw_registry w)) = hr_upstreams (hw_registry w)"
    by (simp_all add: discard_def)
  show ?thesis
    by (rule hc_invI [of "discard d (hw_registry w)"]; use inv limbo in \<open>simp add: r\<close>)
qed

lemma hc_inv_unregister:
  assumes "hc_inv w"
  shows "hc_inv (w\<lparr>hw_registry := snd (unregister_upstream i g (hw_registry w))\<rparr>)" (is "hc_inv ?w")
proof (cases "(i, g) \<in> registered (hw_registry w)")
  case True
  note inv = hc_invD [OF assms]
  let ?r = "hw_registry w" and ?r' = "hw_registry ?w"
  have r: "?r' = notify (Removed i g) (signal g (?r\<lparr>hr_upstreams := AList.delete i (hr_upstreams ?r)\<rparr>))"
    using True by (simp add: registered_unregister)
  have pairs: "registered ?r' = {k \<in> registered ?r. fst k \<noteq> i}"
    "removed_pairs (hr_updates ?r') = insert (i, g) (removed_pairs (hr_updates ?r))"
    "added_pairs (hr_updates ?r') = added_pairs (hr_updates ?r)"
    "hr_next_generation ?r' = hr_next_generation ?r" "distinct_keys (hr_upstreams ?r')"
    using inv(1) unfolding r by (simp_all add: registered_delete distinct_delete)
  define R where "R = registered ?r'"
  have R: "registered ?r = insert (i, g) R" "(i, g) \<notin> R"
    using True unfolding R_def pairs(1) by (auto simp: registered_iff)
  have fields: "hw_phase ?w = hw_phase w" "hw_running ?w = hw_running w" "hw_limbo ?w = hw_limbo w" by simp_all
  note inv' = inv [unfolded R(1)]
  show ?thesis
  proof (rule hc_invI [of ?r'], unfold pairs(2-4) fields R_def [symmetric])
    show "pairs_below (hr_next_generation ?r) (R \<union> limbo_pairs (hw_limbo w) \<union> insert (i, g) (removed_pairs (hr_updates ?r)))"
      by (rule pairs_below_mono [OF inv'(6)]) auto
    show "R \<inter> (limbo_pairs (hw_limbo w) \<union> insert (i, g) (removed_pairs (hr_updates ?r))) = {}"
      using inv'(5) R(2) by blast
    show "task_keys (hw_running w) \<subseteq> R \<union> limbo_pairs (hw_limbo w) \<union> insert (i, g) (removed_pairs (hr_updates ?r))"
      using inv'(4) by blast
  qed (use inv' pairs(5) in blast)+
qed (use assms in \<open>simp add: registered_unregister\<close>)

lemma hc_inv_receive:
  assumes "hc_inv w" and phase: "hw_phase w = Executing" and us: "hr_updates (hw_registry w) = u # us"
  shows "hc_inv (w\<lparr>hw_registry := (hw_registry w)\<lparr>hr_updates := us\<rparr>,
      hw_running := restart_finished_tasks (hw_registry w) (handle_update (hw_registry w) u (hw_running w))\<rparr>)" (is "hc_inv ?w")
proof -
  note inv = hc_invD [OF assms(1)]
  let ?r = "hw_registry w" and ?h = "handle_update (hw_registry w) u (hw_running w)"
  note restart = keys_restart [of ?r ?h]
  have fields: "hw_phase ?w = hw_phase w" "hw_limbo ?w = hw_limbo w" "hw_running ?w = restart_finished_tasks ?r ?h"
    "registered (?r\<lparr>hr_updates := us\<rparr>) = registered ?r" "hr_updates (?r\<lparr>hr_updates := us\<rparr>) = us"
    "hr_next_generation (?r\<lparr>hr_updates := us\<rparr>) = hr_next_generation ?r"
    "hr_upstreams (?r\<lparr>hr_updates := us\<rparr>) = hr_upstreams ?r" by simp_all
  show ?thesis
  proof (cases u)
    case (Added i g)
    have h: "task_keys ?h \<inter> registered ?r = insert (i, g) (task_keys (hw_running w)) \<inter> registered ?r"
      "task_keys ?h \<subseteq> task_keys (hw_running w) \<union> registered ?r"
      by (auto simp only: Added handle_update_def registry_update.case keys_start_task split: if_splits)
    have x: "removed_pairs (hr_updates ?r) = removed_pairs us" "added_pairs (hr_updates ?r) = insert (i, g) (added_pairs us)"
      by (simp_all add: us Added)
    note inv' = inv [unfolded x]
    show ?thesis
    proof (rule hc_invI [of "?r\<lparr>hr_updates := us\<rparr>"], unfold fields)
      show "registered ?r \<subseteq> task_keys (restart_finished_tasks ?r ?h) \<union> added_pairs us"
        using inv'(2) [OF phase] h(1) restart(1) by blast
      show "task_keys (restart_finished_tasks ?r ?h) \<subseteq> registered ?r \<union> limbo_pairs (hw_limbo w) \<union> removed_pairs us"
        using inv'(4) h(2) restart(2) by blast
    qed (use inv' phase in simp_all)
  next
    case (Removed i g)
    have h: "task_keys ?h = task_keys (hw_running w) - {(i, g)}"
      by (simp add: Removed handle_update_def stop_running_def task_keys_simps)
    have x: "removed_pairs (hr_updates ?r) = insert (i, g) (removed_pairs us)" "added_pairs (hr_updates ?r) = added_pairs us"
      by (simp_all add: us Removed)
    note inv' = inv [unfolded x]
    show ?thesis
    proof (rule hc_invI [of "?r\<lparr>hr_updates := us\<rparr>"], unfold fields)
      show "registered ?r \<subseteq> task_keys (restart_finished_tasks ?r ?h) \<union> added_pairs us"
        using inv'(2) [OF phase] inv'(5) h restart(1) by blast
      show "task_keys (restart_finished_tasks ?r ?h) \<subseteq> registered ?r \<union> limbo_pairs (hw_limbo w) \<union> removed_pairs us"
        using inv'(4) h restart(2) by blast
      show "registered ?r \<inter> (limbo_pairs (hw_limbo w) \<union> removed_pairs us) = {}" using inv'(5) by blast
      show "pairs_below (hr_next_generation ?r) (registered ?r \<union> limbo_pairs (hw_limbo w) \<union> removed_pairs us)"
        by (rule pairs_below_mono [OF inv'(6)]) auto
    qed (use inv' phase in simp_all)
  qed
qed

lemma hc_inv_running:
  assumes "hc_inv w" and phase: "hw_phase w = Executing"
    and run: "registered (hw_registry w) \<inter> task_keys (hw_running w) \<subseteq> task_keys running"
      "task_keys running \<subseteq> task_keys (hw_running w)"
  shows "hc_inv (w\<lparr>hw_running := running\<rparr>)" (is "hc_inv ?w")
proof -
  note inv = hc_invD [OF assms(1)]
  have fields: "hw_phase ?w = hw_phase w" "hw_limbo ?w = hw_limbo w" "hw_running ?w = running" by simp_all
  show ?thesis
  proof (rule hc_invI [of "hw_registry w"], unfold fields)
    show "registered (hw_registry w) \<subseteq> task_keys running \<union> added_pairs (hr_updates (hw_registry w))"
      using inv(2) [OF phase] run(1) by blast
    show "task_keys running \<subseteq> registered (hw_registry w) \<union> limbo_pairs (hw_limbo w) \<union>
        removed_pairs (hr_updates (hw_registry w))"
      using inv(4) run(2) by blast
  qed (use inv(1,5,6) phase in simp_all)
qed

lemma hc_inv_lagged:
  assumes "hc_inv w" and phase: "hw_phase w = Executing"
  shows "hc_inv (w\<lparr>hw_registry := (hw_registry w)\<lparr>hr_updates := drop n (hr_updates (hw_registry w))\<rparr>,
      hw_running := restart_finished_tasks (hw_registry w) (resync_tasks (hw_registry w) (hw_running w))\<rparr>)" (is "hc_inv ?w")
proof -
  note inv = hc_invD [OF assms(1)]
  let ?r = "hw_registry w" and ?us = "drop n (hr_updates (hw_registry w))"
  have T: "task_keys (restart_finished_tasks ?r (resync_tasks ?r (hw_running w))) = registered ?r"
    using keys_restart [of ?r "resync_tasks ?r (hw_running w)"] unfolding keys_resync [OF inv(1)] by blast
  have fields: "hw_phase ?w = hw_phase w" "hw_limbo ?w = hw_limbo w"
    "hw_running ?w = restart_finished_tasks ?r (resync_tasks ?r (hw_running w))"
    "registered (?r\<lparr>hr_updates := ?us\<rparr>) = registered ?r" "hr_updates (?r\<lparr>hr_updates := ?us\<rparr>) = ?us"
    "hr_next_generation (?r\<lparr>hr_updates := ?us\<rparr>) = hr_next_generation ?r"
    "hr_upstreams (?r\<lparr>hr_updates := ?us\<rparr>) = hr_upstreams ?r" by simp_all
  note drop = removed_pairs_drop [of n "hr_updates ?r"]
  show ?thesis
  proof (rule hc_invI [of "?r\<lparr>hr_updates := ?us\<rparr>"], unfold fields T)
    show "registered ?r \<inter> (limbo_pairs (hw_limbo w) \<union> removed_pairs ?us) = {}" using inv(5) drop by blast
    show "pairs_below (hr_next_generation ?r) (registered ?r \<union> limbo_pairs (hw_limbo w) \<union> removed_pairs ?us)"
      by (rule pairs_below_mono [OF inv(6)]) (use drop in auto)
  qed (use inv phase in auto)
qed

lemma hc_inv_step: "hc_step w w' \<Longrightarrow> hc_inv w \<Longrightarrow> hc_inv w'"
proof (induction rule: hc_step.induct)
  case (subscribe w)
  note inv = hc_invD [OF subscribe(2)]
  let ?r = "hw_registry w"
  have "pairs_below (hr_next_generation ?r) (registered ?r \<union> limbo_pairs (hw_limbo w))"
    by (rule pairs_below_mono [OF inv(6)]) auto
  then show ?case
    by (intro hc_invI [of "?r\<lparr>hr_updates := []\<rparr>"]) (use inv subscribe in auto)
next
  case (start w)
  note inv = hc_invD [OF start(2)]
  have T: "task_keys (hw_running w) = {}" using inv(3) start(1) by simp
  have "task_keys (start_all (hw_registry w) (hw_running w)) = registered (hw_registry w)"
    using keys_start_all [OF inv(1), of "hw_running w"] T by simp
  then show ?case by (intro hc_invI [of "hw_registry w"]) (use inv in auto)
next
  case (tick w)
  show ?case
    by (rule hc_inv_running [OF tick(2,1)]) (use keys_restart [of "hw_registry w" "hw_running w"] in blast)+
next
  case (exits k w)
  have k: "task_keys (AList.update k True (hw_running w)) = task_keys (hw_running w)"
    using exits(1) by (auto simp: task_keys_simps)
  have "hw_phase w = Executing" using hc_invD(3) [OF exits(2)] exits(1) by blast
  from hc_inv_running [OF exits(2) this] show ?case using k by blast
qed (rule hc_inv_register hc_inv_discard hc_inv_unregister hc_inv_receive hc_inv_lagged; assumption)+

abbreviation hc_reachable :: "'l hc_world \<Rightarrow> bool" where
  "hc_reachable w \<equiv> hc_step\<^sup>*\<^sup>* hc_world_new w"

lemma hc_inv_new: "hc_inv hc_world_new"
  by (simp add: hc_inv_def hc_world_new_def hc_registry_new_def registered_def get_upstream_for_start_def
      task_keys_simps pairs_below_def)

lemma hc_inv_reachable: "hc_reachable w \<Longrightarrow> hc_inv w"
  by (induction rule: rtranclp_induct) (auto intro: hc_inv_new hc_inv_step)

section \<open>Publication reconciles the active checks\<close>

abbreviation lift_check :: "('f, 'l) active_check_entry \<Rightarrow> 'l registered_upstream" where
  "lift_check e \<equiv> \<lparr>ru_generation = ae_registration e, ru_load_balancer = ae_service e\<rparr>"

text \<open>The active set names exactly the registered upstreams, with generations already drawn.\<close>

definition checks_consistent :: "('f, 'l) active_set \<Rightarrow> 'l hc_registry \<Rightarrow> bool" where
  "checks_consistent active r \<longleftrightarrow> distinct_keys active \<and>
     (\<forall>k. map_of (hr_upstreams r) k = map_option lift_check (map_of active k)) \<and>
     (\<forall>k e. map_of active k = Some e \<longrightarrow> ae_registration e < hr_next_generation r)"

definition unchanged_check :: "('f, 'l) active_set \<Rightarrow> ('f, 'l) hc_spec \<Rightarrow> bool" where
  "unchanged_check active s \<longleftrightarrow>
     (case map_of active (hs_key s) of
        Some e \<Rightarrow> ae_fingerprint e = hs_fingerprint s \<and> ae_service e = hs_service s
      | None \<Rightarrow> False)"

text \<open>What the loop over the desired checks computes: the new entries, drawing generations from \<open>n\<close>
  on, and the replaced ones.\<close>

fun assigned :: "nat \<Rightarrow> ('f, 'l) active_set \<Rightarrow> ('f, 'l) hc_spec list \<Rightarrow> ('f, 'l) active_set" where
  "assigned n active [] = []"
| "assigned n active (s # ss) =
     (if unchanged_check active s then (hs_key s, the (map_of active (hs_key s))) # assigned n active ss
      else (hs_key s, \<lparr>ae_fingerprint = hs_fingerprint s, ae_registration = n, ae_service = hs_service s\<rparr>)
           # assigned (n + 1) active ss)"

definition replaced_checks :: "('f, 'l) active_set \<Rightarrow> ('f, 'l) hc_spec list \<Rightarrow> displaced_check list" where
  "replaced_checks active ss =
     map (\<lambda>s. \<lparr>dc_id = hs_key s, dc_registration = ae_registration (the (map_of active (hs_key s)))\<rparr>)
       (filter (\<lambda>s. map_of active (hs_key s) \<noteq> None \<and> \<not> unchanged_check active s) ss)"

definition changed_count :: "('f, 'l) active_set \<Rightarrow> ('f, 'l) hc_spec list \<Rightarrow> nat" where
  "changed_count active ss = length (filter (\<lambda>s. \<not> unchanged_check active s) ss)"

lemma update_fresh: "k \<notin> keys xs \<Longrightarrow> AList.update k v xs = xs @ [(k, v)]"
  by (induction xs) auto

lemma reconcile_unchanged:
  "unchanged_check active s \<Longrightarrow> hs_key s \<notin> keys ne \<Longrightarrow>
   reconcile_spec active s (ne, ds, r) = (ne @ [(hs_key s, the (map_of active (hs_key s)))], ds, r)"
  by (simp add: reconcile_spec_def unchanged_check_def update_fresh Let_def split: option.splits)

lemma reconcile_changed:
  assumes "\<not> unchanged_check active s" "hs_key s \<notin> keys ne"
    and "map_of (hr_upstreams r) (hs_key s) = map_option lift_check (map_of active (hs_key s))"
  shows "reconcile_spec active s (ne, ds, r) =
    (ne @ [(hs_key s, \<lparr>ae_fingerprint = hs_fingerprint s, ae_registration = hr_next_generation r, ae_service = hs_service s\<rparr>)],
     ds @ replaced_checks active [s], snd (snd (register_upstream (hs_key s) (hs_service s) r)))"
  using assms
  by (cases "map_of active (hs_key s)")
    (simp_all add: reconcile_spec_def unchanged_check_def update_fresh Let_def register_upstream_def replaced_checks_def)

lemma register_fields:
  "hr_next_generation (snd (snd (register_upstream i lb r))) = hr_next_generation r + 1"
  "hr_signalled (snd (snd (register_upstream i lb r))) = hr_signalled r"
  "map_of (hr_upstreams (snd (snd (register_upstream i lb r)))) =
     (map_of (hr_upstreams r))(i \<mapsto> \<lparr>ru_generation = hr_next_generation r, ru_load_balancer = lb\<rparr>)"
  by (simp_all add: register_upstream_def Let_def notify_def update_conv)

lemma reconcile_fold:
  assumes "distinct (map hs_key ss)" and "keys ne \<inter> set (map hs_key ss) = {}"
    and "\<And>k. map_of (hr_upstreams r) k =
      (case map_of ne k of Some e \<Rightarrow> Some (lift_check e) | None \<Rightarrow> map_option lift_check (map_of active k))"
    and "fold (reconcile_spec active) ss (ne, ds, r) = (ne', ds', r')"
  shows "ne' = ne @ assigned (hr_next_generation r) active ss \<and> ds' = ds @ replaced_checks active ss \<and>
    hr_signalled r' = hr_signalled r \<and> hr_next_generation r' = hr_next_generation r + changed_count active ss \<and>
    (\<forall>k. map_of (hr_upstreams r') k =
      (case map_of ne' k of Some e \<Rightarrow> Some (lift_check e) | None \<Rightarrow> map_option lift_check (map_of active k)))"
  using assms
proof (induction ss arbitrary: ne ds r)
  case (Cons s ss)
  have fresh: "hs_key s \<notin> keys ne" using Cons.prems(2) by simp
  then have none: "map_of ne (hs_key s) = None" by (simp add: map_of_None_keys)
  show ?case
  proof (cases "unchanged_check active s")
    case True
    let ?e = "the (map_of active (hs_key s))" and ?ne = "ne @ [(hs_key s, the (map_of active (hs_key s)))]"
    have e: "map_of active (hs_key s) = Some ?e"
      using True by (auto simp: unchanged_check_def split: option.splits)
    have step: "fold (reconcile_spec active) ss (?ne, ds, r) = (ne', ds', r')"
      using Cons.prems(4) by (simp add: reconcile_unchanged [OF True fresh])
    have "map_of (hr_upstreams r) k =
        (case map_of ?ne k of Some e \<Rightarrow> Some (lift_check e) | None \<Rightarrow> map_option lift_check (map_of active k))" for k
      using Cons.prems(3) [of k] none e by (auto simp: map_add_def split: option.splits)
    from Cons.IH [OF _ _ this step] show ?thesis
      using Cons.prems(1,2) True by (auto simp: replaced_checks_def changed_count_def)
  next
    case False
    let ?e = "\<lparr>ae_fingerprint = hs_fingerprint s, ae_registration = hr_next_generation r, ae_service = hs_service s\<rparr>"
    let ?ne = "ne @ [(hs_key s, ?e)]" and ?r = "snd (snd (register_upstream (hs_key s) (hs_service s) r))"
    have "map_of (hr_upstreams r) (hs_key s) = map_option lift_check (map_of active (hs_key s))"
      using Cons.prems(3) none by simp
    from reconcile_changed [OF False fresh this]
    have step: "fold (reconcile_spec active) ss (?ne, ds @ replaced_checks active [s], ?r) = (ne', ds', r')"
      using Cons.prems(4) by simp
    have "map_of (hr_upstreams ?r) k =
        (case map_of ?ne k of Some e \<Rightarrow> Some (lift_check e) | None \<Rightarrow> map_option lift_check (map_of active k))" for k
      using Cons.prems(3) [of k] none by (auto simp: map_add_def register_fields split: option.splits)
    from Cons.IH [OF _ _ this step] show ?thesis
      using Cons.prems(1,2) False by (auto simp: replaced_checks_def changed_count_def register_fields)
  qed
qed (simp add: replaced_checks_def changed_count_def)

lemma discards:
  "hr_upstreams (fold discard ds r) = hr_upstreams r"
  "hr_next_generation (fold discard ds r) = hr_next_generation r"
  "set (hr_signalled (fold discard ds r)) = set (hr_signalled r) \<union> dc_registration ` set ds"
  by (induction ds arbitrary: r) (auto simp: discard_def signal_def notify_def)

lemma unregister_registered:
  assumes "map_option ru_generation (map_of (hr_upstreams r) k) = Some g"
  shows "snd (unregister_upstream k g r) =
    notify (Removed k g) (signal g (r\<lparr>hr_upstreams := AList.delete k (hr_upstreams r)\<rparr>))"
  using assms by (auto simp: unregister_upstream_def)

lemma unregisters:
  assumes "distinct_keys ps"
    and "\<And>k g. (k, g) \<in> set ps \<Longrightarrow> map_option ru_generation (map_of (hr_upstreams r) k) = Some g"
  defines "r' \<equiv> fold (\<lambda>(k, g) r. snd (unregister_upstream k g r)) ps r"
  shows "map_of (hr_upstreams r') k = (if k \<in> keys ps then None else map_of (hr_upstreams r) k) \<and>
    hr_next_generation r' = hr_next_generation r \<and> set (hr_signalled r') = set (hr_signalled r) \<union> snd ` set ps"
  using assms(1,2) unfolding r'_def
proof (induction ps arbitrary: r)
  case (Cons p ps)
  obtain i g where p: "p = (i, g)" by (cases p)
  let ?r = "notify (Removed i g) (signal g (r\<lparr>hr_upstreams := AList.delete i (hr_upstreams r)\<rparr>))"
  have r: "snd (unregister_upstream i g r) = ?r"
    using Cons.prems(2) [of i g] by (intro unregister_registered) (simp add: p)
  have "map_option ru_generation (map_of (hr_upstreams ?r) k) = Some h" if "(k, h) \<in> set ps" for k h
    using Cons.prems(2) [of k h] that Cons.prems(1) by (force simp: p notify_def signal_def)
  from Cons.IH [OF _ this] Cons.prems(1) show ?case
    by (auto simp: p r notify_def signal_def)
qed simp

lemma assigned_lookup:
  assumes "distinct (map hs_key ss)" and "s \<in> set ss"
  shows "\<exists>e. map_of (assigned n active ss) (hs_key s) = Some e \<and>
    (if unchanged_check active s then map_of active (hs_key s) = Some e
     else ae_fingerprint e = hs_fingerprint s \<and> ae_service e = hs_service s \<and>
       n \<le> ae_registration e \<and> ae_registration e < n + changed_count active ss)"
  using assms
proof (induction ss arbitrary: n)
  case (Cons t ss)
  show ?case
  proof (cases "s = t")
    case True
    then show ?thesis
      by (auto simp: changed_count_def unchanged_check_def split: option.splits)
  next
    case False
    then have s: "s \<in> set ss" "hs_key s \<noteq> hs_key t" using Cons.prems by (auto simp: rev_image_eqI)
    show ?thesis
      using Cons.IH [of n] Cons.IH [of "n + 1"] Cons.prems(1) s
      by (auto simp: changed_count_def split: if_splits)
  qed
qed simp

lemma keys_assigned: "map fst (assigned n active ss) = map hs_key ss"
  by (induction ss arbitrary: n) auto

lemma publish_effect:
  assumes cons: "checks_consistent active r" and specs: "distinct (map hs_key desired)"
    and pub: "publish_checks desired (active, r) = (active', r')"
  shows "active' = assigned (hr_next_generation r) active desired"
    and "map_of (hr_upstreams r') k = map_option lift_check (map_of active' k)"
    and "hr_next_generation r' = hr_next_generation r + changed_count active desired"
    and "set (hr_signalled r') = set (hr_signalled r) \<union> dc_registration ` set (replaced_checks active desired) \<union>
      snd ` set (removed_checks active active')"
proof -
  obtain ne ds r1 where loop: "fold (reconcile_spec active) desired ([], [], r) = (ne, ds, r1)"
    by (cases "fold (reconcile_spec active) desired ([], [], r)") auto
  have "ne = [] @ assigned (hr_next_generation r) active desired \<and> ds = [] @ replaced_checks active desired \<and>
      hr_signalled r1 = hr_signalled r \<and> hr_next_generation r1 = hr_next_generation r + changed_count active desired \<and>
      (\<forall>k. map_of (hr_upstreams r1) k =
        (case map_of ne k of Some e \<Rightarrow> Some (lift_check e) | None \<Rightarrow> map_option lift_check (map_of active k)))"
    by (rule reconcile_fold [OF specs _ _ loop]) (use cons in \<open>auto simp: checks_consistent_def\<close>)
  then have r1: "ne = assigned (hr_next_generation r) active desired" "ds = replaced_checks active desired"
    "hr_signalled r1 = hr_signalled r" "hr_next_generation r1 = hr_next_generation r + changed_count active desired"
    "\<And>k. map_of (hr_upstreams r1) k =
        (case map_of ne k of Some e \<Rightarrow> Some (lift_check e) | None \<Rightarrow> map_option lift_check (map_of active k))"
    by simp_all
  let ?r2 = "fold discard ds r1"
  have out: "active' = ne" "r' = fold (\<lambda>(k, g) r. snd (unregister_upstream k g r)) (removed_checks active ne) ?r2"
    using pub by (auto simp: publish_checks_def loop)
  have distinct: "distinct_keys (removed_checks active ne)"
    using cons by (auto simp: checks_consistent_def removed_checks_def distinct_map comp_def case_prod_unfold
        intro: inj_on_subset)
  have rem: "(k, g) \<in> set (removed_checks active ne) \<longleftrightarrow>
      (\<exists>e. map_of active k = Some e \<and> ae_registration e = g) \<and> map_of ne k = None" for k g
    using cons by (force simp: removed_checks_def checks_consistent_def)
  have "map_option ru_generation (map_of (hr_upstreams ?r2) k) = Some g" if "(k, g) \<in> set (removed_checks active ne)" for k g
    using that unfolding rem by (auto simp: discards r1(5))
  from unregisters [OF distinct this]
  have r': "map_of (hr_upstreams r') k = (if k \<in> keys (removed_checks active ne) then None else map_of (hr_upstreams ?r2) k) \<and>
      hr_next_generation r' = hr_next_generation ?r2 \<and>
      set (hr_signalled r') = set (hr_signalled ?r2) \<union> snd ` set (removed_checks active ne)" for k
    unfolding out by blast
  have gone: "k \<in> keys (removed_checks active ne) \<longleftrightarrow> map_of active k \<noteq> None \<and> map_of ne k = None" for k
    using rem [of k] by (force simp: image_iff)
  show "active' = assigned (hr_next_generation r) active desired" by (simp add: out r1)
  show "map_of (hr_upstreams r') k = map_option lift_check (map_of active' k)"
    using r' [of k] gone [of k] by (auto simp: discards r1(5) out(1) split: option.splits)
  show "hr_next_generation r' = hr_next_generation r + changed_count active desired"
    using r' by (simp add: discards r1)
  show "set (hr_signalled r') = set (hr_signalled r) \<union> dc_registration ` set (replaced_checks active desired) \<union>
      snd ` set (removed_checks active active')"
    using r' by (simp add: discards r1(2,3) out(1))
qed

lemma publish_lookup:
  assumes "checks_consistent active r" and "distinct (map hs_key desired)"
    and "publish_checks desired (active, r) = (active', r')" and "s \<in> set desired"
  shows "\<exists>e. map_of active' (hs_key s) = Some e \<and>
      ae_fingerprint e = hs_fingerprint s \<and> ae_service e = hs_service s \<and>
      ae_registration e < hr_next_generation r' \<and>
      (if unchanged_check active s then map_of active (hs_key s) = Some e
       else hr_next_generation r \<le> ae_registration e)"
proof -
  note eff = publish_effect [OF assms(1-3)]
  show ?thesis
    using assigned_lookup [OF assms(2,4), of "hr_next_generation r" active] assms(1)
    unfolding eff(1,3) checks_consistent_def
    by (cases "unchanged_check active s") (fastforce simp: unchanged_check_def trans_less_add1)+
qed

lemma publish_keys:
  assumes "checks_consistent active r" and "distinct (map hs_key desired)"
    and "publish_checks desired (active, r) = (active', r')"
  shows "keys active' = hs_key ` set desired"
    using keys_assigned [of "hr_next_generation r" active desired] unfolding publish_effect(1) [OF assms]
    by (metis list.set_map)

lemma publish_consistent:
  assumes "checks_consistent active r" and "distinct (map hs_key desired)"
    and "publish_checks desired (active, r) = (active', r')"
  shows "checks_consistent active' r'"
  unfolding checks_consistent_def
proof (intro conjI allI impI)
  show "distinct_keys active'" using assms(2) by (simp add: publish_effect(1) [OF assms] keys_assigned)
  show "map_of (hr_upstreams r') k = map_option lift_check (map_of active' k)" for k by (rule publish_effect(2) [OF assms])
  fix k e
  assume e: "map_of active' k = Some e"
  then have "k \<in> keys active'" by (metis map_of_None_keys option.distinct(1))
  then obtain s where "s \<in> set desired" "hs_key s = k" unfolding publish_keys [OF assms] by blast
  with publish_lookup [OF assms] e show "ae_registration e < hr_next_generation r'" by force
qed

text \<open>C15: Publishing a snapshot reconciles the health checks: afterwards the registry holds exactly the
  desired checks under the generations of the active set; a check whose fingerprint and load balancer
  are unchanged keeps its generation, every other one runs under a new generation for its own load
  balancer; and exactly the generations that were replaced or removed were told to stop.\<close>

theorem publish_reconciles:
  assumes "checks_consistent active r" and "distinct (map hs_key desired)"
    and "publish_checks desired (active, r) = (active', r')"
  shows "checks_consistent active' r' \<and> keys active' = hs_key ` set desired \<and>
    (\<forall>s \<in> set desired. \<exists>e. map_of active' (hs_key s) = Some e \<and>
      ae_fingerprint e = hs_fingerprint s \<and> ae_service e = hs_service s \<and>
      (if unchanged_check active s then map_of active (hs_key s) = Some e
       else hr_next_generation r \<le> ae_registration e)) \<and>
    set (hr_signalled r') = set (hr_signalled r) \<union>
      {ae_registration e |k e. map_of active k = Some e \<and> map_of active' k \<noteq> Some e}"
proof -
  note eff = publish_effect [OF assms]
  note lookup = publish_lookup [OF assms] and keys = publish_keys [OF assms] and cons = publish_consistent [OF assms]
  have replaced: "dc_registration ` set (replaced_checks active desired) =
      {ae_registration e |k e. map_of active k = Some e \<and> map_of active' k \<noteq> Some e \<and> map_of active' k \<noteq> None}"
  proof (intro set_eqI iffI)
    fix g assume "g \<in> dc_registration ` set (replaced_checks active desired)"
    then obtain s e where s: "s \<in> set desired" "\<not> unchanged_check active s" "map_of active (hs_key s) = Some e"
      "g = ae_registration e" by (auto simp: replaced_checks_def)
    have "ae_registration e < hr_next_generation r" using assms(1) s(3) by (auto simp: checks_consistent_def)
    then show "g \<in> {ae_registration e |k e. map_of active k = Some e \<and> map_of active' k \<noteq> Some e \<and> map_of active' k \<noteq> None}"
      using lookup [OF s(1)] s(2-4) by force
  next
    fix g assume "g \<in> {ae_registration e |k e. map_of active k = Some e \<and> map_of active' k \<noteq> Some e \<and> map_of active' k \<noteq> None}"
    then obtain k e where e: "g = ae_registration e" "map_of active k = Some e" "map_of active' k \<noteq> Some e"
      "k \<in> keys active'" by (auto simp: map_of_None_keys)
    then obtain s where s: "s \<in> set desired" "hs_key s = k" unfolding keys by blast
    then have "\<not> unchanged_check active s" using lookup [OF s(1)] e by auto
    then show "g \<in> dc_registration ` set (replaced_checks active desired)"
      using e s by (force simp: replaced_checks_def)
  qed
  have removed: "snd ` set (removed_checks active active') =
      {ae_registration e |k e. map_of active k = Some e \<and> map_of active' k = None}"
  proof -
    have "set (removed_checks active active') =
        {(k, ae_registration e) |k e. (k, e) \<in> set active \<and> map_of active' k = None}"
      by (auto simp: removed_checks_def)
    also have "\<dots> = {(k, ae_registration e) |k e. map_of active k = Some e \<and> map_of active' k = None}"
      using assms(1) unfolding checks_consistent_def by (metis (no_types, lifting) map_of_eq_Some_iff)
    finally have S: "set (removed_checks active active') =
        {(k, ae_registration e) |k e. map_of active k = Some e \<and> map_of active' k = None}" .
    have "snd ` {(k, f e) |k e. P k e} = {f e |k e. P k e}" for f :: "('a, 'b) active_check_entry \<Rightarrow> nat"
      and P :: "string \<Rightarrow> ('a, 'b) active_check_entry \<Rightarrow> bool" by force
    then show ?thesis unfolding S .
  qed
  have all: "{f e |k e. map_of a k = Some e \<and> map_of b k \<noteq> Some e} =
      {f e |k e. map_of a k = Some e \<and> map_of b k \<noteq> Some e \<and> map_of b k \<noteq> None} \<union>
      {f e |k e. map_of a k = Some e \<and> map_of b k = None}"
    for a b :: "('a, 'b) active_set" and f :: "('a, 'b) active_check_entry \<Rightarrow> nat"
    by (safe; metis option.distinct(1))
  show ?thesis
  proof (intro conjI ballI)
    show "\<exists>e. map_of active' (hs_key s) = Some e \<and> ae_fingerprint e = hs_fingerprint s \<and>
        ae_service e = hs_service s \<and>
        (if unchanged_check active s then map_of active (hs_key s) = Some e
         else hr_next_generation r \<le> ae_registration e)" if "s \<in> set desired" for s
      using lookup [OF that] by (elim exE conjE) (intro exI conjI)
  qed (simp_all only: cons keys eff(4) replaced removed all Un_assoc)
qed

text \<open>Two checks were active. The edited one and the new one run under the new generations 3 and 4, the
  dropped one and the replaced generation are told to stop.\<close>

lemma publish_reconciles_witness:
  "let active = [(''u1'', \<lparr>ae_fingerprint = (1::nat), ae_registration = 1, ae_service = (10::nat)\<rparr>),
                 (''u2'', \<lparr>ae_fingerprint = 2, ae_registration = 2, ae_service = 20\<rparr>)];
       r = \<lparr>hr_upstreams = [(''u1'', \<lparr>ru_generation = 1, ru_load_balancer = 10\<rparr>),
                             (''u2'', \<lparr>ru_generation = 2, ru_load_balancer = 20\<rparr>)],
             hr_updates = [], hr_next_generation = 3, hr_signalled = []\<rparr>;
       desired = [\<lparr>hs_key = ''u1'', hs_fingerprint = 1, hs_service = 11\<rparr>,
                  \<lparr>hs_key = ''u3'', hs_fingerprint = 3, hs_service = 30\<rparr>];
       (active', r') = publish_checks desired (active, r)
   in checks_consistent active' r' \<and> keys active' = {''u1'', ''u3''} \<and>
      map_of (hr_upstreams r') ''u1'' = Some \<lparr>ru_generation = 3, ru_load_balancer = 11\<rparr> \<and>
      set (hr_signalled r') = {1, 2}"
proof -
  let ?active = "[(''u1'', \<lparr>ae_fingerprint = (1::nat), ae_registration = 1, ae_service = (10::nat)\<rparr>),
                 (''u2'', \<lparr>ae_fingerprint = 2, ae_registration = 2, ae_service = 20\<rparr>)]"
  let ?r = "\<lparr>hr_upstreams = [(''u1'', \<lparr>ru_generation = 1, ru_load_balancer = 10\<rparr>),
                             (''u2'', \<lparr>ru_generation = 2, ru_load_balancer = (20::nat)\<rparr>)],
             hr_updates = [], hr_next_generation = 3, hr_signalled = []\<rparr>"
  let ?desired = "[\<lparr>hs_key = ''u1'', hs_fingerprint = (1::nat), hs_service = (11::nat)\<rparr>,
                  \<lparr>hs_key = ''u3'', hs_fingerprint = 3, hs_service = 30\<rparr>]"
  have cons: "checks_consistent ?active ?r"
    by (simp add: checks_consistent_def)
  note run = publish_reconciles [OF cons, of ?desired "fst (publish_checks ?desired (?active, ?r))"
      "snd (publish_checks ?desired (?active, ?r))"]
  have "checks_consistent (fst (publish_checks ?desired (?active, ?r))) (snd (publish_checks ?desired (?active, ?r)))"
    using run by simp
  moreover have "keys (fst (publish_checks ?desired (?active, ?r))) = {''u1'', ''u3''} \<and>
      map_of (hr_upstreams (snd (publish_checks ?desired (?active, ?r)))) ''u1'' =
        Some \<lparr>ru_generation = 3, ru_load_balancer = 11\<rparr> \<and>
      set (hr_signalled (snd (publish_checks ?desired (?active, ?r)))) = {1, 2}"
    by (simp add: publish_checks_def reconcile_spec_def register_upstream_def removed_checks_def discard_def
        unregister_upstream_def notify_def signal_def Let_def) blast
  ultimately show ?thesis by (simp add: Let_def case_prod_unfold)
qed

text \<open>The publication's own steps are steps of the registry's world, so what the executor is shown to
  do holds across publications.\<close>

lemma hc_step_registers:
  assumes "fold (reconcile_spec active) ss (ne, ds, hw_registry w) = (ne', ds', r')" and "hw_limbo w = ds"
  shows "hc_step\<^sup>*\<^sup>* w (w\<lparr>hw_registry := r', hw_limbo := ds'\<rparr>)"
  using assms
proof (induction ss arbitrary: ne ds w)
  case (Cons s ss)
  obtain ne1 ds1 r1 where s: "reconcile_spec active s (ne, ds, hw_registry w) = (ne1, ds1, r1)"
    by (cases "reconcile_spec active s (ne, ds, hw_registry w)") auto
  let ?w1 = "w\<lparr>hw_registry := r1, hw_limbo := ds1\<rparr>"
  obtain g d r2 where reg: "register_upstream (hs_key s) (hs_service s) (hw_registry w) = (g, d, r2)"
    by (cases "register_upstream (hs_key s) (hs_service s) (hw_registry w)") auto
  have "?w1 = w \<or> ?w1 = w\<lparr>hw_registry := r2, hw_limbo := hw_limbo w @ (case d of Some d \<Rightarrow> [d] | None \<Rightarrow> [])\<rparr>"
    using s Cons.prems(2) unfolding reconcile_spec_def by (auto simp: reg Let_def split: option.splits if_splits)
  then have "hc_step\<^sup>*\<^sup>* w ?w1" using hc_step.register [OF reg] by auto
  moreover have "hc_step\<^sup>*\<^sup>* ?w1 (?w1\<lparr>hw_registry := r', hw_limbo := ds'\<rparr>)"
    using Cons.prems(1) s by (intro Cons.IH [of ne1 ds1]) simp_all
  ultimately show ?case by (simp add: rtranclp_trans)
qed auto

lemma no_limbo:
  "hw_limbo w = [] \<Longrightarrow> w\<lparr>hw_limbo := [], hw_registry := r\<rparr> = w\<lparr>hw_registry := r\<rparr>"
  "hw_limbo w = [] \<Longrightarrow> w\<lparr>hw_limbo := []\<rparr> = w"
  by (cases w; simp)+

lemma hc_step_discards:
  "hw_limbo w = ds \<Longrightarrow> hc_step\<^sup>*\<^sup>* w (w\<lparr>hw_registry := fold discard ds (hw_registry w), hw_limbo := []\<rparr>)"
proof (induction ds arbitrary: w)
  case (Cons d ds)
  have "hc_step w (w\<lparr>hw_registry := discard d (hw_registry w), hw_limbo := ds\<rparr>)"
    using hc_step.discard [of d w] Cons.prems by simp
  then show ?case
    using Cons.IH [of "w\<lparr>hw_registry := discard d (hw_registry w), hw_limbo := ds\<rparr>"]
    by (simp add: converse_rtranclp_into_rtranclp)
qed (simp add: no_limbo)

lemma hc_step_unregisters:
  "hc_step\<^sup>*\<^sup>* w (w\<lparr>hw_registry := fold (\<lambda>(k, g) r. snd (unregister_upstream k g r)) ps (hw_registry w)\<rparr>)"
proof (induction ps arbitrary: w)
  case (Cons p ps)
  have "hc_step w (w\<lparr>hw_registry := snd (unregister_upstream (fst p) (snd p) (hw_registry w))\<rparr>)"
    by (rule hc_step.unregister)
  then show ?case
    using Cons.IH [of "w\<lparr>hw_registry := snd (unregister_upstream (fst p) (snd p) (hw_registry w))\<rparr>"]
    by (simp add: case_prod_unfold converse_rtranclp_into_rtranclp)
qed auto

lemma hc_step_publish:
  assumes "publish_checks desired (active, hw_registry w) = (active', r')" and "hw_limbo w = []"
  shows "hc_step\<^sup>*\<^sup>* w (w\<lparr>hw_registry := r'\<rparr>)"
proof -
  obtain ne ds r1 where loop: "fold (reconcile_spec active) desired ([], [], hw_registry w) = (ne, ds, r1)"
    by (cases "fold (reconcile_spec active) desired ([], [], hw_registry w)") auto
  let ?w1 = "w\<lparr>hw_registry := r1, hw_limbo := ds\<rparr>"
  let ?w2 = "w\<lparr>hw_registry := fold discard ds r1, hw_limbo := []\<rparr>"
  have "hc_step\<^sup>*\<^sup>* w ?w1" by (rule hc_step_registers [OF loop assms(2)])
  moreover have "hc_step\<^sup>*\<^sup>* ?w1 ?w2" using hc_step_discards [of ?w1 ds] by simp
  moreover have "hc_step\<^sup>*\<^sup>* ?w2 (w\<lparr>hw_registry := r'\<rparr>)"
    using hc_step_unregisters [of ?w2 "removed_checks active ne"] assms
    by (auto simp: publish_checks_def loop no_limbo)
  ultimately show ?thesis by (meson rtranclp_trans)
qed

lemma registered_checks:
  assumes "checks_consistent active r"
  shows "registered r = (\<lambda>(k, e). (k, ae_registration e)) ` set active"
proof -
  have "(k, g) \<in> registered r \<longleftrightarrow> (\<exists>e. map_of active k = Some e \<and> ae_registration e = g)" for k g
    using assms unfolding registered_iff checks_consistent_def by auto
  moreover have "(k, g) \<in> (\<lambda>(k, e). (k, ae_registration e)) ` set active \<longleftrightarrow>
      (\<exists>e. (k, e) \<in> set active \<and> ae_registration e = g)" for k g by force
  moreover have "(k, e) \<in> set active \<longleftrightarrow> map_of active k = Some e" for k e
    using assms by (simp add: checks_consistent_def)
  ultimately show ?thesis by (simp only: set_eq_iff split_paired_All) blast
qed

text \<open>C16: The executor follows the publications. In every interleaving of publications, deliveries, lost
  updates and tasks that end by themselves, a registered check is running or its start is queued, and
  a running task is registered or its stop is still to come; so once the updates of a publication are
  delivered, the running tasks are exactly the active checks of the published snapshot.\<close>

theorem executor_follows_publication:
  assumes reach: "hc_reachable w" and "hw_limbo w = []"
    and "checks_consistent active (hw_registry w)" and "distinct (map hs_key desired)"
    and pub: "publish_checks desired (active, hw_registry w) = (active', r')"
    and steps: "hc_step\<^sup>*\<^sup>* (w\<lparr>hw_registry := r'\<rparr>) w'" and phase: "hw_phase w' = Executing"
  shows "registered (hw_registry w') - added_pairs (hr_updates (hw_registry w')) \<subseteq> task_keys (hw_running w') \<and>
    task_keys (hw_running w') - (limbo_pairs (hw_limbo w') \<union> removed_pairs (hr_updates (hw_registry w')))
      \<subseteq> registered (hw_registry w') \<and>
    (if hw_registry w' = r'\<lparr>hr_updates := []\<rparr> \<and> hw_limbo w' = []
     then task_keys (hw_running w') = (\<lambda>(k, e). (k, ae_registration e)) ` set active' else True)"
proof -
  have "hc_reachable w'"
    using reach hc_step_publish [OF pub assms(2)] steps by (meson rtranclp_trans)
  note inv = hc_invD [OF hc_inv_reachable [OF this]]
  have "checks_consistent active' r'"
    using publish_effect [OF assms(3-5)] publish_consistent [OF assms(3-5)] by blast
  note reg = registered_checks [OF this]
  show ?thesis
  proof (intro conjI)
    show "registered (hw_registry w') - added_pairs (hr_updates (hw_registry w')) \<subseteq> task_keys (hw_running w')"
      using inv(2) [OF phase] by blast
    show "task_keys (hw_running w') - (limbo_pairs (hw_limbo w') \<union> removed_pairs (hr_updates (hw_registry w')))
        \<subseteq> registered (hw_registry w')" using inv(4) by blast
    show "if hw_registry w' = r'\<lparr>hr_updates := []\<rparr> \<and> hw_limbo w' = []
      then task_keys (hw_running w') = (\<lambda>(k, e). (k, ae_registration e)) ` set active' else True"
    proof (cases "hw_registry w' = r'\<lparr>hr_updates := []\<rparr> \<and> hw_limbo w' = []")
      case True
      then have "registered (hw_registry w') = registered r'" "added_pairs (hr_updates (hw_registry w')) = {}"
        "removed_pairs (hr_updates (hw_registry w')) = {}" "limbo_pairs (hw_limbo w') = {}" by simp_all
      then have "task_keys (hw_running w') = registered r'" using inv(2) [OF phase] inv(4) by blast
      with True reg show ?thesis by simp
    next
      case False
      then show ?thesis by (subst if_not_P) blast+
    qed
  qed
qed

text \<open>An executor that is running receives the start of the one published check.\<close>

lemma executor_follows_publication_witness:
  "let w = \<lparr>hw_registry = hc_registry_new, hw_limbo = [], hw_phase = Executing, hw_running = []\<rparr>;
       desired = [\<lparr>hs_key = ''u1'', hs_fingerprint = (1::nat), hs_service = (10::nat)\<rparr>];
       r' = snd (publish_checks desired ([], hw_registry w));
       w' = w\<lparr>hw_registry := r'\<lparr>hr_updates := []\<rparr>, hw_running := [((''u1'', 1), False)]\<rparr>
   in hc_reachable w \<and> hc_step\<^sup>*\<^sup>* (w\<lparr>hw_registry := r'\<rparr>) w' \<and> task_keys (hw_running w') = {(''u1'', 1)}"
proof -
  let ?w = "\<lparr>hw_registry = (hc_registry_new :: nat hc_registry), hw_limbo = [], hw_phase = Executing, hw_running = []\<rparr>"
  let ?desired = "[\<lparr>hs_key = ''u1'', hs_fingerprint = (1::nat), hs_service = (10::nat)\<rparr>]"
  let ?r = "snd (publish_checks ?desired ([], hw_registry ?w))"
  let ?w' = "?w\<lparr>hw_registry := ?r\<lparr>hr_updates := []\<rparr>, hw_running := [((''u1'', 1), False)]\<rparr>"
  have subscribe: "hc_step hc_world_new (?w\<lparr>hw_phase := Subscribed\<rparr>)"
    using hc_step.subscribe [of hc_world_new] by (simp add: hc_world_new_def hc_registry_new_def)
  have "hc_step (?w\<lparr>hw_phase := Subscribed\<rparr>) ?w"
    using hc_step.start [of "?w\<lparr>hw_phase := Subscribed\<rparr>"]
    by (simp add: start_all_def get_all_upstreams_def hc_registry_new_def)
  with subscribe have reach: "hc_reachable ?w" by simp
  have pub: "publish_checks ?desired ([], hw_registry ?w) =
      ([(''u1'', \<lparr>ae_fingerprint = 1, ae_registration = 1, ae_service = 10\<rparr>)], ?r)"
    by (simp add: publish_checks_def reconcile_spec_def register_upstream_def removed_checks_def hc_registry_new_def Let_def)
  have "hc_step (?w\<lparr>hw_registry := ?r\<rparr>) ?w'"
    using hc_step.receive [of "?w\<lparr>hw_registry := ?r\<rparr>" "Added ''u1'' 1" "[]"]
    by (simp add: publish_checks_def reconcile_spec_def register_upstream_def removed_checks_def hc_registry_new_def Let_def
        notify_def handle_update_def start_task_def get_upstream_for_start_def restart_finished_tasks_def)
  then have steps: "hc_step\<^sup>*\<^sup>* (?w\<lparr>hw_registry := ?r\<rparr>) ?w'" by blast
  have cons: "checks_consistent [] (hw_registry ?w)"
    by (simp add: checks_consistent_def hc_registry_new_def)
  from executor_follows_publication [OF reach _ cons _ pub steps]
  have "task_keys (hw_running ?w') = {(''u1'', 1)}" by simp
  with reach steps show ?thesis unfolding Let_def by blast
qed

end
