(* ===== verification/Text.thy ===== *)
theory Text
  imports Prelude
begin

text \<open>
  Text as bytes. A Rust \<open>str\<close> is UTF-8, here the list of its bytes; its characters are the maximal
  runs that start with a byte that is not a continuation byte. Slicing a \<open>str\<close> between two bytes of
  one character panics.
\<close>

section \<open>ASCII case and prefixes\<close>

definition ascii_lower :: "char \<Rightarrow> char" where
  "ascii_lower c = (if CHR ''A'' \<le> c \<and> c \<le> CHR ''Z'' then char_of ((of_char c :: nat) + 32) else c)"

definition to_ascii_lowercase :: "string \<Rightarrow> string" where
  "to_ascii_lowercase s = map ascii_lower s"

definition eq_ignore_ascii_case :: "string \<Rightarrow> string \<Rightarrow> bool" where
  "eq_ignore_ascii_case s t \<longleftrightarrow> to_ascii_lowercase s = to_ascii_lowercase t"

definition starts_with :: "string \<Rightarrow> string \<Rightarrow> bool" where
  "starts_with p s \<longleftrightarrow> take (length p) s = p"

definition strip_prefix :: "string \<Rightarrow> string \<Rightarrow> string option" where
  "strip_prefix p s = (if starts_with p s then Some (drop (length p) s) else None)"

definition split_once :: "char \<Rightarrow> string \<Rightarrow> (string \<times> string) option" where
  "split_once c s =
     (if c \<in> set s then Some (takeWhile (\<lambda>d. d \<noteq> c) s, tl (dropWhile (\<lambda>d. d \<noteq> c) s)) else None)"

definition ends_with :: "string \<Rightarrow> string \<Rightarrow> bool" where
  "ends_with p s \<longleftrightarrow> length p \<le> length s \<and> drop (length s - length p) s = p"

lemma split_once_Some: "split_once c s = Some (a, b) \<longleftrightarrow> s = a @ c # b \<and> c \<notin> set a"
proof
  assume "split_once c s = Some (a, b)"
  then have c: "c \<in> set s" and a: "a = takeWhile (\<lambda>d. d \<noteq> c) s" and b: "b = tl (dropWhile (\<lambda>d. d \<noteq> c) s)"
    by (auto simp: split_once_def split: if_splits)
  have "dropWhile (\<lambda>d. d \<noteq> c) s \<noteq> []" using c by (auto simp: dropWhile_eq_Nil_conv)
  then obtain x xs where x: "dropWhile (\<lambda>d. d \<noteq> c) s = x # xs" by (cases "dropWhile (\<lambda>d. d \<noteq> c) s") auto
  have "\<not> (x \<noteq> c)" using hd_dropWhile [of "\<lambda>d. d \<noteq> c" s] x by simp
  then have "s = a @ c # b" using takeWhile_dropWhile_id [of "\<lambda>d. d \<noteq> c" s] x a b by simp
  moreover have "c \<notin> set a" unfolding a using set_takeWhileD by metis
  ultimately show "s = a @ c # b \<and> c \<notin> set a" by (rule conjI)
next
  assume "s = a @ c # b \<and> c \<notin> set a"
  moreover from this have "takeWhile (\<lambda>d. d \<noteq> c) (a @ c # b) = a" "dropWhile (\<lambda>d. d \<noteq> c) (a @ c # b) = c # b"
    by (auto simp: takeWhile_append dropWhile_append)
  ultimately show "split_once c s = Some (a, b)" by (simp add: split_once_def)
qed

lemma length_to_ascii_lowercase [simp]: "length (to_ascii_lowercase s) = length s"
  by (simp add: to_ascii_lowercase_def)

lemma strip_prefix_Some: "strip_prefix p s = Some t \<longleftrightarrow> s = p @ t"
  by (auto simp: strip_prefix_def starts_with_def) (metis append_take_drop_id)

lemma strip_prefix_append [simp]: "strip_prefix p (p @ t) = Some t"
  by (simp add: strip_prefix_Some)

section \<open>Characters\<close>

definition is_continuation :: "char \<Rightarrow> bool" where
  "is_continuation c \<longleftrightarrow> 128 \<le> (of_char c :: nat) \<and> (of_char c :: nat) < 192"

definition is_ascii :: "char \<Rightarrow> bool" where
  "is_ascii c \<longleftrightarrow> (of_char c :: nat) < 128"

fun utf8_chars :: "string \<Rightarrow> string list" where
  "utf8_chars [] = []"
| "utf8_chars (c # cs) =
     (case utf8_chars cs of
        [] \<Rightarrow> [[c]]
      | ch # chs \<Rightarrow> if is_continuation (hd ch) then (c # ch) # chs else [c] # ch # chs)"

definition rev_chars :: "string \<Rightarrow> string" where
  "rev_chars s = concat (rev (utf8_chars s))"

definition utf8_ok :: "string \<Rightarrow> bool" where
  "utf8_ok s \<longleftrightarrow> s = [] \<or> \<not> is_continuation (hd s)"

definition char_ok :: "string \<Rightarrow> bool" where
  "char_ok ch \<longleftrightarrow> ch \<noteq> [] \<and> \<not> is_continuation (hd ch) \<and> (\<forall>c \<in> set (tl ch). is_continuation c)"

lemma concat_utf8_chars [simp]: "concat (utf8_chars s) = s"
  by (induction s) (auto split: list.splits)

lemma utf8_chars_shape:
  "utf8_chars s = ch # chs \<Longrightarrow> ch \<noteq> [] \<and> hd ch = hd s \<and> (\<forall>c \<in> set (tl ch). is_continuation c) \<and> (\<forall>d \<in> set chs. char_ok d)"
proof (induction s arbitrary: ch chs)
  case (Cons c cs)
  show ?case
  proof (cases "utf8_chars cs")
    case Nil
    then show ?thesis using Cons.prems by auto
  next
    case (Cons d ds)
    note IH = Cons.IH [OF this]
    show ?thesis
    proof (cases "is_continuation (hd d)")
      case True
      then have "ch = c # d" "chs = ds" using Cons.prems Cons by auto
      then show ?thesis using IH True by (cases d) auto
    next
      case False
      then have "ch = [c]" "chs = d # ds" using Cons.prems Cons by auto
      then show ?thesis using IH False by (auto simp: char_ok_def)
    qed
  qed
qed simp

lemma utf8_chars_ok: "utf8_ok s \<Longrightarrow> \<forall>ch \<in> set (utf8_chars s). char_ok ch"
proof (cases "utf8_chars s")
  case (Cons ch chs)
  then have "s \<noteq> []" by auto
  then show "utf8_ok s \<Longrightarrow> \<forall>ch \<in> set (utf8_chars s). char_ok ch"
    using utf8_chars_shape [OF Cons] Cons by (auto simp: utf8_ok_def char_ok_def)
qed simp

lemma utf8_chars_append:
  assumes "ch \<noteq> []" and "\<forall>c \<in> set (tl ch). is_continuation c"
    and "utf8_chars rest = [] \<or> \<not> is_continuation (hd (hd (utf8_chars rest)))"
  shows "utf8_chars (ch @ rest) = ch # utf8_chars rest"
  using assms(1,2)
proof (induction ch)
  case (Cons c cs)
  show ?case
  proof (cases cs)
    case Nil
    then show ?thesis using assms(3) by (auto split: list.splits)
  next
    case (Cons d ds)
    then have "utf8_chars (cs @ rest) = cs # utf8_chars rest" using Cons.IH Cons.prems by auto
    then show ?thesis using Cons Cons.prems by simp
  qed
qed simp

lemma utf8_chars_concat: "\<forall>ch \<in> set chs. char_ok ch \<Longrightarrow> utf8_chars (concat chs) = chs"
proof (induction chs)
  case (Cons ch chs)
  then have "utf8_chars (concat chs) = [] \<or> \<not> is_continuation (hd (hd (utf8_chars (concat chs))))"
    by (cases chs) (auto simp: char_ok_def)
  then show ?case using Cons utf8_chars_append [of ch "concat chs"] by (auto simp: char_ok_def)
qed simp

lemma rev_chars_rev [simp]: "utf8_ok s \<Longrightarrow> rev_chars (rev_chars s) = s"
  by (simp add: rev_chars_def utf8_chars_concat utf8_chars_ok)

lemma rev_chars_eq_iff: "utf8_ok s \<Longrightarrow> utf8_ok t \<Longrightarrow> rev_chars s = rev_chars t \<longleftrightarrow> s = t"
  by (metis rev_chars_rev)

lemma set_rev_chars [simp]: "set (rev_chars s) = set s"
proof -
  have "set (rev_chars s) = set (concat (utf8_chars s))" by (simp only: rev_chars_def set_concat set_rev)
  then show ?thesis by simp
qed

lemma ascii_lower_continuation [simp]: "is_continuation (ascii_lower c) = is_continuation c"
  by (auto simp: is_continuation_def ascii_lower_def less_eq_char_def)

lemma utf8_ok_lower [simp]: "utf8_ok (to_ascii_lowercase s) = utf8_ok s"
  by (cases s) (simp_all add: utf8_ok_def to_ascii_lowercase_def)

lemma ascii_not_continuation: "is_ascii c \<Longrightarrow> \<not> is_continuation c"
  by (simp add: is_ascii_def is_continuation_def)

lemma is_ascii_lower [simp]: "is_ascii (ascii_lower c) = is_ascii c"
  by (auto simp: is_ascii_def ascii_lower_def less_eq_char_def)

lemma ascii_utf8_ok: "\<forall>c \<in> set s. is_ascii c \<Longrightarrow> utf8_ok s"
  by (cases s) (auto simp: utf8_ok_def ascii_not_continuation)

section \<open>Validation\<close>

text \<open>One step of \<open>str::from_utf8\<close> on bytes that are not empty: the first character with its length, or
  the length of the broken sequence at the front, which may be cut off by the end of the input.\<close>

datatype utf8_step = Whole nat | Broken nat | Incomplete nat

definition byte :: "char \<Rightarrow> nat" where
  "byte c = of_char c"

definition second_ok :: "nat \<Rightarrow> nat \<Rightarrow> bool" where
  "second_ok b c \<longleftrightarrow>
     (if b = 0xE0 then 0xA0 \<le> c \<and> c \<le> 0xBF
      else if b = 0xED then 0x80 \<le> c \<and> c \<le> 0x9F
      else if b = 0xF0 then 0x90 \<le> c \<and> c \<le> 0xBF
      else if b = 0xF4 then 0x80 \<le> c \<and> c \<le> 0x8F
      else 0x80 \<le> c \<and> c \<le> 0xBF)"

fun rest_ok :: "nat \<Rightarrow> nat \<Rightarrow> string \<Rightarrow> utf8_step" where
  "rest_ok k 0 cs = Whole k"
| "rest_ok k (Suc n) [] = Incomplete k"
| "rest_ok k (Suc n) (c # cs) = (if is_continuation c then rest_ok (k + 1) n cs else Broken k)"

definition utf8_step :: "char \<Rightarrow> string \<Rightarrow> utf8_step" where
  "utf8_step b bs =
     (let n = (if byte b < 0x80 then 0
               else if 0xC2 \<le> byte b \<and> byte b \<le> 0xDF then 1
               else if 0xE0 \<le> byte b \<and> byte b \<le> 0xEF then 2
               else if 0xF0 \<le> byte b \<and> byte b \<le> 0xF4 then 3 else 4)
      in if n = 0 then Whole 1
         else if n = 4 then Broken 1
         else case bs of
                [] \<Rightarrow> Incomplete 1
              | c # cs \<Rightarrow> if second_ok (byte b) (byte c) then rest_ok 2 (n - 1) cs else Broken 1)"

fun step_length :: "utf8_step \<Rightarrow> nat" where
  "step_length (Whole n) = n"
| "step_length (Broken n) = n"
| "step_length (Incomplete n) = n"

lemma rest_ok_length: "k \<le> step_length (rest_ok k n cs) \<and> step_length (rest_ok k n cs) \<le> k + length cs"
  by (induction k n cs rule: rest_ok.induct) auto

lemma utf8_step_length: "0 < step_length (utf8_step b bs) \<and> step_length (utf8_step b bs) \<le> Suc (length bs)"
proof (cases bs)
  case (Cons c cs)
  have "0 < step_length (rest_ok 2 n cs) \<and> step_length (rest_ok 2 n cs) \<le> Suc (length bs)" for n
    using rest_ok_length [of 2 n cs] Cons by auto
  then show ?thesis using Cons by (simp add: utf8_step_def Let_def)
qed (simp add: utf8_step_def Let_def)

text \<open>The first error of the bytes, after \<open>i\<close> good ones, and the lossy conversion.\<close>

function utf8_error :: "nat \<Rightarrow> string \<Rightarrow> (nat \<times> utf8_step) option" where
  "utf8_error i [] = None"
| "utf8_error i (b # bs) =
     (case utf8_step b bs of Whole n \<Rightarrow> utf8_error (i + n) (drop n (b # bs)) | e \<Rightarrow> Some (i, e))"
  by pat_completeness auto
termination
proof (relation "measure (\<lambda>(_, s). length s)", goal_cases)
  case (2 i b bs n)
  then show ?case using utf8_step_length [of b bs] by simp
qed simp

function lossy :: "string \<Rightarrow> string" where
  "lossy [] = []"
| "lossy (b # bs) =
     (case utf8_step b bs of
        Whole n \<Rightarrow> take n (b # bs) @ lossy (drop n (b # bs))
      | e \<Rightarrow> [CHR 0xEF, CHR 0xBF, CHR 0xBD] @ lossy (drop (step_length e) (b # bs)))"
  by pat_completeness auto
termination
proof (relation "measure length", goal_cases)
  case (2 b bs n)
  then show ?case using utf8_step_length [of b bs] by simp
next
  case (3 b bs e)
  then show ?case using utf8_step_length [of b bs] by simp
next
  case (4 b bs e)
  then show ?case using utf8_step_length [of b bs] by simp
qed simp

declare utf8_error.simps(2) [simp del] lossy.simps(2) [simp del]

definition utf8_valid :: "string \<Rightarrow> bool" where
  "utf8_valid s \<longleftrightarrow> utf8_error 0 s = None"

fun utf8_error_display :: "nat \<times> utf8_step \<Rightarrow> string" where
  "utf8_error_display (i, Broken n) =
     ''invalid utf-8 sequence of '' @ nat_to_string n @ '' bytes from index '' @ nat_to_string i"
| "utf8_error_display (i, e) = ''incomplete utf-8 byte sequence from index '' @ nat_to_string i"

lemma rest_ok_append: "rest_ok k n cs = Whole m \<Longrightarrow> rest_ok k n (cs @ r) = Whole m"
  by (induction k n cs rule: rest_ok.induct) (auto split: if_splits)

lemma utf8_step_append: "utf8_step b bs = Whole n \<Longrightarrow> utf8_step b (bs @ r) = Whole n"
  by (cases bs) (auto simp: utf8_step_def Let_def rest_ok_append split: if_splits)

lemma utf8_error_shift: "(utf8_error i s = None) = (utf8_error j s = None)"
proof (induction i s arbitrary: j rule: utf8_error.induct)
  case (2 i b bs)
  show ?case
  proof (cases "utf8_step b bs")
    case (Whole n)
    show ?thesis unfolding utf8_error.simps(2) Whole utf8_step.case by (rule 2 [OF Whole])
  qed (simp_all add: utf8_error.simps(2))
qed simp

lemma utf8_valid_Cons: "utf8_valid (b # bs) \<longleftrightarrow> (\<exists>n. utf8_step b bs = Whole n \<and> utf8_valid (drop n (b # bs)))"
proof (cases "utf8_step b bs")
  case (Whole n)
  show ?thesis unfolding utf8_valid_def utf8_error.simps(2) [of 0] Whole utf8_step.case
    using utf8_error_shift [of "0 + n" "drop n (b # bs)" 0] by simp
qed (simp_all add: utf8_valid_def utf8_error.simps(2))

lemma utf8_valid_Nil [simp]: "utf8_valid []"
  by (simp add: utf8_valid_def)

text \<open>Valid text is a prefix that validation and the lossy conversion pass over.\<close>

lemma valid_prefix_induct [consumes 1, case_names Nil Char]:
  assumes "utf8_valid s" and "P []"
    and "\<And>b bs n. utf8_step b bs = Whole n \<Longrightarrow> utf8_valid (drop n (b # bs)) \<Longrightarrow> P (drop n (b # bs)) \<Longrightarrow> P (b # bs)"
  shows "P s"
  using assms(1)
proof (induction "length s" arbitrary: s rule: less_induct)
  case less
  show ?case
  proof (cases s)
    case (Cons b bs)
    then obtain n where n: "utf8_step b bs = Whole n" "utf8_valid (drop n (b # bs))" using less.prems utf8_valid_Cons by blast
    have "length (drop n (b # bs)) < length s" using utf8_step_length [of b bs] n(1) Cons by simp
    then show ?thesis unfolding Cons using assms(3) [OF n less.hyps [OF _ n(2)]] Cons by blast
  qed (simp add: assms(2))
qed

lemma whole_drop_append:
  assumes "utf8_step b bs = Whole n"
  shows "drop n (b # bs @ r) = drop n (b # bs) @ r" and "take n (b # bs @ r) = take n (b # bs)"
  using utf8_step_length [of b bs] assms by (cases n; simp)+

lemma utf8_valid_append: "utf8_valid p \<Longrightarrow> utf8_valid (p @ r) = utf8_valid r"
proof (induction rule: valid_prefix_induct)
  case (Char b bs n)
  then show ?case
    using utf8_step_append [OF Char.hyps(1), of r] whole_drop_append(1) [OF Char.hyps(1), of r]
    by (simp add: utf8_valid_Cons)
qed simp

lemma lossy_append: "utf8_valid p \<Longrightarrow> lossy (p @ r) = p @ lossy r"
proof (induction rule: valid_prefix_induct)
  case (Char b bs n)
  have "lossy (b # bs @ r) = take n (b # bs) @ lossy (drop n (b # bs) @ r)"
    unfolding lossy.simps utf8_step_append [OF Char.hyps(1)] utf8_step.case whole_drop_append [OF Char.hyps(1)] ..
  also have "\<dots> = take n (b # bs) @ drop n (b # bs) @ lossy r" unfolding Char.IH ..
  finally show ?case by (simp del: take_Suc_Cons drop_Suc_Cons flip: append_assoc)
qed simp

lemma lossy_valid: "utf8_valid s \<Longrightarrow> lossy s = s"
  using lossy_append [of s "[]"] by simp

lemma ascii_step: "is_ascii b \<Longrightarrow> utf8_step b bs = Whole 1"
  by (simp add: utf8_step_def is_ascii_def byte_def Let_def)

lemma ascii_valid: "\<forall>c \<in> set s. is_ascii c \<Longrightarrow> utf8_valid s"
  by (induction s) (auto simp: utf8_valid_Cons ascii_step)

lemma lossy_replaced: "\<not> utf8_valid s \<Longrightarrow> CHR 0xEF \<in> set (lossy s)"
proof (induction "length s" arbitrary: s rule: less_induct)
  case less
  then obtain b bs where s: "s = b # bs" by (cases s) simp_all
  show ?case
  proof (cases "utf8_step b bs")
    case (Whole n)
    then have "\<not> utf8_valid (drop n (b # bs))" using less.prems s utf8_valid_Cons by blast
    moreover have "length (drop n (b # bs)) < length s" using utf8_step_length [of b bs] Whole s by simp
    ultimately have "CHR 0xEF \<in> set (lossy (drop n (b # bs)))" by (rule less.hyps [rotated])
    then show ?thesis unfolding s lossy.simps Whole utf8_step.case by simp
  qed (simp_all add: s lossy.simps)
qed

lemma lossy_ascii: "lossy s = t \<Longrightarrow> \<forall>c \<in> set t. is_ascii c \<Longrightarrow> s = t"
proof (cases "utf8_valid s")
  case False
  assume "lossy s = t" "\<forall>c \<in> set t. is_ascii c"
  then have "is_ascii (CHR 0xEF)" using lossy_replaced [OF False] by blast
  then show ?thesis by (simp add: is_ascii_def)
qed (simp add: lossy_valid)

end
