(* ===== verification/Matcher.thy ===== *)
theory Matcher
  imports Text
begin

text \<open>
  Routers of the \<open>matchit\<close> crate, which is not part of the repository. What its pattern matching decides
  is the record \<open>matchit\<close>: given the inserted patterns in order, whether a further pattern can be
  inserted, which paths a pattern matches, and which of the inserted ones is taken for a path, with which
  parameters. A router is the list of its
  patterns with their values. The laws \<open>matchit_ok\<close> are the documented behaviour that the program
  relies on.
\<close>

type_synonym path_params = "(string \<times> string) list"

record matchit =
  mi_insert :: "string list \<Rightarrow> string \<Rightarrow> string option"
  mi_matches :: "string \<Rightarrow> string \<Rightarrow> bool"
  mi_at :: "string list \<Rightarrow> string \<Rightarrow> (string \<times> path_params) option"

type_synonym 'v router = "(string \<times> 'v) list"

definition router_at :: "matchit \<Rightarrow> 'v router \<Rightarrow> string \<Rightarrow> ('v \<times> path_params) option" where
  "router_at M r path =
     (case mi_at M (map fst r) path of
        None \<Rightarrow> None
      | Some (p, params) \<Rightarrow> map_option (\<lambda>v. (v, params)) (map_of r p))"

definition router_insert :: "matchit \<Rightarrow> string \<Rightarrow> 'v \<Rightarrow> 'v router \<Rightarrow> string + 'v router" where
  "router_insert M p v r =
     (case mi_insert M (map fst r) p of
        Some e \<Rightarrow> Inl e
      | None \<Rightarrow> Inr (r @ [(p, v)]))"

text \<open>\<open>at_mut\<close> gives access to the value of the pattern that the argument, read as a path, matches.\<close>

definition router_at_mut :: "matchit \<Rightarrow> 'v router \<Rightarrow> string \<Rightarrow> (string \<times> 'v) option" where
  "router_at_mut M r path =
     (case mi_at M (map fst r) path of
        None \<Rightarrow> None
      | Some (p, _) \<Rightarrow> map_option (\<lambda>v. (p, v)) (map_of r p))"

text \<open>A pattern without braces is static: it matches itself only, before any pattern with parameters,
  and it can be inserted once.\<close>

definition static_pattern :: "string \<Rightarrow> bool" where
  "static_pattern p \<longleftrightarrow> CHR ''{'' \<notin> set p \<and> CHR ''}'' \<notin> set p"

definition matchit_ok :: "matchit \<Rightarrow> bool" where
  "matchit_ok M \<longleftrightarrow>
     (\<forall>ps path. case mi_at M ps path of
          None \<Rightarrow> \<forall>p \<in> set ps. \<not> mi_matches M p path
        | Some (p, params) \<Rightarrow> p \<in> set ps \<and> mi_matches M p path \<and> (static_pattern p \<longrightarrow> params = [])) \<and>
     (\<forall>p path. static_pattern p \<longrightarrow> (mi_matches M p path \<longleftrightarrow> p = path)) \<and>
     (\<forall>ps p. p \<in> set ps \<longrightarrow> static_pattern p \<longrightarrow> mi_at M ps p = Some (p, [])) \<and>
     (\<forall>ps p. static_pattern p \<longrightarrow> (mi_insert M ps p = None \<longleftrightarrow> p \<notin> set ps))"

lemma matchit_at:
  assumes "matchit_ok M"
  shows "mi_at M ps path = None \<Longrightarrow> p \<in> set ps \<Longrightarrow> \<not> mi_matches M p path"
    and "mi_at M ps path = Some (q, params) \<Longrightarrow> q \<in> set ps \<and> mi_matches M q path"
proof -
  have at: "case mi_at M ps path of
      None \<Rightarrow> \<forall>p \<in> set ps. \<not> mi_matches M p path
    | Some (p, params) \<Rightarrow> p \<in> set ps \<and> mi_matches M p path \<and> (static_pattern p \<longrightarrow> params = [])"
    using assms unfolding matchit_ok_def by blast
  show "mi_at M ps path = None \<Longrightarrow> p \<in> set ps \<Longrightarrow> \<not> mi_matches M p path"
    and "mi_at M ps path = Some (q, params) \<Longrightarrow> q \<in> set ps \<and> mi_matches M q path"
    using at by auto
qed

lemma matchit_static: "matchit_ok M \<Longrightarrow> static_pattern p \<Longrightarrow> mi_matches M p path \<longleftrightarrow> p = path"
  unfolding matchit_ok_def by blast

lemma matchit_at_static:
  "matchit_ok M \<Longrightarrow> \<forall>p \<in> set ps. static_pattern p \<Longrightarrow>
   mi_at M ps path = (if path \<in> set ps then Some (path, []) else None)"
proof (cases "mi_at M ps path")
  case None
  assume M: "matchit_ok M" and ps: "\<forall>p \<in> set ps. static_pattern p"
  have "path \<notin> set ps"
  proof
    assume "path \<in> set ps"
    then have "mi_matches M path path" using matchit_static [OF M] ps by blast
    then show False using matchit_at(1) [OF M None \<open>path \<in> set ps\<close>] by simp
  qed
  then show ?thesis using None by simp
next
  case (Some a)
  assume M: "matchit_ok M" and ps: "\<forall>p \<in> set ps. static_pattern p"
  obtain q params where q: "a = (q, params)" by (cases a)
  have "q \<in> set ps" "mi_matches M q path" using matchit_at(2) [OF M] Some q by auto
  then have "q = path" using matchit_static [OF M] ps by blast
  moreover have "mi_at M ps q = Some (q, [])" using M ps \<open>q \<in> set ps\<close> unfolding matchit_ok_def by blast
  ultimately show ?thesis using \<open>q \<in> set ps\<close> by simp
qed

lemma router_at_static:
  assumes "matchit_ok M" and "\<forall>p \<in> keys r. static_pattern p"
  shows "router_at M r path = map_option (\<lambda>v. (v, [])) (map_of r path)"
proof -
  have "mi_at M (map fst r) path = (if path \<in> keys r then Some (path, []) else None)"
    using matchit_at_static [OF assms(1), of "map fst r" path] assms(2) by simp
  then show ?thesis
    using map_of_None_keys [of r path] by (cases "path \<in> keys r") (simp_all add: router_at_def)
qed

lemma router_insert_static:
  assumes "matchit_ok M" and "static_pattern p"
  shows "p \<notin> keys r \<Longrightarrow> router_insert M p v r = Inr (r @ [(p, v)])"
    and "p \<in> keys r \<Longrightarrow> \<exists>e. router_insert M p v r = Inl e"
proof -
  have "mi_insert M (map fst r) p = None \<longleftrightarrow> p \<notin> keys r"
    using assms unfolding matchit_ok_def by (metis list.set_map)
  then show "p \<notin> keys r \<Longrightarrow> router_insert M p v r = Inr (r @ [(p, v)])"
    and "p \<in> keys r \<Longrightarrow> \<exists>e. router_insert M p v r = Inl e"
    by (auto simp: router_insert_def split: option.splits)
qed

text \<open>A matcher of static patterns only, the smallest one with these laws.\<close>

definition static_matchit :: matchit where
  "static_matchit = \<lparr>mi_insert = (\<lambda>ps p. if p \<in> set ps then Some ''conflict'' else None),
     mi_matches = (\<lambda>p path. static_pattern p \<and> p = path),
     mi_at = (\<lambda>ps path. if path \<in> set ps \<and> static_pattern path then Some (path, []) else None)\<rparr>"

lemma static_matchit_ok: "matchit_ok static_matchit"
  by (auto simp: matchit_ok_def static_matchit_def)

end
