(* ===== verification/Request.thy ===== *)
theory Request
  imports Text Config_Model
begin

text \<open>
  What plugins and routing read of a request and remove from it (\<open>src/utils/request.rs\<close>,
  \<open>src/utils/apisix_vars.rs\<close>): query parameters, cookies, variables and templates over them.

  A header value is \<open>None\<close> when it is not visible text. The header map and the URI parser belong to
  the http crate: the record \<open>http_lib\<close> with the laws \<open>http_ok\<close>. Text is bytes, so the white space
  that \<open>trim\<close> removes is the list of its encodings.
\<close>

section \<open>Segments and white space\<close>

fun join :: "string \<Rightarrow> string list \<Rightarrow> string" where
  "join glue [] = []"
| "join glue [s] = s"
| "join glue (s # t # ss) = s @ glue @ join glue (t # ss)"

definition WHITESPACE :: "string list" where
  "WHITESPACE = [[CHR 0x09], [CHR 0x0A], [CHR 0x0B], [CHR 0x0C], [CHR 0x0D], [CHR 0x20],
     [CHR 0xC2, CHR 0x85], [CHR 0xC2, CHR 0xA0], [CHR 0xE1, CHR 0x9A, CHR 0x80]] @
     map (\<lambda>d. [CHR 0xE2, CHR 0x80, d]) [CHR 0x80, CHR 0x81, CHR 0x82, CHR 0x83, CHR 0x84, CHR 0x85, CHR 0x86,
       CHR 0x87, CHR 0x88, CHR 0x89, CHR 0x8A, CHR 0xA8, CHR 0xA9, CHR 0xAF] @
     [[CHR 0xE2, CHR 0x81, CHR 0x9F], [CHR 0xE3, CHR 0x80, CHR 0x80]]"

lemma find_whitespace:
  "find P WHITESPACE = Some w \<Longrightarrow> w \<in> set WHITESPACE \<and> P w \<and> w \<noteq> []"
proof -
  assume "find P WHITESPACE = Some w"
  then have "w \<in> set WHITESPACE \<and> P w" by (metis find_Some_iff nth_mem)
  moreover from this have "w \<noteq> []" by (auto simp: WHITESPACE_def)
  ultimately show ?thesis by blast
qed

function trim_start :: "string \<Rightarrow> string" where
  "trim_start s =
     (case find (\<lambda>w. starts_with w s) WHITESPACE of
        Some w \<Rightarrow> if s = [] then [] else trim_start (drop (length w) s)
      | None \<Rightarrow> s)"
  by auto
termination
  by (relation "measure length") (auto dest!: find_whitespace)

function trim_end :: "string \<Rightarrow> string" where
  "trim_end s =
     (case find (\<lambda>w. ends_with w s) WHITESPACE of
        Some w \<Rightarrow> if s = [] then [] else trim_end (take (length s - length w) s)
      | None \<Rightarrow> s)"
  by auto
termination
  by (relation "measure length") (auto dest!: find_whitespace)

declare trim_start.simps [simp del] trim_end.simps [simp del]

definition trim :: "string \<Rightarrow> string" where
  "trim s = trim_end (trim_start s)"

definition split_pairs :: "char \<Rightarrow> string \<Rightarrow> (string \<times> string) list" where
  "split_pairs sep s =
     map (\<lambda>seg. case split_once CHR ''='' seg of Some (n, v) \<Rightarrow> (trim n, trim v) | None \<Rightarrow> (seg, []))
       (filter (\<lambda>seg. seg \<noteq> []) (map trim (split_on sep s)))"

definition show_pair :: "string \<times> string \<Rightarrow> string" where
  "show_pair p = (let (n, v) = p in if v = [] then n else n @ ''='' @ v)"

definition pair_value :: "string \<Rightarrow> (string \<times> string) list \<Rightarrow> string option" where
  "pair_value name ps = map_option snd (find (\<lambda>(n, _). n = name) ps)"

definition drop_pairs :: "string \<Rightarrow> (string \<times> string) list \<Rightarrow> (string \<times> string) list" where
  "drop_pairs name ps = filter (\<lambda>(n, _). n \<noteq> name) ps"

section \<open>Requests\<close>

record uri =
  ur_scheme :: "string option"
  ur_host :: "string option"
  ur_path :: string
  ur_query :: "string option"

record 'h request =
  rh_method :: string
  rh_uri :: uri
  rh_headers :: 'h

text \<open>\<open>hl_get_all\<close> lists the values of a header name; \<open>hl_append\<close> parses a value and appends it.\<close>

record 'h http_lib =
  hl_get_all :: "'h \<Rightarrow> string \<Rightarrow> string option list"
  hl_remove :: "'h \<Rightarrow> string \<Rightarrow> 'h"
  hl_append :: "'h \<Rightarrow> string \<Rightarrow> string \<Rightarrow> string + 'h"
  hl_uri :: "string \<Rightarrow> string + uri"

definition COOKIE_HEADER :: string where "COOKIE_HEADER = ''cookie''"

definition HOST_HEADER :: string where "HOST_HEADER = ''host''"

definition get_query_value :: "'h request \<Rightarrow> string \<Rightarrow> string option" where
  "get_query_value r name =
     (case ur_query (rh_uri r) of None \<Rightarrow> None | Some q \<Rightarrow> pair_value name (split_pairs CHR ''&'' q))"

definition remove_query_from_header :: "'h http_lib \<Rightarrow> 'h request \<Rightarrow> string \<Rightarrow> string + 'h request" where
  "remove_query_from_header H r name =
     (case ur_query (rh_uri r) of
        None \<Rightarrow> Inr r
      | Some q \<Rightarrow>
          let query = join ''&'' (map show_pair (drop_pairs name (split_pairs CHR ''&'' q)));
              new_path = (if query \<noteq> [] then ur_path (rh_uri r) @ ''?'' @ query else ur_path (rh_uri r))
          in sum_bind (hl_uri H new_path) (\<lambda>u. Inr (r\<lparr>rh_uri := u\<rparr>)))"

definition get_req_header_value :: "'h http_lib \<Rightarrow> 'h request \<Rightarrow> string \<Rightarrow> string option" where
  "get_req_header_value H r key = (case hl_get_all H (rh_headers r) key of [] \<Rightarrow> None | v # _ \<Rightarrow> v)"

definition texts :: "string option list \<Rightarrow> string list" where
  "texts vs = map the (filter (\<lambda>v. v \<noteq> None) vs)"

definition cookie_pairs :: "'h http_lib \<Rightarrow> 'h request \<Rightarrow> (string \<times> string) list" where
  "cookie_pairs H r = concat (map (split_pairs CHR '';'') (texts (hl_get_all H (rh_headers r) COOKIE_HEADER)))"

definition get_cookie_value :: "'h http_lib \<Rightarrow> 'h request \<Rightarrow> string \<Rightarrow> string option" where
  "get_cookie_value H r name = pair_value name (cookie_pairs H r)"

fun append_all :: "'h http_lib \<Rightarrow> string \<Rightarrow> string list \<Rightarrow> 'h \<Rightarrow> string + 'h" where
  "append_all H name [] h = Inr h"
| "append_all H name (v # vs) h = sum_bind (hl_append H h name v) (append_all H name vs)"

text \<open>The error is the message of a validation error; on an error the code has dropped the header.\<close>

definition remove_cookie_from_header :: "'h http_lib \<Rightarrow> 'h request \<Rightarrow> string \<Rightarrow> string + 'h request" where
  "remove_cookie_from_header H r name =
     (let fields = hl_get_all H (rh_headers r) COOKIE_HEADER
      in if None \<in> set fields then Inl ''Cookie header is not valid text''
         else
           let retained = filter (\<lambda>v. v \<noteq> [])
                 (map (\<lambda>v. join ''; '' (map show_pair (drop_pairs name (split_pairs CHR '';'' v)))) (texts fields))
           in map_err (\<lambda>e. ''Failed to rebuild Cookie header: '' @ e)
                (sum_bind (append_all H COOKIE_HEADER retained (hl_remove H (rh_headers r) COOKIE_HEADER))
                  (\<lambda>h. Inr (r\<lparr>rh_headers := h\<rparr>))))"

section \<open>The host of a request\<close>

definition find_char :: "char \<Rightarrow> string \<Rightarrow> nat option" where
  "find_char c s = find (\<lambda>i. s ! i = c) [0..<length s]"

definition rfind_char :: "char \<Rightarrow> string \<Rightarrow> nat option" where
  "rfind_char c s = find (\<lambda>i. s ! i = c) (rev [0..<length s])"

definition get_request_host :: "'h http_lib \<Rightarrow> 'h request \<Rightarrow> string option" where
  "get_request_host H r =
     (if is_some_and (ur_host (rh_uri r)) (\<lambda>s. s \<noteq> []) then ur_host (rh_uri r)
      else case get_req_header_value H r HOST_HEADER of
        None \<Rightarrow> None
      | Some s \<Rightarrow>
          if starts_with ''['' s
          then (case find_char CHR '']'' s of
                  Some bracket_end \<Rightarrow> Some (take (bracket_end + 1) s)
                | None \<Rightarrow> Some s)
          else (case rfind_char CHR '':'' s of
                  Some colon_pos \<Rightarrow> Some (take colon_pos s)
                | None \<Rightarrow> Some s))"

section \<open>Variables\<close>

record 'h session =
  ss_request :: "'h request"
  ss_is_tls :: bool
  ss_client :: "(string \<times> nat) option"
  ss_server_addr :: "string option"

definition resolve_request_var :: "'h http_lib \<Rightarrow> 'h request \<Rightarrow> bool \<Rightarrow> string \<Rightarrow> string option" where
  "resolve_request_var H r is_tls name =
     (case strip_prefix ''arg_'' name of
        Some arg \<Rightarrow> Some (unwrap_or (get_query_value r arg) [])
      | None \<Rightarrow>
     (case strip_prefix ''http_'' name of
        Some header \<Rightarrow>
          Some (unwrap_or (get_req_header_value H r (map (\<lambda>c. if c = CHR ''_'' then CHR ''-'' else c) header)) [])
      | None \<Rightarrow>
          if name = ''uri'' then Some (ur_path (rh_uri r))
          else if name = ''request_uri''
          then Some (case ur_query (rh_uri r) of
                       Some q \<Rightarrow> ur_path (rh_uri r) @ ''?'' @ q | None \<Rightarrow> ur_path (rh_uri r))
          else if name = ''query_string'' then Some (unwrap_or (ur_query (rh_uri r)) [])
          else if name = ''host'' then Some (unwrap_or (get_request_host H r) [])
          else if name = ''scheme''
          then Some (unwrap_or (ur_scheme (rh_uri r)) (if is_tls then ''https'' else ''http''))
          else if name = ''request_method'' then Some (rh_method r)
          else None))"

definition resolve_var :: "'h http_lib \<Rightarrow> 'h session \<Rightarrow> string \<Rightarrow> string" where
  "resolve_var H s name =
     (if name = ''remote_addr'' then (case ss_client s of Some (ip, _) \<Rightarrow> ip | None \<Rightarrow> [])
      else if name = ''remote_port'' then (case ss_client s of Some (_, p) \<Rightarrow> nat_to_string p | None \<Rightarrow> [])
      else if name = ''server_addr'' then unwrap_or (ss_server_addr s) []
      else unwrap_or (resolve_request_var H (ss_request s) (ss_is_tls s) name) [])"

definition request_selector_key :: "'h http_lib \<Rightarrow> 'h session \<Rightarrow> upstream_hash_on \<Rightarrow> string \<Rightarrow> string" where
  "request_selector_key H s hash_on key =
     (case hash_on of
        VARS \<Rightarrow> resolve_var H s key
      | HEAD \<Rightarrow> unwrap_or (get_req_header_value H (ss_request s) key) []
      | COOKIE \<Rightarrow> unwrap_or (get_cookie_value H (ss_request s) key) [])"

fun match_apisix_vars :: "'h http_lib \<Rightarrow> 'h session \<Rightarrow> string list list \<Rightarrow> bool" where
  "match_apisix_vars H s [] \<longleftrightarrow> True"
| "match_apisix_vars H s ((var_name # op # val # _) # vars) \<longleftrightarrow>
     (let actual_val =
            (case strip_prefix ''http_'' var_name of
               Some header_name \<Rightarrow> request_selector_key H s HEAD header_name
             | None \<Rightarrow> request_selector_key H s VARS var_name)
      in if op = ''=='' then (if actual_val \<noteq> val then False else match_apisix_vars H s vars)
         else if op = ''!='' then (if actual_val = val then False else match_apisix_vars H s vars)
         else False)"
| "match_apisix_vars H s (_ # vars) \<longleftrightarrow> match_apisix_vars H s vars"

section \<open>Templates\<close>

definition name_char :: "char \<Rightarrow> bool" where
  "name_char c \<longleftrightarrow> is_ascii_alphanumeric c \<or> c = CHR ''_''"

text \<open>The name of a placeholder and the text after it, for the text after its dollar sign.\<close>

definition placeholder :: "string \<Rightarrow> string \<times> string" where
  "placeholder s =
     (case s of
        c # cs \<Rightarrow>
          if c = CHR ''{'' then (takeWhile (\<lambda>d. d \<noteq> CHR ''}'') cs, drop 1 (dropWhile (\<lambda>d. d \<noteq> CHR ''}'') cs))
          else (takeWhile name_char s, dropWhile name_char s)
      | [] \<Rightarrow> ([], []))"

lemma length_placeholder: "length (snd (placeholder s)) \<le> length s"
proof (cases s)
  case (Cons c cs)
  have "length (drop 1 (dropWhile (\<lambda>d. d \<noteq> CHR ''}'') cs)) \<le> length s" "length (dropWhile name_char s) \<le> length s"
    using length_dropWhile_le [of "\<lambda>d. d \<noteq> CHR ''}''" cs] length_dropWhile_le [of name_char s] Cons by simp_all
  then show ?thesis unfolding placeholder_def Cons list.case by (simp del: dropWhile.simps drop_Suc_Cons)
qed (simp add: placeholder_def)

definition emit :: "string \<Rightarrow> nat \<Rightarrow> string \<times> nat \<Rightarrow> string \<times> nat" where
  "emit s k r = (let (rendered, resolved) = r in (s @ rendered, k + resolved))"

function render_template_with_count :: "bool \<Rightarrow> (string \<Rightarrow> string) \<Rightarrow> string \<Rightarrow> string \<times> nat" where
  "render_template_with_count escape_dollar resolve [] = ([], 0)"
| "render_template_with_count escape_dollar resolve (c # cs) =
     (if escape_dollar \<and> c = CHR 0x5C
      then (case cs of
              d # ds \<Rightarrow>
                if d = CHR ''$'' then emit ''$'' 0 (render_template_with_count escape_dollar resolve ds)
                else emit [CHR 0x5C] 0 (render_template_with_count escape_dollar resolve cs)
            | [] \<Rightarrow> ([CHR 0x5C], 0))
      else if c \<noteq> CHR ''$'' then emit [c] 0 (render_template_with_count escape_dollar resolve cs)
      else let (name, rest) = placeholder cs
           in if name = [] then emit ''$'' 0 (render_template_with_count escape_dollar resolve rest)
              else emit (resolve name) (if resolve name \<noteq> [] then 1 else 0)
                     (render_template_with_count escape_dollar resolve rest))"
  by pat_completeness auto
termination
proof (relation "measure (\<lambda>(_, _, s). length s)", goal_cases)
  case (5 escape_dollar resolve c cs x name rest)
  then have "rest = snd (placeholder cs)" by (metis snd_conv)
  then show ?case using length_placeholder [of cs] by simp
next
  case (6 escape_dollar resolve c cs x name rest)
  then have "rest = snd (placeholder cs)" by (metis snd_conv)
  then show ?case using length_placeholder [of cs] by simp
qed auto

declare render_template_with_count.simps(2) [simp del]

definition render_template :: "bool \<Rightarrow> (string \<Rightarrow> string) \<Rightarrow> string \<Rightarrow> string" where
  "render_template escape_dollar resolve template = fst (render_template_with_count escape_dollar resolve template)"

definition render_apisix_template :: "(string \<Rightarrow> string) \<Rightarrow> string \<Rightarrow> string" where
  "render_apisix_template resolve template = render_template False resolve template"

definition render_apisix_request_template :: "'h http_lib \<Rightarrow> 'h session \<Rightarrow> string \<Rightarrow> string" where
  "render_apisix_request_template H s template = render_apisix_template (resolve_var H s) template"

definition apisix_key :: "'h http_lib \<Rightarrow> 'h session \<Rightarrow> string \<Rightarrow> bool \<Rightarrow> string" where
  "apisix_key H s key var_combination =
     (if var_combination
      then (let (rendered, resolved) = render_template_with_count False (resolve_var H s) key
            in if resolved > 0 then rendered else resolve_var H s ''remote_addr'')
      else (let value = resolve_var H s (dropWhile (\<lambda>c. c = CHR ''$'') key)
            in if value = [] then resolve_var H s ''remote_addr'' else value))"

section \<open>Trimmed text\<close>

definition clean :: "string \<Rightarrow> bool" where
  "clean s \<longleftrightarrow> (\<forall>w \<in> set WHITESPACE. \<not> starts_with w s \<and> \<not> ends_with w s)"

lemma find_whitespace_None: "find P WHITESPACE = None \<longleftrightarrow> (\<forall>w \<in> set WHITESPACE. \<not> P w)"
  by (auto simp: find_None_iff)

lemma trim_start_step:
  "(\<forall>w \<in> set WHITESPACE. \<not> starts_with w s) \<Longrightarrow> trim_start s = s"
  "find (\<lambda>w. starts_with w s) WHITESPACE = Some v \<Longrightarrow> trim_start s = (if s = [] then [] else trim_start (drop (length v) s))"
  by (subst trim_start.simps, simp add: find_whitespace_None [THEN iffD2])+

lemma trim_end_step:
  "(\<forall>w \<in> set WHITESPACE. \<not> ends_with w s) \<Longrightarrow> trim_end s = s"
  "find (\<lambda>w. ends_with w s) WHITESPACE = Some v \<Longrightarrow> trim_end s = (if s = [] then [] else trim_end (take (length s - length v) s))"
  by (subst trim_end.simps, simp add: find_whitespace_None [THEN iffD2])+

lemma trim_clean: "clean s \<Longrightarrow> trim s = s"
  by (simp add: clean_def trim_def trim_start_step(1) trim_end_step(1))

lemma whitespace_not_prefix_Nil: "w \<in> set WHITESPACE \<Longrightarrow> \<not> starts_with w [] \<and> \<not> ends_with w []"
  by (auto simp: WHITESPACE_def starts_with_def ends_with_def)

lemma trim_start_done: "w \<in> set WHITESPACE \<Longrightarrow> \<not> starts_with w (trim_start s)"
proof (induction s rule: trim_start.induct)
  case (1 s)
  show ?case
  proof (cases "find (\<lambda>w. starts_with w s) WHITESPACE")
    case None
    then have "\<forall>w \<in> set WHITESPACE. \<not> starts_with w s" by (simp only: find_whitespace_None)
    then show ?thesis using 1(2) by (simp add: trim_start_step(1))
  next
    case (Some v)
    then show ?thesis using 1 by (simp add: trim_start_step(2) whitespace_not_prefix_Nil)
  qed
qed

lemma starts_with_take: "starts_with w (take k s) \<Longrightarrow> starts_with w s"
proof -
  assume "starts_with w (take k s)"
  then obtain t where "take k s = w @ t" unfolding starts_with_def by (metis append_take_drop_id)
  then have "s = w @ t @ drop k s" by (metis append.assoc append_take_drop_id)
  then show ?thesis unfolding starts_with_def by (metis append_eq_conv_conj)
qed

lemma trim_end_done:
  "(\<And>w. w \<in> set WHITESPACE \<Longrightarrow> \<not> starts_with w s) \<Longrightarrow> clean (trim_end s)"
proof (induction s rule: trim_end.induct)
  case (1 s)
  show ?case
  proof (cases "find (\<lambda>w. ends_with w s) WHITESPACE")
    case None
    then have "\<forall>w \<in> set WHITESPACE. \<not> ends_with w s" by (simp only: find_whitespace_None)
    then show ?thesis using 1(2) by (simp add: trim_end_step(1) clean_def)
  next
    case (Some v)
    show ?thesis
    proof (cases "s = []")
      case True
      then show ?thesis using Some by (simp add: trim_end_step(2) clean_def whitespace_not_prefix_Nil)
    next
      case False
      have "\<not> starts_with w (take (length s - length v) s)" if "w \<in> set WHITESPACE" for w
        using 1(2) [OF that] starts_with_take by blast
      then have "clean (trim_end (take (length s - length v) s))" by (rule 1(1) [OF Some False])
      then show ?thesis using Some False by (simp only: trim_end_step(2) if_False)
    qed
  qed
qed

lemma clean_trim: "clean (trim s)"
  unfolding trim_def by (rule trim_end_done) (rule trim_start_done)

lemma set_trim: "set (trim s) \<subseteq> set s"
proof -
  have "set (trim_start s) \<subseteq> set s"
  proof (induction s rule: trim_start.induct)
    case (1 s)
    then show ?case
      by (subst trim_start.simps) (auto split: option.splits dest: in_set_dropD)
  qed
  moreover have "set (trim_end t) \<subseteq> set t" for t
  proof (induction t rule: trim_end.induct)
    case (1 s)
    then show ?case
      by (subst trim_end.simps) (auto split: option.splits dest: in_set_takeD)
  qed
  ultimately show ?thesis unfolding trim_def by blast
qed

lemma trim_space: "clean s \<Longrightarrow> trim ('' '' @ s) = s"
proof -
  assume s: "clean s"
  have "w = '' ''" if "w \<in> set WHITESPACE" "starts_with w (CHR '' '' # s)" for w
    using that by (auto simp: WHITESPACE_def starts_with_def)
  moreover have "'' '' \<in> set WHITESPACE" "starts_with '' '' (CHR '' '' # s)"
    by (simp_all add: WHITESPACE_def starts_with_def)
  ultimately have "find (\<lambda>w. starts_with w (CHR '' '' # s)) WHITESPACE = Some '' ''"
    by (metis find_whitespace find_whitespace_None not_Some_eq)
  then have "trim_start (CHR '' '' # s) = trim_start s" by (simp add: trim_start_step(2))
  then show ?thesis using trim_clean [OF s] by (simp add: trim_def)
qed

lemma clean_pair:
  assumes "clean n" and "clean v"
  shows "clean (n @ CHR ''='' # v)"
  unfolding clean_def
proof (intro ballI conjI)
  fix w assume w: "w \<in> set WHITESPACE"
  then have eq: "CHR ''='' \<notin> set w" by (auto simp: WHITESPACE_def)
  show "\<not> starts_with w (n @ CHR ''='' # v)"
  proof
    assume *: "starts_with w (n @ CHR ''='' # v)"
    show False
    proof (cases "length w \<le> length n")
      case True
      then show False using * w assms(1) by (simp add: clean_def starts_with_def)
    next
      case False
      then have "w = n @ take (length w - length n) (CHR ''='' # v)" using * by (simp add: starts_with_def)
      moreover have "CHR ''='' \<in> set (take (length w - length n) (CHR ''='' # v))"
        using False by (cases "length w - length n") auto
      ultimately show False using eq by (metis in_set_conv_decomp append.assoc Un_iff set_append)
    qed
  qed
  show "\<not> ends_with w (n @ CHR ''='' # v)"
  proof
    assume *: "ends_with w (n @ CHR ''='' # v)"
    let ?k = "length n + Suc (length v) - length w"
    show False
    proof (cases "length w \<le> length v")
      case True
      then have "drop ?k (n @ CHR ''='' # v) = drop (length v - length w) v"
        by (simp add: drop_Cons' Suc_diff_le)
      then show False using * w assms(2) True by (simp add: clean_def ends_with_def)
    next
      case False
      then have "CHR ''='' \<in> set (drop (?k - length n) (CHR ''='' # v))" by (cases "?k - length n") auto
      moreover have "drop ?k (n @ CHR ''='' # v) = w" using * by (simp add: ends_with_def)
      ultimately show False using eq by (metis UnCI drop_append set_append)
    qed
  qed
qed

section \<open>Printing and reading pairs\<close>

lemma split_on_nonempty [simp]: "split_on sep s \<noteq> []"
  by (induction s) (auto split: list.splits)

lemma set_split_on: "seg \<in> set (split_on sep s) \<Longrightarrow> sep \<notin> set seg \<and> set seg \<subseteq> set s"
proof (induction s arbitrary: seg)
  case (Cons c s)
  show ?case
  proof (cases "split_on sep s")
    case (Cons x xs)
    then have IH: "sep \<notin> set t \<and> set t \<subseteq> set s" if "t \<in> set (x # xs)" for t using Cons.IH that by simp
    show ?thesis using Cons Cons.prems IH by (fastforce split: if_splits)
  qed simp
qed simp

lemma split_on_plain: "sep \<notin> set s \<Longrightarrow> split_on sep s = [s]"
  by (induction s) auto

lemma split_on_append: "sep \<notin> set s \<Longrightarrow> split_on sep (s @ sep # t) = s # split_on sep t"
  by (induction s) auto

lemma split_on_prefix:
  "sep \<notin> set p \<Longrightarrow> split_on sep (p @ s) = (p @ hd (split_on sep s)) # tl (split_on sep s)"
  by (induction p) (auto simp: neq_Nil_conv split: list.splits)

lemma split_join:
  assumes "sep \<notin> set ws" and "sep \<notin> set s" and "\<forall>s \<in> set ss. sep \<notin> set s"
  shows "split_on sep (join (sep # ws) (s # ss)) = s # map (\<lambda>t. ws @ t) ss"
  using assms(2,3)
proof (induction ss arbitrary: s)
  case (Cons t ts)
  then have "sep \<notin> set t" "\<forall>s \<in> set ts. sep \<notin> set s" by auto
  then have t: "split_on sep (join (sep # ws) (t # ts)) = t # map (\<lambda>t. ws @ t) ts"
    using Cons.IH [of t] by simp
  show ?case
    using Cons.prems t by (auto simp: split_on_append split_on_prefix [OF assms(1)])
qed (simp add: split_on_plain)

definition pair_ok :: "char \<Rightarrow> string \<times> string \<Rightarrow> bool" where
  "pair_ok sep p \<longleftrightarrow> (let (n, v) = p in clean n \<and> clean v \<and> sep \<notin> set n \<and> sep \<notin> set v \<and> CHR ''='' \<notin> set n)"

lemma split_once_set: "split_once c s = Some (n, v) \<Longrightarrow> c \<notin> set n \<and> set n \<subseteq> set s \<and> set v \<subseteq> set s"
  by (auto simp: split_once_def dest: set_takeWhileD split: if_splits)
    (metis list.sel(2) list.set_sel(2) set_dropWhileD)

lemma split_pairs_ok: "p \<in> set (split_pairs sep s) \<Longrightarrow> pair_ok sep p"
proof -
  assume "p \<in> set (split_pairs sep s)"
  then obtain seg where seg: "seg \<in> set (split_on sep s)"
      "p = (case split_once CHR ''='' (trim seg) of Some (n, v) \<Rightarrow> (trim n, trim v) | None \<Rightarrow> (trim seg, []))"
    by (auto simp: split_pairs_def)
  have no: "sep \<notin> set (trim seg)" using set_split_on [OF seg(1)] set_trim by blast
  have nil: "clean []" by (simp add: clean_def whitespace_not_prefix_Nil)
  show ?thesis
  proof (cases "split_once CHR ''='' (trim seg)")
    case None
    then have "CHR ''='' \<notin> set (trim seg)" by (auto simp: split_once_def split: if_splits)
    then show ?thesis using seg(2) no None by (simp add: pair_ok_def clean_trim nil)
  next
    case (Some a)
    obtain n v where a: "a = (n, v)" by (cases a)
    have "CHR ''='' \<notin> set n" "set n \<subseteq> set (trim seg)" "set v \<subseteq> set (trim seg)"
      using split_once_set Some a by blast+
    then show ?thesis using seg(2) no Some a set_trim by (auto simp: pair_ok_def clean_trim)
  qed
qed

lemma show_pair_clean:
  assumes "pair_ok sep p" and "sep \<noteq> CHR ''=''"
  shows "clean (show_pair p)" and "sep \<notin> set (show_pair p)"
  using assms clean_pair [of "fst p" "snd p"]
  by (auto simp: show_pair_def pair_ok_def Let_def split: prod.splits)

lemma read_pair:
  assumes "pair_ok sep p"
  shows "(case split_once CHR ''='' (show_pair p) of Some (n, v) \<Rightarrow> (trim n, trim v) | None \<Rightarrow> (show_pair p, [])) = p"
  using assms
  by (cases p) (auto simp: show_pair_def split_once_def pair_ok_def trim_clean Let_def takeWhile_append dropWhile_append)

definition visible_pairs :: "(string \<times> string) list \<Rightarrow> (string \<times> string) list" where
  "visible_pairs ps = filter (\<lambda>p. p \<noteq> ([], [])) ps"

lemma show_pair_Nil: "show_pair p = [] \<longleftrightarrow> p = ([], [])"
  by (cases p) (auto simp: show_pair_def)

lemma trim_glued: "ws = [] \<or> ws = '' '' \<Longrightarrow> clean s \<Longrightarrow> trim (ws @ s) = s"
  using trim_space trim_clean by auto

lemma pairs_round_trip:
  assumes ok: "\<forall>p \<in> set ps. pair_ok sep p" and sep: "sep \<noteq> CHR ''=''" "ws = [] \<or> ws = '' ''" "sep \<notin> set ws"
  shows "split_pairs sep (join (sep # ws) (map show_pair ps)) = visible_pairs ps"
proof (cases ps)
  case Nil
  have "trim [] = []" by (rule trim_clean) (simp add: clean_def whitespace_not_prefix_Nil)
  then show ?thesis using Nil by (simp add: split_pairs_def visible_pairs_def)
next
  case (Cons p qs)
  have shown: "\<forall>p \<in> set ps. clean (show_pair p) \<and> sep \<notin> set (show_pair p)"
    using ok show_pair_clean sep(1) by blast
  have "split_on sep (join (sep # ws) (map show_pair ps)) = show_pair p # map (\<lambda>t. ws @ t) (map show_pair qs)"
    using shown Cons by (simp add: split_join [OF sep(3)])
  then have "map trim (split_on sep (join (sep # ws) (map show_pair ps))) = map show_pair ps"
    using shown Cons by (auto simp: trim_glued [OF sep(2)] trim_clean)
  then have "split_pairs sep (join (sep # ws) (map show_pair ps)) =
      map (\<lambda>seg. case split_once CHR ''='' seg of Some (n, v) \<Rightarrow> (trim n, trim v) | None \<Rightarrow> (seg, []))
        (map show_pair (visible_pairs ps))"
    by (simp add: split_pairs_def filter_map comp_def visible_pairs_def show_pair_Nil)
  also have "\<dots> = map (\<lambda>p. p) (visible_pairs ps)"
    unfolding map_map comp_def using ok read_pair by (intro map_cong) (auto simp: visible_pairs_def)
  finally show ?thesis by simp
qed

section \<open>What removal keeps\<close>

text \<open>The documented behaviour of the http crate that the code relies on. Header names are compared in
  lower case, as the crate keeps them.\<close>

definition headers_ok :: "'h http_lib \<Rightarrow> bool" where
  "headers_ok H \<longleftrightarrow>
     (\<forall>h k. hl_get_all H (hl_remove H h k) k = []) \<and>
     (\<forall>h k j. to_ascii_lowercase j \<noteq> to_ascii_lowercase k \<longrightarrow> hl_get_all H (hl_remove H h k) j = hl_get_all H h j) \<and>
     (\<forall>h k v h'. hl_append H h k v = Inr h' \<longrightarrow> hl_get_all H h' k = hl_get_all H h k @ [Some v]) \<and>
     (\<forall>h k v h' j. hl_append H h k v = Inr h' \<longrightarrow> to_ascii_lowercase j \<noteq> to_ascii_lowercase k \<longrightarrow>
        hl_get_all H h' j = hl_get_all H h j)"

definition uris_ok :: "'h http_lib \<Rightarrow> bool" where
  "uris_ok H \<longleftrightarrow>
     (\<forall>path u. CHR ''?'' \<notin> set path \<longrightarrow> CHR ''#'' \<notin> set path \<longrightarrow> hl_uri H path = Inr u \<longrightarrow>
        ur_path u = path \<and> ur_query u = None) \<and>
     (\<forall>path q u. CHR ''?'' \<notin> set path \<longrightarrow> CHR ''#'' \<notin> set (path @ q) \<longrightarrow> hl_uri H (path @ ''?'' @ q) = Inr u \<longrightarrow>
        ur_path u = path \<and> ur_query u = Some q)"

lemma uris_okD:
  assumes "uris_ok H" and "CHR ''?'' \<notin> set path"
  shows "CHR ''#'' \<notin> set path \<Longrightarrow> hl_uri H path = Inr u \<Longrightarrow> ur_path u = path \<and> ur_query u = None"
    and "CHR ''#'' \<notin> set (path @ q) \<Longrightarrow> hl_uri H (path @ ''?'' @ q) = Inr u \<Longrightarrow> ur_path u = path \<and> ur_query u = Some q"
  using assms unfolding uris_ok_def by blast+

lemma pair_value_visible: "name \<noteq> [] \<Longrightarrow> pair_value name (visible_pairs ps) = pair_value name ps"
  by (induction ps) (auto simp: visible_pairs_def pair_value_def)

lemma pair_value_dropped:
  "pair_value name (drop_pairs name ps) = None"
  "other \<noteq> name \<Longrightarrow> pair_value other (drop_pairs name ps) = pair_value other ps"
  by (induction ps) (auto simp: drop_pairs_def pair_value_def)

lemma pair_value_Nil [simp]: "pair_value name [] = None"
  by (simp add: pair_value_def)

lemma drop_pairs_ok: "\<forall>p \<in> set (drop_pairs name (split_pairs sep s)). pair_ok sep p"
  using split_pairs_ok by (auto simp: drop_pairs_def)

lemma visible_none: "map show_pair ps = [] \<Longrightarrow> visible_pairs ps = []" by (simp add: visible_pairs_def)

lemma join_Nil: "(\<forall>s \<in> set ss. s = []) \<and> length ss \<le> 1 \<Longrightarrow> join glue ss = []"
  by (cases ss) (auto simp: le_Suc_eq)

lemma kept_pairs:
  assumes "sep \<noteq> CHR ''=''" and "ws = [] \<or> ws = '' ''" and "sep \<notin> set ws"
  shows "split_pairs sep (join (sep # ws) (map show_pair (drop_pairs name (split_pairs sep s)))) =
    visible_pairs (drop_pairs name (split_pairs sep s))"
  by (rule pairs_round_trip [OF drop_pairs_ok assms])

lemma no_pairs: "split_pairs sep [] = []"
proof -
  have "trim [] = []" by (rule trim_clean) (simp add: clean_def whitespace_not_prefix_Nil)
  then show ?thesis by (simp add: split_pairs_def)
qed

lemma set_join: "set (join glue ss) \<subseteq> set glue \<union> \<Union> (set ` set ss)"
  by (induction glue ss rule: join.induct) auto

lemma set_show_pair: "p \<in> set (split_pairs sep s) \<Longrightarrow> set (show_pair p) \<subseteq> insert CHR ''='' (set s)"
proof -
  assume "p \<in> set (split_pairs sep s)"
  then obtain seg where seg: "seg \<in> set (split_on sep s)"
      "p = (case split_once CHR ''='' (trim seg) of Some (n, v) \<Rightarrow> (trim n, trim v) | None \<Rightarrow> (trim seg, []))"
    by (auto simp: split_pairs_def)
  have sub: "set (trim seg) \<subseteq> set s" using set_split_on [OF seg(1)] set_trim by blast
  show ?thesis
  proof (cases "split_once CHR ''='' (trim seg)")
    case None
    then show ?thesis using seg(2) sub by (auto simp: show_pair_def)
  next
    case (Some a)
    obtain n v where a: "a = (n, v)" by (cases a)
    have "set n \<subseteq> set s" "set v \<subseteq> set s" using split_once_set Some a sub by blast+
    then have "set (trim n) \<subseteq> set s" "set (trim v) \<subseteq> set s" using set_trim by blast+
    then show ?thesis using seg(2) Some a by (auto simp: show_pair_def)
  qed
qed

text \<open>Removing a query parameter from a request removes all its occurrences and no other parameter:
  every other name still has the value it had, and the path is the same.\<close>

theorem remove_query_exact:
  assumes H: "uris_ok H" and r: "ur_query (rh_uri r) = Some q" "CHR ''?'' \<notin> set (ur_path (rh_uri r))"
      "CHR ''#'' \<notin> set (ur_path (rh_uri r) @ q)"
    and "remove_query_from_header H r name = Inr r'"
  shows "get_query_value r' name = None \<and> ur_path (rh_uri r') = ur_path (rh_uri r) \<and>
    rh_headers r' = rh_headers r \<and> rh_method r' = rh_method r \<and>
    (other \<noteq> name \<and> other \<noteq> [] \<longrightarrow> get_query_value r' other = get_query_value r other)"
proof -
  let ?ps = "drop_pairs name (split_pairs CHR ''&'' q)"
  let ?query = "join ''&'' (map show_pair ?ps)" and ?path = "ur_path (rh_uri r)"
  have kept: "split_pairs CHR ''&'' ?query = visible_pairs ?ps" by (rule kept_pairs) simp_all
  have "set (show_pair p) \<subseteq> insert CHR ''='' (set q)" if "p \<in> set ?ps" for p
  proof -
    have "p \<in> set (split_pairs CHR ''&'' q)" using that by (auto simp: drop_pairs_def)
    then show ?thesis by (rule set_show_pair)
  qed
  then have "set ?query \<subseteq> {CHR ''&'', CHR ''=''} \<union> set q" using set_join [of "''&''" "map show_pair ?ps"] by fastforce
  then have hash: "CHR ''#'' \<notin> set (?path @ ?query)" using r(3) by auto
  obtain u where u: "hl_uri H (if ?query \<noteq> [] then ?path @ ''?'' @ ?query else ?path) = Inr u" "r' = r\<lparr>rh_uri := u\<rparr>"
    using assms(5) r(1) by (auto simp: remove_query_from_header_def Let_def)
  have "ur_path u = ?path \<and> (case ur_query u of None \<Rightarrow> [] | Some q \<Rightarrow> split_pairs CHR ''&'' q) = visible_pairs ?ps"
  proof (cases "?query = []")
    case True
    then have "hl_uri H ?path = Inr u" using u(1) by simp
    then have "ur_path u = ?path \<and> ur_query u = None" using uris_okD(1) [OF H r(2)] hash by simp
    then show ?thesis using kept True no_pairs by simp
  next
    case False
    then have "hl_uri H (?path @ ''?'' @ ?query) = Inr u" using u(1) by simp
    then have "ur_path u = ?path \<and> ur_query u = Some ?query" by (rule uris_okD(2) [OF H r(2) hash])
    then show ?thesis using kept by simp
  qed
  moreover from this have "get_query_value r' n = pair_value n (visible_pairs ?ps)" for n
    by (cases "ur_query u") (simp_all add: get_query_value_def u(2))
  moreover have "pair_value name (visible_pairs ?ps) = None"
    by (auto simp: pair_value_def visible_pairs_def drop_pairs_def find_None_iff)
  ultimately show ?thesis
    by (simp add: u(2) pair_value_visible pair_value_dropped get_query_value_def r(1))
qed

lemma append_all_get:
  assumes "headers_ok H" and "append_all H k vs h = Inr h'"
  shows "hl_get_all H h' k = hl_get_all H h k @ map Some vs"
    and "to_ascii_lowercase j \<noteq> to_ascii_lowercase k \<Longrightarrow> hl_get_all H h' j = hl_get_all H h j"
proof -
  have "hl_get_all H h' k = hl_get_all H h k @ map Some vs \<and>
      (to_ascii_lowercase j \<noteq> to_ascii_lowercase k \<longrightarrow> hl_get_all H h' j = hl_get_all H h j)"
    using assms(2)
  proof (induction vs arbitrary: h)
    case (Cons v vs)
    then obtain h1 where h1: "hl_append H h k v = Inr h1" "append_all H k vs h1 = Inr h'" by auto
    have "hl_get_all H h1 k = hl_get_all H h k @ [Some v]"
      and "to_ascii_lowercase j \<noteq> to_ascii_lowercase k \<Longrightarrow> hl_get_all H h1 j = hl_get_all H h j"
      using assms(1) h1(1) unfolding headers_ok_def by blast+
    then show ?case using Cons.IH [OF h1(2)] by simp
  qed simp
  then show "hl_get_all H h' k = hl_get_all H h k @ map Some vs"
    and "to_ascii_lowercase j \<noteq> to_ascii_lowercase k \<Longrightarrow> hl_get_all H h' j = hl_get_all H h j" by blast+
qed

lemma texts_Some [simp]: "texts (map Some vs) = vs"
  by (simp add: texts_def comp_def)

lemma pair_value_append: "pair_value n (ps @ qs) = (case pair_value n ps of None \<Rightarrow> pair_value n qs | Some v \<Rightarrow> Some v)"
  by (induction ps) (auto simp: pair_value_def)

lemma pair_value_kept:
  "pair_value n (split_pairs CHR '';'' (join ''; '' (map show_pair (drop_pairs name (split_pairs CHR '';'' v))))) =
     pair_value n (visible_pairs (drop_pairs name (split_pairs CHR '';'' v)))"
proof -
  have "split_pairs CHR '';'' (join (CHR '';'' # '' '') (map show_pair (drop_pairs name (split_pairs CHR '';'' v)))) =
      visible_pairs (drop_pairs name (split_pairs CHR '';'' v))" by (rule kept_pairs) simp_all
  then show ?thesis by simp
qed

lemma fields_kept:
  "pair_value n (concat (map (split_pairs CHR '';'') (filter (\<lambda>v. v \<noteq> [])
     (map (\<lambda>v. join ''; '' (map show_pair (drop_pairs name (split_pairs CHR '';'' v)))) vs)))) =
   pair_value n (visible_pairs (drop_pairs name (concat (map (split_pairs CHR '';'') vs))))"
proof (induction vs)
  case (Cons v vs)
  let ?field = "join ''; '' (map show_pair (drop_pairs name (split_pairs CHR '';'' v)))"
  have "pair_value n (visible_pairs (drop_pairs name (split_pairs CHR '';'' v))) = None" if "?field = []"
    using pair_value_kept [of n name v] that no_pairs by simp
  then show ?case using Cons pair_value_kept [of n name v]
    by (auto simp: pair_value_append visible_pairs_def drop_pairs_def split: option.splits)
qed (simp add: visible_pairs_def drop_pairs_def)

text \<open>Removing a cookie from a request removes every occurrence of it from all Cookie fields and
  nothing else: every other cookie keeps its value and every other header its fields.\<close>

theorem remove_cookie_exact:
  assumes "headers_ok H" and "remove_cookie_from_header H r name = Inr r'"
  shows "get_cookie_value H r' name = None \<and> rh_uri r' = rh_uri r \<and> rh_method r' = rh_method r \<and>
    (other \<noteq> name \<and> other \<noteq> [] \<longrightarrow> get_cookie_value H r' other = get_cookie_value H r other) \<and>
    (to_ascii_lowercase key \<noteq> COOKIE_HEADER \<longrightarrow> hl_get_all H (rh_headers r') key = hl_get_all H (rh_headers r) key)"
proof -
  let ?fields = "hl_get_all H (rh_headers r) COOKIE_HEADER"
  let ?retained = "filter (\<lambda>v. v \<noteq> [])
      (map (\<lambda>v. join ''; '' (map show_pair (drop_pairs name (split_pairs CHR '';'' v)))) (texts ?fields))"
  obtain h where h: "append_all H COOKIE_HEADER ?retained (hl_remove H (rh_headers r) COOKIE_HEADER) = Inr h" "r' = r\<lparr>rh_headers := h\<rparr>"
    using assms(2) by (auto simp: remove_cookie_from_header_def Let_def split: if_splits)
  have "hl_get_all H (hl_remove H (rh_headers r) COOKIE_HEADER) COOKIE_HEADER = []" using assms(1) unfolding headers_ok_def by blast
  then have all: "hl_get_all H h COOKIE_HEADER = map Some ?retained" using append_all_get(1) [OF assms(1) h(1)] by simp
  have headers: "rh_headers r' = h" by (simp add: h(2))
  have lookup: "get_cookie_value H r' n = pair_value n (visible_pairs (drop_pairs name (cookie_pairs H r)))" for n
    unfolding get_cookie_value_def cookie_pairs_def headers all texts_Some fields_kept ..
  have "pair_value name (visible_pairs (drop_pairs name ps)) = None" for ps
    by (auto simp: pair_value_def visible_pairs_def drop_pairs_def find_None_iff)
  moreover have "hl_get_all H (rh_headers r') key = hl_get_all H (rh_headers r) key" if "to_ascii_lowercase key \<noteq> COOKIE_HEADER"
  proof -
    have cookie: "to_ascii_lowercase COOKIE_HEADER = COOKIE_HEADER" by code_simp
    have "hl_get_all H h key = hl_get_all H (hl_remove H (rh_headers r) COOKIE_HEADER) key"
      using append_all_get(2) [OF assms(1) h(1), of key] that cookie by simp
    also have "\<dots> = hl_get_all H (rh_headers r) key"
      using assms(1) that cookie unfolding headers_ok_def by metis
    finally show ?thesis by (simp add: h(2))
  qed
  moreover have "get_cookie_value H r' other = get_cookie_value H r other" if "other \<noteq> name" "other \<noteq> []"
    unfolding lookup using that by (simp add: pair_value_visible pair_value_dropped get_cookie_value_def)
  ultimately show ?thesis unfolding lookup by (simp add: h(2))
qed

section \<open>A header map\<close>

text \<open>Header fields in order, under lower-case names, and a parser of URIs in origin form.\<close>

definition parse_origin_form :: "string \<Rightarrow> string + uri" where
  "parse_origin_form s =
     (if starts_with ''/'' s
      then Inr \<lparr>ur_scheme = None, ur_host = None, ur_path = takeWhile (\<lambda>c. c \<noteq> CHR ''?'') s,
                ur_query = map_option snd (split_once CHR ''?'' s)\<rparr>
      else Inl ''invalid uri'')"

definition field_list :: "(string \<times> string option) list http_lib" where
  "field_list =
     \<lparr>hl_get_all = (\<lambda>h k. map snd (filter (\<lambda>(n, _). n = to_ascii_lowercase k) h)),
      hl_remove = (\<lambda>h k. filter (\<lambda>(n, _). n \<noteq> to_ascii_lowercase k) h),
      hl_append = (\<lambda>h k v. Inr (h @ [(to_ascii_lowercase k, Some v)])),
      hl_uri = parse_origin_form\<rparr>"

lemma field_list_headers_ok: "headers_ok field_list"
  unfolding headers_ok_def
  by (auto simp: field_list_def filter_empty_conv intro!: arg_cong [of _ _ "map snd"] filter_cong)

lemma field_list_uris_ok: "uris_ok field_list"
  unfolding uris_ok_def
  by (auto simp: field_list_def parse_origin_form_def split_once_def takeWhile_append dropWhile_append split: if_splits)

definition sample_request :: "string \<Rightarrow> string option \<Rightarrow> (string \<times> string option) list \<Rightarrow>
    (string \<times> string option) list request" where
  "sample_request path q hs =
     \<lparr>rh_method = ''GET'', rh_uri = \<lparr>ur_scheme = None, ur_host = None, ur_path = path, ur_query = q\<rparr>,
      rh_headers = hs\<rparr>"

lemma remove_query_exact_witness:
  "let r = sample_request ''/a'' (Some ''key=s3cret& b = 1&x&key=2&c=a=b'') [];
       r' = projr (remove_query_from_header field_list r ''key'')
   in rh_uri r' = \<lparr>ur_scheme = None, ur_host = None, ur_path = ''/a'', ur_query = Some ''b=1&x&c=a=b''\<rparr> \<and>
      get_query_value r' ''key'' = None \<and> get_query_value r' ''b'' = get_query_value r ''b'' \<and>
      get_query_value r ''b'' = Some ''1''"
proof -
  let ?r = "sample_request ''/a'' (Some ''key=s3cret& b = 1&x&key=2&c=a=b'') []"
  let ?r' = "projr (remove_query_from_header field_list ?r ''key'')"
  have run: "remove_query_from_header field_list ?r ''key'' = Inr ?r'" by code_simp
  have "rh_uri ?r' = \<lparr>ur_scheme = None, ur_host = None, ur_path = ''/a'', ur_query = Some ''b=1&x&c=a=b''\<rparr>"
    "get_query_value ?r ''b'' = Some ''1''" by code_simp+
  moreover from remove_query_exact [OF field_list_uris_ok _ _ _ run, where other = "''b''"]
  have "get_query_value ?r' ''key'' = None \<and> get_query_value ?r' ''b'' = get_query_value ?r ''b''"
    by (simp add: sample_request_def)
  ultimately show ?thesis unfolding Let_def by blast
qed

lemma remove_cookie_exact_witness:
  "let r = sample_request ''/'' None [(''cookie'', Some ''a=1; jwt=x; b=2''), (''accept'', None), (''cookie'', Some ''jwt=y'')];
       r' = projr (remove_cookie_from_header field_list r ''jwt'')
   in rh_headers r' = [(''accept'', None), (''cookie'', Some ''a=1; b=2'')] \<and>
      get_cookie_value field_list r' ''jwt'' = None \<and>
      get_cookie_value field_list r' ''b'' = get_cookie_value field_list r ''b'' \<and>
      get_cookie_value field_list r ''b'' = Some ''2''"
proof -
  let ?r = "sample_request ''/'' None [(''cookie'', Some ''a=1; jwt=x; b=2''), (''accept'', None), (''cookie'', Some ''jwt=y'')]"
  let ?r' = "projr (remove_cookie_from_header field_list ?r ''jwt'')"
  have run: "remove_cookie_from_header field_list ?r ''jwt'' = Inr ?r'" by code_simp
  have "rh_headers ?r' = [(''accept'', None), (''cookie'', Some ''a=1; b=2'')]"
    "get_cookie_value field_list ?r ''b'' = Some ''2''" by code_simp+
  moreover from remove_cookie_exact [OF field_list_headers_ok run, where other = "''b''"]
  have "get_cookie_value field_list ?r' ''jwt'' = None \<and>
      get_cookie_value field_list ?r' ''b'' = get_cookie_value field_list ?r ''b''" by simp
  ultimately show ?thesis unfolding Let_def by blast
qed

section \<open>Conditions, templates and keys\<close>

text \<open>The conditions of a rule hold when each of at least three parts does; an unknown operator never holds.\<close>

definition var_value :: "'h http_lib \<Rightarrow> 'h session \<Rightarrow> string \<Rightarrow> string" where
  "var_value H s name =
     (case strip_prefix ''http_'' name of
        Some header_name \<Rightarrow> request_selector_key H s HEAD header_name
      | None \<Rightarrow> request_selector_key H s VARS name)"

definition condition_holds :: "'h http_lib \<Rightarrow> 'h session \<Rightarrow> string list \<Rightarrow> bool" where
  "condition_holds H s c \<longleftrightarrow> length c < 3 \<or>
     (c ! 1 = ''=='' \<and> var_value H s (c ! 0) = c ! 2) \<or> (c ! 1 = ''!='' \<and> var_value H s (c ! 0) \<noteq> c ! 2)"

lemma match_apisix_vars_all: "match_apisix_vars H s vars \<longleftrightarrow> (\<forall>c \<in> set vars. condition_holds H s c)"
proof (induction H s vars rule: match_apisix_vars.induct)
  case (2 H s name op val rest vars)
  have "condition_holds H s (name # op # val # rest) \<longleftrightarrow>
      (if op = ''=='' then var_value H s name = val else op = ''!='' \<and> var_value H s name \<noteq> val)"
    by (auto simp: condition_holds_def)
  then show ?case using 2 by (auto simp: Let_def simp flip: var_value_def)
qed (auto simp: condition_holds_def)

lemma render_literal: "\<forall>c \<in> set s. c \<noteq> CHR ''$'' \<Longrightarrow> render_template_with_count False resolve s = (s, 0)"
  by (induction s) (auto simp: render_template_with_count.simps(2) emit_def)

lemma render_resolved_nonempty:
  "snd (render_template_with_count esc resolve s) > 0 \<Longrightarrow> fst (render_template_with_count esc resolve s) \<noteq> []"
proof (induction s rule: length_induct)
  case (1 s)
  show ?case
  proof (cases s)
    case (Cons c cs)
    show ?thesis
    proof (cases "(esc \<and> c = CHR 0x5C) \<or> c \<noteq> CHR ''$''")
      case True
      then show ?thesis using 1 unfolding Cons
        by (subst render_template_with_count.simps(2)) (auto simp: emit_def split_beta split: list.splits)
    next
      case False
      obtain name rest where p: "placeholder cs = (name, rest)" by (cases "placeholder cs")
      then have "length rest < length s" using length_placeholder [of cs] Cons by simp
      then show ?thesis using False p 1
        by (auto simp: Cons render_template_with_count.simps(2) emit_def split_beta split: if_splits)
    qed
  qed (use 1(2) in simp)
qed

text \<open>A limiter key is never empty as long as the client's address is known.\<close>

lemma apisix_key_nonempty:
  assumes "resolve_var H s ''remote_addr'' \<noteq> []"
  shows "apisix_key H s key combination \<noteq> []"
  using assms render_resolved_nonempty [of False "resolve_var H s" key]
  by (auto simp: apisix_key_def Let_def split_beta)

text \<open>The removal of a query parameter forgets the scheme and authority of the URI: a request in absolute
  form loses its host.\<close>

lemma remove_query_forgets_host:
  assumes "ur_query (rh_uri r) = Some q"
  shows "remove_query_from_header H (r\<lparr>rh_uri := (rh_uri r)\<lparr>ur_host := host, ur_scheme := scheme\<rparr>\<rparr>) name =
    remove_query_from_header H r name"
  using assms by (simp add: remove_query_from_header_def Let_def)

end
