(* ===== verification/Ssl_Match.thy ===== *)
theory Ssl_Match
  imports Matcher Graph_Store
begin

text \<open>
  Choice of the TLS certificate by server name (\<open>src/proxy/ssl.rs\<close>): construction of a certificate
  object, the matcher over exact names, single-label wildcards and the catch-all, and its lookup.

  Parsing and comparing keys is OpenSSL's, the record \<open>tls_lib\<close>. A lookup that slices the name inside
  a character panics; its result is then \<open>None\<close>.
\<close>

record ('x, 'k) tls_lib =
  tl_cert :: "string \<Rightarrow> string + 'x"
  tl_key :: "string \<Rightarrow> string + 'k"
  tl_public_eq :: "'x \<Rightarrow> 'k \<Rightarrow> string + bool"

record ('x, 'k) proxy_ssl =
  psl_inner :: ssl
  psl_cert :: 'x
  psl_key :: 'k

definition valid_sni :: "string \<Rightarrow> bool" where
  "valid_sni sni \<longleftrightarrow>
     (let wildcard_count = length (filter (\<lambda>b. b = CHR ''*'') sni);
          valid_wildcard = sni = ''*'' \<or>
            (wildcard_count = 1 \<and> starts_with ''*.'' sni \<and> length sni > 2 \<and>
             \<not> starts_with ''.'' (drop 2 sni) \<and> \<not> ends_with ''.'' sni)
      in \<not> (wildcard_count > 0 \<and> \<not> valid_wildcard))"

fun check_snis :: "string \<Rightarrow> string list \<Rightarrow> proxy_error + unit" where
  "check_snis i [] = Inr ()"
| "check_snis i (sni # snis) =
     (if valid_sni sni then check_snis i snis
      else Inl (PE_Configuration (''Unsupported TLS wildcard SNI '' @ quoted sni @ '' for '' @ quoted i @
             ''; use '' @ quoted ''*'' @ '' or '' @ quoted ''*.example.com'')))"

definition proxy_ssl_try_from :: "('x, 'k) tls_lib \<Rightarrow> ssl \<Rightarrow> proxy_error + ('x, 'k) proxy_ssl" where
  "proxy_ssl_try_from L v =
     sum_bind (check_snis (ssl_id v) (ssl_snis v)) (\<lambda>_.
     sum_bind (map_err (\<lambda>e. PE_Configuration (''Failed to parse cert for '' @ quoted (ssl_id v) @ '': '' @ e))
                 (tl_cert L (ssl_cert v))) (\<lambda>cert.
     sum_bind (map_err (\<lambda>e. PE_Configuration (''Failed to parse key for '' @ quoted (ssl_id v) @ '': '' @ e))
                 (tl_key L (ssl_key v))) (\<lambda>key.
     sum_bind (map_err (\<lambda>e. PE_Configuration (''Failed to read certificate public key for '' @ quoted (ssl_id v) @ '': '' @ e))
                 (tl_public_eq L cert key)) (\<lambda>same.
     if \<not> same
     then Inl (PE_Configuration (''TLS certificate and private key do not match for '' @ quoted (ssl_id v)))
     else Inr \<lparr>psl_inner = v, psl_cert = cert, psl_key = key\<rparr>))))"

section \<open>The matcher\<close>

record ('x, 'k) ssl_matcher =
  sm_snis :: "('x, 'k) proxy_ssl router"
  sm_wildcards :: "(string \<times> ('x, 'k) proxy_ssl) list"
  sm_catch_all :: "('x, 'k) proxy_ssl option"

definition ssl_matcher_default :: "('x, 'k) ssl_matcher" where
  "ssl_matcher_default = \<lparr>sm_snis = [], sm_wildcards = [], sm_catch_all = None\<rparr>"

definition insert_sni :: "matchit \<Rightarrow> ('x, 'k) proxy_ssl \<Rightarrow> string \<Rightarrow> ('x, 'k) ssl_matcher \<Rightarrow>
    proxy_error + ('x, 'k) ssl_matcher" where
  "insert_sni M ssl sni m =
     (let normalized = to_ascii_lowercase sni
      in if normalized = ''*''
         then if sm_catch_all m \<noteq> None
              then Inl (PE_Configuration (''Duplicate TLS catch-all SNI '' @ quoted ''*''))
              else Inr (m\<lparr>sm_catch_all := Some ssl\<rparr>)
         else case strip_prefix ''*.'' normalized of
           Some suffix \<Rightarrow>
             if suffix \<in> fst ` set (sm_wildcards m)
             then Inl (PE_Configuration (''Duplicate TLS wildcard SNI '' @ quoted (''*.'' @ suffix)))
             else Inr (m\<lparr>sm_wildcards := sm_wildcards m @ [(suffix, ssl)]\<rparr>)
         | None \<Rightarrow>
             map_err (\<lambda>e. PE_Configuration (''Failed to insert TLS SNI '' @ quoted sni @ '' for '' @
                 quoted (ssl_id (psl_inner ssl)) @ '': '' @ e))
               (sum_bind (router_insert M (rev_chars normalized) ssl (sm_snis m)) (\<lambda>r.
                Inr (m\<lparr>sm_snis := r\<rparr>))))"

fun insert_snis :: "matchit \<Rightarrow> ('x, 'k) proxy_ssl \<Rightarrow> string list \<Rightarrow> ('x, 'k) ssl_matcher \<Rightarrow>
    proxy_error + ('x, 'k) ssl_matcher" where
  "insert_snis M ssl [] m = Inr m"
| "insert_snis M ssl (sni # snis) m = sum_bind (insert_sni M ssl sni m) (insert_snis M ssl snis)"

definition insert_ssl :: "matchit \<Rightarrow> ('x, 'k) proxy_ssl \<Rightarrow> ('x, 'k) ssl_matcher \<Rightarrow>
    proxy_error + ('x, 'k) ssl_matcher" where
  "insert_ssl M ssl m = insert_snis M ssl (ssl_snis (psl_inner ssl)) m"

fun insert_ssls :: "matchit \<Rightarrow> ('x, 'k) proxy_ssl list \<Rightarrow> ('x, 'k) ssl_matcher \<Rightarrow>
    proxy_error + ('x, 'k) ssl_matcher" where
  "insert_ssls M [] m = Inr m"
| "insert_ssls M (s # ss) m = sum_bind (insert_ssl M s m) (insert_ssls M ss)"

definition build_ssl_matcher :: "matchit \<Rightarrow> (string \<times> ('x, 'k) proxy_ssl) list \<Rightarrow>
    proxy_error + ('x, 'k) ssl_matcher" where
  "build_ssl_matcher M ssls =
     sum_bind (insert_ssls M (map snd ssls) ssl_matcher_default) (\<lambda>m.
     Inr (m\<lparr>sm_wildcards := sort_key (\<lambda>(suffix, _). - int (length suffix)) (sm_wildcards m)\<rparr>))"

definition host_matches_wildcard :: "string \<Rightarrow> string \<Rightarrow> bool option" where
  "host_matches_wildcard host suffix =
     (if suffix = [] then Some (host \<noteq> [] \<and> CHR ''.'' \<notin> set host)
      else if length host \<le> length suffix + 1 then Some False
      else let suffix_start = length host - length suffix
           in if is_continuation (host ! suffix_start) then None
              else if drop suffix_start host \<noteq> suffix then Some False
              else if host ! (suffix_start - 1) \<noteq> CHR ''.'' then Some False
              else let label = take (suffix_start - 1) host
                   in Some (label \<noteq> [] \<and> CHR ''.'' \<notin> set label))"

fun scan_wildcards :: "string \<Rightarrow> (string \<times> 'c) list \<Rightarrow> 'c option option" where
  "scan_wildcards host [] = Some None"
| "scan_wildcards host ((suffix, ssl) # ws) =
     (case host_matches_wildcard host suffix of
        None \<Rightarrow> None
      | Some True \<Rightarrow> Some (Some ssl)
      | Some False \<Rightarrow> scan_wildcards host ws)"

definition match_sni :: "matchit \<Rightarrow> ('x, 'k) ssl_matcher \<Rightarrow> string \<Rightarrow> ('x, 'k) proxy_ssl option option" where
  "match_sni M m sni =
     (let normalized = to_ascii_lowercase sni
      in case router_at M (sm_snis m) (rev_chars normalized) of
           Some (v, _) \<Rightarrow> Some (Some v)
         | None \<Rightarrow>
             (case scan_wildcards normalized (sm_wildcards m) of
                None \<Rightarrow> None
              | Some (Some ssl) \<Rightarrow> Some (Some ssl)
              | Some None \<Rightarrow> Some (sm_catch_all m)))"

definition DEFAULT_SERVER_NAME :: string where "DEFAULT_SERVER_NAME = ''*''"

definition certificate_callback :: "matchit \<Rightarrow> ('x, 'k) ssl_matcher \<Rightarrow> ('x, 'k) proxy_ssl \<Rightarrow> string option \<Rightarrow>
    ('x, 'k) proxy_ssl option" where
  "certificate_callback M m dflt servername =
     map_option (\<lambda>found. unwrap_or found dflt)
       (match_sni M m (unwrap_or servername DEFAULT_SERVER_NAME))"

section \<open>The most specific certificate wins\<close>

text \<open>The configured patterns with their certificates, and when a pattern covers a name.\<close>

definition sni_patterns :: "(string \<times> ('x, 'k) proxy_ssl) list \<Rightarrow> (string \<times> ('x, 'k) proxy_ssl) list" where
  "sni_patterns ssls = concat (map (\<lambda>(_, s). map (\<lambda>sni. (to_ascii_lowercase sni, s)) (ssl_snis (psl_inner s))) ssls)"

definition covers :: "string \<Rightarrow> string \<Rightarrow> bool" where
  "covers p host \<longleftrightarrow>
     (if p = ''*'' then True
      else case strip_prefix ''*.'' p of
        Some suffix \<Rightarrow> \<exists>label. label \<noteq> [] \<and> CHR ''.'' \<notin> set label \<and> host = label @ CHR ''.'' # suffix
      | None \<Rightarrow> p = host)"

definition specificity :: "string \<Rightarrow> nat" where
  "specificity p = (if p = ''*'' then 0 else if strip_prefix ''*.'' p \<noteq> None then length p else length p + 1)"

text \<open>What the matcher holds: the patterns split into the three kinds.\<close>

definition is_wild :: "string \<Rightarrow> bool" where "is_wild p \<longleftrightarrow> strip_prefix ''*.'' p \<noteq> None"

definition split_patterns :: "(string \<times> 'c) list \<Rightarrow> (string \<times> 'c) list \<times> (string \<times> 'c) list \<times> 'c option" where
  "split_patterns ps =
     (map (\<lambda>(p, c). (rev_chars p, c)) (filter (\<lambda>(p, _). p \<noteq> ''*'' \<and> \<not> is_wild p) ps),
      map (\<lambda>(p, c). (drop 2 p, c)) (filter (\<lambda>(p, _). is_wild p) ps),
      map_of ps ''*'')"

definition holds_patterns :: "('x, 'k) ssl_matcher \<Rightarrow> (string \<times> ('x, 'k) proxy_ssl) list \<Rightarrow> bool" where
  "holds_patterns m ps \<longleftrightarrow> (sm_snis m, sm_wildcards m, sm_catch_all m) = split_patterns ps"

definition sni_ok :: "string \<Rightarrow> bool" where
  "sni_ok sni \<longleftrightarrow> utf8_ok sni \<and> static_pattern sni \<and> valid_sni sni"

definition pattern_ok :: "string \<Rightarrow> bool" where
  "pattern_ok p \<longleftrightarrow> utf8_ok p \<and> static_pattern p \<and> (is_wild p \<longrightarrow> length p > 2)"

lemma star_not_wild [simp]: "\<not> is_wild ''*''"
  by (simp add: is_wild_def strip_prefix_def starts_with_def)

lemma is_wild_iff: "is_wild p \<longleftrightarrow> (\<exists>suffix. p = ''*.'' @ suffix)"
  by (auto simp: is_wild_def strip_prefix_Some)

lemma static_pattern_set: "set p = set q \<Longrightarrow> static_pattern p = static_pattern q"
  by (simp add: static_pattern_def)

lemma static_pattern_rev [simp]: "static_pattern (rev_chars p) = static_pattern p"
  by (rule static_pattern_set) simp

lemma ascii_lower_other: "\<not> (CHR ''a'' \<le> c \<and> c \<le> CHR ''z'') \<Longrightarrow> ascii_lower d = c \<longleftrightarrow> d = c \<and> \<not> (CHR ''A'' \<le> c \<and> c \<le> CHR ''Z'')"
  by (auto simp: ascii_lower_def less_eq_char_def)

lemma static_pattern_lower [simp]: "static_pattern (to_ascii_lowercase p) = static_pattern p"
proof -
  have "ascii_lower c = CHR ''{'' \<longleftrightarrow> c = CHR ''{''" "ascii_lower c = CHR ''}'' \<longleftrightarrow> c = CHR ''}''" for c
    by (simp_all add: ascii_lower_other less_eq_char_def)
  then show ?thesis by (auto simp: static_pattern_def to_ascii_lowercase_def image_iff eq_commute)
qed

lemma pattern_ok_lower: "sni_ok sni \<Longrightarrow> pattern_ok (to_ascii_lowercase sni)"
proof -
  assume ok: "sni_ok sni"
  have "length sni > 2" if wild: "is_wild (to_ascii_lowercase sni)"
  proof -
    obtain suffix where "to_ascii_lowercase sni = ''*.'' @ suffix" using wild unfolding is_wild_iff ..
    then obtain a b rest where "sni = a # b # rest" "ascii_lower a = CHR ''*''" "ascii_lower b = CHR ''.''"
      by (cases sni; cases "tl sni") (auto simp: to_ascii_lowercase_def)
    then have "sni = CHR ''*'' # CHR ''.'' # rest"
      by (simp add: ascii_lower_other less_eq_char_def)
    with ok show ?thesis by (auto simp: sni_ok_def valid_sni_def Let_def)
  qed
  with ok show "pattern_ok (to_ascii_lowercase sni)" by (simp add: sni_ok_def pattern_ok_def)
qed

lemma wild_drop_inj: "is_wild p \<Longrightarrow> is_wild q \<Longrightarrow> drop 2 p = drop 2 q \<longleftrightarrow> p = q"
  by (auto simp: is_wild_iff)

lemma insert_sni_step:
  assumes M: "matchit_ok M" and m: "holds_patterns m ps" and ps: "\<forall>(p, _) \<in> set ps. pattern_ok p" and sni: "sni_ok sni"
  defines "p \<equiv> to_ascii_lowercase sni"
  shows "p \<notin> keys ps \<Longrightarrow> \<exists>m'. insert_sni M ssl sni m = Inr m' \<and> holds_patterns m' (ps @ [(p, ssl)])"
    and "p \<in> keys ps \<Longrightarrow> \<exists>e. insert_sni M ssl sni m = Inl e"
proof -
  have p: "pattern_ok p" using pattern_ok_lower [OF sni] by (simp add: p_def)
  have parts: "sm_snis m = map (\<lambda>(p, c). (rev_chars p, c)) (filter (\<lambda>(p, _). p \<noteq> ''*'' \<and> \<not> is_wild p) ps)"
    "sm_wildcards m = map (\<lambda>(p, c). (drop 2 p, c)) (filter (\<lambda>(p, _). is_wild p) ps)"
    "sm_catch_all m = map_of ps ''*''"
    using m by (simp_all add: holds_patterns_def split_patterns_def)
  consider (star) "p = ''*''" | (wild) "is_wild p" | (exact) "p \<noteq> ''*''" "\<not> is_wild p" by blast
  then show "p \<notin> keys ps \<Longrightarrow> \<exists>m'. insert_sni M ssl sni m = Inr m' \<and> holds_patterns m' (ps @ [(p, ssl)])"
    and "p \<in> keys ps \<Longrightarrow> \<exists>e. insert_sni M ssl sni m = Inl e"
  proof (atomize (full), cases)
    case star
    then have "sm_catch_all m = None \<longleftrightarrow> p \<notin> keys ps" by (simp add: parts(3) map_of_None_keys)
    then show "(p \<notin> keys ps \<longrightarrow> (\<exists>m'. insert_sni M ssl sni m = Inr m' \<and> holds_patterns m' (ps @ [(p, ssl)]))) \<and>
        (p \<in> keys ps \<longrightarrow> (\<exists>e. insert_sni M ssl sni m = Inl e))"
      using star parts by (auto simp: insert_sni_def Let_def p_def [symmetric] holds_patterns_def split_patterns_def map_add_def)
  next
    case wild
    then have strip: "strip_prefix ''*.'' p = Some (drop 2 p)" by (auto simp: is_wild_iff strip_prefix_Some)
    have "drop 2 p \<in> fst ` set (sm_wildcards m) \<longleftrightarrow> p \<in> keys ps"
      using wild wild_drop_inj [OF wild] by (force simp: parts(2))
    moreover have "p \<noteq> ''*''" using wild by auto
    ultimately show "(p \<notin> keys ps \<longrightarrow> (\<exists>m'. insert_sni M ssl sni m = Inr m' \<and> holds_patterns m' (ps @ [(p, ssl)]))) \<and>
        (p \<in> keys ps \<longrightarrow> (\<exists>e. insert_sni M ssl sni m = Inl e))"
      using wild strip parts
      by (auto simp: insert_sni_def Let_def p_def [symmetric] holds_patterns_def split_patterns_def map_add_def split: option.splits)
  next
    case exact
    then have strip: "strip_prefix ''*.'' p = None" by (simp add: is_wild_def)
    have "rev_chars p \<in> keys (sm_snis m) \<longleftrightarrow> p \<in> keys ps"
    proof
      assume "rev_chars p \<in> keys (sm_snis m)"
      then obtain q c where "(q, c) \<in> set ps" "rev_chars q = rev_chars p" by (auto simp: parts(1))
      moreover from this have "utf8_ok q" using ps by (auto simp: pattern_ok_def)
      ultimately show "p \<in> keys ps" using p by (force simp: pattern_ok_def rev_chars_eq_iff)
    next
      assume "p \<in> keys ps"
      then show "rev_chars p \<in> keys (sm_snis m)" using exact by (force simp: parts(1))
    qed
    moreover have "static_pattern (rev_chars p)" using p by (simp add: pattern_ok_def)
    moreover have "insert_sni M ssl sni m = map_err (\<lambda>e. PE_Configuration (''Failed to insert TLS SNI '' @ quoted sni @
        '' for '' @ quoted (ssl_id (psl_inner ssl)) @ '': '' @ e))
      (sum_bind (router_insert M (rev_chars p) ssl (sm_snis m)) (\<lambda>r. Inr (m\<lparr>sm_snis := r\<rparr>)))"
      using exact(1) strip by (simp add: insert_sni_def Let_def p_def [symmetric])
    moreover have "map_of (ps @ [(p, ssl)]) ''*'' = map_of ps ''*''"
      using exact(1) by (auto simp: map_add_def split: option.splits)
    then have "holds_patterns (m\<lparr>sm_snis := sm_snis m @ [(rev_chars p, ssl)]\<rparr>) (ps @ [(p, ssl)])"
      using exact parts by (simp add: holds_patterns_def split_patterns_def)
    ultimately show "(p \<notin> keys ps \<longrightarrow> (\<exists>m'. insert_sni M ssl sni m = Inr m' \<and> holds_patterns m' (ps @ [(p, ssl)]))) \<and>
        (p \<in> keys ps \<longrightarrow> (\<exists>e. insert_sni M ssl sni m = Inl e))"
      using router_insert_static [OF M, of "rev_chars p" "sm_snis m" ssl]
      by (cases "p \<in> keys ps") auto
  qed
qed

definition new_patterns :: "('x, 'k) proxy_ssl \<Rightarrow> (string \<times> ('x, 'k) proxy_ssl) list" where
  "new_patterns ssl = map (\<lambda>sni. (to_ascii_lowercase sni, ssl)) (ssl_snis (psl_inner ssl))"

definition inserts :: "proxy_error + ('x, 'k) ssl_matcher \<Rightarrow> (string \<times> ('x, 'k) proxy_ssl) list \<Rightarrow> bool" where
  "inserts r ps \<longleftrightarrow> (if distinct_keys ps then \<exists>m. r = Inr m \<and> holds_patterns m ps else \<exists>e. r = Inl e)"

lemma insert_snis_patterns:
  assumes "matchit_ok M" and "\<forall>sni \<in> set snis. sni_ok sni"
    and "holds_patterns m ps" and "distinct_keys ps" and "\<forall>(p, _) \<in> set ps. pattern_ok p"
  shows "inserts (insert_snis M ssl snis m) (ps @ map (\<lambda>sni. (to_ascii_lowercase sni, ssl)) snis)"
  using assms(2-)
proof (induction snis arbitrary: m ps)
  case (Cons sni snis)
  let ?p = "to_ascii_lowercase sni"
  have sni: "sni_ok sni" "pattern_ok ?p" using Cons.prems(1) by (simp_all add: pattern_ok_lower)
  note step = insert_sni_step [OF assms(1) Cons.prems(2,4) sni(1), of ssl]
  show ?case
  proof (cases "?p \<in> keys ps")
    case True
    then show ?thesis using step(2) by (auto simp: inserts_def)
  next
    case False
    then obtain m' where m': "insert_sni M ssl sni m = Inr m'" "holds_patterns m' (ps @ [(?p, ssl)])"
      using step(1) by blast
    have "inserts (insert_snis M ssl snis m') ((ps @ [(?p, ssl)]) @ map (\<lambda>sni. (to_ascii_lowercase sni, ssl)) snis)"
      using Cons.prems False sni(2) by (intro Cons.IH m'(2)) auto
    then show ?thesis by (simp add: m'(1))
  qed
qed (simp add: inserts_def)

lemma insert_ssls_patterns:
  assumes "matchit_ok M" and "\<forall>s \<in> set ss. \<forall>sni \<in> set (ssl_snis (psl_inner s)). sni_ok sni"
    and "holds_patterns m ps" and "distinct_keys ps" and "\<forall>(p, _) \<in> set ps. pattern_ok p"
  shows "inserts (insert_ssls M ss m) (ps @ concat (map new_patterns ss))"
  using assms(2-)
proof (induction ss arbitrary: m ps)
  case (Cons s ss)
  have head: "inserts (insert_ssl M s m) (ps @ new_patterns s)"
    using insert_snis_patterns [OF assms(1) _ Cons.prems(2-4)] Cons.prems(1)
    by (simp add: insert_ssl_def new_patterns_def)
  show ?case
  proof (cases "distinct_keys (ps @ new_patterns s)")
    case True
    then obtain m' where m': "insert_ssl M s m = Inr m'" "holds_patterns m' (ps @ new_patterns s)"
      using head by (auto simp: inserts_def)
    have "inserts (insert_ssls M ss m') ((ps @ new_patterns s) @ concat (map new_patterns ss))"
      using Cons.prems True by (intro Cons.IH m'(2)) (auto simp: new_patterns_def pattern_ok_lower)
    then show ?thesis by (simp add: m'(1))
  next
    case False
    then have "\<not> distinct_keys (ps @ concat (map new_patterns (s # ss)))" by auto
    moreover have "\<exists>e. insert_ssl M s m = Inl e" using False head by (simp add: inserts_def)
    ultimately show ?thesis unfolding inserts_def by (simp only: if_False) auto
  qed
qed (simp add: inserts_def)

lemma sni_patterns_concat: "sni_patterns ssls = concat (map new_patterns (map snd ssls))"
  by (simp add: sni_patterns_def new_patterns_def comp_def case_prod_unfold)

abbreviation snis_ok :: "(string \<times> ('x, 'k) proxy_ssl) list \<Rightarrow> bool" where
  "snis_ok ssls \<equiv> \<forall>s \<in> snd ` set ssls. \<forall>sni \<in> set (ssl_snis (psl_inner s)). sni_ok sni"

lemma build_patterns:
  assumes "matchit_ok M" and "snis_ok ssls"
  shows "if distinct_keys (sni_patterns ssls)
    then \<exists>m. build_ssl_matcher M ssls = Inr (m\<lparr>sm_wildcards := sort_key (\<lambda>(suffix, _). - int (length suffix)) (sm_wildcards m)\<rparr>) \<and>
      holds_patterns m (sni_patterns ssls)
    else \<exists>e. build_ssl_matcher M ssls = Inl e"
proof -
  have "inserts (insert_ssls M (map snd ssls) ssl_matcher_default) ([] @ concat (map new_patterns (map snd ssls)))"
    by (rule insert_ssls_patterns [OF assms(1)])
      (use assms(2) in \<open>auto simp: holds_patterns_def split_patterns_def ssl_matcher_default_def\<close>)
  then show ?thesis
    unfolding sni_patterns_concat [symmetric] append_Nil inserts_def build_ssl_matcher_def
    by (cases "distinct_keys (sni_patterns ssls)") (simp_all only: if_True if_False, force+)
qed

section \<open>Lookups\<close>

lemma host_matches_covers:
  assumes "\<forall>c \<in> set host. is_ascii c" and "suffix \<noteq> []"
  shows "host_matches_wildcard host suffix = Some (covers (''*.'' @ suffix) host)"
proof -
  have strip: "strip_prefix ''*.'' (''*.'' @ suffix) = Some suffix" by (simp only: strip_prefix_append)
  then have covers: "covers (''*.'' @ suffix) host \<longleftrightarrow>
      (\<exists>label. label \<noteq> [] \<and> CHR ''.'' \<notin> set label \<and> host = label @ CHR ''.'' # suffix)"
    unfolding covers_def by simp
  let ?n = "length host - length suffix"
  show ?thesis
  proof (cases "length host \<le> length suffix + 1")
    case True
    have "length label = 0" if "host = label @ CHR ''.'' # suffix" for label
      using arg_cong [OF that, of length] True by simp
    then show ?thesis unfolding covers using True assms(2) by (auto simp: host_matches_wildcard_def)
  next
    case False
    then have n: "?n < length host" "0 < ?n - 1" "Suc (?n - 1) = ?n" using assms(2) by (cases suffix; simp)+
    have "\<not> is_continuation (host ! ?n)" using assms(1) n(1) by (intro ascii_not_continuation) simp
    moreover have "host = take (?n - 1) host @ (host ! (?n - 1)) # drop ?n host"
      using id_take_nth_drop [of "?n - 1" host] n by simp
    moreover have "label = take (?n - 1) host \<and> host ! (?n - 1) = CHR ''.'' \<and> drop ?n host = suffix"
      if "host = label @ CHR ''.'' # suffix" for label
      using that by simp
    ultimately have "host_matches_wildcard host suffix = Some
        (drop ?n host = suffix \<and> host ! (?n - 1) = CHR ''.'' \<and> take (?n - 1) host \<noteq> [] \<and> CHR ''.'' \<notin> set (take (?n - 1) host))"
      using False assms(2) by (simp add: host_matches_wildcard_def Let_def)
    moreover have "(drop ?n host = suffix \<and> host ! (?n - 1) = CHR ''.'' \<and> take (?n - 1) host \<noteq> [] \<and> CHR ''.'' \<notin> set (take (?n - 1) host)) \<longleftrightarrow>
        (\<exists>label. label \<noteq> [] \<and> CHR ''.'' \<notin> set label \<and> host = label @ CHR ''.'' # suffix)"
      using \<open>host = take (?n - 1) host @ (host ! (?n - 1)) # drop ?n host\<close>
        \<open>\<And>label. host = label @ CHR ''.'' # suffix \<Longrightarrow> label = take (?n - 1) host \<and> host ! (?n - 1) = CHR ''.'' \<and> drop ?n host = suffix\<close>
      by metis
    ultimately show ?thesis unfolding covers by simp
  qed
qed

lemma scan_covers:
  assumes "\<forall>c \<in> set host. is_ascii c" and "\<forall>(suffix, _) \<in> set ws. suffix \<noteq> []"
  shows "scan_wildcards host ws = Some (map_option snd (find (\<lambda>(suffix, _). covers (''*.'' @ suffix) host) ws))"
  using assms(2)
proof (induction ws)
  case (Cons w ws)
  obtain suffix c where w: "w = (suffix, c)" by (cases w)
  then have "host_matches_wildcard host suffix = Some (covers (''*.'' @ suffix) host)"
    using host_matches_covers [OF assms(1)] Cons.prems by simp
  then show ?case using Cons by (cases "covers (''*.'' @ suffix) host") (simp_all add: w)
qed simp

lemma find_sorted:
  assumes "sorted (map f xs)" and "find P xs = Some x" and "y \<in> set xs" and "P y"
  shows "f x \<le> f y"
  using assms by (induction xs) (auto split: if_splits)

lemma find_wild:
  assumes "holds_patterns m ps" and "\<forall>(p, _) \<in> set ps. pattern_ok p" and "\<forall>c \<in> set host. is_ascii c"
  defines "ws \<equiv> sort_key (\<lambda>(suffix, _). - int (length suffix)) (sm_wildcards m)"
  shows "\<exists>r. scan_wildcards host ws = Some r \<and>
    (case r of None \<Rightarrow> \<forall>(p, c) \<in> set ps. is_wild p \<longrightarrow> \<not> covers p host
     | Some c \<Rightarrow> \<exists>p. (p, c) \<in> set ps \<and> is_wild p \<and> covers p host \<and>
         (\<forall>(q, _) \<in> set ps. is_wild q \<longrightarrow> covers q host \<longrightarrow> length q \<le> length p))"
proof -
  let ?P = "\<lambda>(suffix, _). covers (''*.'' @ suffix) host"
  have ws: "set ws = (\<lambda>(p, c). (drop 2 p, c)) ` {(p, c) \<in> set ps. is_wild p}"
    using assms(1) by (auto simp: ws_def holds_patterns_def split_patterns_def)
  have mem: "(suffix, c) \<in> set ws \<longleftrightarrow> (''*.'' @ suffix, c) \<in> set ps" for suffix c
    unfolding ws by (force simp: is_wild_iff)
  have "\<forall>(suffix, _) \<in> set ws. suffix \<noteq> []"
  proof (clarify)
    fix c assume "([], c) \<in> set ws"
    then have "(''*.'', c) \<in> set ps" using mem [of "[]"] by simp
    with assms(2) have "pattern_ok ''*.''" by blast
    then show False by (simp add: pattern_ok_def is_wild_iff)
  qed
  from scan_covers [OF assms(3) this]
  have scan: "scan_wildcards host ws = Some (map_option snd (find ?P ws))" .
  show ?thesis
  proof (cases "find ?P ws")
    case None
    have "\<not> covers p host" if pc: "(p, c) \<in> set ps" and wild: "is_wild p" for p c
    proof -
      obtain suffix where "p = ''*.'' @ suffix" using wild unfolding is_wild_iff ..
      with pc mem have "(suffix, c) \<in> set ws" by simp
      with None \<open>p = _\<close> show ?thesis by (auto simp: find_None_iff)
    qed
    then show ?thesis using scan None by auto
  next
    case (Some w)
    obtain suffix c where w: "w = (suffix, c)" by (cases w)
    have found: "(suffix, c) \<in> set ws" "covers (''*.'' @ suffix) host"
      using Some unfolding w find_Some_iff by (force simp: in_set_conv_nth)+
    have "sorted (map (\<lambda>(suffix, _). - int (length suffix)) ws)" by (simp add: ws_def)
    from find_sorted [OF this Some]
    have best: "length t \<le> length suffix" if "(t, d) \<in> set ws" "covers (''*.'' @ t) host" for t d
      using that w by fastforce
    have "length q \<le> length (''*.'' @ suffix)"
      if qd: "(q, d) \<in> set ps" and wild: "is_wild q" and cov: "covers q host" for q d
    proof -
      obtain t where "q = ''*.'' @ t" using wild unfolding is_wild_iff ..
      with qd cov mem best show ?thesis by simp
    qed
    moreover have "(''*.'' @ suffix, c) \<in> set ps" "is_wild (''*.'' @ suffix)"
      using mem found(1) by (auto simp: is_wild_iff)
    ultimately have "\<exists>p. (p, c) \<in> set ps \<and> is_wild p \<and> covers p host \<and>
         (\<forall>(q, _) \<in> set ps. is_wild q \<longrightarrow> covers q host \<longrightarrow> length q \<le> length p)"
      using found(2) by blast
    then show ?thesis using scan Some w by simp
  qed
qed

lemma covers_kinds:
  "covers ''*'' host" "\<not> is_wild p \<Longrightarrow> p \<noteq> ''*'' \<Longrightarrow> covers p host \<longleftrightarrow> p = host"
  by (simp_all add: covers_def is_wild_def)

lemma specificity_kinds:
  "specificity ''*'' = 0" "is_wild p \<Longrightarrow> specificity p = length p"
  "\<not> is_wild p \<Longrightarrow> p \<noteq> ''*'' \<Longrightarrow> specificity p = length p + 1"
  using star_not_wild by (auto simp: specificity_def is_wild_def)

lemma covers_wild_length: "is_wild p \<Longrightarrow> covers p host \<Longrightarrow> length p \<le> length host"
proof -
  assume "is_wild p" "covers p host"
  then obtain suffix label where "p = ''*.'' @ suffix" "label \<noteq> []" "host = label @ CHR ''.'' # suffix"
    unfolding is_wild_iff covers_def by (auto simp: strip_prefix_Some split: if_splits option.splits)
  then show ?thesis by (cases label) auto
qed

text \<open>C20: The TLS certificate chosen for a server name is that of the most specific configured pattern
  that covers it - the exact name, else the longest wildcard whose star stands for exactly one label,
  else the catch-all - whatever the order of the certificates and the letter case; and no certificate
  is chosen exactly when no pattern covers the name.\<close>

theorem certificate_most_specific:
  assumes M: "matchit_ok M" and ok: "snis_ok ssls" and build: "build_ssl_matcher M ssls = Inr m"
    and name: "\<forall>c \<in> set sni. is_ascii c"
  shows "case match_sni M m sni of
      None \<Rightarrow> False
    | Some None \<Rightarrow> \<forall>(p, _) \<in> set (sni_patterns ssls). \<not> covers p (to_ascii_lowercase sni)
    | Some (Some c) \<Rightarrow> \<exists>p. (p, c) \<in> set (sni_patterns ssls) \<and> covers p (to_ascii_lowercase sni) \<and>
        (\<forall>(q, _) \<in> set (sni_patterns ssls). covers q (to_ascii_lowercase sni) \<longrightarrow> specificity q \<le> specificity p)"
proof -
  let ?ps = "sni_patterns ssls" and ?host = "to_ascii_lowercase sni"
  obtain m0 where m0: "holds_patterns m0 ?ps" "distinct_keys ?ps"
    "m = m0\<lparr>sm_wildcards := sort_key (\<lambda>(suffix, _). - int (length suffix)) (sm_wildcards m0)\<rparr>"
    using build_patterns [OF M ok] build by (auto split: if_splits)
  have ps: "\<forall>(p, _) \<in> set ?ps. pattern_ok p"
    using ok by (auto simp: sni_patterns_def pattern_ok_lower)
  have host: "\<forall>c \<in> set ?host. is_ascii c" using name by (simp add: to_ascii_lowercase_def)
  have snis: "sm_snis m = map (\<lambda>(p, c). (rev_chars p, c)) (filter (\<lambda>(p, _). p \<noteq> ''*'' \<and> \<not> is_wild p) ?ps)"
    "sm_catch_all m = map_of ?ps ''*''"
    using m0(1,3) by (simp_all add: holds_patterns_def split_patterns_def)
  have at: "router_at M (sm_snis m) (rev_chars ?host) = map_option (\<lambda>v. (v, [])) (map_of (sm_snis m) (rev_chars ?host))"
    by (rule router_at_static [OF M]) (use ps in \<open>auto simp: snis pattern_ok_def\<close>)
  show ?thesis
  proof (cases "map_of (sm_snis m) (rev_chars ?host)")
    case (Some c)
    then obtain p where p: "(p, c) \<in> set ?ps" "p \<noteq> ''*''" "\<not> is_wild p" "rev_chars p = rev_chars ?host"
      by (auto simp: snis dest!: map_of_SomeD)
    have "p = ?host" using p ps ascii_utf8_ok [OF host] by (auto simp: pattern_ok_def rev_chars_eq_iff)
    moreover have "specificity q \<le> length ?host + 1" if "covers q ?host" for q
      using that covers_wild_length [of q ?host] covers_kinds(2) [of q ?host]
      by (cases "q = ''*''"; cases "is_wild q") (auto simp: specificity_kinds)
    ultimately have "covers p ?host \<and> (\<forall>(q, _) \<in> set ?ps. covers q ?host \<longrightarrow> specificity q \<le> specificity p)"
      using p specificity_kinds(3) [of p] covers_kinds(2) [of p ?host] by auto
    moreover have "match_sni M m sni = Some (Some c)" using Some at by (simp add: match_sni_def Let_def)
    ultimately show ?thesis using p(1) by auto
  next
    case None
    have exact: "\<not> covers q ?host" if "(q, d) \<in> set ?ps" "q \<noteq> ''*''" "\<not> is_wild q" for q d
    proof
      assume "covers q ?host"
      then have "q = ?host" using covers_kinds(2) [OF that(3,2)] by simp
      then have "rev_chars ?host \<in> keys (sm_snis m)" using that by (force simp: snis)
      with None show False by (simp add: map_of_None_keys)
    qed
    obtain r where r: "scan_wildcards ?host (sm_wildcards m) = Some r" and
      rs: "case r of None \<Rightarrow> \<forall>(p, c) \<in> set ?ps. is_wild p \<longrightarrow> \<not> covers p ?host
     | Some c \<Rightarrow> \<exists>p. (p, c) \<in> set ?ps \<and> is_wild p \<and> covers p ?host \<and>
         (\<forall>(q, _) \<in> set ?ps. is_wild q \<longrightarrow> covers q ?host \<longrightarrow> length q \<le> length p)"
      using find_wild [OF m0(1) ps host] m0(3) by auto
    have match: "match_sni M m sni = Some (case r of Some c \<Rightarrow> Some c | None \<Rightarrow> map_of ?ps ''*'')"
      using None at r by (simp add: match_sni_def Let_def snis(2) split: option.splits)
    show ?thesis
    proof (cases r)
      case (Some c)
      then obtain p where p: "(p, c) \<in> set ?ps" "is_wild p" "covers p ?host"
        "\<And>q d. (q, d) \<in> set ?ps \<Longrightarrow> is_wild q \<Longrightarrow> covers q ?host \<Longrightarrow> length q \<le> length p"
        using rs by fastforce
      have "specificity q \<le> specificity p" if "(q, d) \<in> set ?ps" "covers q ?host" for q d
        using p(4) [OF that(1) _ that(2)] exact [OF that(1)] that(2) p(2)
        by (cases "q = ''*''"; cases "is_wild q") (auto simp: specificity_kinds)
      with p(1,3) show ?thesis using match Some by auto
    next
      case None': None
      then have wild: "\<not> covers q ?host" if "(q, d) \<in> set ?ps" "is_wild q" for q d
        using rs that by auto
      have only: "q = ''*''" if "(q, d) \<in> set ?ps" "covers q ?host" for q d
        using exact wild that by blast
      show ?thesis
      proof (cases "map_of ?ps ''*''")
        case None
        then have "''*'' \<notin> keys ?ps" by (simp add: map_of_None_keys)
        then show ?thesis using match None None' only by force
      next
        case (Some c)
        then have "(''*'', c) \<in> set ?ps" by (rule map_of_SomeD)
        moreover have "specificity q \<le> specificity ''*''" if "(q, d) \<in> set ?ps" "covers q ?host" for q d
          using only [OF that] by simp
        ultimately show ?thesis using match Some None' covers_kinds(1) by auto
      qed
    qed
  qed
qed

text \<open>With \<open>*.example.com\<close>, \<open>*.b.example.com\<close> and \<open>*\<close> configured, the name \<open>A.b.Example.com\<close>
  takes the certificate of \<open>*.b.example.com\<close>, and \<open>b.example.com\<close> that of \<open>*.example.com\<close>.\<close>

definition sample_ssl :: "string \<Rightarrow> string list \<Rightarrow> (unit, unit) proxy_ssl" where
  "sample_ssl i snis = \<lparr>psl_inner = \<lparr>ssl_id = i, ssl_cert = [], ssl_key = [], ssl_snis = snis\<rparr>, psl_cert = (), psl_key = ()\<rparr>"

lemma certificate_most_specific_witness:
  "let ssls = [(''1'', sample_ssl ''1'' [''*.example.com'', ''*'']), (''2'', sample_ssl ''2'' [''*.b.example.com''])];
       m = projr (build_ssl_matcher static_matchit ssls)
   in match_sni static_matchit m ''A.b.Example.com'' = Some (Some (sample_ssl ''2'' [''*.b.example.com''])) \<and>
      match_sni static_matchit m ''b.example.com'' = Some (Some (sample_ssl ''1'' [''*.example.com'', ''*''])) \<and>
      (\<exists>p. (p, sample_ssl ''2'' [''*.b.example.com'']) \<in> set (sni_patterns ssls) \<and> covers p ''a.b.example.com'')"
proof -
  let ?ssls = "[(''1'', sample_ssl ''1'' [''*.example.com'', ''*'']), (''2'', sample_ssl ''2'' [''*.b.example.com''])]"
  let ?m = "projr (build_ssl_matcher static_matchit ?ssls)"
  have build: "build_ssl_matcher static_matchit ?ssls = Inr ?m" by code_simp
  have ok: "snis_ok ?ssls"
    by (simp add: sample_ssl_def sni_ok_def utf8_ok_def is_continuation_def static_pattern_def valid_sni_def
        starts_with_def ends_with_def)
  have ascii: "\<forall>c \<in> set ''A.b.Example.com''. is_ascii c" by (simp add: is_ascii_def)
  have m: "match_sni static_matchit ?m ''A.b.Example.com'' = Some (Some (sample_ssl ''2'' [''*.b.example.com'']))"
    "match_sni static_matchit ?m ''b.example.com'' = Some (Some (sample_ssl ''1'' [''*.example.com'', ''*'']))"
    by code_simp+
  have lower: "to_ascii_lowercase ''A.b.Example.com'' = ''a.b.example.com''" by code_simp
  from certificate_most_specific [OF static_matchit_ok ok build ascii] m(1)
  have "\<exists>p. (p, sample_ssl ''2'' [''*.b.example.com'']) \<in> set (sni_patterns ?ssls) \<and> covers p ''a.b.example.com''"
    unfolding lower by auto
  with m show ?thesis unfolding Let_def by blast
qed

lemma accepted_patterns_distinct:
  "matchit_ok M \<Longrightarrow> snis_ok ssls \<Longrightarrow>
   (\<exists>m. build_ssl_matcher M ssls = Inr m) \<longleftrightarrow> distinct_keys (sni_patterns ssls)"
  using build_patterns [of M ssls] by (auto split: if_splits)

text \<open>A client can make the certificate lookup panic: with a wildcard configured, a server name that
  has a multi-byte character across the position where the wildcard's suffix would start is sliced
  inside that character.\<close>

theorem sni_lookup_panics:
  assumes "matchit_ok M" and "ssl_snis (psl_inner c) = [''*.'' @ suffix]" and "suffix \<noteq> []"
    and "length suffix + 1 < length sni" and "is_continuation (sni ! (length sni - length suffix))"
  shows "\<exists>m. build_ssl_matcher M [(i, c)] = Inr m \<and> certificate_callback M m dflt (Some sni) = None"
proof -
  let ?m = "\<lparr>sm_snis = [], sm_wildcards = [(to_ascii_lowercase suffix, c)], sm_catch_all = None\<rparr> :: ('a, 'b) ssl_matcher"
  have lower: "to_ascii_lowercase (''*.'' @ suffix) = ''*.'' @ to_ascii_lowercase suffix"
    by (simp add: to_ascii_lowercase_def ascii_lower_def less_eq_char_def)
  have strip: "strip_prefix ''*.'' (''*.'' @ to_ascii_lowercase suffix) = Some (to_ascii_lowercase suffix)"
    by (rule strip_prefix_append)
  have build: "build_ssl_matcher M [(i, c)] = Inr ?m"
    using strip unfolding build_ssl_matcher_def
    by (simp add: insert_ssl_def assms(2) insert_sni_def lower [simplified] Let_def ssl_matcher_default_def)
  have "mi_at M [] path = None" for path
    using matchit_at(2) [OF assms(1), of "[]" path] by (cases "mi_at M [] path") auto
  moreover have "is_continuation (to_ascii_lowercase sni ! (length sni - length suffix))"
    using assms(3-5) by (cases suffix) (simp_all add: to_ascii_lowercase_def)
  ultimately have "match_sni M ?m sni = None"
    using assms(3,4) by (simp add: match_sni_def Let_def router_at_def host_matches_wildcard_def to_ascii_lowercase_def)
  then show ?thesis using build by (auto simp: certificate_callback_def)
qed

lemma sni_lookup_panics_witness:
  "\<exists>m. build_ssl_matcher static_matchit [(''1'', sample_ssl ''1'' [''*.ab''])] = Inr m \<and>
     certificate_callback static_matchit m (sample_ssl [] []) (Some [CHR ''x'', CHR 0xC3, CHR 0xA9, CHR ''b'']) = None"
  using sni_lookup_panics [of static_matchit "sample_ssl ''1'' [''*.ab'']" "''ab''" "[CHR ''x'', CHR 0xC3, CHR 0xA9, CHR ''b'']" "''1''" "sample_ssl [] []"]
  by (simp add: static_matchit_ok sample_ssl_def is_continuation_def)

end
