(* ===== verification/Route.thy ===== *)
theory Route
  imports Matcher Load_Balancer Config_Graph "HOL-Library.Multiset"
begin

text \<open>
  Compiled services, global rules and routes (\<open>src/proxy/service.rs\<close>, \<open>src/proxy/global_rule.rs\<close>,
  \<open>src/proxy/route.rs\<close>), the merge of the plugins of a route and its service, and the route matcher.

  A built object is named by an allocation number: \<open>be_uuid\<close> and \<open>be_lb\<close> are fresh for each, so two
  upstream objects are the same \<open>Arc\<close> when they are equal. \<open>build_env\<close> holds what the constructors
  take from outside: the balancer of prepared material, fingerprints, the default timeout.
\<close>

section \<open>Compiled objects\<close>

type_synonym ('a, 'l) upstream_objects = "(string \<times> ('a, 'l) proxy_upstream) list"
type_synonym 'q prepared_upstreams = "(upstream_occurrence \<times> 'q) list"

record ('q, 'l) build_env =
  be_uuid :: "nat \<Rightarrow> string"
  be_origin :: "upstream \<Rightarrow> 64 word"
  be_lb :: "nat \<Rightarrow> upstream \<Rightarrow> 'q \<Rightarrow> string + 'l"
  be_default_timeout :: "timeout_conf option"
  be_cache_namespace :: "route \<Rightarrow> service option \<Rightarrow> 64 word"

record ('q, 'a, 'l) build_ctx =
  bc_upstreams :: "('a, 'l) upstream_objects"
  bc_prepared :: "'q prepared_upstreams"
  bc_owner :: scope_owner
  bc_alloc :: nat

record ('a, 'l, 's, 'e) proxy_service =
  sv_inner :: service
  sv_upstream :: "('a, 'l) proxy_upstream option"
  sv_plugins :: "('s, 'e) plugin_entry list"
  sv_inline_upstream :: "('a, 'l) proxy_upstream option"

record ('s, 'e) proxy_global_rule =
  pgr_inner :: global_rule
  pgr_plugins :: "('s, 'e) plugin_entry list"

record ('a, 'l, 's, 'e) proxy_route =
  ro_inner :: route
  ro_plugins :: "('s, 'e) plugin_entry list"
  ro_resolved_upstream :: "('a, 'l) proxy_upstream option"
  ro_effective_hosts :: "string list"
  ro_service_name :: "string option"
  ro_executor :: "('s, 'e) executor"
  ro_inline_upstream :: "('a, 'l) proxy_upstream option"
  ro_cache_namespace :: "64 word"
  ro_serves_preflight :: bool

definition with_context :: "string \<Rightarrow> proxy_error + 'b \<Rightarrow> proxy_error + 'b" where
  "with_context c r = map_err (\<lambda>e. PE_Internal (c @ '': '' @ proxy_error_display e)) r"

definition env_upstream :: "('q, 'l) build_env \<Rightarrow> nat \<Rightarrow> upstream \<Rightarrow> 'q \<Rightarrow> proxy_error + ('a, 'l) proxy_upstream" where
  "env_upstream B n = build_upstream (be_uuid B n) (be_origin B) (be_lb B n) (be_default_timeout B)"

text \<open>The inline upstream of a route or service; \<open>label\<close> and \<open>kind\<close> name the owner in its errors.\<close>

definition inline_upstream :: "('q, 'l) build_env \<Rightarrow> nat \<Rightarrow> 'q prepared_upstreams \<Rightarrow> upstream_occurrence \<Rightarrow>
    string \<Rightarrow> string \<Rightarrow> string \<Rightarrow> upstream option \<Rightarrow> proxy_error + ('a, 'l) proxy_upstream option" where
  "inline_upstream B n prepared occ label kind i u =
     (case u of
        None \<Rightarrow> Inr None
      | Some u \<Rightarrow>
          (case map_of prepared occ of
             None \<Rightarrow> Inl (PE_Configuration (label @ '' '' @ quoted i @ '' inline upstream was not prepared''))
           | Some q \<Rightarrow>
               sum_bind (with_context (''Failed to create upstream for '' @ kind @ '' '' @ quoted i)
                           (env_upstream B n u q)) (\<lambda>obj. Inr (Some obj))))"

fun build_plugins :: "(('s, 'e) plugin, ('q, 'a, 'l) build_ctx) plugin_fns \<Rightarrow> ('q, 'a, 'l) build_ctx \<Rightarrow>
    (string \<Rightarrow> proxy_error \<Rightarrow> string) \<Rightarrow> plugin_map \<Rightarrow> proxy_error + ('s, 'e) plugin_entry list" where
  "build_plugins F ctx msg [] = Inr []"
| "build_plugins F ctx msg ((name, v) # ps) =
     sum_bind (map_err (\<lambda>e. PE_Plugin (msg name e)) (build_plugin_with_upstreams F name v ctx)) (\<lambda>(p, ph).
     sum_bind (build_plugins F ctx msg ps) (\<lambda>es. Inr (\<lparr>pe_plugin = p, pe_phases = ph\<rparr> # es)))"

definition scope_plugins :: "(('s, 'e) plugin, ('q, 'a, 'l) build_ctx) plugin_fns \<Rightarrow> ('q, 'a, 'l) build_ctx \<Rightarrow>
    string \<Rightarrow> plugin_map \<Rightarrow> proxy_error + ('s, 'e) plugin_entry list" where
  "scope_plugins F ctx suffix ps =
     sum_bind (build_plugins F ctx (\<lambda>name e. ''Failed to build plugin '' @ quoted name @ suffix @ '': '' @ proxy_error_display e) ps)
       (\<lambda>es. Inr (sort_plugins_by_priority_desc es))"

definition build_service :: "(('s, 'e) plugin, ('q, 'a, 'l) build_ctx) plugin_fns \<Rightarrow> ('q, 'l) build_env \<Rightarrow> nat \<Rightarrow>
    service \<Rightarrow> ('a, 'l) upstream_objects \<Rightarrow> 'q prepared_upstreams \<Rightarrow> proxy_error + ('a, 'l, 's, 'e) proxy_service" where
  "build_service F B n s upstreams prepared =
     sum_bind (inline_upstream B n prepared (OccServiceInline (svc_id s)) ''Service'' ''service'' (svc_id s)
                 (svc_upstream s)) (\<lambda>inline.
     sum_bind (case inline of
                 Some u \<Rightarrow> Inr (Some u)
               | None \<Rightarrow>
                   (case svc_upstream_id s of
                      Some i \<Rightarrow>
                        (case map_of upstreams i of
                           None \<Rightarrow> Inl (missing_upstream (''Service '' @ quoted (svc_id s)) i)
                         | Some u \<Rightarrow> Inr (Some u))
                    | None \<Rightarrow> Inr None)) (\<lambda>up.
     sum_bind (scope_plugins F \<lparr>bc_upstreams = upstreams, bc_prepared = prepared, bc_owner = OwnService (svc_id s),
                 bc_alloc = n\<rparr> ('' for service '' @ quoted (svc_id s)) (svc_plugins s)) (\<lambda>plugins.
     Inr \<lparr>sv_inner = s, sv_upstream = up, sv_plugins = plugins, sv_inline_upstream = inline\<rparr>)))"

definition build_global_rule :: "(('s, 'e) plugin, ('q, 'a, 'l) build_ctx) plugin_fns \<Rightarrow> nat \<Rightarrow>
    global_rule \<Rightarrow> ('a, 'l) upstream_objects \<Rightarrow> 'q prepared_upstreams \<Rightarrow> proxy_error + ('s, 'e) proxy_global_rule" where
  "build_global_rule F n g upstreams prepared =
     sum_bind (scope_plugins F \<lparr>bc_upstreams = upstreams, bc_prepared = prepared, bc_owner = OwnGlobalRule (gr_id g),
                 bc_alloc = n\<rparr> ('' for global rule '' @ quoted (gr_id g)) (gr_plugins g)) (\<lambda>plugins.
     Inr \<lparr>pgr_inner = g, pgr_plugins = plugins\<rparr>)"

section \<open>Merging the plugins of a route and its service\<close>

definition build_plugin_name_index :: "('s, 'e) plugin_entry list \<Rightarrow> string list" where
  "build_plugin_name_index plugins = remdups_adj (sort (map pe_name plugins))"

text \<open>The binary search of a sorted list.\<close>

definition route_overrides_plugin :: "string list \<Rightarrow> string \<Rightarrow> bool" where
  "route_overrides_plugin names name \<longleftrightarrow> name \<in> set names"

fun merge_route_and_service_plugins ::
  "string list \<Rightarrow> ('s, 'e) plugin_entry list \<Rightarrow> ('s, 'e) plugin_entry list \<Rightarrow> ('s, 'e) plugin_entry list" where
  "merge_route_and_service_plugins names [] [] = []"
| "merge_route_and_service_plugins names (r # rs) [] = r # merge_route_and_service_plugins names rs []"
| "merge_route_and_service_plugins names [] (s # ss) =
     (if route_overrides_plugin names (pe_name s) then merge_route_and_service_plugins names [] ss
      else s # merge_route_and_service_plugins names [] ss)"
| "merge_route_and_service_plugins names (r # rs) (s # ss) =
     (if pe_priority r > pe_priority s then r # merge_route_and_service_plugins names rs (s # ss)
      else if pe_priority r < pe_priority s
      then (if route_overrides_plugin names (pe_name s) then merge_route_and_service_plugins names (r # rs) ss
            else s # merge_route_and_service_plugins names (r # rs) ss)
      else r # merge_route_and_service_plugins names rs (s # ss))"

section \<open>Building a route\<close>

definition CORS :: string where "CORS = ''cors''"

definition lookup_service :: "(string \<times> ('a, 'l, 's, 'e) proxy_service) list \<Rightarrow> route \<Rightarrow>
    proxy_error + ('a, 'l, 's, 'e) proxy_service option" where
  "lookup_service services r =
     (case rt_service_id r of
        None \<Rightarrow> Inr None
      | Some i \<Rightarrow>
          (case map_of services i of
             None \<Rightarrow> Inl (PE_Configuration (''Route '' @ quoted (rt_id r) @ '' references missing service '' @ quoted i))
           | Some s \<Rightarrow> Inr (Some s)))"

definition route_upstream :: "('a, 'l) upstream_objects \<Rightarrow> route \<Rightarrow> ('a, 'l, 's, 'e) proxy_service option \<Rightarrow>
    ('a, 'l) proxy_upstream option \<Rightarrow> proxy_error + ('a, 'l) proxy_upstream option" where
  "route_upstream upstreams r service inline =
     (case inline of
        Some u \<Rightarrow> Inr (Some u)
      | None \<Rightarrow>
          (case rt_upstream_id r of
             Some i \<Rightarrow>
               (case map_of upstreams i of
                  None \<Rightarrow> Inl (missing_upstream (''Route '' @ quoted (rt_id r)) i)
                | Some u \<Rightarrow> Inr (Some u))
           | None \<Rightarrow> Inr (case service of Some s \<Rightarrow> sv_upstream s | None \<Rightarrow> None)))"

definition build_route :: "(('s, 'e) plugin, ('q, 'a, 'l) build_ctx) plugin_fns \<Rightarrow> ('q, 'l) build_env \<Rightarrow> nat \<Rightarrow>
    route \<Rightarrow> ('a, 'l) upstream_objects \<Rightarrow> (string \<times> ('a, 'l, 's, 'e) proxy_service) list \<Rightarrow> 'q prepared_upstreams \<Rightarrow>
    proxy_error + ('a, 'l, 's, 'e) proxy_route" where
  "build_route F B n r upstreams services prepared =
     sum_bind (lookup_service services r) (\<lambda>service.
     sum_bind (inline_upstream B n prepared (OccRouteInline (rt_id r)) ''Route'' ''route'' (rt_id r)
                 (rt_upstream r)) (\<lambda>inline.
     sum_bind (route_upstream upstreams r service inline) (\<lambda>resolved.
     sum_bind (scope_plugins F \<lparr>bc_upstreams = upstreams, bc_prepared = prepared, bc_owner = OwnRoute (rt_id r),
                 bc_alloc = n\<rparr> [] (rt_plugins r)) (\<lambda>plugins.
     let effective_hosts =
           (if get_hosts r \<noteq> [] then get_hosts r
            else case service of Some s \<Rightarrow> svc_hosts (sv_inner s) | None \<Rightarrow> []);
         merged =
           (case service of
              Some s \<Rightarrow> merge_route_and_service_plugins (build_plugin_name_index plugins) plugins (sv_plugins s)
            | None \<Rightarrow> plugins);
         executor = (if merged = [] then executor_default else from_sorted merged)
     in Inr \<lparr>ro_inner = r, ro_plugins = plugins, ro_resolved_upstream = resolved,
             ro_effective_hosts = effective_hosts,
             ro_service_name = (case service of Some s \<Rightarrow> svc_name (sv_inner s) | None \<Rightarrow> None),
             ro_executor = executor, ro_inline_upstream = inline,
             ro_cache_namespace = be_cache_namespace B r (map_option sv_inner service),
             ro_serves_preflight = has_plugin executor CORS\<rparr>))))"

section \<open>The layer of the global rules\<close>

definition entry_before :: "string \<times> ('s, 'e) plugin_entry \<Rightarrow> string \<times> ('s, 'e) plugin_entry \<Rightarrow> bool" where
  "entry_before x y \<longleftrightarrow>
     (let (rule_a, a) = x; (rule_b, b) = y
      in pe_priority a > pe_priority b \<or>
         (pe_priority a = pe_priority b \<and> (pe_name a < pe_name b \<or> (pe_name a = pe_name b \<and> rule_a \<le> rule_b))))"

fun insert_rule_entry :: "string \<times> ('s, 'e) plugin_entry \<Rightarrow> (string \<times> ('s, 'e) plugin_entry) list \<Rightarrow>
    (string \<times> ('s, 'e) plugin_entry) list" where
  "insert_rule_entry x [] = [x]"
| "insert_rule_entry x (y # ys) = (if entry_before x y then x # y # ys else y # insert_rule_entry x ys)"

definition build_global_plugin_executor :: "(string \<times> ('s, 'e) proxy_global_rule) list \<Rightarrow> ('s, 'e) executor" where
  "build_global_plugin_executor rules =
     (let sorted_rules = sort_key (\<lambda>g. gr_id (pgr_inner g)) (map snd rules);
          plugins_with_rule = concat (map (\<lambda>g. map (\<lambda>e. (gr_id (pgr_inner g), e)) (pgr_plugins g)) sorted_rules)
      in from_sorted (map snd (foldr insert_rule_entry plugins_with_rule [])))"

section \<open>The merged layer\<close>

definition priority_desc :: "('s, 'e) plugin_entry list \<Rightarrow> bool" where
  "priority_desc es \<longleftrightarrow> sorted (map (\<lambda>e. - pe_priority e) es)"

lemma priority_desc_simps [simp]:
  "priority_desc []"
  "priority_desc (e # es) \<longleftrightarrow> (\<forall>d \<in> set es. pe_priority d \<le> pe_priority e) \<and> priority_desc es"
  by (auto simp: priority_desc_def)

lemma plugins_priority_desc: "sorted_wrt plugin_before es \<Longrightarrow> priority_desc es"
  by (induction es) (auto simp: plugin_before_def)

lemma mset_merge:
  "mset (merge_route_and_service_plugins names rs ss) = mset rs + mset (filter (\<lambda>e. pe_name e \<notin> set names) ss)"
  by (induction names rs ss rule: merge_route_and_service_plugins.induct)
    (simp_all add: route_overrides_plugin_def)

lemma set_merge:
  "set (merge_route_and_service_plugins names rs ss) = set rs \<union> {e \<in> set ss. pe_name e \<notin> set names}"
  by (metis mset_merge set_append mset_append set_mset_mset set_filter)

lemma sorted_merge:
  "priority_desc rs \<Longrightarrow> priority_desc ss \<Longrightarrow> priority_desc (merge_route_and_service_plugins names rs ss)"
proof (induction names rs ss rule: merge_route_and_service_plugins.induct)
  case (4 names r rs s ss)
  then show ?case
    by (cases "pe_priority r > pe_priority s"; cases "pe_priority r < pe_priority s") (auto simp: set_merge intro: order_trans)
qed (auto simp: set_merge)

lemma priority_class_empty:
  "priority_desc (r # rs) \<Longrightarrow> pe_priority r < p \<Longrightarrow> filter (\<lambda>e. p = pe_priority e) (r # rs) = []"
  by (auto simp: filter_empty_conv)

lemma filter_merge:
  "priority_desc rs \<Longrightarrow> priority_desc ss \<Longrightarrow>
   filter (\<lambda>e. p = pe_priority e) (merge_route_and_service_plugins names rs ss) =
   filter (\<lambda>e. p = pe_priority e) (rs @ filter (\<lambda>e. pe_name e \<notin> set names) ss)"
proof (induction names rs ss rule: merge_route_and_service_plugins.induct)
  case (4 names r rs s ss)
  show ?case
  proof (cases "pe_priority r < pe_priority s")
    case True
    show ?thesis
    proof (cases "pe_priority s = p")
      case p: True
      have "filter (\<lambda>e. p = pe_priority e) (r # rs) = []"
        using 4(5) True p by (intro priority_class_empty) auto
      then show ?thesis using 4 True p by (simp add: route_overrides_plugin_def)
    next
      case False
      then show ?thesis using 4 True
        by (cases "p = pe_priority r"; cases "pe_name s \<in> set names") (simp_all add: route_overrides_plugin_def)
    qed
  next
    case False
    then have m: "merge_route_and_service_plugins names (r # rs) (s # ss) =
        r # merge_route_and_service_plugins names rs (s # ss)" by simp
    have desc: "priority_desc rs" "priority_desc (s # ss)" using 4(5,6) by simp_all
    have "filter (\<lambda>e. p = pe_priority e) (merge_route_and_service_plugins names rs (s # ss)) =
        filter (\<lambda>e. p = pe_priority e) (rs @ filter (\<lambda>e. pe_name e \<notin> set names) (s # ss))"
      using 4(1) [OF _ desc] 4(4) [OF _ False desc] by blast
    then show ?thesis unfolding m by (simp only: filter.simps append_Cons)
  qed
qed (auto simp: route_overrides_plugin_def)

text \<open>C21: The plugins that run for a route bound to a service are the stable sort, by falling priority, of
  the route's own plugins followed by those service plugins whose name the route does not use: a route
  plugin overrides the service plugin of the same name, and on equal priority route plugins come first.\<close>

theorem route_plugins_merged:
  assumes "sorted_wrt plugin_before rs" and "sorted_wrt plugin_before ss"
  shows "merge_route_and_service_plugins (build_plugin_name_index rs) rs ss =
    sort_key (\<lambda>e. - pe_priority e) (rs @ filter (\<lambda>e. pe_name e \<notin> pe_name ` set rs) ss)"
proof -
  let ?m = "merge_route_and_service_plugins (build_plugin_name_index rs) rs ss"
  have names: "set (build_plugin_name_index rs) = pe_name ` set rs"
    by (simp add: build_plugin_name_index_def)
  have desc: "priority_desc rs" "priority_desc ss" using assms by (simp_all add: plugins_priority_desc)
  have "sort_key (\<lambda>e. - pe_priority e) (rs @ filter (\<lambda>e. pe_name e \<notin> pe_name ` set rs) ss) = ?m"
  proof (rule properties_for_sort_key)
    show "mset ?m = mset (rs @ filter (\<lambda>e. pe_name e \<notin> pe_name ` set rs) ss)"
      by (simp add: mset_merge names)
    show "sorted (map (\<lambda>e. - pe_priority e) ?m)"
      using sorted_merge [OF desc] by (simp add: priority_desc_def)
    show "filter (\<lambda>x. - pe_priority k = - pe_priority x) ?m =
        filter (\<lambda>x. - pe_priority k = - pe_priority x) (rs @ filter (\<lambda>e. pe_name e \<notin> pe_name ` set rs) ss)" for k
      using filter_merge [OF desc, of "pe_priority k"] by (simp add: names)
  qed
  then show ?thesis by simp
qed

definition sample_entry :: "string \<Rightarrow> int \<Rightarrow> (unit, unit) plugin_entry" where
  "sample_entry name prio =
     \<lparr>pe_plugin = \<lparr>pl_name = name, pl_priority = prio, pl_exit_transform = None,
        pl_request_filter = (\<lambda>s. (s, Inl ())), pl_early_request_filter = (\<lambda>s. (s, Inl ())),
        pl_upstream_request_filter = (\<lambda>s. (s, Inl ())), pl_response_filter = (\<lambda>s. (s, Inl ())),
        pl_request_body_filter = (\<lambda>s. (s, Inl ())), pl_response_body_filter = (\<lambda>s. (s, Inl ())),
        pl_upstream_peer_filter = (\<lambda>s. (s, Inl ())), pl_logging = (\<lambda>s. s)\<rparr>, pe_phases = 0\<rparr>"

lemma sample_entry_simps [simp]:
  "pe_name (sample_entry n p) = n" "pe_priority (sample_entry n p) = p"
  by (simp_all add: sample_entry_def pe_name_def pe_priority_def)

lemma route_plugins_merged_witness:
  "let rs = [sample_entry ''a'' 5, sample_entry ''b'' 1]; ss = [sample_entry ''c'' 5, sample_entry ''a'' 3, sample_entry ''d'' 2]
   in merge_route_and_service_plugins (build_plugin_name_index rs) rs ss =
      [sample_entry ''a'' 5, sample_entry ''c'' 5, sample_entry ''d'' 2, sample_entry ''b'' 1]"
  unfolding Let_def by (subst route_plugins_merged) (simp_all add: plugin_before_def)

end
