(* ===== verification/Route_Match.thy ===== *)
theory Route_Match
  imports Route Request
begin

text \<open>
  The route matcher (\<open>MatchEntry\<close> of \<open>src/proxy/route.rs\<close>). The routers are \<open>matchit\<close>'s. \<open>RouterInsert\<close> carries
  the message of a configuration error; \<open>RouterPanics\<close> stands for the \<open>unwrap\<close> after the insertion of a host.
\<close>

section \<open>Building\<close>

datatype router_failure = RouterInsert string | RouterPanics

record 'r match_entry =
  me_non_host_uri :: "'r list router"
  me_host_uris :: "'r list router router"
  me_global_cors :: bool

definition route_priority :: "('a, 'l, 's, 'e) proxy_route \<Rightarrow> nat" where
  "route_priority r = unat (rt_priority (ro_inner r))"

definition allows_method :: "('a, 'l, 's, 'e) proxy_route \<Rightarrow> string \<Rightarrow> bool" where
  "allows_method r meth \<longleftrightarrow> rt_methods (ro_inner r) = [] \<or> meth \<in> set (rt_methods (ro_inner r))"

definition reverse_ascii_lowercase :: "string \<Rightarrow> string" where
  "reverse_ascii_lowercase s = rev_chars (to_ascii_lowercase s)"

definition reverse_host :: "string \<Rightarrow> string" where
  "reverse_host host =
     (case strip_prefix ''*'' host of
        Some domain_part \<Rightarrow> reverse_ascii_lowercase domain_part @ ''{*subdomain}''
      | None \<Rightarrow> reverse_ascii_lowercase host)"

definition insert_into_router :: "matchit \<Rightarrow> string \<Rightarrow> ('a, 'l, 's, 'e) proxy_route \<Rightarrow>
    ('a, 'l, 's, 'e) proxy_route list router \<Rightarrow> router_failure + ('a, 'l, 's, 'e) proxy_route list router" where
  "insert_into_router M uri route r =
     (case router_at_mut M r uri of
        Some (p, routes) \<Rightarrow>
          Inr (AList.update p (sort_key (\<lambda>b. - int (route_priority b)) (routes @ [route])) r)
      | None \<Rightarrow> map_err RouterInsert (router_insert M uri [route] r))"

fun insert_uris :: "matchit \<Rightarrow> ('a, 'l, 's, 'e) proxy_route \<Rightarrow> string list \<Rightarrow>
    ('a, 'l, 's, 'e) proxy_route list router \<Rightarrow> router_failure + ('a, 'l, 's, 'e) proxy_route list router" where
  "insert_uris M route [] r = Inr r"
| "insert_uris M route (uri # uris) r = sum_bind (insert_into_router M uri route r) (insert_uris M route uris)"

definition insert_host :: "matchit \<Rightarrow> ('a, 'l, 's, 'e) proxy_route \<Rightarrow> string list \<Rightarrow> string \<Rightarrow>
    ('a, 'l, 's, 'e) proxy_route list router router \<Rightarrow>
    router_failure + ('a, 'l, 's, 'e) proxy_route list router router" where
  "insert_host M route uris host hosts =
     (let processed_host = reverse_host host
      in sum_bind
           (case router_at_mut M hosts processed_host of
              Some (p, inner) \<Rightarrow> Inr (p, inner, hosts)
            | None \<Rightarrow>
                sum_bind (map_err RouterInsert (router_insert M processed_host [] hosts)) (\<lambda>hosts.
                case router_at_mut M hosts processed_host of
                  Some (p, inner) \<Rightarrow> Inr (p, inner, hosts)
                | None \<Rightarrow> Inl RouterPanics)) (\<lambda>(p, inner, hosts).
         sum_bind (insert_uris M route uris inner) (\<lambda>inner. Inr (AList.update p inner hosts))))"

fun insert_hosts :: "matchit \<Rightarrow> ('a, 'l, 's, 'e) proxy_route \<Rightarrow> string list \<Rightarrow> string list \<Rightarrow>
    ('a, 'l, 's, 'e) proxy_route list router router \<Rightarrow>
    router_failure + ('a, 'l, 's, 'e) proxy_route list router router" where
  "insert_hosts M route uris [] hosts = Inr hosts"
| "insert_hosts M route uris (h # hs) hosts =
     sum_bind (insert_host M route uris h hosts) (insert_hosts M route uris hs)"

definition insert_route :: "matchit \<Rightarrow> ('a, 'l, 's, 'e) proxy_route \<Rightarrow> ('a, 'l, 's, 'e) proxy_route match_entry \<Rightarrow>
    router_failure + ('a, 'l, 's, 'e) proxy_route match_entry" where
  "insert_route M route m =
     (if ro_effective_hosts route \<noteq> []
      then sum_bind (insert_hosts M route (get_uris (ro_inner route)) (ro_effective_hosts route) (me_host_uris m))
             (\<lambda>hosts. Inr (m\<lparr>me_host_uris := hosts\<rparr>))
      else sum_bind (insert_uris M route (get_uris (ro_inner route)) (me_non_host_uri m))
             (\<lambda>r. Inr (m\<lparr>me_non_host_uri := r\<rparr>)))"

fun matcher_failure :: "('a, 'l, 's, 'e) proxy_route \<Rightarrow> router_failure \<Rightarrow> router_failure" where
  "matcher_failure r (RouterInsert e) =
     RouterInsert (''Failed to build route matcher for '' @ quoted (rt_id (ro_inner r)) @ '': '' @ e)"
| "matcher_failure r RouterPanics = RouterPanics"

fun insert_routes :: "matchit \<Rightarrow> ('a, 'l, 's, 'e) proxy_route list \<Rightarrow> ('a, 'l, 's, 'e) proxy_route match_entry \<Rightarrow>
    router_failure + ('a, 'l, 's, 'e) proxy_route match_entry" where
  "insert_routes M [] m = Inr m"
| "insert_routes M (r # rs) m = sum_bind (map_err (matcher_failure r) (insert_route M r m)) (insert_routes M rs)"

definition match_order :: "('a, 'l, 's, 'e) proxy_route list \<Rightarrow> ('a, 'l, 's, 'e) proxy_route list" where
  "match_order rs = sort_key (\<lambda>r. - int (route_priority r)) (sort_key (\<lambda>r. rt_id (ro_inner r)) rs)"

definition build_matcher :: "matchit \<Rightarrow> (string \<times> ('a, 'l, 's, 'e) proxy_route) list \<Rightarrow> ('s, 'e) executor \<Rightarrow>
    router_failure + ('a, 'l, 's, 'e) proxy_route match_entry" where
  "build_matcher M routes global_plugins =
     insert_routes M (match_order (map snd routes))
       \<lparr>me_non_host_uri = [], me_host_uris = [], me_global_cors = has_plugin global_plugins CORS\<rparr>"

section \<open>Matching\<close>

type_synonym 'r route_match = "(path_params \<times> 'r) option"

definition match_uri_method :: "matchit \<Rightarrow> ('a, 'l, 's, 'e) proxy_route list router \<Rightarrow> string \<Rightarrow> string \<Rightarrow>
    ('a, 'l, 's, 'e) proxy_route route_match" where
  "match_uri_method M r uri meth =
     (case router_at M r uri of
        Some (routes, params) \<Rightarrow>
          map_option (\<lambda>route. (params, route)) (find (\<lambda>route. allows_method route meth) routes)
      | None \<Rightarrow> None)"

definition match_host_uri_method :: "matchit \<Rightarrow> ('a, 'l, 's, 'e) proxy_route match_entry \<Rightarrow> string option \<Rightarrow>
    string \<Rightarrow> string \<Rightarrow> ('a, 'l, 's, 'e) proxy_route route_match" where
  "match_host_uri_method M m host uri meth =
     (let by_host =
        (case host of
           Some h \<Rightarrow>
             if h = [] then None
             else (case router_at M (me_host_uris m) (reverse_ascii_lowercase h) of
                     Some (inner, _) \<Rightarrow> match_uri_method M inner uri meth
                   | None \<Rightarrow> None)
         | None \<Rightarrow> None)
      in case by_host of Some result \<Rightarrow> Some result | None \<Rightarrow> match_uri_method M (me_non_host_uri m) uri meth)"

definition match_preflight_uri :: "matchit \<Rightarrow> ('a, 'l, 's, 'e) proxy_route list router \<Rightarrow> string \<Rightarrow> string \<Rightarrow>
    bool \<Rightarrow> ('a, 'l, 's, 'e) proxy_route route_match" where
  "match_preflight_uri M r uri meth global_cors =
     (case router_at M r uri of
        Some (routes, params) \<Rightarrow>
          map_option (\<lambda>route. (params, route))
            (find (\<lambda>route. (global_cors \<or> ro_serves_preflight route) \<and> allows_method route meth) routes)
      | None \<Rightarrow> None)"

definition match_request :: "matchit \<Rightarrow> 'h http_lib \<Rightarrow> ('a, 'l, 's, 'e) proxy_route match_entry \<Rightarrow> 'h request \<Rightarrow>
    ('a, 'l, 's, 'e) proxy_route route_match" where
  "match_request M H m r = match_host_uri_method M m (get_request_host H r) (ur_path (rh_uri r)) (rh_method r)"

definition ORIGIN :: string where "ORIGIN = ''origin''"

definition ACCESS_CONTROL_REQUEST_METHOD :: string where
  "ACCESS_CONTROL_REQUEST_METHOD = ''access-control-request-method''"

text \<open>\<open>valid_method\<close> is the parser of the http crate.\<close>

definition match_preflight :: "matchit \<Rightarrow> 'h http_lib \<Rightarrow> (string \<Rightarrow> bool) \<Rightarrow>
    ('a, 'l, 's, 'e) proxy_route match_entry \<Rightarrow> 'h request \<Rightarrow> ('a, 'l, 's, 'e) proxy_route route_match" where
  "match_preflight M H valid_method m r =
     (if rh_method r \<noteq> ''OPTIONS'' \<or> hl_get_all H (rh_headers r) ORIGIN = [] then None
      else case get_req_header_value H r ACCESS_CONTROL_REQUEST_METHOD of
        None \<Rightarrow> None
      | Some meth \<Rightarrow>
          if \<not> valid_method meth then None
          else
            let uri = ur_path (rh_uri r);
                by_host =
                  (case get_request_host H r of
                     Some host \<Rightarrow>
                       if host = [] then None
                       else (case router_at M (me_host_uris m) (reverse_ascii_lowercase host) of
                               Some (inner, _) \<Rightarrow> match_preflight_uri M inner uri meth (me_global_cors m)
                             | None \<Rightarrow> None)
                   | None \<Rightarrow> None)
            in case by_host of
                 Some result \<Rightarrow> Some result
               | None \<Rightarrow> match_preflight_uri M (me_non_host_uri m) uri meth (me_global_cors m))"

section \<open>The matcher holds every route under its own patterns\<close>

text \<open>Patterns none of which, read as a path, is matched by another.\<close>

definition disjoint_patterns :: "matchit \<Rightarrow> string set \<Rightarrow> bool" where
  "disjoint_patterns M ps \<longleftrightarrow> (\<forall>p \<in> ps. \<forall>q \<in> ps. mi_matches M q p \<longleftrightarrow> q = p)"

lemma disjoint_patterns_mono: "disjoint_patterns M ps \<Longrightarrow> qs \<subseteq> ps \<Longrightarrow> disjoint_patterns M qs"
  unfolding disjoint_patterns_def by (meson subsetD)

definition outranks :: "('a, 'l, 's, 'e) proxy_route \<Rightarrow> ('a, 'l, 's, 'e) proxy_route \<Rightarrow> bool" where
  "outranks r r' \<longleftrightarrow> route_priority r > route_priority r' \<or>
     (route_priority r = route_priority r' \<and> rt_id (ro_inner r) \<le> rt_id (ro_inner r'))"

definition under :: "'k \<Rightarrow> ('k \<times> 'v) list \<Rightarrow> 'v list" where
  "under k ps = map snd (filter (\<lambda>(q, _). q = k) ps)"

lemma under_simps [simp]:
  "under k [] = []" "under k (ps @ qs) = under k ps @ under k qs"
  "under k [(p, v)] = (if p = k then [v] else [])"
  by (simp_all add: under_def)

lemma set_under: "v \<in> set (under k ps) \<longleftrightarrow> (k, v) \<in> set ps"
  by (force simp: under_def)

definition holds_routes :: "('a, 'l, 's, 'e) proxy_route list router \<Rightarrow> (string \<times> ('a, 'l, 's, 'e) proxy_route) list \<Rightarrow> bool" where
  "holds_routes r ps \<longleftrightarrow> keys r = keys ps \<and> (\<forall>p \<in> keys ps. map_of r p = Some (under p ps))"

lemma at_mut_disjoint:
  assumes M: "matchit_ok M" and dis: "disjoint_patterns M (insert uri (keys r))"
  shows "router_at_mut M r uri = map_option (\<lambda>v. (uri, v)) (map_of r uri)"
proof (cases "mi_at M (map fst r) uri")
  case None
  have "uri \<notin> keys r"
  proof
    assume "uri \<in> keys r"
    then have "\<not> mi_matches M uri uri" using matchit_at(1) [OF M None, of uri] by simp
    then show False using dis by (simp add: disjoint_patterns_def)
  qed
  then show ?thesis using None by (simp add: router_at_mut_def map_of_None_keys [symmetric])
next
  case (Some a)
  obtain p params where a: "a = (p, params)" by (cases a)
  have "p \<in> keys r" "mi_matches M p uri" using matchit_at(2) [OF M, of "map fst r" uri p params] Some a by auto
  then have "p = uri" using dis by (auto simp: disjoint_patterns_def)
  then show ?thesis using Some a by (simp add: router_at_mut_def)
qed

lemma sorted_desc_append:
  assumes "sorted_wrt outranks xs" and "\<forall>y \<in> set xs. outranks y x"
  shows "sort_key (\<lambda>b. - int (route_priority b)) (xs @ [x]) = xs @ [x]"
proof (rule sort_key_id_if_sorted)
  have "sorted_wrt outranks (xs @ [x])" using assms by (simp add: sorted_wrt_append)
  then have "sorted_wrt (\<lambda>a b. - int (route_priority a) \<le> - int (route_priority b)) (xs @ [x])"
    by (rule sorted_wrt_mono_rel [rotated]) (auto simp: outranks_def)
  then show "sorted (map (\<lambda>b. - int (route_priority b)) (xs @ [x]))" by (simp only: sorted_wrt_map)
qed

lemma sorted_wrt_under: "sorted_wrt P (map snd ps) \<Longrightarrow> sorted_wrt P (under k ps)"
  unfolding under_def by (induction ps) auto

lemma insert_into_router_step:
  assumes M: "matchit_ok M" and dis: "disjoint_patterns M (insert uri (keys r))"
    and holds: "holds_routes r ps" and sorted: "sorted_wrt outranks (map snd ps)"
    and last: "\<forall>y \<in> snd ` set ps. outranks y route"
    and insert: "insert_into_router M uri route r = Inr r'"
  shows "holds_routes r' (ps @ [(uri, route)])"
proof (cases "map_of r uri")
  case None
  then have "r' = r @ [(uri, [route])]"
    using insert at_mut_disjoint [OF M dis]
    by (auto simp: insert_into_router_def router_insert_def split: option.splits)
  moreover have "uri \<notin> keys ps" using holds None by (simp add: holds_routes_def map_of_None_keys)
  moreover from this have "under uri ps = []"
    by (force simp: under_def filter_empty_conv)
  ultimately show ?thesis using holds None by (auto simp: holds_routes_def map_add_def split: option.splits)
next
  case (Some v)
  then have "uri \<in> keys ps" using holds by (metis holds_routes_def map_of_None_keys option.distinct(1))
  then have "map_of r uri = Some (under uri ps)" using holds unfolding holds_routes_def by blast
  then have v: "v = under uri ps" using Some by simp
  have "sort_key (\<lambda>b. - int (route_priority b)) (v @ [route]) = v @ [route]"
    unfolding v by (rule sorted_desc_append [OF sorted_wrt_under [OF sorted]]) (use last in \<open>force simp: set_under\<close>)
  then have "r' = AList.update uri (v @ [route]) r"
    using insert at_mut_disjoint [OF M dis] Some by (simp add: insert_into_router_def)
  then show ?thesis using holds v \<open>uri \<in> keys ps\<close> by (auto simp: holds_routes_def keys_update)
qed

lemma sorted_wrt_append_one:
  "sorted_wrt outranks (map snd ps) \<Longrightarrow> \<forall>y \<in> snd ` set ps. outranks y route \<Longrightarrow>
   sorted_wrt outranks (map snd (ps @ [(k, route)]))"
  by (auto simp: sorted_wrt_append)

lemma outranks_refl [simp]: "outranks r r"
  by (simp add: outranks_def)

lemma sorted_const: "sorted_wrt outranks (map (\<lambda>_. r) xs)"
  by (induction xs) auto

lemma insert_uris_step:
  assumes M: "matchit_ok M" and dis: "disjoint_patterns M (set uris \<union> keys r)"
    and "holds_routes r ps" and "sorted_wrt outranks (map snd ps)"
    and "\<forall>y \<in> snd ` set ps. outranks y route" and "insert_uris M route uris r = Inr r'"
  shows "holds_routes r' (ps @ map (\<lambda>u. (u, route)) uris)"
  using assms(2-)
proof (induction uris arbitrary: r ps)
  case (Cons uri uris)
  obtain r1 where r1: "insert_into_router M uri route r = Inr r1" "insert_uris M route uris r1 = Inr r'"
    using Cons.prems(5) by auto
  have "disjoint_patterns M (insert uri (keys r))"
    using Cons.prems(1) by (auto simp: disjoint_patterns_def)
  from insert_into_router_step [OF M this Cons.prems(2-4) r1(1)]
  have h: "holds_routes r1 (ps @ [(uri, route)])" .
  then have "keys r1 = insert uri (keys r)" using Cons.prems(2) by (auto simp: holds_routes_def)
  then have "holds_routes r' ((ps @ [(uri, route)]) @ map (\<lambda>u. (u, route)) uris)"
    using Cons.prems r1(2) h by (intro Cons.IH sorted_wrt_append_one) (auto simp: insert_commute)
  then show ?case by simp
qed simp

text \<open>The routers of the hosts; a triple is a host pattern with what is filed under it.\<close>

definition holds_hosts :: "('a, 'l, 's, 'e) proxy_route list router router \<Rightarrow>
    (string \<times> string \<times> ('a, 'l, 's, 'e) proxy_route) list \<Rightarrow> bool" where
  "holds_hosts hosts ts \<longleftrightarrow> keys ts \<subseteq> keys hosts \<and>
     (\<forall>h inner. map_of hosts h = Some inner \<longrightarrow> holds_routes inner (under h ts))"

lemma insert_host_step:
  assumes M: "matchit_ok M" and hosts_dis: "disjoint_patterns M (insert (reverse_host host) (keys hosts))"
    and dis: "disjoint_patterns M (set uris \<union> fst ` snd ` set ts)"
    and holds: "holds_hosts hosts ts" and sorted: "sorted_wrt outranks (map (snd \<circ> snd) ts)"
    and last: "\<forall>(_, _, y) \<in> set ts. outranks y route"
    and insert: "insert_host M route uris host hosts = Inr hosts'"
  shows "holds_hosts hosts' (ts @ map (\<lambda>u. (reverse_host host, u, route)) uris)"
    and "keys hosts' = insert (reverse_host host) (keys hosts)"
proof -
  let ?h = "reverse_host host"
  have "\<exists>inner hs. insert_host M route uris host hosts =
        sum_bind (insert_uris M route uris inner) (\<lambda>inner. Inr (AList.update ?h inner hs)) \<and>
      inner = unwrap_or (map_of hosts ?h) [] \<and> keys hs = insert ?h (keys hosts) \<and>
      (\<forall>k. k \<noteq> ?h \<longrightarrow> map_of hs k = map_of hosts k)"
  proof (cases "map_of hosts ?h")
    case None
    then have at: "router_at_mut M hosts ?h = None" using at_mut_disjoint [OF M hosts_dis] by simp
    then obtain hs where hs: "router_insert M ?h [] hosts = Inr hs"
      using insert by (cases "router_insert M ?h [] hosts") (auto simp: insert_host_def Let_def)
    then have hs': "hs = hosts @ [(?h, [])]" by (auto simp: router_insert_def split: option.splits)
    have "disjoint_patterns M (insert ?h (keys hs))" using hosts_dis by (simp add: hs' insert_absorb2)
    from at_mut_disjoint [OF M this] have "router_at_mut M hs ?h = Some (?h, [])"
      using None by (simp add: hs' map_add_def)
    then have "insert_host M route uris host hosts =
        sum_bind (insert_uris M route uris []) (\<lambda>inner. Inr (AList.update ?h inner hs))"
      using at hs by (simp add: insert_host_def Let_def)
    then show ?thesis using None
      by (intro exI [of _ "[]"] exI [of _ hs]) (auto simp: hs' map_add_def split: option.splits)
  next
    case (Some inner)
    then have "insert_host M route uris host hosts =
        sum_bind (insert_uris M route uris inner) (\<lambda>inner. Inr (AList.update ?h inner hosts))"
      using at_mut_disjoint [OF M hosts_dis] by (simp add: insert_host_def Let_def)
    moreover have "?h \<in> keys hosts" using Some by (metis map_of_None_keys option.distinct(1))
    ultimately show ?thesis using Some by (auto simp: insert_absorb)
  qed
  then obtain inner hs inner' where inner: "insert_uris M route uris inner = Inr inner'"
      "hosts' = AList.update ?h inner' hs" "inner = unwrap_or (map_of hosts ?h) []"
      "keys hs = insert ?h (keys hosts)" "\<And>k. k \<noteq> ?h \<Longrightarrow> map_of hs k = map_of hosts k"
    using insert by fastforce
  show "keys hosts' = insert ?h (keys hosts)" by (simp add: inner(2,4) keys_update)
  have old: "holds_routes inner (under ?h ts)"
  proof (cases "map_of hosts ?h")
    case None
    then have "?h \<notin> keys ts" using holds by (auto simp: holds_hosts_def map_of_None_keys)
    then have "under ?h ts = []" by (force simp: under_def filter_empty_conv)
    then show ?thesis using None inner(3) by (simp add: holds_routes_def)
  qed (use holds inner(3) in \<open>simp add: holds_hosts_def\<close>)
  have sub: "set (under ?h ts) \<subseteq> snd ` set ts" by (auto simp: under_def)
  have new: "holds_routes inner' (under ?h ts @ map (\<lambda>u. (u, route)) uris)"
  proof (rule insert_uris_step [OF M _ old _ _ inner(1)])
    have "keys inner = keys (under ?h ts)" using old by (simp add: holds_routes_def)
    also have "\<dots> \<subseteq> fst ` snd ` set ts" by (rule image_mono [OF sub])
    finally show "disjoint_patterns M (set uris \<union> keys inner)" by (intro disjoint_patterns_mono [OF dis]) (rule Un_mono [OF subset_refl])
    show "sorted_wrt outranks (map snd (under ?h ts))"
      using sorted_wrt_under [of "\<lambda>a b. outranks (snd a) (snd b)" ts ?h] sorted by (simp add: sorted_wrt_map comp_def)
    show "\<forall>y \<in> snd ` set (under ?h ts). outranks y route"
    proof
      fix y assume "y \<in> snd ` set (under ?h ts)"
      then obtain u where "(u, y) \<in> set (under ?h ts)" by auto
      then have "(u, y) \<in> snd ` set ts" by (rule subsetD [OF sub])
      then show "outranks y route" using last by auto
    qed
  qed
  have under: "under k (map (\<lambda>u. (?h, u, route)) uris) = (if k = ?h then map (\<lambda>u. (u, route)) uris else [])" for k
    by (induction uris) (auto simp: under_def)
  show "holds_hosts hosts' (ts @ map (\<lambda>u. (?h, u, route)) uris)"
    unfolding holds_hosts_def
  proof (intro conjI allI impI)
    show "keys (ts @ map (\<lambda>u. (?h, u, route)) uris) \<subseteq> keys hosts'"
    proof -
      have "keys ts \<subseteq> keys hosts" using holds by (simp add: holds_hosts_def)
      moreover have "keys (map (\<lambda>u. (?h, u, route)) uris) \<subseteq> {?h}" by auto
      moreover have "keys hosts' = insert ?h (keys hosts)" by (simp add: inner(2,4) keys_update)
      ultimately show ?thesis unfolding set_append image_Un by blast
    qed
    fix k v assume v: "map_of hosts' k = Some v"
    show "holds_routes v (under k (ts @ map (\<lambda>u. (?h, u, route)) uris))"
    proof (cases "k = ?h")
      case True
      then show ?thesis using v new under [of k] by (simp add: inner(2))
    next
      case False
      then have "map_of hosts k = Some v" using v inner(5) [of k] by (simp add: inner(2))
      then show ?thesis using holds False under [of k] by (simp add: holds_hosts_def)
    qed
  qed
qed

lemma insert_hosts_step:
  assumes M: "matchit_ok M" and "disjoint_patterns M (set (map reverse_host hs) \<union> keys hosts)"
    and "disjoint_patterns M (set uris \<union> fst ` snd ` set ts)"
    and "holds_hosts hosts ts" and "sorted_wrt outranks (map (snd \<circ> snd) ts)"
    and "\<forall>(_, _, y) \<in> set ts. outranks y route"
    and "insert_hosts M route uris hs hosts = Inr hosts'"
  shows "holds_hosts hosts' (ts @ concat (map (\<lambda>h. map (\<lambda>u. (reverse_host h, u, route)) uris) hs)) \<and>
    keys hosts' = set (map reverse_host hs) \<union> keys hosts"
  using assms(2-)
proof (induction hs arbitrary: hosts ts)
  case (Cons h hs)
  obtain hosts1 where h1: "insert_host M route uris h hosts = Inr hosts1" "insert_hosts M route uris hs hosts1 = Inr hosts'"
    using Cons.prems(6) by auto
  have "disjoint_patterns M (insert (reverse_host h) (keys hosts))"
    using Cons.prems(1) by (auto simp: disjoint_patterns_def)
  note step = insert_host_step [OF M this Cons.prems(2-5) h1(1)]
  let ?ts = "ts @ map (\<lambda>u. (reverse_host h, u, route)) uris"
  have "holds_hosts hosts' (?ts @ concat (map (\<lambda>h. map (\<lambda>u. (reverse_host h, u, route)) uris) hs)) \<and>
    keys hosts' = set (map reverse_host hs) \<union> keys hosts1"
  proof (rule Cons.IH [OF _ _ step(1) _ _ h1(2)])
    show "disjoint_patterns M (set (map reverse_host hs) \<union> keys hosts1)"
      using Cons.prems(1) by (simp add: step(2) insert_commute)
    show "disjoint_patterns M (set uris \<union> fst ` snd ` set ?ts)"
      using Cons.prems(2) by (rule back_subst [of "disjoint_patterns M"]) (auto simp: image_iff)
    show "sorted_wrt outranks (map (snd \<circ> snd) ?ts)"
      using Cons.prems(4,5) sorted_const [of route uris] by (auto simp: sorted_wrt_append comp_def)
    show "\<forall>(_, _, y) \<in> set ?ts. outranks y route" using Cons.prems(5) by auto
  qed
  then show ?case by (simp add: step(2))
qed simp

text \<open>Under which keys a route is filed: no host (\<open>None\<close>) or one of its host patterns, and a URI.\<close>

definition filed :: "('a, 'l, 's, 'e) proxy_route \<Rightarrow> string option \<Rightarrow> string \<Rightarrow> bool" where
  "filed r k p \<longleftrightarrow> p \<in> set (get_uris (ro_inner r)) \<and>
     (case k of None \<Rightarrow> ro_effective_hosts r = [] | Some h \<Rightarrow> h \<in> reverse_host ` set (ro_effective_hosts r))"

definition holds_entry :: "('a, 'l, 's, 'e) proxy_route match_entry \<Rightarrow> ('a, 'l, 's, 'e) proxy_route list \<Rightarrow>
    (string \<times> ('a, 'l, 's, 'e) proxy_route) list \<Rightarrow> (string \<times> string \<times> ('a, 'l, 's, 'e) proxy_route) list \<Rightarrow> bool" where
  "holds_entry m rs ps ts \<longleftrightarrow> holds_routes (me_non_host_uri m) ps \<and> holds_hosts (me_host_uris m) ts \<and>
     sorted_wrt outranks (map snd ps) \<and> sorted_wrt outranks (map (snd \<circ> snd) ts) \<and>
     (\<forall>p r. (p, r) \<in> set ps \<longleftrightarrow> r \<in> set rs \<and> filed r None p) \<and>
     (\<forall>h p r. (h, p, r) \<in> set ts \<longleftrightarrow> r \<in> set rs \<and> filed r (Some h) p) \<and>
     keys (me_host_uris m) \<subseteq> (\<Union>r \<in> set rs. reverse_host ` set (ro_effective_hosts r))"

definition patterns_disjoint :: "matchit \<Rightarrow> ('a, 'l, 's, 'e) proxy_route set \<Rightarrow> bool" where
  "patterns_disjoint M rs \<longleftrightarrow>
     disjoint_patterns M (\<Union>r \<in> rs. set (get_uris (ro_inner r))) \<and>
     disjoint_patterns M (\<Union>r \<in> rs. reverse_host ` set (ro_effective_hosts r))"

lemma insert_route_step:
  assumes M: "matchit_ok M" and dis: "patterns_disjoint M (insert route (set rs))"
    and holds: "holds_entry m rs ps ts" and last: "\<forall>r \<in> set rs. outranks r route"
    and insert: "insert_route M route m = Inr m'"
  shows "\<exists>ps ts. holds_entry m' (rs @ [route]) ps ts"
proof -
  let ?uris = "get_uris (ro_inner route)" and ?hs = "ro_effective_hosts route"
  have uris: "disjoint_patterns M (\<Union>r \<in> insert route (set rs). set (get_uris (ro_inner r)))"
    and hosts: "disjoint_patterns M (\<Union>r \<in> insert route (set rs). reverse_host ` set (ro_effective_hosts r))"
    using dis by (simp_all add: patterns_disjoint_def)
  have h: "holds_routes (me_non_host_uri m) ps" "holds_hosts (me_host_uris m) ts"
    "sorted_wrt outranks (map snd ps)" "sorted_wrt outranks (map (snd \<circ> snd) ts)"
    "\<And>p r. (p, r) \<in> set ps \<longleftrightarrow> r \<in> set rs \<and> filed r None p"
    "\<And>h p r. (h, p, r) \<in> set ts \<longleftrightarrow> r \<in> set rs \<and> filed r (Some h) p"
    "keys (me_host_uris m) \<subseteq> (\<Union>r \<in> set rs. reverse_host ` set (ro_effective_hosts r))"
    using holds by (auto simp: holds_entry_def)
  show ?thesis
  proof (cases "?hs = []")
    case True
    then obtain r' where r': "insert_uris M route ?uris (me_non_host_uri m) = Inr r'" "m' = m\<lparr>me_non_host_uri := r'\<rparr>"
      using insert by (auto simp: insert_route_def)
    let ?ps = "ps @ map (\<lambda>u. (u, route)) ?uris"
    have keys: "keys (me_non_host_uri m) = keys ps" using h(1) by (simp add: holds_routes_def)
    have "keys ps \<subseteq> (\<Union>r \<in> set rs. set (get_uris (ro_inner r)))" using h(5) by (force simp: filed_def)
    then have d: "disjoint_patterns M (set ?uris \<union> keys (me_non_host_uri m))"
      unfolding keys by (intro disjoint_patterns_mono [OF uris]) auto
    have out: "\<forall>y \<in> snd ` set ps. outranks y route" using h(5) last by auto
    have "holds_routes r' ?ps" by (rule insert_uris_step [OF M d h(1,3) out r'(1)])
    moreover have "sorted_wrt outranks (map snd ?ps)"
      using h(3) out sorted_const [of route ?uris] by (auto simp: sorted_wrt_append comp_def)
    ultimately have "holds_entry m' (rs @ [route]) ?ps ts"
      using h True by (auto simp: holds_entry_def r'(2) filed_def)
    then show ?thesis by blast
  next
    case False
    then obtain hosts' where hosts': "insert_hosts M route ?uris ?hs (me_host_uris m) = Inr hosts'"
      "m' = m\<lparr>me_host_uris := hosts'\<rparr>" using insert by (auto simp: insert_route_def)
    let ?new = "concat (map (\<lambda>h. map (\<lambda>u. (reverse_host h, u, route)) ?uris) ?hs)"
    have "fst ` snd ` set ts \<subseteq> (\<Union>r \<in> set rs. set (get_uris (ro_inner r)))" using h(6) by (force simp: filed_def)
    then have d1: "disjoint_patterns M (set ?uris \<union> fst ` snd ` set ts)"
      by (intro disjoint_patterns_mono [OF uris]) auto
    have d2: "disjoint_patterns M (set (map reverse_host ?hs) \<union> keys (me_host_uris m))"
      using h(7) by (intro disjoint_patterns_mono [OF hosts]) auto
    have out: "\<forall>(_, _, y) \<in> set ts. outranks y route" using h(6) last by auto
    note step = insert_hosts_step [OF M d2 d1 h(2,4) out hosts'(1)]
    have "sorted_wrt outranks (map (snd \<circ> snd) ?new)"
    proof -
      have "map (snd \<circ> snd) ?new = map (\<lambda>_. route) (concat (map (\<lambda>h. ?uris) ?hs))"
        by (induction ?hs) (simp_all add: map_concat comp_def)
      then show ?thesis using sorted_const by metis
    qed
    then have "sorted_wrt outranks (map (snd \<circ> snd) (ts @ ?new))"
      using h(4) out by (auto simp: sorted_wrt_append)
    moreover have "(k, p, r) \<in> set (ts @ ?new) \<longleftrightarrow> r \<in> set (rs @ [route]) \<and> filed r (Some k) p" for k p r
      using h(6) by (auto simp: filed_def)
    moreover have "(p, r) \<in> set ps \<longleftrightarrow> r \<in> set (rs @ [route]) \<and> filed r None p" for p r
      using h(5) False by (auto simp: filed_def)
    ultimately have "holds_entry m' (rs @ [route]) ps (ts @ ?new)"
      using h step by (auto simp: holds_entry_def hosts'(2))
    then show ?thesis by blast
  qed
qed

lemma insert_routes_step:
  assumes M: "matchit_ok M" and "patterns_disjoint M (set rs \<union> set rs')" and "holds_entry m rs ps ts"
    and "sorted_wrt outranks (rs @ rs')" and "insert_routes M rs' m = Inr m'"
  shows "\<exists>ps ts. holds_entry m' (rs @ rs') ps ts"
  using assms(2-)
proof (induction rs' arbitrary: rs ps ts m)
  case (Cons r rs')
  obtain m1 where m1: "insert_route M r m = Inr m1" "insert_routes M rs' m1 = Inr m'" using Cons.prems(4) by auto
  have "patterns_disjoint M (insert r (set rs))"
    using Cons.prems(1) unfolding patterns_disjoint_def
    by (elim conjE, intro conjI) (erule disjoint_patterns_mono, auto)+
  moreover have "\<forall>r' \<in> set rs. outranks r' r" using Cons.prems(3) by (simp add: sorted_wrt_append)
  ultimately obtain ps1 ts1 where "holds_entry m1 (rs @ [r]) ps1 ts1"
    using insert_route_step [OF M _ Cons.prems(2) _ m1(1)] by blast
  from Cons.IH [OF _ this _ m1(2)] Cons.prems(1,3) show ?case by (simp add: insert_commute)
qed auto

lemma sorted_wrt_classes:
  "sorted (map f ys) \<Longrightarrow> (\<And>k. sorted_wrt R (filter (\<lambda>y. f y = k) ys)) \<Longrightarrow>
   sorted_wrt (\<lambda>a b. f a < f b \<or> (f a = f b \<and> R a b)) ys"
proof (induction ys)
  case (Cons y ys)
  have "sorted_wrt R (filter (\<lambda>z. f z = k) ys)" for k
    using Cons.prems(2) [of k] by (auto split: if_splits)
  moreover have "R y b" if "b \<in> set ys" "f y = f b" for b
    using Cons.prems(2) [of "f y"] that by simp
  ultimately show ?case using Cons.IH Cons.prems(1) by (auto simp: less_le)
qed simp

lemma match_order_sorted: "sorted_wrt outranks (match_order rs)" "set (match_order rs) = set rs"
proof -
  let ?p = "\<lambda>r :: ('a, 'b, 'c, 'd) proxy_route. - int (route_priority r)" and ?i = "\<lambda>r. rt_id (ro_inner r)"
  have "sorted_wrt (\<lambda>a b. ?p a < ?p b \<or> (?p a = ?p b \<and> ?i a \<le> ?i b)) (match_order rs)"
    unfolding match_order_def
  proof (rule sorted_wrt_classes)
    show "sorted (map ?p (sort_key ?p (sort_key ?i rs)))" by simp
    have "filter (\<lambda>y. ?p y = k) (sort_key ?p (sort_key ?i rs)) = filter (\<lambda>y. ?p y = k) (sort_key ?i rs)" for k
      by (rule sort_key_stable)
    moreover have "sorted_wrt (\<lambda>a b. ?i a \<le> ?i b) (sort_key ?i rs)"
      using sorted_sort_key [of ?i rs] by (simp only: sorted_wrt_map)
    ultimately show "sorted_wrt (\<lambda>a b. ?i a \<le> ?i b) (filter (\<lambda>y. ?p y = k) (sort_key ?p (sort_key ?i rs)))" for k
      by (simp add: sorted_wrt_filter)
  qed
  then show "sorted_wrt outranks (match_order rs)"
    by (rule sorted_wrt_mono_rel [rotated]) (auto simp: outranks_def)
qed (simp add: match_order_def)

lemma build_matcher_holds:
  assumes "matchit_ok M" and "patterns_disjoint M (snd ` set routes)"
    and "build_matcher M routes g = Inr m"
  shows "\<exists>rs ps ts. set rs = snd ` set routes \<and> holds_entry m rs ps ts"
proof -
  have "\<exists>ps ts. holds_entry m ([] @ match_order (map snd routes)) ps ts"
  proof (rule insert_routes_step [OF assms(1)])
    show "holds_entry \<lparr>me_non_host_uri = [], me_host_uris = [], me_global_cors = has_plugin g CORS\<rparr> [] [] []"
      by (simp add: holds_entry_def holds_routes_def holds_hosts_def)
    show "insert_routes M (match_order (map snd routes))
        \<lparr>me_non_host_uri = [], me_host_uris = [], me_global_cors = has_plugin g CORS\<rparr> = Inr m"
      using assms(3) by (simp add: build_matcher_def)
  qed (use assms(2) in \<open>simp_all add: match_order_sorted\<close>)
  then show ?thesis using match_order_sorted(2) [of "map snd routes"] by (metis append_Nil list.set_map)
qed

lemma first_outranks:
  assumes "sorted_wrt outranks xs" and "find P xs = Some x"
  shows "x \<in> set xs \<and> P x \<and> (\<forall>y \<in> set xs. P y \<longrightarrow> outranks x y)"
  using assms by (induction xs) (auto split: if_splits)

lemma router_choice:
  assumes M: "matchit_ok M" and holds: "holds_routes r ps" and sorted: "sorted_wrt outranks (map snd ps)"
  shows "case match_uri_method M r uri meth of
      Some (_, route) \<Rightarrow> \<exists>p. (p, route) \<in> set ps \<and> mi_matches M p uri \<and> allows_method route meth \<and>
        (\<forall>route'. (p, route') \<in> set ps \<longrightarrow> allows_method route' meth \<longrightarrow> outranks route route')
    | None \<Rightarrow> \<forall>(p, route) \<in> set ps. mi_matches M p uri \<longrightarrow> allows_method route meth \<longrightarrow>
        (\<exists>q \<in> keys ps. q \<noteq> p \<and> mi_matches M q uri)"
proof (cases "mi_at M (map fst r) uri")
  case None
  have "\<not> mi_matches M p uri" if "(p, route) \<in> set ps" for p route
  proof -
    have "p \<in> keys r" using that holds unfolding holds_routes_def by (metis fst_conv image_eqI)
    then show ?thesis using matchit_at(1) [OF M None, of p] by simp
  qed
  then show ?thesis using None by (auto simp: match_uri_method_def router_at_def)
next
  case (Some a)
  obtain p params where a: "a = (p, params)" by (cases a)
  have p: "p \<in> keys ps" "mi_matches M p uri"
    using matchit_at(2) [OF M, of "map fst r" uri p params] Some a holds by (auto simp: holds_routes_def)
  have "map_of r p = Some (under p ps)" using holds p(1) unfolding holds_routes_def by blast
  then have at: "router_at M r uri = Some (under p ps, params)"
    using Some by (simp add: router_at_def a)
  show ?thesis
  proof (cases "find (\<lambda>route. allows_method route meth) (under p ps)")
    case None
    then have no: "\<not> allows_method route meth" if "(p, route) \<in> set ps" for route
      using that by (auto simp: find_None_iff set_under)
    have "\<exists>q \<in> keys ps. q \<noteq> p' \<and> mi_matches M q uri"
      if "(p', route) \<in> set ps" "allows_method route meth" for p' route
    proof (rule bexI [OF _ p(1)])
      show "p \<noteq> p' \<and> mi_matches M p uri" using that no p(2) by blast
    qed
    moreover have "match_uri_method M r uri meth = None" using at None by (simp add: match_uri_method_def)
    ultimately show ?thesis unfolding case_prod_beta by (simp only: option.case) (metis prod.collapse)
  next
    case (Some route)
    from first_outranks [OF sorted_wrt_under [OF sorted] this]
    show ?thesis using at Some p(2) by (auto simp: match_uri_method_def set_under)
  qed
qed

text \<open>What the router of the hosts contributes to a lookup.\<close>

definition match_by_host :: "matchit \<Rightarrow> ('a, 'l, 's, 'e) proxy_route match_entry \<Rightarrow> string option \<Rightarrow> string \<Rightarrow>
    string \<Rightarrow> ('a, 'l, 's, 'e) proxy_route route_match" where
  "match_by_host M m host uri meth =
     (case host of
        Some h \<Rightarrow>
          if h = [] then None
          else (case router_at M (me_host_uris m) (reverse_ascii_lowercase h) of
                  Some (inner, _) \<Rightarrow> match_uri_method M inner uri meth
                | None \<Rightarrow> None)
      | None \<Rightarrow> None)"

lemma match_host_uri_method_cases:
  "match_host_uri_method M m host uri meth =
     (case match_by_host M m host uri meth of
        Some result \<Rightarrow> Some result
      | None \<Rightarrow> match_uri_method M (me_non_host_uri m) uri meth)"
  by (simp add: match_host_uri_method_def match_by_host_def Let_def)

definition host_matches :: "matchit \<Rightarrow> string option \<Rightarrow> string \<Rightarrow> bool" where
  "host_matches M host h \<longleftrightarrow> (\<exists>x. host = Some x \<and> x \<noteq> [] \<and> mi_matches M h (reverse_ascii_lowercase x))"

lemma host_choice:
  assumes M: "matchit_ok M" and holds: "holds_hosts hosts ts" and sorted: "sorted_wrt outranks (map (snd \<circ> snd) ts)"
    and m: "me_host_uris m = hosts"
  shows "case match_by_host M m host uri meth of
      Some (_, route) \<Rightarrow> \<exists>h p. (h, p, route) \<in> set ts \<and> host_matches M host h \<and> mi_matches M p uri \<and>
        allows_method route meth \<and>
        (\<forall>route'. (h, p, route') \<in> set ts \<longrightarrow> allows_method route' meth \<longrightarrow> outranks route route')
    | None \<Rightarrow> \<forall>(h, p, route) \<in> set ts. host_matches M host h \<longrightarrow> mi_matches M p uri \<longrightarrow> allows_method route meth \<longrightarrow>
        (\<exists>h' \<in> keys hosts. h' \<noteq> h \<and> host_matches M host h') \<or>
        (\<exists>q route'. (h, q, route') \<in> set ts \<and> q \<noteq> p \<and> mi_matches M q uri)"
proof (cases "\<exists>x. host = Some x \<and> x \<noteq> []")
  case False
  then show ?thesis by (auto simp: match_by_host_def host_matches_def split: option.splits)
next
  case True
  then obtain x where x: "host = Some x" "x \<noteq> []" by blast
  show ?thesis
  proof (cases "mi_at M (map fst hosts) (reverse_ascii_lowercase x)")
    case None
    have "\<not> host_matches M host h" if "(h, p, route) \<in> set ts" for h p route
    proof -
      have "h \<in> keys hosts" using that holds unfolding holds_hosts_def by (metis fst_conv image_eqI subsetD)
      then show ?thesis using matchit_at(1) [OF M None, of h] x by (simp add: host_matches_def)
    qed
    then show ?thesis using None x by (auto simp: match_by_host_def router_at_def m)
  next
    case (Some a)
    obtain h params where a: "a = (h, params)" by (cases a)
    have h: "h \<in> keys hosts" "mi_matches M h (reverse_ascii_lowercase x)"
      using matchit_at(2) [OF M, of "map fst hosts" "reverse_ascii_lowercase x" h params] Some a by auto
    then obtain inner where inner: "map_of hosts h = Some inner" by (metis map_of_None_keys not_None_eq)
    have by_host: "match_by_host M m host uri meth = match_uri_method M inner uri meth"
      using x Some a inner by (simp add: match_by_host_def router_at_def m)
    have hm: "host_matches M host h" using x h(2) by (simp add: host_matches_def)
    have filed: "holds_routes inner (under h ts)" using holds inner by (simp add: holds_hosts_def)
    have "sorted_wrt outranks (map snd (under h ts))"
      using sorted_wrt_under [of "\<lambda>a b. outranks (snd a) (snd b)" ts h] sorted by (simp add: sorted_wrt_map comp_def)
    note choice = router_choice [OF M filed this, of uri meth]
    show ?thesis
    proof (cases "match_uri_method M inner uri meth")
      case None
      have "(\<exists>h' \<in> keys hosts. h' \<noteq> k \<and> host_matches M host h') \<or>
          (\<exists>q route'. (k, q, route') \<in> set ts \<and> q \<noteq> p \<and> mi_matches M q uri)"
        if t: "(k, p, route) \<in> set ts" "mi_matches M p uri" "allows_method route meth" for k p route
      proof (cases "k = h")
        case True
        then have "(p, route) \<in> set (under h ts)" using t(1) by (simp add: set_under)
        moreover have "\<forall>(p, route) \<in> set (under h ts). mi_matches M p uri \<longrightarrow> allows_method route meth \<longrightarrow>
            (\<exists>q \<in> keys (under h ts). q \<noteq> p \<and> mi_matches M q uri)"
          using choice unfolding None option.case .
        ultimately have "\<exists>q \<in> keys (under h ts). q \<noteq> p \<and> mi_matches M q uri" using t(2,3) by blast
        then obtain q b where "(q, b) \<in> set (under h ts)" "q \<noteq> p" "mi_matches M q uri" by auto
        then show ?thesis unfolding set_under True by blast
      next
        case False
        then show ?thesis using h(1) hm by auto
      qed
      then show ?thesis unfolding by_host None by auto
    next
      case (Some b)
      then show ?thesis using choice hm unfolding by_host by (cases b) (auto simp: set_under)
    qed
  qed
qed

text \<open>C19: When no pattern of the configured routes matches another one, a request is given the route it
  should have: a configured route that allows the method, one of whose URI patterns matches the path
  and one of whose host patterns matches the host (or that has none), and that outranks - by priority,
  then identifier - every other route of the same patterns that allows the method. It is given none
  only if every route it fits is shadowed by another matching pattern.\<close>

theorem route_match_exact:
  assumes M: "matchit_ok M" and dis: "patterns_disjoint M (snd ` set routes)"
    and build: "build_matcher M routes g = Inr m"
  shows "case match_host_uri_method M m host uri meth of
      Some (_, route) \<Rightarrow> route \<in> snd ` set routes \<and> allows_method route meth \<and>
        (\<exists>k p. filed route k p \<and> mi_matches M p uri \<and> (case k of None \<Rightarrow> True | Some h \<Rightarrow> host_matches M host h) \<and>
          (\<forall>route' \<in> snd ` set routes. filed route' k p \<longrightarrow> allows_method route' meth \<longrightarrow> outranks route route'))
    | None \<Rightarrow> \<forall>route \<in> snd ` set routes. \<forall>k p. filed route k p \<longrightarrow> mi_matches M p uri \<longrightarrow>
        (case k of None \<Rightarrow> True | Some h \<Rightarrow> host_matches M host h) \<longrightarrow> allows_method route meth \<longrightarrow>
        (\<exists>route' \<in> snd ` set routes. \<exists>q. filed route' k q \<and> q \<noteq> p \<and> mi_matches M q uri) \<or>
        (\<exists>route' \<in> snd ` set routes. \<exists>h' \<in> reverse_host ` set (ro_effective_hosts route').
          k \<noteq> None \<and> k \<noteq> Some h' \<and> host_matches M host h')"
proof -
  obtain rs ps ts where rs: "set rs = snd ` set routes" and h: "holds_entry m rs ps ts"
    using build_matcher_holds [OF M dis build] by blast
  have e: "holds_routes (me_non_host_uri m) ps" "holds_hosts (me_host_uris m) ts"
    "sorted_wrt outranks (map snd ps)" "sorted_wrt outranks (map (snd \<circ> snd) ts)"
    "\<And>p r. (p, r) \<in> set ps \<longleftrightarrow> r \<in> set rs \<and> filed r None p"
    "\<And>h p r. (h, p, r) \<in> set ts \<longleftrightarrow> r \<in> set rs \<and> filed r (Some h) p"
    "keys (me_host_uris m) \<subseteq> (\<Union>r \<in> set rs. reverse_host ` set (ro_effective_hosts r))"
    using h by (auto simp: holds_entry_def)
  note by_host = host_choice [OF M e(2,4) refl, of host uri meth]
  note by_uri = router_choice [OF M e(1,3), of uri meth]
  have shadowed: "(\<exists>route' \<in> set rs. \<exists>q. filed route' k q \<and> q \<noteq> p \<and> mi_matches M q uri) \<or>
      (\<exists>route' \<in> set rs. \<exists>h' \<in> reverse_host ` set (ro_effective_hosts route').
        k \<noteq> None \<and> k \<noteq> Some h' \<and> host_matches M host h')"
    if none: "match_by_host M m host uri meth = None" "match_uri_method M (me_non_host_uri m) uri meth = None"
      and r: "route \<in> set rs" "filed route k p" "mi_matches M p uri"
        "case k of None \<Rightarrow> True | Some h \<Rightarrow> host_matches M host h" "allows_method route meth" for route k p
  proof (cases k)
    case None
    then have "(p, route) \<in> set ps" using r e(5) by blast
    then have "\<exists>q \<in> keys ps. q \<noteq> p \<and> mi_matches M q uri"
      using by_uri r(3,5) unfolding none(2) option.case by blast
    then obtain q b where "(q, b) \<in> set ps" "q \<noteq> p" "mi_matches M q uri" by auto
    then show ?thesis unfolding e(5) None by blast
  next
    case (Some h)
    then have t: "(h, p, route) \<in> set ts" and hm: "host_matches M host h" using r e(6) by auto
    have "(\<exists>h' \<in> keys (me_host_uris m). h' \<noteq> h \<and> host_matches M host h') \<or>
        (\<exists>q route'. (h, q, route') \<in> set ts \<and> q \<noteq> p \<and> mi_matches M q uri)"
      using bspec [OF by_host [unfolded none(1) option.case] t, unfolded prod.case] hm r(3,5) by (elim impE)
    then show ?thesis
    proof
      assume "\<exists>h' \<in> keys (me_host_uris m). h' \<noteq> h \<and> host_matches M host h'"
      then obtain h' where h': "h' \<in> keys (me_host_uris m)" "h' \<noteq> h" "host_matches M host h'" by blast
      from subsetD [OF e(7) h'(1)] obtain r' where "r' \<in> set rs" "h' \<in> reverse_host ` set (ro_effective_hosts r')" ..
      then show ?thesis using h'(2,3) unfolding Some by (intro disjI2 bexI [of _ r'] bexI [of _ h']) auto
    next
      assume "\<exists>q route'. (h, q, route') \<in> set ts \<and> q \<noteq> p \<and> mi_matches M q uri"
      then obtain q r' where "r' \<in> set rs" "filed r' (Some h) q" "q \<noteq> p" "mi_matches M q uri" unfolding e(6) by blast
      then show ?thesis unfolding Some by (intro disjI1 bexI [of _ r'] exI [of _ q] conjI)
    qed
  qed
  show ?thesis
  proof (cases "match_by_host M m host uri meth")
    case (Some a)
    obtain params route where a: "a = (params, route)" by (cases a)
    from by_host obtain h p where hp: "(h, p, route) \<in> set ts" "host_matches M host h" "mi_matches M p uri"
        "allows_method route meth"
        "\<forall>route'. (h, p, route') \<in> set ts \<longrightarrow> allows_method route' meth \<longrightarrow> outranks route route'"
      unfolding Some a option.case prod.case by blast
    then have "route \<in> set rs \<and> filed route (Some h) p" unfolding e(6) by blast
    then show ?thesis using hp unfolding match_host_uri_method_cases Some a option.case prod.case e(6) rs [symmetric]
      by (intro conjI exI [of _ "Some h"] exI [of _ p]) auto
  next
    case none: None
    show ?thesis
    proof (cases "match_uri_method M (me_non_host_uri m) uri meth")
      case (Some a)
      obtain params route where a: "a = (params, route)" by (cases a)
      from by_uri obtain p where p: "(p, route) \<in> set ps" "mi_matches M p uri" "allows_method route meth"
          "\<forall>route'. (p, route') \<in> set ps \<longrightarrow> allows_method route' meth \<longrightarrow> outranks route route'"
        unfolding Some a option.case prod.case by blast
      then have "route \<in> set rs \<and> filed route None p" unfolding e(5) by blast
      then show ?thesis using p
        unfolding match_host_uri_method_cases none Some a option.case prod.case e(5) rs [symmetric]
        by (intro conjI exI [of _ None] exI [of _ p]) auto
    next
      case None
      show ?thesis unfolding match_host_uri_method_cases none None option.case rs [symmetric]
        by (intro ballI allI impI) (rule shadowed [OF none None])
    qed
  qed
qed

section \<open>Sample routes\<close>

text \<open>A route of a priority, host patterns and URIs, without plugins, and a matcher of \<open>matchit\<close>'s laws
  that knows trailing catch-all parameters.\<close>

definition sample_route :: "string \<Rightarrow> 32 word \<Rightarrow> string list \<Rightarrow> string list \<Rightarrow> (unit, unit, unit, unit) proxy_route" where
  "sample_route i prio hosts uris =
     \<lparr>ro_inner = \<lparr>rt_id = i, rt_name = None, rt_uri = None, rt_uris = uris, rt_methods = [], rt_host = None,
        rt_hosts = hosts, rt_priority = prio, rt_plugins = [], rt_upstream = None, rt_upstream_id = None,
        rt_service_id = None, rt_timeout = None, rt_enable_websocket = False\<rparr>,
      ro_plugins = [], ro_resolved_upstream = None, ro_effective_hosts = hosts, ro_service_name = None,
      ro_executor = executor_default, ro_inline_upstream = None, ro_cache_namespace = 0,
      ro_serves_preflight = False\<rparr>"

definition catch_all :: "string \<Rightarrow> string option" where
  "catch_all p = map_option rev (strip_prefix (rev ''{*subdomain}'') (rev p))"

definition prefix_matches :: "string \<Rightarrow> string \<Rightarrow> bool" where
  "prefix_matches p path \<longleftrightarrow>
     (if static_pattern p then p = path
      else case catch_all p of Some pre \<Rightarrow> starts_with pre path \<and> pre \<noteq> path | None \<Rightarrow> False)"

definition prefix_matchit :: matchit where
  "prefix_matchit = \<lparr>mi_insert = (\<lambda>ps p. if p \<in> set ps then Some ''conflict'' else None),
     mi_matches = prefix_matches,
     mi_at = (\<lambda>ps path. if path \<in> set ps \<and> static_pattern path then Some (path, [])
        else map_option (\<lambda>p. (p, if static_pattern p then [] else [(''subdomain'', path)]))
               (find (\<lambda>p. prefix_matches p path) ps))\<rparr>"

lemma prefix_matchit_ok: "matchit_ok prefix_matchit"
proof -
  have at: "case mi_at prefix_matchit ps path of
      None \<Rightarrow> \<forall>p \<in> set ps. \<not> mi_matches prefix_matchit p path
    | Some (p, params) \<Rightarrow> p \<in> set ps \<and> mi_matches prefix_matchit p path \<and> (static_pattern p \<longrightarrow> params = [])" for ps path
  proof (cases "path \<in> set ps \<and> static_pattern path")
    case True
    then show ?thesis by (simp add: prefix_matchit_def prefix_matches_def)
  next
    case False
    then have "mi_at prefix_matchit ps path =
        map_option (\<lambda>p. (p, if static_pattern p then [] else [(''subdomain'', path)]))
          (find (\<lambda>p. prefix_matches p path) ps)" by (auto simp: prefix_matchit_def)
    then show ?thesis
    proof (cases "find (\<lambda>p. prefix_matches p path) ps")
      case (Some p)
      then have "p \<in> set ps \<and> prefix_matches p path" by (metis find_Some_iff nth_mem)
      then show ?thesis using Some \<open>mi_at prefix_matchit ps path = _\<close> by (simp add: prefix_matchit_def)
    qed (simp add: find_None_iff prefix_matchit_def)
  qed
  have "mi_matches prefix_matchit p path \<longleftrightarrow> p = path" if "static_pattern p" for p path
    using that by (simp add: prefix_matchit_def prefix_matches_def)
  moreover have "mi_at prefix_matchit ps p = Some (p, [])" if "p \<in> set ps" "static_pattern p" for ps p
    using that by (simp add: prefix_matchit_def)
  moreover have "mi_insert prefix_matchit ps p = None \<longleftrightarrow> p \<notin> set ps" for ps p
    by (simp add: prefix_matchit_def)
  ultimately show ?thesis using at unfolding matchit_ok_def by blast
qed

lemma route_match_exact_witness:
  "let admin = sample_route ''1'' 0 [''Admin.example.com''] [''/a'', ''/b''];
       low = sample_route ''2'' 3 [] [''/b'']; high = sample_route ''3'' 7 [] [''/b''];
       m = projr (build_matcher static_matchit [(''1'', admin), (''2'', low), (''3'', high)] executor_default)
   in match_host_uri_method static_matchit m (Some ''admin.EXAMPLE.com'') ''/b'' ''GET'' = Some ([], admin) \<and>
      match_host_uri_method static_matchit m (Some ''x.example.com'') ''/b'' ''GET'' = Some ([], high) \<and>
      outranks high low"
proof -
  let ?admin = "sample_route ''1'' 0 [''Admin.example.com''] [''/a'', ''/b'']"
  let ?low = "sample_route ''2'' 3 [] [''/b'']" and ?high = "sample_route ''3'' 7 [] [''/b'']"
  let ?routes = "[(''1'', ?admin), (''2'', ?low), (''3'', ?high)]"
  let ?m = "projr (build_matcher static_matchit ?routes executor_default)"
  have build: "build_matcher static_matchit ?routes executor_default = Inr ?m" by code_simp
  have dis: "patterns_disjoint static_matchit (snd ` set ?routes)" by code_simp
  have m: "match_host_uri_method static_matchit ?m (Some ''admin.EXAMPLE.com'') ''/b'' ''GET'' = Some ([], ?admin)"
    "match_host_uri_method static_matchit ?m (Some ''x.example.com'') ''/b'' ''GET'' = Some ([], ?high)"
    by code_simp+
  have "\<exists>k p. filed ?high k p \<and>
      (\<forall>r \<in> snd ` set ?routes. filed r k p \<longrightarrow> allows_method r ''GET'' \<longrightarrow> outranks ?high r)"
    using route_match_exact [OF static_matchit_ok dis build, where host = "Some ''x.example.com''"
        and uri = "''/b''" and meth = "''GET''"] unfolding m(2) option.case prod.case by blast
  then obtain k p where kp: "filed ?high k p"
      "\<forall>r \<in> snd ` set ?routes. filed r k p \<longrightarrow> allows_method r ''GET'' \<longrightarrow> outranks ?high r" by blast
  have "?low \<in> snd ` set ?routes" by simp
  moreover have "filed ?low k p" using kp(1) by (auto simp: filed_def sample_route_def get_uris_def split: option.splits)
  moreover have "allows_method ?low ''GET''" by code_simp
  ultimately have "outranks ?high ?low" using kp(2) by blast
  with m show ?thesis unfolding Let_def by blast
qed

section \<open>A route answers hosts that are not its own\<close>

lemma mi_at_only:
  assumes "matchit_ok M" and "mi_matches M w path"
  shows "\<exists>params. mi_at M [w] path = Some (w, params)"
  using matchit_at(1) [OF assms(1), of "[w]" path w] matchit_at(2) [OF assms(1), of "[w]" path] assms(2)
  by (cases "mi_at M [w] path") auto

text \<open>C26: The matcher files the routes of a host under the wildcard host that already covers it: when a
  route of a wildcard host outranks a route of an exact host below that wildcard, the second route
  answers requests for every other host of the wildcard too.\<close>

theorem host_route_leaks:
  assumes M: "matchit_ok M"
    and A: "ro_effective_hosts A = [wild]" "get_uris (ro_inner A) = [uri_a]"
    and B: "ro_effective_hosts B = [exact]" "get_uris (ro_inner B) = [uri_b]"
    and prio: "route_priority B < route_priority A"
    and uris: "static_pattern uri_a" "static_pattern uri_b" "uri_a \<noteq> uri_b"
    and wild: "mi_insert M [] (reverse_host wild) = None" "mi_matches M (reverse_host wild) (reverse_host wild)"
      "mi_matches M (reverse_host wild) (reverse_host exact)"
      "mi_matches M (reverse_host wild) (reverse_ascii_lowercase other)"
    and other: "static_pattern (reverse_host exact)" "reverse_host exact \<noteq> reverse_ascii_lowercase other" "other \<noteq> []"
    and meth: "allows_method B meth"
  shows "\<exists>m. build_matcher M [(i, A), (j, B)] g = Inr m \<and>
    match_host_uri_method M m (Some other) uri_b meth = Some ([], B) \<and> \<not> host_matches M (Some other) (reverse_host exact)"
proof -
  let ?w = "reverse_host wild"
  have order: "match_order [A, B] = [A, B]"
    using prio by (simp add: match_order_def)
  have empty: "mi_at M [] p = None" for p using matchit_at(2) [OF M, of "[]" p] by (cases "mi_at M [] p") auto
  have insert: "mi_insert M [] uri_a = None" "mi_insert M [uri_a] uri_b = None"
    using M uris unfolding matchit_ok_def by auto
  have at_uri: "mi_at M [uri_a] uri_b = None" "mi_at M [uri_a, uri_b] uri_b = Some (uri_b, [])"
    using uris by (simp_all add: matchit_at_static [OF M])
  obtain x y z where at: "mi_at M [?w] ?w = Some (?w, x)" "mi_at M [?w] (reverse_host exact) = Some (?w, y)"
      "mi_at M [?w] (reverse_ascii_lowercase other) = Some (?w, z)"
    using mi_at_only [OF M] wild(2-4) by meson
  let ?m = "\<lparr>me_non_host_uri = [], me_host_uris = [(?w, [(uri_a, [A]), (uri_b, [B])])], me_global_cors = has_plugin g CORS\<rparr>"
  note defs = insert_route_def insert_host_def insert_into_router_def router_at_mut_def router_at_def router_insert_def Let_def
  have a: "insert_route M A (me\<lparr>me_host_uris := []\<rparr>) = Inr (me\<lparr>me_host_uris := [(?w, [(uri_a, [A])])]\<rparr>)" for me
    using A empty wild(1) insert(1) at(1) by (simp add: defs)
  have b: "insert_route M B (me\<lparr>me_host_uris := [(?w, [(uri_a, [A])])]\<rparr>) =
      Inr (me\<lparr>me_host_uris := [(?w, [(uri_a, [A]), (uri_b, [B])])]\<rparr>)" for me
    using B at_uri(1) insert(2) at(2) by (simp add: defs)
  have "build_matcher M [(i, A), (j, B)] g = Inr ?m"
    using a [of ?m] b [of ?m] by (simp add: build_matcher_def order)
  moreover have "match_host_uri_method M ?m (Some other) uri_b meth = Some ([], B)"
    using other(3) at(3) at_uri(2) uris(3) meth by (simp add: match_host_uri_method_def match_uri_method_def defs)
  moreover have "\<not> host_matches M (Some other) (reverse_host exact)"
    using other by (auto simp: host_matches_def matchit_static [OF M])
  ultimately show ?thesis by blast
qed

lemma host_route_leaks_witness:
  "let public = sample_route ''1'' 9 [''*.example.com''] [''/public''];
       admin = sample_route ''2'' 0 [''admin.example.com''] [''/admin''];
       m = projr (build_matcher prefix_matchit [(''1'', public), (''2'', admin)] executor_default)
   in match_host_uri_method prefix_matchit m (Some ''other.example.com'') ''/admin'' ''GET'' = Some ([], admin)"
proof -
  let ?public = "sample_route ''1'' 9 [''*.example.com''] [''/public'']"
  let ?admin = "sample_route ''2'' 0 [''admin.example.com''] [''/admin'']"
  have "\<exists>m. build_matcher prefix_matchit [(''1'', ?public), (''2'', ?admin)] executor_default = Inr m \<and>
      match_host_uri_method prefix_matchit m (Some ''other.example.com'') ''/admin'' ''GET'' = Some ([], ?admin) \<and>
      \<not> host_matches prefix_matchit (Some ''other.example.com'') (reverse_host ''admin.example.com'')"
    by (rule host_route_leaks [OF prefix_matchit_ok, where wild = "''*.example.com''" and uri_a = "''/public''"]; code_simp)
  then show ?thesis unfolding Let_def by auto
qed

end
