(* ===== verification/Traffic_Split.thy ===== *)
theory Traffic_Split
  imports Route Request
begin

text \<open>
  The traffic-split plugin (\<open>src/plugins/traffic_split.rs\<close>): validation, the named and inline upstreams
  its configuration declares, construction against the upstreams of the candidate, the weighted draw
  and the request hook.

  Deserialisation is serde's: \<open>ts_config\<close> reads a plugin configuration, \<open>ts_upstream\<close> an upstream. The
  derived range check of a weight (at least 0) holds of every value. A random number below the total
  is a parameter of the draw.
\<close>

section \<open>Configuration\<close>

record weighted_upstream =
  wu_upstream_id :: "string option"
  wu_upstream :: "upstream option"
  wu_weight :: "32 word"

record match_rule =
  mr_vars :: "string list list"
  mr_weighted_upstreams :: "weighted_upstream list"

record split_serde =
  ts_config :: "json \<Rightarrow> string + match_rule list"
  ts_upstream :: "json \<Rightarrow> string + upstream"

definition no_rules :: proxy_error where
  "no_rules = PE_Plugin ''Traffic-split plugin requires at least one rule''"

definition rule_error :: "nat \<Rightarrow> string \<Rightarrow> proxy_error" where
  "rule_error i what = PE_Plugin (''Rule '' @ nat_to_string i @ what)"

definition both_set :: proxy_error where
  "both_set = PE_Configuration ''traffic-split target cannot set both upstream_id and upstream''"

fun total_weight :: "64 word \<Rightarrow> weighted_upstream list \<Rightarrow> proxy_error + 64 word" where
  "total_weight acc [] = Inr acc"
| "total_weight acc (w # ws) =
     (if unat acc + unat (wu_weight w) < 2 ^ 64 then total_weight (acc + ucast (wu_weight w)) ws
      else Inl (PE_Configuration ''traffic-split weight overflow''))"

definition rule_weight :: "nat \<Rightarrow> match_rule \<Rightarrow> proxy_error + 64 word" where
  "rule_weight i r =
     (if mr_weighted_upstreams r = [] then Inl (rule_error i '' must have at least one weighted upstream'')
      else sum_bind (total_weight 0 (mr_weighted_upstreams r)) (\<lambda>total.
           if total = 0 then Inl (rule_error i '' must have total weight greater than 0'') else Inr total))"

fun validate_rules :: "nat \<Rightarrow> match_rule list \<Rightarrow> proxy_error + unit" where
  "validate_rules i [] = Inr ()"
| "validate_rules i (r # rs) =
     sum_bind (rule_weight i r) (\<lambda>_.
     if \<exists>w \<in> set (mr_weighted_upstreams r). wu_upstream_id w \<noteq> None \<and> wu_upstream w \<noteq> None then Inl both_set
     else validate_rules (i + 1) rs)"

definition validate_traffic_split_config :: "split_serde \<Rightarrow> json \<Rightarrow> proxy_error + unit" where
  "validate_traffic_split_config S cfg =
     sum_bind (map_err PE_Serialization (ts_config S cfg)) (\<lambda>rules.
     if rules = [] then Inl no_rules else validate_rules 0 rules)"

definition named_upstream_ids :: "split_serde \<Rightarrow> json \<Rightarrow> proxy_error + string list" where
  "named_upstream_ids S cfg =
     sum_bind (map_err PE_Serialization (ts_config S cfg)) (\<lambda>rules.
     Inr (concat (map (\<lambda>r. concat (map (\<lambda>w. case wu_upstream_id w of Some i \<Rightarrow> [i] | None \<Rightarrow> [])
            (mr_weighted_upstreams r))) rules)))"

fun json_as_array :: "json \<Rightarrow> json list option" where
  "json_as_array (JArray xs) = Some xs"
| "json_as_array _ = None"

definition json_array :: "string \<Rightarrow> json \<Rightarrow> json list option" where
  "json_array k j = (case json_get k j of None \<Rightarrow> None | Some v \<Rightarrow> json_as_array v)"

fun target_jobs :: "split_serde \<Rightarrow> scope_owner \<Rightarrow> nat \<Rightarrow> nat \<Rightarrow> json list \<Rightarrow>
    proxy_error + (upstream_occurrence \<times> upstream) list" where
  "target_jobs S owner i j [] = Inr []"
| "target_jobs S owner i j (w # ws) =
     (case json_get ''upstream'' w of
        None \<Rightarrow> target_jobs S owner i (j + 1) ws
      | Some v \<Rightarrow>
          sum_bind (map_err (\<lambda>e. PE_Configuration (''Invalid traffic-split upstream: '' @ e)) (ts_upstream S v)) (\<lambda>u.
          sum_bind (target_jobs S owner i (j + 1) ws) (\<lambda>jobs. Inr ((OccTrafficSplit owner i j, u) # jobs))))"

fun rule_jobs :: "split_serde \<Rightarrow> scope_owner \<Rightarrow> nat \<Rightarrow> json list \<Rightarrow>
    proxy_error + (upstream_occurrence \<times> upstream) list" where
  "rule_jobs S owner i [] = Inr []"
| "rule_jobs S owner i (r # rs) =
     (case json_array ''weighted_upstreams'' r of
        None \<Rightarrow> Inl (PE_Configuration ''Invalid traffic-split weighted_upstreams'')
      | Some ws \<Rightarrow>
          sum_bind (target_jobs S owner i 0 ws) (\<lambda>jobs.
          sum_bind (rule_jobs S owner (i + 1) rs) (\<lambda>rest. Inr (jobs @ rest))))"

definition inline_upstream_jobs :: "split_serde \<Rightarrow> scope_owner \<Rightarrow> json \<Rightarrow>
    proxy_error + (upstream_occurrence \<times> upstream) list" where
  "inline_upstream_jobs S owner cfg =
     (case json_array ''rules'' cfg of
        None \<Rightarrow> Inl (PE_Configuration ''Invalid traffic-split rules'')
      | Some rules \<Rightarrow> rule_jobs S owner 0 rules)"

section \<open>Construction\<close>

datatype 'u weighted_target = TargetUpstream 'u | PassThrough

record 'u compiled_rule =
  cr_targets :: "(32 word \<times> 'u weighted_target) list"
  cr_total_weight :: "64 word"


record ('a, 'l) traffic_split =
  tf_config :: "match_rule list"
  tf_rules :: "('a, 'l) proxy_upstream compiled_rule list"
  tf_health_checks :: "(string \<times> ('a, 'l) proxy_upstream) list"

definition build_target :: "('q, 'l) build_env \<Rightarrow> ('q, 'a, 'l) build_ctx \<Rightarrow> nat \<Rightarrow> nat \<Rightarrow> weighted_upstream \<Rightarrow>
    proxy_error + (('a, 'l) proxy_upstream weighted_target \<times> (string \<times> ('a, 'l) proxy_upstream) list)" where
  "build_target B ctx i j w =
     (if wu_upstream_id w \<noteq> None \<and> wu_upstream w \<noteq> None then Inl both_set
      else case wu_upstream_id w of
        Some k \<Rightarrow>
          (case map_of (bc_upstreams ctx) k of
             None \<Rightarrow> Inl (missing_upstream ''Traffic-split'' k)
           | Some u \<Rightarrow> Inr (TargetUpstream u, []))
      | None \<Rightarrow>
          (case wu_upstream w of
             Some inline \<Rightarrow>
               (case map_of (bc_prepared ctx) (OccTrafficSplit (bc_owner ctx) i j) of
                  None \<Rightarrow> Inl (PE_Configuration (''Traffic-split inline upstream '' @ nat_to_string i @ ''/'' @
                            nat_to_string j @ '' was not prepared''))
                | Some q \<Rightarrow>
                    sum_bind (env_upstream B (bc_alloc ctx) inline q) (\<lambda>u.
                    Inr (TargetUpstream u, [(''traffic-split/'' @ nat_to_string i @ ''/'' @ nat_to_string j, u)])))
           | None \<Rightarrow> Inr (PassThrough, [])))"

fun build_targets :: "('q, 'l) build_env \<Rightarrow> ('q, 'a, 'l) build_ctx \<Rightarrow> nat \<Rightarrow> nat \<Rightarrow> weighted_upstream list \<Rightarrow>
    proxy_error + ((32 word \<times> ('a, 'l) proxy_upstream weighted_target) list \<times> (string \<times> ('a, 'l) proxy_upstream) list)" where
  "build_targets B ctx i j [] = Inr ([], [])"
| "build_targets B ctx i j (w # ws) =
     sum_bind (build_target B ctx i j w) (\<lambda>(t, checks).
     sum_bind (build_targets B ctx i (j + 1) ws) (\<lambda>(ts, rest). Inr ((wu_weight w, t) # ts, checks @ rest)))"

fun build_rules :: "('q, 'l) build_env \<Rightarrow> ('q, 'a, 'l) build_ctx \<Rightarrow> nat \<Rightarrow> match_rule list \<Rightarrow>
    proxy_error + (('a, 'l) proxy_upstream compiled_rule list \<times> (string \<times> ('a, 'l) proxy_upstream) list)" where
  "build_rules B ctx i [] = Inr ([], [])"
| "build_rules B ctx i (r # rs) =
     sum_bind (rule_weight i r) (\<lambda>total.
     sum_bind (build_targets B ctx i 0 (mr_weighted_upstreams r)) (\<lambda>(ts, checks).
     sum_bind (build_rules B ctx (i + 1) rs) (\<lambda>(crs, rest).
     Inr (\<lparr>cr_targets = ts, cr_total_weight = total\<rparr> # crs, checks @ rest))))"

definition create_traffic_split_plugin :: "split_serde \<Rightarrow> ('q, 'l) build_env \<Rightarrow> json \<Rightarrow> ('q, 'a, 'l) build_ctx \<Rightarrow>
    proxy_error + ('a, 'l) traffic_split" where
  "create_traffic_split_plugin S B cfg ctx =
     sum_bind (map_err PE_Serialization (ts_config S cfg)) (\<lambda>rules.
     if rules = [] then Inl no_rules
     else sum_bind (build_rules B ctx 0 rules) (\<lambda>(crs, checks).
          Inr \<lparr>tf_config = rules, tf_rules = crs, tf_health_checks = checks\<rparr>))"

section \<open>Requests\<close>

fun draw_target :: "nat \<Rightarrow> (32 word \<times> 'u weighted_target) list \<Rightarrow> 'u weighted_target option" where
  "draw_target n [] = None"
| "draw_target n ((w, t) # ts) = (if n < unat w then Some t else draw_target (n - unat w) ts)"

text \<open>\<open>draw\<close> gives a number below its argument.\<close>

definition pick_upstream :: "(nat \<Rightarrow> nat) \<Rightarrow> 'u compiled_rule \<Rightarrow> 'u weighted_target option" where
  "pick_upstream draw r =
     (if cr_total_weight r = 0 then None else draw_target (draw (unat (cr_total_weight r))) (cr_targets r))"

text \<open>The hook always continues; it sets or clears the override of the upstream, which is its second
  argument and result.\<close>

fun split_request_filter :: "(string list list \<Rightarrow> bool) \<Rightarrow> (nat \<Rightarrow> nat) \<Rightarrow> (match_rule \<times> 'u compiled_rule) list \<Rightarrow>
    'u option \<Rightarrow> 'u option" where
  "split_request_filter matches draw [] override = override"
| "split_request_filter matches draw ((c, r) # rs) override =
     (if matches (mr_vars c)
      then (case pick_upstream draw r of
              Some (TargetUpstream u) \<Rightarrow> Some u
            | Some PassThrough \<Rightarrow> None
            | None \<Rightarrow> override)
      else split_request_filter matches draw rs override)"

definition traffic_request_filter :: "'h http_lib \<Rightarrow> 'h session \<Rightarrow> (nat \<Rightarrow> nat) \<Rightarrow> ('a, 'l) traffic_split \<Rightarrow>
    ('a, 'l) proxy_upstream option \<Rightarrow> ('a, 'l) proxy_upstream option" where
  "traffic_request_filter H s draw p override =
     split_request_filter (match_apisix_vars H s) draw (zip (tf_config p) (tf_rules p)) override"

section \<open>The draw\<close>

definition weights :: "(32 word \<times> 't) list \<Rightarrow> nat" where
  "weights ts = sum_list (map (\<lambda>(w, _). unat w) ts)"

definition weight_of :: "'t \<Rightarrow> (32 word \<times> 't) list \<Rightarrow> nat" where
  "weight_of t ts = weights (filter (\<lambda>(_, u). u = t) ts)"

lemma draw_target_some: "n < weights ts \<Longrightarrow> \<exists>t. draw_target n ts = Some t"
proof (induction ts arbitrary: n)
  case (Cons p ts)
  obtain w u where p: "p = (w, u)" by (cases p)
  then show ?case using Cons.IH [of "n - unat w"] Cons.prems by (auto simp: weights_def)
qed (simp add: weights_def)

lemma draw_target_count: "card {n. n < weights ts \<and> draw_target n ts = Some t} = weight_of t ts"
proof (induction ts)
  case (Cons p ts)
  obtain w u where p: "p = (w, u)" by (cases p)
  let ?here = "{n. n < unat w \<and> u = t}" and ?rest = "{n. n < weights ts \<and> draw_target n ts = Some t}"
  have "{n. n < weights (p # ts) \<and> draw_target n (p # ts) = Some t} = ?here \<union> (\<lambda>n. n + unat w) ` ?rest"
  proof (intro set_eqI iffI)
    fix n assume n: "n \<in> {n. n < weights (p # ts) \<and> draw_target n (p # ts) = Some t}"
    show "n \<in> ?here \<union> (\<lambda>n. n + unat w) ` ?rest"
    proof (cases "n < unat w")
      case False
      then have "n - unat w \<in> ?rest" using n by (auto simp: p weights_def)
      then have "n - unat w + unat w \<in> (\<lambda>n. n + unat w) ` ?rest" by (rule imageI)
      then show ?thesis using False by simp
    qed (use n p in auto)
  qed (auto simp: p weights_def split: if_splits)
  moreover have "?here \<inter> (\<lambda>n. n + unat w) ` ?rest = {}" by auto
  moreover have "finite ?here" "finite ?rest" by (auto intro: finite_subset [of _ "{..< weights ts}"])
  ultimately have "card {n. n < weights (p # ts) \<and> draw_target n (p # ts) = Some t} = card ?here + card ?rest"
    by (simp add: card_Un_disjoint card_image inj_on_def)
  moreover have "card ?here = (if u = t then unat w else 0)" by auto
  ultimately show ?case using Cons.IH by (simp add: p weight_of_def weights_def)
qed (simp add: weight_of_def weights_def)

lemma total_weight_sum:
  "total_weight acc ws = Inr tw \<Longrightarrow> unat tw = unat acc + sum_list (map (\<lambda>w. unat (wu_weight w)) ws)"
proof (induction ws arbitrary: acc)
  case (Cons w ws)
  then have less: "unat acc + unat (wu_weight w) < 2 ^ 64" and rest: "total_weight (acc + ucast (wu_weight w)) ws = Inr tw"
    by (auto split: if_splits)
  have "unat (ucast (wu_weight w) :: 64 word) = unat (wu_weight w)" 
    using unsigned_less [of "wu_weight w", where ?'a = nat] by (simp add: unsigned_ucast_eq take_bit_nat_eq_self)
  then have "unat (acc + ucast (wu_weight w)) = unat acc + unat (wu_weight w)"
    using less by (subst unat_add_lem [THEN iffD1]) simp_all
  then show ?case using Cons.IH [OF rest] by simp
qed simp

lemma build_targets_weights:
  "build_targets B ctx i j ws = Inr (ts, checks) \<Longrightarrow> map fst ts = map wu_weight ws"
  by (induction ws arbitrary: j ts checks) auto

lemma build_rules_nth:
  assumes "build_rules B ctx i rs = Inr (crs, checks)"
  shows "length crs = length rs \<and> (\<forall>k < length rs. \<exists>c.
     rule_weight (i + k) (rs ! k) = Inr (cr_total_weight (crs ! k)) \<and>
     build_targets B ctx (i + k) 0 (mr_weighted_upstreams (rs ! k)) = Inr (cr_targets (crs ! k), c))"
  using assms
proof (induction rs arbitrary: i crs checks)
  case (Cons r rs)
  then obtain tw ts c crs' c' where step: "rule_weight i r = Inr tw"
      "build_targets B ctx i 0 (mr_weighted_upstreams r) = Inr (ts, c)" "build_rules B ctx (i + 1) rs = Inr (crs', c')"
      "crs = \<lparr>cr_targets = ts, cr_total_weight = tw\<rparr> # crs'"
    by (auto split: prod.splits)
  show ?case
  proof (intro conjI allI impI)
    show "length crs = length (r # rs)" using Cons.IH [OF step(3)] step(4) by simp
    fix k assume "k < length (r # rs)"
    then show "\<exists>c. rule_weight (i + k) ((r # rs) ! k) = Inr (cr_total_weight (crs ! k)) \<and>
        build_targets B ctx (i + k) 0 (mr_weighted_upstreams ((r # rs) ! k)) = Inr (cr_targets (crs ! k), c)"
      using Cons.IH [OF step(3)] step by (cases k) auto
  qed
qed simp

text \<open>C22: A compiled traffic-split rule draws fairly: its total is the exact, positive sum of the weights, a
  number below it always selects a target, and the numbers that select a target are as many as the
  weight configured for it.\<close>

theorem split_draws_by_weight:
  assumes "create_traffic_split_plugin S B cfg ctx = Inr p" and "r \<in> set (tf_rules p)"
  shows "unat (cr_total_weight r) = weights (cr_targets r) \<and> 0 < weights (cr_targets r) \<and>
    (n < weights (cr_targets r) \<longrightarrow> draw_target n (cr_targets r) \<noteq> None) \<and>
    card {n. n < weights (cr_targets r) \<and> draw_target n (cr_targets r) = Some t} = weight_of t (cr_targets r)"
proof -
  obtain rules checks where build: "build_rules B ctx 0 rules = Inr (tf_rules p, checks)"
    using assms(1) by (auto simp: create_traffic_split_plugin_def split: if_splits prod.splits)
  obtain k where k: "k < length rules" "r = tf_rules p ! k"
    using assms(2) build_rules_nth [OF build] by (metis in_set_conv_nth)
  then obtain c where r: "rule_weight k (rules ! k) = Inr (cr_total_weight r)"
      "build_targets B ctx k 0 (mr_weighted_upstreams (rules ! k)) = Inr (cr_targets r, c)"
    using build_rules_nth [OF build] by auto
  have tw: "total_weight 0 (mr_weighted_upstreams (rules ! k)) = Inr (cr_total_weight r)" "cr_total_weight r \<noteq> 0"
    using r(1) by (auto simp: rule_weight_def split: if_splits)
  have "weights (cr_targets r) = sum_list (map unat (map fst (cr_targets r)))"
    by (simp add: weights_def comp_def case_prod_unfold)
  also have "\<dots> = unat (cr_total_weight r)"
    using total_weight_sum [OF tw(1)] by (simp add: build_targets_weights [OF r(2)] comp_def)
  finally have sum: "unat (cr_total_weight r) = weights (cr_targets r)" ..
  moreover have "0 < unat (cr_total_weight r)" using tw(2) by (simp add: unat_gt_0)
  ultimately show ?thesis using draw_target_some draw_target_count by auto
qed

section \<open>The declared dependencies are the ones used\<close>

definition rule_refs :: "match_rule list \<Rightarrow> string set" where
  "rule_refs rules = {k. \<exists>r \<in> set rules. \<exists>w \<in> set (mr_weighted_upstreams r). wu_upstream_id w = Some k}"

lemma named_upstream_ids_set:
  "ts_config S cfg = Inr rules \<Longrightarrow> \<exists>ids. named_upstream_ids S cfg = Inr ids \<and> set ids = rule_refs rules"
  by (auto simp: named_upstream_ids_def rule_refs_def split: option.splits) metis+

lemma build_targets_local:
  "\<forall>w \<in> set ws. \<forall>k. wu_upstream_id w = Some k \<longrightarrow> map_of ups k = map_of (bc_upstreams ctx) k \<Longrightarrow>
   build_targets B (ctx\<lparr>bc_upstreams := ups\<rparr>) i j ws = build_targets B ctx i j ws"
proof (induction ws arbitrary: j)
  case (Cons w ws)
  have "build_target B (ctx\<lparr>bc_upstreams := ups\<rparr>) i j w = build_target B ctx i j w"
    using Cons.prems by (auto simp: build_target_def split: option.splits)
  then show ?case using Cons by simp
qed simp

lemma build_rules_local:
  "\<forall>k \<in> rule_refs rs. map_of ups k = map_of (bc_upstreams ctx) k \<Longrightarrow>
   build_rules B (ctx\<lparr>bc_upstreams := ups\<rparr>) i rs = build_rules B ctx i rs"
proof (induction rs arbitrary: i)
  case (Cons r rs)
  have "build_targets B (ctx\<lparr>bc_upstreams := ups\<rparr>) i 0 (mr_weighted_upstreams r) =
      build_targets B ctx i 0 (mr_weighted_upstreams r)"
    by (rule build_targets_local) (use Cons.prems in \<open>auto simp: rule_refs_def\<close>)
  moreover have "build_rules B (ctx\<lparr>bc_upstreams := ups\<rparr>) (i + 1) rs = build_rules B ctx (i + 1) rs"
    by (rule Cons.IH) (use Cons.prems in \<open>auto simp: rule_refs_def\<close>)
  ultimately show ?case by simp
qed simp

lemma create_local:
  assumes "named_upstream_ids S cfg = Inr ids" and "\<forall>k \<in> set ids. map_of ups k = map_of (bc_upstreams ctx) k"
  shows "create_traffic_split_plugin S B cfg (ctx\<lparr>bc_upstreams := ups\<rparr>) = create_traffic_split_plugin S B cfg ctx"
proof (cases "ts_config S cfg")
  case (Inr rules)
  then have "\<forall>k \<in> rule_refs rules. map_of ups k = map_of (bc_upstreams ctx) k"
    using assms named_upstream_ids_set [OF Inr] by auto
  then show ?thesis using Inr by (simp add: create_traffic_split_plugin_def build_rules_local)
qed (simp add: create_traffic_split_plugin_def)

text \<open>What serde's derived deserialisers document: the fields of the JSON value, an absent or null
  optional field read as none. An upstream is not null.\<close>

definition reads_target :: "split_serde \<Rightarrow> json \<Rightarrow> weighted_upstream \<Rightarrow> bool" where
  "reads_target S j w \<longleftrightarrow>
     (case json_get ''upstream'' j of
        None \<Rightarrow> wu_upstream w = None
      | Some v \<Rightarrow> if v = JNull then wu_upstream w = None else (\<exists>u. ts_upstream S v = Inr u \<and> wu_upstream w = Some u))"

definition reads_rule :: "split_serde \<Rightarrow> json \<Rightarrow> match_rule \<Rightarrow> bool" where
  "reads_rule S j r \<longleftrightarrow> (\<exists>ws. json_array ''weighted_upstreams'' j = Some ws \<and>
     list_all2 (reads_target S) ws (mr_weighted_upstreams r))"

definition serde_ok :: "split_serde \<Rightarrow> bool" where
  "serde_ok S \<longleftrightarrow> (\<exists>e. ts_upstream S JNull = Inl e) \<and>
     (\<forall>cfg rules. ts_config S cfg = Inr rules \<longrightarrow>
        (\<exists>rs. json_array ''rules'' cfg = Some rs \<and> list_all2 (reads_rule S) rs rules))"

definition null_target :: "json \<Rightarrow> bool" where
  "null_target j \<longleftrightarrow> json_get ''upstream'' j = Some JNull"

fun target_occurrences :: "scope_owner \<Rightarrow> nat \<Rightarrow> nat \<Rightarrow> weighted_upstream list \<Rightarrow> (upstream_occurrence \<times> upstream) list" where
  "target_occurrences owner i j [] = []"
| "target_occurrences owner i j (w # ws) =
     (case wu_upstream w of Some u \<Rightarrow> [(OccTrafficSplit owner i j, u)] | None \<Rightarrow> []) @ target_occurrences owner i (j + 1) ws"

fun rule_occurrences :: "scope_owner \<Rightarrow> nat \<Rightarrow> match_rule list \<Rightarrow> (upstream_occurrence \<times> upstream) list" where
  "rule_occurrences owner i [] = []"
| "rule_occurrences owner i (r # rs) = target_occurrences owner i 0 (mr_weighted_upstreams r) @ rule_occurrences owner (i + 1) rs"

lemma target_jobs_exact:
  assumes "list_all2 (reads_target S) js ws" and "ts_upstream S JNull = Inl e"
  shows "if \<exists>j \<in> set js. null_target j then \<exists>e. target_jobs S owner i k js = Inl e
    else target_jobs S owner i k js = Inr (target_occurrences owner i k ws)"
  using assms(1)
proof (induction js ws arbitrary: k rule: list_all2_induct)
  case (Cons j js w ws)
  show ?case
  proof (cases "json_get ''upstream'' j")
    case None
    then show ?thesis using Cons by (auto simp: reads_target_def null_target_def split: if_splits)
  next
    case (Some v)
    show ?thesis
    proof (cases "v = JNull")
      case True
      then show ?thesis using Some assms(2) by (simp add: null_target_def)
    next
      case False
      then obtain u where "ts_upstream S v = Inr u" "wu_upstream w = Some u"
        using Cons(1) Some by (auto simp: reads_target_def)
      then show ?thesis using Cons.IH [of "k + 1"] Some False by (auto simp: null_target_def split: if_splits)
    qed
  qed
qed simp

definition null_rule :: "json \<Rightarrow> bool" where
  "null_rule j \<longleftrightarrow> (\<exists>ws. json_array ''weighted_upstreams'' j = Some ws \<and> (\<exists>w \<in> set ws. null_target w))"

lemma rule_jobs_exact:
  assumes "list_all2 (reads_rule S) js rs" and "ts_upstream S JNull = Inl e"
  shows "if \<exists>j \<in> set js. null_rule j then \<exists>e. rule_jobs S owner i js = Inl e
    else rule_jobs S owner i js = Inr (rule_occurrences owner i rs)"
  using assms(1)
proof (induction js rs arbitrary: i rule: list_all2_induct)
  case (Cons j js r rs)
  obtain ws where ws: "json_array ''weighted_upstreams'' j = Some ws"
      "list_all2 (reads_target S) ws (mr_weighted_upstreams r)" using Cons(1) by (auto simp: reads_rule_def)
  show ?case
    using target_jobs_exact [OF ws(2) assms(2), of owner i 0] Cons.IH [of "i + 1"] ws(1)
    by (auto simp: null_rule_def split: if_splits)
qed simp

text \<open>The preparation jobs of a traffic-split configuration are exactly its inline upstreams under the
  occurrences construction looks up, unless some target says \<open>upstream: null\<close>: validation reads that as
  no upstream, but planning the jobs fails on it, for every publication.\<close>

theorem split_jobs_exact:
  assumes S: "serde_ok S" and "ts_config S cfg = Inr rules" and "json_array ''rules'' cfg = Some rs"
  shows "if \<exists>r \<in> set rs. null_rule r then \<exists>e. inline_upstream_jobs S owner cfg = Inl e
    else inline_upstream_jobs S owner cfg = Inr (rule_occurrences owner 0 rules)"
proof -
  obtain e where e: "ts_upstream S JNull = Inl e" using S unfolding serde_ok_def by blast
  have "list_all2 (reads_rule S) rs rules" using S assms(2,3) unfolding serde_ok_def by force
  from rule_jobs_exact [OF this e, of owner 0] show ?thesis
    using assms(3) by (simp add: inline_upstream_jobs_def)
qed

section \<open>Construction succeeds\<close>

definition jobs_prepared :: "('q, 'l) build_env \<Rightarrow> ('q, 'a, 'l) build_ctx \<Rightarrow> (upstream_occurrence \<times> upstream) list \<Rightarrow> bool" where
  "jobs_prepared B ctx jobs \<longleftrightarrow>
     (\<forall>occ u. (occ, u) \<in> set jobs \<longrightarrow> (\<exists>q. map_of (bc_prepared ctx) occ = Some q \<and>
        is_ok (env_upstream B (bc_alloc ctx) u q :: proxy_error + ('a, 'l) proxy_upstream)))"

lemma jobs_prepared_append [simp]:
  "jobs_prepared B ctx (xs @ ys) \<longleftrightarrow> jobs_prepared B ctx xs \<and> jobs_prepared B ctx ys"
  by (auto simp: jobs_prepared_def)

lemma build_targets_ok:
  fixes ctx :: "('a, 'c, 'b) build_ctx"
  assumes "\<forall>w \<in> set ws. \<not> (wu_upstream_id w \<noteq> None \<and> wu_upstream w \<noteq> None)"
    and "\<forall>w \<in> set ws. \<forall>k. wu_upstream_id w = Some k \<longrightarrow> map_of (bc_upstreams ctx) k \<noteq> None"
    and "jobs_prepared B ctx (target_occurrences (bc_owner ctx) i j ws)"
  shows "\<exists>r. build_targets B ctx i j ws = Inr r"
  using assms
proof (induction ws arbitrary: j)
  case (Cons w ws)
  have rest: "\<exists>r. build_targets B ctx i (j + 1) ws = Inr r"
    using Cons.prems by (intro Cons.IH) simp_all
  have "is_ok (build_target B ctx i j w)"
  proof (cases "wu_upstream w")
    case None
    then show ?thesis using Cons.prems(2) by (auto simp: build_target_def split: option.splits)
  next
    case (Some u)
    then have "wu_upstream_id w = None" using Cons.prems(1) by auto
    have "jobs_prepared B ctx (target_occurrences (bc_owner ctx) i j (w # ws))" by (rule Cons.prems(3))
    then obtain q where "map_of (bc_prepared ctx) (OccTrafficSplit (bc_owner ctx) i j) = Some q"
        "is_ok (env_upstream B (bc_alloc ctx) u q :: proxy_error + ('c, 'b) proxy_upstream)"
      using Some by (auto simp: jobs_prepared_def)
    then show ?thesis using Some \<open>wu_upstream_id w = None\<close>
      by (cases "env_upstream B (bc_alloc ctx) u q :: proxy_error + ('c, 'b) proxy_upstream") (auto simp: build_target_def)
  qed
  then have "\<exists>t. build_target B ctx i j w = Inr t" by (cases "build_target B ctx i j w") auto
  then show ?case using rest by auto
qed simp

lemma build_rules_ok:
  assumes "validate_rules i rs = Inr ()"
    and "\<forall>k \<in> rule_refs rs. map_of (bc_upstreams ctx) k \<noteq> None"
    and "jobs_prepared B ctx (rule_occurrences (bc_owner ctx) i rs)"
  shows "\<exists>r. build_rules B ctx i rs = Inr r"
  using assms
proof (induction rs arbitrary: i)
  case (Cons r rs)
  from Cons.prems(1) obtain tw where r: "rule_weight i r = Inr tw"
      "\<forall>w \<in> set (mr_weighted_upstreams r). \<not> (wu_upstream_id w \<noteq> None \<and> wu_upstream w \<noteq> None)"
      "validate_rules (i + 1) rs = Inr ()" by (auto split: if_splits)
  have "\<exists>x. build_targets B ctx i 0 (mr_weighted_upstreams r) = Inr x"
    using Cons.prems(2,3) r(2) by (intro build_targets_ok) (auto simp: rule_refs_def)
  moreover have "\<exists>x. build_rules B ctx (i + 1) rs = Inr x"
    using Cons.prems(2,3) r(3) by (intro Cons.IH) (auto simp: rule_refs_def)
  ultimately show ?case using r(1) by fastforce
qed simp

text \<open>A validated configuration is built once the upstreams it names exist and its inline ones are
  prepared.\<close>

lemma create_ok:
  assumes "serde_ok S" and "validate_traffic_split_config S cfg = Inr ()"
    and "named_upstream_ids S cfg = Inr ids" and "\<forall>k \<in> set ids. map_of (bc_upstreams ctx) k \<noteq> None"
    and "inline_upstream_jobs S (bc_owner ctx) cfg = Inr jobs"
    and "jobs_prepared B ctx jobs"
  shows "\<exists>p. create_traffic_split_plugin S B cfg ctx = Inr p"
proof -
  obtain rules where rules: "ts_config S cfg = Inr rules" "rules \<noteq> []" "validate_rules 0 rules = Inr ()"
    using assms(2) by (auto simp: validate_traffic_split_config_def split: if_splits)
  obtain rs where rs: "json_array ''rules'' cfg = Some rs" using assms(1) rules(1) unfolding serde_ok_def by blast
  obtain e where e: "ts_upstream S JNull = Inl e" using assms(1) unfolding serde_ok_def by blast
  have "list_all2 (reads_rule S) rs rules" using assms(1) rules(1) rs unfolding serde_ok_def by force
  from rule_jobs_exact [OF this e, of "bc_owner ctx" 0]
  have jobs: "jobs = rule_occurrences (bc_owner ctx) 0 rules"
    using assms(5) rs by (simp add: inline_upstream_jobs_def split: if_splits)
  have "\<exists>r. build_rules B ctx 0 rules = Inr r"
    using build_rules_ok [OF rules(3)] assms(3,4,6) named_upstream_ids_set [OF rules(1)] jobs by auto
  then show ?thesis using rules(1,2) by (auto simp: create_traffic_split_plugin_def)
qed

section \<open>Keys of the health checks\<close>

lemma digit_char_code: "d < 10 \<Longrightarrow> (of_char (digit_char d) :: nat) = 48 + d"
  by (simp add: digit_char_def)

lemma digit_char_inj: "digit_char d = digit_char e \<Longrightarrow> d < 10 \<Longrightarrow> e < 10 \<Longrightarrow> d = e"
  by (metis add_left_imp_eq digit_char_code)

lemma nat_to_string_digits: "\<forall>c \<in> set (nat_to_string n). \<exists>d < 10. c = digit_char d"
proof (induction n rule: nat_to_string.induct)
  case (1 n)
  show ?case
  proof (cases "n < 10")
    case False
    then have "\<exists>d < 10. digit_char (n mod 10) = digit_char d" by (intro exI [of _ "n mod 10"]) simp
    then show ?thesis using False 1 by (subst nat_to_string.simps) auto
  qed (subst nat_to_string.simps, auto)
qed

lemma digit_char_other: "d < 10 \<Longrightarrow> digit_char d \<noteq> CHR ''/'' \<and> digit_char d \<noteq> CHR ''e''"
proof -
  assume d: "d < 10"
  have "(of_char (digit_char d) :: nat) \<noteq> of_char CHR ''/''" "(of_char (digit_char d) :: nat) \<noteq> of_char CHR ''e''"
    using d by (simp_all add: digit_char_code)
  then show ?thesis by metis
qed

lemma nat_to_string_no_slash: "CHR ''/'' \<notin> set (nat_to_string n)"
  using nat_to_string_digits digit_char_other by metis

lemma nat_to_string_nonempty: "nat_to_string n \<noteq> []"
  by (subst nat_to_string.simps) simp

lemma nat_to_string_inj: "nat_to_string m = nat_to_string n \<Longrightarrow> m = n"
proof (induction m arbitrary: n rule: nat_to_string.induct)
  case (1 m)
  have short: "length (nat_to_string k) = 1 \<longleftrightarrow> k < 10" for k
    by (subst nat_to_string.simps) (auto simp: nat_to_string_nonempty)
  have iff: "m < 10 \<longleftrightarrow> n < 10" using short [of m] short [of n] 1(2) by simp
  show ?case
  proof (cases "m < 10")
    case True
    then have "[digit_char m] = [digit_char n]" using iff 1(2) by (simp add: nat_to_string.simps [of m] nat_to_string.simps [of n])
    then show ?thesis using True iff digit_char_inj by simp
  next
    case False
    then have "nat_to_string (m div 10) @ [digit_char (m mod 10)] = nat_to_string (n div 10) @ [digit_char (n mod 10)]"
      using iff 1(2) by (simp add: nat_to_string.simps [of m] nat_to_string.simps [of n])
    then have "m div 10 = n div 10" "m mod 10 = n mod 10"
      using 1(1) [OF False] digit_char_inj by auto
    then show ?thesis by (metis div_mult_mod_eq)
  qed
qed

lemma append_slash_eq:
  "xs @ CHR ''/'' # ys = us @ CHR ''/'' # vs \<Longrightarrow> CHR ''/'' \<notin> set ys \<Longrightarrow> CHR ''/'' \<notin> set vs \<Longrightarrow> xs = us \<and> ys = vs"
  by (auto simp: append_eq_append_conv2 Cons_eq_append_conv append_eq_Cons_conv)

definition split_key :: "nat \<Rightarrow> nat \<Rightarrow> string" where
  "split_key i j = ''traffic-split/'' @ nat_to_string i @ ''/'' @ nat_to_string j"

lemma split_key_inj: "p @ split_key i j = p' @ split_key i' j' \<Longrightarrow> p = p' \<and> i = i' \<and> j = j'"
proof -
  assume eq: "p @ split_key i j = p' @ split_key i' j'"
  then have *: "(p @ ''traffic-split/'' @ nat_to_string i) @ CHR ''/'' # nat_to_string j =
      (p' @ ''traffic-split/'' @ nat_to_string i') @ CHR ''/'' # nat_to_string j'" by (simp add: split_key_def)
  from append_slash_eq [OF this nat_to_string_no_slash nat_to_string_no_slash]
  have j: "nat_to_string j = nat_to_string j'"
    and i: "(p @ ''traffic-split'') @ CHR ''/'' # nat_to_string i = (p' @ ''traffic-split'') @ CHR ''/'' # nat_to_string i'"
    by simp_all
  from append_slash_eq [OF i nat_to_string_no_slash nat_to_string_no_slash]
  show ?thesis using nat_to_string_inj j by auto
qed

lemma build_targets_checks:
  "build_targets B ctx i j ws = Inr (ts, checks) \<Longrightarrow>
   map fst checks = map (\<lambda>k. split_key i k) (filter (\<lambda>k. wu_upstream (ws ! (k - j)) \<noteq> None) [j..<j + length ws])"
proof (induction ws arbitrary: j ts checks)
  case (Cons w ws)
  then obtain t c ts' rest where step: "build_target B ctx i j w = Inr (t, c)"
      "build_targets B ctx i (j + 1) ws = Inr (ts', rest)" "checks = c @ rest" by (auto split: prod.splits)
  have c: "map fst c = (if wu_upstream w \<noteq> None then [split_key i j] else [])"
    using step(1) by (auto simp: build_target_def split_key_def split: if_splits option.splits)
  have "[j..<j + length (w # ws)] = j # [j + 1..<j + 1 + length ws]" by (simp add: upt_conv_Cons del: upt_Suc)
  moreover have "filter (\<lambda>k. wu_upstream ((w # ws) ! (k - j)) \<noteq> None) [j + 1..<j + 1 + length ws] =
      filter (\<lambda>k. wu_upstream (ws ! (k - (j + 1))) \<noteq> None) [j + 1..<j + 1 + length ws]"
    by (rule filter_cong) (auto simp: nth_Cons' Suc_diff_le)
  ultimately show ?case using Cons.IH [OF step(2)] step(3) c by simp
qed simp

lemma build_rules_checks:
  "build_rules B ctx i rs = Inr (crs, checks) \<Longrightarrow>
   distinct (map fst checks) \<and> (\<forall>k \<in> fst ` set checks. \<exists>i' j. i \<le> i' \<and> k = split_key i' j)"
proof (induction rs arbitrary: i crs checks)
  case (Cons r rs)
  then obtain ts c crs' rest where step: "build_targets B ctx i 0 (mr_weighted_upstreams r) = Inr (ts, c)"
      "build_rules B ctx (i + 1) rs = Inr (crs', rest)" "checks = c @ rest" by (auto split: prod.splits)
  note c = build_targets_checks [OF step(1)] and rest = Cons.IH [OF step(2)]
  have keys: "\<exists>j. k = split_key i j" if "k \<in> fst ` set c" for k
    using that unfolding list.set_map [symmetric] c by auto
  have "inj (split_key i)" using split_key_inj [of "[]" i _ "[]" i] by (auto simp: inj_def)
  then have "distinct (map fst c)" unfolding c by (simp add: distinct_map inj_on_def inj_def)
  moreover have "k \<notin> fst ` set rest" if "k \<in> fst ` set c" for k
    using keys [OF that] rest split_key_inj [of "[]" _ _ "[]"] by fastforce
  moreover have "\<exists>i' j. i \<le> i' \<and> k = split_key i' j" if "k \<in> fst ` set (c @ rest)" for k
  proof (cases "k \<in> fst ` set c")
    case False
    then have "k \<in> fst ` set rest" using that by auto
    then obtain i' j where "i + 1 \<le> i'" "k = split_key i' j" using rest by blast
    then show ?thesis by (intro exI [of _ i'] exI [of _ j]) simp
  qed (use keys in blast)
  ultimately show ?case using rest unfolding step(3) by auto
qed simp

text \<open>The keys of the checks of one plugin are distinct.\<close>

lemma split_checks_distinct:
  assumes "create_traffic_split_plugin S B cfg ctx = Inr p"
  shows "distinct (map fst (tf_health_checks p)) \<and> (\<forall>k \<in> fst ` set (tf_health_checks p). \<exists>i j. k = split_key i j)"
  using assms build_rules_checks by (fastforce simp: create_traffic_split_plugin_def split: if_splits prod.splits)

section \<open>A sample\<close>

definition sample_upstream :: upstream where
  "sample_upstream = \<lparr>up_id = ''u1'', up_retries = None, up_retry_timeout = None, up_timeout = None, up_nodes = [],
     up_type = RoundRobin, up_checks = None, up_hash_on = VARS, up_key = [], up_scheme = HTTP, up_pass_host = PASS,
     up_upstream_host = None, up_tls = None, up_keepalive_idle_ms = None\<rparr>"

definition sample_target :: "json \<Rightarrow> weighted_upstream" where
  "sample_target w =
     \<lparr>wu_upstream_id = (case json_get ''upstream_id'' w of Some (JString i) \<Rightarrow> Some i | _ \<Rightarrow> None),
      wu_upstream = (case json_get ''upstream'' w of
         Some v \<Rightarrow> if v = JNull then None else Some sample_upstream | None \<Rightarrow> None),
      wu_weight = (case json_get ''weight'' w of Some (JNumber n) \<Rightarrow> of_nat (length n) | _ \<Rightarrow> 1)\<rparr>"

definition sample_serde :: "split_serde" where
  "sample_serde =
     \<lparr>ts_config = (\<lambda>cfg. case json_array ''rules'' cfg of
          Some rs \<Rightarrow>
            if \<forall>r \<in> set rs. json_array ''weighted_upstreams'' r \<noteq> None
            then Inr (map (\<lambda>r. \<lparr>mr_vars = [], mr_weighted_upstreams =
                   map sample_target (the (json_array ''weighted_upstreams'' r))\<rparr>) rs)
            else Inl ''missing field''
        | None \<Rightarrow> Inl ''missing field''),
      ts_upstream = (\<lambda>v. if v = JNull then Inl ''invalid type: null'' else Inr sample_upstream)\<rparr>"

lemma sample_serde_ok: "serde_ok sample_serde"
  unfolding serde_ok_def
proof (intro conjI allI impI)
  show "\<exists>e. ts_upstream sample_serde JNull = Inl e" by (simp add: sample_serde_def)
  have target: "reads_target sample_serde w (sample_target w)" for w
    by (auto simp: reads_target_def sample_target_def sample_serde_def split: option.splits)
  fix cfg rules assume "ts_config sample_serde cfg = Inr rules"
  then obtain rs where rs: "json_array ''rules'' cfg = Some rs" "\<forall>r \<in> set rs. json_array ''weighted_upstreams'' r \<noteq> None"
      "rules = map (\<lambda>r. \<lparr>mr_vars = [], mr_weighted_upstreams =
                   map sample_target (the (json_array ''weighted_upstreams'' r))\<rparr>) rs"
    by (auto simp: sample_serde_def split: option.splits if_splits)
  have "reads_rule sample_serde r \<lparr>mr_vars = [], mr_weighted_upstreams =
        map sample_target (the (json_array ''weighted_upstreams'' r))\<rparr>" if r: "r \<in> set rs" for r
  proof -
    obtain ws where "json_array ''weighted_upstreams'' r = Some ws" using bspec [OF rs(2) r] by blast
    then show ?thesis using target by (simp add: reads_rule_def list_all2_map2 list_all2_same)
  qed
  then have "list_all2 (reads_rule sample_serde) rs rules"
    unfolding rs(3) list_all2_map2 list_all2_same by blast
  then show "\<exists>rs. json_array ''rules'' cfg = Some rs \<and> list_all2 (reads_rule sample_serde) rs rules"
    using rs(1) by blast
qed

definition sample_env :: "(nat, nat) build_env" where
  "sample_env = \<lparr>be_uuid = nat_to_string, be_origin = (\<lambda>_. 0), be_lb = (\<lambda>n u q. Inr q), be_default_timeout = None,
     be_cache_namespace = (\<lambda>_ _. 0)\<rparr>"

definition sample_context :: "(nat, unit, nat) build_ctx" where
  "sample_context =
     \<lparr>bc_upstreams = [(''u1'', projr (env_upstream sample_env 0 sample_upstream 7))],
      bc_prepared = [(OccTrafficSplit (OwnRoute ''r'') 0 1, 8)], bc_owner = OwnRoute ''r'', bc_alloc = 1\<rparr>"

text \<open>A rule of a named target with weight 3, an inline one with weight 2 and one without an upstream.\<close>

definition sample_split :: json where
  "sample_split = JObject [(''rules'', JArray [JObject [(''weighted_upstreams'', JArray [
     JObject [(''upstream_id'', JString ''u1''), (''weight'', JNumber ''111'')],
     JObject [(''upstream'', JObject []), (''weight'', JNumber ''11'')],
     JObject []])]])]"

lemmas sample_defs = sample_serde_def sample_split_def sample_target_def sample_context_def sample_env_def json_array_def
  rule_weight_def build_target_def env_upstream_def build_upstream_def sample_upstream_def Let_def

lemma split_draws_by_weight_witness:
  "let p = projr (create_traffic_split_plugin sample_serde sample_env sample_split sample_context); r = hd (tf_rules p);
       named = TargetUpstream (snd (hd (bc_upstreams sample_context)))
   in unat (cr_total_weight r) = 6 \<and> card {n. n < weights (cr_targets r) \<and> draw_target n (cr_targets r) = Some named} = 3"
proof -
  let ?p = "projr (create_traffic_split_plugin sample_serde sample_env sample_split sample_context)"
  let ?named = "TargetUpstream (snd (hd (bc_upstreams sample_context)))"
  have "is_ok (create_traffic_split_plugin sample_serde sample_env sample_split sample_context)"
    by (simp add: create_traffic_split_plugin_def sample_defs)
  then have p: "create_traffic_split_plugin sample_serde sample_env sample_split sample_context = Inr ?p"
    by (cases "create_traffic_split_plugin sample_serde sample_env sample_split sample_context") simp_all
  have "tf_rules ?p \<noteq> []" by (simp add: create_traffic_split_plugin_def sample_defs)
  then have r: "hd (tf_rules ?p) \<in> set (tf_rules ?p)" by simp
  have "weights (cr_targets (hd (tf_rules ?p))) = 6" "weight_of ?named (cr_targets (hd (tf_rules ?p))) = 3"
    by (simp_all add: create_traffic_split_plugin_def sample_defs weights_def weight_of_def)
  then show ?thesis using split_draws_by_weight [OF p r, of 0 ?named] unfolding Let_def by simp
qed

lemma split_jobs_exact_witness:
  "(\<exists>u. inline_upstream_jobs sample_serde (OwnRoute ''r'') sample_split = Inr [(OccTrafficSplit (OwnRoute ''r'') 0 1, u)]) \<and>
   (let nulled = JObject [(''rules'', JArray [JObject [(''weighted_upstreams'', JArray [
      JObject [(''upstream_id'', JString ''u1''), (''upstream'', JNull)]])]])]
    in validate_traffic_split_config sample_serde nulled = Inr () \<and>
       (\<exists>e. inline_upstream_jobs sample_serde (OwnRoute ''r'') nulled = Inl e))"
proof -
  let ?nulled = "JObject [(''rules'', JArray [JObject [(''weighted_upstreams'', JArray [
      JObject [(''upstream_id'', JString ''u1''), (''upstream'', JNull)]])]])]"
  have ok: "r = Inr (projr r)" if "is_ok r" for r :: "string + match_rule list" using that by (cases r) simp_all
  have "is_ok (ts_config sample_serde sample_split)" "is_ok (ts_config sample_serde ?nulled)"
    by (simp_all add: sample_defs)
  note config = this [THEN ok]
  have read:
    "validate_traffic_split_config sample_serde ?nulled = Inr ()"
    "json_array ''rules'' sample_split = Some (the (json_array ''rules'' sample_split))"
    "json_array ''rules'' ?nulled = Some (the (json_array ''rules'' ?nulled))"
    by (simp_all add: sample_defs validate_traffic_split_config_def)
  have "\<not> (\<exists>r \<in> set (the (json_array ''rules'' sample_split)). null_rule r)"
    "\<exists>r \<in> set (the (json_array ''rules'' ?nulled)). null_rule r"
    by (simp_all add: sample_split_def json_array_def null_rule_def null_target_def)
  moreover have "rule_occurrences (OwnRoute ''r'') 0 (projr (ts_config sample_serde sample_split)) =
      [(OccTrafficSplit (OwnRoute ''r'') 0 1, sample_upstream)]"
    by (simp add: sample_defs)
  ultimately show ?thesis
    using split_jobs_exact [OF sample_serde_ok config(1) read(2), of "OwnRoute ''r''"]
      split_jobs_exact [OF sample_serde_ok config(2) read(3), of "OwnRoute ''r''"] read(1) unfolding Let_def by auto
qed

end
