(* ===== verification/Compile.thy ===== *)
theory Compile
  imports Route_Match Ssl_Match Traffic_Split Health_Check
begin

text \<open>
  From a validated graph to a runtime snapshot: the plan of what is reused and what must be prepared
  (\<open>src/proxy/control_plane/plan.rs\<close>), compilation along the plan (\<open>compile.rs\<close>), the snapshot with its
  matchers and the health checks it wants (\<open>src/proxy/runtime.rs\<close>).

  Every object is built under its own allocation number, counted from the argument \<open>n\<close>; a reused object
  is the previous one, so two objects are the same \<open>Arc\<close> when they are equal. Preparation (DNS) is the
  argument \<open>prepare\<close>; jobs run concurrently in the code, here in the order of the plan.
\<close>

section \<open>Candidates\<close>

record ('a, 'l, 's, 'e, 'x, 'k) candidate =
  cn_upstreams :: "('a, 'l) upstream_objects"
  cn_services :: "(string \<times> ('a, 'l, 's, 'e) proxy_service) list"
  cn_global_rules :: "(string \<times> ('s, 'e) proxy_global_rule) list"
  cn_routes :: "(string \<times> ('a, 'l, 's, 'e) proxy_route) list"
  cn_ssls :: "(string \<times> ('x, 'k) proxy_ssl) list"

definition candidate_empty :: "('a, 'l, 's, 'e, 'x, 'k) candidate" where
  "candidate_empty = \<lparr>cn_upstreams = [], cn_services = [], cn_global_rules = [], cn_routes = [], cn_ssls = []\<rparr>"

section \<open>The plan\<close>

text \<open>The reused objects of each kind (as a candidate of their own) and the preparation jobs.\<close>

record ('a, 'l, 's, 'e, 'x, 'k) candidate_plan =
  cp_reused :: "('a, 'l, 's, 'e, 'x, 'k) candidate"
  cp_jobs :: "(upstream_occurrence \<times> upstream) list"

fun reuse_equal :: "('o \<Rightarrow> 'c) \<Rightarrow> (string \<times> 'o) list \<Rightarrow> (string \<times> 'c) list \<Rightarrow> (string \<times> 'o) list" where
  "reuse_equal inner previous [] = []"
| "reuse_equal inner previous ((i, c) # cs) =
     (case map_of previous i of
        Some existing \<Rightarrow>
          if inner existing = c then (i, existing) # reuse_equal inner previous cs else reuse_equal inner previous cs
      | None \<Rightarrow> reuse_equal inner previous cs)"

text \<open>A scope is reused when it is eligible, unchanged and all named upstreams it refers to are reused.\<close>

fun reuse_scopes :: "('c \<Rightarrow> bool) \<Rightarrow> ('o \<Rightarrow> 'c) \<Rightarrow> ('c \<Rightarrow> proxy_error + string set) \<Rightarrow> (string \<times> 'u) list \<Rightarrow>
    (string \<times> 'o) list \<Rightarrow> (string \<times> 'c) list \<Rightarrow> proxy_error + (string \<times> 'o) list" where
  "reuse_scopes eligible inner deps reused_upstreams previous [] = Inr []"
| "reuse_scopes eligible inner deps reused_upstreams previous ((i, c) # cs) =
     sum_bind
       (case map_of previous i of
          Some existing \<Rightarrow>
            if eligible c \<and> inner existing = c
            then sum_bind (deps c) (\<lambda>ds.
                 Inr (if \<forall>d \<in> ds. map_of reused_upstreams d \<noteq> None then [(i, existing)] else []))
            else Inr []
        | None \<Rightarrow> Inr []) (\<lambda>here.
     sum_bind (reuse_scopes eligible inner deps reused_upstreams previous cs) (\<lambda>rest. Inr (here @ rest)))"

fun rebuild_jobs :: "(string \<Rightarrow> 'c \<Rightarrow> proxy_error + (upstream_occurrence \<times> upstream) list) \<Rightarrow> (string \<times> 'o) list \<Rightarrow>
    (string \<times> 'c) list \<Rightarrow> proxy_error + (upstream_occurrence \<times> upstream) list" where
  "rebuild_jobs jobs reused [] = Inr []"
| "rebuild_jobs jobs reused ((i, c) # cs) =
     sum_bind (if map_of reused i = None then jobs i c else Inr []) (\<lambda>here.
     sum_bind (rebuild_jobs jobs reused cs) (\<lambda>rest. Inr (here @ rest)))"

definition inline_job :: "upstream_occurrence \<Rightarrow> upstream option \<Rightarrow> (upstream_occurrence \<times> upstream) list" where
  "inline_job occ u = (case u of Some u \<Rightarrow> [(occ, u)] | None \<Rightarrow> [])"

definition scope_jobs :: "('p, 'c) plugin_fns \<Rightarrow> scope_owner \<Rightarrow> upstream_occurrence \<Rightarrow> upstream option \<Rightarrow> plugin_map \<Rightarrow>
    proxy_error + (upstream_occurrence \<times> upstream) list" where
  "scope_jobs F owner occ inline plugins =
     sum_bind (plugin_upstream_jobs F owner plugins) (\<lambda>js. Inr (inline_job occ inline @ js))"

definition service_jobs :: "('p, 'c) plugin_fns \<Rightarrow> string \<Rightarrow> service \<Rightarrow> proxy_error + (upstream_occurrence \<times> upstream) list" where
  "service_jobs F i s = scope_jobs F (OwnService i) (OccServiceInline i) (svc_upstream s) (svc_plugins s)"

definition rule_scope_jobs :: "('p, 'c) plugin_fns \<Rightarrow> string \<Rightarrow> global_rule \<Rightarrow> proxy_error + (upstream_occurrence \<times> upstream) list" where
  "rule_scope_jobs F i g = plugin_upstream_jobs F (OwnGlobalRule i) (gr_plugins g)"

definition route_jobs :: "('p, 'c) plugin_fns \<Rightarrow> string \<Rightarrow> route \<Rightarrow> proxy_error + (upstream_occurrence \<times> upstream) list" where
  "route_jobs F i r = scope_jobs F (OwnRoute i) (OccRouteInline i) (rt_upstream r) (rt_plugins r)"

definition plan_reuse :: "('p, 'c) plugin_fns \<Rightarrow> config_set \<Rightarrow> ('a, 'l, 's, 'e, 'x, 'k) candidate \<Rightarrow>
    proxy_error + ('a, 'l, 's, 'e, 'x, 'k) candidate" where
  "plan_reuse F cfg previous =
     (let ups = reuse_equal px_inner (cn_upstreams previous) (cs_upstreams cfg)
      in sum_bind (reuse_scopes (\<lambda>_. True) sv_inner (scope_upstream_deps F) ups (cn_services previous) (cs_services cfg)) (\<lambda>svcs.
         sum_bind (reuse_scopes (\<lambda>_. True) pgr_inner (\<lambda>g. plugin_upstream_deps F (gr_plugins g)) ups
                     (cn_global_rules previous) (cs_global_rules cfg)) (\<lambda>rules.
         sum_bind (reuse_scopes (\<lambda>r. is_none_or (rt_service_id r) (\<lambda>i. map_of svcs i \<noteq> None)) ro_inner
                     (scope_upstream_deps_rule F) ups (cn_routes previous) (cs_routes cfg)) (\<lambda>routes.
         Inr \<lparr>cn_upstreams = ups, cn_services = svcs, cn_global_rules = rules, cn_routes = routes,
              cn_ssls = reuse_equal psl_inner (cn_ssls previous) (cs_ssls cfg)\<rparr>))))"

definition plan_jobs :: "('p, 'c) plugin_fns \<Rightarrow> config_set \<Rightarrow> ('a, 'l, 's, 'e, 'x, 'k) candidate \<Rightarrow>
    proxy_error + (upstream_occurrence \<times> upstream) list" where
  "plan_jobs F cfg reused =
     sum_bind (rebuild_jobs (\<lambda>i u. Inr [(OccNamed i, u)]) (cn_upstreams reused) (cs_upstreams cfg)) (\<lambda>us.
     sum_bind (rebuild_jobs (service_jobs F) (cn_services reused) (cs_services cfg)) (\<lambda>ss.
     sum_bind (rebuild_jobs (rule_scope_jobs F) (cn_global_rules reused) (cs_global_rules cfg)) (\<lambda>gs.
     sum_bind (rebuild_jobs (route_jobs F) (cn_routes reused) (cs_routes cfg)) (\<lambda>rs.
     Inr (us @ ss @ gs @ rs)))))"

definition build_plan :: "('p, 'c) plugin_fns \<Rightarrow> config_set \<Rightarrow> ('a, 'l, 's, 'e, 'x, 'k) candidate \<Rightarrow>
    proxy_error + ('a, 'l, 's, 'e, 'x, 'k) candidate_plan" where
  "build_plan F cfg previous =
     sum_bind (plan_reuse F cfg previous) (\<lambda>reused.
     sum_bind (plan_jobs F cfg reused) (\<lambda>jobs. Inr \<lparr>cp_reused = reused, cp_jobs = jobs\<rparr>))"

fun prepare_jobs :: "(upstream \<Rightarrow> proxy_error + 'q) \<Rightarrow> (upstream_occurrence \<times> upstream) list \<Rightarrow>
    proxy_error + 'q prepared_upstreams" where
  "prepare_jobs prepare [] = Inr []"
| "prepare_jobs prepare ((occ, u) # jobs) =
     sum_bind (prepare u) (\<lambda>q.
     sum_bind (prepare_jobs prepare jobs) (\<lambda>qs. Inr ((occ, q) # qs)))"

definition prepare_candidate :: "('p, 'c) plugin_fns \<Rightarrow> (upstream \<Rightarrow> proxy_error + 'q) \<Rightarrow> config_set \<Rightarrow>
    ('a, 'l, 's, 'e, 'x, 'k) candidate \<Rightarrow>
    proxy_error + ('a, 'l, 's, 'e, 'x, 'k) candidate_plan \<times> 'q prepared_upstreams" where
  "prepare_candidate F prepare cfg previous =
     sum_bind (build_plan F cfg previous) (\<lambda>plan.
     sum_bind (prepare_jobs prepare (cp_jobs plan)) (\<lambda>prepared. Inr (plan, prepared)))"

section \<open>Compilation\<close>

datatype 'o resource_decision = Reuse 'o | Rebuild

definition decision :: "(string \<times> 'o) list \<Rightarrow> string \<Rightarrow> 'o resource_decision" where
  "decision reused i = (case map_of reused i of Some existing \<Rightarrow> Reuse existing | None \<Rightarrow> Rebuild)"

fun build_all :: "(string \<times> 'o) list \<Rightarrow> (nat \<Rightarrow> string \<Rightarrow> 'c \<Rightarrow> proxy_error + 'o) \<Rightarrow> nat \<Rightarrow> (string \<times> 'c) list \<Rightarrow>
    proxy_error + (string \<times> 'o) list" where
  "build_all reused mk n [] = Inr []"
| "build_all reused mk n ((i, c) # cs) =
     sum_bind (case decision reused i of Reuse existing \<Rightarrow> Inr existing | Rebuild \<Rightarrow> mk n i c) (\<lambda>obj.
     sum_bind (build_all reused mk (n + 1) cs) (\<lambda>objs. Inr ((i, obj) # objs)))"

definition build_named_upstream :: "('q, 'l) build_env \<Rightarrow> 'q prepared_upstreams \<Rightarrow> nat \<Rightarrow> string \<Rightarrow> upstream \<Rightarrow>
    proxy_error + ('a, 'l) proxy_upstream" where
  "build_named_upstream B prepared n i u =
     (case map_of prepared (OccNamed i) of
        None \<Rightarrow> Inl (PE_Configuration (''Upstream '' @ quoted i @ '' was not prepared''))
      | Some q \<Rightarrow> env_upstream B n u q)"

text \<open>The five passes, each under the numbers after the ones of the passes before.\<close>

definition build_prepared ::
  "(('s, 'e) plugin, ('q, 'a, 'l) build_ctx) plugin_fns \<Rightarrow> ('q, 'l) build_env \<Rightarrow> ('x, 'k) tls_lib \<Rightarrow> nat \<Rightarrow>
   config_set \<Rightarrow> ('a, 'l, 's, 'e, 'x, 'k) candidate_plan \<Rightarrow> 'q prepared_upstreams \<Rightarrow>
   proxy_error + ('a, 'l, 's, 'e, 'x, 'k) candidate" where
  "build_prepared F B L n cfg plan prepared =
     (let reused = cp_reused plan;
          n1 = n + length (cs_upstreams cfg);
          n2 = n1 + length (cs_services cfg);
          n3 = n2 + length (cs_global_rules cfg)
      in sum_bind (validate_runtime_form F cfg) (\<lambda>_.
         sum_bind (build_all (cn_upstreams reused) (build_named_upstream B prepared) n (cs_upstreams cfg)) (\<lambda>ups.
         sum_bind (build_all (cn_services reused) (\<lambda>n i s. build_service F B n s ups prepared) n1 (cs_services cfg)) (\<lambda>svcs.
         sum_bind (build_all (cn_global_rules reused) (\<lambda>n i g. build_global_rule F n g ups prepared) n2
                     (cs_global_rules cfg)) (\<lambda>rules.
         sum_bind (build_all (cn_routes reused) (\<lambda>n i r. build_route F B n r ups svcs prepared) n3 (cs_routes cfg)) (\<lambda>routes.
         sum_bind (build_all (cn_ssls reused) (\<lambda>n i l. proxy_ssl_try_from L l) 0 (cs_ssls cfg)) (\<lambda>ssls.
         Inr \<lparr>cn_upstreams = ups, cn_services = svcs, cn_global_rules = rules, cn_routes = routes, cn_ssls = ssls\<rparr>))))))) "

section \<open>The runtime snapshot\<close>

record ('a, 'l, 's, 'e, 'x, 'k) compiled_snapshot =
  rn_revision :: int
  rn_objects :: "('a, 'l, 's, 'e, 'x, 'k) candidate"
  rn_route_matcher :: "('a, 'l, 's, 'e) proxy_route match_entry"
  rn_global_plugins :: "('s, 'e) executor"
  rn_ssl_matcher :: "('x, 'k) ssl_matcher"

definition snapshot_empty :: "('a, 'l, 's, 'e, 'x, 'k) compiled_snapshot" where
  "snapshot_empty =
     \<lparr>rn_revision = 0, rn_objects = candidate_empty,
      rn_route_matcher = \<lparr>me_non_host_uri = [], me_host_uris = [], me_global_cors = False\<rparr>,
      rn_global_plugins = executor_default, rn_ssl_matcher = ssl_matcher_default\<rparr>"

text \<open>The error of a matcher that panics instead of failing is \<open>None\<close>.\<close>

definition compile_snapshot :: "matchit \<Rightarrow> ('a, 'l, 's, 'e, 'x, 'k) candidate \<Rightarrow> int \<Rightarrow>
    proxy_error option + ('a, 'l, 's, 'e, 'x, 'k) compiled_snapshot" where
  "compile_snapshot M candidate revision =
     (let global_plugins = build_global_plugin_executor (cn_global_rules candidate)
      in sum_bind (map_err (\<lambda>e. case e of RouterInsert m \<Rightarrow> Some (PE_Configuration m) | RouterPanics \<Rightarrow> None)
                     (build_matcher M (cn_routes candidate) global_plugins)) (\<lambda>route_matcher.
         sum_bind (map_err Some (build_ssl_matcher M (cn_ssls candidate))) (\<lambda>ssl_matcher.
         Inr \<lparr>rn_revision = revision, rn_objects = candidate, rn_route_matcher = route_matcher,
              rn_global_plugins = global_plugins, rn_ssl_matcher = ssl_matcher\<rparr>)))"

section \<open>The health checks of a snapshot\<close>

text \<open>\<open>fingerprint\<close> is the health-check fingerprint of an upstream configuration, \<open>specs\<close> the checks of a
  plugin object.\<close>

definition plugin_health_checks :: "(('s, 'e) plugin \<Rightarrow> ('f, 'l) hc_spec list) \<Rightarrow> string \<Rightarrow> ('s, 'e) plugin_entry list \<Rightarrow>
    ('f, 'l) hc_spec list" where
  "plugin_health_checks specs prefix plugins =
     concat (map (\<lambda>e. map (\<lambda>s. s\<lparr>hs_key := prefix @ ''/'' @ hs_key s\<rparr>) (specs (pe_plugin e))) plugins)"

definition upstream_check :: "(upstream \<Rightarrow> 'f) \<Rightarrow> string \<Rightarrow> ('a, 'l) proxy_upstream \<Rightarrow> ('f, 'l) hc_spec" where
  "upstream_check fingerprint key u = \<lparr>hs_key = key, hs_fingerprint = fingerprint (px_inner u), hs_service = px_lb u\<rparr>"

definition inline_check :: "(upstream \<Rightarrow> 'f) \<Rightarrow> string \<Rightarrow> ('a, 'l) proxy_upstream option \<Rightarrow> ('f, 'l) hc_spec list" where
  "inline_check fingerprint key inline =
     (case inline of Some u \<Rightarrow> [upstream_check fingerprint key u] | None \<Rightarrow> [])"

definition collect_health_checks :: "(upstream \<Rightarrow> 'f) \<Rightarrow> (('s, 'e) plugin \<Rightarrow> ('f, 'l) hc_spec list) \<Rightarrow>
    ('a, 'l, 's, 'e, 'x, 'k) candidate \<Rightarrow> ('f, 'l) hc_spec list" where
  "collect_health_checks fingerprint specs c =
     map (\<lambda>(i, u). upstream_check fingerprint (''upstream/'' @ i) u) (cn_upstreams c) @
     concat (map (\<lambda>(i, s). inline_check fingerprint (''service/'' @ i @ ''/inline'') (sv_inline_upstream s) @
       plugin_health_checks specs (''service/'' @ i @ ''/plugin'') (sv_plugins s)) (cn_services c)) @
     concat (map (\<lambda>(i, r). inline_check fingerprint (''route/'' @ i @ ''/inline'') (ro_inline_upstream r) @
       plugin_health_checks specs (''route/'' @ i @ ''/plugin'') (ro_plugins r)) (cn_routes c)) @
     concat (map (\<lambda>(i, g). plugin_health_checks specs (''global-rule/'' @ i @ ''/plugin'') (pgr_plugins g))
       (cn_global_rules c))"

section \<open>Reused objects are current\<close>

text \<open>A plugin object depends on the named upstreams at its declared references only.\<close>

definition plugins_local :: "('p, ('q, 'a, 'l) build_ctx) plugin_fns \<Rightarrow> bool" where
  "plugins_local F \<longleftrightarrow> (\<forall>name v ids ctx ups. plugin_upstream_refs F name v = Inr ids \<longrightarrow>
     (\<forall>k \<in> set ids. map_of ups k = map_of (bc_upstreams ctx) k) \<longrightarrow>
     build_plugin_with_upstreams F name v (ctx\<lparr>bc_upstreams := ups\<rparr>) = build_plugin_with_upstreams F name v ctx)"

lemma plugins_localD:
  "plugins_local F \<Longrightarrow> plugin_upstream_refs F name v = Inr ids \<Longrightarrow>
   (\<And>k. k \<in> set ids \<Longrightarrow> map_of ups k = map_of (bc_upstreams ctx) k) \<Longrightarrow>
   build_plugin_with_upstreams F name v (ctx\<lparr>bc_upstreams := ups\<rparr>) = build_plugin_with_upstreams F name v ctx"
  unfolding plugins_local_def by blast

lemma build_plugins_local:
  assumes "plugins_local F" and "plugin_upstream_deps F ps = Inr ds"
    and "\<And>k. k \<in> ds \<Longrightarrow> map_of ups k = map_of (bc_upstreams ctx) k"
  shows "build_plugins F (ctx\<lparr>bc_upstreams := ups\<rparr>) msg ps = build_plugins F ctx msg ps"
  using assms(2,3)
proof (induction ps arbitrary: ds)
  case (Cons p ps)
  obtain name v where p: "p = (name, v)" by (cases p)
  obtain ids es where deps: "plugin_upstream_refs F name v = Inr ids" "plugin_upstream_deps F ps = Inr es" "ds = set ids \<union> es"
    using Cons.prems(1) by (auto simp: p)
  have "build_plugin_with_upstreams F name v (ctx\<lparr>bc_upstreams := ups\<rparr>) = build_plugin_with_upstreams F name v ctx"
    by (rule plugins_localD [OF assms(1) deps(1)]) (use Cons.prems(2) deps(3) in blast)
  then show ?case using Cons.IH [OF deps(2)] Cons.prems(2) deps(3) by (simp add: p)
qed simp

lemma scope_plugins_local:
  assumes "plugins_local F" and "plugin_upstream_deps F ps = Inr ds"
    and "\<And>k. k \<in> ds \<Longrightarrow> map_of ups k = map_of ups' k"
  shows "scope_plugins F \<lparr>bc_upstreams = ups, bc_prepared = q, bc_owner = w, bc_alloc = n\<rparr> suffix ps =
    scope_plugins F \<lparr>bc_upstreams = ups', bc_prepared = q, bc_owner = w, bc_alloc = n\<rparr> suffix ps"
  using build_plugins_local [OF assms(1,2), of ups "\<lparr>bc_upstreams = ups', bc_prepared = q, bc_owner = w, bc_alloc = n\<rparr>"] assms(3)
  by (simp add: scope_plugins_def)

lemma build_service_local:
  assumes "plugins_local F" and "scope_upstream_deps F s = Inr ds"
    and "\<And>k. k \<in> ds \<Longrightarrow> map_of ups k = map_of ups' k"
  shows "build_service F B n s ups q = build_service F B n s ups' q"
proof -
  obtain es where es: "plugin_upstream_deps F (svc_plugins s) = Inr es" "es \<subseteq> ds"
      "\<forall>k. svc_upstream_id s = Some k \<longrightarrow> k \<in> ds"
    using assms(2) by (cases "svc_upstream_id s") (auto simp: scope_upstream_deps_def)
  then have "\<And>k. k \<in> es \<Longrightarrow> map_of ups k = map_of ups' k"
    and "\<And>k. svc_upstream_id s = Some k \<Longrightarrow> map_of ups k = map_of ups' k"
    using assms(3) by blast+
  then show ?thesis
    using scope_plugins_local [OF assms(1) es(1), of ups ups'] by (simp add: build_service_def cong: option.case_cong)
qed

lemma build_rule_local:
  assumes "plugins_local F" and "plugin_upstream_deps F (gr_plugins g) = Inr ds"
    and "\<And>k. k \<in> ds \<Longrightarrow> map_of ups k = map_of ups' k"
  shows "build_global_rule F n g ups q = build_global_rule F n g ups' q"
  using scope_plugins_local [OF assms] by (simp add: build_global_rule_def)

lemma build_route_local:
  fixes ups ups' :: "('c, 'd) upstream_objects" and svcs svcs' :: "(string \<times> ('c, 'd, 'a, 'b) proxy_service) list"
  assumes "plugins_local F" and "scope_upstream_deps_rule F r = Inr ds"
    and "\<And>k. k \<in> ds \<Longrightarrow> map_of ups k = map_of ups' k"
    and "\<And>k. rt_service_id r = Some k \<Longrightarrow> map_of svcs k = map_of svcs' k"
  shows "build_route F B n r ups svcs q = build_route F B n r ups' svcs' q"
proof -
  obtain es where es: "plugin_upstream_deps F (rt_plugins r) = Inr es" "es \<subseteq> ds"
      "\<forall>k. rt_upstream_id r = Some k \<longrightarrow> k \<in> ds"
    using assms(2) by (cases "rt_upstream_id r") (auto simp: scope_upstream_deps_rule_def)
  then have "\<And>k. k \<in> es \<Longrightarrow> map_of ups k = map_of ups' k"
    and up: "\<And>k. rt_upstream_id r = Some k \<Longrightarrow> map_of ups k = map_of ups' k"
    using assms(3) by blast+
  then have plugins: "scope_plugins F \<lparr>bc_upstreams = ups, bc_prepared = q, bc_owner = OwnRoute (rt_id r), bc_alloc = n\<rparr> [] (rt_plugins r) =
      scope_plugins F \<lparr>bc_upstreams = ups', bc_prepared = q, bc_owner = OwnRoute (rt_id r), bc_alloc = n\<rparr> [] (rt_plugins r)"
    by (intro scope_plugins_local [OF assms(1) es(1)])
  have upstream: "route_upstream ups r s inline = route_upstream ups' r s inline" for s :: "('c, 'd, 'a, 'b) proxy_service option" and inline
    using up by (simp add: route_upstream_def cong: option.case_cong)
  have service: "lookup_service svcs r = lookup_service svcs' r"
    using assms(4) by (simp add: lookup_service_def cong: option.case_cong)
  show ?thesis unfolding build_route_def plugins upstream service ..
qed

text \<open>The maps of the plan and of the compilation.\<close>

lemma map_of_reuse_equal:
  "map_of (reuse_equal inner prev cs) i = Some v \<Longrightarrow> map_of prev i = Some v \<and> (i, inner v) \<in> set cs"
  by (induction cs) (auto split: option.splits if_splits)

lemma map_of_reuse_scopes:
  "reuse_scopes eligible inner deps ups prev cs = Inr rs \<Longrightarrow> map_of rs i = Some v \<Longrightarrow>
   map_of prev i = Some v \<and> (i, inner v) \<in> set cs \<and> eligible (inner v) \<and>
   (\<exists>ds. deps (inner v) = Inr ds \<and> (\<forall>d \<in> ds. map_of ups d \<noteq> None))"
proof (induction cs arbitrary: rs)
  case (Cons c cs)
  obtain j x where c: "c = (j, x)" by (cases c)
  obtain here rest where step: "rs = here @ rest" "reuse_scopes eligible inner deps ups prev cs = Inr rest"
      "(case map_of prev j of
          Some existing \<Rightarrow>
            if eligible x \<and> inner existing = x
            then sum_bind (deps x) (\<lambda>ds. Inr (if \<forall>d \<in> ds. map_of ups d \<noteq> None then [(j, existing)] else []))
            else Inr []
        | None \<Rightarrow> Inr []) = Inr here"
    using Cons.prems(1) by (auto simp: c)
  show ?case
  proof (cases "map_of here i")
    case None
    then have "map_of rest i = Some v" using Cons.prems(2) step(1) by (auto simp: map_add_def split: option.splits)
    then show ?thesis using Cons.IH [OF step(2)] by auto
  next
    case (Some w)
    then have "w = v" using Cons.prems(2) step(1) by (auto simp: map_add_def)
    then show ?thesis using Some step(3) by (auto simp: c split: option.splits if_splits)
  qed
qed simp

lemma build_all_keys: "build_all reused mk n cs = Inr objs \<Longrightarrow> map fst objs = map fst cs"
  by (induction cs arbitrary: n objs) auto

lemma build_all_lookup:
  "build_all reused mk n cs = Inr objs \<Longrightarrow> map_of cs i = Some c \<Longrightarrow>
   (case map_of reused i of
      Some existing \<Rightarrow> map_of objs i = Some existing
    | None \<Rightarrow> \<exists>m v. mk m i c = Inr v \<and> map_of objs i = Some v)"
proof (induction cs arbitrary: n objs)
  case (Cons d cs)
  obtain j x where d: "d = (j, x)" by (cases d)
  obtain v rest where step: "objs = (j, v) # rest" "build_all reused mk (n + 1) cs = Inr rest"
      "(case decision reused j of Reuse existing \<Rightarrow> Inr existing | Rebuild \<Rightarrow> mk n j x) = Inr v"
    using Cons.prems(1) by (auto simp: d)
  show ?case
  proof (cases "i = j")
    case True
    then show ?thesis using step Cons.prems(2) by (auto simp: d decision_def split: option.splits)
  next
    case False
    then have "map_of cs i = Some c" using Cons.prems(2) by (simp add: d)
    from Cons.IH [OF step(2) this] show ?thesis using False step(1) by (simp split: option.splits)
  qed
qed simp

lemma build_all_reused:
  assumes "build_all reused mk n cs = Inr objs" and "map_of reused i = Some v" and "i \<in> keys cs"
  shows "map_of objs i = Some v"
proof -
  obtain c where "map_of cs i = Some c" using assms(3) by (metis map_of_None_keys not_None_eq)
  from build_all_lookup [OF assms(1) this] assms(2) show ?thesis by simp
qed

text \<open>A candidate is current for a configuration when it holds exactly its resources and each object is
  the construction of its own configuration against the candidate's own upstreams and services.\<close>

definition current :: "(('s, 'e) plugin, ('q, 'a, 'l) build_ctx) plugin_fns \<Rightarrow> ('q, 'l) build_env \<Rightarrow> ('x, 'k) tls_lib \<Rightarrow>
    config_set \<Rightarrow> ('a, 'l, 's, 'e, 'x, 'k) candidate \<Rightarrow> bool" where
  "current F B L cfg c \<longleftrightarrow>
     map fst (cn_upstreams c) = map fst (cs_upstreams cfg) \<and>
     map fst (cn_services c) = map fst (cs_services cfg) \<and>
     map fst (cn_global_rules c) = map fst (cs_global_rules cfg) \<and>
     map fst (cn_routes c) = map fst (cs_routes cfg) \<and>
     map fst (cn_ssls c) = map fst (cs_ssls cfg) \<and>
     (\<forall>i u. map_of (cs_upstreams cfg) i = Some u \<longrightarrow>
        (\<exists>v n q. map_of (cn_upstreams c) i = Some v \<and> env_upstream B n u q = Inr v)) \<and>
     (\<forall>i s. map_of (cs_services cfg) i = Some s \<longrightarrow>
        (\<exists>v n q. map_of (cn_services c) i = Some v \<and> build_service F B n s (cn_upstreams c) q = Inr v)) \<and>
     (\<forall>i g. map_of (cs_global_rules cfg) i = Some g \<longrightarrow>
        (\<exists>v n q. map_of (cn_global_rules c) i = Some v \<and> build_global_rule F n g (cn_upstreams c) q = Inr v)) \<and>
     (\<forall>i r. map_of (cs_routes cfg) i = Some r \<longrightarrow>
        (\<exists>v n q. map_of (cn_routes c) i = Some v \<and> build_route F B n r (cn_upstreams c) (cn_services c) q = Inr v)) \<and>
     (\<forall>i l. map_of (cs_ssls cfg) i = Some l \<longrightarrow>
        (\<exists>v. map_of (cn_ssls c) i = Some v \<and> proxy_ssl_try_from L l = Inr v))"

lemma currentD:
  assumes "current F B L cfg c"
  shows "map fst (cn_upstreams c) = map fst (cs_upstreams cfg)" "map fst (cn_services c) = map fst (cs_services cfg)"
    "map fst (cn_global_rules c) = map fst (cs_global_rules cfg)" "map fst (cn_routes c) = map fst (cs_routes cfg)"
    "map fst (cn_ssls c) = map fst (cs_ssls cfg)"
    "map_of (cs_upstreams cfg) i = Some u \<Longrightarrow> \<exists>v n q. map_of (cn_upstreams c) i = Some v \<and> env_upstream B n u q = Inr v"
    "map_of (cs_services cfg) i = Some s \<Longrightarrow>
       \<exists>v n q. map_of (cn_services c) i = Some v \<and> build_service F B n s (cn_upstreams c) q = Inr v"
    "map_of (cs_global_rules cfg) i = Some g \<Longrightarrow>
       \<exists>v n q. map_of (cn_global_rules c) i = Some v \<and> build_global_rule F n g (cn_upstreams c) q = Inr v"
    "map_of (cs_routes cfg) i = Some r \<Longrightarrow>
       \<exists>v n q. map_of (cn_routes c) i = Some v \<and> build_route F B n r (cn_upstreams c) (cn_services c) q = Inr v"
    "map_of (cs_ssls cfg) i = Some l \<Longrightarrow> \<exists>v. map_of (cn_ssls c) i = Some v \<and> proxy_ssl_try_from L l = Inr v"
  using assms unfolding current_def by blast+

text \<open>An object tells the configuration it was built from.\<close>

lemma built_inner:
  "build_service F B n s ups q = Inr v \<Longrightarrow> sv_inner v = s"
  "build_global_rule F n g ups q = Inr w \<Longrightarrow> pgr_inner w = g"
  "build_route F B n r ups svcs q = Inr x \<Longrightarrow> ro_inner x = r"
  "proxy_ssl_try_from L l = Inr y \<Longrightarrow> psl_inner y = l"
  by (auto simp: build_service_def build_global_rule_def build_route_def proxy_ssl_try_from_def Let_def split: if_splits)

lemma upstream_rebuilt:
  fixes v :: "('c, 'b) proxy_upstream"
  assumes "env_upstream B n u q = Inr v"
  shows "env_upstream B n (px_inner v) q = Inr v" and "up_id u \<noteq> [] \<Longrightarrow> px_inner v = u"
proof -
  show inner: "px_inner v = u" if "up_id u \<noteq> []"
    using assms that by (auto simp: env_upstream_def build_upstream_def split: sum.splits)
  show "env_upstream B n (px_inner v) q = Inr v"
  proof (cases "up_id u = []")
    case True
    let ?w = "u\<lparr>up_id := ''inline_'' @ be_uuid B n\<rparr>"
    have "px_inner v = ?w" using assms True by (auto simp: env_upstream_def build_upstream_def Let_def split: sum.splits)
    moreover have "env_upstream B n ?w q = (env_upstream B n u q :: proxy_error + ('c, 'b) proxy_upstream)"
      using True by (simp add: env_upstream_def build_upstream_def)
    ultimately show ?thesis using assms by simp
  qed (use inner assms in simp)
qed

section \<open>Runs of publications\<close>

text \<open>The candidates of successive publications: each one is planned against its predecessor and compiled
  from whatever material was prepared.\<close>

inductive compiled_run :: "(('s, 'e) plugin, ('q, 'a, 'l) build_ctx) plugin_fns \<Rightarrow> ('q, 'l) build_env \<Rightarrow> ('x, 'k) tls_lib \<Rightarrow>
    config_set \<Rightarrow> ('a, 'l, 's, 'e, 'x, 'k) candidate \<Rightarrow> bool"
  for F B L where
  start: "compiled_run F B L config_set_default candidate_empty"
| publish: "compiled_run F B L cfg c \<Longrightarrow> cs_distinct cfg' \<Longrightarrow> build_plan F cfg' c = Inr plan \<Longrightarrow>
    build_prepared F B L n cfg' plan prepared = Inr c' \<Longrightarrow> compiled_run F B L cfg' c'"

lemma map_of_distinct: "distinct_keys cs \<Longrightarrow> map_of cs i = Some c \<Longrightarrow> (i, d) \<in> set cs \<Longrightarrow> c = d"
  by (metis map_of_is_SomeI option.inject)

lemma current_step:
  assumes F: "plugins_local F" and prev: "current F B L cfg c" and dist: "cs_distinct cfg'"
    and plan: "build_plan F cfg' c = Inr plan" and build: "build_prepared F B L n cfg' plan prepared = Inr c'"
  shows "current F B L cfg' c'"
proof -
  let ?reused = "cp_reused plan"
  obtain svcs rules routes where reuse:
      "reuse_scopes (\<lambda>_. True) sv_inner (scope_upstream_deps F) (cn_upstreams ?reused) (cn_services c) (cs_services cfg') = Inr svcs"
      "reuse_scopes (\<lambda>_. True) pgr_inner (\<lambda>g. plugin_upstream_deps F (gr_plugins g)) (cn_upstreams ?reused)
         (cn_global_rules c) (cs_global_rules cfg') = Inr rules"
      "reuse_scopes (\<lambda>r. is_none_or (rt_service_id r) (\<lambda>i. map_of svcs i \<noteq> None)) ro_inner (scope_upstream_deps_rule F)
         (cn_upstreams ?reused) (cn_routes c) (cs_routes cfg') = Inr routes"
      "cn_upstreams ?reused = reuse_equal px_inner (cn_upstreams c) (cs_upstreams cfg')"
      "cn_services ?reused = svcs" "cn_global_rules ?reused = rules" "cn_routes ?reused = routes"
      "cn_ssls ?reused = reuse_equal psl_inner (cn_ssls c) (cs_ssls cfg')"
    using plan by (auto simp: build_plan_def plan_reuse_def Let_def)
  obtain k1 k2 k3 where built:
      "build_all (cn_upstreams ?reused) (build_named_upstream B prepared) n (cs_upstreams cfg') = Inr (cn_upstreams c')"
      "build_all svcs (\<lambda>n i s. build_service F B n s (cn_upstreams c') prepared) k1 (cs_services cfg') = Inr (cn_services c')"
      "build_all rules (\<lambda>n i g. build_global_rule F n g (cn_upstreams c') prepared) k2 (cs_global_rules cfg') = Inr (cn_global_rules c')"
      "build_all routes (\<lambda>n i r. build_route F B n r (cn_upstreams c') (cn_services c') prepared) k3 (cs_routes cfg') = Inr (cn_routes c')"
      "build_all (cn_ssls ?reused) (\<lambda>n i l. proxy_ssl_try_from L l) 0 (cs_ssls cfg') = Inr (cn_ssls c')"
    using build by (auto simp: build_prepared_def Let_def reuse)
  have dk: "distinct_keys (cs_upstreams cfg')" "distinct_keys (cs_services cfg')" "distinct_keys (cs_global_rules cfg')"
    "distinct_keys (cs_routes cfg')" "distinct_keys (cs_ssls cfg')" using dist by (auto simp: cs_distinct_def)
  have ups: "map_of (cn_upstreams c') d = map_of (cn_upstreams c) d" if r: "map_of (cn_upstreams ?reused) d \<noteq> None" for d
  proof -
    obtain v where v: "map_of (cn_upstreams ?reused) d = Some v" using r by blast
    from map_of_reuse_equal [OF this [unfolded reuse(4)]] build_all_reused [OF built(1) v] show ?thesis by force
  qed
  have svc: "map_of (cn_services c') d = map_of (cn_services c) d" if r: "map_of svcs d \<noteq> None" for d
  proof -
    obtain v where v: "map_of svcs d = Some v" using r by blast
    from map_of_reuse_scopes [OF reuse(1) this] build_all_reused [OF built(2) v] show ?thesis by force
  qed
  show ?thesis unfolding current_def
  proof (intro conjI allI impI)
    fix i u assume u: "map_of (cs_upstreams cfg') i = Some u"
    show "\<exists>v n q. map_of (cn_upstreams c') i = Some v \<and> env_upstream B n u q = Inr v"
    proof (cases "map_of (cn_upstreams ?reused) i")
      case None
      then obtain m v where v: "build_named_upstream B prepared m i u = Inr v" "map_of (cn_upstreams c') i = Some v"
        using build_all_lookup [OF built(1) u] by auto
      then obtain q where "env_upstream B m u q = Inr v" by (auto simp: build_named_upstream_def split: option.splits)
      then show ?thesis using v(2) by blast
    next
      case (Some v)
      from map_of_reuse_equal [OF this [unfolded reuse(4)]]
      have v: "map_of (cn_upstreams c) i = Some v" "px_inner v = u" using map_of_distinct [OF dk(1) u] by auto
      then obtain u' where "map_of (cs_upstreams cfg) i = Some u'"
        using currentD(1) [OF prev] by (metis list.set_map map_of_None_keys not_Some_eq)
      then obtain n q where b: "env_upstream B n u' q = Inr v" using currentD(6) [OF prev] v(1) by force
      have "env_upstream B n u q = Inr v" using upstream_rebuilt(1) [OF b] v(2) by simp
      then show ?thesis using build_all_lookup [OF built(1) u] Some by auto
    qed
  next
    fix i s assume s: "map_of (cs_services cfg') i = Some s"
    show "\<exists>v n q. map_of (cn_services c') i = Some v \<and> build_service F B n s (cn_upstreams c') q = Inr v"
    proof (cases "map_of svcs i")
      case None
      then show ?thesis using build_all_lookup [OF built(2) s] by auto
    next
      case (Some v)
      from map_of_reuse_scopes [OF reuse(1) this]
      obtain ds where v: "map_of (cn_services c) i = Some v" "sv_inner v = s"
          "scope_upstream_deps F s = Inr ds" "\<forall>d \<in> ds. map_of (cn_upstreams ?reused) d \<noteq> None"
        using map_of_distinct [OF dk(2) s] by auto
      then obtain s' where "map_of (cs_services cfg) i = Some s'"
        using currentD(2) [OF prev] by (metis list.set_map map_of_None_keys not_Some_eq)
      then obtain n q where b: "build_service F B n s' (cn_upstreams c) q = Inr v" using currentD(7) [OF prev] v(1) by force
      then have "s' = s" using built_inner(1) v(2) by metis
      then have "build_service F B n s (cn_upstreams c') q = Inr v"
        using b build_service_local [OF F v(3), of "cn_upstreams c'" "cn_upstreams c"] ups v(4) by simp
      then show ?thesis using build_all_lookup [OF built(2) s] Some by auto
    qed
  next
    fix i g assume g: "map_of (cs_global_rules cfg') i = Some g"
    show "\<exists>v n q. map_of (cn_global_rules c') i = Some v \<and> build_global_rule F n g (cn_upstreams c') q = Inr v"
    proof (cases "map_of rules i")
      case None
      then show ?thesis using build_all_lookup [OF built(3) g] by auto
    next
      case (Some v)
      from map_of_reuse_scopes [OF reuse(2) this]
      obtain ds where v: "map_of (cn_global_rules c) i = Some v" "pgr_inner v = g"
          "plugin_upstream_deps F (gr_plugins g) = Inr ds" "\<forall>d \<in> ds. map_of (cn_upstreams ?reused) d \<noteq> None"
        using map_of_distinct [OF dk(3) g] by auto
      then obtain g' where "map_of (cs_global_rules cfg) i = Some g'"
        using currentD(3) [OF prev] by (metis list.set_map map_of_None_keys not_Some_eq)
      then obtain n q where b: "build_global_rule F n g' (cn_upstreams c) q = Inr v" using currentD(8) [OF prev] v(1) by force
      then have "g' = g" using built_inner(2) v(2) by metis
      then have "build_global_rule F n g (cn_upstreams c') q = Inr v"
        using b build_rule_local [OF F v(3), of "cn_upstreams c'" "cn_upstreams c"] ups v(4) by simp
      then show ?thesis using build_all_lookup [OF built(3) g] Some by auto
    qed
  next
    fix i r assume r: "map_of (cs_routes cfg') i = Some r"
    show "\<exists>v n q. map_of (cn_routes c') i = Some v \<and> build_route F B n r (cn_upstreams c') (cn_services c') q = Inr v"
    proof (cases "map_of routes i")
      case None
      then show ?thesis using build_all_lookup [OF built(4) r] by auto
    next
      case (Some v)
      note reused = map_of_reuse_scopes [OF reuse(3) this]
      have inner: "ro_inner v = r" using map_of_distinct [OF dk(4) r, of "ro_inner v"] reused by metis
      obtain ds where v: "map_of (cn_routes c) i = Some v" "ro_inner v = r"
          "is_none_or (rt_service_id r) (\<lambda>i. map_of svcs i \<noteq> None)"
          "scope_upstream_deps_rule F r = Inr ds" "\<forall>d \<in> ds. map_of (cn_upstreams ?reused) d \<noteq> None"
        using reused inner unfolding inner by blast
      have "i \<in> keys (cs_routes cfg)" using currentD(4) [OF prev] v(1) by (metis list.set_map map_of_None_keys option.distinct(1))
      then obtain r' where r': "map_of (cs_routes cfg) i = Some r'" by (metis map_of_None_keys not_None_eq)
      obtain v0 n q where v0: "map_of (cn_routes c) i = Some v0" "build_route F B n r' (cn_upstreams c) (cn_services c) q = Inr v0"
        using currentD(9) [OF prev r'] by blast
      have b: "build_route F B n r' (cn_upstreams c) (cn_services c) q = Inr v" using v0 v(1) by simp
      then have "r' = r" using built_inner(3) v(2) by metis
      moreover have "map_of (cn_services c') k = map_of (cn_services c) k" if "rt_service_id r = Some k" for k
        using svc [of k] v(3) that by simp
      ultimately have "build_route F B n r (cn_upstreams c') (cn_services c') q = Inr v"
        using b build_route_local [OF F v(4), of "cn_upstreams c'" "cn_upstreams c" "cn_services c'" "cn_services c"] ups v(5) by metis
      then show ?thesis using build_all_lookup [OF built(4) r] Some by auto
    qed
  next
    fix i l assume l: "map_of (cs_ssls cfg') i = Some l"
    show "\<exists>v. map_of (cn_ssls c') i = Some v \<and> proxy_ssl_try_from L l = Inr v"
    proof (cases "map_of (cn_ssls ?reused) i")
      case None
      then show ?thesis using build_all_lookup [OF built(5) l] by auto
    next
      case (Some v)
      from map_of_reuse_equal [OF this [unfolded reuse(8)]]
      have v: "map_of (cn_ssls c) i = Some v" "psl_inner v = l" using map_of_distinct [OF dk(5) l] by auto
      then obtain l' where "map_of (cs_ssls cfg) i = Some l'"
        using currentD(5) [OF prev] by (metis list.set_map map_of_None_keys not_Some_eq)
      then have "proxy_ssl_try_from L l' = Inr v" using currentD(10) [OF prev] v(1) by force
      then show ?thesis using built_inner(4) v(2) build_all_lookup [OF built(5) l] Some by auto
    qed
  qed (rule build_all_keys [OF built(1)] build_all_keys [OF built(2)] build_all_keys [OF built(3)]
      build_all_keys [OF built(4)] build_all_keys [OF built(5)])+
qed

lemma run_current:
  assumes "plugins_local F" and "compiled_run F B L cfg c"
  shows "current F B L cfg c"
  using assms(2)
proof (induction rule: compiled_run.induct)
  case start
  show ?case by (simp add: current_def config_set_default_def candidate_empty_def)
next
  case (publish cfg c cfg' plan n prepared c')
  show ?case by (rule current_step [OF assms(1) publish.IH publish.hyps(2-4)])
qed

text \<open>C13: In every sequence of publications each object that runs - reused or rebuilt - is the construction
  of its resource's present configuration against the upstreams and services that run with it: reuse
  never keeps an object that refers to a replaced upstream or service.\<close>

theorem compiled_objects_current:
  assumes "plugins_local F" and "compiled_run F B L cfg c"
  shows "current F B L cfg c"
  by (rule run_current [OF assms])

text \<open>A route that names an upstream itself, or is bound to a service that does, forwards to the object
  that runs for that upstream and was built from its present configuration.\<close>

theorem route_forwards_to_present_upstream:
  assumes F: "plugins_local F" and run: "compiled_run F B L cfg c"
    and r: "map_of (cs_routes cfg) i = Some r" "rt_upstream r = None"
    and up: "map_of (cs_upstreams cfg) k = Some u" "up_id u \<noteq> []"
    and named: "rt_upstream_id r = Some k \<or> (rt_upstream_id r = None \<and> rt_service_id r = Some j \<and>
      map_of (cs_services cfg) j = Some s \<and> svc_upstream s = None \<and> svc_upstream_id s = Some k)"
  shows "\<exists>v w. map_of (cn_routes c) i = Some v \<and> ro_resolved_upstream v = Some w \<and>
    map_of (cn_upstreams c) k = Some w \<and> px_inner w = u"
proof -
  note cur = run_current [OF F run]
  obtain w n q where w: "map_of (cn_upstreams c) k = Some w" "env_upstream B n u q = Inr w"
    using currentD(6) [OF cur up(1)] by blast
  have inner: "px_inner w = u" by (rule upstream_rebuilt(2) [OF w(2) up(2)])
  obtain v n' q' where v: "map_of (cn_routes c) i = Some v"
      "build_route F B n' r (cn_upstreams c) (cn_services c) q' = Inr v" using currentD(9) [OF cur r(1)] by blast
  have "ro_resolved_upstream v = Some w"
  proof (cases "rt_upstream_id r")
    case (Some k')
    then have "k' = k" using named by simp
    then show ?thesis using v(2) r(2) w(1) Some
      by (auto simp: build_route_def route_upstream_def inline_upstream_def Let_def)
  next
    case None
    then have svc: "rt_service_id r = Some j" "map_of (cs_services cfg) j = Some s" "svc_upstream s = None"
      "svc_upstream_id s = Some k" using named by auto
    obtain x n'' q'' where x: "map_of (cn_services c) j = Some x"
        "build_service F B n'' s (cn_upstreams c) q'' = Inr x" using currentD(7) [OF cur svc(2)] by blast
    have "sv_upstream x = Some w"
      using x(2) svc(3,4) w(1) by (auto simp: build_service_def inline_upstream_def)
    then show ?thesis using v(2) r(2) None svc(1) x(1)
      by (auto simp: build_route_def route_upstream_def inline_upstream_def lookup_service_def Let_def)
  qed
  then show ?thesis using v(1) w(1) inner by blast
qed

section \<open>The plan prepares all that compilation needs\<close>

text \<open>A plugin whose configuration validates, whose references exist and whose inline upstreams are
  prepared can be built; its preparation jobs carry distinct occurrences of its owner.\<close>

definition plugins_buildable :: "('p, ('q, 'a, 'l) build_ctx) plugin_fns \<Rightarrow> ('q, 'l) build_env \<Rightarrow> bool" where
  "plugins_buildable F B \<longleftrightarrow> (\<forall>name v ids jobs ctx. validate_plugin_config F name v = Inr () \<longrightarrow>
     plugin_upstream_refs F name v = Inr ids \<longrightarrow> (\<forall>k \<in> set ids. map_of (bc_upstreams ctx) k \<noteq> None) \<longrightarrow>
     plugin_upstream_jobs F (bc_owner ctx) [(name, v)] = Inr jobs \<longrightarrow> jobs_prepared B ctx jobs \<longrightarrow>
     is_ok (build_plugin_with_upstreams F name v ctx))"

fun owner_scope :: "scope_owner \<Rightarrow> nat \<times> string" where
  "owner_scope (OwnService i) = (1, i)"
| "owner_scope (OwnGlobalRule i) = (2, i)"
| "owner_scope (OwnRoute i) = (3, i)"

fun occurrence_scope :: "upstream_occurrence \<Rightarrow> nat \<times> string" where
  "occurrence_scope (OccNamed i) = (0, i)"
| "occurrence_scope (OccServiceInline i) = (1, i)"
| "occurrence_scope (OccRouteInline i) = (3, i)"
| "occurrence_scope (OccTrafficSplit w _ _) = owner_scope w"
| "occurrence_scope (OccAiProxy w) = owner_scope w"

fun plugin_occurrence :: "upstream_occurrence \<Rightarrow> bool" where
  "plugin_occurrence (OccTrafficSplit _ _ _) = True"
| "plugin_occurrence (OccAiProxy _) = True"
| "plugin_occurrence _ = False"

definition plugins_own_jobs :: "('p, 'c) plugin_fns \<Rightarrow> bool" where
  "plugins_own_jobs F \<longleftrightarrow> (\<forall>w ps jobs. distinct_keys ps \<longrightarrow> plugin_upstream_jobs F w ps = Inr jobs \<longrightarrow>
     distinct (map fst jobs) \<and> (\<forall>occ \<in> keys jobs. plugin_occurrence occ \<and> occurrence_scope occ = owner_scope w))"

definition config_wf :: "config_set \<Rightarrow> bool" where
  "config_wf cfg \<longleftrightarrow> cs_distinct cfg \<and>
     (\<forall>(i, s) \<in> set (cs_services cfg). svc_id s = i \<and> distinct_keys (svc_plugins s)) \<and>
     (\<forall>(i, g) \<in> set (cs_global_rules cfg). gr_id g = i \<and> distinct_keys (gr_plugins g)) \<and>
     (\<forall>(i, r) \<in> set (cs_routes cfg). rt_id r = i \<and> distinct_keys (rt_plugins r))"

lemma config_wfD:
  assumes "config_wf cfg"
  shows "(i, s) \<in> set (cs_services cfg) \<Longrightarrow> svc_id s = i"
    and "(i, g) \<in> set (cs_global_rules cfg) \<Longrightarrow> gr_id g = i"
    and "(i, r) \<in> set (cs_routes cfg) \<Longrightarrow> rt_id r = i"
  using assms unfolding config_wf_def by blast+

lemma rebuild_jobs_scopes:
  assumes "rebuild_jobs jobs reused cs = Inr js" and "distinct_keys cs"
    and "\<And>i c x. (i, c) \<in> set cs \<Longrightarrow> jobs i c = Inr x \<Longrightarrow>
      distinct (map fst x) \<and> (\<forall>occ \<in> keys x. occurrence_scope occ = (k, i))"
  shows "distinct (map fst js) \<and> (\<forall>occ \<in> keys js. \<exists>i \<in> keys cs. occurrence_scope occ = (k, i))"
  using assms
proof (induction cs arbitrary: js)
  case (Cons p cs)
  obtain i c where p: "p = (i, c)" by (cases p)
  obtain here rest where step: "js = here @ rest" "rebuild_jobs jobs reused cs = Inr rest"
      "(if map_of reused i = None then jobs i c else Inr []) = Inr here" using Cons.prems(1) by (auto simp: p)
  have here: "distinct (map fst here) \<and> (\<forall>occ \<in> keys here. occurrence_scope occ = (k, i))"
    using Cons.prems(3) [of i c here] step(3) by (auto simp: p split: if_splits)
  have rest: "distinct (map fst rest) \<and> (\<forall>occ \<in> keys rest. \<exists>i \<in> keys cs. occurrence_scope occ = (k, i))"
    by (rule Cons.IH [OF step(2)]) (use Cons.prems(2,3) in \<open>auto simp: p\<close>)
  have i: "i \<notin> keys cs" using Cons.prems(2) by (simp add: p)
  have "keys here \<inter> keys rest = {}"
  proof (rule equals0I)
    fix occ assume "occ \<in> keys here \<inter> keys rest"
    then obtain j where "j \<in> keys cs" "occurrence_scope occ = (k, j)" "occurrence_scope occ = (k, i)"
      using here rest by blast
    then show False using i by simp
  qed
  then show ?case using here rest step(1) by (auto simp: p)
qed simp

lemma rebuild_jobs_subset:
  "rebuild_jobs jobs reused cs = Inr js \<Longrightarrow> (i, c) \<in> set cs \<Longrightarrow> map_of reused i = None \<Longrightarrow>
   \<exists>x. jobs i c = Inr x \<and> set x \<subseteq> set js"
proof (induction cs arbitrary: js)
  case (Cons p cs)
  obtain j d where p: "p = (j, d)" by (cases p)
  obtain here rest where step: "js = here @ rest" "rebuild_jobs jobs reused cs = Inr rest"
      "(if map_of reused j = None then jobs j d else Inr []) = Inr here" using Cons.prems(1) by (auto simp: p)
  show ?case
  proof (cases "(i, c) = p")
    case True
    then show ?thesis using step Cons.prems(3) by (auto simp: p)
  next
    case False
    then have "(i, c) \<in> set cs" using Cons.prems(2) by simp
    from Cons.IH [OF step(2) this Cons.prems(3)] show ?thesis using step(1) by auto
  qed
qed simp

lemma scope_jobs_distinct:
  assumes F: "plugins_own_jobs F" and ps: "distinct_keys ps" and "scope_jobs F w occ inline ps = Inr x"
    and occ: "\<not> plugin_occurrence occ" "occurrence_scope occ = owner_scope w"
  shows "distinct (map fst x) \<and> (\<forall>o' \<in> keys x. occurrence_scope o' = owner_scope w)"
proof -
  obtain js where js: "plugin_upstream_jobs F w ps = Inr js" "x = inline_job occ inline @ js"
    using assms(3) by (auto simp: scope_jobs_def)
  then have own: "distinct (map fst js)" "\<forall>o' \<in> keys js. plugin_occurrence o' \<and> occurrence_scope o' = owner_scope w"
    using F ps unfolding plugins_own_jobs_def by blast+
  then have "occ \<notin> keys js" using occ(1) by blast
  then show ?thesis using own occ(2) js(2) by (cases inline) (auto simp: inline_job_def)
qed

lemma plan_jobs_distinct:
  assumes F: "plugins_own_jobs F" and wf: "config_wf cfg" and "plan_jobs F cfg reused = Inr jobs"
  shows "distinct (map fst jobs)"
proof -
  obtain us ss gs rs where js:
      "rebuild_jobs (\<lambda>i u. Inr [(OccNamed i, u)]) (cn_upstreams reused) (cs_upstreams cfg) = Inr us"
      "rebuild_jobs (service_jobs F) (cn_services reused) (cs_services cfg) = Inr ss"
      "rebuild_jobs (rule_scope_jobs F) (cn_global_rules reused) (cs_global_rules cfg) = Inr gs"
      "rebuild_jobs (route_jobs F) (cn_routes reused) (cs_routes cfg) = Inr rs" "jobs = us @ ss @ gs @ rs"
    using assms(3) by (auto simp: plan_jobs_def)
  have dk: "distinct_keys (cs_upstreams cfg)" "distinct_keys (cs_services cfg)" "distinct_keys (cs_global_rules cfg)"
    "distinct_keys (cs_routes cfg)" using wf by (auto simp: config_wf_def cs_distinct_def)
  have u: "distinct (map fst us) \<and> (\<forall>occ \<in> keys us. \<exists>i \<in> keys (cs_upstreams cfg). occurrence_scope occ = (0, i))"
    by (rule rebuild_jobs_scopes [OF js(1) dk(1)]) auto
  have s: "distinct (map fst ss) \<and> (\<forall>occ \<in> keys ss. \<exists>i \<in> keys (cs_services cfg). occurrence_scope occ = (1, i))"
  proof (rule rebuild_jobs_scopes [OF js(2) dk(2)])
    fix i c x assume c: "(i, c) \<in> set (cs_services cfg)" and x: "service_jobs F i c = Inr x"
    have "distinct_keys (svc_plugins c)" using wf c by (auto simp: config_wf_def)
    from scope_jobs_distinct [OF F this x [unfolded service_jobs_def]]
    show "distinct (map fst x) \<and> (\<forall>occ \<in> keys x. occurrence_scope occ = (1, i))" by simp
  qed
  have g: "distinct (map fst gs) \<and> (\<forall>occ \<in> keys gs. \<exists>i \<in> keys (cs_global_rules cfg). occurrence_scope occ = (2, i))"
  proof (rule rebuild_jobs_scopes [OF js(3) dk(3)])
    fix i c x assume c: "(i, c) \<in> set (cs_global_rules cfg)" and x: "rule_scope_jobs F i c = Inr x"
    have "distinct_keys (gr_plugins c)" using wf c by (auto simp: config_wf_def)
    then show "distinct (map fst x) \<and> (\<forall>occ \<in> keys x. occurrence_scope occ = (2, i))"
      using F x unfolding plugins_own_jobs_def rule_scope_jobs_def by (metis owner_scope.simps(2))
  qed
  have r: "distinct (map fst rs) \<and> (\<forall>occ \<in> keys rs. \<exists>i \<in> keys (cs_routes cfg). occurrence_scope occ = (3, i))"
  proof (rule rebuild_jobs_scopes [OF js(4) dk(4)])
    fix i c x assume c: "(i, c) \<in> set (cs_routes cfg)" and x: "route_jobs F i c = Inr x"
    have "distinct_keys (rt_plugins c)" using wf c by (auto simp: config_wf_def)
    from scope_jobs_distinct [OF F this x [unfolded route_jobs_def]]
    show "distinct (map fst x) \<and> (\<forall>occ \<in> keys x. occurrence_scope occ = (3, i))" by simp
  qed
  have apart: "keys xs \<inter> keys ys = {}"
    if t: "\<forall>occ \<in> keys xs. \<exists>i \<in> I. occurrence_scope occ = (a, i)" "\<forall>occ \<in> keys ys. \<exists>i \<in> J. occurrence_scope occ = (b, i)" "a \<noteq> b"
    for xs ys :: "(upstream_occurrence \<times> upstream) list" and I J a b
  proof (rule equals0I)
    fix occ assume "occ \<in> keys xs \<inter> keys ys"
    then obtain i j where "occurrence_scope occ = (a, i)" "occurrence_scope occ = (b, j)" using t(1,2) by blast
    then show False using t(3) by simp
  qed
  have us: "keys us \<inter> keys ss = {}" by (rule apart [OF conjunct2 [OF u] conjunct2 [OF s]]) simp
  have ug: "keys us \<inter> keys gs = {}" by (rule apart [OF conjunct2 [OF u] conjunct2 [OF g]]) simp
  have ur: "keys us \<inter> keys rs = {}" by (rule apart [OF conjunct2 [OF u] conjunct2 [OF r]]) simp
  have sg: "keys ss \<inter> keys gs = {}" by (rule apart [OF conjunct2 [OF s] conjunct2 [OF g]]) simp
  have sr: "keys ss \<inter> keys rs = {}" by (rule apart [OF conjunct2 [OF s] conjunct2 [OF r]]) simp
  have gr: "keys gs \<inter> keys rs = {}" by (rule apart [OF conjunct2 [OF g] conjunct2 [OF r]]) simp
  show ?thesis unfolding js(5)
    by (simp only: map_append distinct_append set_append list.set_map image_Un Int_Un_distrib us ug ur sg sr gr
      conjunct1 [OF u] conjunct1 [OF s] conjunct1 [OF g] conjunct1 [OF r] Un_empty_left simp_thms)
qed

lemma prepare_jobs_lookup:
  "prepare_jobs prepare jobs = Inr prepared \<Longrightarrow> distinct (map fst jobs) \<Longrightarrow> (occ, u) \<in> set jobs \<Longrightarrow>
   \<exists>q. map_of prepared occ = Some q \<and> prepare u = Inr q"
proof (induction jobs arbitrary: prepared)
  case (Cons p jobs)
  obtain o' u' where p: "p = (o', u')" by (cases p)
  obtain q qs where step: "prepare u' = Inr q" "prepare_jobs prepare jobs = Inr qs" "prepared = (o', q) # qs"
    using Cons.prems(1) by (auto simp: p)
  show ?case
  proof (cases "(occ, u) = p")
    case False
    then have "(occ, u) \<in> set jobs" using Cons.prems(3) by simp
    moreover have "occ \<noteq> o'" using Cons.prems(2) calculation by (force simp: p)
    ultimately show ?thesis using Cons.IH [OF step(2)] Cons.prems(2) step(3) by simp
  qed (use step in \<open>simp add: p\<close>)
qed simp

lemma build_all_ok:
  "(\<And>m i c. (i, c) \<in> set cs \<Longrightarrow> map_of reused i = None \<Longrightarrow> is_ok (mk m i c)) \<Longrightarrow> \<exists>objs. build_all reused mk n cs = Inr objs"
proof (induction cs arbitrary: n)
  case (Cons p cs)
  obtain i c where p: "p = (i, c)" by (cases p)
  have rest: "\<exists>objs. build_all reused mk (n + 1) cs = Inr objs" using Cons by auto
  show ?case
  proof (cases "map_of reused i")
    case None
    then have "is_ok (mk n i c)" using Cons.prems [of i c n] by (simp add: p)
    then show ?thesis using rest None by (cases "mk n i c") (auto simp: p decision_def)
  qed (use rest in \<open>auto simp: p decision_def\<close>)
qed simp

lemma plugin_jobs_cons:
  assumes "plugin_upstream_jobs F w (p # ps) = Inr jobs"
  shows "\<exists>js rest. plugin_upstream_jobs F w [p] = Inr js \<and> plugin_upstream_jobs F w ps = Inr rest \<and> set jobs = set js \<union> set rest"
  using assms by (cases p) (auto split: option.splits if_splits)

lemma jobs_prepared_subset: "jobs_prepared B ctx js \<Longrightarrow> set js' \<subseteq> set js \<Longrightarrow> jobs_prepared B ctx js'"
  unfolding jobs_prepared_def by blast

lemma build_plugins_ok:
  assumes F: "plugins_buildable F B" and "validate_plugin_upstream_refs F label ps cfg_ups = Inr ()"
    and "plugin_upstream_jobs F (bc_owner ctx) ps = Inr jobs" and "jobs_prepared B ctx jobs"
    and keys: "keys (bc_upstreams ctx) = keys cfg_ups"
  shows "\<exists>es. build_plugins F ctx msg ps = Inr es"
  using assms(2-4)
proof (induction ps arbitrary: jobs)
  case (Cons p ps)
  obtain name v where p: "p = (name, v)" by (cases p)
  obtain ids where ids: "validate_plugin_config F name v = Inr ()" "plugin_upstream_refs F name v = Inr ids"
      "\<forall>k \<in> set ids. map_of cfg_ups k \<noteq> None" "validate_plugin_upstream_refs F label ps cfg_ups = Inr ()"
    using Cons.prems(1) by (auto simp: p validate_plugin_upstream_refs_def split: if_splits)
  obtain js rest where js: "plugin_upstream_jobs F (bc_owner ctx) [p] = Inr js"
      "plugin_upstream_jobs F (bc_owner ctx) ps = Inr rest" "set jobs = set js \<union> set rest"
    using plugin_jobs_cons [OF Cons.prems(2)] by blast
  have prepared: "jobs_prepared B ctx js" "jobs_prepared B ctx rest"
    using js(3) by (intro jobs_prepared_subset [OF Cons.prems(3)]; simp)+
  have "\<forall>k \<in> set ids. map_of (bc_upstreams ctx) k \<noteq> None" using ids(3) keys unfolding map_of_None_keys by simp
  then have "is_ok (build_plugin_with_upstreams F name v ctx)"
    using F ids(1,2) js(1) prepared(1) unfolding plugins_buildable_def p by blast
  moreover have "\<exists>es. build_plugins F ctx msg ps = Inr es" by (rule Cons.IH [OF ids(4) js(2) prepared(2)])
  ultimately show ?case by (cases "build_plugin_with_upstreams F name v ctx") (auto simp: p)
qed simp

lemma scope_build_ok:
  assumes F: "plugins_buildable F B" and gate: "validate_plugin_upstream_refs F label ps cfg_ups = Inr ()"
    and jobs: "plugin_upstream_jobs F w ps = Inr js" "jobs_prepared B \<lparr>bc_upstreams = ups, bc_prepared = q, bc_owner = w, bc_alloc = n\<rparr> js"
    and keys: "keys ups = keys cfg_ups"
  shows "\<exists>es. scope_plugins F \<lparr>bc_upstreams = ups, bc_prepared = q, bc_owner = w, bc_alloc = n\<rparr> suffix ps = Inr es"
proof -
  let ?ctx = "\<lparr>bc_upstreams = ups, bc_prepared = q, bc_owner = w, bc_alloc = n\<rparr>"
  have "\<exists>es. build_plugins F ?ctx msg ps = Inr es" for msg
    by (rule build_plugins_ok [OF F gate]) (use jobs keys in simp_all)
  then show ?thesis unfolding scope_plugins_def by (metis sum_bind_simps(2))
qed

lemma inline_upstream_ok:
  fixes ctx :: "('q, 'a, 'l) build_ctx"
  assumes "\<And>u. inline = Some u \<Longrightarrow> jobs_prepared B ctx [(occ, u)]"
  shows "\<exists>v :: ('a, 'l) proxy_upstream option.
    inline_upstream B (bc_alloc ctx) (bc_prepared ctx) occ label kind i inline = Inr v \<and> (v = None \<longleftrightarrow> inline = None)"
proof (cases inline)
  case (Some u)
  then obtain m where "map_of (bc_prepared ctx) occ = Some m"
      "is_ok (env_upstream B (bc_alloc ctx) u m :: proxy_error + ('a, 'l) proxy_upstream)"
    using assms by (auto simp: jobs_prepared_def)
  then show ?thesis using Some
    by (cases "env_upstream B (bc_alloc ctx) u m :: proxy_error + ('a, 'l) proxy_upstream")
      (auto simp: inline_upstream_def with_context_def)
qed (simp add: inline_upstream_def)

lemma scope_jobs_split:
  assumes "scope_jobs F w occ inline ps = Inr x"
  shows "\<exists>js. plugin_upstream_jobs F w ps = Inr js \<and> set js \<subseteq> set x \<and> (\<forall>u. inline = Some u \<longrightarrow> (occ, u) \<in> set x)"
  using assms by (auto simp: scope_jobs_def inline_job_def)

text \<open>What the whole-graph gate establishes, resource by resource.\<close>

lemma gate_scopes:
  assumes "validate_runtime_form F cfg = Inr ()"
  shows "(i, s) \<in> set (cs_services cfg) \<Longrightarrow> check_service_refs F cfg s = Inr ()"
    and "(i, r) \<in> set (cs_routes cfg) \<Longrightarrow> check_route_refs F cfg r = Inr ()"
    and "(i, g) \<in> set (cs_global_rules cfg) \<Longrightarrow> check_rule_refs F cfg g = Inr ()"
  using assms by (force simp: validate_runtime_form_def validate_config_set_def)+

lemma map_of_some_keys: "keys xs = keys ys \<Longrightarrow> map_of ys k \<noteq> None \<Longrightarrow> \<exists>v. map_of xs k = Some v"
  by (metis map_of_None_keys option.exhaust)

lemma service_build_ok:
  fixes ups :: "('a, 'l) upstream_objects" and prepared :: "'q prepared_upstreams"
  defines "ctx \<equiv> \<lambda>s m. \<lparr>bc_upstreams = ups, bc_prepared = prepared, bc_owner = OwnService (svc_id s), bc_alloc = m\<rparr>"
  assumes F: "plugins_buildable F B" and g: "check_service_refs F cfg s = Inr ()" and keys: "keys ups = keys (cs_upstreams cfg)"
    and jobs: "service_jobs F (svc_id s) s = Inr x" and ready: "jobs_prepared B (ctx s m) x"
  shows "is_ok (build_service F B m s ups prepared)"
proof -
  obtain y where y: "plugin_upstream_jobs F (OwnService (svc_id s)) (svc_plugins s) = Inr y" "set y \<subseteq> set x"
      "\<forall>u. svc_upstream s = Some u \<longrightarrow> (OccServiceInline (svc_id s), u) \<in> set x"
    using scope_jobs_split [OF jobs [unfolded service_jobs_def]] by blast
  have refs: "check_upstream_id (cs_upstreams cfg) (''Service '' @ quoted (svc_id s)) (svc_upstream s) (svc_upstream_id s) = Inr ()"
      "validate_plugin_upstream_refs F (''Service '' @ quoted (svc_id s)) (svc_plugins s) (cs_upstreams cfg) = Inr ()"
    using g by (auto simp: check_service_refs_def Let_def)
  obtain es where es: "scope_plugins F (ctx s m) ('' for service '' @ quoted (svc_id s)) (svc_plugins s) = Inr es"
    using scope_build_ok [OF F refs(2) y(1) jobs_prepared_subset [OF ready [unfolded ctx_def] y(2)] keys] unfolding ctx_def by blast
  have "jobs_prepared B (ctx s m) [(OccServiceInline (svc_id s), u)]" if "svc_upstream s = Some u" for u
    by (rule jobs_prepared_subset [OF ready]) (use y(3) that in simp)
  from inline_upstream_ok [OF this, where label = "''Service''" and kind = "''service''" and i = "svc_id s"] obtain v :: "('a, 'l) proxy_upstream option" where
    v: "inline_upstream B m prepared (OccServiceInline (svc_id s)) ''Service'' ''service'' (svc_id s) (svc_upstream s) = Inr v"
      "v = None \<longleftrightarrow> svc_upstream s = None" unfolding ctx_def by auto
  have "\<exists>w. map_of ups k = Some w" if "v = None" "svc_upstream_id s = Some k" for k
    using refs(1) v(2) that map_of_some_keys [OF keys, of k] by (auto simp: check_upstream_id_def split: if_splits)
  then show ?thesis using v(1) es unfolding ctx_def build_service_def
    by (cases v; cases "svc_upstream_id s") auto
qed

lemma rule_build_ok:
  fixes ups :: "('a, 'l) upstream_objects" and prepared :: "'q prepared_upstreams"
  assumes F: "plugins_buildable F B" and g: "check_rule_refs F cfg g = Inr ()" and keys: "keys ups = keys (cs_upstreams cfg)"
    and jobs: "rule_scope_jobs F (gr_id g) g = Inr x"
    and ready: "jobs_prepared B \<lparr>bc_upstreams = ups, bc_prepared = prepared, bc_owner = OwnGlobalRule (gr_id g), bc_alloc = m\<rparr> x"
  shows "is_ok (build_global_rule F m g ups prepared)"
  using scope_build_ok [OF F g [unfolded check_rule_refs_def] jobs [unfolded rule_scope_jobs_def] ready keys,
      of "'' for global rule '' @ quoted (gr_id g)"]
  by (auto simp: build_global_rule_def)

lemma route_build_ok:
  fixes ups :: "('a, 'l) upstream_objects" and svcs :: "(string \<times> ('a, 'l, 's, 'e) proxy_service) list" and prepared :: "'q prepared_upstreams"
  defines "ctx \<equiv> \<lambda>r m. \<lparr>bc_upstreams = ups, bc_prepared = prepared, bc_owner = OwnRoute (rt_id r), bc_alloc = m\<rparr>"
  assumes F: "plugins_buildable F B" and g: "check_route_refs F cfg r = Inr ()" and keys: "keys ups = keys (cs_upstreams cfg)"
      "keys svcs = keys (cs_services cfg)"
    and jobs: "route_jobs F (rt_id r) r = Inr x" and ready: "jobs_prepared B (ctx r m) x"
  shows "is_ok (build_route F B m r ups svcs prepared)"
proof -
  obtain y where y: "plugin_upstream_jobs F (OwnRoute (rt_id r)) (rt_plugins r) = Inr y" "set y \<subseteq> set x"
      "\<forall>u. rt_upstream r = Some u \<longrightarrow> (OccRouteInline (rt_id r), u) \<in> set x"
    using scope_jobs_split [OF jobs [unfolded route_jobs_def]] by blast
  have refs: "check_upstream_id (cs_upstreams cfg) (''Route '' @ quoted (rt_id r)) (rt_upstream r) (rt_upstream_id r) = Inr ()"
      "validate_plugin_upstream_refs F (''Route '' @ quoted (rt_id r)) (rt_plugins r) (cs_upstreams cfg) = Inr ()"
      "\<And>k. rt_service_id r = Some k \<Longrightarrow> map_of (cs_services cfg) k \<noteq> None"
    using g by (auto simp: check_route_refs_def Let_def split: if_splits)
  obtain es where es: "scope_plugins F (ctx r m) [] (rt_plugins r) = Inr es"
    using scope_build_ok [OF F refs(2) y(1) jobs_prepared_subset [OF ready [unfolded ctx_def] y(2)] keys(1)] unfolding ctx_def by blast
  have "jobs_prepared B (ctx r m) [(OccRouteInline (rt_id r), u)]" if "rt_upstream r = Some u" for u
    by (rule jobs_prepared_subset [OF ready]) (use y(3) that in simp)
  from inline_upstream_ok [OF this, where label = "''Route''" and kind = "''route''" and i = "rt_id r"] obtain v :: "('a, 'l) proxy_upstream option" where
    v: "inline_upstream B m prepared (OccRouteInline (rt_id r)) ''Route'' ''route'' (rt_id r) (rt_upstream r) = Inr v"
      "v = None \<longleftrightarrow> rt_upstream r = None" unfolding ctx_def by auto
  have "\<exists>w. map_of ups k = Some w" if "v = None" "rt_upstream_id r = Some k" for k
    using refs(1) v(2) that map_of_some_keys [OF keys(1), of k] by (auto simp: check_upstream_id_def split: if_splits)
  then have up: "\<exists>w. route_upstream ups r x v = Inr w" for x :: "('a, 'l, 's, 'e) proxy_service option"
    by (cases v; cases "rt_upstream_id r") (auto simp: route_upstream_def)
  have "\<exists>x. lookup_service svcs r = Inr x"
  proof (cases "rt_service_id r")
    case (Some k)
    then obtain y where "map_of svcs k = Some y" using map_of_some_keys [OF keys(2)] refs(3) by blast
    then show ?thesis using Some by (simp add: lookup_service_def)
  qed (simp add: lookup_service_def)
  then obtain x where "lookup_service svcs r = Inr x" by blast
  moreover obtain w where "route_upstream ups r x v = Inr w" using up by blast
  ultimately show ?thesis using v(1) es unfolding ctx_def build_route_def by (simp add: Let_def)
qed

text \<open>C14: The plan prepares all that compilation needs. Take a graph, each resource stored under its own id,
  that passes the gate, and the plan made for it against any earlier objects, with every job of the plan
  prepared. If the balancer of every prepared upstream and every certificate of the graph can be built, and
  plugins with valid configurations, present references and prepared upstreams of their own can be built, then
  compiling along the plan succeeds: what fails is never an upstream the plan forgot to prepare or a
  reference that is not there.\<close>

theorem prepared_candidate_compiles:
  fixes F :: "(('s, 'e) plugin, ('q, 'a, 'l) build_ctx) plugin_fns" and prev :: "('a, 'l, 's, 'e, 'x, 'k) candidate"
  assumes F: "plugins_buildable F B" "plugins_own_jobs F" and wf: "config_wf cfg"
    and gate: "validate_runtime_form F cfg = Inr ()"
    and prepared: "prepare_candidate F prepare cfg prev = Inr (plan, prepared)"
    and lb: "\<forall>n u q. prepare u = Inr q \<longrightarrow> is_ok (env_upstream B n u q :: proxy_error + ('a, 'l) proxy_upstream)"
    and tls: "\<forall>(i, l) \<in> set (cs_ssls cfg). is_ok (proxy_ssl_try_from L l)"
  shows "\<exists>c. build_prepared F B L n cfg plan prepared = Inr c"
proof -
  let ?r = "cp_reused plan"
  have jobs: "plan_jobs F cfg ?r = Inr (cp_jobs plan)" and prep: "prepare_jobs prepare (cp_jobs plan) = Inr prepared"
    using prepared by (auto simp: prepare_candidate_def build_plan_def)
  obtain us ss gs rs where js:
      "rebuild_jobs (\<lambda>i u. Inr [(OccNamed i, u)]) (cn_upstreams ?r) (cs_upstreams cfg) = Inr us"
      "rebuild_jobs (service_jobs F) (cn_services ?r) (cs_services cfg) = Inr ss"
      "rebuild_jobs (rule_scope_jobs F) (cn_global_rules ?r) (cs_global_rules cfg) = Inr gs"
      "rebuild_jobs (route_jobs F) (cn_routes ?r) (cs_routes cfg) = Inr rs" "cp_jobs plan = us @ ss @ gs @ rs"
    using jobs by (auto simp: plan_jobs_def)
  note dist = plan_jobs_distinct [OF F(2) wf jobs]
  have ready: "jobs_prepared B ctx xs" if "set xs \<subseteq> set (cp_jobs plan)" "bc_prepared ctx = prepared"
    for xs and ctx :: "('q, 'a, 'l) build_ctx"
    unfolding jobs_prepared_def
  proof (intro allI impI)
    fix occ u assume "(occ, u) \<in> set xs"
    then have "(occ, u) \<in> set (cp_jobs plan)" using that(1) by blast
    from prepare_jobs_lookup [OF prep dist this] show "\<exists>q. map_of (bc_prepared ctx) occ = Some q \<and>
        is_ok (env_upstream B (bc_alloc ctx) u q :: proxy_error + ('a, 'l) proxy_upstream)" using lb that(2) by auto
  qed
  have "\<exists>ups. build_all (cn_upstreams ?r) (build_named_upstream B prepared) n (cs_upstreams cfg) =
      (Inr ups :: proxy_error + ('a, 'l) upstream_objects)"
  proof (rule build_all_ok)
    fix m i u assume u: "(i, u) \<in> set (cs_upstreams cfg)" "map_of (cn_upstreams ?r) i = None"
    have "(OccNamed i, u) \<in> set (cp_jobs plan)" using rebuild_jobs_subset [OF js(1) u] js(5) by auto
    from prepare_jobs_lookup [OF prep dist this] obtain q where "map_of prepared (OccNamed i) = Some q" "prepare u = Inr q" by blast
    then show "is_ok (build_named_upstream B prepared m i u :: proxy_error + ('a, 'l) proxy_upstream)"
      using lb by (simp add: build_named_upstream_def)
  qed
  then obtain ups :: "('a, 'l) upstream_objects" where
    ups: "build_all (cn_upstreams ?r) (build_named_upstream B prepared) n (cs_upstreams cfg) = Inr ups" by blast
  have keys: "keys ups = keys (cs_upstreams cfg)" using build_all_keys [OF ups] by (metis list.set_map)
  have "\<exists>svcs. build_all (cn_services ?r) (\<lambda>n i s. build_service F B n s ups prepared) (n + length (cs_upstreams cfg))
      (cs_services cfg) = Inr svcs"
  proof (rule build_all_ok)
    fix m i s assume s: "(i, s) \<in> set (cs_services cfg)" "map_of (cn_services ?r) i = None"
    obtain x where x: "service_jobs F (svc_id s) s = Inr x" "set x \<subseteq> set (cp_jobs plan)"
      using rebuild_jobs_subset [OF js(2) s] js(5) config_wfD(1) [OF wf s(1)] by auto
    show "is_ok (build_service F B m s ups prepared)"
      by (rule service_build_ok [OF F(1) gate_scopes(1) [OF gate s(1)] keys x(1) ready [OF x(2)]]) simp
  qed
  then obtain svcs where svcs: "build_all (cn_services ?r) (\<lambda>n i s. build_service F B n s ups prepared)
      (n + length (cs_upstreams cfg)) (cs_services cfg) = Inr svcs" by blast
  have svc_keys: "keys svcs = keys (cs_services cfg)" using build_all_keys [OF svcs] by (metis list.set_map)
  have rules: "\<exists>rules. build_all (cn_global_rules ?r) (\<lambda>n i g. build_global_rule F n g ups prepared) n1 (cs_global_rules cfg) = Inr rules" for n1
  proof (rule build_all_ok)
    fix m i g assume s: "(i, g) \<in> set (cs_global_rules cfg)" "map_of (cn_global_rules ?r) i = None"
    obtain x where x: "rule_scope_jobs F (gr_id g) g = Inr x" "set x \<subseteq> set (cp_jobs plan)"
      using rebuild_jobs_subset [OF js(3) s] js(5) config_wfD(2) [OF wf s(1)] by auto
    show "is_ok (build_global_rule F m g ups prepared)"
      by (rule rule_build_ok [OF F(1) gate_scopes(3) [OF gate s(1)] keys x(1) ready [OF x(2)]]) simp
  qed
  have routes: "\<exists>routes. build_all (cn_routes ?r) (\<lambda>n i r. build_route F B n r ups svcs prepared) n1 (cs_routes cfg) = Inr routes" for n1
  proof (rule build_all_ok)
    fix m i r assume s: "(i, r) \<in> set (cs_routes cfg)" "map_of (cn_routes ?r) i = None"
    obtain x where x: "route_jobs F (rt_id r) r = Inr x" "set x \<subseteq> set (cp_jobs plan)"
      using rebuild_jobs_subset [OF js(4) s] js(5) config_wfD(3) [OF wf s(1)] by auto
    show "is_ok (build_route F B m r ups svcs prepared)"
      by (rule route_build_ok [OF F(1) gate_scopes(2) [OF gate s(1)] keys svc_keys x(1) ready [OF x(2)]]) simp
  qed
  have ssls: "\<exists>ssls. build_all (cn_ssls ?r) (\<lambda>n i l. proxy_ssl_try_from L l) 0 (cs_ssls cfg) = Inr ssls"
    by (rule build_all_ok) (use tls in auto)
  from rules routes ssls show ?thesis using gate ups svcs
    by (auto simp: build_prepared_def Let_def) (metis sum_bind_simps(2))
qed

section \<open>The health checks of a snapshot have distinct keys\<close>

text \<open>The checks of the plugins of one scope are keyed as traffic-split keys them, and apart.\<close>

definition specs_apart :: "(('s, 'e) plugin \<Rightarrow> ('f, 'l) hc_spec list) \<Rightarrow> ('s, 'e) plugin_entry list \<Rightarrow> bool" where
  "specs_apart specs es \<longleftrightarrow>
     (let ks = map hs_key (concat (map (\<lambda>e. specs (pe_plugin e)) es))
      in distinct ks \<and> (\<forall>k \<in> set ks. \<exists>a b. k = split_key a b))"

definition in_scope :: "string \<Rightarrow> string \<Rightarrow> string \<Rightarrow> bool" where
  "in_scope kind i key \<longleftrightarrow> key = kind @ ''/'' @ i @ ''/inline'' \<or> (\<exists>a b. key = kind @ ''/'' @ i @ ''/plugin/'' @ split_key a b)"

abbreviation scope_kinds :: "string set" where
  "scope_kinds \<equiv> {''service'', ''route'', ''global-rule''}"

lemma split_key_last: "last (split_key a b) \<noteq> CHR ''e''"
proof -
  have "last (nat_to_string b) \<in> set (nat_to_string b)" by (rule last_in_set [OF nat_to_string_nonempty])
  then obtain d where "d < 10" "last (nat_to_string b) = digit_char d" using nat_to_string_digits by blast
  then have "last (nat_to_string b) \<noteq> CHR ''e''" using digit_char_other by simp
  then show ?thesis by (simp add: split_key_def nat_to_string_nonempty)
qed

lemma kind_prefix:
  assumes "kind \<in> scope_kinds" and "kind' \<in> scope_kinds" and "kind @ ''/'' @ s = kind' @ ''/'' @ s'"
  shows "kind = kind' \<and> s = s'"
  using assms by auto

lemma in_scope_unique:
  assumes kinds: "kind \<in> scope_kinds" "kind' \<in> scope_kinds" and "in_scope kind i key" and "in_scope kind' i' key"
  shows "kind = kind' \<and> i = i'"
proof -
  consider (ii) "key = kind @ ''/'' @ i @ ''/inline''" "key = kind' @ ''/'' @ i' @ ''/inline''"
    | (pp) a b a' b' where "key = kind @ ''/'' @ i @ ''/plugin/'' @ split_key a b" "key = kind' @ ''/'' @ i' @ ''/plugin/'' @ split_key a' b'"
    | (ip) p q a b where "key = p @ ''/inline''" "key = q @ split_key a b"
    using assms(3,4) unfolding in_scope_def by (metis append.assoc)
  then show ?thesis
  proof cases
    case ii
    then show ?thesis using kind_prefix [OF kinds, of "i @ ''/inline''" "i' @ ''/inline''"] by simp
  next
    case pp
    then have "(kind @ ''/'' @ i @ ''/plugin/'') @ split_key a b = (kind' @ ''/'' @ i' @ ''/plugin/'') @ split_key a' b'" by simp
    then have "kind @ ''/'' @ i @ ''/plugin/'' = kind' @ ''/'' @ i' @ ''/plugin/''" using split_key_inj by blast
    then show ?thesis using kind_prefix [OF kinds, of "i @ ''/plugin/''" "i' @ ''/plugin/''"] by simp
  next
    case ip
    have "split_key a b \<noteq> []" by (simp add: split_key_def)
    then have "last key \<noteq> CHR ''e''" using ip(2) split_key_last by simp
    then show ?thesis using ip(1) by simp
  qed
qed

definition scope_checks :: "(upstream \<Rightarrow> 'f) \<Rightarrow> (('s, 'e) plugin \<Rightarrow> ('f, 'l) hc_spec list) \<Rightarrow> string \<Rightarrow> string \<Rightarrow>
    ('a, 'l) proxy_upstream option \<Rightarrow> ('s, 'e) plugin_entry list \<Rightarrow> ('f, 'l) hc_spec list" where
  "scope_checks fp specs kind i inline es =
     inline_check fp (kind @ ''/'' @ i @ ''/inline'') inline @ plugin_health_checks specs (kind @ ''/'' @ i @ ''/plugin'') es"

lemma scope_checks_keys:
  assumes "specs_apart specs es"
  shows "distinct (map hs_key (scope_checks fp specs kind i inline es)) \<and>
    (\<forall>s \<in> set (scope_checks fp specs kind i inline es). in_scope kind i (hs_key s))"
proof -
  let ?specs = "concat (map (\<lambda>e. specs (pe_plugin e)) es)"
  have a: "distinct (map hs_key ?specs) \<and> (\<forall>k \<in> set (map hs_key ?specs). \<exists>a b. k = split_key a b)"
    using assms unfolding specs_apart_def Let_def .
  have apart: "distinct (map hs_key ?specs)" by (rule conjunct1 [OF a])
  have "map hs_key (plugin_health_checks specs (kind @ ''/'' @ i @ ''/plugin'') es) =
      map (\<lambda>k. kind @ ''/'' @ i @ ''/plugin/'' @ k) (map hs_key ?specs)"
    by (simp add: plugin_health_checks_def map_concat comp_def)
  note keys_eq = this
  have "inj (\<lambda>k. kind @ ''/'' @ i @ ''/plugin/'' @ k)" by (rule injI) simp
  then have plugins: "distinct (map hs_key (plugin_health_checks specs (kind @ ''/'' @ i @ ''/plugin'') es))"
    unfolding keys_eq distinct_map using apart [unfolded distinct_map] by (blast intro: inj_on_subset apart)
  have scope: "in_scope kind i (hs_key s)" and last: "last (hs_key s) \<noteq> CHR ''e''"
    if "s \<in> set (plugin_health_checks specs (kind @ ''/'' @ i @ ''/plugin'') es)" for s
  proof -
    have "hs_key s \<in> set (map hs_key (plugin_health_checks specs (kind @ ''/'' @ i @ ''/plugin'') es))"
      unfolding list.set_map by (rule imageI [OF that])
    then have "hs_key s \<in> (\<lambda>k. kind @ ''/'' @ i @ ''/plugin/'' @ k) ` set (map hs_key ?specs)"
      unfolding keys_eq by (simp only: list.set_map)
    then obtain k' where k': "k' \<in> set (map hs_key ?specs)" "hs_key s = kind @ ''/'' @ i @ ''/plugin/'' @ k'" by blast
    obtain a b where "k' = split_key a b" using conjunct2 [OF a] k'(1) by blast
    then have k: "hs_key s = kind @ ''/'' @ i @ ''/plugin/'' @ split_key a b" using k'(2) by simp
    then show "in_scope kind i (hs_key s)" unfolding in_scope_def by blast
    have "split_key a b \<noteq> []" by (simp add: split_key_def)
    then show "last (hs_key s) \<noteq> CHR ''e''" using split_key_last [of a b] k by simp
  qed
  let ?p = "plugin_health_checks specs (kind @ ''/'' @ i @ ''/plugin'') es"
  show ?thesis
  proof (cases inline)
    case None
    then have "scope_checks fp specs kind i inline es = ?p" by (simp add: scope_checks_def inline_check_def)
    then show ?thesis using plugins scope by simp
  next
    case (Some u)
    let ?c = "upstream_check fp (kind @ ''/'' @ i @ ''/inline'') u"
    have key: "hs_key ?c = kind @ ''/'' @ i @ ''/inline''" by (simp add: upstream_check_def)
    have new: "hs_key ?c \<noteq> hs_key s" if "s \<in> set ?p" for s
    proof
      assume "hs_key ?c = hs_key s"
      then have "hs_key s = kind @ ''/'' @ i @ ''/inline''" unfolding key by (rule sym)
      then have "last (hs_key s) = CHR ''e''" by simp
      then show False using last [OF that] by blast
    qed
    have all: "scope_checks fp specs kind i inline es = ?c # ?p" by (simp add: scope_checks_def inline_check_def Some)
    have "in_scope kind i (hs_key ?c)" unfolding key in_scope_def by blast
    then show ?thesis unfolding all using plugins scope new by fastforce
  qed
qed

lemma distinct_scopes:
  assumes "distinct_keys xs" and "kind \<in> scope_kinds"
    and "\<And>i x. (i, x) \<in> set xs \<Longrightarrow> distinct (map hs_key (f i x)) \<and> (\<forall>s \<in> set (f i x). in_scope kind i (hs_key s))"
  shows "distinct (map hs_key (concat (map (\<lambda>(i, x). f i x) xs))) \<and>
    (\<forall>s \<in> set (concat (map (\<lambda>(i, x). f i x) xs)). \<exists>i \<in> keys xs. in_scope kind i (hs_key s))"
  using assms(1,3)
proof (induction xs)
  case (Cons p xs)
  obtain i x where p: "p = (i, x)" by (cases p)
  have here: "distinct (map hs_key (f i x)) \<and> (\<forall>s \<in> set (f i x). in_scope kind i (hs_key s))"
    by (rule Cons.prems(2)) (simp add: p)
  have rest: "distinct (map hs_key (concat (map (\<lambda>(i, x). f i x) xs))) \<and>
      (\<forall>s \<in> set (concat (map (\<lambda>(i, x). f i x) xs)). \<exists>i \<in> keys xs. in_scope kind i (hs_key s))"
  proof (rule Cons.IH)
    show "distinct_keys xs" using Cons.prems(1) by simp
    show "distinct (map hs_key (f j y)) \<and> (\<forall>s \<in> set (f j y). in_scope kind j (hs_key s))" if "(j, y) \<in> set xs" for j y
      by (rule Cons.prems(2)) (simp add: that)
  qed
  have "hs_key ` set (f i x) \<inter> hs_key ` set (concat (map (\<lambda>(i, x). f i x) xs)) = {}"
  proof (rule equals0I)
    fix k assume "k \<in> hs_key ` set (f i x) \<inter> hs_key ` set (concat (map (\<lambda>(i, x). f i x) xs))"
    then obtain s s' where s: "s \<in> set (f i x)" "k = hs_key s" and s': "s' \<in> set (concat (map (\<lambda>(i, x). f i x) xs))" "k = hs_key s'"
      unfolding Int_iff image_iff by blast
    have "in_scope kind i k" unfolding s(2) by (rule bspec [OF conjunct2 [OF here] s(1)])
    moreover obtain j where "j \<in> keys xs" "in_scope kind j k" using bspec [OF conjunct2 [OF rest] s'(1)] unfolding s'(2) by (rule bexE)
    moreover have "i \<notin> keys xs" using Cons.prems(1) by (simp add: p)
    ultimately show False using in_scope_unique [OF assms(2) assms(2), of i k j] by simp
  qed
  then have "distinct (map hs_key (f i x @ concat (map (\<lambda>(i, x). f i x) xs)))"
    unfolding map_append distinct_append list.set_map using conjunct1 [OF here] conjunct1 [OF rest] by (intro conjI)
  moreover have "\<forall>s \<in> set (f i x @ concat (map (\<lambda>(i, x). f i x) xs)). \<exists>i \<in> keys (p # xs). in_scope kind i (hs_key s)"
  proof
    fix s assume "s \<in> set (f i x @ concat (map (\<lambda>(i, x). f i x) xs))"
    then consider "s \<in> set (f i x)" | "s \<in> set (concat (map (\<lambda>(i, x). f i x) xs))" unfolding set_append by (rule UnE)
    then show "\<exists>i \<in> keys (p # xs). in_scope kind i (hs_key s)"
    proof cases
      case 1
      then have "in_scope kind i (hs_key s)" by (rule bspec [OF conjunct2 [OF here]])
      then show ?thesis by (intro bexI [of _ i]) (simp_all add: p)
    next
      case 2
      then obtain j where "j \<in> keys xs" "in_scope kind j (hs_key s)" using bspec [OF conjunct2 [OF rest]] by blast
      then show ?thesis by (intro bexI [of _ j]) simp_all
    qed
  qed
  ultimately show ?case unfolding p list.map concat.simps prod.case by (rule conjI)
qed simp

lemma collect_by_scope:
  "collect_health_checks fp specs c =
     map (\<lambda>(i, u). upstream_check fp (''upstream/'' @ i) u) (cn_upstreams c) @
     concat (map (\<lambda>(i, s). scope_checks fp specs ''service'' i (sv_inline_upstream s) (sv_plugins s)) (cn_services c)) @
     concat (map (\<lambda>(i, r). scope_checks fp specs ''route'' i (ro_inline_upstream r) (ro_plugins r)) (cn_routes c)) @
     concat (map (\<lambda>(i, g). scope_checks fp specs ''global-rule'' i (None :: ('a, 'l) proxy_upstream option) (pgr_plugins g)) (cn_global_rules c))"
  for c :: "('a, 'l, 's, 'e, 'x, 'k) candidate"
  by (simp add: collect_health_checks_def scope_checks_def inline_check_def)

text \<open>Whatever characters identifiers contain, the health checks of a snapshot have distinct keys, so
  publication never mistakes one check for another.\<close>

theorem health_check_keys_distinct:
  fixes c :: "('a, 'l, 's, 'e, 'x, 'k) candidate"
  assumes "current F B L cfg c" and "cs_distinct cfg"
    and "\<forall>(i, s) \<in> set (cn_services c). specs_apart specs (sv_plugins s)"
    and "\<forall>(i, r) \<in> set (cn_routes c). specs_apart specs (ro_plugins r)"
    and "\<forall>(i, g) \<in> set (cn_global_rules c). specs_apart specs (pgr_plugins g)"
  shows "distinct (map hs_key (collect_health_checks fp specs c))"
proof -
  have dk: "distinct_keys (cn_upstreams c)" "distinct_keys (cn_services c)" "distinct_keys (cn_routes c)"
    "distinct_keys (cn_global_rules c)"
    using assms(1,2) by (simp_all add: currentD(1-5) [OF assms(1)] cs_distinct_def)
  let ?u = "map (\<lambda>(i, u). upstream_check fp (''upstream/'' @ i) u) (cn_upstreams c)"
  let ?s = "concat (map (\<lambda>(i, s). scope_checks fp specs ''service'' i (sv_inline_upstream s) (sv_plugins s)) (cn_services c))"
  let ?r = "concat (map (\<lambda>(i, r). scope_checks fp specs ''route'' i (ro_inline_upstream r) (ro_plugins r)) (cn_routes c))"
  let ?g = "concat (map (\<lambda>(i, g). scope_checks fp specs ''global-rule'' i (None :: ('a, 'l) proxy_upstream option) (pgr_plugins g)) (cn_global_rules c))"
  have s: "distinct (map hs_key ?s) \<and> (\<forall>x \<in> set ?s. \<exists>i \<in> keys (cn_services c). in_scope ''service'' i (hs_key x))"
    by (rule distinct_scopes [OF dk(2)], simp) (use assms(3) scope_checks_keys in blast)
  have r: "distinct (map hs_key ?r) \<and> (\<forall>x \<in> set ?r. \<exists>i \<in> keys (cn_routes c). in_scope ''route'' i (hs_key x))"
    by (rule distinct_scopes [OF dk(3)], simp) (use assms(4) scope_checks_keys in blast)
  have g: "distinct (map hs_key ?g) \<and> (\<forall>x \<in> set ?g. \<exists>i \<in> keys (cn_global_rules c). in_scope ''global-rule'' i (hs_key x))"
    by (rule distinct_scopes [OF dk(4)], simp) (use assms(5) scope_checks_keys in blast)
  have u: "map hs_key ?u = map (\<lambda>i. ''upstream/'' @ i) (map fst (cn_upstreams c))"
    by (induction "cn_upstreams c") (auto simp: upstream_check_def)
  then have du: "distinct (map hs_key ?u)" using dk(1) by (simp add: distinct_map inj_on_def)
  have hd: "hd k = hd kind" if "in_scope kind i k" "kind \<in> scope_kinds" for kind i k
    using that by (auto simp: in_scope_def)
  have heads: "\<forall>k \<in> hs_key ` set ?u. hd k = CHR ''u''" "\<forall>k \<in> hs_key ` set ?s. hd k = CHR ''s''"
    "\<forall>k \<in> hs_key ` set ?r. hd k = CHR ''r''" "\<forall>k \<in> hs_key ` set ?g. hd k = CHR ''g''"
  proof -
    show "\<forall>k \<in> hs_key ` set ?u. hd k = CHR ''u''" unfolding list.set_map [symmetric] u by auto
    show "\<forall>k \<in> hs_key ` set ?s. hd k = CHR ''s''" using s hd [of "''service''"] by fastforce
    show "\<forall>k \<in> hs_key ` set ?r. hd k = CHR ''r''" using r hd [of "''route''"] by fastforce
    show "\<forall>k \<in> hs_key ` set ?g. hd k = CHR ''g''" using g hd [of "''global-rule''"] by fastforce
  qed
  have apart: "A \<inter> B = {}" if "\<forall>k \<in> A. hd k = x" "\<forall>k \<in> B. hd k = y" "x \<noteq> y" for A B :: "string set" and x y
  proof (rule equals0I)
    fix k assume "k \<in> A \<inter> B"
    then have "k \<in> A" "k \<in> B" by (rule IntD1, rule IntD2)
    then have "hd k = x" "hd k = y" using that(1,2) by blast+
    then show False using that(3) by simp
  qed
  have d1: "hs_key ` set ?u \<inter> hs_key ` set ?s = {}" by (rule apart [OF heads(1,2)]) simp
  have d2: "hs_key ` set ?u \<inter> hs_key ` set ?r = {}" by (rule apart [OF heads(1,3)]) simp
  have d3: "hs_key ` set ?u \<inter> hs_key ` set ?g = {}" by (rule apart [OF heads(1,4)]) simp
  have d4: "hs_key ` set ?s \<inter> hs_key ` set ?r = {}" by (rule apart [OF heads(2,3)]) simp
  have d5: "hs_key ` set ?s \<inter> hs_key ` set ?g = {}" by (rule apart [OF heads(2,4)]) simp
  have d6: "hs_key ` set ?r \<inter> hs_key ` set ?g = {}" by (rule apart [OF heads(3,4)]) simp
  have join: "distinct (map hs_key (xs @ ys))" if "distinct (map hs_key xs)" "distinct (map hs_key ys)"
      "hs_key ` set xs \<inter> hs_key ` set ys = {}" for xs ys :: "('f, 'l) hc_spec list"
    unfolding map_append distinct_append list.set_map using that by blast
  have union: "hs_key ` set xs \<inter> hs_key ` set (ys @ zs) = {}" if "hs_key ` set xs \<inter> hs_key ` set ys = {}"
      "hs_key ` set xs \<inter> hs_key ` set zs = {}" for xs ys zs :: "('f, 'l) hc_spec list"
    unfolding set_append image_Un Int_Un_distrib that by (rule Un_empty_left)
  have rg: "distinct (map hs_key (?r @ ?g))" by (rule join [OF conjunct1 [OF r] conjunct1 [OF g] d6])
  have srg: "distinct (map hs_key (?s @ ?r @ ?g))" by (rule join [OF conjunct1 [OF s] rg union [OF d4 d5]])
  show ?thesis unfolding collect_by_scope by (rule join [OF du srg union [OF d1 union [OF d2 d3]]])
qed

section \<open>A run of two publications\<close>

definition linked_plugins :: "((unit, unit) plugin, (nat, unit, nat) build_ctx) plugin_fns" where
  "linked_plugins = \<lparr>pf_validate = \<lambda>_ _. Inr (), pf_refs = \<lambda>_ _. Inr [], pf_jobs = \<lambda>_ _ _. Inr [],
     pf_plain = \<lambda>name _. Inr (pe_plugin (sample_entry name 0)), pf_with_upstreams = \<lambda>name _ _. Inr (pe_plugin (sample_entry name 0))\<rparr>"

definition linked_tls :: "(unit, unit) tls_lib" where
  "linked_tls = \<lparr>tl_cert = \<lambda>_. Inr (), tl_key = \<lambda>_. Inr (), tl_public_eq = \<lambda>_ _. Inr True\<rparr>"

definition linked_service :: service where
  "linked_service = \<lparr>svc_id = ''s1'', svc_name = None, svc_plugins = [(''traffic-split'', JNull)], svc_upstream = None,
     svc_upstream_id = Some ''u1'', svc_hosts = []\<rparr>"

definition linked_route :: "string \<Rightarrow> string option \<Rightarrow> string option \<Rightarrow> route" where
  "linked_route i u s = \<lparr>rt_id = i, rt_name = None, rt_uri = Some ''/a'', rt_uris = [], rt_methods = [],
     rt_host = None, rt_hosts = [], rt_priority = 0, rt_plugins = [], rt_upstream = None,
     rt_upstream_id = u, rt_service_id = s, rt_timeout = None, rt_enable_websocket = False\<rparr>"

text \<open>Route \<open>r1\<close> reaches \<open>u1\<close> through a service, route \<open>r2\<close> names \<open>u2\<close>; only \<open>u1\<close> changes.\<close>

definition linked_config :: "32 word option \<Rightarrow> config_set" where
  "linked_config retries =
     \<lparr>cs_upstreams = [(''u1'', example_upstream\<lparr>up_retries := retries\<rparr>), (''u2'', example_upstream\<lparr>up_id := ''u2''\<rparr>)],
      cs_services = [(''s1'', linked_service)], cs_global_rules = [],
      cs_routes = [(''r1'', linked_route ''r1'' None (Some ''s1'')), (''r2'', linked_route ''r2'' (Some ''u2'') None)],
      cs_ssls = []\<rparr>"

definition linked_plan :: "32 word option \<Rightarrow> (unit, nat, unit, unit, unit, unit) candidate \<Rightarrow> (unit, nat, unit, unit, unit, unit) candidate_plan" where
  "linked_plan retries prev = projr (build_plan linked_plugins (linked_config retries) prev)"

definition linked_objects :: "32 word option \<Rightarrow> nat \<Rightarrow> nat prepared_upstreams \<Rightarrow> (unit, nat, unit, unit, unit, unit) candidate \<Rightarrow>
    (unit, nat, unit, unit, unit, unit) candidate" where
  "linked_objects retries n prepared prev =
     projr (build_prepared linked_plugins sample_env linked_tls n (linked_config retries) (linked_plan retries prev) prepared)"

definition first_objects :: "(unit, nat, unit, unit, unit, unit) candidate" where
  "first_objects = linked_objects None 0 [(OccNamed ''u1'', 7), (OccNamed ''u2'', 8)] candidate_empty"

definition second_objects :: "(unit, nat, unit, unit, unit, unit) candidate" where
  "second_objects = linked_objects (Some 1) 10 [(OccNamed ''u1'', 9)] first_objects"

lemma linked_ok:
  "is_ok (build_plan linked_plugins (linked_config None) (candidate_empty :: (unit, nat, unit, unit, unit, unit) candidate))"
  "is_ok (build_prepared linked_plugins sample_env linked_tls 0 (linked_config None) (linked_plan None candidate_empty)
     [(OccNamed ''u1'', 7), (OccNamed ''u2'', 8)])"
  "is_ok (build_plan linked_plugins (linked_config (Some 1)) first_objects)"
  "is_ok (build_prepared linked_plugins sample_env linked_tls 10 (linked_config (Some 1)) (linked_plan (Some 1) first_objects)
     [(OccNamed ''u1'', 9)])"
  by code_simp+

lemma linked_plugins_known:
  "validate_plugin_config linked_plugins name v = Inr () \<Longrightarrow> is_ok (build_plugin_with_upstreams linked_plugins name v ctx)"
  by (auto simp: validate_plugin_config_def build_plugin_with_upstreams_def linked_plugins_def
      split: option.splits plugin_factory.split)

lemma linked_plugins_contract: "plugins_local linked_plugins" "plugins_buildable linked_plugins sample_env" "plugins_own_jobs linked_plugins"
proof -
  show "plugins_local linked_plugins"
    by (simp add: plugins_local_def build_plugin_with_upstreams_def linked_plugins_def split: option.split plugin_factory.split)
  show "plugins_buildable linked_plugins sample_env" unfolding plugins_buildable_def using linked_plugins_known by blast
  have "plugin_upstream_jobs linked_plugins w ps = Inr jobs \<Longrightarrow> jobs = []" for w ps jobs
  proof (induction ps arbitrary: jobs)
    case (Cons p ps)
    have "pf_jobs linked_plugins name w v = Inr []" for name v by (simp add: linked_plugins_def)
    then show ?case using Cons by (cases p) (auto split: option.splits if_splits)
  qed simp
  then show "plugins_own_jobs linked_plugins" unfolding plugins_own_jobs_def by fastforce
qed

lemma is_ok_projr: "is_ok r \<Longrightarrow> r = Inr (projr r)"
  by (cases r) simp_all

lemma linked_distinct: "cs_distinct (linked_config r)"
  by (simp add: cs_distinct_def linked_config_def)

lemma linked_run: "compiled_run linked_plugins sample_env linked_tls (linked_config (Some 1)) second_objects"
proof -
  have "compiled_run linked_plugins sample_env linked_tls (linked_config None) first_objects"
    by (rule compiled_run.publish [OF compiled_run.start linked_distinct])
      (use is_ok_projr [OF linked_ok(1)] is_ok_projr [OF linked_ok(2)] in
        \<open>simp_all add: first_objects_def linked_objects_def linked_plan_def\<close>)
  then show ?thesis
    by (rule compiled_run.publish [OF _ linked_distinct])
      (use is_ok_projr [OF linked_ok(3)] is_ok_projr [OF linked_ok(4)] in
        \<open>simp_all add: second_objects_def linked_objects_def linked_plan_def\<close>)
qed

theorem compiled_objects_current_witness:
  "current linked_plugins sample_env linked_tls (linked_config (Some 1)) second_objects \<and>
   map (\<lambda>(i, u). (i, px_lb u)) (cn_upstreams first_objects) = [(''u1'', 7), (''u2'', 8)] \<and>
   map (\<lambda>(i, u). (i, px_lb u)) (cn_upstreams second_objects) = [(''u1'', 9), (''u2'', 8)] \<and>
   map (\<lambda>(i, r). (i, map_option px_lb (ro_resolved_upstream r))) (cn_routes second_objects) = [(''r1'', Some 9), (''r2'', Some 8)]"
proof (intro conjI)
  show "current linked_plugins sample_env linked_tls (linked_config (Some 1)) second_objects"
    by (rule compiled_objects_current [OF linked_plugins_contract(1) linked_run])
qed code_simp+

theorem route_forwards_to_present_upstream_witness:
  "\<exists>v w. map_of (cn_routes second_objects) ''r1'' = Some v \<and> ro_resolved_upstream v = Some w \<and>
     map_of (cn_upstreams second_objects) ''u1'' = Some w \<and> px_inner w = example_upstream\<lparr>up_retries := Some 1\<rparr>"
  by (rule route_forwards_to_present_upstream [OF linked_plugins_contract(1) linked_run, where r = "linked_route ''r1'' None (Some ''s1'')"
        and j = "''s1''" and s = linked_service])
    (simp_all add: linked_config_def linked_route_def linked_service_def example_upstream_def)

text \<open>The registry with the traffic-split plugin in place; it meets the three contracts for every deserialiser
  that behaves as serde documents, whatever plugin value an instance is wrapped into.\<close>

definition split_plugins :: "split_serde \<Rightarrow> ('q, 'l) build_env \<Rightarrow> (('a, 'l) traffic_split \<Rightarrow> 'p) \<Rightarrow> (string \<Rightarrow> 'p) \<Rightarrow>
    ('p, ('q, 'a, 'l) build_ctx) plugin_fns" where
  "split_plugins S B wrap basic =
     \<lparr>pf_validate = \<lambda>name v. if name = ''traffic-split'' then validate_traffic_split_config S v else Inr (),
      pf_refs = \<lambda>name v. if name = ''traffic-split'' then named_upstream_ids S v else Inr [],
      pf_jobs = \<lambda>name w v. if name = ''traffic-split'' then inline_upstream_jobs S w v else Inr [],
      pf_plain = \<lambda>name _. Inr (basic name),
      pf_with_upstreams = \<lambda>name v ctx.
        if name = ''traffic-split''
        then (case create_traffic_split_plugin S B v ctx of Inl e \<Rightarrow> Inl e | Inr t \<Rightarrow> Inr (wrap t)) else Inr (basic name)\<rparr>"

lemma split_meta: "plugin_meta_of ''traffic-split'' = Some (meta ''traffic-split'' REQUEST WithUpstreams False True True)"
  by (simp add: plugin_meta_of_def PLUGIN_META_def plugin_meta_head_def plugin_meta_tail_def meta_def)

lemma split_plugins_local:
  fixes B :: "('q, 'l) build_env" and wrap :: "('a, 'l) traffic_split \<Rightarrow> 'p"
  shows "plugins_local (split_plugins S B wrap basic)"
  unfolding plugins_local_def
proof (intro allI impI)
  fix name v ids and ctx :: "('q, 'a, 'l) build_ctx" and ups
  assume refs: "plugin_upstream_refs (split_plugins S B wrap basic) name v = Inr ids"
    and same: "\<forall>k \<in> set ids. map_of ups k = map_of (bc_upstreams ctx) k"
  show "build_plugin_with_upstreams (split_plugins S B wrap basic) name v (ctx\<lparr>bc_upstreams := ups\<rparr>) =
      build_plugin_with_upstreams (split_plugins S B wrap basic) name v ctx"
  proof (cases "name = ''traffic-split''")
    case True
    then have "named_upstream_ids S v = Inr ids"
      using refs by (simp add: plugin_upstream_refs_def split_meta split_plugins_def meta_def)
    then show ?thesis using True create_local [of S v ids ups ctx B] same
      by (simp add: build_plugin_with_upstreams_def split_meta split_plugins_def meta_def)
  qed (simp add: build_plugin_with_upstreams_def split_plugins_def split: option.split plugin_factory.split)
qed

lemma split_plugins_buildable:
  fixes B :: "('q, 'l) build_env" and wrap :: "('a, 'l) traffic_split \<Rightarrow> 'p"
  assumes "serde_ok S"
  shows "plugins_buildable (split_plugins S B wrap basic) B"
  unfolding plugins_buildable_def
proof (intro allI impI)
  fix name v ids jobs and ctx :: "('q, 'a, 'l) build_ctx"
  let ?F = "split_plugins S B wrap basic"
  assume valid: "validate_plugin_config ?F name v = Inr ()" and refs: "plugin_upstream_refs ?F name v = Inr ids"
    and present: "\<forall>k \<in> set ids. map_of (bc_upstreams ctx) k \<noteq> None"
    and jobs: "plugin_upstream_jobs ?F (bc_owner ctx) [(name, v)] = Inr jobs" and prepared: "jobs_prepared B ctx jobs"
  show "is_ok (build_plugin_with_upstreams ?F name v ctx)"
  proof (cases "name = ''traffic-split''")
    case True
    then have "validate_traffic_split_config S v = Inr ()" "named_upstream_ids S v = Inr ids"
        "inline_upstream_jobs S (bc_owner ctx) v = Inr jobs"
      using valid refs jobs
      by (auto simp: validate_plugin_config_def plugin_upstream_refs_def split_meta split_plugins_def meta_def)
    then obtain t where "create_traffic_split_plugin S B v ctx = Inr t" using create_ok [OF assms _ _ present _ prepared] by blast
    then show ?thesis using True by (simp add: build_plugin_with_upstreams_def split_meta split_plugins_def meta_def)
  next
    case False
    obtain m where "plugin_meta_of name = Some m" using valid by (auto simp: validate_plugin_config_def split: option.splits)
    then show ?thesis using False by (simp add: build_plugin_with_upstreams_def split_plugins_def split: plugin_factory.split)
  qed
qed

lemma target_jobs_keys:
  "target_jobs S w i j ws = Inr js \<Longrightarrow> distinct (map fst js) \<and> keys js \<subseteq> {OccTrafficSplit w i k | k. j \<le> k}"
proof (induction ws arbitrary: j js)
  case (Cons v ws)
  show ?case
  proof (cases "json_get ''upstream'' v")
    case None
    then have "target_jobs S w i (j + 1) ws = Inr js" using Cons.prems by simp
    from Cons.IH [OF this] show ?thesis by fastforce
  next
    case (Some u)
    then obtain x rest where rest: "target_jobs S w i (j + 1) ws = Inr rest" "js = (OccTrafficSplit w i j, x) # rest"
      using Cons.prems by auto
    then show ?thesis using Cons.IH [OF rest(1)] by fastforce
  qed
qed simp

lemma rule_jobs_keys:
  "rule_jobs S w i rs = Inr js \<Longrightarrow> distinct (map fst js) \<and> keys js \<subseteq> {OccTrafficSplit w m k | m k. i \<le> m}"
proof (induction rs arbitrary: i js)
  case (Cons r rs)
  obtain ws here rest where step: "target_jobs S w i 0 ws = Inr here" "rule_jobs S w (i + 1) rs = Inr rest" "js = here @ rest"
    using Cons.prems by (auto split: option.splits)
  note h = target_jobs_keys [OF step(1)] and t = Cons.IH [OF step(2)]
  have "keys here \<inter> keys rest = {}"
  proof (rule equals0I)
    fix occ assume "occ \<in> keys here \<inter> keys rest"
    then have "occ \<in> {OccTrafficSplit w i k | k. 0 \<le> k}" "occ \<in> {OccTrafficSplit w m k | m k. i + 1 \<le> m}" using h t by blast+
    then show False by auto
  qed
  moreover have "keys js \<subseteq> {OccTrafficSplit w m k | m k. i \<le> m}"
  proof
    fix occ assume "occ \<in> keys js"
    then have "occ \<in> keys here \<or> occ \<in> keys rest" using step(3) by auto
    then have "occ \<in> {OccTrafficSplit w i k | k. 0 \<le> k} \<or> occ \<in> {OccTrafficSplit w m k | m k. i + 1 \<le> m}" using h t by blast
    then show "occ \<in> {OccTrafficSplit w m k | m k. i \<le> m}" by auto
  qed
  ultimately show ?case using h t step(3) by simp
qed simp

lemma split_plugins_own_jobs: "plugins_own_jobs (split_plugins S B wrap basic)"
  unfolding plugins_own_jobs_def
proof (intro allI impI)
  let ?F = "split_plugins S B wrap basic"
  fix w and ps :: plugin_map and jobs
  assume "distinct_keys ps" "plugin_upstream_jobs ?F w ps = Inr jobs"
  then have "distinct (map fst jobs) \<and> keys jobs \<subseteq> range (\<lambda>(m, k). OccTrafficSplit w m k) \<and>
      (''traffic-split'' \<notin> keys ps \<longrightarrow> jobs = [])"
  proof (induction ps arbitrary: jobs)
    case (Cons p ps)
    obtain name v where p: "p = (name, v)" by (cases p)
    show ?case
    proof (cases "name = ''traffic-split''")
      case True
      then obtain js rest where step: "inline_upstream_jobs S w v = Inr js" "plugin_upstream_jobs ?F w ps = Inr rest" "jobs = js @ rest"
        using Cons.prems(2) by (auto simp: p split_meta meta_def split_plugins_def)
      have "rest = []" using Cons.IH [OF _ step(2)] Cons.prems(1) True by (simp add: p)
      moreover have "\<exists>rs. rule_jobs S w 0 rs = Inr js" using step(1) by (auto simp: inline_upstream_jobs_def split: option.splits)
      then have "distinct (map fst js) \<and> keys js \<subseteq> {OccTrafficSplit w m k | m k. 0 \<le> m}" using rule_jobs_keys by blast
      moreover have "{OccTrafficSplit w m k | m k. (0 :: nat) \<le> m} \<subseteq> range (\<lambda>(m, k). OccTrafficSplit w m k)" by force
      ultimately have "distinct (map fst js) \<and> keys js \<subseteq> range (\<lambda>(m, k). OccTrafficSplit w m k)" "jobs = js"
        using step(3) by (blast, simp)
      then show ?thesis using True by (simp add: p)
    next
      case False
      then have "plugin_upstream_jobs ?F w ps = Inr jobs"
        using Cons.prems(2) by (auto simp: p split_plugins_def split: option.splits if_splits)
      then show ?thesis using Cons.IH Cons.prems(1) False by (simp add: p)
    qed
  qed simp
  then show "distinct (map fst jobs) \<and> (\<forall>occ \<in> keys jobs. plugin_occurrence occ \<and> occurrence_scope occ = owner_scope w)"
    by fastforce
qed

text \<open>The service \<open>s1\<close> splits its traffic between \<open>u1\<close>, an inline upstream and its own upstream.\<close>

definition split_registry :: "((unit, unit) plugin, (nat, unit, nat) build_ctx) plugin_fns" where
  "split_registry = split_plugins sample_serde sample_env
     (\<lambda>t. pe_plugin (sample_entry ''traffic-split'' (int (length (tf_rules t))))) (\<lambda>name. pe_plugin (sample_entry name 0))"

definition split_config :: config_set where
  "split_config = (linked_config None)\<lparr>cs_services := [(''s1'', linked_service\<lparr>svc_plugins := [(''traffic-split'', sample_split)]\<rparr>)]\<rparr>"

definition split_plan :: "(unit, nat, unit, unit, unit, unit) candidate_plan" where
  "split_plan = \<lparr>cp_reused = candidate_empty, cp_jobs = [(OccNamed ''u1'', example_upstream), (OccNamed ''u2'', example_upstream\<lparr>up_id := ''u2''\<rparr>),
     (OccTrafficSplit (OwnService ''s1'') 0 1, sample_upstream)]\<rparr>"

lemma split_jobs: "plugin_upstream_jobs split_registry (OwnService ''s1'') [(''traffic-split'', sample_split)] =
    Inr [(OccTrafficSplit (OwnService ''s1'') 0 1, sample_upstream)]"
  by (simp add: split_meta meta_def split_registry_def split_plugins_def inline_upstream_jobs_def sample_defs)

lemma split_planned: "build_plan split_registry split_config candidate_empty = Inr split_plan"
  by (simp add: build_plan_def plan_reuse_def plan_jobs_def split_config_def linked_config_def candidate_empty_def linked_service_def
      linked_route_def service_jobs_def scope_jobs_def route_jobs_def inline_job_def split_jobs split_plan_def del: plugin_upstream_jobs.simps(2))
    (simp add: example_upstream_def)

lemma split_gate: "validate_runtime_form split_registry split_config = Inr ()"
proof -
  have names: "named_upstream_ids sample_serde sample_split = Inr [''u1'']"
    "validate_traffic_split_config sample_serde sample_split = Inr ()"
    by (simp_all add: named_upstream_ids_def validate_traffic_split_config_def sample_defs)
  then have plugins: "validate_plugin_upstream_refs split_registry owner [(''traffic-split'', sample_split)] (cs_upstreams split_config) = Inr ()"
    for owner
    by (simp add: validate_plugin_upstream_refs_def validate_plugin_config_def plugin_upstream_refs_def split_meta meta_def
        split_registry_def split_plugins_def split_config_def linked_config_def)
  have "validate_runtime_form linked_plugins (linked_config None) = Inr ()" by code_simp
  then show ?thesis using plugins
    by (simp add: validate_runtime_form_def validate_config_set_def sum_bind_Inr_iff split_config_def linked_config_def
        linked_service_def linked_route_def check_route_refs_def check_service_refs_def validate_service_def validated_def
        check_upstream_id_def validate_plugin_upstream_refs_def Let_def)
qed

theorem prepared_candidate_compiles_witness:
  "\<exists>c :: (unit, nat, unit, unit, unit, unit) candidate. build_prepared split_registry sample_env linked_tls 0 split_config split_plan
     [(OccNamed ''u1'', 9), (OccNamed ''u2'', 9), (OccTrafficSplit (OwnService ''s1'') 0 1, 9)] = Inr c"
proof (rule prepared_candidate_compiles [where prepare = "\<lambda>_. Inr (9 :: nat)" and prev = candidate_empty])
  show "plugins_buildable split_registry sample_env" "plugins_own_jobs split_registry"
    unfolding split_registry_def by (rule split_plugins_buildable [OF sample_serde_ok] split_plugins_own_jobs)+
  show "prepare_candidate split_registry (\<lambda>_. Inr (9 :: nat)) split_config candidate_empty = Inr (split_plan,
      [(OccNamed ''u1'', 9), (OccNamed ''u2'', 9), (OccTrafficSplit (OwnService ''s1'') 0 1, 9)])"
    by (simp add: prepare_candidate_def split_planned) (simp add: split_plan_def)
  show "config_wf split_config"
    by (simp add: config_wf_def cs_distinct_def split_config_def linked_config_def linked_service_def linked_route_def)
  show "validate_runtime_form split_registry split_config = Inr ()" by (rule split_gate)
  show "\<forall>n u q. Inr (9 :: nat) = Inr q \<longrightarrow> is_ok (env_upstream sample_env n u q :: proxy_error + (unit, nat) proxy_upstream)"
    by (simp add: env_upstream_def build_upstream_def sample_env_def Let_def)
  show "\<forall>(i, l) \<in> set (cs_ssls split_config). is_ok (proxy_ssl_try_from linked_tls l)"
    by (simp add: split_config_def linked_config_def)
qed

text \<open>The plugin of the service runs a check keyed as traffic-split keys it.\<close>

definition linked_checks :: "(unit, unit) plugin \<Rightarrow> (unit, nat) hc_spec list" where
  "linked_checks p = [\<lparr>hs_key = split_key 0 1, hs_fingerprint = (), hs_service = 5\<rparr>]"

lemma linked_checks_apart: "length es \<le> 1 \<Longrightarrow> specs_apart linked_checks es"
  by (cases es) (auto simp: specs_apart_def linked_checks_def)

theorem health_check_keys_distinct_witness:
  "distinct (map hs_key (collect_health_checks (\<lambda>_. ()) linked_checks second_objects)) \<and>
   map hs_key (collect_health_checks (\<lambda>_. ()) linked_checks second_objects) =
     [''upstream/u1'', ''upstream/u2'', ''service/s1/plugin/traffic-split/0/1'']"
proof
  have "list_all (\<lambda>(i, s). length (sv_plugins s) \<le> 1) (cn_services second_objects)"
    "list_all (\<lambda>(i, r). length (ro_plugins r) \<le> 1) (cn_routes second_objects)"
    "list_all (\<lambda>(i, g). length (pgr_plugins g) \<le> 1) (cn_global_rules second_objects)"
    by code_simp+
  then show "distinct (map hs_key (collect_health_checks (\<lambda>_. ()) linked_checks second_objects))"
    by (intro health_check_keys_distinct [OF run_current [OF linked_plugins_contract(1) linked_run] linked_distinct])
      (auto simp: list_all_iff linked_checks_apart)
qed code_simp

end
