(* ===== verification/Etcd_Store.thy ===== *)
theory Etcd_Store
  imports Config_Graph Text
begin

text \<open>
  The graph store over etcd (\<open>src/config/etcd/keys.rs\<close>, \<open>store.rs\<close> and the mapping of list responses in
  \<open>sync.rs\<close>): the namespace, the mapping between keys of etcd and of the graph, whole-graph snapshots
  and the guarded transaction.

  etcd is the record \<open>etcd_service\<close> with the laws \<open>etcd_ok\<close>: reads by key and by prefix, transactions
  that compare and then write under the next revision. What becomes of a call on its way is its
  \<open>fate\<close>: the request or the reply may be lost, so a failed transaction may have taken effect. The
  locale \<open>shared_store\<close> is the contract that remains; the contract \<open>graph_store\<close> is a special case.
\<close>

section \<open>The namespace\<close>

definition canonicalize_prefix :: "string \<Rightarrow> string" where
  "canonicalize_prefix prefix =
     (let trimmed = rev (dropWhile (\<lambda>c. c = CHR ''/'') (rev prefix))
      in if trimmed = [] then ''/'' else trimmed @ ''/'')"

definition GRAPH_REVISION_KEY :: string where
  "GRAPH_REVISION_KEY = ''.pingsix_graph_revision''"

definition GRAPH_PROTOCOL_VERSION :: string where
  "GRAPH_PROTOCOL_VERSION = ''pingsix-graph-v1''"

definition validate_guard_value :: "string \<Rightarrow> store_error + unit" where
  "validate_guard_value v =
     (if v \<noteq> GRAPH_PROTOCOL_VERSION \<and> v \<noteq> ''1'' then Inl UnsupportedProtocol else Inr ())"

text \<open>The part after the last slash.\<close>

definition leaf :: "string \<Rightarrow> string" where
  "leaf key = rev (takeWhile (\<lambda>c. c \<noteq> CHR ''/'') (rev key))"

definition is_metadata_key :: "string \<Rightarrow> bool" where
  "is_metadata_key key \<longleftrightarrow> utf8_valid key \<and> starts_with ''.'' (leaf key)"

definition physical_key_to_resource_key :: "string \<Rightarrow> string \<Rightarrow> string + resource_key" where
  "physical_key_to_resource_key key prefix =
     (case utf8_error 0 key of
        Some e \<Rightarrow> Inl (''Key is not valid UTF-8: '' @ utf8_error_display e)
      | None \<Rightarrow>
          (case strip_prefix prefix key of
             None \<Rightarrow> Inl (''Key '' @ quoted key @ '' is outside etcd namespace '' @ quoted prefix)
           | Some rest \<Rightarrow>
               (case split_once CHR ''/'' rest of
                  None \<Rightarrow> Inl (''Invalid key format under namespace: '' @ key)
                | Some (kind, i) \<Rightarrow>
                    if kind = [] \<or> i = [] \<or> CHR ''/'' \<in> set i
                    then Inl (''Invalid key format under namespace: '' @ key)
                    else sum_bind (map_err (graph_error_display (\<lambda>_. [])) (rk_parse kind)) (\<lambda>kind.
                         map_err (graph_error_display (\<lambda>_. [])) (resource_key_new kind i)))))"

section \<open>The service\<close>

record etcd_kv =
  kv_key :: string
  kv_value :: string
  kv_create :: int
  kv_mod :: int

datatype etcd_compare = CompareCreate string int | CompareMod string int

datatype etcd_op = OpPut string string | OpDelete string

record 'e etcd_service =
  ev_get :: "string \<Rightarrow> 'e \<Rightarrow> etcd_kv option"
  ev_range :: "string \<Rightarrow> 'e \<Rightarrow> etcd_kv list"
  ev_revision :: "'e \<Rightarrow> int"
  ev_txn :: "etcd_compare list \<Rightarrow> etcd_op list \<Rightarrow> 'e \<Rightarrow> bool \<times> 'e"

text \<open>The fate of a call: no client could be created, the request or its reply was lost, or the reply
  arrived, with a header or without.\<close>

datatype fate = NotConnected proxy_error | RequestLost string | ReplyLost string | Replied bool

definition etcd_error_with_cause :: "string \<Rightarrow> string \<Rightarrow> proxy_error" where
  "etcd_error_with_cause message cause = PE_WithCause (''Etcd error: '' @ message) cause"

text \<open>A read: the reply, and whether it has a header.\<close>

definition read_reply :: "fate \<Rightarrow> string \<Rightarrow> 'r \<Rightarrow> proxy_error + 'r \<times> bool" where
  "read_reply f message r =
     (case f of
        NotConnected e \<Rightarrow> Inl e
      | RequestLost cause \<Rightarrow> Inl (etcd_error_with_cause message cause)
      | ReplyLost cause \<Rightarrow> Inl (etcd_error_with_cause message cause)
      | Replied header \<Rightarrow> Inr (r, header))"

section \<open>Reading\<close>

definition with_prefix :: "string \<Rightarrow> string \<Rightarrow> string" where
  "with_prefix prefix key = prefix @ dropWhile (\<lambda>c. c = CHR ''/'') key"

definition stored_of :: "etcd_kv \<Rightarrow> stored_resource" where
  "stored_of kv = \<lparr>sr_value = kv_value kv, sr_create_revision = kv_create kv, sr_mod_revision = kv_mod kv\<rparr>"

definition es_get_exact :: "'e etcd_service \<Rightarrow> string \<Rightarrow> fate \<Rightarrow> resource_key \<Rightarrow> 'e \<Rightarrow> store_error + stored_resource option" where
  "es_get_exact E prefix f key s =
     (let physical_key = with_prefix prefix (logical_path key)
      in sum_bind (map_err Unavailable
           (read_reply f (''Failed to read resource '' @ quoted physical_key) (ev_get E physical_key s))) (\<lambda>(kv, _).
         Inr (map_option stored_of kv)))"

fun list_entries :: "string \<Rightarrow> resource_kind \<Rightarrow> etcd_kv list \<Rightarrow> store_error + (resource_key \<times> stored_resource) list" where
  "list_entries prefix kind [] = Inr []"
| "list_entries prefix kind (kv # kvs) =
     sum_bind (map_err InvalidResponse (physical_key_to_resource_key (kv_key kv) prefix)) (\<lambda>key.
     if rk_kind key \<noteq> kind
     then Inl (InvalidResponse (''resource '' @ quoted (logical_path key) @ '' is outside requested kind '' @
                 quoted (rk_as_str kind)))
     else sum_bind (list_entries prefix kind kvs) (\<lambda>rest. Inr ((key, stored_of kv) # rest)))"

definition es_list_kind :: "'e etcd_service \<Rightarrow> string \<Rightarrow> fate \<Rightarrow> resource_kind \<Rightarrow> 'e \<Rightarrow>
    store_error + (resource_key \<times> stored_resource) list" where
  "es_list_kind E prefix f kind s =
     (let physical_prefix = with_prefix prefix (rk_as_str kind @ ''/'')
      in sum_bind (map_err Unavailable
           (read_reply f (''Failed to list resources under '' @ quoted physical_prefix) (ev_range E physical_prefix s))) (\<lambda>(kvs, _).
         list_entries prefix kind kvs))"

text \<open>The loop over a list response: the resources and the guard so far.\<close>

fun snapshot_entries :: "string \<Rightarrow> etcd_kv list \<Rightarrow> (resource_key \<times> stored_resource) list \<times> int option \<Rightarrow>
    store_error + (resource_key \<times> stored_resource) list \<times> int option" where
  "snapshot_entries prefix [] acc = Inr acc"
| "snapshot_entries prefix (kv # kvs) (resources, guard) =
     (let key = lossy (kv_key kv)
      in if \<not> starts_with prefix key then snapshot_entries prefix kvs (resources, guard)
         else if key = prefix @ GRAPH_REVISION_KEY
         then sum_bind (validate_guard_value (kv_value kv)) (\<lambda>_. snapshot_entries prefix kvs (resources, Some (kv_mod kv)))
         else if is_metadata_key (kv_key kv) then snapshot_entries prefix kvs (resources, guard)
         else sum_bind (map_err InvalidResponse (physical_key_to_resource_key (kv_key kv) prefix)) (\<lambda>k.
              snapshot_entries prefix kvs (AList.update k (stored_of kv) resources, guard)))"

definition graph_snapshot_from_list :: "etcd_kv list \<Rightarrow> int \<Rightarrow> string \<Rightarrow> store_error + stored_graph" where
  "graph_snapshot_from_list kvs header_revision prefix =
     sum_bind (snapshot_entries prefix kvs ([], None)) (\<lambda>(resources, guard).
     Inr \<lparr>sg_resources = resources, sg_guard = guard, sg_revision = header_revision\<rparr>)"

definition es_snapshot :: "'e etcd_service \<Rightarrow> string \<Rightarrow> fate \<Rightarrow> 'e \<Rightarrow> store_error + stored_graph" where
  "es_snapshot E prefix f s =
     sum_bind (map_err Unavailable
       (read_reply f (''Failed to read full graph for prefix '' @ quoted prefix) (ev_range E prefix s))) (\<lambda>(kvs, header).
     if \<not> header then Inl (InvalidResponse ''snapshot: missing response header'')
     else graph_snapshot_from_list kvs (ev_revision E s) prefix)"

section \<open>The guarded transaction\<close>

definition expects :: "string \<Rightarrow> int option \<Rightarrow> etcd_compare" where
  "expects key expected = (case expected of None \<Rightarrow> CompareCreate key 0 | Some r \<Rightarrow> CompareMod key r)"

definition graph_txn :: "'e etcd_service \<Rightarrow> string \<Rightarrow> fate \<Rightarrow> string \<Rightarrow> string option \<Rightarrow> int option \<Rightarrow> int option \<Rightarrow> 'e \<Rightarrow>
    (proxy_error + int) \<times> 'e" where
  "graph_txn E prefix f key v expected guard s =
     (let guard_key = with_prefix prefix GRAPH_REVISION_KEY;
          (succeeded, t) = ev_txn E [expects key expected, expects guard_key guard]
            [case v of Some v \<Rightarrow> OpPut key v | None \<Rightarrow> OpDelete key, OpPut guard_key GRAPH_PROTOCOL_VERSION] s
      in case f of
           NotConnected e \<Rightarrow> (Inl e, s)
         | RequestLost cause \<Rightarrow> (Inl (etcd_error_with_cause ''graph transaction failed'' cause), s)
         | ReplyLost cause \<Rightarrow> (Inl (etcd_error_with_cause ''graph transaction failed'' cause), t)
         | Replied header \<Rightarrow>
             (if \<not> succeeded then Inl (PE_CasConflict ''configuration graph changed concurrently'')
              else if header then Inr (ev_revision E t)
              else Inl (PE_Etcd ''graph transaction: missing response header''), t))"

definition es_compare_and_swap :: "'e etcd_service \<Rightarrow> string \<Rightarrow> fate \<Rightarrow> graph_commit \<Rightarrow> 'e \<Rightarrow> (store_error + int) \<times> 'e" where
  "es_compare_and_swap E prefix f commit s =
     (let (key, v) = (case gc_mutation commit of
                        MPut key v \<Rightarrow> (with_prefix prefix (logical_path key), Some v)
                      | MDelete key \<Rightarrow> (with_prefix prefix (logical_path key), None));
          (res, t) = graph_txn E prefix f key v (gc_expected_target commit) (gc_expected_guard commit) s
      in (map_err (\<lambda>e. case e of PE_CasConflict _ \<Rightarrow> Conflict | other \<Rightarrow> Unavailable other) res, t))"

section \<open>The laws of etcd\<close>

text \<open>A transaction whose comparisons hold applies its writes, to different keys, under the next revision;
  otherwise nothing happens. A key that does not exist compares with revision 0.\<close>

fun compare_holds :: "(string \<Rightarrow> etcd_kv option) \<Rightarrow> etcd_compare \<Rightarrow> bool" where
  "compare_holds m (CompareCreate k r) = ((case m k of Some kv \<Rightarrow> kv_create kv | None \<Rightarrow> 0) = r)"
| "compare_holds m (CompareMod k r) = ((case m k of Some kv \<Rightarrow> kv_mod kv | None \<Rightarrow> 0) = r)"

fun op_key :: "etcd_op \<Rightarrow> string" where
  "op_key (OpPut k v) = k"
| "op_key (OpDelete k) = k"

fun op_effect :: "int \<Rightarrow> etcd_op \<Rightarrow> (string \<Rightarrow> etcd_kv option) \<Rightarrow> string \<Rightarrow> etcd_kv option" where
  "op_effect r (OpPut k v) m =
     m(k \<mapsto> \<lparr>kv_key = k, kv_value = v, kv_create = (case m k of Some kv \<Rightarrow> kv_create kv | None \<Rightarrow> r), kv_mod = r\<rparr>)"
| "op_effect r (OpDelete k) m = m(k := None)"

definition etcd_reads :: "'e etcd_service \<Rightarrow> 'e \<Rightarrow> bool" where
  "etcd_reads E s \<longleftrightarrow>
     (\<forall>p. distinct (map kv_key (ev_range E p s)) \<and>
       (\<forall>kv. kv \<in> set (ev_range E p s) \<longleftrightarrow> starts_with p (kv_key kv) \<and> ev_get E (kv_key kv) s = Some kv)) \<and>
     (\<forall>k kv. ev_get E k s = Some kv \<longrightarrow> kv_key kv = k \<and> 0 < kv_create kv \<and> kv_create kv \<le> kv_mod kv \<and>
       kv_mod kv \<le> ev_revision E s)"

definition etcd_writes :: "'e etcd_service \<Rightarrow> 'e \<Rightarrow> etcd_compare list \<Rightarrow> etcd_op list \<Rightarrow> bool" where
  "etcd_writes E s cs ops \<longleftrightarrow>
     (let (ok, t) = ev_txn E cs ops s; m = (\<lambda>k. ev_get E k s)
      in ok = list_all (compare_holds m) cs \<and>
         (if ok then ev_revision E t = ev_revision E s + 1 \<and> (\<lambda>k. ev_get E k t) = fold (op_effect (ev_revision E s + 1)) ops m
          else t = s))"

definition etcd_ok :: "'e etcd_service \<Rightarrow> ('e \<Rightarrow> bool) \<Rightarrow> bool" where
  "etcd_ok E I \<longleftrightarrow> (\<forall>s. I s \<longrightarrow> etcd_reads E s \<and>
     (\<forall>cs ops. I (snd (ev_txn E cs ops s)) \<and>
        (distinct (map op_key ops) \<longrightarrow> (\<exists>k v. OpPut k v \<in> set ops) \<longrightarrow> etcd_writes E s cs ops)))"

section \<open>The key mapping\<close>

definition key_wf :: "resource_key \<Rightarrow> bool" where
  "key_wf k \<longleftrightarrow> rk_id k \<noteq> [] \<and> CHR ''/'' \<notin> set (rk_id k) \<and> utf8_valid (rk_id k)"

definition hidden :: "resource_key \<Rightarrow> bool" where
  "hidden k \<longleftrightarrow> starts_with ''.'' (rk_id k)"

lemma rk_parse_Inr: "rk_parse v = Inr kind \<longleftrightarrow> v = rk_as_str kind"
  by (cases kind) (auto simp: rk_parse_def)

lemma rk_as_str_ascii: "(\<forall>c \<in> set (rk_as_str kind). is_ascii c) \<and> CHR ''/'' \<notin> set (rk_as_str kind) \<and> rk_as_str kind \<noteq> []"
  by (cases kind) (simp_all add: is_ascii_def)

lemma utf8_path: "utf8_valid (logical_path k) = utf8_valid (rk_id k)"
proof -
  have "utf8_valid (rk_as_str (rk_kind k) @ ''/'')" using rk_as_str_ascii [of "rk_kind k"] by (intro ascii_valid) (auto simp: is_ascii_def)
  from utf8_valid_append [OF this, of "rk_id k"] show ?thesis by (simp add: logical_path_def)
qed

lemma physical_key_exact:
  assumes "utf8_valid p"
  shows "physical_key_to_resource_key key p = Inr k \<longleftrightarrow> key = p @ logical_path k \<and> key_wf k"
proof
  assume r: "physical_key_to_resource_key key p = Inr k"
  then obtain rest kind i where s: "utf8_valid key" "strip_prefix p key = Some rest" "split_once CHR ''/'' rest = Some (kind, i)"
      "i \<noteq> []" "CHR ''/'' \<notin> set i" "rk_parse kind = Inr (rk_kind k)" "rk_id k = i"
    by (auto simp: physical_key_to_resource_key_def utf8_valid_def resource_key_new_def
        split: option.splits if_splits prod.splits)
  have key: "key = p @ logical_path k" using s(2,3,6,7) by (simp add: strip_prefix_Some split_once_Some rk_parse_Inr logical_path_def)
  moreover have "utf8_valid (rk_id k)" using s(1) utf8_valid_append [OF assms] unfolding key by (simp add: utf8_path)
  ultimately show "key = p @ logical_path k \<and> key_wf k" using s(4,5,7) by (simp add: key_wf_def)
next
  assume k: "key = p @ logical_path k \<and> key_wf k"
  then have "utf8_valid key" using utf8_valid_append [OF assms] by (simp add: utf8_path key_wf_def)
  moreover have "split_once CHR ''/'' (logical_path k) = Some (rk_as_str (rk_kind k), rk_id k)"
    using rk_as_str_ascii [of "rk_kind k"] by (simp add: split_once_Some logical_path_def)
  moreover have "rk_parse (rk_as_str (rk_kind k)) = Inr (rk_kind k)" by (simp add: rk_parse_Inr)
  ultimately show "physical_key_to_resource_key key p = Inr k"
    using k rk_as_str_ascii [of "rk_kind k"]
    by (simp add: physical_key_to_resource_key_def utf8_valid_def key_wf_def resource_key_new_def)
qed

lemma with_prefix_path: "with_prefix p (logical_path k) = p @ logical_path k"
  using rk_as_str_ascii [of "rk_kind k"] by (cases "rk_as_str (rk_kind k)") (auto simp: with_prefix_def logical_path_def)

lemma with_prefix_guard: "with_prefix p GRAPH_REVISION_KEY = p @ GRAPH_REVISION_KEY"
  by (simp add: with_prefix_def GRAPH_REVISION_KEY_def)

lemma path_inj: "key_wf k \<Longrightarrow> key_wf l \<Longrightarrow> logical_path k = logical_path l \<longleftrightarrow> k = l"
  using physical_key_exact [of "[]"] by (metis Inr_inject append_Nil utf8_valid_Nil)

lemma path_not_guard: "p @ logical_path k \<noteq> p @ GRAPH_REVISION_KEY"
proof -
  have "CHR ''/'' \<in> set (logical_path k)" by (simp add: logical_path_def)
  moreover have "CHR ''/'' \<notin> set GRAPH_REVISION_KEY" by (simp add: GRAPH_REVISION_KEY_def)
  ultimately show ?thesis by auto
qed

lemma leaf_path: "key_wf k \<Longrightarrow> leaf (p @ logical_path k) = rk_id k"
  by (simp add: leaf_def logical_path_def key_wf_def takeWhile_append)

lemma path_metadata: "utf8_valid p \<Longrightarrow> key_wf k \<Longrightarrow> is_metadata_key (p @ logical_path k) \<longleftrightarrow> hidden k"
  by (simp add: is_metadata_key_def leaf_path hidden_def utf8_valid_append utf8_path) (simp add: key_wf_def)

lemma guard_ascii: "\<forall>c \<in> set GRAPH_REVISION_KEY. is_ascii c"
  by (simp add: GRAPH_REVISION_KEY_def is_ascii_def)

lemma lossy_guard: "utf8_valid p \<Longrightarrow> lossy (p @ r) = p @ GRAPH_REVISION_KEY \<longleftrightarrow> r = GRAPH_REVISION_KEY"
  using lossy_ascii [OF _ guard_ascii] lossy_valid [OF ascii_valid [OF guard_ascii]] by (auto simp: lossy_append)

lemma starts_with_iff: "starts_with p s \<longleftrightarrow> (\<exists>r. s = p @ r)"
  by (auto simp: starts_with_def) (metis append_take_drop_id)

section \<open>Snapshots\<close>

definition lookup_kv :: "etcd_kv list \<Rightarrow> string \<Rightarrow> etcd_kv option" where
  "lookup_kv kvs key = find (\<lambda>kv. kv_key kv = key) kvs"

lemma lookup_kv_simps [simp]:
  "lookup_kv [] key = None" "lookup_kv (kv # kvs) key = (if kv_key kv = key then Some kv else lookup_kv kvs key)"
  by (simp_all add: lookup_kv_def)

lemma lookup_kv_None: "lookup_kv kvs key = None \<longleftrightarrow> key \<notin> kv_key ` set kvs"
  by (auto simp: lookup_kv_def find_None_iff)

definition visible :: "resource_key \<Rightarrow> bool" where
  "visible k \<longleftrightarrow> key_wf k \<and> \<not> hidden k"

text \<open>The entries that a snapshot of the namespace accepts.\<close>

definition entry_ok :: "string \<Rightarrow> etcd_kv \<Rightarrow> bool" where
  "entry_ok p kv \<longleftrightarrow>
     (if kv_key kv = p @ GRAPH_REVISION_KEY then validate_guard_value (kv_value kv) = Inr ()
      else is_metadata_key (kv_key kv) \<or> (\<exists>k. key_wf k \<and> kv_key kv = p @ logical_path k))"

definition entry_step :: "string \<Rightarrow> etcd_kv \<Rightarrow> (resource_key \<times> stored_resource) list \<times> int option \<Rightarrow>
    (resource_key \<times> stored_resource) list \<times> int option" where
  "entry_step p kv acc =
     (if kv_key kv = p @ GRAPH_REVISION_KEY then (fst acc, Some (kv_mod kv))
      else if is_metadata_key (kv_key kv) then acc
      else (AList.update (projr (physical_key_to_resource_key (kv_key kv) p)) (stored_of kv) (fst acc), snd acc))"

lemma snapshot_entries_Cons:
  assumes p: "utf8_valid p" and "starts_with p (kv_key kv)"
  shows "snapshot_entries p (kv # kvs) acc = Inr res \<longleftrightarrow>
    entry_ok p kv \<and> snapshot_entries p kvs (entry_step p kv acc) = Inr res"
proof -
  obtain r where r: "kv_key kv = p @ r" using assms(2) by (auto simp: starts_with_iff)
  obtain resources guard where acc: "acc = (resources, guard)" by (cases acc)
  have start: "starts_with p (lossy (kv_key kv))" using lossy_append [OF p] by (simp add: r starts_with_iff)
  show ?thesis
  proof (cases "r = GRAPH_REVISION_KEY")
    case True
    then show ?thesis using start lossy_guard [OF p, of r]
      by (cases "validate_guard_value (kv_value kv)") (auto simp: acc r entry_ok_def entry_step_def)
  next
    case False
    then have ng: "lossy (kv_key kv) \<noteq> p @ GRAPH_REVISION_KEY" "kv_key kv \<noteq> p @ GRAPH_REVISION_KEY"
      using lossy_guard [OF p, of r] by (simp_all add: r)
    show ?thesis
    proof (cases "is_metadata_key (kv_key kv)")
      case True
      then show ?thesis using start ng by (simp add: acc entry_ok_def entry_step_def)
    next
      case meta: False
      show ?thesis
      proof (cases "physical_key_to_resource_key (kv_key kv) p")
        case (Inl e)
        then have "\<not> (\<exists>k. key_wf k \<and> kv_key kv = p @ logical_path k)"
          using physical_key_exact [OF p] by (metis sum.distinct(1))
        then show ?thesis using start ng meta Inl by (simp add: acc entry_ok_def)
      next
        case (Inr k)
        then have "\<exists>k. key_wf k \<and> kv_key kv = p @ logical_path k" using physical_key_exact [OF p] by blast
        then show ?thesis using start ng meta Inr by (simp add: acc entry_ok_def entry_step_def)
      qed
    qed
  qed
qed

lemma snapshot_entries_iff:
  assumes "utf8_valid p" and "\<forall>kv \<in> set kvs. starts_with p (kv_key kv)"
  shows "snapshot_entries p kvs acc = Inr res \<longleftrightarrow> list_all (entry_ok p) kvs \<and> res = fold (entry_step p) kvs acc"
  using assms(2)
proof (induction kvs arbitrary: acc)
  case (Cons kv kvs)
  then show ?case using snapshot_entries_Cons [OF assms(1), of kv kvs acc res] by auto
qed auto

lemma fold_entry_step:
  assumes p: "utf8_valid p"
  shows "distinct (map kv_key kvs) \<Longrightarrow> list_all (entry_ok p) kvs \<Longrightarrow> \<forall>kv \<in> set kvs. starts_with p (kv_key kv) \<Longrightarrow>
    snd (fold (entry_step p) kvs acc) =
      (case lookup_kv kvs (p @ GRAPH_REVISION_KEY) of Some kv \<Rightarrow> Some (kv_mod kv) | None \<Rightarrow> snd acc) \<and>
    map_of (fst (fold (entry_step p) kvs acc)) k =
      (case lookup_kv kvs (p @ logical_path k) of
         Some kv \<Rightarrow> if visible k then Some (stored_of kv) else map_of (fst acc) k | None \<Rightarrow> map_of (fst acc) k) \<and>
    (distinct_keys (fst acc) \<longrightarrow> distinct_keys (fst (fold (entry_step p) kvs acc)))"
proof (induction kvs arbitrary: acc)
  case (Cons kv kvs)
  let ?acc = "entry_step p kv acc"
  note IH = Cons.IH [of ?acc]
  have here: "snd ?acc = (if kv_key kv = p @ GRAPH_REVISION_KEY then Some (kv_mod kv) else snd acc)"
    by (simp add: entry_step_def)
  have ok: "entry_ok p kv" using Cons.prems(2) by simp
  have there: "map_of (fst ?acc) k = (if kv_key kv = p @ logical_path k \<and> visible k then Some (stored_of kv) else map_of (fst acc) k)"
  proof (cases "kv_key kv = p @ GRAPH_REVISION_KEY \<or> is_metadata_key (kv_key kv)")
    case True
    then have "\<not> (kv_key kv = p @ logical_path k \<and> visible k)"
      using path_not_guard [of p k] path_metadata [OF p, of k] by (auto simp: visible_def)
    then show ?thesis using True by (auto simp: entry_step_def)
  next
    case False
    then obtain l where l: "key_wf l" "kv_key kv = p @ logical_path l" using ok by (auto simp: entry_ok_def)
    then have "physical_key_to_resource_key (kv_key kv) p = Inr l" using physical_key_exact [OF p] by blast
    moreover have "visible l" using l False path_metadata [OF p l(1)] by (simp add: visible_def)
    moreover have "kv_key kv = p @ logical_path k \<and> visible k \<longleftrightarrow> k = l"
      using l path_inj [of k l] \<open>visible l\<close> by (auto simp: visible_def)
    ultimately show ?thesis using False by (auto simp: entry_step_def update_conv')
  qed
  have dist: "distinct_keys (fst acc) \<Longrightarrow> distinct_keys (fst ?acc)" by (simp add: entry_step_def distinct_update)
  have once: "kv_key kv = key \<Longrightarrow> lookup_kv kvs key = None" for key
    using Cons.prems(1) by (auto simp: lookup_kv_None)
  show ?case using IH Cons.prems here there dist once [of "p @ GRAPH_REVISION_KEY"] once [of "p @ logical_path k"]
    by (auto simp: here there split: option.splits)
qed simp

definition graph_at :: "'e etcd_service \<Rightarrow> string \<Rightarrow> 'e \<Rightarrow> stored_graph" where
  "graph_at E p s = projr (es_snapshot E p (Replied True) s)"

lemma range_lookup:
  assumes "etcd_reads E s" and "starts_with p key"
  shows "lookup_kv (ev_range E p s) key = ev_get E key s"
proof (cases "lookup_kv (ev_range E p s) key")
  case None
  show ?thesis
  proof (cases "ev_get E key s")
    case (Some kv)
    then have "kv \<in> set (ev_range E p s)" "kv_key kv = key" using assms by (auto simp: etcd_reads_def)
    then show ?thesis using None by (auto simp: lookup_kv_None)
  qed (simp add: None)
next
  case (Some kv)
  then have "kv \<in> set (ev_range E p s)" "kv_key kv = key" by (auto simp: lookup_kv_def find_Some_iff)
  then show ?thesis using assms Some by (auto simp: etcd_reads_def)
qed

text \<open>What a snapshot of a namespace is, and when there is one.\<close>

lemma snapshot_iff:
  assumes p: "utf8_valid p" and E: "etcd_reads E s"
  shows "(\<exists>g. es_snapshot E p (Replied True) s = Inr g) \<longleftrightarrow>
    (\<forall>key kv. ev_get E key s = Some kv \<and> starts_with p key \<longrightarrow> entry_ok p kv)"
proof -
  have start: "\<forall>kv \<in> set (ev_range E p s). starts_with p (kv_key kv)" using E by (auto simp: etcd_reads_def)
  have "(\<exists>g. es_snapshot E p (Replied True) s = Inr g) \<longleftrightarrow> list_all (entry_ok p) (ev_range E p s)"
    using snapshot_entries_iff [OF p start, of "([], None)"]
    by (cases "fold (entry_step p) (ev_range E p s) ([], None)")
      (auto simp: es_snapshot_def read_reply_def graph_snapshot_from_list_def sum_bind_Inr_iff)
  also have "\<dots> \<longleftrightarrow> (\<forall>kv \<in> set (ev_range E p s). entry_ok p kv)" by (simp add: list_all_iff)
  also have "\<dots> \<longleftrightarrow> (\<forall>key kv. ev_get E key s = Some kv \<and> starts_with p key \<longrightarrow> entry_ok p kv)"
  proof -
    have "kv \<in> set (ev_range E p s) \<longleftrightarrow> starts_with p (kv_key kv) \<and> ev_get E (kv_key kv) s = Some kv" for kv
      using E unfolding etcd_reads_def by blast
    moreover have "ev_get E key s = Some kv \<Longrightarrow> kv_key kv = key" for key kv using E unfolding etcd_reads_def by blast
    ultimately show ?thesis by metis
  qed
  finally show ?thesis .
qed

lemma snapshot_is:
  assumes p: "utf8_valid p" and E: "etcd_reads E s" and g: "es_snapshot E p (Replied True) s = Inr g"
  shows "map_of (sg_resources g) k = (if visible k then map_option stored_of (ev_get E (p @ logical_path k) s) else None)"
    and "sg_guard g = map_option kv_mod (ev_get E (p @ GRAPH_REVISION_KEY) s)"
    and "sg_revision g = ev_revision E s" and "distinct_keys (sg_resources g)"
proof -
  let ?kvs = "ev_range E p s"
  have start: "\<forall>kv \<in> set ?kvs. starts_with p (kv_key kv)" and dist: "distinct (map kv_key ?kvs)" using E by (auto simp: etcd_reads_def)
  obtain res where res: "snapshot_entries p ?kvs ([], None) = Inr res"
      "g = \<lparr>sg_resources = fst res, sg_guard = snd res, sg_revision = ev_revision E s\<rparr>"
    using g by (auto simp: es_snapshot_def read_reply_def graph_snapshot_from_list_def sum_bind_Inr_iff)
  have all: "list_all (entry_ok p) ?kvs" and fold: "res = fold (entry_step p) ?kvs ([], None)"
    using snapshot_entries_iff [OF p start] res(1) by blast+
  note f = fold_entry_step [OF p dist all start, of "([], None)" k]
  have "map_of (fst res) k = (if visible k then map_option stored_of (ev_get E (p @ logical_path k) s) else None)"
    using f range_lookup [OF E, of p "p @ logical_path k"] unfolding fold by (auto simp: starts_with_iff split: option.splits)
  then show "map_of (sg_resources g) k = (if visible k then map_option stored_of (ev_get E (p @ logical_path k) s) else None)"
    by (simp add: res(2))
  show "sg_guard g = map_option kv_mod (ev_get E (p @ GRAPH_REVISION_KEY) s)"
    using f range_lookup [OF E, of p "p @ GRAPH_REVISION_KEY"] unfolding res(2) fold
    by (auto simp: starts_with_iff split: option.splits)
  show "distinct_keys (sg_resources g)" using f unfolding res(2) fold by simp
qed (use g in \<open>auto simp: es_snapshot_def read_reply_def graph_snapshot_from_list_def sum_bind_Inr_iff\<close>)

section \<open>A store that may not answer\<close>

text \<open>Two snapshots with the same contents; they may have different revisions.\<close>

definition same_graph :: "stored_graph \<Rightarrow> stored_graph \<Rightarrow> bool" where
  "same_graph g h \<longleftrightarrow> sg_guard h = sg_guard g \<and> map_of (sg_resources h) = map_of (sg_resources g)"

lemma same_graph_refl [simp]: "same_graph g g"
  by (simp add: same_graph_def)

lemma same_graph_trans: "same_graph f g \<Longrightarrow> same_graph g h \<Longrightarrow> same_graph f h"
  by (simp add: same_graph_def)

lemma same_graph_values: "same_graph g h \<Longrightarrow> graph_values h = graph_values g"
  by (simp add: same_graph_def graph_values_def fun_eq_iff)

definition took_effect :: "((resource_key \<Rightarrow> string option) \<Rightarrow> resource_key \<Rightarrow> string option) \<Rightarrow> graph_commit \<Rightarrow>
    stored_graph \<Rightarrow> stored_graph \<Rightarrow> bool" where
  "took_effect eff c g h \<longleftrightarrow>
     guard_ok c g \<and> graph_values h = eff (graph_values g) \<and>
     (\<exists>r. sg_guard h = Some r \<and> (\<forall>q. sg_guard g = Some q \<longrightarrow> q < r))"

text \<open>A store seen by a client that cannot rely on the answer: a commit leaves the graph as it is or takes
  effect, and then its guard held; other changes leave the graph alone.\<close>

locale shared_store =
  fixes snap :: "'s \<Rightarrow> stored_graph"
    and commits :: "graph_commit \<Rightarrow> 's \<Rightarrow> 's \<Rightarrow> bool"
    and quiet :: "'s \<Rightarrow> 's \<Rightarrow> bool"
    and eff :: "graph_commit \<Rightarrow> (resource_key \<Rightarrow> string option) \<Rightarrow> resource_key \<Rightarrow> string option"
    and inv :: "'s \<Rightarrow> bool"
  assumes commit_inv: "inv s \<Longrightarrow> commits c s t \<Longrightarrow> inv t"
    and commit_effect: "inv s \<Longrightarrow> commits c s t \<Longrightarrow>
      same_graph (snap s) (snap t) \<or> took_effect (eff c) c (snap s) (snap t)"
    and quiet_inv: "inv s \<Longrightarrow> quiet s t \<Longrightarrow> inv t"
    and quiet_same: "inv s \<Longrightarrow> quiet s t \<Longrightarrow> same_graph (snap s) (snap t)"
begin

definition moves :: "'s \<Rightarrow> 's \<Rightarrow> bool" where
  "moves s t \<longleftrightarrow> quiet s t \<or> (\<exists>c. commits c s t)"

definition later :: "'s \<Rightarrow> 's \<Rightarrow> bool" where
  "later = moves\<^sup>*\<^sup>*"

lemma later_refl [simp]: "later s s"
  by (simp add: later_def)

lemma later_step: "later s t \<Longrightarrow> moves t u \<Longrightarrow> later s u"
  by (simp add: later_def)

lemma later_inv: "later s t \<Longrightarrow> inv s \<Longrightarrow> inv t"
  unfolding later_def
  by (induction rule: rtranclp_induct) (auto simp: moves_def intro: commit_inv quiet_inv)

text \<open>The guard only grows, and identifies the graph.\<close>

lemma later_guard:
  assumes "later s t" and "inv s"
  shows "same_graph (snap s) (snap t) \<or>
    (\<exists>r. sg_guard (snap t) = Some r \<and> (\<forall>q. sg_guard (snap s) = Some q \<longrightarrow> q < r))"
  using assms(1) unfolding later_def
proof (induction rule: rtranclp_induct)
  case (step t u)
  have inv: "inv t" using step.hyps(1) assms(2) later_inv unfolding later_def by blast
  from step.hyps(2) have "same_graph (snap t) (snap u) \<or> (\<exists>c. took_effect (eff c) c (snap t) (snap u))"
    unfolding moves_def using commit_effect [OF inv] quiet_same [OF inv] by blast
  then show ?case
  proof (elim disjE exE)
    assume "same_graph (snap t) (snap u)"
    then show ?thesis using step.IH by (auto simp: same_graph_def)
  next
    fix c assume "took_effect (eff c) c (snap t) (snap u)"
    then obtain r where r: "sg_guard (snap u) = Some r" "\<forall>q. sg_guard (snap t) = Some q \<longrightarrow> q < r"
      by (auto simp: took_effect_def)
    have "q < r" if q: "sg_guard (snap s) = Some q" for q
    proof (cases "same_graph (snap s) (snap t)")
      case True
      then show ?thesis using q r(2) by (simp add: same_graph_def)
    next
      case False
      then obtain r' where "sg_guard (snap t) = Some r'" "q < r'" using step.IH q by auto
      then show ?thesis using r(2) by fastforce
    qed
    then show ?thesis using r(1) by blast
  qed
qed simp

text \<open>A commit that takes effect was planned on the graph it changes, whether or not the client hears of it.\<close>

lemma effect_on_planned:
  assumes "inv s" and "later s t" and "gc_expected_guard c = sg_guard (snap s)" and "took_effect (eff c) c (snap t) g"
  shows "same_graph (snap s) (snap t)"
  using later_guard [OF assms(2,1)] assms(3,4) by (auto simp: took_effect_def guard_ok_def)

end

sublocale graph_store \<subseteq> answering: shared_store snap "\<lambda>c s t. t = snd (cas c s)" "(=)"
  "\<lambda>c. mutate_values (gc_mutation c)" inv
proof unfold_locales
  fix s t c
  show "inv s \<Longrightarrow> t = snd (cas c s) \<Longrightarrow> inv t" using cas_inv by simp
  show "same_graph (snap s) (snap t) \<or> took_effect (mutate_values (gc_mutation c)) c (snap s) (snap t)"
    if "inv s" "t = snd (cas c s)"
  proof (cases "fst (cas c s)")
    case (Inl e)
    then show ?thesis using that(2) cas_error by simp
  next
    case (Inr r)
    then show ?thesis using that cas_checks [OF Inr] cas_effect [OF Inr] cas_fresh [OF that(1) Inr]
      by (auto simp: took_effect_def)
  qed
qed simp_all

section \<open>etcd as such a store\<close>

text \<open>A resource whose identifier starts with a dot is written under a key that snapshots take for
  metadata: a commit on it changes the guard and nothing else that a snapshot shows.\<close>

definition seen_mutation :: "graph_commit \<Rightarrow> (resource_key \<Rightarrow> string option) \<Rightarrow> resource_key \<Rightarrow> string option" where
  "seen_mutation c m = (if hidden (mutation_key (gc_mutation c)) then m else mutate_values (gc_mutation c) m)"

text \<open>The revision of an existing key is positive: no client expects the guard at revision 0, which would
  compare as absent.\<close>

definition es_commits :: "'e etcd_service \<Rightarrow> string \<Rightarrow> graph_commit \<Rightarrow> 'e \<Rightarrow> 'e \<Rightarrow> bool" where
  "es_commits E p c s t \<longleftrightarrow> key_wf (mutation_key (gc_mutation c)) \<and> gc_expected_guard c \<noteq> Some 0 \<and> (\<exists>f. t = snd (es_compare_and_swap E p f c s))"

text \<open>Other clients of the same etcd write outside the namespace.\<close>

definition es_quiet :: "'e etcd_service \<Rightarrow> ('e \<Rightarrow> bool) \<Rightarrow> string \<Rightarrow> 'e \<Rightarrow> 'e \<Rightarrow> bool" where
  "es_quiet E I p s t \<longleftrightarrow> I t \<and> (\<forall>key. starts_with p key \<longrightarrow> ev_get E key t = ev_get E key s)"

definition es_inv :: "'e etcd_service \<Rightarrow> ('e \<Rightarrow> bool) \<Rightarrow> string \<Rightarrow> 'e \<Rightarrow> bool" where
  "es_inv E I p s \<longleftrightarrow> etcd_ok E I \<and> utf8_valid p \<and> I s \<and> (\<exists>g. es_snapshot E p (Replied True) s = Inr g)"

lemma es_invD:
  assumes "es_inv E I p s"
  shows "etcd_reads E s" and "utf8_valid p" and "I s" and "es_snapshot E p (Replied True) s = Inr (graph_at E p s)"
  using assms by (auto simp: es_inv_def etcd_ok_def graph_at_def)

definition commit_ops :: "string \<Rightarrow> graph_commit \<Rightarrow> etcd_op list" where
  "commit_ops p c =
     [case gc_mutation c of MPut k v \<Rightarrow> OpPut (p @ logical_path k) v | MDelete k \<Rightarrow> OpDelete (p @ logical_path k),
      OpPut (p @ GRAPH_REVISION_KEY) GRAPH_PROTOCOL_VERSION]"

definition commit_compares :: "string \<Rightarrow> graph_commit \<Rightarrow> etcd_compare list" where
  "commit_compares p c =
     [expects (p @ logical_path (mutation_key (gc_mutation c))) (gc_expected_target c),
      expects (p @ GRAPH_REVISION_KEY) (gc_expected_guard c)]"

lemma es_cas_txn:
  "es_compare_and_swap E p f c s =
     (let (ok, t) = ev_txn E (commit_compares p c) (commit_ops p c) s
      in case f of
           NotConnected e \<Rightarrow> (map_err (\<lambda>e. case e of PE_CasConflict _ \<Rightarrow> Conflict | other \<Rightarrow> Unavailable other) (Inl e), s)
         | RequestLost cause \<Rightarrow> (Inl (Unavailable (etcd_error_with_cause ''graph transaction failed'' cause)), s)
         | ReplyLost cause \<Rightarrow> (Inl (Unavailable (etcd_error_with_cause ''graph transaction failed'' cause)), t)
         | Replied header \<Rightarrow>
             (if \<not> ok then Inl Conflict
              else if header then Inr (ev_revision E t)
              else Inl (Unavailable (PE_Etcd ''graph transaction: missing response header'')), t))"
  by (cases "gc_mutation c")
    (auto simp: es_compare_and_swap_def graph_txn_def with_prefix_path with_prefix_guard commit_ops_def commit_compares_def
      etcd_error_with_cause_def Let_def split: fate.split prod.split)

text \<open>A transaction that writes.\<close>

definition commit_kv :: "'e etcd_service \<Rightarrow> string \<Rightarrow> graph_commit \<Rightarrow> 'e \<Rightarrow> string \<Rightarrow> etcd_kv option" where
  "commit_kv E p c s = fold (op_effect (ev_revision E s + 1)) (commit_ops p c) (\<lambda>k. ev_get E k s)"

lemma commit_txn:
  assumes "es_inv E I p s" and "ev_txn E (commit_compares p c) (commit_ops p c) s = (ok, t)"
  shows "I t" and "ok \<longleftrightarrow> list_all (compare_holds (\<lambda>k. ev_get E k s)) (commit_compares p c)" and "\<not> ok \<Longrightarrow> t = s"
    and "ok \<Longrightarrow> ev_revision E t = ev_revision E s + 1 \<and> (\<lambda>k. ev_get E k t) = commit_kv E p c s"
proof -
  have ok: "etcd_ok E I" "I s" using assms(1) by (simp_all add: es_inv_def)
  have "distinct (map op_key (commit_ops p c))"
    using path_not_guard [of p] by (simp add: commit_ops_def split: stored_mutation.split)
  moreover have "\<exists>k v. OpPut k v \<in> set (commit_ops p c)" by (auto simp: commit_ops_def)
  ultimately have "etcd_writes E s (commit_compares p c) (commit_ops p c)" "I t"
    using ok assms(2) unfolding etcd_ok_def by (blast, metis snd_conv)
  then show "I t" "ok \<longleftrightarrow> list_all (compare_holds (\<lambda>k. ev_get E k s)) (commit_compares p c)" "\<not> ok \<Longrightarrow> t = s"
    "ok \<Longrightarrow> ev_revision E t = ev_revision E s + 1 \<and> (\<lambda>k. ev_get E k t) = commit_kv E p c s"
    using assms(2) by (simp_all add: etcd_writes_def commit_kv_def Let_def)
qed

lemma commit_kv_elsewhere:
  "key \<noteq> p @ logical_path (mutation_key (gc_mutation c)) \<Longrightarrow> key \<noteq> p @ GRAPH_REVISION_KEY \<Longrightarrow>
   commit_kv E p c s key = ev_get E key s"
  by (cases "gc_mutation c") (simp_all add: commit_kv_def commit_ops_def)

lemma commit_kv_guard:
  "\<exists>r. commit_kv E p c s (p @ GRAPH_REVISION_KEY) = Some
     \<lparr>kv_key = p @ GRAPH_REVISION_KEY, kv_value = GRAPH_PROTOCOL_VERSION, kv_create = r, kv_mod = ev_revision E s + 1\<rparr>"
  by (simp add: commit_kv_def commit_ops_def)

lemma commit_kv_target:
  "map_option kv_value (commit_kv E p c s (p @ logical_path (mutation_key (gc_mutation c)))) =
     (case gc_mutation c of MPut k v \<Rightarrow> Some v | MDelete k \<Rightarrow> None)"
  using path_not_guard [of p] by (cases "gc_mutation c") (simp_all add: commit_kv_def commit_ops_def)

lemma commit_kv_key: "commit_kv E p c s (p @ logical_path (mutation_key (gc_mutation c))) = Some kv \<Longrightarrow>
    kv_key kv = p @ logical_path (mutation_key (gc_mutation c))"
  using path_not_guard [of p] by (cases "gc_mutation c") (auto simp: commit_kv_def commit_ops_def)

lemma graph_at_is:
  assumes "es_inv E I p s"
  shows "map_of (sg_resources (graph_at E p s)) k =
      (if visible k then map_option stored_of (ev_get E (p @ logical_path k) s) else None)"
    and "sg_guard (graph_at E p s) = map_option kv_mod (ev_get E (p @ GRAPH_REVISION_KEY) s)"
    and "sg_revision (graph_at E p s) = ev_revision E s" and "distinct_keys (sg_resources (graph_at E p s))"
    and "graph_values (graph_at E p s) k = (if visible k then map_option kv_value (ev_get E (p @ logical_path k) s) else None)"
  using snapshot_is [OF es_invD(2,1,4) [OF assms]]
  by (auto simp: graph_values_def stored_of_def option.map_comp comp_def)

text \<open>The guard comparison of the transaction is the one of a graph.\<close>

lemma compare_guard:
  assumes "es_inv E I p s" and "list_all (compare_holds (\<lambda>k. ev_get E k s)) (commit_compares p c)"
    and "gc_expected_guard c \<noteq> Some 0"
  shows "guard_ok c (graph_at E p s)"
proof -
  have r: "ev_get E key s = Some kv \<Longrightarrow> 0 < kv_create kv \<and> kv_create kv \<le> kv_mod kv" for key kv
    using es_invD(1) [OF assms(1)] by (auto simp: etcd_reads_def)
  have pos: "ev_get E key s = Some kv \<Longrightarrow> kv_create kv \<noteq> 0" for key kv using r by fastforce
  have "compare_holds (\<lambda>k. ev_get E k s) (expects (p @ GRAPH_REVISION_KEY) (gc_expected_guard c))"
    using assms(2) by (simp add: commit_compares_def)
  then show ?thesis using pos r assms(3)
    by (auto simp: guard_ok_def graph_at_is(2) [OF assms(1)] expects_def split: option.splits)
qed

lemma committed_snapshot:
  assumes inv: "es_inv E I p s" and wf: "key_wf (mutation_key (gc_mutation c))" "gc_expected_guard c \<noteq> Some 0"
    and txn: "ev_txn E (commit_compares p c) (commit_ops p c) s = (True, t)"
  shows "es_inv E I p t" and "took_effect (seen_mutation c) c (graph_at E p s) (graph_at E p t)"
proof -
  let ?k = "mutation_key (gc_mutation c)"
  note t = commit_txn [OF inv txn]
  have get: "ev_get E key t = commit_kv E p c s key" for key using t(4) by (metis TrueI)
  have rev: "ev_revision E t = ev_revision E s + 1" using t(4) by blast
  have ok: "etcd_ok E I" and p: "utf8_valid p" using inv by (simp_all add: es_inv_def)
  have reads: "etcd_reads E t" using ok t(1) by (simp add: etcd_ok_def)
  have entries: "entry_ok p kv" if kv: "ev_get E key s = Some kv" "starts_with p key" for key kv
    using snapshot_iff [OF p es_invD(1) [OF inv]] inv kv unfolding es_inv_def by blast
  have "entry_ok p kv" if kv: "ev_get E key t = Some kv" "starts_with p key" for key kv
  proof -
    consider "key = p @ logical_path ?k" | "key = p @ GRAPH_REVISION_KEY"
      | "key \<noteq> p @ logical_path ?k" "key \<noteq> p @ GRAPH_REVISION_KEY" by blast
    then show ?thesis
    proof cases
      case 1
      then have "kv_key kv = p @ logical_path ?k" using commit_kv_key [of E p c s kv] kv(1) get by simp
      then show ?thesis using wf(1) path_not_guard [of p ?k] by (auto simp: entry_ok_def)
    next
      case 2
      then show ?thesis using commit_kv_guard [of E p c s] kv(1) get by (auto simp: entry_ok_def validate_guard_value_def)
    next
      case 3
      have "ev_get E key s = Some kv" using kv(1) unfolding get commit_kv_elsewhere [OF 3] .
      then show ?thesis by (rule entries [OF _ kv(2)])
    qed
  qed
  then have "\<exists>g. es_snapshot E p (Replied True) t = Inr g" using snapshot_iff [OF p reads] by blast
  then show it: "es_inv E I p t" using ok p t(1) by (simp add: es_inv_def)
  have "guard_ok c (graph_at E p s)" using compare_guard [OF inv _ wf(2)] t(2) by blast
  moreover have "graph_values (graph_at E p t) = seen_mutation c (graph_values (graph_at E p s))"
  proof
    fix k
    show "graph_values (graph_at E p t) k = seen_mutation c (graph_values (graph_at E p s)) k"
    proof (cases "k = ?k")
      case True
      have "visible ?k = (\<not> hidden ?k)" using wf(1) by (simp add: visible_def)
      then show ?thesis using commit_kv_target [of E p c s] True
        by (cases "gc_mutation c") (simp_all add: graph_at_is(5) [OF it] graph_at_is(5) [OF inv] get seen_mutation_def)
    next
      case False
      then have "seen_mutation c m k = m k" for m by (cases "gc_mutation c") (auto simp: seen_mutation_def)
      moreover have "commit_kv E p c s (p @ logical_path k) = ev_get E (p @ logical_path k) s" if "visible k"
        using False that wf(1) path_inj [of k ?k] path_not_guard [of p k]
        by (intro commit_kv_elsewhere) (simp_all add: visible_def)
      ultimately show ?thesis by (simp add: graph_at_is(5) [OF it] graph_at_is(5) [OF inv] get)
    qed
  qed
  moreover have "sg_guard (graph_at E p t) = Some (ev_revision E s + 1)"
    using commit_kv_guard [of E p c s] by (auto simp: graph_at_is(2) [OF it] get)
  moreover have "q < ev_revision E s + 1" if q: "sg_guard (graph_at E p s) = Some q" for q
  proof -
    obtain kv where "ev_get E (p @ GRAPH_REVISION_KEY) s = Some kv" "kv_mod kv = q"
      using q by (auto simp: graph_at_is(2) [OF inv])
    then show ?thesis using es_invD(1) [OF inv] by (fastforce simp: etcd_reads_def)
  qed
  ultimately show "took_effect (seen_mutation c) c (graph_at E p s) (graph_at E p t)" by (simp add: took_effect_def)
qed

interpretation es: shared_store "graph_at E p" "es_commits E p" "es_quiet E I p" seen_mutation "es_inv E I p"
  for E :: "'e etcd_service" and I :: "'e \<Rightarrow> bool" and p :: string
proof unfold_locales
  fix s t :: 'e and c
  assume inv: "es_inv E I p s"
  {
    assume c: "es_commits E p c s t"
    then obtain f where f: "t = snd (es_compare_and_swap E p f c s)"
      and wf: "key_wf (mutation_key (gc_mutation c))" "gc_expected_guard c \<noteq> Some 0" by (auto simp: es_commits_def)
    obtain ok u where u: "ev_txn E (commit_compares p c) (commit_ops p c) s = (ok, u)" by fastforce
    have "t = s \<or> t = u \<and> ok"
      using f commit_txn(3) [OF inv u] by (cases f; cases ok) (auto simp: es_cas_txn u split: if_splits)
    then have "t = s \<or> es_inv E I p t \<and> took_effect (seen_mutation c) c (graph_at E p s) (graph_at E p t)"
      using committed_snapshot [OF inv wf] u by auto
    then show "es_inv E I p t"
      and "same_graph (graph_at E p s) (graph_at E p t) \<or> took_effect (seen_mutation c) c (graph_at E p s) (graph_at E p t)"
      using inv by auto
  next
    assume q: "es_quiet E I p s t"
    have reads: "etcd_reads E t" using q inv by (simp add: es_quiet_def es_inv_def etcd_ok_def)
    have "entry_ok p kv" if "ev_get E key t = Some kv" "starts_with p key" for key kv
      using snapshot_iff [OF es_invD(2,1) [OF inv]] inv q that unfolding es_inv_def es_quiet_def by metis
    then have "\<exists>g. es_snapshot E p (Replied True) t = Inr g" using snapshot_iff [OF es_invD(2) [OF inv] reads] by blast
    then show it: "es_inv E I p t" using inv q by (simp add: es_inv_def es_quiet_def)
    have "ev_get E (p @ r) t = ev_get E (p @ r) s" for r using q by (simp add: es_quiet_def starts_with_iff)
    then show "same_graph (graph_at E p s) (graph_at E p t)"
      by (simp add: same_graph_def fun_eq_iff graph_at_is(1,2) [OF it] graph_at_is(1,2) [OF inv])
  }
qed

section \<open>Admin requests over etcd\<close>

text \<open>Any number of Admin requests in flight: each takes a snapshot and plans its commit, and sends it
  later; whatever the fate of the call. Meanwhile other clients write outside the namespace.\<close>

inductive etcd_admin_step :: "'e etcd_service \<Rightarrow> ('e \<Rightarrow> bool) \<Rightarrow> string \<Rightarrow> ('p, 'c) externals \<Rightarrow> 'k cipher \<Rightarrow> 'k list option \<Rightarrow>
    'e \<times> (nat \<Rightarrow> graph_commit option) \<Rightarrow> 'e \<times> (nat \<Rightarrow> graph_commit option) \<Rightarrow> bool"
  for E I p X ci kr where
  es_observe: "es_snapshot E p (Replied True) s = Inr g \<Longrightarrow> planned X ci kr g c \<Longrightarrow> key_wf (mutation_key (gc_mutation c)) \<Longrightarrow>
    etcd_admin_step E I p X ci kr (s, q) (s, q(client \<mapsto> c))"
| es_commit: "q client = Some c \<Longrightarrow> es_compare_and_swap E p f c s = (res, t) \<Longrightarrow>
    etcd_admin_step E I p X ci kr (s, q) (t, q(client := None))"
| es_outside: "es_quiet E I p s t \<Longrightarrow> etcd_admin_step E I p X ci kr (s, q) (t, q)"

definition etcd_reachable :: "'e etcd_service \<Rightarrow> ('e \<Rightarrow> bool) \<Rightarrow> string \<Rightarrow> ('p, 'c) externals \<Rightarrow> 'k cipher \<Rightarrow> 'k list option \<Rightarrow>
    'e \<Rightarrow> 'e \<Rightarrow> (nat \<Rightarrow> graph_commit option) \<Rightarrow> bool" where
  "etcd_reachable E I p X ci kr s0 s q \<longleftrightarrow> (etcd_admin_step E I p X ci kr)\<^sup>*\<^sup>* (s0, \<lambda>_. None) (s, q)"

text \<open>An empty namespace.\<close>

definition es_start :: "'e etcd_service \<Rightarrow> ('e \<Rightarrow> bool) \<Rightarrow> string \<Rightarrow> 'e \<Rightarrow> bool" where
  "es_start E I p s \<longleftrightarrow> etcd_ok E I \<and> I s \<and> utf8_valid p \<and> (\<forall>key. starts_with p key \<longrightarrow> ev_get E key s = None)"

definition in_flight_ok :: "'e etcd_service \<Rightarrow> ('e \<Rightarrow> bool) \<Rightarrow> string \<Rightarrow> ('p, 'c) externals \<Rightarrow> 'k cipher \<Rightarrow> 'k list option \<Rightarrow>
    'e \<Rightarrow> graph_commit \<Rightarrow> bool" where
  "in_flight_ok E I p X ci kr s c \<longleftrightarrow>
     (\<exists>s0. es_inv E I p s0 \<and> planned X ci kr (graph_at E p s0) c \<and> key_wf (mutation_key (gc_mutation c)) \<and> es.later E p I s0 s)"

definition etcd_admin_inv :: "'e etcd_service \<Rightarrow> ('e \<Rightarrow> bool) \<Rightarrow> string \<Rightarrow> ('p, 'c) externals \<Rightarrow> 'k cipher \<Rightarrow> 'k list option \<Rightarrow>
    'e \<Rightarrow> (nat \<Rightarrow> graph_commit option) \<Rightarrow> bool" where
  "etcd_admin_inv E I p X ci kr s q \<longleftrightarrow>
     es_inv E I p s \<and> graph_admitted X ci kr PreserveStored (graph_values (graph_at E p s)) \<and>
     (\<forall>client c. q client = Some c \<longrightarrow> in_flight_ok E I p X ci kr s c)"

lemma etcd_inv_start: "es_start E I p s \<Longrightarrow> etcd_admin_inv E I p X ci kr s (\<lambda>_. None)"
proof -
  assume s: "es_start E I p s"
  have reads: "etcd_reads E s" using s by (simp add: es_start_def etcd_ok_def)
  have "\<exists>g. es_snapshot E p (Replied True) s = Inr g"
    unfolding snapshot_iff [OF conjunct1 [OF conjunct2 [OF conjunct2 [OF s [unfolded es_start_def]]]] reads]
    using s by (auto simp: es_start_def)
  then have inv: "es_inv E I p s" using s by (simp add: es_inv_def es_start_def)
  have "graph_values (graph_at E p s) = (\<lambda>_. None)"
    using s by (simp add: fun_eq_iff graph_at_is(5) [OF inv] es_start_def starts_with_iff)
  then show ?thesis using inv by (simp add: etcd_admin_inv_def graph_admitted_def)
qed

lemma planned_guard_positive:
  assumes "es_inv E I p s" and "planned X ci kr (graph_at E p s) c"
  shows "gc_expected_guard c = sg_guard (graph_at E p s)" and "gc_expected_guard c \<noteq> Some 0"
proof -
  show g: "gc_expected_guard c = sg_guard (graph_at E p s)" by (rule admin.planned_guard [OF assms(2)])
  have "0 < kv_mod kv" if kv: "ev_get E key s = Some kv" for key kv
    using es_invD(1) [OF assms(1)] kv by (fastforce simp: etcd_reads_def)
  then show "gc_expected_guard c \<noteq> Some 0" unfolding g graph_at_is(2) [OF assms(1)] by fastforce
qed

text \<open>A commit in flight, when it is sent.\<close>

lemma flight_lands:
  assumes inv: "etcd_admin_inv E I p X ci kr s q" and c: "q client = Some c" and t: "es_compare_and_swap E p f c s = (res, t)"
  shows "es_commits E p c s t" and "es_inv E I p t"
    and "same_graph (graph_at E p s) (graph_at E p t) \<or>
      (\<exists>g. planned X ci kr g c \<and> same_graph g (graph_at E p s) \<and> distinct_keys (sg_resources g) \<and>
        took_effect (seen_mutation c) c (graph_at E p s) (graph_at E p t))"
proof -
  have s: "es_inv E I p s" using inv by (simp add: etcd_admin_inv_def)
  obtain s0 where s0: "es_inv E I p s0" "planned X ci kr (graph_at E p s0) c" "key_wf (mutation_key (gc_mutation c))"
      "es.later E p I s0 s" using inv c by (auto simp: etcd_admin_inv_def in_flight_ok_def)
  show commits: "es_commits E p c s t"
    using s0(3) planned_guard_positive(2) [OF s0(1,2)] t by (auto simp: es_commits_def) (metis snd_conv)
  show "es_inv E I p t" by (rule es.commit_inv [OF s commits])
  from es.commit_effect [OF s commits] show "same_graph (graph_at E p s) (graph_at E p t) \<or>
      (\<exists>g. planned X ci kr g c \<and> same_graph g (graph_at E p s) \<and> distinct_keys (sg_resources g) \<and>
        took_effect (seen_mutation c) c (graph_at E p s) (graph_at E p t))"
    using es.effect_on_planned [OF s0(1,4) planned_guard_positive(1) [OF s0(1,2)]] s0(2) graph_at_is(4) [OF s0(1)] by blast
qed

lemma flight_planned:
  assumes inv: "etcd_admin_inv E I p X ci kr s q" and c: "q client = Some c"
    and eff: "took_effect (seen_mutation c) c (graph_at E p s) g'"
  shows "\<exists>g. planned X ci kr g c \<and> same_graph g (graph_at E p s) \<and> distinct_keys (sg_resources g)"
proof -
  obtain s0 where s0: "es_inv E I p s0" "planned X ci kr (graph_at E p s0) c" "es.later E p I s0 s"
    using inv c by (auto simp: etcd_admin_inv_def in_flight_ok_def)
  show ?thesis
    using es.effect_on_planned [OF s0(1,3) planned_guard_positive(1) [OF s0(1,2)] eff] s0(2) graph_at_is(4) [OF s0(1)] by blast
qed

lemma planned_admitted:
  assumes "planned X ci kr g c" and "distinct_keys (sg_resources g)"
  shows "graph_admitted X ci kr PreserveStored (mutate_values (gc_mutation c) (graph_values g))"
  using assms(1) unfolding planned_def
proof (elim disjE exE)
  fix key v assume "prepare_put X ci kr g key v = Some (Inr c)"
  then obtain stored where "plan_put_mutation X ci kr g key stored = Inr c" using prepare_put_plan by blast
  then show ?thesis by (rule plan_put_Inr(3) [OF _ assms(2)])
next
  fix key assume "plan_delete_mutation X ci kr g key = Inr c"
  then show ?thesis by (rule plan_delete_Inr(3) [OF _ assms(2)])
qed

lemma flight_later:
  assumes "in_flight_ok E I p X ci kr s d" and "es.moves E p I s t"
  shows "in_flight_ok E I p X ci kr t d"
proof -
  obtain s0 where s0: "es_inv E I p s0" "planned X ci kr (graph_at E p s0) d" "key_wf (mutation_key (gc_mutation d))"
    "es.later E p I s0 s" using assms(1) unfolding in_flight_ok_def by blast
  from es.later_step [OF s0(4) assms(2)] show ?thesis unfolding in_flight_ok_def using s0(1-3) by (intro exI [of _ s0] conjI)
qed

lemma etcd_inv_step:
  assumes "etcd_admin_step E I p X ci kr (s, q) (t, q')" and inv: "etcd_admin_inv E I p X ci kr s q"
  shows "etcd_admin_inv E I p X ci kr t q'"
  using assms(1)
proof (cases rule: etcd_admin_step.cases)
  case (es_observe g c client)
  have s: "es_inv E I p s" using inv by (simp add: etcd_admin_inv_def)
  have g: "g = graph_at E p s" using es_observe(3) by (simp add: graph_at_def)
  have "in_flight_ok E I p X ci kr s c"
    unfolding in_flight_ok_def using s es_observe(4,5) es.later_refl [of E p I s] unfolding g by (intro exI [of _ s] conjI)
  then show ?thesis using inv es_observe(1,2) by (auto simp: etcd_admin_inv_def)
next
  case (es_commit client c f res)
  note land = flight_lands [OF inv es_commit(2,3)]
  have "es.moves E p I s t" unfolding es.moves_def using land(1) by blast
  note flights = flight_later [OF _ this]
  from land(3) have "graph_admitted X ci kr PreserveStored (graph_values (graph_at E p t))"
  proof (elim disjE exE conjE)
    assume "same_graph (graph_at E p s) (graph_at E p t)"
    then show ?thesis using inv by (simp add: same_graph_values etcd_admin_inv_def)
  next
    fix g assume g: "planned X ci kr g c" "same_graph g (graph_at E p s)" "distinct_keys (sg_resources g)"
      "took_effect (seen_mutation c) c (graph_at E p s) (graph_at E p t)"
    show ?thesis
    proof (cases "hidden (mutation_key (gc_mutation c))")
      case True
      then show ?thesis using g(4) inv by (simp add: took_effect_def seen_mutation_def etcd_admin_inv_def)
    next
      case False
      then show ?thesis using g(4) planned_admitted [OF g(1,3)] same_graph_values [OF g(2)]
        by (simp add: took_effect_def seen_mutation_def)
    qed
  qed
  then show ?thesis using land(2) inv es_commit(1) by (auto simp: etcd_admin_inv_def intro: flights split: if_splits)
next
  case es_outside
  have s: "es_inv E I p s" using inv by (simp add: etcd_admin_inv_def)
  have "es.moves E p I s t" unfolding es.moves_def using es_outside(2) by blast
  note flights = flight_later [OF _ this]
  show ?thesis using inv es_outside(1) es.quiet_inv [OF s es_outside(2)] same_graph_values [OF es.quiet_same [OF s es_outside(2)]]
    by (auto simp: etcd_admin_inv_def intro: flights)
qed

lemma etcd_inv_reachable:
  assumes "es_start E I p s0" and "etcd_reachable E I p X ci kr s0 s q"
  shows "etcd_admin_inv E I p X ci kr s q"
proof -
  have "(etcd_admin_step E I p X ci kr)\<^sup>*\<^sup>* (s0, \<lambda>_. None) z \<Longrightarrow> etcd_admin_inv E I p X ci kr (fst z) (snd z)" for z
  proof (induction rule: rtranclp_induct)
    case base
    show ?case using etcd_inv_start [OF assms(1)] by simp
  next
    case (step y z)
    show ?case by (rule etcd_inv_step [OF _ step.IH]) (use step.hyps(2) in simp)
  qed
  then show ?thesis using assms(2) unfolding etcd_reachable_def by fastforce
qed

text \<open>What an answer says: a refusal changed nothing, and an acceptance carried the commit out under the
  revision it names.\<close>

lemma answered_commit:
  assumes inv: "es_inv E I p s" and wf: "key_wf (mutation_key (gc_mutation c))" "gc_expected_guard c \<noteq> Some 0"
    and t: "es_compare_and_swap E p f c s = (res, t)"
  shows "res = Inl Conflict \<Longrightarrow> t = s"
    and "res = Inr r \<Longrightarrow> took_effect (seen_mutation c) c (graph_at E p s) (graph_at E p t) \<and> sg_guard (graph_at E p t) = Some r"
proof -
  obtain ok u where u: "ev_txn E (commit_compares p c) (commit_ops p c) s = (ok, u)" by fastforce
  note txn = commit_txn [OF inv u]
  show "t = s" if "res = Inl Conflict"
    using t that txn(3) by (cases f; cases ok) (auto simp: es_cas_txn u etcd_error_with_cause_def map_err_def split: if_splits)
  show "took_effect (seen_mutation c) c (graph_at E p s) (graph_at E p t) \<and> sg_guard (graph_at E p t) = Some r"
    if "res = Inr r"
  proof -
    have ok: ok "u = t" "r = ev_revision E t"
      using t that by (cases f; cases ok; auto simp: es_cas_txn u map_err_def split: if_splits)+
    then have run: "ev_txn E (commit_compares p c) (commit_ops p c) s = (True, t)" using u by simp
    note land = committed_snapshot [OF inv wf run]
    have get: "ev_get E key t = commit_kv E p c s key" for key using txn(4) ok by (metis)
    have "sg_guard (graph_at E p t) = Some (ev_revision E s + 1)"
      using commit_kv_guard [of E p c s] by (auto simp: graph_at_is(2) [OF land(1)] get)
    then show ?thesis using land(2) ok txn(4) by auto
  qed
qed

text \<open>C3: Admin writes through etcd are serialisable although calls fail. When a commit is answered Ok it changed
  the graph, by itself alone and planned on the very graph it changed, under the revision it was answered
  with; when it is refused it changed nothing; and when the call fails - lost on its way, or carried out with
  its answer lost - one of the two is true. A commit on an identifier that starts with a dot changes nothing
  that a snapshot shows.\<close>

theorem etcd_writes_serialisable:
  assumes "es_start E I p s0" and "etcd_reachable E I p X ci kr s0 s q" and "q client = Some c"
    and "es_compare_and_swap E p f c s = (res, t)"
  shows "let changed = (\<exists>g. planned X ci kr g c \<and> same_graph g (graph_at E p s)) \<and>
           graph_values (graph_at E p t) = seen_mutation c (graph_values (graph_at E p s))
    in case res of
         Inr r \<Rightarrow> changed \<and> sg_guard (graph_at E p t) = Some r
       | Inl Conflict \<Rightarrow> t = s
       | Inl _ \<Rightarrow> same_graph (graph_at E p s) (graph_at E p t) \<or> changed"
proof -
  note inv = etcd_inv_reachable [OF assms(1,2)]
  note lands = flight_lands [OF inv assms(3,4)]
  have s: "es_inv E I p s" using inv by (simp add: etcd_admin_inv_def)
  have wf: "key_wf (mutation_key (gc_mutation c))" "gc_expected_guard c \<noteq> Some 0" using lands(1) by (simp_all add: es_commits_def)
  note answer = answered_commit [OF s wf assms(4)]
  let ?planned = "\<exists>g. planned X ci kr g c \<and> same_graph g (graph_at E p s)"
  have "?planned" if eff: "took_effect (seen_mutation c) c (graph_at E p s) (graph_at E p t)"
    using flight_planned [OF inv assms(3) eff] by blast
  then show ?thesis using lands(3) answer
    by (auto simp: Let_def took_effect_def split: sum.split store_error.split)
qed

text \<open>C5: Every graph the clients ever leave in etcd can be read as a snapshot and passes the whole-graph
  gate, also after commits whose answer was lost.\<close>

theorem etcd_graph_always_valid:
  assumes "es_start E I p s0" and "etcd_reachable E I p X ci kr s0 s q"
  shows "\<exists>g. es_snapshot E p (Replied True) s = Inr g \<and> graph_admitted X ci kr PreserveStored (graph_values g)"
proof -
  have inv: "etcd_admin_inv E I p X ci kr s q" by (rule etcd_inv_reachable [OF assms])
  then have "es_snapshot E p (Replied True) s = Inr (graph_at E p s)" using es_invD(4) [of E I p s] by (simp add: etcd_admin_inv_def)
  then show ?thesis using inv by (auto simp: etcd_admin_inv_def)
qed

section \<open>Keys and single reads\<close>

text \<open>Cutting ASCII text off the end keeps text valid.\<close>

lemma rest_ok_front: "rest_ok k n (cs @ a # r) = Whole m \<Longrightarrow> is_ascii a \<Longrightarrow> rest_ok k n cs = Whole m"
proof (induction k n cs rule: rest_ok.induct)
  case (2 k n)
  then show ?case by (simp add: ascii_not_continuation)
qed (auto split: if_splits)

lemma step_front:
  assumes "utf8_step b (bs @ a # r) = Whole m" and "is_ascii a"
  shows "utf8_step b bs = Whole m"
proof (cases bs)
  case Nil
  have "\<not> second_ok (byte b) (byte a)" using assms(2) by (simp add: second_ok_def byte_def is_ascii_def)
  then show ?thesis using assms(1) Nil by (simp add: utf8_step_def Let_def split: if_splits)
next
  case (Cons c cs)
  then show ?thesis using assms rest_ok_front [of 2 _ cs a r m] by (auto simp: utf8_step_def Let_def split: if_splits)
qed

lemma utf8_valid_front:
  assumes "utf8_valid (t @ r)" and "\<forall>c \<in> set r. is_ascii c"
  shows "utf8_valid t"
  using assms(1)
proof (induction "length t" arbitrary: t rule: less_induct)
  case less
  show ?case
  proof (cases t)
    case (Cons b bs)
    show ?thesis
    proof (cases r)
      case (Cons a as)
      obtain n where n: "utf8_step b (bs @ r) = Whole n" "utf8_valid (drop n (b # bs @ r))"
        using less.prems \<open>t = b # bs\<close> utf8_valid_Cons [of b "bs @ r"] by auto
      have step: "utf8_step b bs = Whole n" by (rule step_front [of b bs a as]) (use n(1) assms(2) Cons in auto)
      have "length (drop n t) < length t" using utf8_step_length [of b bs] step \<open>t = b # bs\<close> by simp
      moreover have "utf8_valid (drop n t @ r)" using n(2) whole_drop_append(1) [OF step, of r] \<open>t = b # bs\<close> by simp
      ultimately have "utf8_valid (drop n t)" by (rule less.hyps)
      then show ?thesis using step \<open>t = b # bs\<close> utf8_valid_Cons [of b bs] by blast
    qed (use less.prems in simp)
  qed simp
qed

text \<open>C30: The key mapping of the namespace is exact: a key of etcd stands for a resource exactly when it is
  the namespace followed by the path of a well-formed resource key, so no two resources share a key,
  no key of a sibling namespace is read as a resource, and what is written under a resource's key is
  read back under that resource.\<close>

theorem key_mapping_exact:
  assumes "utf8_valid prefix"
  shows "physical_key_to_resource_key key (canonicalize_prefix prefix) = Inr k \<longleftrightarrow>
    key = with_prefix (canonicalize_prefix prefix) (logical_path k) \<and> key_wf k"
proof -
  let ?t = "rev (dropWhile (\<lambda>c. c = CHR ''/'') (rev prefix))"
  have "prefix = ?t @ rev (takeWhile (\<lambda>c. c = CHR ''/'') (rev prefix))"
    by (metis rev_append rev_rev_ident takeWhile_dropWhile_id)
  moreover have "\<forall>c \<in> set (rev (takeWhile (\<lambda>c. c = CHR ''/'') (rev prefix))). is_ascii c"
    by (auto simp: is_ascii_def dest: set_takeWhileD)
  ultimately have "utf8_valid ?t" using assms utf8_valid_front by metis
  then have "utf8_valid (canonicalize_prefix prefix)"
    using utf8_valid_append [of ?t "''/''"] ascii_valid [of "''/''"] by (simp add: canonicalize_prefix_def Let_def is_ascii_def)
  then show ?thesis using physical_key_exact by (simp add: with_prefix_path)
qed

text \<open>A single read agrees with the snapshot on every visible resource.\<close>

lemma get_exact_snapshot:
  assumes "es_inv E I p s" and "visible k"
  shows "es_get_exact E p (Replied header) k s = Inr (map_of (sg_resources (graph_at E p s)) k)"
  using assms by (simp add: es_get_exact_def read_reply_def with_prefix_path graph_at_is(1) Let_def)

section \<open>Identifiers that start with a dot\<close>

text \<open>C38: A resource whose identifier starts with a dot can be written once and never again. A single read
  finds it, but no snapshot shows it: it never runs, deleting it answers that there is none, and a
  second PUT expects its key to be absent and is refused as a conflict every time.\<close>

theorem hidden_resource_stuck:
  assumes inv: "es_inv E I p s" and "key_wf k" and hid: "hidden k"
    and kv: "ev_get E (with_prefix p (logical_path k)) s = Some kv"
  shows "es_get_exact E p (Replied header) k s = Inr (Some (stored_of kv)) \<and>
    graph_values (graph_at E p s) k = None \<and>
    plan_delete_mutation X ci kr (graph_at E p s) k = Inl (NotFound k) \<and>
    (\<forall>stored c. plan_put_mutation X ci kr (graph_at E p s) k stored = Inr c \<longrightarrow>
       es_compare_and_swap E p (Replied header) c s = (Inl Conflict, s))"
proof (intro conjI allI impI)
  have nv: "\<not> visible k" using hid by (simp add: visible_def)
  have none: "map_of (sg_resources (graph_at E p s)) k = None" using nv by (simp add: graph_at_is(1) [OF inv])
  show "es_get_exact E p (Replied header) k s = Inr (Some (stored_of kv))"
    using kv by (simp add: es_get_exact_def read_reply_def Let_def)
  show "graph_values (graph_at E p s) k = None" using none by (simp add: graph_values_def)
  show "plan_delete_mutation X ci kr (graph_at E p s) k = Inl (NotFound k)"
    using none by (simp add: plan_delete_mutation_def)
  fix stored c assume "plan_put_mutation X ci kr (graph_at E p s) k stored = Inr c"
  then have c: "gc_mutation c = MPut k stored" "gc_expected_target c = None" using none by (auto simp: plan_put_mutation_def Let_def)
  obtain ok t where txn: "ev_txn E (commit_compares p c) (commit_ops p c) s = (ok, t)" by fastforce
  have "0 < kv_create kv" using es_invD(1) [OF inv] kv by (simp add: etcd_reads_def)
  then have "\<not> compare_holds (\<lambda>k. ev_get E k s) (expects (p @ logical_path k) None)"
    using kv by (simp add: expects_def with_prefix_path)
  then have "\<not> ok" using commit_txn(2) [OF inv txn] c by (simp add: commit_compares_def)
  then show "es_compare_and_swap E p (Replied header) c s = (Inl Conflict, s)"
    using commit_txn(3) [OF inv txn] txn by (simp add: es_cas_txn)
qed

section \<open>An etcd in memory\<close>

record mem_etcd =
  me_kvs :: "etcd_kv list"
  me_rev :: int

definition mem_write :: "int \<Rightarrow> etcd_op \<Rightarrow> etcd_kv list \<Rightarrow> etcd_kv list" where
  "mem_write r x kvs =
     filter (\<lambda>kv. kv_key kv \<noteq> op_key x) kvs @
     (case x of
        OpPut k v \<Rightarrow> [\<lparr>kv_key = k, kv_value = v,
          kv_create = (case lookup_kv kvs k of Some kv \<Rightarrow> kv_create kv | None \<Rightarrow> r), kv_mod = r\<rparr>]
      | OpDelete k \<Rightarrow> [])"

definition mem_service :: "mem_etcd etcd_service" where
  "mem_service =
     \<lparr>ev_get = (\<lambda>k s. lookup_kv (me_kvs s) k), ev_range = (\<lambda>p s. filter (\<lambda>kv. starts_with p (kv_key kv)) (me_kvs s)),
      ev_revision = me_rev,
      ev_txn = (\<lambda>cs ops s.
        if list_all (compare_holds (lookup_kv (me_kvs s))) cs
        then (True, \<lparr>me_kvs = fold (mem_write (me_rev s + 1)) ops (me_kvs s), me_rev = me_rev s + 1\<rparr>) else (False, s))\<rparr>"

definition mem_ok :: "int \<Rightarrow> etcd_kv list \<Rightarrow> bool" where
  "mem_ok r kvs \<longleftrightarrow> distinct (map kv_key kvs) \<and> (\<forall>kv \<in> set kvs. 0 < kv_create kv \<and> kv_create kv \<le> kv_mod kv \<and> kv_mod kv \<le> r)"

definition mem_inv :: "mem_etcd \<Rightarrow> bool" where
  "mem_inv s \<longleftrightarrow> 0 \<le> me_rev s \<and> mem_ok (me_rev s) (me_kvs s)"

lemma lookup_kv_append: "lookup_kv (xs @ ys) k = (case lookup_kv xs k of None \<Rightarrow> lookup_kv ys k | Some kv \<Rightarrow> Some kv)"
  by (induction xs) simp_all

lemma lookup_kv_filter: "lookup_kv (filter (\<lambda>kv. kv_key kv \<noteq> k) xs) l = (if l = k then None else lookup_kv xs l)"
  by (induction xs) auto

lemma lookup_kv_Some: "distinct (map kv_key kvs) \<Longrightarrow> lookup_kv kvs k = Some kv \<longleftrightarrow> kv \<in> set kvs \<and> kv_key kv = k"
  by (induction kvs) (auto simp: image_iff)

lemma mem_write_lookup: "lookup_kv (mem_write r x kvs) = op_effect r x (lookup_kv kvs)"
  by (rule ext, cases x) (auto simp: mem_write_def lookup_kv_append lookup_kv_filter split: option.splits)

lemma mem_fold_lookup: "lookup_kv (fold (mem_write r) ops kvs) = fold (op_effect r) ops (lookup_kv kvs)"
  by (induction ops arbitrary: kvs) (simp_all add: mem_write_lookup)

lemma mem_write_ok:
  assumes "mem_ok r kvs" and "0 < r"
  shows "mem_ok r (mem_write r x kvs)"
proof -
  have old: "0 < (case lookup_kv kvs k of Some kv \<Rightarrow> kv_create kv | None \<Rightarrow> r) \<and>
      (case lookup_kv kvs k of Some kv \<Rightarrow> kv_create kv | None \<Rightarrow> r) \<le> r" for k
    using assms lookup_kv_Some [of kvs k] by (force simp: mem_ok_def split: option.splits)
  show ?thesis using assms old by (cases x) (auto simp: mem_ok_def mem_write_def distinct_map inj_on_def)
qed

lemma mem_fold_ok: "mem_ok r kvs \<Longrightarrow> 0 < r \<Longrightarrow> mem_ok r (fold (mem_write r) ops kvs)"
  by (induction ops arbitrary: kvs) (simp_all add: mem_write_ok)

lemma mem_etcd_ok: "etcd_ok mem_service mem_inv"
  unfolding etcd_ok_def
proof (intro allI impI conjI)
  fix s cs ops assume inv: "mem_inv s"
  show "etcd_reads mem_service s"
    using inv lookup_kv_Some [of "me_kvs s"] by (auto simp: etcd_reads_def mem_service_def mem_inv_def mem_ok_def distinct_map inj_on_def)
  have "mem_ok (me_rev s + 1) (me_kvs s)" using inv by (fastforce simp: mem_inv_def mem_ok_def)
  then have "mem_ok (me_rev s + 1) (fold (mem_write (me_rev s + 1)) ops (me_kvs s))"
    using inv by (intro mem_fold_ok) (simp_all add: mem_inv_def)
  then show "mem_inv (snd (ev_txn mem_service cs ops s))" using inv by (simp add: mem_service_def mem_inv_def)
  show "etcd_writes mem_service s cs ops"
    by (simp add: etcd_writes_def mem_service_def mem_fold_lookup)
qed

definition mem_empty :: mem_etcd where
  "mem_empty = \<lparr>me_kvs = [], me_rev = 0\<rparr>"

lemma mem_start: "es_start mem_service mem_inv ''/apisix/'' mem_empty"
proof -
  have "mem_inv mem_empty" by (simp add: mem_inv_def mem_ok_def mem_empty_def)
  moreover have "utf8_valid ''/apisix/''" by (rule ascii_valid) (simp add: is_ascii_def)
  ultimately show ?thesis using mem_etcd_ok by (simp add: es_start_def mem_service_def mem_empty_def)
qed

text \<open>The first PUT over etcd, its answer lost.\<close>

definition after_lost_reply :: mem_etcd where
  "after_lost_reply = snd (es_compare_and_swap mem_service ''/apisix/'' (ReplyLost ''timeout'') first_put mem_empty)"

lemma mem_first_planned:
  "etcd_admin_step mem_service mem_inv ''/apisix/'' sample_externals tag_cipher None (mem_empty, \<lambda>_. None)
     (mem_empty, (\<lambda>_. None)(0 \<mapsto> first_put))"
proof (rule es_observe [where g = "im_snapshot in_memory_new"])
  show "es_snapshot mem_service ''/apisix/'' (Replied True) mem_empty = Inr (im_snapshot in_memory_new)" by code_simp
  show "planned sample_externals tag_cipher None (im_snapshot in_memory_new) first_put" by (rule first_put_planned)
  show "key_wf (mutation_key (gc_mutation first_put))"
    by (simp add: first_put_def key_wf_def ascii_valid is_ascii_def)
qed

lemma mem_in_flight: "etcd_reachable mem_service mem_inv ''/apisix/'' sample_externals tag_cipher None mem_empty mem_empty
    ((\<lambda>_. None)(0 \<mapsto> first_put))"
  unfolding etcd_reachable_def using mem_first_planned by (rule r_into_rtranclp)

lemma mem_landed: "etcd_reachable mem_service mem_inv ''/apisix/'' sample_externals tag_cipher None mem_empty after_lost_reply
    (((\<lambda>_. None)(0 \<mapsto> first_put))(0 := None))"
proof -
  have "etcd_admin_step mem_service mem_inv ''/apisix/'' sample_externals tag_cipher None
      (mem_empty, (\<lambda>_. None)(0 \<mapsto> first_put)) (after_lost_reply, ((\<lambda>_. None)(0 \<mapsto> first_put))(0 := None))"
    by (rule es_commit [where f = "ReplyLost ''timeout''" and c = first_put
        and res = "fst (es_compare_and_swap mem_service ''/apisix/'' (ReplyLost ''timeout'') first_put mem_empty)"])
      (simp_all add: after_lost_reply_def)
  then show ?thesis using mem_in_flight unfolding etcd_reachable_def by (rule rtranclp.rtrancl_into_rtrancl [rotated])
qed

abbreviation mem_graph :: "mem_etcd \<Rightarrow> stored_graph" where
  "mem_graph \<equiv> graph_at mem_service ''/apisix/''"

text \<open>The client is told that the store is unavailable; its resource is there.\<close>

lemma etcd_writes_serialisable_witness:
  "fst (es_compare_and_swap mem_service ''/apisix/'' (ReplyLost ''timeout'') first_put mem_empty) =
     Inl (Unavailable (etcd_error_with_cause ''graph transaction failed'' ''timeout'')) \<and>
   graph_values (mem_graph after_lost_reply) = seen_mutation first_put (graph_values (mem_graph mem_empty)) \<and>
   graph_values (mem_graph after_lost_reply) \<lparr>rk_kind = KUpstream, rk_id = ''u1''\<rparr> = Some ''doc''"
proof -
  have res: "fst (es_compare_and_swap mem_service ''/apisix/'' (ReplyLost ''timeout'') first_put mem_empty) =
     Inl (Unavailable (etcd_error_with_cause ''graph transaction failed'' ''timeout''))" by code_simp
  have guard: "sg_guard (mem_graph after_lost_reply) = Some 1" "sg_guard (mem_graph mem_empty) = None" by code_simp+
  have "es_compare_and_swap mem_service ''/apisix/'' (ReplyLost ''timeout'') first_put mem_empty =
      (Inl (Unavailable (etcd_error_with_cause ''graph transaction failed'' ''timeout'')), after_lost_reply)"
    using res by (simp add: after_lost_reply_def prod_eq_iff)
  from etcd_writes_serialisable [OF mem_start mem_in_flight _ this, of 0] guard
  have "graph_values (mem_graph after_lost_reply) = seen_mutation first_put (graph_values (mem_graph mem_empty))"
    by (auto simp: same_graph_def Let_def)
  moreover have "graph_values (mem_graph after_lost_reply) \<lparr>rk_kind = KUpstream, rk_id = ''u1''\<rparr> = Some ''doc''" by code_simp
  ultimately show ?thesis using res by blast
qed

lemma etcd_graph_always_valid_witness:
  "\<exists>g. es_snapshot mem_service ''/apisix/'' (Replied True) after_lost_reply = Inr g \<and>
     graph_admitted sample_externals tag_cipher None PreserveStored (graph_values g)"
  by (rule etcd_graph_always_valid [OF mem_start mem_landed])

lemma key_mapping_exact_witness:
  "physical_key_to_resource_key ''/apisix/routes/1'' (canonicalize_prefix ''/apisix///'') = Inr \<lparr>rk_kind = KRoute, rk_id = ''1''\<rparr> \<and>
   physical_key_to_resource_key ''/apisix-other/routes/1'' (canonicalize_prefix ''/apisix'') \<noteq> Inr \<lparr>rk_kind = KRoute, rk_id = ''1''\<rparr>"
proof -
  have v: "utf8_valid ''/apisix///''" "utf8_valid ''/apisix''" by (rule ascii_valid; simp add: is_ascii_def)+
  have "with_prefix (canonicalize_prefix ''/apisix///'') (logical_path \<lparr>rk_kind = KRoute, rk_id = ''1''\<rparr>) = ''/apisix/routes/1''"
    "with_prefix (canonicalize_prefix ''/apisix'') (logical_path \<lparr>rk_kind = KRoute, rk_id = ''1''\<rparr>) = ''/apisix/routes/1''"
    by code_simp+
  moreover have "key_wf \<lparr>rk_kind = KRoute, rk_id = ''1''\<rparr>" by (simp add: key_wf_def ascii_valid is_ascii_def)
  ultimately show ?thesis using key_mapping_exact [OF v(1)] key_mapping_exact [OF v(2)] by simp
qed

definition dotted_put :: graph_commit where
  "dotted_put = \<lparr>gc_mutation = MPut \<lparr>rk_kind = KUpstream, rk_id = ''.x''\<rparr> ''doc'',
     gc_expected_target = None, gc_expected_guard = None\<rparr>"

definition after_dotted :: mem_etcd where
  "after_dotted = snd (es_compare_and_swap mem_service ''/apisix/'' (Replied True) dotted_put mem_empty)"

lemma hidden_resource_stuck_witness:
  "graph_values (mem_graph after_dotted) \<lparr>rk_kind = KUpstream, rk_id = ''.x''\<rparr> = None \<and>
   plan_delete_mutation sample_externals tag_cipher None (mem_graph after_dotted) \<lparr>rk_kind = KUpstream, rk_id = ''.x''\<rparr> =
     Inl (NotFound \<lparr>rk_kind = KUpstream, rk_id = ''.x''\<rparr>) \<and>
   is_ok (es_get_exact mem_service ''/apisix/'' (Replied True) \<lparr>rk_kind = KUpstream, rk_id = ''.x''\<rparr> after_dotted)"
proof -
  let ?k = "\<lparr>rk_kind = KUpstream, rk_id = ''.x''\<rparr>"
  have start: "es_inv mem_service mem_inv ''/apisix/'' mem_empty"
    using etcd_inv_start [OF mem_start, of sample_externals tag_cipher None] by (simp add: etcd_admin_inv_def)
  have wf: "key_wf ?k" by (simp add: key_wf_def ascii_valid is_ascii_def)
  have "es_commits mem_service ''/apisix/'' dotted_put mem_empty after_dotted"
    using wf by (auto simp: es_commits_def dotted_put_def after_dotted_def)
  then have inv: "es_inv mem_service mem_inv ''/apisix/'' after_dotted" by (rule es.commit_inv [OF start])
  have "ev_get mem_service (with_prefix ''/apisix/'' (logical_path ?k)) after_dotted =
      Some \<lparr>kv_key = ''/apisix/upstreams/.x'', kv_value = ''doc'', kv_create = 1, kv_mod = 1\<rparr>" by code_simp
  from hidden_resource_stuck [OF inv wf _ this, of True sample_externals tag_cipher None]
  show ?thesis by (simp add: hidden_def starts_with_def)
qed

end
