(* ===== verification/Etcd_Sync.thy ===== *)
theory Etcd_Sync
  imports Etcd_Store Publication
begin

text \<open>
  The synchronisation of a gateway with etcd (\<open>src/config/etcd/sync.rs\<close>, \<open>connect.rs\<close>): list and watch
  responses as inputs of the configuration graph, the classification of failures, and the loop of
  listing, watching and waiting as a state machine that runs beside the publication worker.

  What etcd answers is the argument of each step. The shutdown signal of pingora is only ever raised.
  Submission is taken as one step: the loop is the only one that ingests.
\<close>

section \<open>Watch events\<close>

record watch_event =
  we_kv :: "etcd_kv option"
  we_delete :: bool

fun changes_from :: "string \<Rightarrow> watch_event list \<Rightarrow> (resource_key \<times> stored_change) list \<Rightarrow>
    proxy_error + (resource_key \<times> stored_change) list" where
  "changes_from prefix [] final_by_key = Inr final_by_key"
| "changes_from prefix (e # es) final_by_key =
     (case we_kv e of
        None \<Rightarrow> Inl (PE_Configuration ''Etcd event missing key-value pair'')
      | Some kv \<Rightarrow>
          if is_metadata_key (kv_key kv) then changes_from prefix es final_by_key
          else if \<not> starts_with prefix (lossy (kv_key kv)) then changes_from prefix es final_by_key
          else sum_bind (map_err PE_Configuration (physical_key_to_resource_key (kv_key kv) prefix)) (\<lambda>k.
               changes_from prefix es
                 (AList.update k (if we_delete e then ChDelete k else ChPut k (stored_of kv)) final_by_key)))"

definition graph_changes_from_events :: "watch_event list \<Rightarrow> string \<Rightarrow> proxy_error + stored_change list" where
  "graph_changes_from_events events prefix =
     sum_bind (changes_from prefix events []) (\<lambda>final_by_key. Inr (map snd final_by_key))"

definition batch_revision :: "watch_event list \<Rightarrow> int" where
  "batch_revision events =
     (case map kv_mod (List.map_filter we_kv events) of [] \<Rightarrow> 0 | r # rs \<Rightarrow> fold max rs r)"

section \<open>Failures\<close>

datatype sync_error = Transport proxy_error | Data proxy_error

fun sync_error_display :: "sync_error \<Rightarrow> string" where
  "sync_error_display (Transport e) = proxy_error_display e"
| "sync_error_display (Data e) = proxy_error_display e"

fun is_data :: "graph_error \<Rightarrow> bool" where
  "is_data (InvalidCandidate _) = True"
| "is_data (InvalidResource _ _) = True"
| "is_data (Secret _ _ _) = True"
| "is_data _ = False"

text \<open>\<open>debug\<close> is the derived \<open>Debug\<close> of a store error.\<close>

definition classify_rejection :: "(store_error \<Rightarrow> string) \<Rightarrow> graph_error \<Rightarrow> sync_error" where
  "classify_rejection debug err =
     (let message = ''Configuration graph rejected input: '' @ graph_error_display debug err
      in if is_data err then Data (PE_Configuration message) else Transport (PE_Configuration message))"

section \<open>The loop\<close>

text \<open>\<open>SSleep\<close> waits for the retry delay of a list or of a watch.\<close>

datatype sync_phase = SList | SOpen | SWatch | SSleep | SDone

record ('q, 's) sync =
  sy_client :: bool
  sy_revision :: int
  sy_phase :: sync_phase
  sy_world :: "('q, 's) world"

definition on_status :: "(status \<Rightarrow> status) \<Rightarrow> ('q, 's) sync \<Rightarrow> ('q, 's) sync" where
  "on_status f y = y\<lparr>sy_world := (sy_world y)\<lparr>pw_status := f (pw_status (sy_world y))\<rparr>\<rparr>"

definition sync_new :: "('q, 's) world \<Rightarrow> ('q, 's) sync" where
  "sync_new w = \<lparr>sy_client = False, sy_revision = 0, sy_phase = SList, sy_world = w\<rparr>"

definition start_service :: "('q, 's) sync \<Rightarrow> ('q, 's) sync" where
  "start_service y = on_status begin_etcd_sync y"

text \<open>Whether there is a client after trying to create one, \<open>conn\<close> being the outcome.\<close>

definition get_client :: "proxy_error + unit \<Rightarrow> ('q, 's) sync \<Rightarrow> sync_error + ('q, 's) sync" where
  "get_client conn y = (if sy_client y then Inr y else map_err Transport (sum_bind conn (\<lambda>_. Inr (y\<lparr>sy_client := True\<rparr>))))"

text \<open>Ingestion together with the submission that follows it.\<close>

definition ingest_now :: "graph_error + ('q, 's) world \<Rightarrow> ('q, 's) world \<Rightarrow> (graph_error + unit) \<times> ('q, 's) world" where
  "ingest_now r w =
     (case r of
        Inl e \<Rightarrow> (Inl e, w)
      | Inr w' \<Rightarrow> (case pw_submitting w' of None \<Rightarrow> (Inr (), w') | Some (g, l) \<Rightarrow> submit g l w'))"

datatype list_reply = ListFailed string | Listed "int option" "etcd_kv list"

definition sync_list :: "('p, 'c) externals \<Rightarrow> 'k cipher \<Rightarrow> 'k list option \<Rightarrow> (store_error \<Rightarrow> string) \<Rightarrow> string \<Rightarrow> nat \<Rightarrow>
    proxy_error + unit \<Rightarrow> list_reply \<Rightarrow> ('q, 's) sync \<Rightarrow> (sync_error + unit) \<times> ('q, 's) sync" where
  "sync_list X ci kr debug prefix now conn reply y =
     (case get_client conn y of
        Inl e \<Rightarrow> (Inl e, y)
      | Inr y \<Rightarrow>
          (case reply of
             ListFailed cause \<Rightarrow>
               (Inl (Transport (etcd_error_with_cause (''Failed to list key '' @ quoted prefix) cause)), y)
           | Listed None kvs \<Rightarrow> (Inl (Transport (PE_Etcd ''Failed to get header from list response'')), y)
           | Listed (Some revision) kvs \<Rightarrow>
               (let y = on_status (record_sync_success now revision) y
                in case graph_snapshot_from_list kvs revision prefix of
                     Inl e \<Rightarrow> (Inl (Transport (PE_Configuration (''Failed to map etcd list response: '' @ debug e))), y)
                   | Inr snapshot \<Rightarrow>
                       (case ingest_now (replace_all X ci kr snapshot (sy_world y)) (sy_world y) of
                          (Inl e, w) \<Rightarrow> (Inl (classify_rejection debug e), y\<lparr>sy_world := w\<rparr>)
                        | (Inr _, w) \<Rightarrow>
                            (Inr (), on_status (set_revision (Some revision)) (y\<lparr>sy_world := w, sy_revision := revision\<rparr>))))))"

definition watch_open :: "string \<Rightarrow> nat \<Rightarrow> proxy_error + unit \<Rightarrow> string + unit \<Rightarrow> ('q, 's) sync \<Rightarrow>
    (sync_error + unit) \<times> ('q, 's) sync" where
  "watch_open prefix now conn stream y =
     (case get_client conn y of
        Inl e \<Rightarrow> (Inl e, y)
      | Inr y \<Rightarrow>
          (case stream of
             Inl cause \<Rightarrow>
               (Inl (Transport (etcd_error_with_cause (''Failed to watch key '' @ quoted prefix) cause)), y)
           | Inr _ \<Rightarrow> (Inr (), on_status (mark_etcd_connected now True) y)))"

text \<open>The revision a watch asks to start from.\<close>

definition watch_start :: "('q, 's) sync \<Rightarrow> int" where
  "watch_start y = sy_revision y + 1"

datatype watch_msg =
    MsgFailed string
  | MsgEnd
  | MsgCanceled
  | MsgEvents "int option" "watch_event list"
  | Tick "string + unit"

text \<open>The result tells whether the stream goes on.\<close>

fun watch_message :: "('p, 'c) externals \<Rightarrow> 'k cipher \<Rightarrow> 'k list option \<Rightarrow> (store_error \<Rightarrow> string) \<Rightarrow> string \<Rightarrow> nat \<Rightarrow>
    watch_msg \<Rightarrow> ('q, 's) sync \<Rightarrow> (sync_error + bool) \<times> ('q, 's) sync" where
  "watch_message X ci kr debug prefix now (MsgFailed cause) y =
     (Inl (Transport (etcd_error_with_cause ''Failed to receive watch message'' cause)), y)"
| "watch_message X ci kr debug prefix now MsgEnd y = (Inr False, y)"
| "watch_message X ci kr debug prefix now MsgCanceled y = (Inr False, y)"
| "watch_message X ci kr debug prefix now (MsgEvents header events) y =
     (case graph_changes_from_events events prefix of
        Inl e \<Rightarrow> (Inl (Transport e), y)
      | Inr changes \<Rightarrow>
          (case ingest_now (apply_watch X ci kr \<lparr>wb_revision = batch_revision events, wb_changes = changes\<rparr> (sy_world y))
                  (sy_world y) of
             (Inl e, w) \<Rightarrow> (Inl (classify_rejection debug e), y\<lparr>sy_world := w\<rparr>)
           | (Inr _, w) \<Rightarrow>
               (let y = y\<lparr>sy_world := w\<rparr>
                in (Inr True, case header of
                                Some r \<Rightarrow> on_status (record_sync_success now r) (y\<lparr>sy_revision := r\<rparr>)
                              | None \<Rightarrow> y))))"
| "watch_message X ci kr debug prefix now (Tick progress) y =
     (case progress of
        Inl cause \<Rightarrow> (Inl (Transport (etcd_error_with_cause ''Failed to request etcd watch progress'' cause)), y)
      | Inr _ \<Rightarrow> (Inr True, y))"

definition reset_client :: "nat \<Rightarrow> ('q, 's) sync \<Rightarrow> ('q, 's) sync" where
  "reset_client now y = on_status (mark_etcd_connected now False) (y\<lparr>sy_client := False\<rparr>)"

fun sync_failed :: "nat \<Rightarrow> sync_error \<Rightarrow> ('q, 's) sync \<Rightarrow> ('q, 's) sync" where
  "sync_failed now (Transport e) y =
     (reset_client now (on_status (record_sync_error now (sync_error_display (Transport e))) y))\<lparr>sy_phase := SSleep\<rparr>"
| "sync_failed now (Data e) y =
     (on_status (record_preparation_error (sync_error_display (Data e))) y)\<lparr>sy_phase := SSleep\<rparr>"

datatype 'q sync_event =
    SyList "proxy_error + unit" list_reply
  | SyOpen "proxy_error + unit" "string + unit"
  | SyMessage watch_msg
  | SyWake
  | SyShutdown
  | SyPublication "'q pub_event"

text \<open>One step of \<open>run_sync_loop\<close> at the time \<open>now\<close>, or of the publication worker.\<close>

fun sync_exec :: "('p, 'c) externals \<Rightarrow> 'k cipher \<Rightarrow> 'k list option \<Rightarrow> (config_set \<Rightarrow> 's runtime_snapshot \<Rightarrow> 'q \<Rightarrow> 's option) \<Rightarrow>
    (store_error \<Rightarrow> string) \<Rightarrow> string \<Rightarrow> nat \<Rightarrow> 'q sync_event \<Rightarrow> ('q, 's) sync \<Rightarrow> ('q, 's) sync" where
  "sync_exec X ci kr C debug prefix now (SyList conn reply) y =
     (if sy_phase y = SList
      then case sync_list X ci kr debug prefix now conn reply y of
             (Inl e, y) \<Rightarrow> sync_failed now e y
           | (Inr _, y) \<Rightarrow> y\<lparr>sy_phase := SOpen\<rparr>
      else y)"
| "sync_exec X ci kr C debug prefix now (SyOpen conn stream) y =
     (if sy_phase y = SOpen
      then case watch_open prefix now conn stream y of
             (Inl e, y) \<Rightarrow> sync_failed now e y
           | (Inr _, y) \<Rightarrow> y\<lparr>sy_phase := SWatch\<rparr>
      else y)"
| "sync_exec X ci kr C debug prefix now (SyMessage msg) y =
     (if sy_phase y = SWatch
      then case watch_message X ci kr debug prefix now msg y of
             (Inl e, y) \<Rightarrow> sync_failed now e y
           | (Inr goes_on, y) \<Rightarrow> if goes_on then y else y\<lparr>sy_phase := SList\<rparr>
      else y)"
| "sync_exec X ci kr C debug prefix now SyWake y = (if sy_phase y = SSleep then y\<lparr>sy_phase := SList\<rparr> else y)"
| "sync_exec X ci kr C debug prefix now SyShutdown y = y\<lparr>sy_phase := SDone\<rparr>"
| "sync_exec X ci kr C debug prefix now (SyPublication e) y = y\<lparr>sy_world := pub_exec X ci kr C e (sy_world y)\<rparr>"

section \<open>Endpoints\<close>

text \<open>A parsed URL and its parser are those of the \<open>url\<close> crate.\<close>

record url =
  ul_scheme :: string
  ul_host :: "string option"
  ul_username :: string
  ul_password :: "string option"
  ul_path :: string
  ul_query :: "string option"
  ul_fragment :: "string option"

definition contains :: "string \<Rightarrow> string \<Rightarrow> bool" where
  "contains pat s \<longleftrightarrow> (\<exists>i \<in> {0 ..< length s + 1}. starts_with pat (drop i s))"

fun validate_etcd_endpoints :: "(string \<Rightarrow> url option) \<Rightarrow> bool \<Rightarrow> string list \<Rightarrow> proxy_error + string list" where
  "validate_etcd_endpoints url_parse use_tls [] = Inr []"
| "validate_etcd_endpoints url_parse use_tls (host # hosts) =
     (let endpoint = (if contains ''://'' host then host
                      else (if use_tls then ''https'' else ''http'') @ ''://'' @ host)
      in case url_parse endpoint of
           None \<Rightarrow> Inl (PE_Validation ''Invalid etcd endpoint'')
         | Some parsed \<Rightarrow>
             (let scheme_matches_tls = (if ul_scheme parsed = ''http'' then \<not> use_tls
                                        else if ul_scheme parsed = ''https'' then use_tls else False)
              in if \<not> scheme_matches_tls \<or> ul_host parsed = None \<or> ul_username parsed \<noteq> [] \<or> ul_password parsed \<noteq> None \<or>
                    ul_path parsed \<noteq> ''/'' \<or> ul_query parsed \<noteq> None \<or> ul_fragment parsed \<noteq> None
                 then Inl (PE_Validation ''Invalid etcd endpoint'')
                 else sum_bind (validate_etcd_endpoints url_parse use_tls hosts) (\<lambda>rest. Inr (endpoint # rest))))"

section \<open>What lists and batches mean\<close>

text \<open>A history of etcd gives the key space at every revision.\<close>

type_synonym history = "int \<Rightarrow> string \<Rightarrow> etcd_kv option"

definition history_ok :: "history \<Rightarrow> bool" where
  "history_ok H \<longleftrightarrow> (\<forall>r key kv. H r key = Some kv \<longrightarrow> kv_key kv = key)"

definition lists :: "history \<Rightarrow> string \<Rightarrow> int \<Rightarrow> etcd_kv list \<Rightarrow> bool" where
  "lists H p r kvs \<longleftrightarrow> distinct (map kv_key kvs) \<and>
     (\<forall>kv. kv \<in> set kvs \<longleftrightarrow> starts_with p (kv_key kv) \<and> H r (kv_key kv) = Some kv)"

definition events_of :: "string \<Rightarrow> watch_event list \<Rightarrow> watch_event list" where
  "events_of key es = filter (\<lambda>e. map_option kv_key (we_kv e) = Some key) es"

text \<open>The events of the watched keys between two revisions: of every key the last one tells what became
  of it, and a key without events is as it was.\<close>

definition delivers :: "history \<Rightarrow> string \<Rightarrow> int \<Rightarrow> int \<Rightarrow> watch_event list \<Rightarrow> bool" where
  "delivers H p a b es \<longleftrightarrow>
     (\<forall>key. starts_with p key \<longrightarrow>
        H b key = (case events_of key es of [] \<Rightarrow> H a key
                   | ds \<Rightarrow> if we_delete (last ds) then None else we_kv (last ds)))"

text \<open>The resources of the namespace at a revision.\<close>

definition resources_at :: "history \<Rightarrow> string \<Rightarrow> int \<Rightarrow> resource_key \<Rightarrow> stored_resource option" where
  "resources_at H p r k = (if visible k then map_option stored_of (H r (p @ logical_path k)) else None)"

lemma listed_resources:
  assumes p: "utf8_valid p" and H: "history_ok H" and l: "lists H p r kvs" and g: "graph_snapshot_from_list kvs r' p = Inr g"
  shows "map_of (sg_resources g) = resources_at H p r"
proof
  fix k
  have start: "\<forall>kv \<in> set kvs. starts_with p (kv_key kv)" and dist: "distinct (map kv_key kvs)" using l by (auto simp: lists_def)
  obtain res where res: "snapshot_entries p kvs ([], None) = Inr res" "sg_resources g = fst res"
    using g by (auto simp: graph_snapshot_from_list_def sum_bind_Inr_iff)
  have all: "list_all (entry_ok p) kvs" and fold: "res = fold (entry_step p) kvs ([], None)"
    using snapshot_entries_iff [OF p start] res(1) by blast+
  have "lookup_kv kvs (p @ logical_path k) = H r (p @ logical_path k)"
  proof (cases "H r (p @ logical_path k)")
    case None
    have "kv_key kv \<noteq> p @ logical_path k" if "kv \<in> set kvs" for kv using that l None by (auto simp: lists_def)
    then have "p @ logical_path k \<notin> kv_key ` set kvs" by (metis imageE)
    then show ?thesis using None by (simp add: lookup_kv_None)
  next
    case (Some kv)
    then have "kv_key kv = p @ logical_path k" using H by (simp add: history_ok_def)
    moreover from this have "kv \<in> set kvs" using l Some by (simp add: lists_def starts_with_iff)
    ultimately show ?thesis using lookup_kv_Some [OF dist] Some by simp
  qed
  then show "map_of (sg_resources g) k = resources_at H p r k"
    using fold_entry_step [OF p dist all start, of "([], None)" k] unfolding res(2) fold
    by (auto simp: resources_at_def split: option.splits)
qed

lemma events_of_Cons [simp]:
  "events_of key [] = []" "events_of key (e # es) = (if map_option kv_key (we_kv e) = Some key then e # events_of key es else events_of key es)"
  by (simp_all add: events_of_def)

definition event_change :: "resource_key \<Rightarrow> watch_event \<Rightarrow> stored_change" where
  "event_change k e = (if we_delete e then ChDelete k else ChPut k (stored_of (the (we_kv e))))"

lemma changes_from_Cons:
  assumes p: "utf8_valid p" and "changes_from p (e # es) acc = Inr fin"
  shows "\<exists>acc'. changes_from p es acc' = Inr fin \<and>
    (\<forall>k. map_of acc' k = (if visible k \<and> map_option kv_key (we_kv e) = Some (p @ logical_path k) then Some (event_change k e) else map_of acc k)) \<and>
    (distinct_keys acc \<longrightarrow> distinct_keys acc')"
proof -
  obtain kv where kv: "we_kv e = Some kv" using assms(2) by (cases "we_kv e") auto
  show ?thesis
  proof (cases "is_metadata_key (kv_key kv) \<or> \<not> starts_with p (lossy (kv_key kv))")
    case True
    have "kv_key kv \<noteq> p @ logical_path k" if "visible k" for k
    proof
      assume key: "kv_key kv = p @ logical_path k"
      have "\<not> is_metadata_key (kv_key kv)" using path_metadata [OF p, of k] that by (simp add: key visible_def)
      moreover have "starts_with p (lossy (kv_key kv))" using lossy_append [OF p] by (simp add: key starts_with_iff)
      ultimately show False using True by blast
    qed
    then have "\<not> (visible k \<and> map_option kv_key (we_kv e) = Some (p @ logical_path k))" for k using kv by auto
    moreover have "changes_from p es acc = Inr fin" using True assms(2) kv by (auto split: if_splits)
    ultimately show ?thesis by (intro exI [of _ acc]) auto
  next
    case False
    then obtain l where l: "physical_key_to_resource_key (kv_key kv) p = Inr l"
        "changes_from p es (AList.update l (if we_delete e then ChDelete l else ChPut l (stored_of kv)) acc) = Inr fin"
      using assms(2) kv by (auto simp: sum_bind_Inr_iff)
    have wf: "kv_key kv = p @ logical_path l" "key_wf l" using physical_key_exact [OF p] l(1) by blast+
    have "visible l" using False path_metadata [OF p wf(2)] wf by (simp add: visible_def)
    have same: "visible k \<and> map_option kv_key (we_kv e) = Some (p @ logical_path k) \<longleftrightarrow> k = l" for k
      using wf path_inj [of k l] kv \<open>visible l\<close> by (auto simp: visible_def)
    let ?acc = "AList.update l (event_change l e) acc"
    have "changes_from p es ?acc = Inr fin" using l(2) unfolding event_change_def kv option.sel .
    moreover have "map_of ?acc k = (if visible k \<and> map_option kv_key (we_kv e) = Some (p @ logical_path k)
        then Some (event_change k e) else map_of acc k)" for k unfolding same by (simp add: update_conv')
    moreover have "distinct_keys acc \<longrightarrow> distinct_keys ?acc" by (simp add: distinct_update)
    ultimately show ?thesis by blast
  qed
qed

lemma changes_from_result:
  assumes p: "utf8_valid p"
  shows "changes_from p es acc = Inr fin \<Longrightarrow>
    map_of fin k = (if visible k \<and> events_of (p @ logical_path k) es \<noteq> []
      then Some (event_change k (last (events_of (p @ logical_path k) es))) else map_of acc k) \<and>
    (distinct_keys acc \<longrightarrow> distinct_keys fin)"
proof (induction es arbitrary: acc)
  case (Cons e es)
  obtain acc' where acc': "changes_from p es acc' = Inr fin"
    "\<forall>k. map_of acc' k = (if visible k \<and> map_option kv_key (we_kv e) = Some (p @ logical_path k) then Some (event_change k e) else map_of acc k)"
    "distinct_keys acc \<longrightarrow> distinct_keys acc'" using changes_from_Cons [OF p Cons.prems] by blast
  show ?case using Cons.IH [OF acc'(1)] acc'(2,3) by auto
qed simp

lemma change_key_event [simp]: "change_key (event_change k e) = k"
  by (simp add: event_change_def)

lemma filter_by_key:
  assumes "distinct_keys fin" and "\<forall>(k, c) \<in> set fin. change_key c = k"
  shows "filter (\<lambda>c. change_key c = k) (map snd fin) = (case map_of fin k of None \<Rightarrow> [] | Some c \<Rightarrow> [c])"
  using assms
proof (induction fin)
  case (Cons x fin)
  obtain l c where x: "x = (l, c)" by (cases x)
  have "l = k \<Longrightarrow> map_of fin k = None" using Cons.prems(1) by (auto simp: x map_of_eq_None_iff)
  then show ?case using Cons by (auto simp: x)
qed simp

text \<open>A batch takes the resources of one revision to those of the other.\<close>

lemma batch_resources:
  assumes p: "utf8_valid p" and d: "delivers H p a b es" and c: "graph_changes_from_events es p = Inr changes"
    and base: "map_of (sg_resources g) = resources_at H p a"
  shows "map_of (sg_resources (apply_watch_batch g \<lparr>wb_revision = r, wb_changes = changes\<rparr>)) = resources_at H p b"
proof
  fix k
  obtain fin where fin: "changes_from p es [] = Inr fin" "changes = map snd fin"
    using c by (auto simp: graph_changes_from_events_def sum_bind_Inr_iff)
  note res = changes_from_result [OF p fin(1)]
  have dist: "distinct_keys fin" using res by simp
  have keyed: "\<forall>(k, c) \<in> set fin. change_key c = k"
  proof clarify
    fix k c assume "(k, c) \<in> set fin"
    then have "map_of fin k = Some c" using dist by simp
    then show "change_key c = k" using res [of k] by (auto split: if_splits)
  qed
  let ?ds = "events_of (p @ logical_path k) es"
  have H: "H b (p @ logical_path k) = (case ?ds of [] \<Rightarrow> H a (p @ logical_path k)
      | ds \<Rightarrow> if we_delete (last ds) then None else we_kv (last ds))"
    using d unfolding delivers_def by (simp add: starts_with_iff)
  have kv: "we_kv (last ?ds) \<noteq> None" if "?ds \<noteq> []"
    using last_in_set [OF that] by (auto simp: events_of_def)
  show "map_of (sg_resources (apply_watch_batch g \<lparr>wb_revision = r, wb_changes = changes\<rparr>)) k = resources_at H p b k"
  proof (cases "visible k \<and> ?ds \<noteq> []")
    case True
    then have "map_of fin k = Some (event_change k (last ?ds))" using res [of k] by simp
    then have "map_of (sg_resources (apply_watch_batch g \<lparr>wb_revision = r, wb_changes = changes\<rparr>)) k =
        change_result (event_change k (last ?ds))"
      using filter_by_key [OF dist keyed, of k] by (simp add: watch_last_change_wins fin(2))
    then show ?thesis using True H kv by (auto simp: resources_at_def event_change_def split: list.splits)
  next
    case False
    then have "map_of fin k = None" using res [of k] by auto
    then have "map_of (sg_resources (apply_watch_batch g \<lparr>wb_revision = r, wb_changes = changes\<rparr>)) k = map_of (sg_resources g) k"
      using filter_by_key [OF dist keyed, of k] by (simp add: watch_last_change_wins fin(2))
    then show ?thesis using False H by (auto simp: base resources_at_def)
  qed
qed

section \<open>The gateway follows etcd\<close>

fun ingestion :: "'q pub_event \<Rightarrow> bool" where
  "ingestion (ReplaceAll _) = True"
| "ingestion (ApplyWatch _) = True"
| "ingestion Submit = True"
| "ingestion _ = False"

fun carries_events :: "watch_msg \<Rightarrow> bool" where
  "carries_events (MsgEvents _ _) = True"
| "carries_events _ = False"

text \<open>The runs of the loop beside the worker against a history of etcd, with the revision up to which
  etcd has told of it: a list answers with the key space of its revision, a watch tells of every change from
  the revision on that it was asked to start from, in order.\<close>

inductive synced :: "('p, 'c) externals \<Rightarrow> 'k cipher \<Rightarrow> 'k list option \<Rightarrow> (config_set \<Rightarrow> 's runtime_snapshot \<Rightarrow> 'q \<Rightarrow> 's option) \<Rightarrow>
    (store_error \<Rightarrow> string) \<Rightarrow> string \<Rightarrow> history \<Rightarrow> ('q, 's) sync \<Rightarrow> int \<Rightarrow> bool"
  for X ci kr C debug p H where
  sy_start: "synced X ci kr C debug p H (start_service (sync_new (world_new initial st))) 0"
| sy_list: "synced X ci kr C debug p H y pos \<Longrightarrow> sy_phase y = SList \<Longrightarrow> lists H p r kvs \<Longrightarrow>
    synced X ci kr C debug p H (sync_exec X ci kr C debug p now (SyList conn (Listed (Some r) kvs)) y) r"
| sy_no_list: "synced X ci kr C debug p H y pos \<Longrightarrow> reply = ListFailed cause \<or> reply = Listed None kvs \<Longrightarrow>
    synced X ci kr C debug p H (sync_exec X ci kr C debug p now (SyList conn reply) y) pos"
| sy_open: "synced X ci kr C debug p H y pos \<Longrightarrow> sy_phase y = SOpen \<Longrightarrow>
    synced X ci kr C debug p H (sync_exec X ci kr C debug p now (SyOpen conn stream) y) (watch_start y - 1)"
| sy_events: "synced X ci kr C debug p H y pos \<Longrightarrow> sy_phase y = SWatch \<Longrightarrow> delivers H p pos pos' es \<Longrightarrow>
    synced X ci kr C debug p H (sync_exec X ci kr C debug p now (SyMessage (MsgEvents header es)) y) pos'"
| sy_message: "synced X ci kr C debug p H y pos \<Longrightarrow> \<not> carries_events msg \<Longrightarrow>
    synced X ci kr C debug p H (sync_exec X ci kr C debug p now (SyMessage msg) y) pos"
| sy_wake: "synced X ci kr C debug p H y pos \<Longrightarrow> synced X ci kr C debug p H (sync_exec X ci kr C debug p now SyWake y) pos"
| sy_shutdown: "synced X ci kr C debug p H y pos \<Longrightarrow> synced X ci kr C debug p H (sync_exec X ci kr C debug p now SyShutdown y) pos"
| sy_publication: "synced X ci kr C debug p H y pos \<Longrightarrow> \<not> ingestion e \<Longrightarrow>
    synced X ci kr C debug p H (sync_exec X ci kr C debug p now (SyPublication e) y) pos"

definition world_ok :: "('p, 'c) externals \<Rightarrow> 'k cipher \<Rightarrow> 'k list option \<Rightarrow> (config_set \<Rightarrow> 's runtime_snapshot \<Rightarrow> 'q \<Rightarrow> 's option) \<Rightarrow>
    ('q, 's) world \<Rightarrow> bool" where
  "world_ok X ci kr C w \<longleftrightarrow> (\<exists>initial. pub_inv X ci kr C initial w) \<and> pw_submitting w = None"

lemma world_ok_status [simp]: "world_ok X ci kr C (w\<lparr>pw_status := st\<rparr>) = world_ok X ci kr C w"
proof -
  have "pending_ok X ci kr (w\<lparr>pw_status := st\<rparr>) = pending_ok X ci kr w" by (intro ext) (simp add: pending_ok_def)
  then show ?thesis by (simp add: world_ok_def pub_inv_def cong: option.case_cong)
qed

lemma world_ok_publication:
  assumes "world_ok X ci kr C w" and "\<not> ingestion e"
  shows "world_ok X ci kr C (pub_exec X ci kr C e w) \<and> watch_base (pub_exec X ci kr C e w) = watch_base w"
proof -
  obtain initial where inv: "pub_inv X ci kr C initial w" using assms(1) by (auto simp: world_ok_def)
  have "intent_step a e (intent_of w) = intent_of w" for a
    using assms(2) by (cases e) (auto simp: intent_of_def)
  then have "intent_of (pub_exec X ci kr C e w) = intent_of w" using intent_refines [OF inv, of e] by simp
  then show ?thesis using pub_inv_exec [OF inv, of e] assms(1) by (auto simp: intent_of_def world_ok_def)
qed

text \<open>An accepted ingestion makes its graph the intended one; a refused one changes nothing that matters.\<close>

lemma ingest_now_graph:
  assumes ok: "world_ok X ci kr C w" and r: "ingest_now (ingest X ci kr g w) w = (res, w')"
  shows "world_ok X ci kr C w'" and "res = Inr () \<Longrightarrow> watch_base w' = g"
proof -
  obtain initial where inv: "pub_inv X ci kr C initial w" using ok by (auto simp: world_ok_def)
  show "world_ok X ci kr C w'"
  proof (cases "ingest X ci kr g w")
    case (Inl e)
    then show ?thesis using r ok by (simp add: ingest_now_def)
  next
    case (Inr v)
    note v = pub_inv_ingest [OF inv Inr]
    obtain l where l: "pw_submitting v = Some (g, l)" using Inr by (rule ingest_Inr) auto
    then have "w' = snd (submit g l v)" using r Inr by (simp add: ingest_now_def)
    then show ?thesis using pub_inv_submit [OF v l] by (auto simp: world_ok_def submit_def Let_def)
  qed
  show "watch_base w' = g" if "res = Inr ()"
  proof (cases "ingest X ci kr g w")
    case (Inl e)
    then show ?thesis using r that by (simp add: ingest_now_def)
  next
    case (Inr v)
    obtain l where l: "pw_submitting v = Some (g, l)" using Inr by (rule ingest_Inr) auto
    then have "w' = snd (submit g l v)" using r Inr by (simp add: ingest_now_def)
    then show ?thesis by (simp add: submit_def Let_def watch_base_def)
  qed
qed

lemma ingest_now_watch:
  assumes ok: "world_ok X ci kr C w" and r: "ingest_now (apply_watch X ci kr b w) w = (res, w')"
  shows "world_ok X ci kr C w'" and "res = Inr () \<Longrightarrow> watch_base w' = apply_watch_batch (watch_base w) b"
proof -
  have sub: "pw_submitting w = None" using ok by (simp add: world_ok_def)
  consider (nothing) "wb_changes b = []" | (stale) e where "apply_watch X ci kr b w = Inl e"
    | (ingest) "apply_watch X ci kr b w = ingest X ci kr (apply_watch_batch (watch_base w) b) w" "wb_changes b \<noteq> []"
    by (cases "wb_changes b = []"; cases "wb_revision b < rs_revision (pw_runtime w)") (auto simp: apply_watch_def)
  then have "world_ok X ci kr C w' \<and> (res = Inr () \<longrightarrow> watch_base w' = apply_watch_batch (watch_base w) b)"
  proof cases
    case nothing
    then show ?thesis using r ok sub by (auto simp: apply_watch_def ingest_now_def apply_watch_batch_def)
  next
    case stale
    then show ?thesis using r ok by (auto simp: ingest_now_def)
  next
    case ingest
    then show ?thesis using ingest_now_graph [OF ok, of "apply_watch_batch (watch_base w) b" res w'] r by simp
  qed
  then show "world_ok X ci kr C w'" "res = Inr () \<Longrightarrow> watch_base w' = apply_watch_batch (watch_base w) b" by blast+
qed

definition follows :: "('p, 'c) externals \<Rightarrow> 'k cipher \<Rightarrow> 'k list option \<Rightarrow> (config_set \<Rightarrow> 's runtime_snapshot \<Rightarrow> 'q \<Rightarrow> 's option) \<Rightarrow>
    string \<Rightarrow> history \<Rightarrow> ('q, 's) sync \<Rightarrow> int \<Rightarrow> bool" where
  "follows X ci kr C p H y pos \<longleftrightarrow> world_ok X ci kr C (sy_world y) \<and>
     (sy_phase y = SOpen \<longrightarrow> map_of (sg_resources (watch_base (sy_world y))) = resources_at H p (sy_revision y)) \<and>
     (sy_phase y = SWatch \<longrightarrow> map_of (sg_resources (watch_base (sy_world y))) = resources_at H p pos)"

lemma on_status_simps [simp]:
  "sy_client (on_status f y) = sy_client y" "sy_revision (on_status f y) = sy_revision y" "sy_phase (on_status f y) = sy_phase y"
  "watch_base (sy_world (on_status f y)) = watch_base (sy_world y)"
  "world_ok X ci kr C (sy_world (on_status f y)) = world_ok X ci kr C (sy_world y)"
  "pw_status (sy_world (on_status f y)) = f (pw_status (sy_world y))"
  "pw_runtime (sy_world (on_status f y)) = pw_runtime (sy_world y)"
  by (simp_all add: on_status_def)

lemma sync_failed_simps [simp]:
  "sy_phase (sync_failed now e y) = SSleep" "world_ok X ci kr C (sy_world (sync_failed now e y)) = world_ok X ci kr C (sy_world y)"
  by (cases e; simp add: reset_client_def on_status_def)+

declare sync_failed.simps [simp del]

lemma get_client_Inr: "get_client conn y = Inr y' \<Longrightarrow> sy_world y' = sy_world y \<and> sy_phase y' = sy_phase y \<and> sy_revision y' = sy_revision y \<and> sy_client y'"
  by (auto simp: get_client_def split: if_splits sum.splits)

lemma follows_list:
  assumes p: "utf8_valid p" and H: "history_ok H" and ok: "follows X ci kr C p H y pos" and phase: "sy_phase y = SList" and l: "lists H p r kvs"
  shows "follows X ci kr C p H (sync_exec X ci kr C debug p now (SyList conn (Listed (Some r) kvs)) y) pos'"
proof -
  obtain res y' where run: "sync_list X ci kr debug p now conn (Listed (Some r) kvs) y = (res, y')" by fastforce
  have w: "world_ok X ci kr C (sy_world y)" using ok by (simp add: follows_def)
  have "world_ok X ci kr C (sy_world y') \<and>
    (res = Inr () \<longrightarrow> sy_revision y' = r \<and> map_of (sg_resources (watch_base (sy_world y'))) = resources_at H p r)"
  proof (cases "get_client conn y")
    case (Inl e)
    then show ?thesis using run w by (auto simp: sync_list_def)
  next
    case (Inr y0)
    let ?y = "on_status (record_sync_success now r) y0"
    have w0: "world_ok X ci kr C (sy_world ?y)" using get_client_Inr [OF Inr] w by simp
    show ?thesis
    proof (cases "graph_snapshot_from_list kvs r p")
      case (Inl e)
      then show ?thesis using run Inr \<open>get_client conn y = Inr y0\<close> w0 by (auto simp: sync_list_def Let_def)
    next
      case (Inr g)
      obtain res' w' where now: "ingest_now (ingest X ci kr g (sy_world ?y)) (sy_world ?y) = (res', w')" by fastforce
      note after = ingest_now_graph [OF w0 now]
      show ?thesis
      proof (cases res')
        case (Inl e)
        then show ?thesis using run Inr \<open>get_client conn y = Inr y0\<close> now after(1) by (auto simp: sync_list_def Let_def replace_all_def)
      next
        case accepted: (Inr u)
        have "watch_base w' = g" using after(2) accepted by simp
        then show ?thesis
          using run Inr \<open>get_client conn y = Inr y0\<close> now after(1) accepted listed_resources [OF p H l Inr]
          by (auto simp: sync_list_def Let_def replace_all_def)
      qed
    qed
  qed
  then show ?thesis using run phase by (cases res) (auto simp: follows_def)
qed

lemma follows_events:
  assumes p: "utf8_valid p" and ok: "follows X ci kr C p H y pos" and phase: "sy_phase y = SWatch" and d: "delivers H p pos pos' es"
  shows "follows X ci kr C p H (sync_exec X ci kr C debug p now (SyMessage (MsgEvents header es)) y) pos'"
proof -
  have w: "world_ok X ci kr C (sy_world y)" and base: "map_of (sg_resources (watch_base (sy_world y))) = resources_at H p pos"
    using ok phase by (simp_all add: follows_def)
  show ?thesis
  proof (cases "graph_changes_from_events es p")
    case (Inl e)
    then show ?thesis using w phase by (auto simp: follows_def)
  next
    case (Inr changes)
    let ?b = "\<lparr>wb_revision = batch_revision es, wb_changes = changes\<rparr>"
    obtain res w' where now: "ingest_now (apply_watch X ci kr ?b (sy_world y)) (sy_world y) = (res, w')" by fastforce
    note after = ingest_now_watch [OF w now]
    show ?thesis
    proof (cases res)
      case (Inl e)
      then show ?thesis using Inr now after(1) phase by (auto simp: follows_def)
    next
      case accepted: (Inr u)
      have "map_of (sg_resources (watch_base w')) = resources_at H p pos'"
        using after(2) accepted batch_resources [OF p d Inr base] by simp
      then show ?thesis using Inr now after(1) phase accepted by (cases header) (auto simp: follows_def Let_def)
    qed
  qed
qed

lemma follows_run:
  assumes p: "utf8_valid p" and H: "history_ok H"
  shows "synced X ci kr C debug p H y pos \<Longrightarrow> follows X ci kr C p H y pos"
proof (induction rule: synced.induct)
  case (sy_start initial st)
  have "pub_inv X ci kr C initial (world_new initial st)" by (rule pub_inv_new)
  then have "world_ok X ci kr C (world_new initial st)" unfolding world_ok_def by (auto simp: world_new_def)
  then show ?case by (simp add: follows_def start_service_def sync_new_def)
next
  case (sy_list y pos r kvs now conn)
  show ?case by (rule follows_list [OF p H sy_list.IH sy_list.hyps(2,3)])
next
  case (sy_no_list y pos reply cause kvs now conn)
  then show ?case
    by (cases "get_client conn y") (auto simp: sync_list_def follows_def dest: get_client_Inr)
next
  case (sy_open y pos now conn stream)
  then show ?case
    by (cases "get_client conn y"; cases stream) (auto simp: watch_open_def watch_start_def follows_def dest: get_client_Inr)
next
  case (sy_events y pos pos' es now header)
  show ?case by (rule follows_events [OF p sy_events.IH sy_events.hyps(2,3)])
next
  case (sy_message y pos msg now)
  then show ?case by (cases msg) (auto simp: follows_def split: sum.splits)
next
  case (sy_publication y pos e now)
  then show ?case using world_ok_publication [of X ci kr C "sy_world y" e] by (auto simp: follows_def)
qed (auto simp: follows_def)

text \<open>C4: The gateway follows etcd. While the loop watches, the graph the gateway means to serve has exactly
  the resources that etcd held in the namespace at the revision up to which etcd has told of it:
  in every interleaving with preparation and publication, after any failures, rejected batches and
  relists, no event is missed, applied twice or applied to an older graph.\<close>

theorem gateway_follows_etcd:
  assumes "utf8_valid p" and "history_ok H" and "synced X ci kr C debug p H y pos" and "sy_phase y = SWatch"
  shows "map_of (sg_resources (watch_base (sy_world y))) = resources_at H p pos"
  using follows_run [OF assms(1-3)] assms(4) by (simp add: follows_def)

section \<open>Failures and readiness\<close>

text \<open>What the loop hears that carries configuration: a full list, with a client at hand or created for it, or a
  batch of watch events. \<open>rejects\<close> says that its keys map to resources and the graph it leads to is refused
  with the error \<open>e\<close>.\<close>

definition rejects :: "('p, 'c) externals \<Rightarrow> 'k cipher \<Rightarrow> 'k list option \<Rightarrow> string \<Rightarrow> ('q, 's) sync \<Rightarrow> 'q sync_event \<Rightarrow> graph_error \<Rightarrow> bool" where
  "rejects X ci kr p y ev e \<longleftrightarrow>
     (case ev of
        SyList conn (Listed (Some r) kvs) \<Rightarrow>
          sy_phase y = SList \<and> (sy_client y \<or> is_ok conn) \<and>
          (\<exists>g. graph_snapshot_from_list kvs r p = Inr g \<and> replace_all X ci kr g (sy_world y) = Inl e)
      | SyMessage (MsgEvents header es) \<Rightarrow>
          sy_phase y = SWatch \<and> sy_client y \<and>
          (\<exists>changes. graph_changes_from_events es p = Inr changes \<and>
             apply_watch X ci kr \<lparr>wb_revision = batch_revision es, wb_changes = changes\<rparr> (sy_world y) = Inl e)
      | _ \<Rightarrow> False)"

lemma replace_all_status: "replace_all X ci kr g (sy_world y) = Inl e \<Longrightarrow> replace_all X ci kr g (sy_world (on_status f y)) = Inl e"
  by (auto simp: on_status_def replace_all_def ingest_def ensure_worker_started_def sum_bind_def split: sum.splits if_splits)

lemma data_rejection: "is_data e \<Longrightarrow> \<exists>m. classify_rejection debug e = Data m"
  by (simp add: classify_rejection_def Let_def)

lemma watch_base_status [simp]: "watch_base (w\<lparr>pw_status := st\<rparr>) = watch_base w"
  by (simp add: watch_base_def split: option.split)

text \<open>C12: Documents that the gateway rejects do not take it down. On a gateway that is connected and has
  published, let a list or a batch of watch events map to resources whose graph is refused because a document
  does not decode or validate. The running snapshot, the intended graph and the etcd client stay as they
  are, the loop waits and then lists again, the status shows the rejection, and the gateway is ready at all
  later times. (Keys that name no resource are not such data: see the next theorem.)\<close>

theorem rejected_graph_keeps_serving:
  assumes st: "connected (pw_status (sy_world y))" "initialized (pw_status (sy_world y))"
      "\<not> awaiting_publish_after_reconnect (pw_status (sy_world y))"
    and e: "rejects X ci kr p y ev e" "is_data e"
  shows "let y' = sync_exec X ci kr C debug p now ev y
    in pw_runtime (sy_world y') = pw_runtime (sy_world y) \<and> watch_base (sy_world y') = watch_base (sy_world y) \<and>
       sy_client y' \<and> sy_phase y' = SSleep \<and> sy_phase (sync_exec X ci kr C debug p now SyWake y') = SList \<and>
       error_kind (pw_status (sy_world y')) = Some CandidateInvalid \<and> compute_ready later (pw_status (sy_world y'))"
proof -
  note status = sync_failed.simps on_status_def compute_ready_def is_stale_def record_preparation_error_def record_sync_success_def is_some_and_def
  obtain m where m: "classify_rejection debug e = Data m" using data_rejection [OF e(2)] by blast
  from e(1) show ?thesis unfolding rejects_def
  proof (cases rule: sync_event.exhaust [of ev])
    case (SyList conn reply)
    with e(1) obtain r kvs g where l: "reply = Listed (Some r) kvs" "sy_phase y = SList" "sy_client y \<or> is_ok conn"
      "graph_snapshot_from_list kvs r p = Inr g" "replace_all X ci kr g (sy_world y) = Inl e"
      by (auto simp: rejects_def split: list_reply.splits option.splits)
    let ?y = "on_status (record_sync_success now r) (y\<lparr>sy_client := True\<rparr>)"
    have client: "get_client conn y = Inr (y\<lparr>sy_client := True\<rparr>)"
      using l(3) by (cases conn) (auto simp: get_client_def map_err_def)
    have "replace_all X ci kr g (sy_world ?y) = Inl e" using l(5) by (intro replace_all_status) simp
    then have "sync_list X ci kr debug p now conn reply y = (Inl (classify_rejection debug e), ?y)"
      using l(1,4) client by (simp add: sync_list_def ingest_now_def on_status_def Let_def)
    then show ?thesis using SyList l(2) st by (simp add: m status Let_def)
  next
    case (SyMessage msg)
    with e(1) obtain header es changes where w: "msg = MsgEvents header es" "sy_phase y = SWatch" "sy_client y"
      "graph_changes_from_events es p = Inr changes"
      "apply_watch X ci kr \<lparr>wb_revision = batch_revision es, wb_changes = changes\<rparr> (sy_world y) = Inl e"
      by (auto simp: rejects_def split: watch_msg.splits)
    then have "watch_message X ci kr debug p now msg y = (Inl (classify_rejection debug e), y)"
      by (simp add: ingest_now_def)
    then show ?thesis using SyMessage w(2,3) st by (simp add: m status Let_def)
  qed (use e(1) in \<open>simp_all add: rejects_def\<close>)
qed

text \<open>One key under the namespace that names no resource takes every gateway down. The list cannot be
  mapped, which counts as a failure of etcd: the client is dropped and the second attempt to list closes
  readiness until something is published, which cannot happen while the key exists - although the
  running snapshot is untouched, and rejected data is meant to keep readiness.\<close>

theorem malformed_key_closes_readiness:
  assumes y: "sy_phase y = SList" "sy_client y" "initialized (pw_status (sy_world y))"
    and bad: "graph_snapshot_from_list kvs r p = Inl e" "graph_snapshot_from_list kvs' r' p = Inl e'"
  shows "let y1 = sync_exec X ci kr C debug p now (SyList conn (Listed (Some r) kvs)) y;
      y2 = sync_exec X ci kr C debug p t SyWake y1;
      y3 = sync_exec X ci kr C debug p now' (SyList (Inr ()) (Listed (Some r') kvs')) y2
    in \<not> compute_ready later (pw_status (sy_world y3)) \<and> pw_runtime (sy_world y3) = pw_runtime (sy_world y)"
proof -
  let ?y1 = "sync_exec X ci kr C debug p now (SyList conn (Listed (Some r) kvs)) y"
  have y1: "sy_phase ?y1 = SSleep" "\<not> sy_client ?y1" "initialized (pw_status (sy_world ?y1))" "\<not> connected (pw_status (sy_world ?y1))"
      "pw_runtime (sy_world ?y1) = pw_runtime (sy_world y)"
    using y bad(1) by (simp_all add: sync_list_def get_client_def sync_failed.simps reset_client_def on_status_def
        mark_etcd_connected_def record_sync_error_def record_sync_success_def Let_def)
  let ?y2 = "?y1\<lparr>sy_phase := SList\<rparr>"
  have y2: "sync_exec X ci kr C debug p t SyWake ?y1 = ?y2" using y1(1) by (simp del: sync_exec.simps(1))
  let ?y3 = "sync_exec X ci kr C debug p now' (SyList (Inr ()) (Listed (Some r') kvs')) ?y2"
  have "awaiting_publish_after_reconnect (pw_status (sy_world ?y3)) \<and> pw_runtime (sy_world ?y3) = pw_runtime (sy_world ?y1)"
    using y1 bad(2) by (simp add: sync_list_def get_client_def sync_failed.simps reset_client_def on_status_def
        mark_etcd_connected_def record_sync_error_def record_sync_success_def Let_def del: sync_exec.simps(2-))
  then show ?thesis using y1(5) unfolding Let_def y2 by (simp add: compute_ready_def del: sync_exec.simps)
qed

text \<open>An endpoint is never downgraded: what is accepted with TLS is an https URL, and the written one.\<close>

lemma endpoint_scheme:
  assumes "validate_etcd_endpoints parse use_tls hosts = Inr endpoints" and "endpoint \<in> set endpoints"
  shows "\<exists>u. parse endpoint = Some u \<and> ul_scheme u = (if use_tls then ''https'' else ''http'')"
  using assms
proof (induction hosts arbitrary: endpoints)
  case (Cons host hosts)
  then show ?case by (auto simp: Let_def sum_bind_Inr_iff split: option.splits if_splits)
qed simp

section \<open>A short history\<close>

definition put_event :: watch_event where
  "put_event = \<lparr>we_kv = Some \<lparr>kv_key = ''/apisix/upstreams/u1'', kv_value = ''doc'', kv_create = 2, kv_mod = 2\<rparr>, we_delete = False\<rparr>"

definition short_history :: history where
  "short_history r key = (if 2 \<le> r \<and> key = ''/apisix/upstreams/u1'' then we_kv put_event else None)"

abbreviation sample_sync :: "unit sync_event \<Rightarrow> (unit, unit) sync \<Rightarrow> (unit, unit) sync" where
  "sample_sync \<equiv> sync_exec sample_externals tag_cipher None (\<lambda>_ _ _. None) (\<lambda>_. []) ''/apisix/'' 0"

definition sample_status :: "bool \<Rightarrow> status" where
  "sample_status up = \<lparr>initialized = up, config_source = None, st_revision = None, st_published_revision = None,
     last_success = None, error_kind = None, last_error = None, connected = up, disconnected_since = None,
     awaiting_publish_after_reconnect = False, config_stale_after = 0, fail_readiness_when_stale = True\<rparr>"

definition sync_first :: "(unit, unit) sync" where
  "sync_first = start_service (sync_new (world_new () (sample_status False)))"

definition sync_listed :: "(unit, unit) sync" where
  "sync_listed = sample_sync (SyList (Inr ()) (Listed (Some 1) [])) sync_first"

definition sync_watching :: "(unit, unit) sync" where
  "sync_watching = sample_sync (SyOpen (Inr ()) (Inr ())) sync_listed"

definition sync_told :: "(unit, unit) sync" where
  "sync_told = sample_sync (SyMessage (MsgEvents (Some 2) [put_event])) sync_watching"

lemma sample_sync_run:
  "synced sample_externals tag_cipher None (\<lambda>_ _ _. None) (\<lambda>_. []) ''/apisix/'' short_history sync_told 2"
proof -
  let ?S = "synced sample_externals tag_cipher None (\<lambda>_ _ _. None) (\<lambda>_. []) ''/apisix/'' short_history"
  have first: "?S sync_first 0" unfolding sync_first_def by (rule sy_start)
  have "lists short_history ''/apisix/'' 1 []" by (simp add: lists_def short_history_def)
  moreover have "sy_phase sync_first = SList" by code_simp
  ultimately have listed: "?S sync_listed 1" unfolding sync_listed_def by (intro sy_list [OF first])
  have phase: "sy_phase sync_listed = SOpen" "sy_revision sync_listed = 1" by code_simp+
  have watching: "?S sync_watching 1" using sy_open [OF listed phase(1)] unfolding watch_start_def phase(2) sync_watching_def by simp
  have "delivers short_history ''/apisix/'' 1 2 [put_event]"
    by (auto simp: delivers_def events_of_def short_history_def put_event_def)
  moreover have "sy_phase sync_watching = SWatch" by code_simp
  ultimately show ?thesis unfolding sync_told_def by (intro sy_events [OF watching])
qed

lemma gateway_follows_etcd_witness:
  "map_of (sg_resources (watch_base (sy_world sync_told))) = resources_at short_history ''/apisix/'' 2 \<and>
   graph_values (watch_base (sy_world sync_told)) \<lparr>rk_kind = KUpstream, rk_id = ''u1''\<rparr> = Some ''doc''"
proof
  have "utf8_valid ''/apisix/''" by (rule ascii_valid) (simp add: is_ascii_def)
  moreover have "history_ok short_history" by (auto simp: history_ok_def short_history_def put_event_def split: if_splits)
  moreover have "sy_phase sync_told = SWatch" by code_simp
  ultimately show "map_of (sg_resources (watch_base (sy_world sync_told))) = resources_at short_history ''/apisix/'' 2"
    by (intro gateway_follows_etcd [OF _ _ sample_sync_run])
qed code_simp

definition serving :: "(unit, unit) sync" where
  "serving = (sync_new (world_new () (sample_status True)))\<lparr>sy_client := True\<rparr>"

definition dangling_list :: "etcd_kv list" where
  "dangling_list = [\<lparr>kv_key = ''/apisix/routes/r1'', kv_value = ''doc'', kv_create = 1, kv_mod = 1\<rparr>]"

definition foreign_list :: "etcd_kv list" where
  "foreign_list = [\<lparr>kv_key = ''/apisix/lock'', kv_value = [], kv_create = 1, kv_mod = 1\<rparr>]"

lemma serving_simps: "sy_phase serving = SList" "sy_client serving" "connected (pw_status (sy_world serving))"
    "initialized (pw_status (sy_world serving))" "\<not> awaiting_publish_after_reconnect (pw_status (sy_world serving))"
  by code_simp+

definition dangling_event :: watch_event where
  "dangling_event = \<lparr>we_kv = Some (hd dangling_list), we_delete = False\<rparr>"

lemma rejected_graph_keeps_serving_witness:
  "compute_ready 1 (pw_status (sy_world (sample_sync (SyList (Inr ()) (Listed (Some 1) dangling_list)) serving))) \<and>
   compute_ready 1 (pw_status (sy_world (sample_sync (SyMessage (MsgEvents None [dangling_event])) (serving\<lparr>sy_phase := SWatch\<rparr>))))"
proof
  have "is_ok (graph_snapshot_from_list dangling_list 1 ''/apisix/'')" by code_simp
  then obtain g where g: "graph_snapshot_from_list dangling_list 1 ''/apisix/'' = Inr g"
    by (cases "graph_snapshot_from_list dangling_list 1 ''/apisix/''") simp_all
  have "case replace_all sample_externals tag_cipher None (projr (graph_snapshot_from_list dangling_list 1 ''/apisix/'')) (sy_world serving) of
      Inl (InvalidCandidate _) \<Rightarrow> True | _ \<Rightarrow> False" by code_simp
  then obtain e where e: "replace_all sample_externals tag_cipher None g (sy_world serving) = Inl (InvalidCandidate e)"
    by (auto simp: g split: sum.splits graph_error.splits)
  have "rejects sample_externals tag_cipher None ''/apisix/'' serving (SyList (Inr ()) (Listed (Some 1) dangling_list)) (InvalidCandidate e)"
    using serving_simps g e by (simp add: rejects_def)
  from rejected_graph_keeps_serving [OF serving_simps(3-5) this]
  show "compute_ready 1 (pw_status (sy_world (sample_sync (SyList (Inr ()) (Listed (Some 1) dangling_list)) serving)))"
    by (simp add: Let_def)
next
  let ?y = "serving\<lparr>sy_phase := SWatch\<rparr>" and ?b = "\<lambda>changes. \<lparr>wb_revision = batch_revision [dangling_event], wb_changes = changes\<rparr>"
  have "is_ok (graph_changes_from_events [dangling_event] ''/apisix/'')" by code_simp
  then obtain changes where c: "graph_changes_from_events [dangling_event] ''/apisix/'' = Inr changes"
    by (cases "graph_changes_from_events [dangling_event] ''/apisix/''") simp_all
  have "case apply_watch sample_externals tag_cipher None (?b (projr (graph_changes_from_events [dangling_event] ''/apisix/''))) (sy_world serving) of
      Inl (InvalidCandidate _) \<Rightarrow> True | _ \<Rightarrow> False" by code_simp
  then obtain e where e: "apply_watch sample_externals tag_cipher None (?b changes) (sy_world serving) = Inl (InvalidCandidate e)"
    by (auto simp: c split: sum.splits graph_error.splits)
  have "rejects sample_externals tag_cipher None ''/apisix/'' ?y (SyMessage (MsgEvents None [dangling_event])) (InvalidCandidate e)"
    using serving_simps c e by (simp add: rejects_def)
  from rejected_graph_keeps_serving [OF _ _ _ this] serving_simps
  show "compute_ready 1 (pw_status (sy_world (sample_sync (SyMessage (MsgEvents None [dangling_event])) ?y)))"
    by (simp add: Let_def)
qed

lemma malformed_key_closes_readiness_witness:
  "let y1 = sample_sync (SyList (Inr ()) (Listed (Some 1) foreign_list)) serving;
      y2 = sample_sync SyWake y1;
      y3 = sample_sync (SyList (Inr ()) (Listed (Some 1) foreign_list)) y2
   in compute_ready 1 (pw_status (sy_world serving)) \<and> \<not> compute_ready 1 (pw_status (sy_world y3))"
proof -
  have "\<not> is_ok (graph_snapshot_from_list foreign_list 1 ''/apisix/'')" by code_simp
  then obtain e where e: "graph_snapshot_from_list foreign_list 1 ''/apisix/'' = Inl e"
    by (cases "graph_snapshot_from_list foreign_list 1 ''/apisix/''") simp_all
  have "compute_ready 1 (pw_status (sy_world serving))" by code_simp
  then show ?thesis
    using malformed_key_closes_readiness [OF serving_simps(1,2,4) e e, of sample_externals tag_cipher None "\<lambda>_ _ _. None" "\<lambda>_. []" 0
        "Inr ()" 0 0 1]
    unfolding Let_def by blast
qed

end
