(* ===== verification/Credentials.thy ===== *)
theory Credentials
  imports Request Plugin_Core
begin

text \<open>
  The credentials of a request as the plugins record them: comparison of secrets by digest
  (\<open>src/core/secret.rs\<close>), the credential fields of \<open>ProxyContext\<close> (\<open>src/core/plugin/pipeline.rs\<close>), and
  their capture when a request arrives (\<open>src/service/http.rs\<close>, \<open>src/plugins/cache/http.rs\<close>).

  The hash is a parameter. That two inputs never collide is a hypothesis about the inputs at hand,
  \<open>collision_free\<close>. Raw header values are the parameter \<open>raw\<close>; \<open>raw_ok\<close> relates it to the readable values
  of \<open>http_lib\<close> and restricts it to the bytes the http crate lets into a value.
\<close>

section \<open>Header values\<close>

definition visible_ascii :: "char \<Rightarrow> bool" where
  "visible_ascii b \<longleftrightarrow> (32 \<le> (of_char b :: nat) \<and> (of_char b :: nat) < 127) \<or> b = CHR 0x09"

definition to_str :: "string \<Rightarrow> string option" where
  "to_str v = (if list_all visible_ascii v then Some v else None)"

definition field_byte :: "char \<Rightarrow> bool" where
  "field_byte b \<longleftrightarrow> (32 \<le> (of_char b :: nat) \<and> (of_char b :: nat) \<noteq> 127) \<or> b = CHR 0x09"

definition raw_ok :: "'h http_lib \<Rightarrow> ('h \<Rightarrow> string \<Rightarrow> string list) \<Rightarrow> bool" where
  "raw_ok H raw \<longleftrightarrow> (\<forall>h k. hl_get_all H h k = map to_str (raw h k) \<and> (\<forall>v \<in> set (raw h k). \<forall>b \<in> set v. field_byte b))"

section \<open>Digests\<close>

definition hex_digit :: "nat \<Rightarrow> char" where
  "hex_digit d = char_of (if d < 10 then 48 + d else 87 + d)"

definition hex_encode :: "string \<Rightarrow> string" where
  "hex_encode s = concat (map (\<lambda>c. [hex_digit (of_char c div 16), hex_digit (of_char c mod 16)]) s)"

definition secret_digest :: "(string \<Rightarrow> string) \<Rightarrow> string \<Rightarrow> string" where
  "secret_digest sha value = sha value"

definition constant_time_digest_eq :: "string \<Rightarrow> string \<Rightarrow> bool" where
  "constant_time_digest_eq a b \<longleftrightarrow> a = b"

definition constant_time_eq :: "(string \<Rightarrow> string) \<Rightarrow> string \<Rightarrow> string \<Rightarrow> bool" where
  "constant_time_eq sha a b \<longleftrightarrow> constant_time_digest_eq (secret_digest sha a) (secret_digest sha b)"

definition collision_free :: "(string \<Rightarrow> string) \<Rightarrow> string set \<Rightarrow> bool" where
  "collision_free sha S \<longleftrightarrow> inj_on sha S \<and> (\<forall>s. length (sha s) = 32)"

section \<open>The request context\<close>

text \<open>Variables are typed at run time: reading one at another type finds nothing. \<open>'j\<close> are the claims of a
  token, \<open>'c\<close> the settings of the cache.\<close>

datatype ('j, 'c) any = AnyBool bool | AnyString string | AnyClaims 'j | AnyCache 'c

record ('j, 'c) proxy_ctx =
  original_request_had_credentials :: bool
  request_has_credentials :: bool
  original_credential_digest :: "string option"
  noted_credential_digest :: "string option"
  cx_vars :: "string \<Rightarrow> ('j, 'c) any option"

definition ctx_default :: "('j, 'c) proxy_ctx" where
  "ctx_default = \<lparr>original_request_had_credentials = False, request_has_credentials = False,
     original_credential_digest = None, noted_credential_digest = None, cx_vars = (\<lambda>_. None)\<rparr>"

definition mark_request_has_credentials :: "('j, 'c) proxy_ctx \<Rightarrow> ('j, 'c) proxy_ctx" where
  "mark_request_has_credentials cx = cx\<lparr>request_has_credentials := True, original_request_had_credentials := True\<rparr>"

abbreviation NUL :: char where "NUL \<equiv> CHR 0x00"

definition note_input :: "string option \<Rightarrow> string \<Rightarrow> string" where
  "note_input previous credential = ''pingsix-request-credential-v1'' @ [NUL] @
     (case previous of Some digest \<Rightarrow> digest @ [NUL] | None \<Rightarrow> []) @ credential"

definition note_request_credential :: "(string \<Rightarrow> string) \<Rightarrow> string \<Rightarrow> ('j, 'c) proxy_ctx \<Rightarrow> ('j, 'c) proxy_ctx" where
  "note_request_credential sha credential cx =
     cx\<lparr>noted_credential_digest := Some (hex_encode (sha (note_input (noted_credential_digest cx) credential)))\<rparr>"

definition ctx_set :: "string \<Rightarrow> ('j, 'c) any \<Rightarrow> ('j, 'c) proxy_ctx \<Rightarrow> ('j, 'c) proxy_ctx" where
  "ctx_set key val cx = cx\<lparr>cx_vars := (cx_vars cx)(key \<mapsto> val)\<rparr>"

definition ctx_get_bool :: "('j, 'c) proxy_ctx \<Rightarrow> string \<Rightarrow> bool option" where
  "ctx_get_bool cx key = (case cx_vars cx key of Some (AnyBool b) \<Rightarrow> Some b | _ \<Rightarrow> None)"

definition ctx_get_str :: "('j, 'c) proxy_ctx \<Rightarrow> string \<Rightarrow> string option" where
  "ctx_get_str cx key = (case cx_vars cx key of Some (AnyString s) \<Rightarrow> Some s | _ \<Rightarrow> None)"

section \<open>Capture\<close>

definition contains_key :: "('h \<Rightarrow> string \<Rightarrow> string list) \<Rightarrow> 'h \<Rightarrow> string \<Rightarrow> bool" where
  "contains_key raw h name \<longleftrightarrow> raw h name \<noteq> []"

definition CREDENTIAL_HEADERS :: "string list" where
  "CREDENTIAL_HEADERS = [''authorization'', ''proxy-authorization'', ''cookie'']"

definition headers_indicate_shared_cache_credentials :: "('h \<Rightarrow> string \<Rightarrow> string list) \<Rightarrow> 'h \<Rightarrow> bool" where
  "headers_indicate_shared_cache_credentials raw h \<longleftrightarrow>
     contains_key raw h ''authorization'' \<or> contains_key raw h ''proxy-authorization'' \<or> contains_key raw h ''cookie''"

definition ISOLATION_DOMAIN :: string where
  "ISOLATION_DOMAIN = ''pingsix-cache-consumer-isolation-v1'' @ [NUL]"

definition credential_field :: "string \<Rightarrow> string list \<Rightarrow> string" where
  "credential_field name vs = name @ [if vs \<noteq> [] then CHR 0x01 else NUL] @ concat (map (\<lambda>v. v @ [NUL]) vs)"

definition credential_input :: "('h \<Rightarrow> string \<Rightarrow> string list) \<Rightarrow> 'h \<Rightarrow> string" where
  "credential_input raw h =
     ISOLATION_DOMAIN @ concat (map (\<lambda>name. credential_field name (raw h name)) CREDENTIAL_HEADERS)"

definition credential_cache_key_component :: "(string \<Rightarrow> string) \<Rightarrow> ('h \<Rightarrow> string \<Rightarrow> string list) \<Rightarrow> 'h \<Rightarrow> string" where
  "credential_cache_key_component sha raw h = hex_encode (sha (credential_input raw h))"

definition capture_credentials ::
    "(string \<Rightarrow> string) \<Rightarrow> ('h \<Rightarrow> string \<Rightarrow> string list) \<Rightarrow> 'h request \<Rightarrow> ('j, 'c) proxy_ctx \<Rightarrow> ('j, 'c) proxy_ctx" where
  "capture_credentials sha raw r cx =
     (let cx = cx\<lparr>original_request_had_credentials := headers_indicate_shared_cache_credentials raw (rh_headers r)\<rparr>
      in if original_request_had_credentials cx
         then cx\<lparr>request_has_credentials := True,
                 original_credential_digest := Some (credential_cache_key_component sha raw (rh_headers r))\<rparr>
         else cx)"

text \<open>The part of a cache key that keeps consumers apart.\<close>

definition isolation_input :: "('j, 'c) proxy_ctx \<Rightarrow> string" where
  "isolation_input cx = ISOLATION_DOMAIN @ unwrap_or (original_credential_digest cx) [] @ [NUL] @
     unwrap_or (noted_credential_digest cx) []"

definition consumer_isolation_component :: "(string \<Rightarrow> string) \<Rightarrow> ('j, 'c) proxy_ctx \<Rightarrow> string" where
  "consumer_isolation_component sha cx = hex_encode (sha (isolation_input cx))"

section \<open>Hexadecimal digests\<close>

lemma hex_digits_distinct: "distinct (map hex_digit [0..<16])"
  by code_simp

lemma hex_digit_inj: "c < 16 \<Longrightarrow> d < 16 \<Longrightarrow> hex_digit c = hex_digit d \<longleftrightarrow> c = d"
  using hex_digits_distinct nth_eq_iff_index_eq [of "map hex_digit [0..<16]" c d] by simp

lemma of_char_digits: "(of_char c :: nat) div 16 < 16" "(of_char c :: nat) mod 16 < 16"
proof -
  have "(of_char c :: nat) = of_char c mod 256" by simp
  then have "(of_char c :: nat) < 256" by (metis mod_less_divisor zero_less_numeral)
  then show "(of_char c :: nat) div 16 < 16" by (intro less_mult_imp_div_less) simp
qed simp

lemma hex_byte_inj:
  "hex_digit (of_char c div 16) = hex_digit (of_char d div 16) \<Longrightarrow> hex_digit (of_char c mod 16) = hex_digit (of_char d mod 16) \<Longrightarrow> c = d"
proof -
  assume "hex_digit (of_char c div 16) = hex_digit (of_char d div 16)" "hex_digit (of_char c mod 16) = hex_digit (of_char d mod 16)"
  then have "(of_char c :: nat) div 16 = of_char d div 16" "(of_char c :: nat) mod 16 = of_char d mod 16"
    using hex_digit_inj of_char_digits by simp_all
  then have "(of_char c :: nat) = of_char d" using div_mult_mod_eq by metis
  then show "c = d" by simp
qed

lemma hex_encode_inj: "hex_encode s = hex_encode t \<longleftrightarrow> s = t"
proof (induction s arbitrary: t)
  case Nil
  show ?case by (cases t) (simp_all add: hex_encode_def)
next
  case (Cons c s)
  show ?case
  proof (cases t)
    case (Cons d t')
    then show ?thesis using Cons.IH [of t'] hex_byte_inj [of c d] by (auto simp: hex_encode_def)
  qed (simp add: hex_encode_def)
qed

lemma length_hex_encode [simp]: "length (hex_encode s) = 2 * length s"
  by (induction s) (auto simp: hex_encode_def)

lemma hex_no_NUL: "d < 16 \<Longrightarrow> hex_digit d \<noteq> NUL"
proof -
  assume "d < 16"
  then have "(of_char (hex_digit d) :: nat) \<noteq> of_char NUL" by (simp add: hex_digit_def)
  then show ?thesis by metis
qed

lemma hex_encode_no_NUL: "NUL \<notin> set (hex_encode s)"
proof (induction s)
  case (Cons c s)
  then show ?case using hex_no_NUL [OF of_char_digits(1) [of c]] hex_no_NUL [OF of_char_digits(2) [of c]]
    by (simp add: hex_encode_def)
qed (simp add: hex_encode_def)

lemma collision_freeD:
  assumes "collision_free sha S" and "s \<in> S" and "t \<in> S"
  shows "hex_encode (sha s) = hex_encode (sha t) \<longleftrightarrow> s = t"
  using assms by (auto simp: collision_free_def hex_encode_inj inj_on_def)

lemma length_digest: "collision_free sha S \<Longrightarrow> length (hex_encode (sha s)) = 64"
  by (simp add: collision_free_def)

section \<open>What a digest says of the credentials\<close>

text \<open>The bytes hashed for a request are tokens without control bytes, each ended by one.\<close>

definition ctl_free :: "string \<Rightarrow> bool" where
  "ctl_free s \<longleftrightarrow> NUL \<notin> set s \<and> CHR 0x01 \<notin> set s"

lemma tokens_inj:
  assumes "\<forall>(t, d) \<in> set ts. ctl_free t \<and> d \<in> {NUL, CHR 0x01}" and "\<forall>(t, d) \<in> set us. ctl_free t \<and> d \<in> {NUL, CHR 0x01}"
    and "concat (map (\<lambda>(t, d). t @ [d]) ts) = concat (map (\<lambda>(t, d). t @ [d]) us)"
  shows "ts = us"
  using assms
proof (induction ts arbitrary: us)
  case Nil
  then show ?case by (cases us) auto
next
  case (Cons x ts)
  obtain t d where x: "x = (t, d)" by (cases x)
  show ?case
  proof (cases us)
    case Nil
    then show ?thesis using Cons.prems x by auto
  next
    case (Cons y us')
    obtain u e where y: "y = (u, e)" by (cases y)
    let ?rest = "\<lambda>ts. concat (map (\<lambda>(t, d). t @ [d]) ts)"
    have eq: "t @ d # ?rest ts = u @ e # ?rest us'" using Cons.prems(3) x y Cons by simp
    have t: "ctl_free t" "d \<in> {NUL, CHR 0x01}" "ctl_free u" "e \<in> {NUL, CHR 0x01}" using Cons.prems(1,2) x y Cons by auto
    let ?P = "\<lambda>c. c \<noteq> NUL \<and> c \<noteq> CHR 0x01"
    have "takeWhile ?P (t @ d # ?rest ts) = t" "takeWhile ?P (u @ e # ?rest us') = u"
      using t by (auto simp: ctl_free_def takeWhile_append)
    then have "t = u" using eq by simp
    then have "ts = us'" using eq Cons.IH [of us'] Cons.prems Cons by simp
    then show ?thesis using \<open>t = u\<close> eq x y Cons by simp
  qed
qed

definition field_tokens :: "string \<Rightarrow> string list \<Rightarrow> (string \<times> char) list" where
  "field_tokens name vs = (name, if vs \<noteq> [] then CHR 0x01 else NUL) # map (\<lambda>v. (v, NUL)) vs"

lemma credential_field_tokens: "credential_field name vs = concat (map (\<lambda>(t, d). t @ [d]) (field_tokens name vs))"
  by (simp add: credential_field_def field_tokens_def comp_def)


lemma field_byte_token: "\<forall>b \<in> set v. field_byte b \<Longrightarrow> ctl_free v"
proof -
  have "\<not> field_byte NUL" "\<not> field_byte (CHR 0x01)" by code_simp+
  then show "\<forall>b \<in> set v. field_byte b \<Longrightarrow> ctl_free v" by (auto simp: ctl_free_def)
qed

lemma name_tokens: "name \<in> set CREDENTIAL_HEADERS \<Longrightarrow> ctl_free name"
proof -
  have "list_all ctl_free CREDENTIAL_HEADERS" by code_simp
  then show "name \<in> set CREDENTIAL_HEADERS \<Longrightarrow> ctl_free name" by (auto simp: list_all_iff)
qed

lemma split_at_unique:
  "xs @ y # zs = xs' @ y # zs' \<Longrightarrow> y \<notin> set xs \<Longrightarrow> y \<notin> set xs' \<Longrightarrow> xs = xs' \<and> zs = zs'"
  by (induction xs arbitrary: xs') (auto simp: Cons_eq_append_conv)

lemma marks: "filter (\<lambda>(t, d). d = CHR 0x01) (field_tokens name vs) = (if vs \<noteq> [] then [(name, CHR 0x01)] else [])"
  by (auto simp: field_tokens_def filter_empty_conv)

definition ended :: "string list \<Rightarrow> (string \<times> char) list" where
  "ended vs = map (\<lambda>v. (v, NUL)) vs"

lemma ended_inj: "ended vs = ended us \<longleftrightarrow> vs = us"
  unfolding ended_def by (rule inj_map_eq_map) (simp add: inj_on_def)

lemma ended_mark: "(n, CHR 0x01) \<notin> set (ended vs)"
  by (auto simp: ended_def)

lemma two_fields_inj:
  assumes "ended as @ field_tokens p ps @ field_tokens c cs = ended as' @ field_tokens p ps' @ field_tokens c cs'" and "p \<noteq> c"
  shows "as = as' \<and> ps = ps' \<and> cs = cs'"
proof -
  let ?one = "CHR 0x01"
  have none: "filter (\<lambda>(t, d). d = ?one) (ended vs) = []" for vs by (auto simp: ended_def filter_empty_conv)
  have "filter (\<lambda>(t, d). d = ?one) (ended as @ field_tokens p ps @ field_tokens c cs) =
      filter (\<lambda>(t, d). d = ?one) (ended as' @ field_tokens p ps' @ field_tokens c cs')" by (simp only: assms(1))
  then have present: "ps = [] \<longleftrightarrow> ps' = []" "cs = [] \<longleftrightarrow> cs' = []"
    unfolding filter_append none marks using assms(2) by (auto split: if_splits)
  have field: "field_tokens n vs = (n, if vs \<noteq> [] then ?one else NUL) # ended vs" for n vs
    by (simp add: field_tokens_def ended_def)
  note eq = assms(1) [unfolded field]
  show ?thesis
  proof (cases "ps = []")
    case True
    then have "ps' = []" using present by simp
    show ?thesis
    proof (cases "cs = []")
      case True
      then have "cs' = []" using present by simp
      then have "ended as @ [(p, NUL), (c, NUL)] = ended as' @ [(p, NUL), (c, NUL)]"
        using eq \<open>ps = []\<close> \<open>ps' = []\<close> True by (simp add: ended_def)
      then show ?thesis using \<open>ps = []\<close> \<open>ps' = []\<close> True \<open>cs' = []\<close> by (simp add: ended_inj)
    next
      case False
      then have "cs' \<noteq> []" using present by simp
      then have "(ended as @ [(p, NUL)]) @ (c, ?one) # ended cs = (ended as' @ [(p, NUL)]) @ (c, ?one) # ended cs'"
        using eq \<open>ps = []\<close> \<open>ps' = []\<close> False by (simp add: ended_def)
      then have "ended as @ [(p, NUL)] = ended as' @ [(p, NUL)] \<and> ended cs = ended cs'"
        by (rule split_at_unique) (simp_all add: ended_mark)
      then show ?thesis using \<open>ps = []\<close> \<open>ps' = []\<close> by (simp add: ended_inj)
    qed
  next
    case False
    then have ps': "ps' \<noteq> []" using present by simp
    let ?tail = "\<lambda>cs. (c, if cs \<noteq> [] then ?one else NUL) # ended cs"
    have "ended as @ (p, ?one) # (ended ps @ ?tail cs) = ended as' @ (p, ?one) # (ended ps' @ ?tail cs')"
      using eq False ps' by simp
    then have split: "ended as = ended as' \<and> ended ps @ ?tail cs = ended ps' @ ?tail cs'"
      by (rule split_at_unique) (simp_all add: ended_mark)
    show ?thesis
    proof (cases "cs = []")
      case True
      then have "cs' = []" using present by simp
      then have "ended ps @ [(c, NUL)] = ended ps' @ [(c, NUL)]" using split True by (simp add: ended_def [of "[]"])
      then show ?thesis using split True \<open>cs' = []\<close> by (simp add: ended_inj)
    next
      case False
      then have "cs' \<noteq> []" using present by simp
      then have "ended ps @ (c, ?one) # ended cs = ended ps' @ (c, ?one) # ended cs'" using split False by simp
      then have "ended ps = ended ps' \<and> ended cs = ended cs'" by (rule split_at_unique) (simp_all add: ended_mark)
      then show ?thesis using split by (simp add: ended_inj)
    qed
  qed
qed

text \<open>The input of the digest determines all values of the three credential headers, in their order.\<close>

lemma credential_input_inj:
  assumes "raw_ok H raw" and "credential_input raw h = credential_input raw h'" and "name \<in> set CREDENTIAL_HEADERS"
  shows "raw h name = raw h' name"
proof -
  let ?tokens = "\<lambda>h. concat (map (\<lambda>name. field_tokens name (raw h name)) CREDENTIAL_HEADERS)"
  have input: "credential_input raw h = ISOLATION_DOMAIN @ concat (map (\<lambda>(t, d). t @ [d]) (?tokens h))" for h
    by (simp add: credential_input_def credential_field_tokens CREDENTIAL_HEADERS_def)
  have ok: "\<forall>(t, d) \<in> set (?tokens h). ctl_free t \<and> d \<in> {NUL, CHR 0x01}" for h
    using assms(1) name_tokens field_byte_token by (fastforce simp: raw_ok_def field_tokens_def)
  have "concat (map (\<lambda>(t, d). t @ [d]) (?tokens h)) = concat (map (\<lambda>(t, d). t @ [d]) (?tokens h'))"
    using assms(2) by (simp only: input same_append_eq)
  then have eq: "?tokens h = ?tokens h'" by (rule tokens_inj [OF ok ok])
  let ?a = "''authorization''" and ?p = "''proxy-authorization''" and ?c = "''cookie''"
  have "ended (raw h ?a) @ field_tokens ?p (raw h ?p) @ field_tokens ?c (raw h ?c) =
      ended (raw h' ?a) @ field_tokens ?p (raw h' ?p) @ field_tokens ?c (raw h' ?c)"
    using eq unfolding CREDENTIAL_HEADERS_def by (simp add: field_tokens_def [of ?a] ended_def)
  then have "raw h ?a = raw h' ?a \<and> raw h ?p = raw h' ?p \<and> raw h ?c = raw h' ?c" by (rule two_fields_inj) simp
  then show ?thesis using assms(3) by (auto simp: CREDENTIAL_HEADERS_def)
qed


text \<open>The chain of verified credentials.\<close>

definition noted_digest :: "(string \<Rightarrow> string) \<Rightarrow> string list \<Rightarrow> string option" where
  "noted_digest sha cs = foldl (\<lambda>d c. Some (hex_encode (sha (note_input d c)))) None cs"

definition note_inputs :: "(string \<Rightarrow> string) \<Rightarrow> string list \<Rightarrow> string set" where
  "note_inputs sha cs = (\<lambda>i. note_input (noted_digest sha (take i cs)) (cs ! i)) ` {..<length cs}"

lemma noted_digest_simps [simp]:
  "noted_digest sha [] = None"
  "noted_digest sha (cs @ [c]) = Some (hex_encode (sha (note_input (noted_digest sha cs) c)))"
  by (simp_all add: noted_digest_def)

lemma note_inputs_simps [simp]:
  "note_inputs sha [] = {}"
  "note_inputs sha (cs @ [c]) = insert (note_input (noted_digest sha cs) c) (note_inputs sha cs)"
  by (auto simp: note_inputs_def lessThan_Suc nth_append intro!: image_cong)

lemma noted_credentials:
  "noted_credential_digest (fold (note_request_credential sha) cs cx) =
     foldl (\<lambda>d c. Some (hex_encode (sha (note_input d c)))) (noted_credential_digest cx) cs"
  by (induction cs arbitrary: cx) (simp_all add: note_request_credential_def)

lemma noted_digest_shape: "noted_digest sha cs = Some d \<Longrightarrow> NUL \<notin> set d"
  by (cases cs rule: rev_cases) (auto simp: hex_encode_no_NUL)

lemma noted_digest_None: "noted_digest sha cs = None \<longleftrightarrow> cs = []"
  by (cases cs rule: rev_cases) auto

lemma note_input_inj:
  assumes "note_input (noted_digest sha cs) c = note_input (noted_digest sha ds) d" and "NUL \<notin> set c" and "NUL \<notin> set d"
  shows "noted_digest sha cs = noted_digest sha ds \<and> c = d"
proof (cases "noted_digest sha cs"; cases "noted_digest sha ds")
  fix x y assume x: "noted_digest sha cs = Some x" and y: "noted_digest sha ds = Some y"
  have "x @ NUL # c = y @ NUL # d" using assms(1) unfolding note_input_def x y by simp
  then have "x = y \<and> c = d" by (rule split_at_unique) (use x y noted_digest_shape in auto)
  then show ?thesis using x y by simp
qed (use assms in \<open>auto simp: note_input_def\<close>)

lemma noted_digest_inj:
  assumes "collision_free sha S" and "note_inputs sha cs \<union> note_inputs sha ds \<subseteq> S"
    and "\<forall>c \<in> set (cs @ ds). NUL \<notin> set c" and "noted_digest sha cs = noted_digest sha ds"
  shows "cs = ds"
  using assms(2-4)
proof (induction cs arbitrary: ds rule: rev_induct)
  case Nil
  then show ?case by (metis noted_digest_None)
next
  case (snoc c cs)
  then have "ds \<noteq> []" by (metis noted_digest_None append_is_Nil_conv list.distinct(1))
  then obtain d es where ds: "ds = es @ [d]" by (metis rev_exhaust)
  have "note_input (noted_digest sha cs) c = note_input (noted_digest sha es) d"
    using snoc.prems collision_freeD [OF assms(1)] unfolding ds by auto
  then have "noted_digest sha cs = noted_digest sha es \<and> c = d" using snoc.prems(2) note_input_inj unfolding ds by auto
  moreover from this have "cs = es" using snoc.IH [of es] snoc.prems unfolding ds by auto
  ultimately show ?case using ds by simp
qed

section \<open>Requests with their credentials\<close>

text \<open>A request that arrived with headers \<open>h\<close> and whose credentials \<open>cs\<close> were verified one after another.\<close>

definition identified :: "(string \<Rightarrow> string) \<Rightarrow> ('h \<Rightarrow> string \<Rightarrow> string list) \<Rightarrow> 'h request \<Rightarrow> string list \<Rightarrow> ('j, 'c) proxy_ctx \<Rightarrow> bool" where
  "identified sha raw r cs cx \<longleftrightarrow>
     original_credential_digest cx = original_credential_digest (capture_credentials sha raw r (ctx_default :: ('j, 'c) proxy_ctx)) \<and>
     noted_credential_digest cx = noted_digest sha cs \<and> (\<forall>c \<in> set cs. NUL \<notin> set c)"

definition identity_inputs :: "(string \<Rightarrow> string) \<Rightarrow> ('h \<Rightarrow> string \<Rightarrow> string list) \<Rightarrow> 'h request \<Rightarrow> string list \<Rightarrow> ('j, 'c) proxy_ctx \<Rightarrow> string set" where
  "identity_inputs sha raw r cs cx =
     insert (isolation_input cx) (insert (credential_input raw (rh_headers r)) (note_inputs sha cs))"

lemma captured_digest:
  "original_credential_digest (capture_credentials sha raw r ctx_default) =
     (if \<exists>name \<in> set CREDENTIAL_HEADERS. raw (rh_headers r) name \<noteq> []
      then Some (hex_encode (sha (credential_input raw (rh_headers r)))) else None)"
  by (auto simp: capture_credentials_def headers_indicate_shared_cache_credentials_def contains_key_def
      CREDENTIAL_HEADERS_def ctx_default_def credential_cache_key_component_def)

lemma isolation_component_inj:
  assumes raw: "raw_ok H raw" and free: "collision_free sha (identity_inputs sha raw r cs cx \<union> identity_inputs sha raw r' cs' cx')"
    and r: "identified sha raw r cs cx" "identified sha raw r' cs' cx'"
    and eq: "consumer_isolation_component sha cx = consumer_isolation_component sha cx'"
  shows "cs = cs' \<and> (\<forall>name \<in> set CREDENTIAL_HEADERS. raw (rh_headers r) name = raw (rh_headers r') name)"
proof -
  let ?S = "identity_inputs sha raw r cs cx \<union> identity_inputs sha raw r' cs' cx'"
  note ids = r [unfolded identified_def captured_digest]
  have "isolation_input cx = isolation_input cx'"
    using eq collision_freeD [OF free] by (simp add: consumer_isolation_component_def identity_inputs_def)
  then have input: "unwrap_or (original_credential_digest cx) [] @ NUL # unwrap_or (noted_credential_digest cx) [] =
      unwrap_or (original_credential_digest cx') [] @ NUL # unwrap_or (noted_credential_digest cx') []"
    by (simp add: isolation_input_def)
  have "NUL \<notin> set (unwrap_or (original_credential_digest cx) [])" "NUL \<notin> set (unwrap_or (original_credential_digest cx') [])"
    using ids by (auto simp: unwrap_or_def hex_encode_no_NUL split: option.splits if_splits)
  with input have both: "unwrap_or (original_credential_digest cx) [] = unwrap_or (original_credential_digest cx') [] \<and>
      unwrap_or (noted_credential_digest cx) [] = unwrap_or (noted_credential_digest cx') []"
    by (rule split_at_unique)
  have full: "hex_encode (sha s) \<noteq> []" for s
    using length_digest [OF free, of s] by (metis list.size(3) zero_neq_numeral)
  have "noted_digest sha cs = noted_digest sha cs'"
    using both ids full full [symmetric] by (cases cs rule: rev_cases; cases cs' rule: rev_cases) (auto simp: unwrap_or_def)
  moreover have "\<forall>c \<in> set (cs @ cs'). NUL \<notin> set c" using ids by auto
  moreover have "note_inputs sha cs \<union> note_inputs sha cs' \<subseteq> ?S" by (auto simp: identity_inputs_def)
  ultimately have "cs = cs'" using noted_digest_inj [OF free] by blast
  moreover have "raw (rh_headers r) name = raw (rh_headers r') name" if "name \<in> set CREDENTIAL_HEADERS" for name
  proof (cases "\<exists>n \<in> set CREDENTIAL_HEADERS. raw (rh_headers r) n \<noteq> []")
    case True
    then have "\<exists>n \<in> set CREDENTIAL_HEADERS. raw (rh_headers r') n \<noteq> []"
      using both ids full full [symmetric] by (auto simp: unwrap_or_def split: if_splits)
    then have "hex_encode (sha (credential_input raw (rh_headers r))) = hex_encode (sha (credential_input raw (rh_headers r')))"
      using both ids True by (simp add: unwrap_or_def)
    then have "credential_input raw (rh_headers r) = credential_input raw (rh_headers r')"
      using collision_freeD [OF free] by (simp add: identity_inputs_def)
    then show ?thesis using credential_input_inj [OF raw _ that] by blast
  next
    case False
    then have "\<not> (\<exists>n \<in> set CREDENTIAL_HEADERS. raw (rh_headers r') n \<noteq> [])"
      using both ids full full [symmetric] by (auto simp: unwrap_or_def split: if_splits)
    then show ?thesis using False that by auto
  qed
  ultimately show ?thesis by blast
qed

end
