(* ===== verification/Auth.thy ===== *)
theory Auth
  imports Credentials
begin

text \<open>
  The authentication plugins: key-auth (\<open>src/plugins/key_auth.rs\<close>), basic-auth
  (\<open>src/plugins/basic_auth.rs\<close>), jwt-auth (\<open>src/plugins/jwt_auth.rs\<close>) and the csrf plugin
  (\<open>src/plugins/csrf.rs\<close>), with the realm check of \<open>src/plugins/config.rs\<close>.

  A configuration is the record of its typed fields; reading it from JSON is serde's. Base64, HMAC and
  the verification of a JWT are parameters. A hook runs on the session and the request context; slices
  of header text cannot split a character, since header text is ASCII.
\<close>

type_synonym ('h, 'j, 'c) exchange = "'h session \<times> ('j, 'c) proxy_ctx"

definition TEXT_PLAIN :: string where "TEXT_PLAIN = ''text/plain''"

definition WWW_AUTHENTICATE :: string where "WWW_AUTHENTICATE = ''WWW-Authenticate''"

definition AUTHORIZATION :: string where "AUTHORIZATION = ''authorization''"

definition unauthorized :: "string \<Rightarrow> string \<Rightarrow> filter_verdict" where
  "unauthorized message challenge =
     Reject (with_header WWW_AUTHENTICATE challenge
       (with_content_type TEXT_PLAIN (with_body message (rejection_new 401))))"

definition REALM_ERROR :: string where
  "REALM_ERROR = ''realm must be 1..=128 printable ASCII characters and cannot contain '' @ [CHR 0x22] @ '' or '' @ [CHR 0x5C]"

definition validate_apisix_realm :: "string \<Rightarrow> string + unit" where
  "validate_apisix_realm realm =
     (if 1 \<le> length realm \<and> length realm \<le> 128 \<and>
         list_all (\<lambda>b. 0x20 \<le> (of_char b :: nat) \<and> (of_char b :: nat) \<le> 0x7E \<and> b \<noteq> CHR 0x22 \<and> b \<noteq> CHR 0x5C) realm
      then Inr () else Inl REALM_ERROR)"

definition check_realm :: "string option \<Rightarrow> proxy_error + unit" where
  "check_realm realm =
     (case realm of None \<Rightarrow> Inr () | Some s \<Rightarrow> map_err PE_Validation (validate_apisix_realm s))"

definition quoted :: "string \<Rightarrow> string" where
  "quoted s = [CHR 0x22] @ s @ [CHR 0x22]"

definition remove_header :: "'h http_lib \<Rightarrow> 'h session \<Rightarrow> string \<Rightarrow> 'h session" where
  "remove_header H s name =
     s\<lparr>ss_request := (ss_request s)\<lparr>rh_headers := hl_remove H (rh_headers (ss_request s)) name\<rparr>\<rparr>"

definition hide_query :: "'h http_lib \<Rightarrow> string \<Rightarrow> 'h session \<Rightarrow> string \<Rightarrow> proxy_error + 'h session" where
  "hide_query H message s name =
     (case remove_query_from_header H (ss_request s) name of
        Inl e \<Rightarrow> Inl (PE_Validation (message @ e))
      | Inr r \<Rightarrow> Inr (s\<lparr>ss_request := r\<rparr>))"

section \<open>key-auth\<close>

record key_auth_config =
  ka_header :: string
  ka_query :: string
  ka_key :: "string option"
  ka_keys :: "string list"
  ka_hide_credentials :: bool
  ka_realm :: "string option"



record key_auth =
  ka_config :: key_auth_config
  ka_digests :: "string list"


datatype key_source = FromHeader | FromQuery | NoSource

definition presented_key :: "'h http_lib \<Rightarrow> key_auth_config \<Rightarrow> 'h request \<Rightarrow> string \<times> key_source" where
  "presented_key H c r =
     (case get_req_header_value H r (ka_header c) of
        Some val \<Rightarrow> (val, FromHeader)
      | None \<Rightarrow>
          (case (if ka_query c \<noteq> [] then get_query_value r (ka_query c) else None) of
             Some val \<Rightarrow> (val, FromQuery)
           | None \<Rightarrow> ([], NoSource)))"

definition is_valid_key :: "(string \<Rightarrow> string) \<Rightarrow> key_auth \<Rightarrow> string \<Rightarrow> bool" where
  "is_valid_key sha p provided_key =
     (let provided_digest = secret_digest sha provided_key
      in foldl (\<lambda>matched d. matched \<or> constant_time_digest_eq provided_digest d) False (ka_digests p))"

definition key_auth_challenge :: "key_auth_config \<Rightarrow> string" where
  "key_auth_challenge c =
     (case ka_realm c of
        Some realm \<Rightarrow> ''apikey realm='' @ quoted realm
      | None \<Rightarrow> ''ApiKey error='' @ quoted ''invalid_key'')"

definition key_auth_request_filter :: "(string \<Rightarrow> string) \<Rightarrow> 'h http_lib \<Rightarrow> key_auth \<Rightarrow>
    ('h, 'j, 'c) exchange \<Rightarrow> ('h, 'j, 'c) exchange \<times> (proxy_error + filter_verdict)" where
  "key_auth_request_filter sha H p x =
     (let (s, cx) = x; c = ka_config p;
          (val, source) = presented_key H c (ss_request s);
          cx = (if source \<noteq> NoSource then mark_request_has_credentials cx else cx)
      in if val = [] \<or> \<not> is_valid_key sha p val
         then ((s, cx), Inr (unauthorized ''Invalid user authorization'' (key_auth_challenge c)))
         else
           let cx = note_request_credential sha val cx
           in if ka_hide_credentials c
              then (case source of
                      FromHeader \<Rightarrow> ((remove_header H s (ka_header c), cx), Inr Continue)
                    | FromQuery \<Rightarrow>
                        (case hide_query H ''Failed to hide API key query credential: '' s (ka_query c) of
                           Inl e \<Rightarrow> ((s, cx), Inl e)
                         | Inr s \<Rightarrow> ((s, cx), Inr Continue))
                    | NoSource \<Rightarrow> ((s, cx), Inr Continue))
              else ((s, cx), Inr Continue))"

section \<open>basic-auth\<close>

record basic_auth_config =
  ba_username :: string
  ba_password :: string
  ba_hide_credentials :: bool
  ba_realm :: "string option"

definition basic_auth_check :: "basic_auth_config \<Rightarrow> proxy_error + unit" where
  "basic_auth_check c =
     (if ba_username c = [] then Inl (PE_ValidationStructured ''username'')
      else if ba_password c = [] then Inl (PE_ValidationStructured ''password'')
      else check_realm (ba_realm c))"

record basic_auth =
  ba_config :: basic_auth_config
  ba_username_digest :: string
  ba_password_digest :: string

definition create_basic_auth_plugin :: "(string \<Rightarrow> string) \<Rightarrow> basic_auth_config \<Rightarrow> proxy_error + basic_auth" where
  "create_basic_auth_plugin sha c =
     sum_bind (basic_auth_check c) (\<lambda>_.
       Inr \<lparr>ba_config = c, ba_username_digest = secret_digest sha (ba_username c),
            ba_password_digest = secret_digest sha (ba_password c)\<rparr>)"

definition basic_auth_challenge :: "basic_auth_config \<Rightarrow> string" where
  "basic_auth_challenge c =
     (case ba_realm c of
        Some realm \<Rightarrow> ''Basic realm='' @ quoted realm
      | None \<Rightarrow> ''Basic realm='' @ quoted ''pingsix'')"

definition validate_credentials ::
    "(string \<Rightarrow> string) \<Rightarrow> (string \<Rightarrow> string option) \<Rightarrow> basic_auth \<Rightarrow> string \<Rightarrow> bool" where
  "validate_credentials sha b64 p auth_value =
     (if length auth_value < 6 \<or> \<not> eq_ignore_ascii_case (take 6 auth_value) ''basic '' then False
      else case b64 (drop 6 auth_value) of
             None \<Rightarrow> False
           | Some decoded \<Rightarrow>
               if \<not> utf8_valid decoded then False
               else case split_once CHR '':'' decoded of
                      None \<Rightarrow> False
                    | Some (user, pass) \<Rightarrow>
                        constant_time_digest_eq (secret_digest sha user) (ba_username_digest p) \<and>
                        constant_time_digest_eq (secret_digest sha pass) (ba_password_digest p))"

definition basic_auth_request_filter :: "(string \<Rightarrow> string) \<Rightarrow> (string \<Rightarrow> string option) \<Rightarrow> 'h http_lib \<Rightarrow> basic_auth \<Rightarrow>
    ('h, 'j, 'c) exchange \<Rightarrow> ('h, 'j, 'c) exchange \<times> (proxy_error + filter_verdict)" where
  "basic_auth_request_filter sha b64 H p x =
     (let (s, cx) = x;
          auth_header = get_req_header_value H (ss_request s) AUTHORIZATION;
          cx = (if auth_header \<noteq> None then mark_request_has_credentials cx else cx);
          is_valid = (case auth_header of Some val \<Rightarrow> validate_credentials sha b64 p val | None \<Rightarrow> False)
      in if \<not> is_valid
         then ((s, cx), Inr (unauthorized ''Invalid user authorization'' (basic_auth_challenge (ba_config p))))
         else
           let cx = (case auth_header of Some credential \<Rightarrow> note_request_credential sha credential cx | None \<Rightarrow> cx);
               s = (if ba_hide_credentials (ba_config p) then remove_header H s AUTHORIZATION else s)
           in ((s, cx), Inr Continue))"

section \<open>jwt-auth\<close>

datatype algorithm = HS256 | HS384 | HS512 | ES256 | ES384 | RS256 | RS384 | RS512 | PS256 | PS384 | PS512 | EdDSA

record jwt_auth_config =
  ja_header :: string
  ja_query :: string
  ja_cookie :: string
  ja_hide_credentials :: bool
  ja_store_in_ctx :: bool
  ja_realm :: "string option"
  ja_claims_to_verify :: "string list option"
  ja_secret :: "string option"
  ja_algorithm :: algorithm
  ja_base64_secret :: bool
  ja_lifetime_grace_period :: "64 word"
  ja_public_key :: "string option"
  ja_iss :: "string option"
  ja_aud :: "string option"
  ja_required_claims :: "string list"

text \<open>Each entry is checked against those before it.\<close>

fun validate_claims_to_verify :: "string list \<Rightarrow> string list \<Rightarrow> string + unit" where
  "validate_claims_to_verify seen [] = Inr ()"
| "validate_claims_to_verify seen (claim # claims) =
     (if claim \<noteq> ''exp'' \<and> claim \<noteq> ''nbf''
      then Inl (''claims_to_verify entries must be '' @ quoted ''exp'' @ '' or '' @ quoted ''nbf'')
      else if claim \<in> set seen then Inl ''claims_to_verify entries must be unique''
      else validate_claims_to_verify (seen @ [claim]) claims)"

definition jwt_auth_check :: "jwt_auth_config \<Rightarrow> proxy_error + unit" where
  "jwt_auth_check c =
     sum_bind (case ja_claims_to_verify c of
                 Some claims \<Rightarrow> map_err PE_ValidationStructured (validate_claims_to_verify [] claims)
               | None \<Rightarrow> Inr ()) (\<lambda>_. check_realm (ja_realm c))"

text \<open>What the jsonwebtoken crate is asked to check; the defaults are those of \<open>Validation::new\<close>.\<close>

record validation =
  vl_algorithm :: algorithm
  vl_leeway :: "64 word"
  vl_validate_exp :: bool
  vl_validate_nbf :: bool
  vl_iss :: "string list option"
  vl_aud :: "string list option"
  vl_required_spec_claims :: "string set"

definition validation_new :: "algorithm \<Rightarrow> validation" where
  "validation_new a = \<lparr>vl_algorithm = a, vl_leeway = 60, vl_validate_exp = True, vl_validate_nbf = False,
     vl_iss = None, vl_aud = None, vl_required_spec_claims = {''exp''}\<rparr>"

definition require_claim :: "string \<Rightarrow> validation \<Rightarrow> validation" where
  "require_claim claim v = v\<lparr>vl_required_spec_claims := insert claim (vl_required_spec_claims v)\<rparr>"

definition verify_claim :: "string \<Rightarrow> validation \<Rightarrow> validation" where
  "verify_claim claim v =
     (let v = require_claim claim v in if claim = ''nbf'' then v\<lparr>vl_validate_nbf := True\<rparr> else v)"

definition build_validation :: "jwt_auth_config \<Rightarrow> validation" where
  "build_validation c =
     (let v = (validation_new (ja_algorithm c))\<lparr>vl_leeway := ja_lifetime_grace_period c\<rparr>;
          v = (case ja_iss c of Some iss \<Rightarrow> v\<lparr>vl_iss := Some [iss]\<rparr> | None \<Rightarrow> v);
          v = (case ja_aud c of Some aud \<Rightarrow> v\<lparr>vl_aud := Some [aud]\<rparr> | None \<Rightarrow> v);
          v = fold require_claim (ja_required_claims c) v
      in case ja_claims_to_verify c of Some claims \<Rightarrow> fold verify_claim claims v | None \<Rightarrow> v)"

datatype jwt_error =
    InvalidToken | InvalidSignature | ExpiredSignature | InvalidIssuer | InvalidAudience | InvalidSubject
  | ImmatureSignature | OtherKind string

record ('k, 'j) jwt_lib =
  jl_from_secret :: "string \<Rightarrow> 'k"
  jl_from_rsa_pem :: "string \<Rightarrow> string + 'k"
  jl_from_ec_pem :: "string \<Rightarrow> string + 'k"
  jl_from_ed_pem :: "string \<Rightarrow> string + 'k"
  jl_decode :: "string \<Rightarrow> 'k \<Rightarrow> validation \<Rightarrow> jwt_error + 'j"
  jl_base64 :: "string \<Rightarrow> string + string"

definition pem_key :: "string \<Rightarrow> string \<Rightarrow> (string \<Rightarrow> string + 'k) \<Rightarrow> string option \<Rightarrow> string + 'k" where
  "pem_key missing failed from_pem public_key =
     (case public_key of None \<Rightarrow> Inl missing | Some pem \<Rightarrow> map_err (\<lambda>e. failed @ e) (from_pem pem))"

definition get_decoding_key :: "('k, 'j) jwt_lib \<Rightarrow> jwt_auth_config \<Rightarrow> string + 'k" where
  "get_decoding_key J c =
     (if ja_algorithm c \<in> {HS256, HS384, HS512}
      then (case ja_secret c of
              None \<Rightarrow> Inl ''Secret is required for HMAC algorithms (HS256, HS384, HS512)''
            | Some secret \<Rightarrow>
                sum_bind (if ja_base64_secret c
                          then map_err (\<lambda>e. ''Failed to decode base64 secret: '' @ e) (jl_base64 J secret)
                          else Inr secret) (\<lambda>key. Inr (jl_from_secret J key)))
      else if ja_algorithm c \<in> {RS256, RS384, RS512, PS256, PS384, PS512}
      then pem_key ''Public key is required for RSA algorithms (RS256, RS384, RS512, PS256, PS384, PS512)''
             ''Failed to parse RSA public key: '' (jl_from_rsa_pem J) (ja_public_key c)
      else if ja_algorithm c \<in> {ES256, ES384}
      then pem_key ''Public key is required for ECDSA algorithms (ES256, ES384)''
             ''Failed to parse ECDSA public key: '' (jl_from_ec_pem J) (ja_public_key c)
      else pem_key ''Public key is required for EdDSA'' ''Failed to parse EdDSA public key: ''
             (jl_from_ed_pem J) (ja_public_key c))"

record 'k jwt_auth =
  ja_config :: jwt_auth_config
  ja_decoding_key :: 'k
  ja_validation :: validation

definition create_jwt_auth_plugin :: "('k, 'j) jwt_lib \<Rightarrow> jwt_auth_config \<Rightarrow> proxy_error + 'k jwt_auth" where
  "create_jwt_auth_plugin J c =
     sum_bind (jwt_auth_check c) (\<lambda>_.
     sum_bind (map_err (\<lambda>e. PE_Configuration (''Failed to create JWT decoding key: '' @ e)) (get_decoding_key J c))
       (\<lambda>key. Inr \<lparr>ja_config = c, ja_decoding_key = key, ja_validation = build_validation c\<rparr>))"

definition jwt_challenge_for :: "jwt_auth_config \<Rightarrow> string \<Rightarrow> string" where
  "jwt_challenge_for c error_msg =
     (case ja_realm c of
        Some realm \<Rightarrow> ''Bearer realm='' @ quoted realm
      | None \<Rightarrow> ''Bearer error='' @ quoted ''invalid_token'' @ '', error_description='' @ quoted error_msg)"

definition CLEAR_COOKIE_KEY :: string where "CLEAR_COOKIE_KEY = ''jwt_auth_clear_cookie''"

definition JWT_AUTH_PAYLOAD_KEY :: string where "JWT_AUTH_PAYLOAD_KEY = ''jwt-auth-payload''"

definition bearer_token :: "string \<Rightarrow> string" where
  "bearer_token header_val =
     (if 7 \<le> length header_val \<and> eq_ignore_ascii_case (take 7 header_val) ''bearer '' then drop 7 header_val else header_val)"

definition extract_from_header :: "'h http_lib \<Rightarrow> jwt_auth_config \<Rightarrow> 'h session \<Rightarrow> 'h session \<times> string option" where
  "extract_from_header H c s =
     (let token = map_option bearer_token (get_req_header_value H (ss_request s) (ja_header c))
      in (if token \<noteq> None \<and> ja_hide_credentials c then remove_header H s (ja_header c) else s, token))"

definition extract_token_from_query :: "jwt_auth_config \<Rightarrow> 'h request \<Rightarrow> string option" where
  "extract_token_from_query c r = (if ja_query c = [] then None else get_query_value r (ja_query c))"

definition extract_from_query :: "'h http_lib \<Rightarrow> jwt_auth_config \<Rightarrow> 'h session \<Rightarrow> proxy_error + 'h session \<times> string option" where
  "extract_from_query H c s =
     (let token = extract_token_from_query c (ss_request s)
      in if token \<noteq> None \<and> ja_hide_credentials c
         then sum_bind (hide_query H ''Failed to hide JWT query credential: '' s (ja_query c)) (\<lambda>s. Inr (s, token))
         else Inr (s, token))"

text \<open>On an error the hook ends, so the session it leaves is not read.\<close>

definition extract_from_cookie :: "'h http_lib \<Rightarrow> jwt_auth_config \<Rightarrow> ('h, 'j, 'c) exchange \<Rightarrow>
    proxy_error + ('h, 'j, 'c) exchange \<times> string option" where
  "extract_from_cookie H c x =
     (let (s, cx) = x; token = get_cookie_value H (ss_request s) (ja_cookie c)
      in if token \<noteq> None \<and> ja_hide_credentials c
         then (case remove_cookie_from_header H (ss_request s) (ja_cookie c) of
                 Inl e \<Rightarrow> Inl (PE_Validation (''Failed to hide JWT cookie credential: '' @ e))
               | Inr r \<Rightarrow> Inr ((s\<lparr>ss_request := r\<rparr>, ctx_set CLEAR_COOKIE_KEY (AnyString (ja_cookie c)) cx), token))
         else Inr ((s, cx), token))"

definition extract_token :: "'h http_lib \<Rightarrow> jwt_auth_config \<Rightarrow> ('h, 'j, 'c) exchange \<Rightarrow>
    proxy_error + ('h, 'j, 'c) exchange \<times> string option" where
  "extract_token H c x =
     (let (s, cx) = x; (s, token) = extract_from_header H c s
      in if token \<noteq> None then Inr ((s, cx), token)
         else sum_bind (extract_from_query H c s) (\<lambda>(s, token).
           if token \<noteq> None then Inr ((s, cx), token)
           else extract_from_cookie H c (s, cx)))"

fun jwt_error_message :: "jwt_error \<Rightarrow> string" where
  "jwt_error_message InvalidToken = ''Invalid token format''"
| "jwt_error_message InvalidSignature = ''Invalid signature''"
| "jwt_error_message ExpiredSignature = ''Token expired''"
| "jwt_error_message InvalidIssuer = ''Invalid issuer''"
| "jwt_error_message InvalidAudience = ''Invalid audience''"
| "jwt_error_message InvalidSubject = ''Invalid subject''"
| "jwt_error_message ImmatureSignature = ''Token not yet valid''"
| "jwt_error_message (OtherKind _) = ''Invalid token''"

definition jwt_auth_request_filter :: "(string \<Rightarrow> string) \<Rightarrow> 'h http_lib \<Rightarrow> ('k, 'j) jwt_lib \<Rightarrow> 'k jwt_auth \<Rightarrow>
    ('h, 'j, 'c) exchange \<Rightarrow> ('h, 'j, 'c) exchange \<times> (proxy_error + filter_verdict)" where
  "jwt_auth_request_filter sha H J p x =
     (case extract_token H (ja_config p) x of
        Inl e \<Rightarrow> (x, Inl e)
      | Inr ((s, cx), None) \<Rightarrow>
          ((s, cx), Inr (unauthorized ''Token not found'' (jwt_challenge_for (ja_config p) ''Token not found'')))
      | Inr ((s, cx), Some token) \<Rightarrow>
          let cx = mark_request_has_credentials cx
          in case jl_decode J token (ja_decoding_key p) (ja_validation p) of
               Inl e \<Rightarrow>
                 let error_msg = jwt_error_message e
                 in ((s, cx), Inr (unauthorized error_msg (jwt_challenge_for (ja_config p) error_msg)))
             | Inr claims \<Rightarrow>
                 let cx = (if ja_store_in_ctx (ja_config p) then ctx_set JWT_AUTH_PAYLOAD_KEY (AnyClaims claims) cx else cx)
                 in ((s, note_request_credential sha token cx), Inr Continue))"

definition jwt_auth_response_filter :: "'h http_lib \<Rightarrow> ('j, 'c) proxy_ctx \<Rightarrow> 'h \<Rightarrow> string + 'h" where
  "jwt_auth_response_filter H cx response =
     (case ctx_get_str cx CLEAR_COOKIE_KEY of
        Some cookie_name \<Rightarrow> hl_append H response ''Set-Cookie'' (cookie_name @ ''=; Max-Age=0; Path=/; HttpOnly'')
      | None \<Rightarrow> Inr response)"

section \<open>csrf\<close>

record csrf_config =
  cs_key :: string
  cs_expires :: "64 word"
  cs_name :: string

record csrf_token =
  tk_random :: string
  tk_expires :: "64 word"
  tk_sign :: string

record csrf_lib =
  cl_hmac :: "string \<Rightarrow> string \<Rightarrow> string"
  cl_to_json :: "csrf_token \<Rightarrow> string"
  cl_from_json :: "string \<Rightarrow> csrf_token option"
  cl_encode :: "string \<Rightarrow> string"
  cl_decode :: "string \<Rightarrow> string option"

definition csrf_check :: "csrf_config \<Rightarrow> proxy_error + unit" where
  "csrf_check c = (if cs_key c = [] then Inl (PE_ValidationStructured ''key'') else Inr ())"

definition SAFE_METHODS :: "string list" where
  "SAFE_METHODS = [''GET'', ''HEAD'', ''OPTIONS'']"

definition build_cookie_value :: "string \<Rightarrow> string \<Rightarrow> 64 word \<Rightarrow> string" where
  "build_cookie_value name token expires =
     name @ ''='' @ token @ ''; Path=/; SameSite=Lax; Max-Age='' @ nat_to_string (unat expires) @ ''; Secure''"

definition gen_sign :: "csrf_lib \<Rightarrow> csrf_config \<Rightarrow> string \<Rightarrow> 64 word \<Rightarrow> string" where
  "gen_sign L c random expires = hex_encode (cl_hmac L (cs_key c) (random @ nat_to_string (unat expires)))"

text \<open>The clock is \<open>None\<close> when it stands before the epoch.\<close>

definition gen_token_string :: "csrf_lib \<Rightarrow> csrf_config \<Rightarrow> string \<Rightarrow> 64 word option \<Rightarrow> string option" where
  "gen_token_string L c random_bytes clock =
     (let random = hex_encode random_bytes
      in case clock of
           None \<Rightarrow> None
         | Some now \<Rightarrow>
             Some (cl_encode L (cl_to_json L
               \<lparr>tk_random = random, tk_expires = now, tk_sign = gen_sign L c random now\<rparr>)))"

definition set_csrf_cookie :: "'h http_lib \<Rightarrow> csrf_lib \<Rightarrow> csrf_config \<Rightarrow> string \<Rightarrow> 64 word option \<Rightarrow> 'h \<Rightarrow> string + 'h" where
  "set_csrf_cookie H L c random_bytes clock response =
     (case gen_token_string L c random_bytes clock of
        None \<Rightarrow> Inr response
      | Some token \<Rightarrow> hl_append H response ''set-cookie'' (build_cookie_value (cs_name c) token (cs_expires c)))"

definition saturating_add :: "64 word \<Rightarrow> 64 word \<Rightarrow> 64 word" where
  "saturating_add a b = (if unat a + unat b < 2 ^ 64 then a + b else - 1)"

definition check_token :: "(string \<Rightarrow> string) \<Rightarrow> csrf_lib \<Rightarrow> csrf_config \<Rightarrow> 64 word option \<Rightarrow> string \<Rightarrow> bool" where
  "check_token sha L c clock token_b64 =
     (case cl_decode L token_b64 of
        None \<Rightarrow> False
      | Some decoded \<Rightarrow>
     (case cl_from_json L decoded of
        None \<Rightarrow> False
      | Some token \<Rightarrow>
     (case clock of
        None \<Rightarrow> False
      | Some now \<Rightarrow>
          if cs_expires c > 0 \<and> now > saturating_add (tk_expires token) (cs_expires c) then False
          else constant_time_eq sha (tk_sign token) (gen_sign L c (tk_random token) (tk_expires token)))))"

definition csrf_reject :: "string \<Rightarrow> filter_verdict" where
  "csrf_reject message = Reject (with_content_type TEXT_PLAIN (with_body message (rejection_new 401)))"

definition csrf_request_filter ::
    "(string \<Rightarrow> string) \<Rightarrow> 'h http_lib \<Rightarrow> csrf_lib \<Rightarrow> csrf_config \<Rightarrow> 64 word option \<Rightarrow> 'h session \<Rightarrow> filter_verdict" where
  "csrf_request_filter sha H L c clock s =
     (if rh_method (ss_request s) \<in> set SAFE_METHODS then Continue
      else
     (case get_req_header_value H (ss_request s) (cs_name c) of
        None \<Rightarrow> csrf_reject ''no csrf token in headers''
      | Some h_token \<Rightarrow>
          if h_token = [] then csrf_reject ''no csrf token in headers''
          else
     (case get_cookie_value H (ss_request s) (cs_name c) of
        None \<Rightarrow> csrf_reject ''no csrf cookie''
      | Some c_token \<Rightarrow>
          if h_token \<noteq> c_token then csrf_reject ''csrf token mismatch''
          else if \<not> check_token sha L c clock c_token then csrf_reject ''Failed to verify the csrf token signature''
          else Continue)))"

section \<open>key-auth and basic-auth admit exactly the configured credentials\<close>

text \<open>What every parsed URI satisfies; \<open>#\<close> starts the fragment, which the parser drops.\<close>

definition uri_wf :: "'h request \<Rightarrow> bool" where
  "uri_wf r \<longleftrightarrow> CHR ''?'' \<notin> set (ur_path (rh_uri r)) \<and>
     (\<forall>q. ur_query (rh_uri r) = Some q \<longrightarrow> CHR ''#'' \<notin> set (ur_path (rh_uri r) @ q) \<and> NUL \<notin> set q)"



















text \<open>C24: basic-auth admits exactly the requests whose Authorization header is the scheme, in any case of
  letters, and the encoding of the configured user name and password joined by a colon. A configured user
  name with a colon in it is accepted by the configuration check and locks every request out.\<close>

theorem basic_auth_exact:
  assumes "create_basic_auth_plugin sha c = Inr p"
    and run: "basic_auth_request_filter sha b64 H p (s, cx) = ((s', cx'), result)"
    and free: "collision_free sha S" "{ba_username c, ba_password c} \<subseteq> S"
    and decoded: "\<forall>v d u pw. get_req_header_value H (ss_request s) AUTHORIZATION = Some v \<and> b64 (drop 6 v) = Some d \<and>
      split_once CHR '':'' d = Some (u, pw) \<longrightarrow> u \<in> S \<and> pw \<in> S"
  shows "(result = Inr Continue \<longleftrightarrow> CHR '':'' \<notin> set (ba_username c) \<and>
      (\<exists>scheme encoded. get_req_header_value H (ss_request s) AUTHORIZATION = Some (scheme @ encoded) \<and>
        to_ascii_lowercase scheme = ''basic '' \<and>
        b64 encoded = Some (ba_username c @ '':'' @ ba_password c) \<and> utf8_valid (ba_username c @ '':'' @ ba_password c))) \<and>
    (result \<noteq> Inr Continue \<longrightarrow> s' = s \<and> noted_credential_digest cx' = noted_credential_digest cx \<and>
      result = Inr (unauthorized ''Invalid user authorization'' (basic_auth_challenge c)))"
proof -
  have p: "ba_config p = c" "ba_username_digest p = sha (ba_username c)" "ba_password_digest p = sha (ba_password c)"
    using assms(1) by (auto simp: create_basic_auth_plugin_def secret_digest_def)
  have lower: "to_ascii_lowercase ''basic '' = ''basic ''" by code_simp
  note split = split_once_Some
  have valid: "validate_credentials sha b64 p v \<longleftrightarrow> CHR '':'' \<notin> set (ba_username c) \<and>
      (\<exists>scheme encoded. v = scheme @ encoded \<and> to_ascii_lowercase scheme = ''basic '' \<and>
        b64 encoded = Some (ba_username c @ '':'' @ ba_password c) \<and> utf8_valid (ba_username c @ '':'' @ ba_password c))"
    if v: "get_req_header_value H (ss_request s) AUTHORIZATION = Some v" for v
  proof
    assume "validate_credentials sha b64 p v"
    then obtain d u pw where d: "6 \<le> length v" "to_ascii_lowercase (take 6 v) = ''basic ''" "b64 (drop 6 v) = Some d"
        "utf8_valid d" "split_once CHR '':'' d = Some (u, pw)" "sha u = sha (ba_username c)" "sha pw = sha (ba_password c)"
      by (auto simp: validate_credentials_def p secret_digest_def constant_time_digest_eq_def eq_ignore_ascii_case_def lower
          split: if_splits option.splits)
    then have "u = ba_username c" "pw = ba_password c"
      using decoded v d(3,5) free by (auto simp: collision_free_def dest: inj_onD)
    then have "d = ba_username c @ '':'' @ ba_password c \<and> CHR '':'' \<notin> set (ba_username c)" using d(5) split by auto
    then show "CHR '':'' \<notin> set (ba_username c) \<and> (\<exists>scheme encoded. v = scheme @ encoded \<and> to_ascii_lowercase scheme = ''basic '' \<and>
        b64 encoded = Some (ba_username c @ '':'' @ ba_password c) \<and> utf8_valid (ba_username c @ '':'' @ ba_password c))"
      using d(2,3,4) by (intro conjI exI [of _ "take 6 v"] exI [of _ "drop 6 v"]) auto
  next
    assume "CHR '':'' \<notin> set (ba_username c) \<and> (\<exists>scheme encoded. v = scheme @ encoded \<and> to_ascii_lowercase scheme = ''basic '' \<and>
        b64 encoded = Some (ba_username c @ '':'' @ ba_password c) \<and> utf8_valid (ba_username c @ '':'' @ ba_password c))"
    then obtain scheme encoded where e: "CHR '':'' \<notin> set (ba_username c)" "v = scheme @ encoded" "to_ascii_lowercase scheme = ''basic ''"
        "b64 encoded = Some (ba_username c @ '':'' @ ba_password c)" "utf8_valid (ba_username c @ '':'' @ ba_password c)" by blast
    have "length scheme = 6" using arg_cong [OF e(3), of length] by simp
    moreover have "split_once CHR '':'' (ba_username c @ '':'' @ ba_password c) = Some (ba_username c, ba_password c)"
      using e(1) split by simp
    ultimately show "validate_credentials sha b64 p v"
      using e by (simp add: validate_credentials_def p secret_digest_def constant_time_digest_eq_def eq_ignore_ascii_case_def lower)
  qed
  show ?thesis
  proof (cases "get_req_header_value H (ss_request s) AUTHORIZATION")
    case None
    then show ?thesis using run by (auto simp: basic_auth_request_filter_def p unauthorized_def)
  next
    case (Some v)
    have "result = Inr Continue \<longleftrightarrow> validate_credentials sha b64 p v"
      using run Some by (auto simp: basic_auth_request_filter_def unauthorized_def Let_def split: if_splits)
    moreover have "\<not> validate_credentials sha b64 p v \<Longrightarrow> s' = s \<and> noted_credential_digest cx' = noted_credential_digest cx \<and>
        result = Inr (unauthorized ''Invalid user authorization'' (basic_auth_challenge c))"
      using run Some by (auto simp: basic_auth_request_filter_def p mark_request_has_credentials_def)
    ultimately show ?thesis using valid [OF Some] Some by auto
  qed
qed


section \<open>Tokens of the csrf plugin\<close>

text \<open>Base64 and the JSON of a token round trip.\<close>

definition csrf_lib_ok :: "csrf_lib \<Rightarrow> bool" where
  "csrf_lib_ok L \<longleftrightarrow> (\<forall>s. cl_decode L (cl_encode L s) = Some s) \<and> (\<forall>t. cl_from_json L (cl_to_json L t) = Some t)"

definition seal :: "csrf_lib \<Rightarrow> csrf_token \<Rightarrow> string" where
  "seal L t = cl_encode L (cl_to_json L t)"

lemma check_sealed:
  assumes "csrf_lib_ok L"
  shows "check_token sha L c (Some now) (seal L t) \<longleftrightarrow>
    (cs_expires c = 0 \<or> now \<le> saturating_add (tk_expires t) (cs_expires c)) \<and>
    sha (tk_sign t) = sha (gen_sign L c (tk_random t) (tk_expires t))"
  using assms by (auto simp: check_token_def seal_def csrf_lib_ok_def constant_time_eq_def constant_time_digest_eq_def
      secret_digest_def word_neq_0_conv not_less)

lemma unat_saturating_add: "unat (saturating_add a b) = min (unat a + unat b) (2 ^ 64 - 1)"
proof -
  have "unat (- 1 :: 64 word) = 2 ^ 64 - 1" by (simp add: unsigned_minus_1_eq_mask mask_eq_exp_minus_1)
  then show ?thesis by (auto simp: saturating_add_def unat_word_ariths(1) min_def)
qed

lemma unat_below: "unat (w :: 64 word) \<le> 2 ^ 64 - 1"
  using unsigned_less [of w, where ?'a = nat] by simp

text \<open>A token the csrf plugin hands out is accepted from the moment it is issued until its lifetime has
  passed, also when the end of its life exceeds the range of a u64 (it then never ends), and a lifetime of
  zero never ends.\<close>

theorem csrf_token_lifetime:
  assumes "csrf_lib_ok L" and "gen_token_string L c bytes (Some issued) = Some token"
  shows "check_token sha L c (Some now) token \<longleftrightarrow>
    cs_expires c = 0 \<or> unat now \<le> min (unat issued + unat (cs_expires c)) (2 ^ 64 - 1)"
proof -
  have token: "token = seal L \<lparr>tk_random = hex_encode bytes, tk_expires = issued,
      tk_sign = gen_sign L c (hex_encode bytes) issued\<rparr>"
    using assms(2) by (simp add: gen_token_string_def seal_def Let_def)
  show ?thesis unfolding token check_sealed [OF assms(1)] by (simp add: word_le_nat_alt unat_saturating_add)
qed

lemma nat_to_string_prepend:
  assumes "0 < d" and "d < 10"
  shows "nat_to_string (d * 10 ^ length (nat_to_string n) + n) = digit_char d # nat_to_string n"
proof (induction n rule: nat_to_string.induct)
  case (1 n)
  show ?case
  proof (cases "n < 10")
    case True
    then have "nat_to_string n = [digit_char n]" by (subst nat_to_string.simps) simp
    moreover have "nat_to_string (d * 10 + n) = nat_to_string d @ [digit_char n]"
      using True assms by (subst nat_to_string.simps) simp
    moreover have "nat_to_string d = [digit_char d]" using assms by (subst nat_to_string.simps) simp
    ultimately show ?thesis by simp
  next
    case False
    let ?l = "length (nat_to_string (n div 10))"
    have n: "nat_to_string n = nat_to_string (n div 10) @ [digit_char (n mod 10)]"
      using False by (subst nat_to_string.simps) simp
    have eq: "d * 10 ^ length (nat_to_string n) + n = (d * 10 ^ ?l) * 10 + n" by (simp add: n)
    have "\<not> (d * 10 ^ ?l) * 10 + n < 10" using False by simp
    then have "nat_to_string ((d * 10 ^ ?l) * 10 + n) =
        nat_to_string (((d * 10 ^ ?l) * 10 + n) div 10) @ [digit_char (((d * 10 ^ ?l) * 10 + n) mod 10)]"
      by (subst nat_to_string.simps) simp
    also have "((d * 10 ^ ?l) * 10 + n) div 10 = d * 10 ^ ?l + n div 10" by simp
    also have "((d * 10 ^ ?l) * 10 + n) mod 10 = n mod 10" by simp
    finally show ?thesis unfolding eq using 1 False n by simp
  qed
qed

text \<open>C39: The signature of a csrf token covers the random part and the time of issue without a mark between
  them. Whenever the random part ends in a digit other than zero, moving this digit to the front of the time
  gives a token with the same signature that is accepted long after the one it was made from has expired.\<close>

theorem csrf_expiry_forgeable:
  assumes "csrf_lib_ok L" and "0 < d" and "d < 10"
    and time: "unat forged_time = d * 10 ^ length (nat_to_string (unat issued)) + unat issued"
    and sign: "sign = gen_sign L c (front @ [digit_char d]) issued"
    and now: "0 < cs_expires c" "unat issued + unat (cs_expires c) < unat now" "unat now \<le> unat forged_time"
  shows "\<not> check_token sha L c (Some now) (seal L \<lparr>tk_random = front @ [digit_char d], tk_expires = issued, tk_sign = sign\<rparr>) \<and>
    check_token sha L c (Some now) (seal L \<lparr>tk_random = front, tk_expires = forged_time, tk_sign = sign\<rparr>)"
proof -
  have "gen_sign L c front forged_time = sign"
    using nat_to_string_prepend [OF assms(2,3), of "unat issued"] by (simp add: gen_sign_def sign time)
  moreover have "saturating_add issued (cs_expires c) < now"
    using now(2) unfolding word_less_nat_alt unat_saturating_add by (rule min.strict_coboundedI1)
  moreover have "now \<le> saturating_add forged_time (cs_expires c)"
    using now(3) unat_below [of now] by (simp add: word_le_nat_alt unat_saturating_add)
  ultimately show ?thesis using now(1) unfolding check_sealed [OF assms(1)] by (auto simp: sign not_le)
qed

section \<open>What jwt-auth asks of a token\<close>

lemma require_claims:
  "fold require_claim cs v = v\<lparr>vl_required_spec_claims := set cs \<union> vl_required_spec_claims v\<rparr>"
  by (induction cs arbitrary: v) (auto simp: require_claim_def)

lemma verify_claims:
  "fold verify_claim cs v = v\<lparr>vl_required_spec_claims := set cs \<union> vl_required_spec_claims v,
     vl_validate_nbf := vl_validate_nbf v \<or> ''nbf'' \<in> set cs\<rparr>"
  by (induction cs arbitrary: v) (auto simp: verify_claim_def require_claim_def Let_def)

text \<open>The claims a token must carry are the expiry and those listed in the configuration, in either list.
  A configured issuer or audience is compared when the token has one, but is not among the claims that
  must be there unless it is listed as well.\<close>

theorem jwt_required_claims:
  "vl_required_spec_claims (build_validation c) =
     {''exp''} \<union> set (ja_required_claims c) \<union> set (unwrap_or (ja_claims_to_verify c) []) \<and>
   vl_iss (build_validation c) = map_option (\<lambda>iss. [iss]) (ja_iss c) \<and>
   vl_aud (build_validation c) = map_option (\<lambda>aud. [aud]) (ja_aud c) \<and>
   vl_validate_nbf (build_validation c) = (''nbf'' \<in> set (unwrap_or (ja_claims_to_verify c) [])) \<and>
   vl_validate_exp (build_validation c) \<and> vl_leeway (build_validation c) = ja_lifetime_grace_period c \<and>
   vl_algorithm (build_validation c) = ja_algorithm c"
  by (cases "ja_iss c"; cases "ja_aud c"; cases "ja_claims_to_verify c")
    (simp_all add: build_validation_def require_claims verify_claims validation_new_def unwrap_or_def Let_def Un_commute)


section \<open>Hooks that add credentials\<close>

text \<open>A request hook may verify credentials and note them; it never forgets one. What the http crate lets into
  a header value or a URI holds no NUL, so the noted texts can be told apart.\<close>

definition adds :: "(string \<Rightarrow> string) \<Rightarrow> string list \<Rightarrow> ('j, 'c) proxy_ctx \<Rightarrow> ('j, 'c) proxy_ctx \<Rightarrow> bool" where
  "adds sha ds cx cx' \<longleftrightarrow> original_credential_digest cx' = original_credential_digest cx \<and>
     noted_credential_digest cx' = noted_credential_digest (fold (note_request_credential sha) ds cx) \<and>
     (\<forall>d \<in> set ds. NUL \<notin> set d) \<and> (request_has_credentials cx \<or> ds \<noteq> [] \<longrightarrow> request_has_credentials cx')"

lemma adds_refl: "adds sha [] cx cx"
  by (simp add: adds_def)

lemma adds_trans: "adds sha ds cx cx' \<Longrightarrow> adds sha es cx' cx'' \<Longrightarrow> adds sha (ds @ es) cx cx''"
  by (auto simp: adds_def noted_credentials)

lemma adds_identified:
  assumes "identified sha raw r cs cx" and "adds sha ds cx cx'"
  shows "identified sha raw r (cs @ ds) cx'"
  using assms by (auto simp: identified_def adds_def noted_credentials noted_digest_def)

locale credential_hooks =
  fixes sha :: "string \<Rightarrow> string" and wf :: "'h request \<Rightarrow> bool"
    and hooks :: "(('h, 'j, 'c) exchange \<Rightarrow> ('h, 'j, 'c) exchange \<times> (proxy_error + filter_verdict)) set"
  assumes passed: "hook \<in> hooks \<Longrightarrow> wf (ss_request s) \<Longrightarrow> hook (s, cx) = ((s', cx'), Inr Continue) \<Longrightarrow>
    wf (ss_request s') \<and> (\<exists>ds. adds sha ds cx cx')"
begin

lemma run_adds:
  assumes "\<forall>p \<in> set ps. pl_request_filter p \<in> hooks" and "wf (ss_request s)" and "run_request ps (s, cx) = ((s', cx'), Inr Continue)"
  shows "wf (ss_request s') \<and> (\<exists>ds. adds sha ds cx cx')"
  using assms
proof (induction ps arbitrary: s cx)
  case Nil
  then show ?case using adds_refl by auto
next
  case (Cons p ps)
  obtain t dx where first: "pl_request_filter p (s, cx) = ((t, dx), Inr Continue)"
      and rest: "run_request ps (t, dx) = ((s', cx'), Inr Continue)"
    using Cons.prems(3) by (auto split: prod.splits sum.splits filter_verdict.splits)
  then obtain ds where "wf (ss_request t)" "adds sha ds cx dx" using passed [of "pl_request_filter p" s cx t dx] Cons.prems by auto
  moreover from this obtain es where "wf (ss_request s')" "adds sha es dx cx'"
    using Cons.IH [of t dx] rest Cons.prems(1) by auto
  ultimately show ?case using adds_trans by blast
qed

end

text \<open>The hooks of the three plugins are such hooks.\<close>

definition http_wf :: "'h http_lib \<Rightarrow> ('h \<Rightarrow> string \<Rightarrow> string list) \<Rightarrow> 'h request \<Rightarrow> bool" where
  "http_wf H raw r \<longleftrightarrow> raw_ok H raw \<and> (\<forall>s u (q :: 'h request). hl_uri H s = Inr u \<longrightarrow> uri_wf (q\<lparr>rh_uri := u\<rparr>)) \<and> uri_wf r"

lemma http_wf_headers: "http_wf H raw (r\<lparr>rh_headers := h\<rparr>) = http_wf H raw r"
  by (simp add: http_wf_def uri_wf_def)

lemma wf_header:
  assumes "http_wf H raw r" and "Some v \<in> set (hl_get_all H (rh_headers r) k)"
  shows "NUL \<notin> set v"
proof -
  have "v \<in> set (raw (rh_headers r) k) \<and> (\<forall>b \<in> set v. field_byte b)"
    using assms by (auto simp: http_wf_def raw_ok_def to_str_def split: if_splits)
  then show ?thesis using field_byte_token by (auto simp: ctl_free_def)
qed

lemma wf_header_value: "http_wf H raw r \<Longrightarrow> get_req_header_value H r k = Some v \<Longrightarrow> NUL \<notin> set v"
  using wf_header [of H raw r v k] by (auto simp: get_req_header_value_def split: list.splits)

lemma split_pairs_value: "(n, v) \<in> set (split_pairs sep s) \<Longrightarrow> set v \<subseteq> set s"
proof -
  assume "(n, v) \<in> set (split_pairs sep s)"
  then obtain seg where seg: "seg \<in> set (split_on sep s)"
      "(n, v) = (case split_once CHR ''='' (trim seg) of Some (n, v) \<Rightarrow> (trim n, trim v) | None \<Rightarrow> (trim seg, []))"
    by (auto simp: split_pairs_def)
  have sub: "set (trim seg) \<subseteq> set s" using set_split_on [OF seg(1)] set_trim by blast
  show ?thesis
  proof (cases "split_once CHR ''='' (trim seg)")
    case (Some a)
    obtain m w where a: "a = (m, w)" by (cases a)
    then have "set w \<subseteq> set s" using split_once_set Some sub by blast
    then show ?thesis using seg(2) Some a set_trim by fastforce
  qed (use seg(2) in simp)
qed

lemma pair_value_mem: "pair_value name ps = Some v \<Longrightarrow> \<exists>n. (n, v) \<in> set ps"
  by (auto simp: pair_value_def find_Some_iff) (metis nth_mem)

lemma wf_query_value: "http_wf H raw r \<Longrightarrow> get_query_value r name = Some v \<Longrightarrow> NUL \<notin> set v"
proof -
  assume wf: "http_wf H raw r" and v: "get_query_value r name = Some v"
  then obtain q where q: "ur_query (rh_uri r) = Some q" "pair_value name (split_pairs CHR ''&'' q) = Some v"
    by (auto simp: get_query_value_def split: option.splits)
  then have "set v \<subseteq> set q" using pair_value_mem split_pairs_value by metis
  then show ?thesis using wf q(1) by (auto simp: http_wf_def uri_wf_def)
qed

lemma wf_cookie_value: "http_wf H raw r \<Longrightarrow> get_cookie_value H r name = Some v \<Longrightarrow> NUL \<notin> set v"
proof -
  assume wf: "http_wf H raw r" and v: "get_cookie_value H r name = Some v"
  then obtain n where "(n, v) \<in> set (cookie_pairs H r)" using pair_value_mem by (metis get_cookie_value_def)
  then obtain field where "Some field \<in> set (hl_get_all H (rh_headers r) COOKIE_HEADER)"
      "(n, v) \<in> set (split_pairs CHR '';'' field)" by (auto simp: cookie_pairs_def texts_def)
  then show ?thesis using wf_header [OF wf] split_pairs_value by blast
qed

lemma wf_removed_query: "http_wf H raw r \<Longrightarrow> remove_query_from_header H r name = Inr r' \<Longrightarrow> http_wf H raw r'"
  by (auto simp: remove_query_from_header_def http_wf_def Let_def split: option.splits)

lemma wf_removed_cookie: "http_wf H raw r \<Longrightarrow> remove_cookie_from_header H r name = Inr r' \<Longrightarrow> http_wf H raw r'"
  by (auto simp: remove_cookie_from_header_def http_wf_headers Let_def split: if_splits)

lemma wf_removed_header: "http_wf H raw (ss_request s) \<Longrightarrow> http_wf H raw (ss_request (remove_header H s name))"
  by (simp add: remove_header_def http_wf_headers)

lemma wf_hidden_query: "http_wf H raw (ss_request s) \<Longrightarrow> hide_query H m s name = Inr s' \<Longrightarrow> http_wf H raw (ss_request s')"
  by (auto simp: hide_query_def split: sum.splits dest: wf_removed_query)

lemma adds_note: "NUL \<notin> set c \<Longrightarrow> adds sha [c] cx (note_request_credential sha c (mark_request_has_credentials cx))"
  by (simp add: adds_def note_request_credential_def mark_request_has_credentials_def)

lemma key_auth_adds:
  assumes wf: "http_wf H raw (ss_request s)" and run: "key_auth_request_filter sha H p (s, cx) = ((s', cx'), Inr Continue)"
  shows "http_wf H raw (ss_request s') \<and> adds sha [fst (presented_key H (ka_config p) (ss_request s))] cx cx'"
proof -
  obtain val source where key: "presented_key H (ka_config p) (ss_request s) = (val, source)" by (cases "presented_key H (ka_config p) (ss_request s)")
  then have ok: "val \<noteq> []" and cx: "cx' = note_request_credential sha val (if source \<noteq> NoSource then mark_request_has_credentials cx else cx)"
    using run by (auto simp: key_auth_request_filter_def unauthorized_def Let_def split: if_splits key_source.splits sum.splits)
  then have source: "source \<noteq> NoSource" using key by (auto simp: presented_key_def split: option.splits if_splits)
  have "NUL \<notin> set val" using key source wf_header_value [OF wf] wf_query_value [OF wf]
    by (auto simp: presented_key_def split: option.splits if_splits)
  moreover have "http_wf H raw (ss_request s')"
    using run wf key by (auto simp: key_auth_request_filter_def unauthorized_def Let_def
        split: if_splits key_source.splits sum.splits intro: wf_removed_header wf_hidden_query)
  ultimately show ?thesis using adds_note cx source key by auto
qed

lemma basic_auth_adds:
  assumes wf: "http_wf H raw (ss_request s)" and run: "basic_auth_request_filter sha b64 H p (s, cx) = ((s', cx'), Inr Continue)"
  shows "http_wf H raw (ss_request s') \<and>
    (\<exists>c. get_req_header_value H (ss_request s) AUTHORIZATION = Some c \<and> adds sha [c] cx cx')"
proof -
  obtain v where v: "get_req_header_value H (ss_request s) AUTHORIZATION = Some v"
      and cx: "cx' = note_request_credential sha v (mark_request_has_credentials cx)"
      and s: "s' = s \<or> s' = remove_header H s AUTHORIZATION"
    using run by (auto simp: basic_auth_request_filter_def unauthorized_def Let_def split: if_splits option.splits)
  show ?thesis using adds_note [OF wf_header_value [OF wf v]] cx s wf wf_removed_header v by metis
qed


text \<open>Where jwt-auth looks for its token: the header, then the query parameter, then the cookie.\<close>

definition presented_token :: "'h http_lib \<Rightarrow> jwt_auth_config \<Rightarrow> 'h request \<Rightarrow> string option" where
  "presented_token H c r =
     (case get_req_header_value H r (ja_header c) of
        Some v \<Rightarrow> Some (bearer_token v)
      | None \<Rightarrow> (case extract_token_from_query c r of Some t \<Rightarrow> Some t | None \<Rightarrow> get_cookie_value H r (ja_cookie c)))"

lemma wf_bearer: "NUL \<notin> set v \<Longrightarrow> NUL \<notin> set (bearer_token v)"
  by (auto simp: bearer_token_def dest: in_set_dropD)

lemma header_token:
  assumes "http_wf H raw (ss_request s)" and "extract_from_header H c s = (s', token)"
  shows "http_wf H raw (ss_request s') \<and> (\<forall>t. token = Some t \<longrightarrow> NUL \<notin> set t) \<and> (token = None \<longrightarrow> s' = s)"
  using assms wf_header_value [OF assms(1)] wf_removed_header [OF assms(1)] wf_bearer
  by (auto simp: extract_from_header_def Let_def split: if_splits)

lemma query_token:
  assumes "http_wf H raw (ss_request s)" and "extract_from_query H c s = Inr (s', token)"
  shows "http_wf H raw (ss_request s') \<and> (\<forall>t. token = Some t \<longrightarrow> NUL \<notin> set t)"
  using assms wf_query_value [OF assms(1)] wf_hidden_query [OF assms(1)]
  by (auto simp: extract_from_query_def extract_token_from_query_def Let_def split: if_splits)

lemma cookie_token:
  assumes "http_wf H raw (ss_request s)" and "extract_from_cookie H c (s, cx) = Inr ((s', cx'), token)"
  shows "http_wf H raw (ss_request s') \<and> (\<forall>t. token = Some t \<longrightarrow> NUL \<notin> set t) \<and> adds sha [] cx cx'"
  using assms wf_cookie_value [OF assms(1)] wf_removed_cookie [OF assms(1)] adds_refl [of sha cx]
  by (auto simp: extract_from_cookie_def adds_def ctx_set_def Let_def split: if_splits sum.splits)

lemma token_text:
  assumes wf: "http_wf H raw (ss_request s)" and run: "extract_token H c (s, cx) = Inr ((s', cx'), Some t)"
  shows "http_wf H raw (ss_request s') \<and> NUL \<notin> set t \<and> adds sha [] cx cx' \<and> presented_token H c (ss_request s) = Some t"
proof -
  obtain s1 t1 where first: "extract_from_header H c s = (s1, t1)" by (cases "extract_from_header H c s")
  note h = header_token [OF wf first]
  have t1: "t1 = map_option bearer_token (get_req_header_value H (ss_request s) (ja_header c))"
    using first by (auto simp: extract_from_header_def Let_def)
  show ?thesis
  proof (cases t1)
    case (Some t')
    then show ?thesis using run first h adds_refl t1 by (auto simp: extract_token_def presented_token_def)
  next
    case None
    then have header: "get_req_header_value H (ss_request s) (ja_header c) = None" "s1 = s" using t1 h by auto
    obtain s2 t2 where second: "extract_from_query H c s1 = Inr (s2, t2)"
      using run first None by (auto simp: extract_token_def)
    note q = query_token [OF conjunct1 [OF h] second]
    have t2: "t2 = extract_token_from_query c (ss_request s)" "t2 = None \<longrightarrow> s2 = s"
      using second header by (auto simp: extract_from_query_def Let_def split: if_splits)
    show ?thesis
    proof (cases t2)
      case (Some t')
      then show ?thesis using run first second None q adds_refl t2 header by (auto simp: extract_token_def presented_token_def)
    next
      case None
      then have cookie: "extract_from_cookie H c (s2, cx) = Inr ((s', cx'), Some t)"
        using run first second \<open>t1 = None\<close> by (simp add: extract_token_def)
      then have "get_cookie_value H (ss_request s2) (ja_cookie c) = Some t"
        by (auto simp: extract_from_cookie_def Let_def split: if_splits sum.splits)
      then have "presented_token H c (ss_request s) = Some t" using None t2 header by (simp add: presented_token_def)
      then show ?thesis using cookie_token [of H raw s2 c cx s' cx' "Some t" sha] q cookie by simp
    qed
  qed
qed

lemma jwt_auth_adds:
  assumes wf: "http_wf H raw (ss_request s)" and run: "jwt_auth_request_filter sha H J p (s, cx) = ((s', cx'), Inr Continue)"
  shows "http_wf H raw (ss_request s') \<and>
    (\<exists>c. presented_token H (ja_config p) (ss_request s) = Some c \<and> adds sha [c] cx cx')"
proof -
  obtain s1 cx1 t where ex: "extract_token H (ja_config p) (s, cx) = Inr ((s1, cx1), Some t)"
    using run by (auto simp: jwt_auth_request_filter_def unauthorized_def Let_def split: sum.splits option.splits)
  then obtain claims where "s' = s1"
      "cx' = note_request_credential sha t (if ja_store_in_ctx (ja_config p)
         then ctx_set JWT_AUTH_PAYLOAD_KEY (AnyClaims claims) (mark_request_has_credentials cx1) else mark_request_has_credentials cx1)"
    using run by (auto simp: jwt_auth_request_filter_def unauthorized_def Let_def split: sum.splits if_splits)
  then show ?thesis using token_text [OF wf ex, of sha]
    by (auto simp: adds_def note_request_credential_def mark_request_has_credentials_def ctx_set_def intro!: exI [of _ t])
qed

definition auth_hooks :: "(string \<Rightarrow> string) \<Rightarrow> 'h http_lib \<Rightarrow> (string \<Rightarrow> string option) \<Rightarrow> ('k, 'j) jwt_lib \<Rightarrow>
    (('h, 'j, 'c) exchange \<Rightarrow> ('h, 'j, 'c) exchange \<times> (proxy_error + filter_verdict)) set" where
  "auth_hooks sha H b64 J = range (key_auth_request_filter sha H) \<union> range (basic_auth_request_filter sha b64 H) \<union>
     range (jwt_auth_request_filter sha H J)"

lemma auth_hook_adds:
  assumes "hook \<in> auth_hooks sha H b64 J" and "http_wf H raw (ss_request s)" and "hook (s, cx) = ((s', cx'), Inr Continue)"
  shows "http_wf H raw (ss_request s') \<and> (\<exists>c. adds sha [c] cx cx')"
proof -
  consider (key) p where "hook = key_auth_request_filter sha H p" | (basic) p where "hook = basic_auth_request_filter sha b64 H p"
    | (jwt) p where "hook = jwt_auth_request_filter sha H J p"
    using assms(1) by (auto simp: auth_hooks_def)
  then show ?thesis
  proof cases
    case key
    then show ?thesis using key_auth_adds [OF assms(2)] assms(3) by blast
  next
    case basic
    then show ?thesis using basic_auth_adds [OF assms(2)] assms(3) by blast
  next
    case jwt
    then show ?thesis using jwt_auth_adds [OF assms(2)] assms(3) by blast
  qed
qed

interpretation auth: credential_hooks sha "http_wf H raw" "auth_hooks sha H b64 J"
  by unfold_locales (use auth_hook_adds in blast)


section \<open>The properties at work\<close>

definition sample_sha :: "string \<Rightarrow> string" where
  "sample_sha s = take 32 (s @ replicate 32 NUL)"

definition sample_session :: "(string \<times> string option) list request \<Rightarrow> (string \<times> string option) list session" where
  "sample_session r = \<lparr>ss_request = r, ss_is_tls = False, ss_client = None, ss_server_addr = None\<rparr>"




lemma sample_sha_length: "length (sample_sha s) = 32"
  by (simp add: sample_sha_def)



definition plain_base64 :: "string \<Rightarrow> string option" where
  "plain_base64 s = Some s"

definition sample_basic :: "string \<Rightarrow> basic_auth_config" where
  "sample_basic user = \<lparr>ba_username = user, ba_password = ''pw'', ba_hide_credentials = False, ba_realm = None\<rparr>"

definition basic_session :: "(string \<times> string option) list session" where
  "basic_session = sample_session (sample_request ''/'' None [(''authorization'', Some ''BASIC a:b:pw'')])"

lemma basic_auth_exact_witness:
  "let p = projr (create_basic_auth_plugin sample_sha (sample_basic ''a:b''));
       x = basic_auth_request_filter sample_sha plain_base64 field_list p (basic_session, ctx_default :: (unit, unit) proxy_ctx)
   in is_ok (create_basic_auth_plugin sample_sha (sample_basic ''a:b'')) \<and> snd x \<noteq> Inr Continue \<and> fst (fst x) = basic_session"
proof -
  let ?c = "sample_basic ''a:b''" and ?S = "{''a:b'', ''pw'', ''a'', ''b:pw''}"
  let ?p = "projr (create_basic_auth_plugin sample_sha ?c)"
  let ?x = "basic_auth_request_filter sample_sha plain_base64 field_list ?p (basic_session, ctx_default :: (unit, unit) proxy_ctx)"
  have create: "create_basic_auth_plugin sample_sha ?c = Inr ?p" by code_simp
  have x: "?x = ((fst (fst ?x), snd (fst ?x)), snd ?x)" by simp
  have "distinct (map sample_sha [''a:b'', ''pw'', ''a'', ''b:pw''])" by code_simp
  then have free: "collision_free sample_sha ?S" by (auto simp: collision_free_def inj_on_def sample_sha_length)
  have header: "get_req_header_value field_list (ss_request basic_session) AUTHORIZATION = Some ''BASIC a:b:pw''" by code_simp
  have split: "split_once CHR '':'' ''a:b:pw'' = Some (''a'', ''b:pw'')" by code_simp
  have user: "ba_username ?c = ''a:b''" "ba_password ?c = ''pw''" by (simp_all add: sample_basic_def)
  have subset: "{ba_username ?c, ba_password ?c} \<subseteq> ?S" by (simp add: user)
  have decoded: "\<forall>v d u pw. get_req_header_value field_list (ss_request basic_session) AUTHORIZATION = Some v \<and>
      plain_base64 (drop 6 v) = Some d \<and> split_once CHR '':'' d = Some (u, pw) \<longrightarrow> u \<in> ?S \<and> pw \<in> ?S"
    using header split by (auto simp: plain_base64_def)
  note result = basic_auth_exact [OF create x free subset decoded]
  have "CHR '':'' \<in> set (ba_username ?c)" by (simp add: user)
  then have "snd ?x \<noteq> Inr Continue" using conjunct1 [OF result] by blast
  moreover from this have "fst (fst ?x) = basic_session" using conjunct2 [OF result] by blast
  moreover have "is_ok (create_basic_auth_plugin sample_sha ?c)" by (subst create) simp
  ultimately show ?thesis unfolding Let_def by blast
qed

text \<open>A token with the length of its first parts in unary, and no encoding.\<close>

definition sample_to_json :: "csrf_token \<Rightarrow> string" where
  "sample_to_json t = replicate (unat (tk_expires t)) CHR ''a'' @ ''b'' @ replicate (length (tk_random t)) CHR ''a'' @ ''b'' @
     tk_random t @ tk_sign t"

definition sample_from_json :: "string \<Rightarrow> csrf_token option" where
  "sample_from_json s =
     (let a = (\<lambda>s. length (takeWhile (\<lambda>c. c = CHR ''a'') s)); e = a s; s = drop (e + 1) s; n = a s; s = drop (n + 1) s
      in Some \<lparr>tk_random = take n s, tk_expires = of_nat e, tk_sign = drop n s\<rparr>)"

definition sample_csrf_lib :: csrf_lib where
  "sample_csrf_lib = \<lparr>cl_hmac = (\<lambda>key msg. key @ msg), cl_to_json = sample_to_json, cl_from_json = sample_from_json,
     cl_encode = (\<lambda>s. s), cl_decode = Some\<rparr>"

lemma sample_csrf_lib_ok: "csrf_lib_ok sample_csrf_lib"
proof -
  have "sample_from_json (sample_to_json t) = Some t" for t
    by (simp add: sample_from_json_def sample_to_json_def takeWhile_append takeWhile_replicate Let_def)
  then show ?thesis by (simp add: csrf_lib_ok_def sample_csrf_lib_def)
qed

definition sample_csrf :: csrf_config where
  "sample_csrf = \<lparr>cs_key = ''k'', cs_expires = 10, cs_name = ''csrf''\<rparr>"

lemma csrf_token_lifetime_witness:
  "let token = the (gen_token_string sample_csrf_lib sample_csrf ''r'' (Some 100))
   in check_token sample_sha sample_csrf_lib sample_csrf (Some 110) token \<and>
      \<not> check_token sample_sha sample_csrf_lib sample_csrf (Some 111) token"
proof -
  let ?token = "the (gen_token_string sample_csrf_lib sample_csrf ''r'' (Some 100))"
  have token: "gen_token_string sample_csrf_lib sample_csrf ''r'' (Some 100) = Some ?token"
    by (simp add: gen_token_string_def Let_def)
  show ?thesis unfolding Let_def csrf_token_lifetime [OF sample_csrf_lib_ok token] by (simp add: sample_csrf_def)
qed

lemma csrf_expiry_forgeable_witness:
  "let sign = gen_sign sample_csrf_lib sample_csrf ''ab5'' 100
   in \<not> check_token sample_sha sample_csrf_lib sample_csrf (Some 150)
        (seal sample_csrf_lib \<lparr>tk_random = ''ab5'', tk_expires = 100, tk_sign = sign\<rparr>) \<and>
      check_token sample_sha sample_csrf_lib sample_csrf (Some 150)
        (seal sample_csrf_lib \<lparr>tk_random = ''ab'', tk_expires = 5100, tk_sign = sign\<rparr>)"
proof -
  have five: "''ab'' @ [digit_char 5] = ''ab5''" by code_simp
  have digits: "length (nat_to_string 100) = 3" by code_simp
  show ?thesis
    using csrf_expiry_forgeable [OF sample_csrf_lib_ok, of 5 5100 100
        "gen_sign sample_csrf_lib sample_csrf ''ab5'' 100" sample_csrf "''ab''" 150 sample_sha] five digits
    by (simp add: sample_csrf_def)
qed

end
