(* ===== verification/Cache.thy ===== *)
theory Cache
  imports Auth
begin

text \<open>
  The response cache: configuration and request hook of the cache plugin (\<open>src/plugins/cache.rs\<close>), the
  cache policy (\<open>src/plugins/cache/http.rs\<close>), and the callbacks through which the HTTP service hands it to
  Pingora (\<open>src/service/http.rs\<close>).

  Storage, eviction and locks are Pingora's. So is reading \<open>Cache-Control\<close>: the directives of a response are
  an association list, as the crate keeps them in an ordered map, and the record \<open>cc_lib\<close> has its tests.
  The regex engine, the parsers of methods and header names and the hashes are parameters. Durations are
  whole seconds.
\<close>

section \<open>Configuration\<close>

datatype scope = Local | Cluster

datatype cache_strategy = Disk | Memory

record cache_config =
  cc_ttl :: nat
  cc_cache_ttl :: "nat option"
  cc_cache_http_methods :: "string list"
  cc_cache_method :: "string list option"
  cc_cache_http_statuses :: "nat list"
  cc_cache_http_status :: "nat list option"
  cc_no_cache_str :: "string list"
  cc_no_cache :: "string list option"
  cc_vary :: "string list"
  cc_cache_strategy :: "cache_strategy option"
  cc_cache_key :: "string list option"
  cc_cache_bypass :: "string list option"
  cc_hide_cache_headers :: bool
  cc_cache_control :: "bool option"
  cc_consumer_isolation :: bool
  cc_cache_set_cookie :: bool
  cc_enable_purge :: bool
  cc_scope :: scope
  cc_max_file_size_bytes :: "nat option"
  cc_max_resp_body_size :: "nat option"
  cc_max_resp_body_size_explicit :: bool
  cc_stale_while_revalidate_secs :: "nat option"
  cc_respect_s_maxage :: bool
  cc_cache_authenticated_requests :: bool
  cc_cache_set_cookie_responses :: bool

record cache_parsers =
  cp_method_ok :: "string \<Rightarrow> bool"
  cp_header_name_ok :: "string \<Rightarrow> bool"
  cp_regex :: "string \<Rightarrow> string + (string \<Rightarrow> bool)"

fun each :: "('a \<Rightarrow> bool) \<Rightarrow> string \<Rightarrow> 'a list \<Rightarrow> string + unit" where
  "each P e [] = Inr ()"
| "each P e (x # xs) = (if P x then each P e xs else Inl e)"

definition validate_methods :: "cache_parsers \<Rightarrow> string list \<Rightarrow> string + unit" where
  "validate_methods K ms = each (cp_method_ok K) ''invalid_http_method'' ms"

definition validate_statuses :: "nat list \<Rightarrow> string + unit" where
  "validate_statuses ss = each (\<lambda>s. 100 \<le> s \<and> s \<le> 599) ''invalid_http_status'' ss"

definition validate_regexes :: "cache_parsers \<Rightarrow> string list \<Rightarrow> string + unit" where
  "validate_regexes K ps = each (\<lambda>p. is_ok (cp_regex K p)) ''invalid_regex_pattern'' ps"

definition validate_vary_headers :: "cache_parsers \<Rightarrow> string list \<Rightarrow> string + unit" where
  "validate_vary_headers K hs = each (\<lambda>h. trim h \<noteq> ''*'' \<and> cp_header_name_ok K (trim h)) ''invalid_vary_header'' hs"

fun each_unique :: "('a \<Rightarrow> bool) \<Rightarrow> string \<Rightarrow> string \<Rightarrow> 'a list \<Rightarrow> 'a list \<Rightarrow> string + unit" where
  "each_unique P e dup seen [] = Inr ()"
| "each_unique P e dup seen (x # xs) =
     (if \<not> P x then Inl e else if x \<in> set seen then Inl dup else each_unique P e dup (x # seen) xs)"

definition validate_apisix_methods :: "string list \<Rightarrow> string + unit" where
  "validate_apisix_methods ms =
     (if ms = [] then Inl ''cache_method must have at least 1 item''
      else each_unique (\<lambda>m. m \<in> {''GET'', ''POST'', ''HEAD''}) ''cache_method entries must be GET, POST or HEAD''
             ''cache_method entries must be unique'' [] ms)"

definition validate_apisix_statuses :: "nat list \<Rightarrow> string + unit" where
  "validate_apisix_statuses ss =
     (if ss = [] then Inl ''cache_http_status must have at least 1 item''
      else each_unique (\<lambda>s. 200 \<le> s \<and> s \<le> 599) ''cache_http_status entries must be between 200 and 599''
             ''cache_http_status entries must be unique'' [] ss)"

definition validate_optional_templates :: "string list option \<Rightarrow> string + unit" where
  "validate_optional_templates ts = (if ts = Some [] then Inl ''template list must have at least 1 item'' else Inr ())"

definition when_some :: "'a option \<Rightarrow> ('a \<Rightarrow> string + unit) \<Rightarrow> string + unit" where
  "when_some x f = (case x of Some a \<Rightarrow> f a | None \<Rightarrow> Inr ())"

text \<open>The derived checks, those of the conversion, and the aliases it applies.\<close>

definition cache_derived_check :: "cache_parsers \<Rightarrow> cache_config \<Rightarrow> string + unit" where
  "cache_derived_check K c =
     sum_bind (if 1 \<le> cc_ttl c then Inr () else Inl ''ttl'') (\<lambda>_.
     sum_bind (validate_methods K (cc_cache_http_methods c)) (\<lambda>_.
     sum_bind (validate_statuses (cc_cache_http_statuses c)) (\<lambda>_.
     sum_bind (validate_regexes K (cc_no_cache_str c)) (\<lambda>_.
       validate_vary_headers K (cc_vary c)))))"

definition cache_alias_check :: "cache_config \<Rightarrow> string + unit" where
  "cache_alias_check c =
     sum_bind (when_some (cc_cache_ttl c) (\<lambda>t. if t < 1 then Inl ''cache_ttl must be at least 1'' else Inr ())) (\<lambda>_.
     sum_bind (when_some (cc_cache_method c) validate_apisix_methods) (\<lambda>_.
     sum_bind (when_some (cc_cache_http_status c) validate_apisix_statuses) (\<lambda>_.
     sum_bind (validate_optional_templates (cc_cache_key c)) (\<lambda>_.
     sum_bind (validate_optional_templates (cc_cache_bypass c)) (\<lambda>_.
     sum_bind (validate_optional_templates (cc_no_cache c)) (\<lambda>_.
     sum_bind (if is_some_and (cc_cache_key c) (\<lambda>ts. ''$request_method'' \<in> set ts)
               then Inl ''cache_key variable $request_method unsupported'' else Inr ()) (\<lambda>_.
     sum_bind (when_some (cc_max_resp_body_size c) (\<lambda>s. if s < 1 then Inl ''max_resp_body_size must be at least 1'' else Inr ())) (\<lambda>_.
     sum_bind (if cc_cache_strategy c = Some Disk
               then Inl ''cache_strategy 'disk' requires a disk cache zone, only 'memory' is supported'' else Inr ()) (\<lambda>_.
       if cc_scope c = Cluster then Inl ''cache scope 'cluster' requires a distributed backend'' else Inr ())))))))))"

definition apply_aliases :: "cache_config \<Rightarrow> cache_config" where
  "apply_aliases c =
     c\<lparr>cc_ttl := unwrap_or (cc_cache_ttl c) (cc_ttl c),
       cc_cache_http_methods := unwrap_or (cc_cache_method c) (cc_cache_http_methods c), cc_cache_method := None,
       cc_cache_http_statuses := unwrap_or (cc_cache_http_status c) (cc_cache_http_statuses c), cc_cache_http_status := None,
       cc_cache_set_cookie_responses := (cc_cache_set_cookie c \<or> cc_cache_set_cookie_responses c)\<rparr>"

definition cache_config_from :: "cache_parsers \<Rightarrow> cache_config \<Rightarrow> proxy_error + cache_config" where
  "cache_config_from K c =
     sum_bind (map_err PE_ValidationStructured (cache_derived_check K c)) (\<lambda>_.
     sum_bind (map_err PE_Validation (cache_alias_check c)) (\<lambda>_. Inr (apply_aliases c)))"

definition effective_max_file_size_bytes :: "cache_config \<Rightarrow> nat option" where
  "effective_max_file_size_bytes c =
     (if cc_max_file_size_bytes c \<noteq> None then cc_max_file_size_bytes c
      else if cc_max_resp_body_size_explicit c then cc_max_resp_body_size c else None)"

definition resolve_max_file_size :: "nat option \<Rightarrow> nat \<Rightarrow> nat" where
  "resolve_max_file_size configured global_default = unwrap_or configured global_default"

definition resolved_max_file_size_bytes :: "cache_parsers \<Rightarrow> cache_config \<Rightarrow> nat \<Rightarrow> proxy_error + nat" where
  "resolved_max_file_size_bytes K c default_max =
     sum_bind (cache_config_from K c) (\<lambda>c. Inr (resolve_max_file_size (effective_max_file_size_bytes c) default_max))"

record cache_settings =
  st_ttl :: nat
  st_statuses :: "nat list"
  st_vary :: "string list"
  st_hide_cache_headers :: bool
  st_enable_purge :: bool
  st_max_file_size_bytes :: nat
  st_stale_while_revalidate :: "nat option"
  st_respect_s_maxage :: bool
  st_cache_authenticated_requests :: bool
  st_cache_set_cookie_responses :: bool
  st_cache_key :: "string list option"
  st_cache_bypass :: "string list"
  st_no_cache :: "string list"
  st_no_cache_flag_key :: string
  st_cache_control :: "bool option"
  st_consumer_isolation :: bool
  st_policy_fingerprint :: nat

text \<open>The values the policy fingerprint is a hash of, in their order.\<close>

record cache_policy =
  po_ttl :: nat
  po_max_file_size_bytes :: nat
  po_hide_cache_headers :: bool
  po_respect_s_maxage :: bool
  po_cache_authenticated_requests :: bool
  po_cache_set_cookie_responses :: bool
  po_cache_control :: "bool option"
  po_consumer_isolation :: bool
  po_stale_while_revalidate_secs :: "nat option"
  po_cache_key :: "string list option"
  po_cache_bypass :: "string list option"
  po_no_cache :: "string list option"
  po_statuses :: "nat list"
  po_vary :: "string list"

definition sort_dedup :: "'a::linorder list \<Rightarrow> 'a list" where
  "sort_dedup xs = remdups_adj (sort xs)"

definition normalized_vary :: "cache_config \<Rightarrow> string list" where
  "normalized_vary c = sort_dedup (filter (\<lambda>h. h \<noteq> []) (map (\<lambda>h. to_ascii_lowercase (trim h)) (cc_vary c)))"

definition policy_of :: "cache_config \<Rightarrow> nat \<Rightarrow> cache_policy" where
  "policy_of c max_size =
     \<lparr>po_ttl = cc_ttl c, po_max_file_size_bytes = max_size, po_hide_cache_headers = cc_hide_cache_headers c,
      po_respect_s_maxage = cc_respect_s_maxage c, po_cache_authenticated_requests = cc_cache_authenticated_requests c,
      po_cache_set_cookie_responses = cc_cache_set_cookie_responses c, po_cache_control = cc_cache_control c,
      po_consumer_isolation = cc_consumer_isolation c, po_stale_while_revalidate_secs = cc_stale_while_revalidate_secs c,
      po_cache_key = cc_cache_key c, po_cache_bypass = cc_cache_bypass c, po_no_cache = cc_no_cache c,
      po_statuses = sort_dedup (cc_cache_http_statuses c), po_vary = normalized_vary c\<rparr>"

definition instance_ctx_key :: "string \<Rightarrow> nat \<Rightarrow> string" where
  "instance_ctx_key prefix instance_id = prefix @ nat_to_string instance_id"

record plugin_cache =
  ca_methods :: "string list"
  ca_no_cache_regex :: "(string \<Rightarrow> bool) list"
  ca_settings :: cache_settings

text \<open>\<open>instance_id\<close> is the next value of the process-wide counter of plugin instances.\<close>

definition create_cache_plugin :: "cache_parsers \<Rightarrow> (cache_policy \<Rightarrow> nat) \<Rightarrow> cache_config \<Rightarrow> nat \<Rightarrow> nat \<Rightarrow> proxy_error + plugin_cache" where
  "create_cache_plugin K hash raw_config default_max instance_id =
     sum_bind (cache_config_from K raw_config) (\<lambda>c.
     sum_bind (sum_map_list (\<lambda>s. map_err (\<lambda>e. PE_Pingora (''Invalid regex in no_cache_str '' @ [CHR 0x27] @ s @ [CHR 0x27] @ '': '' @ e)) (cp_regex K s))
         (cc_no_cache_str c)) (\<lambda>regexes.
       let max_size = resolve_max_file_size (effective_max_file_size_bytes c) default_max
       in Inr \<lparr>ca_methods = filter (cp_method_ok K) (cc_cache_http_methods c), ca_no_cache_regex = regexes,
            ca_settings =
              \<lparr>st_ttl = cc_ttl c, st_statuses = cc_cache_http_statuses c, st_vary = normalized_vary c,
               st_hide_cache_headers = cc_hide_cache_headers c, st_enable_purge = cc_enable_purge c,
               st_max_file_size_bytes = max_size, st_stale_while_revalidate = cc_stale_while_revalidate_secs c,
               st_respect_s_maxage = cc_respect_s_maxage c,
               st_cache_authenticated_requests = cc_cache_authenticated_requests c,
               st_cache_set_cookie_responses = cc_cache_set_cookie_responses c,
               st_cache_key = cc_cache_key c, st_cache_bypass = unwrap_or (cc_cache_bypass c) [],
               st_no_cache = unwrap_or (cc_no_cache c) [],
               st_no_cache_flag_key = instance_ctx_key ''pingsix_proxy_cache_no_cache_'' instance_id,
               st_cache_control = cc_cache_control c, st_consumer_isolation = cc_consumer_isolation c,
               st_policy_fingerprint = hash (policy_of c max_size)\<rparr>\<rparr>))"

section \<open>Templates over a request\<close>

definition request_uri :: "'h request \<Rightarrow> string" where
  "request_uri r =
     (case ur_query (rh_uri r) of Some q \<Rightarrow> ur_path (rh_uri r) @ ''?'' @ q | None \<Rightarrow> ur_path (rh_uri r))"

definition resolve_cache_key_var :: "'h http_lib \<Rightarrow> 'h request \<Rightarrow> string \<Rightarrow> string" where
  "resolve_cache_key_var H r name =
     (case strip_prefix ''arg_'' name of
        Some arg \<Rightarrow> unwrap_or (get_query_value r arg) []
      | None \<Rightarrow>
     (case strip_prefix ''http_'' name of
        Some header \<Rightarrow> unwrap_or (get_req_header_value H r (map (\<lambda>c. if c = CHR ''_'' then CHR ''-'' else c) header)) []
      | None \<Rightarrow>
          if name = ''host'' then unwrap_or (get_request_host H r) []
          else if name = ''request_uri'' then request_uri r
          else if name = ''uri'' then ur_path (rh_uri r)
          else if name = ''args'' \<or> name = ''query_string'' then unwrap_or (ur_query (rh_uri r)) []
          else if name = ''request_method'' then rh_method r
          else []))"

definition render_cache_key_template :: "'h http_lib \<Rightarrow> 'h request \<Rightarrow> string \<Rightarrow> string" where
  "render_cache_key_template H r template = render_apisix_template (resolve_cache_key_var H r) template"

definition apisix_templates_truthy :: "'h http_lib \<Rightarrow> string list \<Rightarrow> 'h request \<Rightarrow> bool" where
  "apisix_templates_truthy H templates r =
     (let rendered = concat (map (render_cache_key_template H r) templates) in rendered \<noteq> [] \<and> rendered \<noteq> ''0'')"

definition cache_bypass_requested :: "'h http_lib \<Rightarrow> string list \<Rightarrow> 'h request \<Rightarrow> bool" where
  "cache_bypass_requested H templates r = apisix_templates_truthy H templates r"

definition no_cache_requested :: "'h http_lib \<Rightarrow> string list \<Rightarrow> 'h request \<Rightarrow> bool" where
  "no_cache_requested H templates r = apisix_templates_truthy H templates r"

section \<open>The request hook\<close>

type_synonym 'j cache_ctx = "('j, cache_settings) proxy_ctx"

definition CTX_KEY_CACHE_SETTINGS :: string where
  "CTX_KEY_CACHE_SETTINGS = ''pingsix_cache_settings''"

definition ctx_settings :: "'j cache_ctx \<Rightarrow> cache_settings option" where
  "ctx_settings cx = (case cx_vars cx CTX_KEY_CACHE_SETTINGS of Some (AnyCache st) \<Rightarrow> Some st | _ \<Rightarrow> None)"

definition should_bypass_authenticated_request :: "cache_settings \<Rightarrow> 'j cache_ctx \<Rightarrow> bool" where
  "should_bypass_authenticated_request st cx \<longleftrightarrow>
     \<not> st_cache_authenticated_requests st \<and> (original_request_had_credentials cx \<or> request_has_credentials cx)"

definition cache_request_filter :: "'h http_lib \<Rightarrow> plugin_cache \<Rightarrow> ('h, 'j, cache_settings) exchange \<Rightarrow>
    ('h, 'j, cache_settings) exchange \<times> (proxy_error + filter_verdict)" where
  "cache_request_filter H p x =
     (let (s, cx) = x; r = ss_request s; st = ca_settings p; path = ur_path (rh_uri r);
          enable = ctx_set CTX_KEY_CACHE_SETTINGS (AnyCache st)
      in if rh_method r = ''PURGE'' \<and> st_enable_purge st
         then ((s, enable (ctx_set (st_no_cache_flag_key st) (AnyBool False) cx)), Inr Continue)
         else if rh_method r \<notin> set (ca_methods p) then ((s, cx), Inr Continue)
         else if st_cache_bypass st \<noteq> [] \<and> cache_bypass_requested H (st_cache_bypass st) r then ((s, cx), Inr Continue)
         else
           let no_cache = (st_no_cache st \<noteq> [] \<and> no_cache_requested H (st_no_cache st) r);
               cx = ctx_set (st_no_cache_flag_key st) (AnyBool no_cache) cx
           in if should_bypass_authenticated_request st cx then ((s, cx), Inr Continue)
              else if \<exists>re \<in> set (ca_no_cache_regex p). re path then ((s, cx), Inr Continue)
              else ((s, enable cx), Inr Continue))"

section \<open>Whether a request uses the cache\<close>

fun occurs_in :: "string \<Rightarrow> string \<Rightarrow> bool" where
  "occurs_in needle [] \<longleftrightarrow> needle = []"
| "occurs_in needle (c # cs) \<longleftrightarrow> starts_with needle (c # cs) \<or> occurs_in needle cs"

definition should_enable_purge :: "cache_settings option \<Rightarrow> bool" where
  "should_enable_purge settings = is_some_and settings st_enable_purge"

definition should_enable_request_cache ::
    "'h http_lib \<Rightarrow> ('h \<Rightarrow> string \<Rightarrow> string list) \<Rightarrow> 'h request \<Rightarrow> cache_settings option \<Rightarrow> 'j cache_ctx \<Rightarrow> bool" where
  "should_enable_request_cache H raw r settings cx =
     (if contains_key raw (rh_headers r) ''x-bypass-cache'' then False
      else if is_some_and (get_req_header_value H r ''cache-control'') (\<lambda>v. occurs_in ''no-cache'' v \<or> occurs_in ''no-store'' v) \<and>
              is_none_or settings (\<lambda>st. st_cache_control st \<noteq> Some False)
      then False
      else case settings of
             None \<Rightarrow> False
           | Some st \<Rightarrow> \<not> should_bypass_authenticated_request st cx)"

definition is_purge :: "'h session \<Rightarrow> 'j cache_ctx \<Rightarrow> bool" where
  "is_purge s cx \<longleftrightarrow> rh_method (ss_request s) = ''PURGE'' \<and> should_enable_purge (ctx_settings cx)"

text \<open>Enabling the cache of a session; the result is the size limit it sets, if any.\<close>

definition request_cache_filter ::
    "'h http_lib \<Rightarrow> ('h \<Rightarrow> string \<Rightarrow> string list) \<Rightarrow> 'h session \<Rightarrow> 'j cache_ctx \<Rightarrow> nat option option" where
  "request_cache_filter H raw s cx =
     (if should_enable_request_cache H raw (ss_request s) (ctx_settings cx) cx
      then (case ctx_settings cx of
              Some st \<Rightarrow> Some (if st_max_file_size_bytes st > 0 then Some (st_max_file_size_bytes st) else None)
            | None \<Rightarrow> None)
      else None)"

section \<open>The cache key\<close>

definition cache_key_method :: "string \<Rightarrow> string" where
  "cache_key_method m = (if m = ''PURGE'' then ''GET'' else m)"

definition IDENTITY_CACHE_KEY_VARS :: "string list" where
  "IDENTITY_CACHE_KEY_VARS = [''$http_authorization'']"

definition cache_key_has_identity :: "string list \<Rightarrow> bool" where
  "cache_key_has_identity templates \<longleftrightarrow> (\<exists>t \<in> set templates. t \<in> set IDENTITY_CACHE_KEY_VARS)"

fun hex_of_nat :: "nat \<Rightarrow> string" where
  "hex_of_nat n = (if n < 16 then [hex_digit n] else hex_of_nat (n div 16) @ [hex_digit (n mod 16)])"

declare hex_of_nat.simps [simp del]

text \<open>What the key reads of the matched route and of the upstream: the fingerprint of the route with the
  isolation key of its upstream, and the isolation key of an upstream that traffic-split has chosen.\<close>

record cache_target =
  ct_route :: "(nat \<times> nat option) option"
  ct_override :: "nat option"

definition upstream_key :: "cache_target \<Rightarrow> nat" where
  "upstream_key t =
     (case ct_override t of Some k \<Rightarrow> k
      | None \<Rightarrow> (case ct_route t of Some (_, Some k) \<Rightarrow> k | _ \<Rightarrow> 0))"

definition route_fingerprint :: "cache_target \<Rightarrow> nat" where
  "route_fingerprint t = (case ct_route t of Some (fp, _) \<Rightarrow> fp | None \<Rightarrow> 0)"

definition primary_key :: "'h http_lib \<Rightarrow> (uri \<Rightarrow> string) \<Rightarrow> 'h request \<Rightarrow> cache_settings option \<Rightarrow> string" where
  "primary_key H display r settings =
     (case (case settings of Some st \<Rightarrow> st_cache_key st | None \<Rightarrow> None) of
        Some (t # ts) \<Rightarrow> join [CHR 0x0A] (map (render_cache_key_template H r) (t # ts))
      | _ \<Rightarrow> cache_key_method (rh_method r) @ '' '' @ unwrap_or (get_req_header_value H r HOST_HEADER) [] @ '' '' @
             display (rh_uri r))"

definition isolates :: "cache_settings \<Rightarrow> bool" where
  "isolates st \<longleftrightarrow> st_cache_authenticated_requests st \<and> st_consumer_isolation st \<and>
     \<not> is_some_and (st_cache_key st) cache_key_has_identity"

definition namespace :: "(string \<Rightarrow> string) \<Rightarrow> cache_target \<Rightarrow> bool \<Rightarrow> cache_settings option \<Rightarrow> 'j cache_ctx \<Rightarrow> string" where
  "namespace sha t is_tls settings cx =
     ''rf='' @ hex_of_nat (route_fingerprint t) @
     ''|c='' @ hex_of_nat (case settings of Some st \<Rightarrow> st_policy_fingerprint st | None \<Rightarrow> 0) @
     ''|u='' @ hex_of_nat (upstream_key t) @ ''|sch='' @ (if is_tls then ''https'' else ''http'') @
     (if is_some_and settings isolates then ''|cc='' @ consumer_isolation_component sha cx else [])"

definition cache_key :: "(string \<Rightarrow> string) \<Rightarrow> 'h http_lib \<Rightarrow> (uri \<Rightarrow> string) \<Rightarrow> cache_target \<Rightarrow> 'h session \<Rightarrow> 'j cache_ctx \<Rightarrow> string" where
  "cache_key sha H display t s cx =
     namespace sha t (ss_is_tls s) (ctx_settings cx) cx @ primary_key H display (ss_request s) (ctx_settings cx)"

section \<open>Variance and storage\<close>

definition response_has_vary_star :: "('h \<Rightarrow> string \<Rightarrow> string list) \<Rightarrow> 'h \<Rightarrow> bool" where
  "response_has_vary_star raw h \<longleftrightarrow>
     (\<exists>v \<in> set (texts (map to_str (raw h ''vary''))). \<exists>t \<in> set (split_on CHR '','' v). eq_ignore_ascii_case (trim t) ''*'')"

text \<open>The result lists the names and values that Pingora's variance builder hashes.\<close>

definition vary_names :: "('h \<Rightarrow> string \<Rightarrow> string list) \<Rightarrow> 'h \<Rightarrow> cache_settings \<Rightarrow> string list" where
  "vary_names raw h st =
     filter (\<lambda>v. v \<noteq> []) (map (\<lambda>v. to_ascii_lowercase (trim v))
       (concat (map (\<lambda>v. split_on CHR '','' (unwrap_or (to_str v) [])) (raw h ''vary'')))) @ st_vary st"

definition cache_vary :: "('h \<Rightarrow> string \<Rightarrow> string list) \<Rightarrow> 'h \<Rightarrow> 'j cache_ctx \<Rightarrow> 'h request \<Rightarrow> (string \<times> string) list option" where
  "cache_vary raw meta_headers cx r =
     (case ctx_settings cx of
        None \<Rightarrow> None
      | Some st \<Rightarrow>
          if response_has_vary_star raw meta_headers then None
          else
            let headers = vary_names raw meta_headers st
            in if headers = [] then None
               else Some (map (\<lambda>name. (name, case raw (rh_headers r) name of v # _ \<Rightarrow> v | [] \<Rightarrow> [])) (sort_dedup headers)))"

datatype directive_key = MaxAge | SMaxAge | StaleWhileRevalidate | OtherDirective string

type_synonym directives = "(directive_key \<times> string option) list"

datatype no_cache_reason = NeverEnabled | OriginNotCache

datatype 'm resp_cacheable = Uncacheable no_cache_reason | Verdict 'm

record ('h, 'm) cc_lib =
  cl_from_resp_headers :: "'h \<Rightarrow> directives option"
  cl_no_store :: "directives \<Rightarrow> bool"
  cl_private :: "directives \<Rightarrow> bool"
  cl_no_cache :: "directives \<Rightarrow> bool"
  cl_no_cache_field_names :: "directives \<Rightarrow> bool"
  cl_resp_cacheable :: "directives option \<Rightarrow> 'h \<Rightarrow> bool \<Rightarrow> 'm"

definition origin_response_uncacheable :: "('h, 'm) cc_lib \<Rightarrow> directives option \<Rightarrow> bool" where
  "origin_response_uncacheable L control =
     is_some_and control (\<lambda>cc. cl_no_store L cc \<or> cl_private L cc \<or> cl_no_cache L cc \<or> cl_no_cache_field_names L cc)"

text \<open>One step of the loop that copies the directives.\<close>

definition copy_directive :: "bool \<Rightarrow> directive_key \<times> string option \<Rightarrow> directives \<times> bool \<Rightarrow> directives \<times> bool" where
  "copy_directive respect_s_maxage kv acc =
     (let (key, val) = kv; (directives, final_has_max_age) = acc
      in if respect_s_maxage \<and> key = SMaxAge
         then (case val of
                 Some v \<Rightarrow> (AList.update key val (AList.update MaxAge (Some v) directives), True)
               | None \<Rightarrow> (AList.update key val directives, final_has_max_age))
         else (AList.update key val directives, final_has_max_age \<or> key = MaxAge))"

definition add_revalidate :: "cache_settings \<Rightarrow> directives \<Rightarrow> directives" where
  "add_revalidate st ds =
     (case st_stale_while_revalidate st of
        Some swr \<Rightarrow> if StaleWhileRevalidate \<in> keys ds then ds
                   else AList.update StaleWhileRevalidate (Some (nat_to_string swr)) ds
      | None \<Rightarrow> ds)"

definition ttl_directive :: "cache_settings \<Rightarrow> string option" where
  "ttl_directive st = Some (nat_to_string (st_ttl st))"

definition ensure_max_age :: "directives option \<Rightarrow> cache_settings \<Rightarrow> directives" where
  "ensure_max_age cc st =
     (let cc = (if st_cache_control st = Some False
                then map_option (\<lambda>ds. AList.delete SMaxAge (AList.delete MaxAge ds)) cc else cc)
      in case cc of
           Some existing \<Rightarrow>
             let has_max_age = (MaxAge \<in> keys existing);
                 rewrite_smaxage = (st_respect_s_maxage st \<and> SMaxAge \<in> keys existing);
                 add_swr = (st_stale_while_revalidate st \<noteq> None \<and> StaleWhileRevalidate \<notin> keys existing)
             in if has_max_age \<and> \<not> rewrite_smaxage \<and> \<not> add_swr then existing
                else
                  let (directives, final_has_max_age) = fold (copy_directive (st_respect_s_maxage st)) existing ([], False);
                      directives = (if \<not> final_has_max_age then AList.update MaxAge (ttl_directive st) directives else directives)
                  in add_revalidate st directives
         | None \<Rightarrow> add_revalidate st [(MaxAge, ttl_directive st)])"

definition response_cacheability :: "('h \<Rightarrow> string \<Rightarrow> string list) \<Rightarrow> ('h, 'm) cc_lib \<Rightarrow> nat \<Rightarrow> 'h \<Rightarrow> 'j cache_ctx \<Rightarrow> 'm resp_cacheable" where
  "response_cacheability raw L status h cx =
     (case ctx_settings cx of
        None \<Rightarrow> Uncacheable NeverEnabled
      | Some st \<Rightarrow>
          if unwrap_or (ctx_get_bool cx (st_no_cache_flag_key st)) False then Uncacheable OriginNotCache
          else if should_bypass_authenticated_request st cx \<or> status \<notin> set (st_statuses st) \<or>
                  (\<not> st_cache_set_cookie_responses st \<and> contains_key raw h ''set-cookie'') \<or> response_has_vary_star raw h
          then Uncacheable OriginNotCache
          else
            let control = cl_from_resp_headers L h
            in if origin_response_uncacheable L control then Uncacheable OriginNotCache
               else Verdict (cl_resp_cacheable L (Some (ensure_max_age control st)) h
                      (original_request_had_credentials cx \<or> request_has_credentials cx)))"

section \<open>Equal keys\<close>

lemma hex_of_nat_digits: "c \<in> set (hex_of_nat n) \<Longrightarrow> \<exists>d < 16. c = hex_digit d"
proof (induction n rule: hex_of_nat.induct)
  case (1 n)
  show ?case
  proof (cases "n < 16")
    case True
    then have "hex_of_nat n = [hex_digit n]" by (subst hex_of_nat.simps) simp
    then show ?thesis using True "1.prems" by auto
  next
    case False
    then have "set (hex_of_nat n) = insert (hex_digit (n mod 16)) (set (hex_of_nat (n div 16)))" by (subst hex_of_nat.simps) simp
    then have "c \<in> set (hex_of_nat (n div 16)) \<or> c = hex_digit (n mod 16)" using "1.prems" by blast
    then show ?thesis using "1.IH" [OF False] by (auto intro: exI [of _ "n mod 16"])
  qed
qed

lemma hex_of_nat_no_bar: "CHR ''|'' \<notin> set (hex_of_nat n)"
proof
  assume "CHR ''|'' \<in> set (hex_of_nat n)"
  then obtain d where d: "d < 16" "CHR ''|'' = hex_digit d" using hex_of_nat_digits by blast
  have "CHR ''|'' \<notin> set (map hex_digit [0..<16])" by code_simp
  then show False using d by auto
qed

lemma hex_of_nat_Nil: "hex_of_nat n \<noteq> []"
  by (subst hex_of_nat.simps) simp

lemma hex_of_nat_inj: "hex_of_nat m = hex_of_nat n \<Longrightarrow> m = n"
proof (induction m arbitrary: n rule: hex_of_nat.induct)
  case (1 m)
  have short: "length (hex_of_nat k) = 1 \<longleftrightarrow> k < 16" for k
    by (subst hex_of_nat.simps) (auto simp: hex_of_nat_Nil)
  have iff: "m < 16 \<longleftrightarrow> n < 16" using short [of m] short [of n] 1(2) by simp
  show ?case
  proof (cases "m < 16")
    case True
    then have "[hex_digit m] = [hex_digit n]" using iff 1(2) by (simp add: hex_of_nat.simps [of m] hex_of_nat.simps [of n])
    then show ?thesis using True iff hex_digit_inj by simp
  next
    case False
    then have "hex_of_nat (m div 16) @ [hex_digit (m mod 16)] = hex_of_nat (n div 16) @ [hex_digit (n mod 16)]"
      using iff 1(2) by (simp add: hex_of_nat.simps [of m] hex_of_nat.simps [of n])
    then have "m div 16 = n div 16" "m mod 16 = n mod 16" using 1(1) [OF False] hex_digit_inj by auto
    then show ?thesis by (metis div_mult_mod_eq)
  qed
qed

lemma hex_section:
  assumes "hex_of_nat a @ CHR ''|'' # x = hex_of_nat b @ CHR ''|'' # y"
  shows "a = b \<and> x = y"
  using split_at_unique [OF assms] hex_of_nat_no_bar hex_of_nat_inj by auto

definition after_namespace :: "(string \<Rightarrow> string) \<Rightarrow> bool \<Rightarrow> cache_settings option \<Rightarrow> 'j cache_ctx \<Rightarrow> string" where
  "after_namespace sha is_tls settings cx =
     (if is_tls then ''https'' else ''http'') @
     (if is_some_and settings isolates then ''|cc='' @ consumer_isolation_component sha cx else [])"

lemma cache_key_parts:
  assumes "cache_key sha H display t s cx = cache_key sha H display t' s' cx'"
    and "ctx_settings cx = Some st" and "ctx_settings cx' = Some st'"
  shows "route_fingerprint t = route_fingerprint t' \<and> st_policy_fingerprint st = st_policy_fingerprint st' \<and>
    upstream_key t = upstream_key t' \<and>
    after_namespace sha (ss_is_tls s) (Some st) cx @ primary_key H display (ss_request s) (Some st) =
    after_namespace sha (ss_is_tls s') (Some st') cx' @ primary_key H display (ss_request s') (Some st')"
proof -
  let ?rest = "\<lambda>s st cx. after_namespace sha (ss_is_tls s) (Some st) cx @ primary_key H display (ss_request s) (Some st)"
  have key: "cache_key sha H display t s cx = ''rf='' @ hex_of_nat (route_fingerprint t) @ CHR ''|'' # ''c='' @
      hex_of_nat (st_policy_fingerprint st) @ CHR ''|'' # ''u='' @ hex_of_nat (upstream_key t) @ CHR ''|'' # ''sch='' @ ?rest s st cx"
    if "ctx_settings cx = Some st" for t s cx st
    using that by (simp add: cache_key_def namespace_def after_namespace_def)
  have "hex_of_nat (route_fingerprint t) @ CHR ''|'' # ''c='' @
      hex_of_nat (st_policy_fingerprint st) @ CHR ''|'' # ''u='' @ hex_of_nat (upstream_key t) @ CHR ''|'' # ''sch='' @ ?rest s st cx =
    hex_of_nat (route_fingerprint t') @ CHR ''|'' # ''c='' @
      hex_of_nat (st_policy_fingerprint st') @ CHR ''|'' # ''u='' @ hex_of_nat (upstream_key t') @ CHR ''|'' # ''sch='' @ ?rest s' st' cx'"
    using assms(1) unfolding key [OF assms(2)] key [OF assms(3)] by simp
  note one = hex_section [OF this]
  have "hex_of_nat (st_policy_fingerprint st) @ CHR ''|'' # ''u='' @ hex_of_nat (upstream_key t) @ CHR ''|'' # ''sch='' @ ?rest s st cx =
      hex_of_nat (st_policy_fingerprint st') @ CHR ''|'' # ''u='' @ hex_of_nat (upstream_key t') @ CHR ''|'' # ''sch='' @ ?rest s' st' cx'"
    using conjunct2 [OF one] by simp
  note two = hex_section [OF this]
  have "hex_of_nat (upstream_key t) @ CHR ''|'' # ''sch='' @ ?rest s st cx =
      hex_of_nat (upstream_key t') @ CHR ''|'' # ''sch='' @ ?rest s' st' cx'"
    using conjunct2 [OF two] by simp
  note three = hex_section [OF this]
  show ?thesis using one two three by simp
qed

text \<open>Settings of the same fingerprint come from the same policy.\<close>

lemma created_settings:
  assumes "create_cache_plugin K hash c default_max i = Inr p"
  shows "st_policy_fingerprint (ca_settings p) = hash (policy_of (apply_aliases c) (st_max_file_size_bytes (ca_settings p))) \<and>
    isolates (ca_settings p) =
      (po_cache_authenticated_requests (policy_of (apply_aliases c) m) \<and> po_consumer_isolation (policy_of (apply_aliases c) m) \<and>
       \<not> is_some_and (po_cache_key (policy_of (apply_aliases c) m)) cache_key_has_identity)"
  using assms by (auto simp: create_cache_plugin_def cache_config_from_def Let_def policy_of_def isolates_def)

lemma isolated_sections:
  assumes "after_namespace sha tls (Some st) cx @ x = after_namespace sha tls' (Some st') cx' @ y"
    and "isolates st" and "isolates st'" and "length (consumer_isolation_component sha cx) = length (consumer_isolation_component sha cx')"
  shows "tls = tls' \<and> consumer_isolation_component sha cx = consumer_isolation_component sha cx' \<and> x = y"
  using assms by (auto simp: after_namespace_def split: if_splits)

section \<open>Requests through their plugins\<close>

lemma cache_hook_adds:
  assumes "cache_request_filter H p (s, cx) = ((s', cx'), Inr Continue)"
  shows "s' = s \<and> adds sha [] cx cx'"
proof -
  have "adds sha [] cx (ctx_set k v cx)" "adds sha [] cx (ctx_set k v (ctx_set k' v' cx))" for k v k' v'
    by (simp_all add: adds_def ctx_set_def)
  then have "fst (fst (cache_request_filter H p (s, cx))) = s \<and> adds sha [] cx (snd (fst (cache_request_filter H p (s, cx))))"
    using adds_refl [of sha cx] by (simp add: cache_request_filter_def Let_def)
  then show ?thesis using assms by simp
qed

lemma cached_hook_adds:
  assumes hook: "hook \<in> auth_hooks sha H b64 J \<union> range (cache_request_filter H)" and wf: "http_wf H raw (ss_request s)"
    and run: "hook (s, cx) = ((s', cx'), Inr Continue)"
  shows "http_wf H raw (ss_request s') \<and> (\<exists>ds. adds sha ds cx cx')"
proof -
  from hook consider (auth) "hook \<in> auth_hooks sha H b64 J" | (cache) p where "hook = cache_request_filter H p" by blast
  then show ?thesis
  proof cases
    case auth
    then show ?thesis using auth_hook_adds [OF auth wf run] by blast
  next
    case cache
    then show ?thesis using cache_hook_adds [of H p s cx s' cx' sha] run wf by blast
  qed
qed

interpretation cached: credential_hooks sha "http_wf H raw" "auth_hooks sha H b64 J \<union> range (cache_request_filter H)"
  by unfold_locales (use cached_hook_adds in blast)

context credential_hooks
begin

lemma run_marks:
  assumes "\<forall>p \<in> set ps. pl_request_filter p \<in> hooks" and "wf (ss_request s)" and "run_request ps (s, cx) = ((s', cx'), Inr Continue)"
    and "p \<in> set ps" and "\<And>s cx s' cx'. wf (ss_request s) \<Longrightarrow> pl_request_filter p (s, cx) = ((s', cx'), Inr Continue) \<Longrightarrow>
      request_has_credentials cx'"
  shows "request_has_credentials cx'"
  using assms(1-4)
proof (induction ps arbitrary: s cx)
  case (Cons q ps)
  obtain t dx where first: "pl_request_filter q (s, cx) = ((t, dx), Inr Continue)"
      and rest: "run_request ps (t, dx) = ((s', cx'), Inr Continue)"
    using Cons.prems(3) by (auto split: prod.splits sum.splits filter_verdict.splits)
  have wf: "wf (ss_request t)" using passed [of "pl_request_filter q" s cx t dx] first Cons.prems by auto
  show ?case
  proof (cases "p = q")
    case True
    then have "request_has_credentials dx" using assms(5) [of s cx t dx] first Cons.prems(2) by simp
    moreover obtain ds where "adds sha ds dx cx'" using run_adds [OF _ wf rest] Cons.prems(1) by auto
    ultimately show ?thesis by (simp add: adds_def)
  next
    case False
    then show ?thesis using Cons.IH [OF _ wf rest] Cons.prems by auto
  qed
qed simp

end

lemma captured:
  "identified sha raw r [] (capture_credentials sha raw r ctx_default)"
  by (simp add: identified_def capture_credentials_def ctx_default_def Let_def)

lemma captured_marked:
  "headers_indicate_shared_cache_credentials raw (rh_headers r) \<Longrightarrow> request_has_credentials (capture_credentials sha raw r cx)"
  by (simp add: capture_credentials_def)

text \<open>A request that arrives and passes all its plugins. The plugins of \<open>cache_hooks\<close> are any instances of the
  authentication plugins and of the cache plugin, in any order.\<close>

definition cache_hooks :: "(string \<Rightarrow> string) \<Rightarrow> 'h http_lib \<Rightarrow> (string \<Rightarrow> string option) \<Rightarrow> ('k, 'j) jwt_lib \<Rightarrow>
    (('h, 'j, cache_settings) exchange \<Rightarrow> ('h, 'j, cache_settings) exchange \<times> (proxy_error + filter_verdict)) set" where
  "cache_hooks sha H b64 J = auth_hooks sha H b64 J \<union> range (cache_request_filter H)"

definition passes :: "(string \<Rightarrow> string) \<Rightarrow> 'h http_lib \<Rightarrow> ('h \<Rightarrow> string \<Rightarrow> string list) \<Rightarrow> (string \<Rightarrow> string option) \<Rightarrow>
    ('k, 'j) jwt_lib \<Rightarrow> (('h, 'j, cache_settings) exchange, proxy_error) plugin list \<Rightarrow> 'h session \<Rightarrow> 'h session \<Rightarrow> 'j cache_ctx \<Rightarrow> bool" where
  "passes sha H raw b64 J ps s s' cx \<longleftrightarrow>
     http_wf H raw (ss_request s) \<and> (\<forall>p \<in> set ps. pl_request_filter p \<in> cache_hooks sha H b64 J) \<and>
     run_request ps (s, capture_credentials sha raw (ss_request s) ctx_default) = ((s', cx), Inr Continue)"

text \<open>What the plugins of a request checked. A plugin instance is given by its state; the credential it checks is
  read off the request as it reaches the plugin: the presented key, the Authorization header, the token.
  \<open>verified\<close> lists those the plugins let pass, in the order they ran.\<close>

datatype 'k guard = KeyGuard key_auth | BasicGuard basic_auth | JwtGuard "'k jwt_auth" | CacheGuard plugin_cache

fun guard_hook :: "(string \<Rightarrow> string) \<Rightarrow> 'h http_lib \<Rightarrow> (string \<Rightarrow> string option) \<Rightarrow> ('k, 'j) jwt_lib \<Rightarrow> 'k guard \<Rightarrow>
    ('h, 'j, cache_settings) exchange \<Rightarrow> ('h, 'j, cache_settings) exchange \<times> (proxy_error + filter_verdict)" where
  "guard_hook sha H b64 J (KeyGuard p) = key_auth_request_filter sha H p"
| "guard_hook sha H b64 J (BasicGuard p) = basic_auth_request_filter sha b64 H p"
| "guard_hook sha H b64 J (JwtGuard p) = jwt_auth_request_filter sha H J p"
| "guard_hook sha H b64 J (CacheGuard p) = cache_request_filter H p"

fun checked_credential :: "'h http_lib \<Rightarrow> 'k guard \<Rightarrow> 'h request \<Rightarrow> string list" where
  "checked_credential H (KeyGuard p) r = [fst (presented_key H (ka_config p) r)]"
| "checked_credential H (BasicGuard p) r =
     (case get_req_header_value H r AUTHORIZATION of Some v \<Rightarrow> [v] | None \<Rightarrow> [])"
| "checked_credential H (JwtGuard p) r = (case presented_token H (ja_config p) r of Some t \<Rightarrow> [t] | None \<Rightarrow> [])"
| "checked_credential H (CacheGuard p) r = []"

fun verified :: "(string \<Rightarrow> string) \<Rightarrow> 'h http_lib \<Rightarrow> (string \<Rightarrow> string option) \<Rightarrow> ('k, 'j) jwt_lib \<Rightarrow> 'k guard list \<Rightarrow>
    ('h, 'j, cache_settings) exchange \<Rightarrow> string list" where
  "verified sha H b64 J [] x = []"
| "verified sha H b64 J (g # gs) x =
     (case guard_hook sha H b64 J g x of
        (y, Inr Continue) \<Rightarrow> checked_credential H g (ss_request (fst x)) @ verified sha H b64 J gs y
      | _ \<Rightarrow> [])"

text \<open>The credentials checked for a request as it arrives.\<close>

definition verified_credentials :: "(string \<Rightarrow> string) \<Rightarrow> 'h http_lib \<Rightarrow> ('h \<Rightarrow> string \<Rightarrow> string list) \<Rightarrow> (string \<Rightarrow> string option) \<Rightarrow>
    ('k, 'j) jwt_lib \<Rightarrow> 'k guard list \<Rightarrow> 'h session \<Rightarrow> string list" where
  "verified_credentials sha H raw b64 J gs s =
     verified sha H b64 J gs (s, capture_credentials sha raw (ss_request s) ctx_default)"

lemma guard_adds:
  assumes wf: "http_wf H raw (ss_request s)" and run: "guard_hook sha H b64 J g (s, cx) = ((s', cx'), Inr Continue)"
  shows "http_wf H raw (ss_request s') \<and> adds sha (checked_credential H g (ss_request s)) cx cx'"
proof (cases g)
  case (KeyGuard p)
  then show ?thesis using key_auth_adds [OF wf, of sha p cx s' cx'] run by simp
next
  case (BasicGuard p)
  then show ?thesis using basic_auth_adds [OF wf, of sha b64 p cx s' cx'] run by auto
next
  case (JwtGuard p)
  then show ?thesis using jwt_auth_adds [OF wf, of sha J p cx s' cx'] run by auto
next
  case (CacheGuard p)
  then show ?thesis using cache_hook_adds [of H p s cx s' cx' sha] run wf by auto
qed

lemma verified_adds:
  assumes "http_wf H raw (ss_request s)" and "run_request ps (s, cx) = ((s', cx'), Inr Continue)"
    and "map pl_request_filter ps = map (guard_hook sha H b64 J) gs"
  shows "adds sha (verified sha H b64 J gs (s, cx)) cx cx'"
  using assms
proof (induction gs arbitrary: ps s cx)
  case Nil
  then show ?case using adds_refl by auto
next
  case (Cons g gs)
  obtain p qs where ps: "ps = p # qs" "pl_request_filter p = guard_hook sha H b64 J g"
      "map pl_request_filter qs = map (guard_hook sha H b64 J) gs"
    using Cons.prems(3) by (cases ps) auto
  obtain t dx where first: "guard_hook sha H b64 J g (s, cx) = ((t, dx), Inr Continue)"
      and rest: "run_request qs (t, dx) = ((s', cx'), Inr Continue)"
    using Cons.prems(2) ps by (auto split: prod.splits sum.splits filter_verdict.splits)
  note step = guard_adds [OF Cons.prems(1) first]
  have "adds sha (verified sha H b64 J gs (t, dx)) dx cx'" using Cons.IH [OF _ rest ps(3)] step by blast
  then show ?case using step adds_trans by (auto simp: first)
qed

lemma passes_identified:
  assumes "passes sha H raw b64 J ps s s' cx" and "map pl_request_filter ps = map (guard_hook sha H b64 J) gs"
  shows "identified sha raw (ss_request s) (verified_credentials sha H raw b64 J gs s) cx"
proof -
  have "adds sha (verified_credentials sha H raw b64 J gs s) (capture_credentials sha raw (ss_request s) ctx_default) cx"
    unfolding verified_credentials_def by (rule verified_adds [OF _ _ assms(2)]) (use assms(1) in \<open>unfold passes_def, blast+\<close>)
  then show ?thesis using adds_identified [OF captured] by fastforce
qed

text \<open>C10: The shared cache keeps consumers apart. Take two requests of any routes that passed their plugins -
  any instances of key-auth, basic-auth, jwt-auth and the cache plugin, in any order - and two instances of
  the cache plugin that enabled the cache for them. If their keys are equal, they run under the same cache
  policy, route and upstream; and when that policy caches authenticated requests and isolates consumers,
  they arrived on the same scheme with exactly the same Authorization, Proxy-Authorization and Cookie
  headers, and the authentication plugins checked the same credentials for them in the same order,
  wherever these were taken from and although plugins may have removed them since. The policy fingerprint
  separates the two policies and the digest the texts that are hashed for the two requests.\<close>

theorem cache_keeps_consumers_apart:
  assumes pass: "passes sha H raw b64 J ps s\<^sub>0 s cx" "passes sha H raw b64 J ps' s\<^sub>0' s' cx'"
    and plugins: "map pl_request_filter ps = map (guard_hook sha H b64 J) gs"
      "map pl_request_filter ps' = map (guard_hook sha H b64 J) gs'"
    and create: "create_cache_plugin K hash c default_max i = Inr p" "create_cache_plugin K hash c' default_max i' = Inr p'"
    and settings: "ctx_settings cx = Some (ca_settings p)" "ctx_settings cx' = Some (ca_settings p')"
    and hash: "inj_on hash {policy_of (apply_aliases c) (st_max_file_size_bytes (ca_settings p)),
      policy_of (apply_aliases c') (st_max_file_size_bytes (ca_settings p'))}"
    and key: "cache_key sha H display t s cx = cache_key sha H display t' s' cx'"
  shows "route_fingerprint t = route_fingerprint t' \<and> upstream_key t = upstream_key t' \<and>
    policy_of (apply_aliases c) (st_max_file_size_bytes (ca_settings p)) =
      policy_of (apply_aliases c') (st_max_file_size_bytes (ca_settings p')) \<and>
    (let cs = verified_credentials sha H raw b64 J gs s\<^sub>0; cs' = verified_credentials sha H raw b64 J gs' s\<^sub>0'
     in isolates (ca_settings p) \<and>
        collision_free sha (identity_inputs sha raw (ss_request s\<^sub>0) cs cx \<union> identity_inputs sha raw (ss_request s\<^sub>0') cs' cx') \<longrightarrow>
        ss_is_tls s = ss_is_tls s' \<and> cs = cs' \<and>
        (\<forall>name \<in> set CREDENTIAL_HEADERS. raw (rh_headers (ss_request s\<^sub>0)) name = raw (rh_headers (ss_request s\<^sub>0')) name))"
proof -
  let ?m = "st_max_file_size_bytes (ca_settings p)" and ?m' = "st_max_file_size_bytes (ca_settings p')"
  let ?cs = "verified_credentials sha H raw b64 J gs s\<^sub>0" and ?cs' = "verified_credentials sha H raw b64 J gs' s\<^sub>0'"
  note parts = cache_key_parts [OF key settings]
  have policy: "policy_of (apply_aliases c) ?m = policy_of (apply_aliases c') ?m'"
  proof (rule inj_onD [OF hash])
    show "hash (policy_of (apply_aliases c) ?m) = hash (policy_of (apply_aliases c') ?m')"
      using parts conjunct1 [OF created_settings [OF create(1)]] conjunct1 [OF created_settings [OF create(2)]] by metis
  qed simp_all
  have raw: "raw_ok H raw" using pass(1) by (simp add: passes_def http_wf_def)
  note ids = passes_identified [OF pass(1) plugins(1)] passes_identified [OF pass(2) plugins(2)]
  have apart: "ss_is_tls s = ss_is_tls s' \<and> ?cs = ?cs' \<and>
      (\<forall>name \<in> set CREDENTIAL_HEADERS. raw (rh_headers (ss_request s\<^sub>0)) name = raw (rh_headers (ss_request s\<^sub>0')) name)"
    if isolated: "isolates (ca_settings p)"
      and free: "collision_free sha (identity_inputs sha raw (ss_request s\<^sub>0) ?cs cx \<union> identity_inputs sha raw (ss_request s\<^sub>0') ?cs' cx')"
  proof -
    have "isolates (ca_settings p')"
      using isolated created_settings [OF create(1), of ?m] created_settings [OF create(2), of ?m'] policy by simp
    moreover have "length (consumer_isolation_component sha cx) = length (consumer_isolation_component sha cx')"
      using length_digest [OF free] by (simp only: consumer_isolation_component_def)
    ultimately have same: "ss_is_tls s = ss_is_tls s' \<and> consumer_isolation_component sha cx = consumer_isolation_component sha cx'"
      using isolated_sections isolated parts by blast
    then show ?thesis using isolation_component_inj [OF raw free ids] by simp
  qed
  show ?thesis unfolding Let_def using parts policy apart by blast
qed

text \<open>C11: While authenticated requests are not to be cached, none touches the shared cache. A request that arrives
  with a credential header, or that passes an authentication plugin wherever this takes its credential
  from, neither looks an entry up nor has its response stored, also when the cache plugin ran before the
  authentication.\<close>

theorem authenticated_requests_bypass:
  assumes pass: "passes sha H raw b64 J ps s\<^sub>0 s cx"
    and settings: "ctx_settings cx = Some st" "\<not> st_cache_authenticated_requests st"
    and credentials: "headers_indicate_shared_cache_credentials raw (rh_headers (ss_request s\<^sub>0)) \<or>
      pl_request_filter ` set ps \<inter> auth_hooks sha H b64 J \<noteq> {}"
  shows "request_cache_filter H raw s cx = None \<and> (\<exists>reason. response_cacheability raw L status h cx = Uncacheable reason)"
proof -
  have pass': "http_wf H raw (ss_request s\<^sub>0)"
    "\<forall>p \<in> set ps. pl_request_filter p \<in> auth_hooks sha H b64 J \<union> range (cache_request_filter H)"
    "run_request ps (s\<^sub>0, capture_credentials sha raw (ss_request s\<^sub>0) ctx_default) = ((s, cx), Inr Continue)"
    using pass unfolding passes_def cache_hooks_def by blast+
  have "request_has_credentials cx"
  proof (cases "headers_indicate_shared_cache_credentials raw (rh_headers (ss_request s\<^sub>0))")
    case True
    obtain ds where "adds sha ds (capture_credentials sha raw (ss_request s\<^sub>0) ctx_default) cx"
      using cached.run_adds [OF pass'(2,1,3)] by blast
    then show ?thesis by (simp add: adds_def captured_marked [OF True])
  next
    case False
    then obtain p where p: "p \<in> set ps" "pl_request_filter p \<in> auth_hooks sha H b64 J" using credentials by blast
    show ?thesis
    proof (rule cached.run_marks [OF pass'(2,1,3) p(1)])
      fix s cx s' cx'
      assume "http_wf H raw (ss_request s)" "pl_request_filter p (s, cx) = ((s', cx'), Inr Continue)"
      then obtain d where "adds sha [d] cx cx'" using auth_hook_adds [OF p(2)] by blast
      then show "request_has_credentials cx'" by (simp add: adds_def)
    qed
  qed
  then have "should_bypass_authenticated_request st cx" using settings(2) by (simp add: should_bypass_authenticated_request_def)
  then show ?thesis using settings(1)
    by (simp add: request_cache_filter_def should_enable_request_cache_def response_cacheability_def)
qed

text \<open>C40: The scheme and the first text of a key are joined without a mark. When the key starts with text of the
  client's choosing, a plain request whose text is the letter s followed by that of a request over TLS has
  the key of the latter, so what it puts into the cache is served over TLS.\<close>

theorem cache_key_scheme_confusion:
  assumes "ctx_settings cx = Some st" and "ctx_settings cx' = Some st" and "\<not> isolates st"
    and "st_cache_key st = Some [''$arg_v'']"
    and "\<not> ss_is_tls s" and "ss_is_tls s'"
    and "get_query_value (ss_request s) ''v'' = Some (CHR ''s'' # text)" and "get_query_value (ss_request s') ''v'' = Some text"
  shows "cache_key sha H display t s cx = cache_key sha H display t s' cx'"
proof -
  have template: "render_cache_key_template H r ''$arg_v'' = unwrap_or (get_query_value r ''v'') []" for r
  proof -
    have "placeholder ''arg_v'' = (''arg_v'', [])" by code_simp
    then have "render_cache_key_template H r ''$arg_v'' = resolve_cache_key_var H r ''arg_v''"
      by (simp add: render_cache_key_template_def render_apisix_template_def render_template_def
          render_template_with_count.simps(2) emit_def)
    moreover have "strip_prefix ''arg_'' ''arg_v'' = Some ''v''" by code_simp
    ultimately show ?thesis by (simp add: resolve_cache_key_var_def)
  qed
  show ?thesis using assms by (simp add: cache_key_def namespace_def primary_key_def template unwrap_or_def)
qed

section \<open>The freshness of stored responses\<close>

lemma in_keys_map_of: "k \<in> keys ds \<longleftrightarrow> map_of ds k \<noteq> None"
  by (simp add: map_of_eq_None_iff)

lemma copy_step:
  "copy_directive b (k, v) (ds, f) = (ds', f') \<Longrightarrow>
     (j \<noteq> MaxAge \<longrightarrow> map_of ds' j = (if j = k then Some v else map_of ds j)) \<and>
     ((MaxAge \<in> keys ds \<longleftrightarrow> f) \<longrightarrow> (MaxAge \<in> keys ds' \<longleftrightarrow> f'))"
  unfolding in_keys_map_of by (auto simp: copy_directive_def split: if_splits option.splits)

lemma copy_all:
  assumes "fold (copy_directive b) xs (ds, f) = (ds', f')"
  shows "(distinct_keys xs \<and> j \<noteq> MaxAge \<longrightarrow> map_of ds' j = (case map_of xs j of Some v \<Rightarrow> Some v | None \<Rightarrow> map_of ds j)) \<and>
    ((MaxAge \<in> keys ds \<longleftrightarrow> f) \<longrightarrow> (MaxAge \<in> keys ds' \<longleftrightarrow> f'))"
  using assms
proof (induction xs arbitrary: ds f)
  case (Cons x xs)
  obtain k v where x: "x = (k, v)" by (cases x)
  obtain ds1 f1 where step: "copy_directive b (k, v) (ds, f) = (ds1, f1)" by (cases "copy_directive b (k, v) (ds, f)")
  have rest: "fold (copy_directive b) xs (ds1, f1) = (ds', f')" using Cons.prems step x by simp
  have "distinct_keys (x # xs) \<Longrightarrow> map_of xs k = None" by (auto simp: x map_of_eq_None_iff)
  then show ?case using Cons.IH [OF rest] copy_step [OF step, of j] by (auto simp: x split: option.splits)
qed auto

lemma revalidate_lookup:
  "map_of (add_revalidate st ds) k =
     (if k = StaleWhileRevalidate \<and> st_stale_while_revalidate st \<noteq> None \<and> StaleWhileRevalidate \<notin> keys ds
      then Some (Some (nat_to_string (the (st_stale_while_revalidate st)))) else map_of ds k)"
  by (auto simp: add_revalidate_def split: option.splits)

definition considered :: "cache_settings \<Rightarrow> directives option \<Rightarrow> directives" where
  "considered st cc =
     (case cc of
        Some ds \<Rightarrow> if st_cache_control st = Some False then AList.delete SMaxAge (AList.delete MaxAge ds) else ds
      | None \<Rightarrow> [])"

lemma ensure_max_age_cases:
  assumes "distinct_keys (considered st cc)"
  shows "MaxAge \<in> keys (ensure_max_age cc st) \<and>
    (\<forall>k. k \<noteq> MaxAge \<and> k \<noteq> StaleWhileRevalidate \<longrightarrow> map_of (ensure_max_age cc st) k = map_of (considered st cc) k) \<and>
    (StaleWhileRevalidate \<in> keys (ensure_max_age cc st) \<longleftrightarrow>
       st_stale_while_revalidate st \<noteq> None \<or> StaleWhileRevalidate \<in> keys (considered st cc)) \<and>
    (MaxAge \<notin> keys (considered st cc) \<and> SMaxAge \<notin> keys (considered st cc) \<longrightarrow>
       map_of (ensure_max_age cc st) MaxAge = Some (ttl_directive st))"
proof (cases cc)
  case None
  then show ?thesis by (auto simp: ensure_max_age_def considered_def in_keys_map_of revalidate_lookup split: if_splits)
next
  case (Some ds)
  let ?E = "considered st cc"
  have E: "?E = (if st_cache_control st = Some False then AList.delete SMaxAge (AList.delete MaxAge ds) else ds)"
    by (simp add: considered_def Some)
  let ?early = "MaxAge \<in> keys ?E \<and> \<not> (st_respect_s_maxage st \<and> SMaxAge \<in> keys ?E) \<and>
      \<not> (st_stale_while_revalidate st \<noteq> None \<and> StaleWhileRevalidate \<notin> keys ?E)"
  obtain ds' f' where copy: "fold (copy_directive (st_respect_s_maxage st)) ?E ([], False) = (ds', f')"
    by (cases "fold (copy_directive (st_respect_s_maxage st)) ?E ([], False)")
  have result: "ensure_max_age cc st = (if ?early then ?E
      else add_revalidate st (if \<not> f' then AList.update MaxAge (ttl_directive st) ds' else ds'))"
  proof -
    have cc: "(if st_cache_control st = Some False then map_option (\<lambda>ds. AList.delete SMaxAge (AList.delete MaxAge ds)) cc else cc) =
        Some ?E" by (simp add: Some considered_def)
    show ?thesis unfolding ensure_max_age_def Let_def cc option.case copy prod.case by (rule refl)
  qed
  have lookup: "\<And>j. j \<noteq> MaxAge \<Longrightarrow> map_of ds' j = map_of ?E j" and flag: "MaxAge \<in> keys ds' \<longleftrightarrow> f'"
    using copy_all [OF copy] assms by (auto split: option.splits)
  show ?thesis
  proof (cases ?early)
    case True
    show ?thesis unfolding result if_P [OF True] using True by blast
  next
    case False
    have no_flag: "\<not> f'" if "MaxAge \<notin> keys ?E" "SMaxAge \<notin> keys ?E"
    proof -
      have "\<not> snd (fold (copy_directive b) xs (ds, False))" if "MaxAge \<notin> keys xs" "SMaxAge \<notin> keys xs" for b xs ds
        using that by (induction xs arbitrary: ds) (auto simp: copy_directive_def split: prod.splits)
      then show ?thesis using that copy by (metis snd_conv)
    qed
    let ?D = "if \<not> f' then AList.update MaxAge (ttl_directive st) ds' else ds'"
    have D: "map_of ?D j = map_of ?E j" if "j \<noteq> MaxAge" for j using lookup [OF that] that by simp
    have present: "MaxAge \<in> keys ?D" using flag by (simp add: keys_update)
    have eq: "ensure_max_age cc st = add_revalidate st ?D" unfolding result using False by (simp only: if_False)
    have swr: "StaleWhileRevalidate \<in> keys ?D \<longleftrightarrow> StaleWhileRevalidate \<in> keys ?E" unfolding in_keys_map_of D [OF directive_key.distinct(4)] ..
    have "MaxAge \<in> keys (add_revalidate st ?D)" using present unfolding in_keys_map_of revalidate_lookup by simp
    moreover have "map_of (add_revalidate st ?D) k = map_of ?E k" if "k \<noteq> MaxAge" "k \<noteq> StaleWhileRevalidate" for k
      unfolding revalidate_lookup using D [OF that(1)] that(2) by (simp only: if_False simp_thms)
    moreover have "StaleWhileRevalidate \<in> keys (add_revalidate st ?D) \<longleftrightarrow>
        st_stale_while_revalidate st \<noteq> None \<or> StaleWhileRevalidate \<in> keys ?E"
      using swr unfolding in_keys_map_of revalidate_lookup by simp
    moreover have "map_of (add_revalidate st ?D) MaxAge = Some (ttl_directive st)" if "\<not> f'"
      unfolding revalidate_lookup using that by simp
    ultimately show ?thesis unfolding eq using no_flag by blast
  qed
qed


text \<open>C25: A response is never stored without an expiry. The directives handed to Pingora always have a maximal
  age: the configured one when the origin gave no freshness, and, with \<open>cache_control: false\<close>, whatever the
  origin gave, without a shared maximal age beside it. A time for serving stale responses is there when
  the configuration or the origin gives one, and every other directive is the origin's.\<close>

theorem stored_freshness:
  assumes "distinct_keys (unwrap_or cc [])"
  shows "let ds = ensure_max_age cc st; origin = unwrap_or cc [] in
    MaxAge \<in> keys ds \<and>
    (st_cache_control st = Some False \<or> (MaxAge \<notin> keys origin \<and> SMaxAge \<notin> keys origin) \<longrightarrow>
       map_of ds MaxAge = Some (ttl_directive st) \<and> SMaxAge \<notin> keys ds) \<and>
    (StaleWhileRevalidate \<in> keys ds \<longleftrightarrow> st_stale_while_revalidate st \<noteq> None \<or> StaleWhileRevalidate \<in> keys origin) \<and>
    map_of ds (OtherDirective name) = map_of origin (OtherDirective name)"
proof -
  let ?E = "considered st cc" and ?O = "unwrap_or cc []"
  have E: "?E = (if st_cache_control st = Some False then AList.delete SMaxAge (AList.delete MaxAge ?O) else ?O)"
    by (auto simp: considered_def unwrap_or_def split: option.splits)
  have "distinct_keys ?E" unfolding E using assms by (simp add: distinct_delete)
  note cases = ensure_max_age_cases [OF this]
  have kept: "map_of ?E k = map_of ?O k" if "k \<noteq> MaxAge" "k \<noteq> SMaxAge" for k unfolding E using that by simp
  have dropped: "MaxAge \<notin> keys ?E \<and> SMaxAge \<notin> keys ?E"
    if "st_cache_control st = Some False \<or> (MaxAge \<notin> keys ?O \<and> SMaxAge \<notin> keys ?O)"
    using that unfolding E by (auto simp: keys_delete)
  have swr: "StaleWhileRevalidate \<in> keys ?E \<longleftrightarrow> StaleWhileRevalidate \<in> keys ?O"
    unfolding in_keys_map_of using kept by simp
  have smax: "SMaxAge \<in> keys (ensure_max_age cc st) \<longleftrightarrow> SMaxAge \<in> keys ?E"
    unfolding in_keys_map_of using cases by simp
  have other: "map_of (ensure_max_age cc st) (OtherDirective name) = map_of ?O (OtherDirective name)" using cases kept by simp
  show ?thesis unfolding Let_def other using cases dropped swr smax by blast
qed

section \<open>The properties at work\<close>

text \<open>A header map of raw values and a hash that keeps the last bytes of its input.\<close>

definition raw_fields :: "(string \<times> string) list \<Rightarrow> string \<Rightarrow> string list" where
  "raw_fields h k = map snd (filter (\<lambda>(n, v). n = to_ascii_lowercase k \<and> list_all field_byte v) h)"

definition parse_clean :: "string \<Rightarrow> string + uri" where
  "parse_clean s = (if CHR ''#'' \<in> set s \<or> NUL \<in> set s then Inl ''invalid uri'' else parse_origin_form s)"

definition byte_fields :: "(string \<times> string) list http_lib" where
  "byte_fields =
     \<lparr>hl_get_all = (\<lambda>h k. map to_str (raw_fields h k)),
      hl_remove = (\<lambda>h k. filter (\<lambda>(n, _). n \<noteq> to_ascii_lowercase k) h),
      hl_append = (\<lambda>h k v. if list_all field_byte v then Inr (h @ [(to_ascii_lowercase k, v)]) else Inl ''invalid value''),
      hl_uri = parse_clean\<rparr>"

lemma parse_clean_wf: "parse_clean s = Inr u \<Longrightarrow> uri_wf (q\<lparr>rh_uri := u\<rparr>)"
proof -
  assume "parse_clean s = Inr u"
  then have s: "CHR ''#'' \<notin> set s" "NUL \<notin> set s" and u: "ur_path u = takeWhile (\<lambda>c. c \<noteq> CHR ''?'') s"
      "ur_query u = map_option snd (split_once CHR ''?'' s)"
    by (auto simp: parse_clean_def parse_origin_form_def split: if_splits)
  have path: "set (ur_path u) \<subseteq> set s" "CHR ''?'' \<notin> set (ur_path u)" unfolding u(1) by (auto dest: set_takeWhileD)
  have "CHR ''#'' \<notin> set q \<and> NUL \<notin> set q" if "ur_query u = Some q" for q
    using that s unfolding u(2) by (auto simp: split_once_Some)
  then show ?thesis using path s(1) by (auto simp: uri_wf_def)
qed

lemma byte_fields_wf: "uri_wf r \<Longrightarrow> http_wf byte_fields raw_fields r"
  by (auto simp: http_wf_def raw_ok_def byte_fields_def raw_fields_def list_all_iff intro: parse_clean_wf)

definition tail_sha :: "string \<Rightarrow> string" where
  "tail_sha s = rev (take 32 (rev s @ replicate 32 NUL))"

lemma length_tail_sha: "length (tail_sha s) = 32"
  by (simp add: tail_sha_def)

lemma last_tail_sha: "s \<noteq> [] \<Longrightarrow> last (tail_sha s) = last s"
  by (cases s rule: rev_cases) (simp_all add: tail_sha_def)

lemma tail_sha_collision_free: "\<forall>s \<in> S. s \<noteq> [] \<Longrightarrow> inj_on last S \<Longrightarrow> collision_free tail_sha S"
  unfolding collision_free_def inj_on_def by (metis last_tail_sha length_tail_sha)

definition sample_cache_config :: "bool \<Rightarrow> cache_config" where
  "sample_cache_config authenticated =
     \<lparr>cc_ttl = 60, cc_cache_ttl = None, cc_cache_http_methods = [''GET''], cc_cache_method = None,
      cc_cache_http_statuses = [200], cc_cache_http_status = None, cc_no_cache_str = [], cc_no_cache = None, cc_vary = [],
      cc_cache_strategy = None, cc_cache_key = None, cc_cache_bypass = None, cc_hide_cache_headers = False,
      cc_cache_control = None, cc_consumer_isolation = True, cc_cache_set_cookie = False, cc_enable_purge = False,
      cc_scope = Local, cc_max_file_size_bytes = None, cc_max_resp_body_size = None, cc_max_resp_body_size_explicit = False,
      cc_stale_while_revalidate_secs = None, cc_respect_s_maxage = True, cc_cache_authenticated_requests = authenticated,
      cc_cache_set_cookie_responses = False\<rparr>"

definition sample_parsers :: cache_parsers where
  "sample_parsers = \<lparr>cp_method_ok = (\<lambda>_. True), cp_header_name_ok = (\<lambda>_. True), cp_regex = (\<lambda>_. Inr (\<lambda>_. False))\<rparr>"

definition sample_settings :: "bool \<Rightarrow> cache_settings" where
  "sample_settings authenticated =
     \<lparr>st_ttl = 60, st_statuses = [200], st_vary = [], st_hide_cache_headers = False, st_enable_purge = False,
      st_max_file_size_bytes = 1, st_stale_while_revalidate = None, st_respect_s_maxage = True,
      st_cache_authenticated_requests = authenticated, st_cache_set_cookie_responses = False, st_cache_key = None,
      st_cache_bypass = [], st_no_cache = [], st_no_cache_flag_key = instance_ctx_key ''pingsix_proxy_cache_no_cache_'' 1,
      st_cache_control = None, st_consumer_isolation = True, st_policy_fingerprint = 7\<rparr>"

definition sample_cache :: "bool \<Rightarrow> plugin_cache" where
  "sample_cache authenticated = \<lparr>ca_methods = [''GET''], ca_no_cache_regex = [], ca_settings = sample_settings authenticated\<rparr>"

lemma sample_cache_created:
  "create_cache_plugin sample_parsers (\<lambda>_. 7) (sample_cache_config b) 1 1 = Inr (sample_cache b)"
  by (simp add: create_cache_plugin_def cache_config_from_def cache_derived_check_def cache_alias_check_def apply_aliases_def
      sample_cache_config_def sample_parsers_def sample_cache_def sample_settings_def validate_methods_def validate_statuses_def
      validate_regexes_def validate_vary_headers_def validate_optional_templates_def when_some_def normalized_vary_def
      sort_dedup_def resolve_max_file_size_def effective_max_file_size_bytes_def Let_def)

definition hidden_key_auth :: key_auth where
  "hidden_key_auth = \<lparr>ka_config = \<lparr>ka_header = ''apikey'', ka_query = [], ka_key = Some ''k1z'', ka_keys = [],
     ka_hide_credentials = True, ka_realm = None\<rparr>, ka_digests = [tail_sha ''k1z'']\<rparr>"

definition as_plugin :: "('s \<Rightarrow> 's \<times> ('e + filter_verdict)) \<Rightarrow> ('s, 'e) plugin" where
  "as_plugin f = \<lparr>pl_name = [], pl_priority = 0, pl_exit_transform = None, pl_request_filter = f,
     pl_early_request_filter = (\<lambda>s. (s, Inr ())), pl_upstream_request_filter = (\<lambda>s. (s, Inr ())),
     pl_response_filter = (\<lambda>s. (s, Inr ())), pl_request_body_filter = (\<lambda>s. (s, Inr ())),
     pl_response_body_filter = (\<lambda>s. (s, Inr ())), pl_upstream_peer_filter = (\<lambda>s. (s, Inr ())), pl_logging = (\<lambda>s. s)\<rparr>"

definition key_then_cache :: "(((string \<times> string) list, unit, cache_settings) exchange, proxy_error) plugin list" where
  "key_then_cache = [as_plugin (key_auth_request_filter tail_sha byte_fields hidden_key_auth),
     as_plugin (cache_request_filter byte_fields (sample_cache True))]"

definition keyed_session :: "(string \<times> string) list \<Rightarrow> (string \<times> string) list session" where
  "keyed_session hs = \<lparr>ss_request = \<lparr>rh_method = ''GET'',
       rh_uri = \<lparr>ur_scheme = None, ur_host = None, ur_path = ''/'', ur_query = None\<rparr>, rh_headers = hs\<rparr>,
     ss_is_tls = True, ss_client = None, ss_server_addr = None\<rparr>"

definition bare_ctx :: "unit cache_ctx" where
  "bare_ctx = ctx_default"

definition keyed_ctx :: "unit cache_ctx" where
  "keyed_ctx = ctx_set CTX_KEY_CACHE_SETTINGS (AnyCache (sample_settings True))
     (ctx_set (st_no_cache_flag_key (sample_settings True)) (AnyBool False)
       (note_request_credential tail_sha ''k1z'' (mark_request_has_credentials bare_ctx)))"

lemma keyed_run:
  assumes "hs = [(''apikey'', ''k1z'')] \<or> hs = [(''apikey'', ''k1z''), (''accept'', ''a'')]"
  shows "run_request key_then_cache (keyed_session hs, bare_ctx) =
    ((keyed_session (tl hs), keyed_ctx), Inr Continue)"
proof -
  have header: "get_req_header_value byte_fields (ss_request (keyed_session hs)) ''apikey'' = Some ''k1z''"
    using assms by (elim disjE; simp only:; code_simp)
  have removed: "remove_header byte_fields (keyed_session hs) ''apikey'' = keyed_session (tl hs)"
    using assms by (elim disjE; simp only:; code_simp)
  have key: "key_auth_request_filter tail_sha byte_fields hidden_key_auth (keyed_session hs, bare_ctx) =
      ((keyed_session (tl hs), note_request_credential tail_sha ''k1z'' (mark_request_has_credentials bare_ctx)), Inr Continue)"
    using header removed by (simp add: key_auth_request_filter_def presented_key_def hidden_key_auth_def is_valid_key_def
        secret_digest_def constant_time_digest_eq_def Let_def)
  show ?thesis
    by (simp add: key_then_cache_def as_plugin_def key)
      (simp add: cache_request_filter_def sample_cache_def sample_settings_def keyed_session_def keyed_ctx_def
        should_bypass_authenticated_request_def Let_def)
qed


definition no_jwt :: "(unit, unit) jwt_lib" where
  "no_jwt = \<lparr>jl_from_secret = (\<lambda>_. ()), jl_from_rsa_pem = Inl, jl_from_ec_pem = Inl, jl_from_ed_pem = Inl,
     jl_decode = (\<lambda>_ _ _. Inl InvalidToken), jl_base64 = Inr\<rparr>"

lemma keyed_wf: "http_wf byte_fields raw_fields (ss_request (keyed_session hs))"
  by (rule byte_fields_wf) (simp add: uri_wf_def keyed_session_def)

definition first_headers :: "(string \<times> string) list" where "first_headers = [(''apikey'', ''k1z'')]"

definition second_headers :: "(string \<times> string) list" where "second_headers = [(''apikey'', ''k1z''), (''accept'', ''a'')]"

lemma no_credential_headers:
  assumes "hs = first_headers \<or> hs = second_headers" and "name \<in> set CREDENTIAL_HEADERS"
  shows "raw_fields (rh_headers (ss_request (keyed_session hs))) name = []"
  using assms by (auto simp: first_headers_def second_headers_def CREDENTIAL_HEADERS_def raw_fields_def keyed_session_def
      to_ascii_lowercase_def ascii_lower_def)

lemma keyed_capture:
  assumes "hs = first_headers \<or> hs = second_headers"
  shows "capture_credentials tail_sha raw_fields (ss_request (keyed_session hs)) ctx_default = bare_ctx"
  using no_credential_headers [OF assms]
  by (simp add: capture_credentials_def headers_indicate_shared_cache_credentials_def contains_key_def CREDENTIAL_HEADERS_def
      bare_ctx_def ctx_default_def Let_def)

lemma keyed_passes:
  assumes "hs = first_headers \<or> hs = second_headers"
  shows "passes tail_sha byte_fields raw_fields plain_base64 no_jwt key_then_cache (keyed_session hs) (keyed_session (tl hs)) keyed_ctx"
proof -
  have "\<forall>p \<in> set key_then_cache. pl_request_filter p \<in> cache_hooks tail_sha byte_fields plain_base64 no_jwt"
    by (auto simp: key_then_cache_def as_plugin_def cache_hooks_def auth_hooks_def)
  moreover have "run_request key_then_cache (keyed_session hs, bare_ctx) = ((keyed_session (tl hs), keyed_ctx), Inr Continue)"
    by (rule keyed_run) (use assms in \<open>simp add: first_headers_def second_headers_def\<close>)
  ultimately show ?thesis unfolding passes_def keyed_capture [OF assms] using keyed_wf by blast
qed

lemma keyed_ctx_digests:
  "original_credential_digest keyed_ctx = None"
  "noted_credential_digest keyed_ctx = Some (hex_encode (tail_sha (note_input None ''k1z'')))"
  by (simp_all add: keyed_ctx_def ctx_set_def note_request_credential_def mark_request_has_credentials_def bare_ctx_def ctx_default_def)

definition keyed_guards :: "unit guard list" where
  "keyed_guards = [KeyGuard hidden_key_auth, CacheGuard (sample_cache True)]"

lemma keyed_plugins:
  "map pl_request_filter key_then_cache = map (guard_hook tail_sha byte_fields plain_base64 no_jwt) keyed_guards"
  by (simp add: key_then_cache_def keyed_guards_def as_plugin_def)

lemma keyed_verified:
  assumes "hs = first_headers \<or> hs = second_headers"
  shows "verified_credentials tail_sha byte_fields raw_fields plain_base64 no_jwt keyed_guards (keyed_session hs) = [''k1z'']"
proof -
  have hs: "hs = [(''apikey'', ''k1z'')] \<or> hs = [(''apikey'', ''k1z''), (''accept'', ''a'')]"
    using assms by (simp add: first_headers_def second_headers_def)
  have header: "get_req_header_value byte_fields (ss_request (keyed_session hs)) ''apikey'' = Some ''k1z''"
    using hs by (elim disjE; simp only:; code_simp)
  have removed: "remove_header byte_fields (keyed_session hs) ''apikey'' = keyed_session (tl hs)"
    using hs by (elim disjE; simp only:; code_simp)
  have "key_auth_request_filter tail_sha byte_fields hidden_key_auth (keyed_session hs, bare_ctx) =
      ((keyed_session (tl hs), note_request_credential tail_sha ''k1z'' (mark_request_has_credentials bare_ctx)), Inr Continue)"
    using header removed by (simp add: key_auth_request_filter_def presented_key_def hidden_key_auth_def is_valid_key_def
        secret_digest_def constant_time_digest_eq_def Let_def)
  then show ?thesis using header unfolding verified_credentials_def keyed_capture [OF assms]
    by (simp add: keyed_guards_def presented_key_def hidden_key_auth_def split: prod.splits sum.splits filter_verdict.splits)
qed

lemma last_hex_encode: "s \<noteq> [] \<Longrightarrow> last (hex_encode s) = hex_digit (of_char (last s) mod 16)"
  by (cases s rule: rev_cases) (simp_all add: hex_encode_def)

lemma keyed_inputs:
  assumes "hs = first_headers \<or> hs = second_headers"
  shows "identity_inputs tail_sha raw_fields (ss_request (keyed_session hs)) [''k1z''] keyed_ctx =
    {isolation_input keyed_ctx, ISOLATION_DOMAIN @ concat (map (\<lambda>name. credential_field name []) CREDENTIAL_HEADERS),
     note_input None ''k1z''}"
proof -
  have "credential_input raw_fields (rh_headers (ss_request (keyed_session hs))) =
      ISOLATION_DOMAIN @ concat (map (\<lambda>name. credential_field name []) CREDENTIAL_HEADERS)"
    using no_credential_headers [OF assms] by (auto simp: credential_input_def intro!: arg_cong [of _ _ concat])
  moreover have "note_inputs tail_sha [''k1z''] = {note_input None ''k1z''}"
    using note_inputs_simps(2) [of tail_sha "[]" "''k1z''"] by (simp del: note_inputs_simps(2))
  ultimately show ?thesis unfolding identity_inputs_def by simp
qed

lemma keyed_collision_free:
  "collision_free tail_sha
     (identity_inputs tail_sha raw_fields (ss_request (keyed_session first_headers)) [''k1z''] keyed_ctx \<union>
      identity_inputs tail_sha raw_fields (ss_request (keyed_session second_headers)) [''k1z''] keyed_ctx)"
proof -
  let ?n = "note_input None ''k1z''" and ?i = "isolation_input keyed_ctx"
    and ?c = "ISOLATION_DOMAIN @ concat (map (\<lambda>name. credential_field name []) CREDENTIAL_HEADERS)"
  have n: "last ?n = CHR ''z''" "?n \<noteq> []" by code_simp+
  have c: "last ?c = NUL" "?c \<noteq> []" by code_simp+
  have i: "?i = (ISOLATION_DOMAIN @ [NUL]) @ hex_encode (tail_sha ?n)" by (simp add: isolation_input_def keyed_ctx_digests)
  have long: "length (hex_encode (tail_sha ?n)) = 64" by (simp add: length_tail_sha)
  then have "hex_encode (tail_sha ?n) \<noteq> []" by (metis list.size(3) zero_neq_numeral)
  moreover have "tail_sha ?n \<noteq> []" using length_tail_sha [of ?n] by (metis list.size(3) zero_neq_numeral)
  ultimately have "last ?i = hex_digit (of_char (CHR ''z'') mod 16)" "?i \<noteq> []"
    unfolding i using n by (simp_all add: last_hex_encode last_tail_sha)
  moreover have "hex_digit (of_char (CHR ''z'') mod 16) = CHR ''a''" by code_simp
  ultimately show ?thesis using n c
    by (intro tail_sha_collision_free) (auto simp: keyed_inputs inj_on_def)
qed

lemma keyed_settings: "ctx_settings keyed_ctx = Some (ca_settings (sample_cache True))"
  by (simp add: ctx_settings_def keyed_ctx_def ctx_set_def sample_cache_def)

text \<open>Two requests with the key k1z in a header that key-auth removes; their further headers differ.\<close>

lemma cache_keeps_consumers_apart_witness:
  "let r = ss_request (keyed_session first_headers); r' = ss_request (keyed_session second_headers);
       checked = verified_credentials tail_sha byte_fields raw_fields plain_base64 no_jwt keyed_guards
   in isolates (sample_settings True) \<and>
      collision_free tail_sha (identity_inputs tail_sha raw_fields r [''k1z''] keyed_ctx \<union>
        identity_inputs tail_sha raw_fields r' [''k1z''] keyed_ctx) \<and>
      checked (keyed_session first_headers) = [''k1z''] \<and>
      checked (keyed_session first_headers) = checked (keyed_session second_headers) \<and>
      raw_fields (rh_headers r) ''cookie'' = raw_fields (rh_headers r') ''cookie''"
proof -
  let ?t = "\<lparr>ct_route = None, ct_override = None\<rparr>" and ?d = "\<lambda>_. ''/''"
  have isolates: "isolates (ca_settings (sample_cache True))" by (simp add: isolates_def sample_cache_def sample_settings_def)
  have key: "cache_key tail_sha byte_fields ?d ?t (keyed_session (tl first_headers)) keyed_ctx =
      cache_key tail_sha byte_fields ?d ?t (keyed_session (tl second_headers)) keyed_ctx"
    unfolding cache_key_def keyed_settings by (simp add: primary_key_def sample_cache_def sample_settings_def keyed_session_def
        get_req_header_value_def byte_fields_def raw_fields_def first_headers_def second_headers_def HOST_HEADER_def
        to_ascii_lowercase_def ascii_lower_def)
  note apart = cache_keeps_consumers_apart [OF keyed_passes [OF disjI1 [OF refl]] keyed_passes [OF disjI2 [OF refl]]
      keyed_plugins keyed_plugins sample_cache_created sample_cache_created keyed_settings keyed_settings _ key]
  have cookie: "''cookie'' \<in> set CREDENTIAL_HEADERS" by (simp add: CREDENTIAL_HEADERS_def)
  note checked = keyed_verified [OF disjI1 [OF refl]] keyed_verified [OF disjI2 [OF refl]]
  have "verified_credentials tail_sha byte_fields raw_fields plain_base64 no_jwt keyed_guards (keyed_session first_headers) =
      verified_credentials tail_sha byte_fields raw_fields plain_base64 no_jwt keyed_guards (keyed_session second_headers) \<and>
      (\<forall>name \<in> set CREDENTIAL_HEADERS. raw_fields (rh_headers (ss_request (keyed_session first_headers))) name =
        raw_fields (rh_headers (ss_request (keyed_session second_headers))) name)"
    using apart keyed_collision_free isolates by (simp add: checked)
  then show ?thesis using keyed_collision_free isolates cookie checked unfolding Let_def by (simp add: sample_cache_def)
qed


definition cache_then_key :: "(((string \<times> string) list, unit, cache_settings) exchange, proxy_error) plugin list" where
  "cache_then_key = [as_plugin (cache_request_filter byte_fields (sample_cache False)),
     as_plugin (key_auth_request_filter tail_sha byte_fields hidden_key_auth)]"

definition early_ctx :: "unit cache_ctx" where
  "early_ctx = note_request_credential tail_sha ''k1z'' (mark_request_has_credentials
     (ctx_set CTX_KEY_CACHE_SETTINGS (AnyCache (sample_settings False))
       (ctx_set (st_no_cache_flag_key (sample_settings False)) (AnyBool False) bare_ctx)))"

lemma early_run: "run_request cache_then_key (keyed_session first_headers, bare_ctx) = ((keyed_session [], early_ctx), Inr Continue)"
proof -
  have header: "get_req_header_value byte_fields (ss_request (keyed_session first_headers)) ''apikey'' = Some ''k1z''" by code_simp
  have removed: "remove_header byte_fields (keyed_session first_headers) ''apikey'' = keyed_session []" by code_simp
  have key: "key_auth_request_filter tail_sha byte_fields hidden_key_auth (keyed_session first_headers, cx) =
      ((keyed_session [], note_request_credential tail_sha ''k1z'' (mark_request_has_credentials cx)), Inr Continue)" for cx :: "unit cache_ctx"
    using header removed by (simp add: key_auth_request_filter_def presented_key_def hidden_key_auth_def is_valid_key_def
        secret_digest_def constant_time_digest_eq_def Let_def)
  have "cache_request_filter byte_fields (sample_cache False) (keyed_session first_headers, bare_ctx) =
      ((keyed_session first_headers, ctx_set CTX_KEY_CACHE_SETTINGS (AnyCache (sample_settings False))
        (ctx_set (st_no_cache_flag_key (sample_settings False)) (AnyBool False) bare_ctx)), Inr Continue)"
    by (simp add: cache_request_filter_def sample_cache_def sample_settings_def keyed_session_def bare_ctx_def ctx_default_def
        ctx_set_def should_bypass_authenticated_request_def Let_def)
  then show ?thesis by (simp add: cache_then_key_def as_plugin_def key early_ctx_def)
qed

definition any_cc :: "((string \<times> string) list, unit) cc_lib" where
  "any_cc = \<lparr>cl_from_resp_headers = (\<lambda>_. None), cl_no_store = (\<lambda>_. False), cl_private = (\<lambda>_. False),
     cl_no_cache = (\<lambda>_. False), cl_no_cache_field_names = (\<lambda>_. False), cl_resp_cacheable = (\<lambda>_ _ _. ())\<rparr>"

text \<open>The cache plugin runs first and enables the cache; key-auth then admits the request by its header.\<close>

lemma authenticated_requests_bypass_witness:
  "ctx_settings early_ctx = Some (sample_settings False) \<and>
   run_request cache_then_key (keyed_session first_headers, bare_ctx) = ((keyed_session [], early_ctx), Inr Continue) \<and>
   request_cache_filter byte_fields raw_fields (keyed_session []) early_ctx = None \<and>
   (\<exists>reason. response_cacheability raw_fields any_cc 200 [] early_ctx = Uncacheable reason)"
proof -
  have hooks: "\<forall>p \<in> set cache_then_key. pl_request_filter p \<in> cache_hooks tail_sha byte_fields plain_base64 no_jwt"
    "pl_request_filter ` set cache_then_key \<inter> auth_hooks tail_sha byte_fields plain_base64 no_jwt \<noteq> {}"
    by (auto simp: cache_then_key_def as_plugin_def cache_hooks_def auth_hooks_def)
  have pass: "passes tail_sha byte_fields raw_fields plain_base64 no_jwt cache_then_key (keyed_session first_headers) (keyed_session []) early_ctx"
    unfolding passes_def keyed_capture [OF disjI1 [OF refl]] using keyed_wf early_run hooks by blast
  have settings: "ctx_settings early_ctx = Some (sample_settings False)"
    by (simp add: ctx_settings_def early_ctx_def ctx_set_def note_request_credential_def mark_request_has_credentials_def)
  have "\<not> st_cache_authenticated_requests (sample_settings False)" by (simp add: sample_settings_def)
  from authenticated_requests_bypass [OF pass settings this disjI2 [OF hooks(2)], where L = any_cc and status = 200 and h = "[]"]
  show ?thesis using settings early_run by blast
qed

definition argument_settings :: cache_settings where
  "argument_settings = (sample_settings False)\<lparr>st_cache_key := Some [''$arg_v'']\<rparr>"

definition argument_session :: "bool \<Rightarrow> string \<Rightarrow> (string \<times> string) list session" where
  "argument_session tls query = \<lparr>ss_request = \<lparr>rh_method = ''GET'',
       rh_uri = \<lparr>ur_scheme = None, ur_host = None, ur_path = ''/'', ur_query = Some query\<rparr>, rh_headers = []\<rparr>,
     ss_is_tls = tls, ss_client = None, ss_server_addr = None\<rparr>"

lemma cache_key_scheme_confusion_witness:
  "let cx = ctx_set CTX_KEY_CACHE_SETTINGS (AnyCache argument_settings) bare_ctx; t = \<lparr>ct_route = None, ct_override = None\<rparr>
   in cache_key tail_sha byte_fields (\<lambda>_. ''/'') t (argument_session False ''v=secure'') cx =
      cache_key tail_sha byte_fields (\<lambda>_. ''/'') t (argument_session True ''v=ecure'') cx"
proof -
  let ?cx = "ctx_set CTX_KEY_CACHE_SETTINGS (AnyCache argument_settings) bare_ctx"
  have settings: "ctx_settings ?cx = Some argument_settings" by (simp add: ctx_settings_def ctx_set_def)
  have st: "\<not> isolates argument_settings" "st_cache_key argument_settings = Some [''$arg_v'']"
    by (simp_all add: argument_settings_def isolates_def sample_settings_def)
  have tls: "\<not> ss_is_tls (argument_session False ''v=secure'')" "ss_is_tls (argument_session True ''v=ecure'')"
    by (simp_all add: argument_session_def)
  have "get_query_value (ss_request (argument_session False ''v=secure'')) ''v'' = Some (CHR ''s'' # ''ecure'')"
    "get_query_value (ss_request (argument_session True ''v=ecure'')) ''v'' = Some ''ecure''" by code_simp+
  then show ?thesis unfolding Let_def by (rule cache_key_scheme_confusion [OF settings settings st tls])
qed

lemma stored_freshness_witness:
  "let st = (sample_settings False)\<lparr>st_cache_control := Some False\<rparr>;
       ds = ensure_max_age (Some [(SMaxAge, Some ''9''), (OtherDirective ''public'', None), (MaxAge, Some ''999'')]) st
   in MaxAge \<in> keys ds \<and> SMaxAge \<notin> keys ds \<and> map_of ds MaxAge = Some (Some (nat_to_string 60)) \<and>
      map_of ds (OtherDirective ''public'') = Some None"
proof -
  let ?st = "(sample_settings False)\<lparr>st_cache_control := Some False\<rparr>"
    and ?cc = "Some [(SMaxAge, Some ''9''), (OtherDirective ''public'', None), (MaxAge, Some ''999'')]"
  have "distinct_keys (unwrap_or ?cc [])" by (simp add: unwrap_or_def)
  from stored_freshness [OF this, of ?st "''public''"]
  show ?thesis unfolding Let_def by (simp add: ttl_directive_def sample_settings_def unwrap_or_def)
qed

text \<open>With an explicit cache key, the variable of the method is refused only in its plain form, and the key of a
  PURGE is then not that of the GET it is meant to remove.\<close>

lemma purge_misses_method_key:
  "is_ok (cache_alias_check ((sample_cache_config False)\<lparr>cc_cache_key := Some [''${request_method}$uri'']\<rparr>)) \<and>
   render_cache_key_template byte_fields (ss_request (keyed_session [])) ''${request_method}$uri'' = ''GET/'' \<and>
   render_cache_key_template byte_fields ((ss_request (keyed_session []))\<lparr>rh_method := ''PURGE''\<rparr>) ''${request_method}$uri'' = ''PURGE/''"
  by code_simp

end
