(* ===== verification/Spec2Isabelle.thy ===== *)
theory Spec2Isabelle
  imports Status Plugin_Core Limiting Limit_Req Limit_Conn Limit_Count Api_Breaker
    Config_Model Graph_Store Secrets Plugin_Registry Config_Graph Publication
    Words Selection Load_Balancer Health_Check
    Text Matcher Request Ssl_Match Route Route_Match Traffic_Split Compile Etcd_Store Etcd_Sync
    Credentials Auth Cache
begin

text \<open>
  A verification library for pingsix, an API gateway written in Rust over the Pingora proxy.

  \<^bold>\<open>The program.\<close> A control plane keeps a graph of resources (routes, services, upstreams, global
  rules, certificates) in a store, either etcd or memory. The Admin API changes the graph by guarded
  compare-and-swap; watch batches and snapshots of the store are validated, prepared, compiled and
  published as an immutable runtime snapshot. The data plane matches a request to a route, runs the
  compiled plugin pipeline in its phases, and selects a backend of the route's upstream.

  \<^bold>\<open>The theories\<close>, in the order of their dependencies (sources under \<open>src/src\<close>):

  \<^item> \<open>Prelude\<close>: results as sums, options, association lists, ordered maps, strings.
  \<^item> \<open>Status\<close> (\<open>core/status.rs\<close>): readiness and its reasons, as operations on the status record.
  \<^item> \<open>Plugin_Core\<close> (\<open>core/plugin\<close>): rejections, phases, executor and pipeline.
  \<^item> \<open>Limiting\<close> (\<open>plugins/limiter_shards.rs\<close>, \<open>plugins/limiting.rs\<close>): bounded sharded state with a
    budgeted recency sweep; the locale \<open>shard_client\<close> is what the limiters rely on.
  \<^item> \<open>Limit_Req\<close>, \<open>Limit_Conn\<close>, \<open>Limit_Count\<close>, \<open>Api_Breaker\<close>: the four stateful traffic plugins.
    Their main theorems are about whole runs of the hooks from an empty state: requests accepted per span
    of time, the exact sliding decision, the automaton over the responses of a route.
    \<open>Limit_Conn\<close> runs the asynchronous hook as interleaved steps over a heap of shared counters; its
    bound is one for a counter, which a sweep may replace under a key.
  \<^item> \<open>Config_Model\<close> (\<open>config/resources.rs\<close>, \<open>config/node.rs\<close>, \<open>core/error.rs\<close>): the resources, their
    validators, node addresses.
  \<^item> \<open>Graph_Store\<close> (\<open>proxy/graph_mutation/store.rs\<close>): keys, stored graphs, compare-and-swap. The
    locales \<open>graph_store\<close> and \<open>graph_clients\<close> state what the store promises and what clients that plan
    on snapshots obtain from it; both are interpreted on the in-memory store.
  \<^item> \<open>Secrets\<close> (\<open>utils/encryption.rs\<close>, \<open>proxy/graph_mutation/secrets.rs\<close>, the derive macro): the
    keyring, the walk over secret fields, redaction and restoration.
  \<^item> \<open>Plugin_Registry\<close> (\<open>plugins/mod.rs\<close>): the inventory of plugins and its dispatch.
  \<^item> \<open>Config_Graph\<close> (\<open>proxy/control_plane/resources.rs\<close>, \<open>proxy/graph_mutation/decode.rs\<close> and
    \<open>authority.rs\<close>): resource sets, the whole-graph gate, watch batches, and the Admin operations with
    any number of clients in flight.
  \<^item> \<open>Publication\<close> (\<open>proxy/graph_mutation/state.rs\<close>, \<open>authority.rs\<close>): publication records, ingestion
    and the preparation worker with its generation fence, retries and shutdown, as interleaved events;
    from every reachable state one round of the worker publishes the newest snapshot that compiles.
  \<^item> \<open>Words\<close>: bit sets in lists of words.
  \<^item> \<open>Selection\<close> (\<open>proxy/upstream/selection.rs\<close>): backends in priority groups and the cursor over them.
  \<^item> \<open>Load_Balancer\<close> (\<open>proxy/upstream/load_balancer.rs\<close>): passive health with half-open probes, the
    three stages of a selection, peer timeouts.
  \<^item> \<open>Health_Check\<close> (\<open>proxy/upstream/health_check.rs\<close>, \<open>RuntimeStore::publish\<close>): the registry of active
    checks, its executor as a step relation, and the reconciliation of a published snapshot.
  \<^item> \<open>Text\<close>, \<open>Matcher\<close>: byte strings with the characters of UTF-8, and routers of the third-party
    radix matcher as a record with the laws \<open>matchit_ok\<close>.
  \<^item> \<open>Ssl_Match\<close> (\<open>proxy/ssl.rs\<close>): server names, the certificate matcher and its callback, proved
    equal to the choice of the most specific pattern.
  \<^item> \<open>Route\<close> (\<open>proxy/service.rs\<close>, \<open>proxy/global_rule.rs\<close>, \<open>proxy/route.rs\<close>): the compiled objects and
    the merge of plugins.
  \<^item> \<open>Request\<close> (\<open>utils/request.rs\<close>, \<open>utils/apisix_vars.rs\<close>): query parameters and cookies, the host of
    a request, variables, templates and conditions; the header map and the URI parser are the record
    \<open>http_lib\<close>.
  \<^item> \<open>Route_Match\<close> (\<open>proxy/route.rs\<close>): the two-level route matcher.
  \<^item> \<open>Traffic_Split\<close> (\<open>plugins/traffic_split.rs\<close>): weighted targets, their preparation and the draw.
  \<^item> \<open>Compile\<close> (\<open>proxy/control_plane/plan.rs\<close>, \<open>compile.rs\<close>, \<open>proxy/runtime.rs\<close>): the plan of what a
    publication reuses and prepares, compilation along the plan, the runtime snapshot and its health
    checks; every running object is shown to be the construction of its present configuration, and
    compiling to succeed on what the plan prepares when plugins, balancers and certificates build.
  \<^item> \<open>Etcd_Store\<close> (\<open>config/etcd/keys.rs\<close>, \<open>config/etcd/store.rs\<close>): the key mapping of the namespace,
    snapshots, and commits as guarded transactions whose answer may be lost. etcd is the record
    \<open>etcd_service\<close> with the laws \<open>etcd_ok\<close>; the locale \<open>shared_store\<close> states what clients of a store that
    may be silent obtain, and every \<open>graph_store\<close> is one.
  \<^item> \<open>Etcd_Sync\<close> (\<open>config/etcd/sync.rs\<close>): watch events and the list-and-watch loop as a state machine
    beside the publication; a run of it is compared with the history of the namespace, and refused
    lists and batches are shown to leave everything that serves in place.
  \<^item> \<open>Credentials\<close> (\<open>core/secret.rs\<close>, \<open>core/plugin/pipeline.rs\<close>, \<open>plugins/cache/http.rs\<close>,
    \<open>service/http.rs\<close>): the credentials a request arrives with and those that plugins verify, and the
    digest that keeps consumers apart in the shared cache, proved to determine both.
  \<^item> \<open>Auth\<close> (\<open>plugins/key_auth.rs\<close>, \<open>basic_auth.rs\<close>, \<open>jwt_auth.rs\<close>, \<open>csrf.rs\<close>): the authentication
    plugins as hooks on a session and the request context. That hiding a key works rests on documented
    behaviour of the http crate (\<open>headers_ok\<close>, \<open>uris_ok\<close>, \<open>uri_edits_ok\<close>), with an instance that has it.
    Every authentication hook adds the credential it verified to the context (locale
    \<open>credential_hooks\<close>); the time of a csrf token and its random part are shown to be confusable.
  \<^item> \<open>Cache\<close> (\<open>plugins/cache.rs\<close>, \<open>plugins/cache/http.rs\<close>, \<open>service/http.rs\<close>): the response cache from its
    configuration to its keys, and that it keeps apart the consumers the authentication plugins verified;
    the plugins of a request are given as data (\<open>guard\<close>), so that what they checked is a function.

  \<^bold>\<open>Conventions.\<close> A fallible function returns a sum with the error on the left. Maps are association
  lists with distinct keys, ordered maps sorted ones. A clock reading is a number of nanoseconds
  passed in; \<open>f64\<close> is a rational; machine integers that may wrap are words. Awaits are points between
  steps. What is not code of the repository is a parameter: serde and TLS checks (\<open>externals\<close>),
  the cipher (\<open>cipher\<close> with the laws \<open>cipher_ok\<close>), hashes, Pingora's rate estimator, the conversion
  of status codes.

  \<^bold>\<open>Fuel.\<close> No definition runs on fuel: the recursions are structural or have a measure, and the sweep
  loop runs its constant budget of 8. The grouped cursor is a \<open>partial_function\<close>; that it returns on
  the groups the program builds is proved.

  \<^bold>\<open>Not modelled.\<close> Network and file I/O, HTTP parsing and response mapping, DNS, TLS, compression and
  other codecs, metrics, the request paths that Pingora drives (the remaining callbacks of the HTTP service),
  and the plugins that are glue over these or over a regex engine; the manifest lists every component
  with its status.
\<close>

end
